(* ===== verification/Prelude.thy ===== *)
theory Prelude
  imports Main "HOL-Library.Word" "HOL-Library.Multiset"
begin

text \<open>
  Shared vocabulary of the development: results of fallible code, state-passing programs,
  little-endian byte strings, alignment arithmetic, and the list lemmas about overwriting and
  reading a region of a byte array that every ledger proof rests on.
\<close>

named_theorems prog_defs \<open>unfolding rules for the program combinators\<close>
named_theorems codec_defs \<open>unfolding rules for the encodings of the stored types\<close>

section \<open>Results and programs\<close>

text \<open>
  A Rust \<^verbatim>\<open>Result\<close> has the two constructors \<open>Ok\<close> and \<open>Err\<close>; a panic is the third way a call
  may end. A method with a \<^verbatim>\<open>&mut\<close> receiver is a function from the state it may change to a
  result and the state it leaves behind, on every one of the three exits.
\<close>

datatype ('a, 'e) outcome = Ok 'a | Err 'e | Panic

type_synonym ('s, 'a, 'e) prog = "'s \<Rightarrow> ('a, 'e) outcome \<times> 's"

type_synonym byte = "8 word"

definition ret :: "'a \<Rightarrow> ('s, 'a, 'e) prog" where
  [prog_defs]: "ret x s = (Ok x, s)"

definition fail :: "'e \<Rightarrow> ('s, 'a, 'e) prog" where
  [prog_defs]: "fail e s = (Err e, s)"

definition panic :: "('s, 'a, 'e) prog" where
  [prog_defs]: "panic s = (Panic, s)"

text \<open>\<open>mbind m f\<close> is \<^verbatim>\<open>let x = m?; f(x)\<close>: an error or a panic of \<open>m\<close> ends the whole call.\<close>

definition mbind :: "('s, 'a, 'e) prog \<Rightarrow> ('a \<Rightarrow> ('s, 'b, 'e) prog) \<Rightarrow> ('s, 'b, 'e) prog" where
  "mbind m f s = (case m s of
     (Ok x, s') \<Rightarrow> f x s'
   | (Err e, s') \<Rightarrow> (Err e, s')
   | (Panic, s') \<Rightarrow> (Panic, s'))"

text \<open>A computation that changes nothing.\<close>

definition lift_res :: "('a, 'e) outcome \<Rightarrow> ('s, 'a, 'e) prog" where
  [prog_defs]: "lift_res r s = (r, s)"

text \<open>
  A method whose receiver is a ledger and which also takes the memory works on the pair of both:
  \<open>on_mem\<close> runs a memory operation, \<open>get_self\<close> and \<open>put_self\<close> read and replace the receiver.
\<close>

definition on_mem :: "('m, 'a, 'e) prog \<Rightarrow> ('l \<times> 'm, 'a, 'e) prog" where
  [prog_defs]: "on_mem p s = (case p (snd s) of (r, m') \<Rightarrow> (r, (fst s, m')))"

definition get_self :: "('l \<times> 'm, 'l, 'e) prog" where
  [prog_defs]: "get_self s = (Ok (fst s), s)"

definition put_self :: "'l \<Rightarrow> ('l \<times> 'm, unit, 'e) prog" where
  [prog_defs]: "put_self l s = (Ok (), (l, snd s))"

text \<open>\<open>focus get set p\<close> runs a method of a component on that component of the receiver.\<close>

definition focus ::
  "('l \<Rightarrow> 'k) \<Rightarrow> ('k \<Rightarrow> 'l \<Rightarrow> 'l) \<Rightarrow> ('k \<times> 'm, 'a, 'e) prog \<Rightarrow> ('l \<times> 'm, 'a, 'e) prog" where
  [prog_defs]: "focus get_part set_part p s =
     (case p (get_part (fst s), snd s) of (r, (k', m')) \<Rightarrow> (r, (set_part k' (fst s), m')))"

primrec is_ok :: "('a, 'e) outcome \<Rightarrow> bool" where
  "is_ok (Ok x) = True"
| "is_ok (Err e) = False"
| "is_ok Panic = False"

primrec map_outcome :: "('a \<Rightarrow> 'b) \<Rightarrow> ('a, 'e) outcome \<Rightarrow> ('b, 'e) outcome" where
  "map_outcome f (Ok x) = Ok (f x)"
| "map_outcome f (Err e) = Err e"
| "map_outcome f Panic = Panic"

primrec bind_outcome :: "('a, 'e) outcome \<Rightarrow> ('a \<Rightarrow> ('b, 'e) outcome) \<Rightarrow> ('b, 'e) outcome" where
  "bind_outcome (Ok x) f = f x"
| "bind_outcome (Err e) f = Err e"
| "bind_outcome Panic f = Panic"

section \<open>Machine arithmetic on \<open>nat\<close>\<close>

text \<open>
  Unsigned integers are naturals below \<open>2 ^ w\<close>. Casts and the operators of a release build wrap
  around, written as \<open>mod\<close>; the \<^verbatim>\<open>saturating_*\<close> methods stop at the bounds.
\<close>

definition u16_max :: nat where "u16_max = 65535"

definition as_u8 :: "nat \<Rightarrow> nat" where "as_u8 n = n mod 2 ^ 8"
definition as_u16 :: "nat \<Rightarrow> nat" where "as_u16 n = n mod 2 ^ 16"
definition as_u32 :: "nat \<Rightarrow> nat" where "as_u32 n = n mod 2 ^ 32"

definition sat_add16 :: "nat \<Rightarrow> nat \<Rightarrow> nat" where
  "sat_add16 a b = min u16_max (a + b)"

definition sat_mul16 :: "nat \<Rightarrow> nat \<Rightarrow> nat" where
  "sat_mul16 a b = min u16_max (a * b)"

definition wrap_add16 :: "nat \<Rightarrow> nat \<Rightarrow> nat" where
  "wrap_add16 a b = (a + b) mod 2 ^ 16"

definition wrap_mul16 :: "nat \<Rightarrow> nat \<Rightarrow> nat" where
  "wrap_mul16 a b = (a * b) mod 2 ^ 16"

definition div_ceil :: "nat \<Rightarrow> nat \<Rightarrow> nat" where
  "div_ceil n a = (if n mod a > 0 then n div a + 1 else n div a)"

lemma as_u16_id [simp]: "n \<le> 65535 \<Longrightarrow> as_u16 n = n"
  by (simp add: as_u16_def)

lemma as_u16_le [simp]: "as_u16 n \<le> 65535"
  using mod_less_divisor [of 65536 n] by (simp add: as_u16_def)

lemma as_u32_id [simp]: "n < 4294967296 \<Longrightarrow> as_u32 n = n"
  by (simp add: as_u32_def)

lemma sat_add16_le [simp]: "sat_add16 a b \<le> 65535"
  by (simp add: sat_add16_def u16_max_def)

lemma sat_add16_eq: "a + b \<le> 65535 \<Longrightarrow> sat_add16 a b = a + b"
  by (simp add: sat_add16_def u16_max_def)

lemma wrap_sub: "b \<le> a \<Longrightarrow> a < M \<Longrightarrow> (a + M - b) mod M = a - (b :: nat)"
proof -
  assume "b \<le> a" and "a < M"
  then have "a + M - b = (a - b) + M" by simp
  then have "(a + M - b) mod M = (a - b) mod M" by (simp only: mod_add_self2)
  then show ?thesis using \<open>a < M\<close> by simp
qed

subsection \<open>Alignment\<close>

text \<open>
  \<^verbatim>\<open>align_up::<E>(offset)\<close>, with the alignment as first argument. An \<^verbatim>\<open>ALIGNMENT\<close> of zero would make
  the Rust code divide by zero; the laws of an encoding exclude it.
\<close>

definition align_up :: "nat \<Rightarrow> nat \<Rightarrow> nat" where
  "align_up a n = div_ceil n a * a"

lemma align_up_cases:
  obtains (exact) "n mod a = 0" and "align_up a n = n"
  | (round) "0 < n mod a" and "align_up a n + n mod a = n + a"
proof (cases "n mod a = 0")
  case True
  have "n div a * a + n mod a = n" by (rule div_mult_mod_eq)
  with True have "align_up a n = n" by (simp add: align_up_def div_ceil_def)
  with True show thesis by (rule exact)
next
  case False
  have "n div a * a + n mod a = n" by (rule div_mult_mod_eq)
  moreover have "align_up a n = n div a * a + a"
    using False by (simp add: align_up_def div_ceil_def algebra_simps)
  ultimately have "align_up a n + n mod a = n + a" by linarith
  with False show thesis by (intro round) auto
qed

lemma align_up_ge: "0 < a \<Longrightarrow> n \<le> align_up a n"
proof -
  assume "0 < a"
  then have "n mod a < a" by simp
  then show ?thesis by (cases rule: align_up_cases [of n a]) linarith+
qed

lemma align_up_less: "0 < a \<Longrightarrow> align_up a n < n + a"
  by (cases rule: align_up_cases [of n a]) auto

lemma align_up_dvd [simp]: "a dvd align_up a n"
  by (simp add: align_up_def)

lemma align_up_id [simp]: "a dvd n \<Longrightarrow> align_up a n = n"
  by (auto simp: align_up_def div_ceil_def mod_eq_0_iff_dvd)

lemma align_up_least: "0 < a \<Longrightarrow> a dvd m \<Longrightarrow> n \<le> m \<Longrightarrow> align_up a n \<le> m"
proof -
  assume a: "0 < a" and d: "a dvd m" and le: "n \<le> m"
  obtain k where k: "m = a * k" using d by (elim dvdE)
  obtain j where j: "align_up a n = a * j" using align_up_dvd [of a n] by (elim dvdE)
  have "align_up a n < n + a" using a by (rule align_up_less)
  with le k j have "a * j < a * (k + 1)" by simp
  then have "j < k + 1" by (rule mult_less_cancel1 [THEN iffD1, THEN conjunct2])
  then show ?thesis using j k by simp
qed

lemma align_up_mono: "0 < a \<Longrightarrow> n \<le> m \<Longrightarrow> align_up a n \<le> align_up a m"
  by (rule align_up_least) (auto intro: order_trans align_up_ge)

lemma align_up_0 [simp]: "align_up a 0 = 0"
  by (simp add: align_up_def div_ceil_def)

lemma align_up_add: "a dvd k \<Longrightarrow> align_up a (k + n) = k + align_up a n"
proof (cases "a = 0")
  case True
  then show "a dvd k \<Longrightarrow> ?thesis" by (simp add: align_up_def)
next
  case False
  assume "a dvd k"
  then obtain j where "k = a * j" by (elim dvdE)
  with False show ?thesis
    by (simp add: align_up_def div_ceil_def algebra_simps)
qed

lemma align_up_le_page:
  assumes "0 < a" and "a dvd 65536" and "n \<le> 65536"
  shows "align_up a n \<le> 65536"
  using assms by (rule align_up_least)

section \<open>Little-endian byte strings\<close>

text \<open>\<^verbatim>\<open>to_le_bytes\<close> and \<^verbatim>\<open>from_le_bytes\<close> for an integer of \<open>k\<close> bytes.\<close>

fun le_bytes :: "nat \<Rightarrow> nat \<Rightarrow> byte list" where
  "le_bytes 0 n = []"
| "le_bytes (Suc k) n = of_nat (n mod 256) # le_bytes k (n div 256)"

fun from_le :: "byte list \<Rightarrow> nat" where
  "from_le [] = 0"
| "from_le (b # bs) = unat b + 256 * from_le bs"

lemma length_le_bytes [simp]: "length (le_bytes k n) = k"
  by (induction k arbitrary: n) auto

lemma unat_byte_of_nat [simp]: "unat (of_nat (n mod 256) :: byte) = n mod 256"
  by (simp add: unat_of_nat take_bit_eq_mod)

lemma from_le_le_bytes_mod: "from_le (le_bytes k n) = n mod 256 ^ k"
proof (induction k arbitrary: n)
  case 0
  then show ?case by simp
next
  case (Suc k)
  have "n mod (256 * 256 ^ k) = 256 * (n div 256 mod 256 ^ k) + n mod 256"
    by (rule mod_mult2_eq)
  then show ?case by (simp only: le_bytes.simps from_le.simps unat_byte_of_nat Suc.IH power_Suc)
qed

lemma from_le_le_bytes [simp]: "n < 256 ^ k \<Longrightarrow> from_le (le_bytes k n) = n"
  by (simp add: from_le_le_bytes_mod)

lemma from_le_less: "from_le bs < 256 ^ length bs"
proof (induction bs)
  case Nil
  then show ?case by simp
next
  case (Cons b bs)
  have "unat b < 256" using unsigned_less [of b] by simp
  with Cons show ?case by simp
qed

lemma le_bytes_from_le [simp]: "length bs = k \<Longrightarrow> le_bytes k (from_le bs) = bs"
proof (induction bs arbitrary: k)
  case Nil
  then show ?case by simp
next
  case (Cons b bs)
  have b: "unat b < 256" using unsigned_less [of b] by simp
  from Cons show ?case using b by (cases k) auto
qed

lemma le_bytes_inject: "n < 256 ^ k \<Longrightarrow> m < 256 ^ k \<Longrightarrow> le_bytes k n = le_bytes k m \<longleftrightarrow> n = m"
  by (metis from_le_le_bytes)

lemma le_bytes_0: "le_bytes k 0 = replicate k 0"
  by (induction k) auto

lemma le_bytes_not_Nil [simp]: "le_bytes (Suc k) n \<noteq> []"
  by simp

section \<open>Regions of a byte array\<close>

text \<open>
  \<open>slice off len xs\<close> is \<^verbatim>\<open>&xs[off..off + len]\<close>; \<open>splice_at off bs xs\<close> is the array after
  \<^verbatim>\<open>xs[off..off + bs.len()].copy_from_slice(bs)\<close>.
\<close>

definition slice :: "nat \<Rightarrow> nat \<Rightarrow> 'a list \<Rightarrow> 'a list" where
  "slice off len xs = take len (drop off xs)"

definition splice_at :: "nat \<Rightarrow> 'a list \<Rightarrow> 'a list \<Rightarrow> 'a list" where
  "splice_at off bs xs = take off xs @ bs @ drop (off + length bs) xs"

lemma length_slice [simp]: "off + len \<le> length xs \<Longrightarrow> length (slice off len xs) = len"
  by (simp add: slice_def)

lemma length_splice_at [simp]:
  "off + length bs \<le> length xs \<Longrightarrow> length (splice_at off bs xs) = length xs"
  by (simp add: splice_at_def)

lemma nth_splice_at:
  assumes "off + length bs \<le> length xs" and "i < length xs"
  shows "splice_at off bs xs ! i =
     (if off \<le> i \<and> i < off + length bs then bs ! (i - off) else xs ! i)"
  using assms by (auto simp: splice_at_def nth_append min_def)

lemma nth_slice: "i < len \<Longrightarrow> off + len \<le> length xs \<Longrightarrow> slice off len xs ! i = xs ! (off + i)"
  by (simp add: slice_def)

lemma slice_0_length [simp]: "slice 0 (length xs) xs = xs"
  by (simp add: slice_def)

lemma slice_len_0 [simp]: "slice off 0 xs = []"
  by (simp add: slice_def)

lemma splice_at_Nil [simp]: "splice_at off [] xs = xs"
  by (simp add: splice_at_def)

lemma splice_at_all: "length bs = length xs \<Longrightarrow> splice_at 0 bs xs = bs"
  by (simp add: splice_at_def)

lemma slice_splice_same [simp]:
  "off + length bs \<le> length xs \<Longrightarrow> len = length bs \<Longrightarrow> slice off len (splice_at off bs xs) = bs"
  by (simp add: slice_def splice_at_def)

lemma slice_splice_prefix:
  assumes "off + length bs \<le> length xs" and "len \<le> length bs"
  shows "slice off len (splice_at off bs xs) = take len bs"
  using assms by (simp add: slice_def splice_at_def)

lemma slice_splice_disjoint:
  assumes "off + length bs \<le> length xs" and "o' + len \<le> length xs"
    and "o' + len \<le> off \<or> off + length bs \<le> o'"
  shows "slice o' len (splice_at off bs xs) = slice o' len xs"
  using assms by (intro nth_equalityI) (auto simp: nth_slice nth_splice_at)

lemma splice_at_slice [simp]:
  "off + len \<le> length xs \<Longrightarrow> splice_at off (slice off len xs) xs = xs"
  by (intro nth_equalityI) (auto simp: nth_slice nth_splice_at)

lemma splice_splice_undo:
  assumes "off + length bs \<le> length xs" and "len = length bs"
  shows "splice_at off (slice off len xs) (splice_at off bs xs) = xs"
  using assms by (intro nth_equalityI) (auto simp: nth_slice nth_splice_at)

lemma splice_splice_append:
  assumes "off + length bs + length cs \<le> length xs"
  shows "splice_at (off + length bs) cs (splice_at off bs xs) = splice_at off (bs @ cs) xs"
  using assms by (intro nth_equalityI) (auto simp: nth_splice_at nth_append)

lemma take_splice_at:
  assumes "off + length bs \<le> n" and "n \<le> length xs"
  shows "take n (splice_at off bs xs) = splice_at off bs (take n xs)"
  using assms by (intro nth_equalityI) (auto simp: nth_splice_at)

lemma slice_slice:
  assumes "a + len \<le> n" and "off + n \<le> length xs"
  shows "slice a len (slice off n xs) = slice (off + a) len xs"
  using assms by (intro nth_equalityI) (auto simp: nth_slice add.assoc)

lemma slice_splice_inside:
  assumes "off \<le> a" and "a + length bs \<le> off + n" and "off + n \<le> length xs"
  shows "slice off n (splice_at a bs xs) = splice_at (a - off) bs (slice off n xs)"
  using assms by (intro nth_equalityI) (auto simp: nth_slice nth_splice_at add.commute)

lemma slice_append_left:
  "off + len \<le> length xs \<Longrightarrow> slice off len (xs @ ys) = slice off len xs"
  by (simp add: slice_def)

lemma take_slice: "k \<le> len \<Longrightarrow> off + len \<le> length xs \<Longrightarrow> take k (slice off len xs) = slice off k xs"
  by (simp add: slice_def min_def)

lemma drop_slice: "drop k (slice off len xs) = slice (off + k) (len - k) xs"
  by (simp add: slice_def drop_take add.commute)

section \<open>Searching and updating a vector\<close>

text \<open>\<^verbatim>\<open>iter().position(pred)\<close>, \<^verbatim>\<open>iter_mut().find(pred)\<close> with an update through the reference, and
  \<^verbatim>\<open>swap_remove\<close>.\<close>

fun position :: "('a \<Rightarrow> bool) \<Rightarrow> 'a list \<Rightarrow> nat option" where
  "position pred [] = None"
| "position pred (x # xs) = (if pred x then Some 0 else map_option Suc (position pred xs))"

fun update_first :: "('a \<Rightarrow> bool) \<Rightarrow> ('a \<Rightarrow> 'a) \<Rightarrow> 'a list \<Rightarrow> 'a list" where
  "update_first pred f [] = []"
| "update_first pred f (x # xs) = (if pred x then f x # xs else x # update_first pred f xs)"

definition swap_remove :: "nat \<Rightarrow> 'a list \<Rightarrow> 'a list" where
  "swap_remove i xs = butlast (xs[i := last xs])"

definition vec_resize :: "nat \<Rightarrow> 'a \<Rightarrow> 'a list \<Rightarrow> 'a list" where
  "vec_resize n x xs = take n (xs @ replicate n x)"

lemma length_vec_resize [simp]: "length (vec_resize n x xs) = n"
  by (simp add: vec_resize_def)

lemma position_Some:
  "position pred xs = Some i \<longleftrightarrow> i < length xs \<and> pred (xs ! i) \<and> (\<forall>j < i. \<not> pred (xs ! j))"
proof (induction xs arbitrary: i)
  case Nil
  then show ?case by simp
next
  case (Cons x xs)
  then show ?case by (cases i) (auto simp: nth_Cons split: nat.splits)
qed

lemma position_None: "position pred xs = None \<longleftrightarrow> (\<forall>x \<in> set xs. \<not> pred x)"
  by (induction xs) auto

lemma find_SomeD: "find P xs = Some x \<Longrightarrow> x \<in> set xs \<and> P x"
  by (induction xs) (auto split: if_splits)

lemma length_update_first [simp]: "length (update_first pred f xs) = length xs"
  by (induction xs) auto

lemma update_first_conv:
  "update_first pred f xs = (case position pred xs of None \<Rightarrow> xs | Some i \<Rightarrow> xs[i := f (xs ! i)])"
  by (induction xs) (auto split: option.splits)

lemma swap_remove_last [simp]: "swap_remove (length xs) (xs @ [x]) = xs"
  by (simp add: swap_remove_def)

lemma swap_remove_nth:
  assumes "i < length xs"
  shows "swap_remove i (xs @ [x]) = xs[i := x]"
  using assms by (simp add: swap_remove_def list_update_append)

lemma swap_remove_cases:
  assumes "i < length xs"
  obtains (last) ys where "xs = ys @ [xs ! i]" and "i = length ys" and "swap_remove i xs = ys"
  | (inner) ys where "xs = ys @ [last xs]" and "i < length ys" and "ys ! i = xs ! i"
      and "swap_remove i xs = ys[i := last xs]"
proof -
  obtain ys x where xs: "xs = ys @ [x]" using assms by (cases xs rule: rev_cases) auto
  show thesis
  proof (cases "i = length ys")
    case True
    then show thesis using xs last by simp
  next
    case False
    then have "i < length ys" using assms xs by simp
    then show thesis using xs inner [of ys] by (simp add: swap_remove_nth nth_append)
  qed
qed

lemma swap_remove_perm:
  assumes "i < length xs"
  shows "\<exists>as bs. xs = as @ xs ! i # bs \<and>
     mset (swap_remove i xs) = mset (as @ bs)"
  using assms
proof (cases rule: swap_remove_cases)
  case (last ys)
  then show ?thesis by (intro exI [of _ ys] exI [of _ "[]"]) simp
next
  case (inner ys)
  have "ys = take i ys @ ys ! i # drop (Suc i) ys" using inner(2) by (rule id_take_nth_drop)
  then have "xs = take i ys @ xs ! i # (drop (Suc i) ys @ [last xs])"
    using inner(1,3) by (metis append.assoc append_Cons)
  moreover have "mset (swap_remove i xs) = mset (take i ys @ (drop (Suc i) ys @ [last xs]))"
    using inner(2,4) by (simp add: upd_conv_take_nth_drop)
  ultimately show ?thesis by blast
qed

lemma set_swap_remove:
  assumes "distinct xs" and "i < length xs"
  shows "set (swap_remove i xs) = set xs - {xs ! i}" and "distinct (swap_remove i xs)"
proof -
  obtain as bs where xs: "xs = as @ xs ! i # bs" and ms: "mset (swap_remove i xs) = mset (as @ bs)"
    using swap_remove_perm [OF assms(2)] by blast
  have d: "distinct (as @ xs ! i # bs)" using assms(1) xs by simp
  have "set (swap_remove i xs) = set (as @ bs)" using ms by (rule mset_eq_setD)
  moreover have "set xs = set (as @ xs ! i # bs)" using xs by simp
  ultimately show "set (swap_remove i xs) = set xs - {xs ! i}" using d by auto
  have "distinct (as @ bs)" using d by simp
  then show "distinct (swap_remove i xs)" using mset_eq_imp_distinct_iff [OF ms] by simp
qed

lemma length_swap_remove [simp]: "length (swap_remove i xs) = length xs - 1"
  by (simp add: swap_remove_def)

section \<open>Program lemmas\<close>

lemma bind_outcome_Ok_iff: "bind_outcome r f = Ok y \<longleftrightarrow> (\<exists>x. r = Ok x \<and> f x = Ok y)"
  by (cases r) auto

lemma mbind_Ok [simp]: "m s = (Ok x, s') \<Longrightarrow> mbind m f s = f x s'"
  by (simp add: mbind_def)

lemma mbind_Err [simp]: "m s = (Err e, s') \<Longrightarrow> mbind m f s = (Err e, s')"
  by (simp add: mbind_def)

lemma mbind_Panic [simp]: "m s = (Panic, s') \<Longrightarrow> mbind m f s = (Panic, s')"
  by (simp add: mbind_def)

lemma mbind_OkE:
  assumes "mbind m f s = (Ok y, s'')"
  obtains x s' where "m s = (Ok x, s')" and "f x s' = (Ok y, s'')"
  using assms by (auto simp: mbind_def split: prod.splits outcome.splits)

lemma mbind_cases:
  assumes "mbind m f s = (r, s'')"
  obtains (ok) x s' where "m s = (Ok x, s')" and "f x s' = (r, s'')"
  | (err) e where "m s = (Err e, s'')" and "r = Err e"
  | (panic) "m s = (Panic, s'')" and "r = Panic"
  using assms by (auto simp: mbind_def split: prod.splits outcome.splits)

lemma ret_run [simp]: "ret x s = (Ok x, s)"
  by (simp add: ret_def)

lemma fail_run [simp]: "fail e s = (Err e, s)"
  by (simp add: fail_def)

lemma panic_run [simp]: "panic s = (Panic, s)"
  by (simp add: panic_def)

lemma lift_res_run [simp]: "lift_res r s = (r, s)"
  by (simp add: lift_res_def)

lemma get_self_run [simp]: "get_self (l, m) = (Ok l, (l, m))"
  by (simp add: get_self_def)

lemma put_self_run [simp]: "put_self l' (l, m) = (Ok (), (l', m))"
  by (simp add: put_self_def)

lemma focus_run [simp]:
  "p (g l, m) = (r, (k, m')) \<Longrightarrow> focus g st p (l, m) = (r, (st k l, m'))"
  by (simp add: focus_def)

lemma on_mem_run [simp]: "p m = (r, m') \<Longrightarrow> on_mem p (l, m) = (r, (l, m'))"
  by (simp add: on_mem_def)

end
