(* ===== verification/Encoding.thy ===== *)
theory Encoding
  imports Prelude
begin

text \<open>
  The storage vocabulary of \<^verbatim>\<open>wasm-dbms-api/src/memory\<close>: the error values, the \<^verbatim>\<open>Encode\<close> trait as a
  record of its associated items, and the laws an encoding has to satisfy to be stored on a page.
\<close>

section \<open>Errors\<close>

datatype decode_error =
    BadRawRecordHeader
  | InvalidJson string
  | IdentityDecodeError string
  | TryFromSliceError string
  | Utf8Error string
  | TooShort
  | InvalidDiscriminant nat
  | UuidError string

datatype memory_error =
    AutoincrementOverflow string
  | ConstraintViolation string
  | DataTooLarge (dtl_page_size: nat) (dtl_requested: nat)
  | DecodeError decode_error
  | FailedToAllocatePage
  | UnclaimedPagesFull (capacity: nat)
  | IndexNotFound "string list"
  | NameCollision (candidate: string) (existing: string)
  | EntryNotFound
  | KeyTooLarge (ktl_size: nat) (ktl_max: nat)
  | OffsetNotAligned (ona_offset: nat) (ona_alignment: nat)
  | OutOfBounds
  | SegmentationFault (sf_page: nat) (sf_offset: nat) (sf_data_size: nat) (sf_page_size: nat)
  | ProviderError string

type_synonym 'a memory_result = "('a, memory_error) outcome"
type_synonym ('m, 'a) mem_prog = "('m, 'a, memory_error) prog"

section \<open>The Encode trait\<close>

datatype data_size = Fixed nat | Dynamic

definition get_fixed_size :: "data_size \<Rightarrow> nat option" where
  "get_fixed_size d = (case d of Fixed sz \<Rightarrow> Some sz | Dynamic \<Rightarrow> None)"

definition DEFAULT_ALIGNMENT :: nat where "DEFAULT_ALIGNMENT = 32"

record 'a codec =
  SIZE :: data_size
  ALIGNMENT :: nat
  encode :: "'a \<Rightarrow> byte list"
  decode :: "byte list \<Rightarrow> 'a memory_result"
  enc_size :: "'a \<Rightarrow> nat"

definition saturating_size :: "nat \<Rightarrow> nat \<Rightarrow> nat" where
  "saturating_size header payload_len =
     (if payload_len \<le> u16_max then sat_add16 header payload_len else u16_max)"

definition length_prefix :: "nat \<Rightarrow> byte list" where
  "length_prefix len = le_bytes 2 (if len \<le> u16_max then len else u16_max)"

text \<open>
  \<^verbatim>\<open>data[a..b].try_into()?\<close> on a slice expression: Rust panics when the range leaves the data; the
  conversion itself cannot fail when the range has the length of the array.
\<close>

definition slice_or_panic :: "nat \<Rightarrow> nat \<Rightarrow> byte list \<Rightarrow> byte list memory_result" where
  "slice_or_panic off len data = (if off + len \<le> length data then Ok (slice off len data) else Panic)"

lemma slice_or_panic_Ok [simp]:
  "off + len \<le> length data \<Longrightarrow> slice_or_panic off len data = Ok (slice off len data)"
  by (simp add: slice_or_panic_def)

lemma length_length_prefix [simp]: "length (length_prefix n) = 2"
  by (simp add: length_prefix_def)

lemma from_le_length_prefix: "n \<le> 65535 \<Longrightarrow> from_le (length_prefix n) = n"
  by (simp add: length_prefix_def u16_max_def)

lemma saturating_size_exact: "header + n \<le> 65535 \<Longrightarrow> saturating_size header n = header + n"
  by (simp add: saturating_size_def sat_add16_def u16_max_def)

lemma saturating_size_overflow: "65535 < header + n \<Longrightarrow> saturating_size header n = 65535"
  by (simp add: saturating_size_def sat_add16_def u16_max_def)

section \<open>Laws of an encoding\<close>

text \<open>
  What storage relies on for the values \<open>valid\<close> singles out: the advertised size is the length of the
  encoding and fits an \<^verbatim>\<open>MSize\<close>, a fixed-size type has that size, the alignment is positive, and
  decoding the encoding gives the value back.
\<close>

locale encoding =
  fixes C :: "'a codec" and valid :: "'a \<Rightarrow> bool"
  assumes alignment_pos: "0 < ALIGNMENT C"
    and size_encode: "valid x \<Longrightarrow> enc_size C x = length (encode C x)"
    and size_u16: "valid x \<Longrightarrow> length (encode C x) \<le> 65535"
    and fixed_size: "valid x \<Longrightarrow> SIZE C = Fixed n \<Longrightarrow> length (encode C x) = n"
    and decode_encode: "valid x \<Longrightarrow> decode C (encode C x) = Ok x"

text \<open>
  A ledger is read back from its page together with whatever bytes follow it, so its decoder has
  to stop at the end of the value.
\<close>

locale prefix_encoding = encoding +
  assumes decode_prefix: "valid x \<Longrightarrow> decode C (encode C x @ rest) = Ok x"

section \<open>Sequences of fixed-width entries\<close>

text \<open>
  Several tables are a count followed by entries of one width. \<open>decode_entries w dec n data\<close> decodes
  \<open>n\<close> entries of \<open>w\<close> bytes; a slice that leaves the data panics, as the Rust slice expression does.
\<close>

fun decode_entries ::
  "nat \<Rightarrow> (byte list \<Rightarrow> 'a memory_result) \<Rightarrow> nat \<Rightarrow> byte list \<Rightarrow> 'a list memory_result" where
  "decode_entries w dec 0 data = Ok []"
| "decode_entries w dec (Suc n) data =
     bind_outcome (slice_or_panic 0 w data) (\<lambda>e.
     bind_outcome (dec e) (\<lambda>x.
     bind_outcome (decode_entries w dec n (drop w data)) (\<lambda>xs. Ok (x # xs))))"

lemma decode_entries_concat:
  assumes "\<And>x. x \<in> set xs \<Longrightarrow> length (enc x) = w \<and> dec (enc x) = Ok x"
  shows "decode_entries w dec (length xs) (concat (map enc xs) @ rest) = Ok xs"
  using assms
proof (induction xs)
  case Nil
  then show ?case by simp
next
  case (Cons x xs)
  then have "length (enc x) = w" and "dec (enc x) = Ok x" by auto
  moreover from this have "slice 0 w (enc x @ ys) = enc x" for ys
    by (simp add: slice_def)
  ultimately show ?case using Cons by simp
qed

lemma length_concat_const:
  "(\<And>x. x \<in> set xs \<Longrightarrow> length (enc x) = w) \<Longrightarrow> length (concat (map enc xs)) = w * length xs"
  by (induction xs) auto

lemma decode_entries_Ok_length:
  "decode_entries w dec n data = Ok xs \<Longrightarrow> length xs = n"
  by (induction n arbitrary: data xs) (auto simp: bind_outcome_Ok_iff)

end
