(* ===== verification/Memory_Provider.thy ===== *)
theory Memory_Provider
  imports Encoding
begin

text \<open>
  \<^verbatim>\<open>wasm-dbms-memory/src/provider.rs\<close>: the \<^verbatim>\<open>MemoryProvider\<close> trait as a record of its methods, the
  contract its documentation states as a locale, and \<^verbatim>\<open>HeapMemoryProvider\<close> as the instance that
  satisfies it.
\<close>

section \<open>The trait\<close>

definition WASM_PAGE_SIZE :: nat where "WASM_PAGE_SIZE = 65536"

text \<open>\<open>p_read off len\<close> is \<^verbatim>\<open>read(offset, buf)\<close> for a buffer of \<open>len\<close> bytes and returns its contents.\<close>

record 'p provider =
  PAGE_SIZE :: nat
  p_size :: "'p \<Rightarrow> nat"
  p_pages :: "'p \<Rightarrow> nat"
  p_grow :: "nat \<Rightarrow> ('p, nat) mem_prog"
  p_read :: "nat \<Rightarrow> nat \<Rightarrow> ('p, byte list) mem_prog"
  p_write :: "nat \<Rightarrow> byte list \<Rightarrow> ('p, unit) mem_prog"
  p_flush :: "('p, unit) mem_prog"

section \<open>HeapMemoryProvider\<close>

text \<open>
  The vector of bytes. \<open>alloc_limit\<close> stands for the allocator: the size past which
  \<^verbatim>\<open>usize::try_from\<close> or \<^verbatim>\<open>try_reserve_exact\<close> fails.
\<close>

record heap_memory =
  memory :: "byte list"
  alloc_limit :: nat

definition heap_size :: "heap_memory \<Rightarrow> nat" where
  "heap_size h = length (memory h)"

definition heap_pages :: "heap_memory \<Rightarrow> nat" where
  "heap_pages h = heap_size h div WASM_PAGE_SIZE"

definition heap_checked_range :: "nat \<Rightarrow> nat \<Rightarrow> heap_memory \<Rightarrow> (nat \<times> nat) memory_result" where
  "heap_checked_range offset len h =
     (if offset + len < 2 ^ 64 \<and> offset + len \<le> heap_size h then Ok (offset, offset + len)
      else Err OutOfBounds)"

definition heap_grow :: "nat \<Rightarrow> (heap_memory, nat) mem_prog" where
  "heap_grow new_pages h =
     (let previous_size = heap_size h;
          additional = new_pages * WASM_PAGE_SIZE;
          new_size = previous_size + additional
      in if additional < 2 ^ 64 \<and> new_size < 2 ^ 64 \<and> new_size \<le> alloc_limit h
         then (Ok previous_size, h\<lparr>memory := memory h @ replicate additional 0\<rparr>)
         else (Err FailedToAllocatePage, h))"

definition heap_read :: "nat \<Rightarrow> nat \<Rightarrow> (heap_memory, byte list) mem_prog" where
  "heap_read offset len h =
     (map_outcome (\<lambda>(a, b). slice a (b - a) (memory h)) (heap_checked_range offset len h), h)"

definition heap_write :: "nat \<Rightarrow> byte list \<Rightarrow> (heap_memory, unit) mem_prog" where
  "heap_write offset buf h =
     (case heap_checked_range offset (length buf) h of
        Ok (a, b) \<Rightarrow> (Ok (), h\<lparr>memory := splice_at a buf (memory h)\<rparr>)
      | Err e \<Rightarrow> (Err e, h)
      | Panic \<Rightarrow> (Panic, h))"

definition HeapMemoryProvider :: "heap_memory provider" where
  "HeapMemoryProvider = \<lparr>PAGE_SIZE = WASM_PAGE_SIZE, p_size = heap_size, p_pages = heap_pages,
     p_grow = heap_grow, p_read = heap_read, p_write = heap_write, p_flush = ret ()\<rparr>"

text \<open>\<^verbatim>\<open>HeapMemoryProvider::default()\<close> on a machine whose allocator serves \<open>limit\<close> bytes.\<close>

definition heap_default :: "nat \<Rightarrow> heap_memory" where
  "heap_default limit = \<lparr>memory = [], alloc_limit = limit\<rparr>"

section \<open>The contract\<close>

text \<open>
  \<open>bytes\<close> is the content of the memory and \<open>inv\<close> the provider's own invariant. The contract is the
  trait's documentation: the size is a whole number of pages, growing appends pages whose content is
  not promised or fails without effect, and a read or write succeeds exactly when its range lies in
  the memory. Page numbers are \<^verbatim>\<open>u32\<close>, so a provider never serves \<open>2\<^sup>3\<^sup>2\<close> pages.
\<close>

locale memory_provider =
  fixes P :: "'p provider" and inv :: "'p \<Rightarrow> bool" and bytes :: "'p \<Rightarrow> byte list"
  assumes page_size: "PAGE_SIZE P = 65536"
    and pages: "inv p \<Longrightarrow> length (bytes p) = 65536 * p_pages P p"
    and pages_u32: "inv p \<Longrightarrow> p_pages P p < 2 ^ 32"
    and grow: "inv p \<Longrightarrow>
        (\<exists>p' junk. p_grow P n p = (Ok (length (bytes p)), p') \<and> inv p' \<and>
           bytes p' = bytes p @ junk \<and> length junk = 65536 * n) \<or>
        (\<exists>e. p_grow P n p = (Err e, p))"
    and read_ok: "inv p \<Longrightarrow> off + len \<le> length (bytes p) \<Longrightarrow>
        p_read P off len p = (Ok (slice off len (bytes p)), p)"
    and write_ok: "inv p \<Longrightarrow> off + length bs \<le> length (bytes p) \<Longrightarrow>
        \<exists>p'. p_write P off bs p = (Ok (), p') \<and> inv p' \<and> bytes p' = splice_at off bs (bytes p)"
    and read_fault: "inv p \<Longrightarrow> length (bytes p) < off + len \<Longrightarrow> \<exists>e. p_read P off len p = (Err e, p)"
    and write_fault: "inv p \<Longrightarrow> length (bytes p) < off + length bs \<Longrightarrow>
        \<exists>e. p_write P off bs p = (Err e, p)"
begin

lemma read_pure: "inv p \<Longrightarrow> snd (p_read P off len p) = p"
  using read_ok [of p off len] read_fault [of p off len]
  by (cases "off + len \<le> length (bytes p)") auto

end

definition heap_inv :: "heap_memory \<Rightarrow> bool" where
  "heap_inv h \<longleftrightarrow> 65536 dvd heap_size h \<and> heap_size h \<le> alloc_limit h \<and>
     alloc_limit h < 65536 * 2 ^ 32"

lemmas heap_defs = HeapMemoryProvider_def heap_size_def heap_pages_def heap_checked_range_def
  heap_grow_def heap_read_def heap_write_def heap_inv_def WASM_PAGE_SIZE_def

lemma heap_grow_cases:
  assumes "heap_inv h"
  shows "(\<exists>h' junk. heap_grow n h = (Ok (length (memory h)), h') \<and> heap_inv h' \<and>
           memory h' = memory h @ junk \<and> length junk = 65536 * n) \<or>
         (\<exists>e. heap_grow n h = (Err e, h))"
proof (cases "n * 65536 < 2 ^ 64 \<and> length (memory h) + n * 65536 < 2 ^ 64 \<and>
              length (memory h) + n * 65536 \<le> alloc_limit h")
  case True
  then show ?thesis using assms by (auto simp: heap_defs Let_def mult.commute)
next
  case False
  then show ?thesis by (auto simp: heap_defs Let_def)
qed

interpretation heap: memory_provider HeapMemoryProvider heap_inv memory
proof (unfold_locales, goal_cases)
  case 1
  show ?case by (simp add: heap_defs)
next
  case (2 h)
  then show ?case by (auto simp: heap_defs)
next
  case (3 h)
  then show ?case by (auto simp: heap_defs)
next
  case (4 h n)
  then show ?case using heap_grow_cases [of h n] by (simp add: HeapMemoryProvider_def)
next
  case (5 h off len)
  then show ?case by (auto simp: heap_defs)
next
  case (6 h off bs)
  then show ?case by (auto simp: heap_defs)
next
  case (7 h off len)
  then show ?case by (auto simp: heap_defs)
next
  case (8 h off bs)
  then show ?case by (auto simp: heap_defs)
qed

end
