(* ===== verification/Memory_Access.thy ===== *)
theory Memory_Access
  imports Encoding
begin

text \<open>
  The \<^verbatim>\<open>MemoryAccess\<close> trait (\<^verbatim>\<open>memory_access.rs\<close>) through which every ledger works, and the
  unclaimed-pages ledger (\<^verbatim>\<open>unclaimed_pages.rs\<close>) that its provided methods keep on page 1.
\<close>

section \<open>The trait\<close>

text \<open>
  The trait's methods on bytes. A method that is generic in an \<^verbatim>\<open>Encode\<close> type receives what it uses
  of the type: \<open>write_bytes_at alignment size encoded page offset\<close> is \<^verbatim>\<open>write_at\<close> on a value with
  that encoding and size, \<open>read_bytes_at SIZE alignment page offset\<close> is the part of \<^verbatim>\<open>read_at\<close> before
  the bytes are decoded, and \<open>read_at_raw page offset buf\<close> returns the count and the filled buffer.
\<close>

record 'm mem_ops =
  page_size :: "'m \<Rightarrow> nat"
  grow_one_page :: "('m, nat) mem_prog"
  zero_page :: "nat \<Rightarrow> ('m, unit) mem_prog"
  read_bytes_at :: "data_size \<Rightarrow> nat \<Rightarrow> nat \<Rightarrow> nat \<Rightarrow> ('m, byte list) mem_prog"
  write_bytes_at :: "nat \<Rightarrow> nat \<Rightarrow> byte list \<Rightarrow> nat \<Rightarrow> nat \<Rightarrow> ('m, unit) mem_prog"
  write_at_raw :: "nat \<Rightarrow> nat \<Rightarrow> byte list \<Rightarrow> ('m, unit) mem_prog"
  zero_bytes_at :: "nat \<Rightarrow> nat \<Rightarrow> nat \<Rightarrow> nat \<Rightarrow> ('m, unit) mem_prog"
  zero_raw :: "nat \<Rightarrow> nat \<Rightarrow> nat \<Rightarrow> ('m, unit) mem_prog"
  read_at_raw :: "nat \<Rightarrow> nat \<Rightarrow> byte list \<Rightarrow> ('m, nat \<times> byte list) mem_prog"

definition read_at :: "'m mem_ops \<Rightarrow> 'a codec \<Rightarrow> nat \<Rightarrow> nat \<Rightarrow> ('m, 'a) mem_prog" where
  "read_at MA D page offset =
     mbind (read_bytes_at MA (SIZE D) (ALIGNMENT D) page offset) (\<lambda>buf. lift_res (decode D buf))"

definition write_at :: "'m mem_ops \<Rightarrow> 'a codec \<Rightarrow> nat \<Rightarrow> nat \<Rightarrow> 'a \<Rightarrow> ('m, unit) mem_prog" where
  "write_at MA E page offset data =
     write_bytes_at MA (ALIGNMENT E) (enc_size E data) (encode E data) page offset"

definition zero_at :: "'m mem_ops \<Rightarrow> 'a codec \<Rightarrow> nat \<Rightarrow> nat \<Rightarrow> 'a \<Rightarrow> ('m, unit) mem_prog" where
  "zero_at MA E page offset data = zero_bytes_at MA (ALIGNMENT E) (enc_size E data) page offset"

section \<open>The unclaimed-pages ledger\<close>

definition SCHEMA_PAGE :: nat where "SCHEMA_PAGE = 0"
definition UNCLAIMED_PAGES_PAGE :: nat where "UNCLAIMED_PAGES_PAGE = 1"
definition RESERVED_PAGES :: nat where "RESERVED_PAGES = 2"

definition UNCLAIMED_PAGES_CAPACITY :: nat where
  "UNCLAIMED_PAGES_CAPACITY = (u16_max - 4) div 4"

type_synonym unclaimed_pages = "nat list"

definition up_remaining_capacity :: "unclaimed_pages \<Rightarrow> nat" where
  "up_remaining_capacity l =
     (UNCLAIMED_PAGES_CAPACITY + 2 ^ 32 - as_u32 (length l)) mod 2 ^ 32"

definition up_pop :: "unclaimed_pages \<Rightarrow> nat option \<times> unclaimed_pages" where
  "up_pop l = (if l = [] then (None, []) else (Some (last l), butlast l))"

definition up_push :: "nat \<Rightarrow> unclaimed_pages \<Rightarrow> unclaimed_pages memory_result" where
  "up_push page l =
     (if as_u32 (length l) \<ge> UNCLAIMED_PAGES_CAPACITY
      then Err (UnclaimedPagesFull UNCLAIMED_PAGES_CAPACITY)
      else Ok (l @ [page]))"

definition up_encode :: "unclaimed_pages \<Rightarrow> byte list" where
  "up_encode l = le_bytes 4 (as_u32 (length l)) @ concat (map (le_bytes 4) l)"

definition up_decode :: "byte list \<Rightarrow> unclaimed_pages memory_result" where
  "up_decode data =
     (if length data < 4 then Err (DecodeError TooShort)
      else let count = from_le (slice 0 4 data) in
        if count > UNCLAIMED_PAGES_CAPACITY
        then Err (UnclaimedPagesFull UNCLAIMED_PAGES_CAPACITY)
        else let required = 4 + count * 4 in
          if length data < required then Err (DecodeError TooShort)
          else decode_entries 4 (\<lambda>entry. Ok (from_le entry)) count (slice 4 (required - 4) data))"

definition up_size :: "unclaimed_pages \<Rightarrow> nat" where
  "up_size l = wrap_add16 4 (wrap_mul16 (as_u16 (length l)) 4)"

definition UnclaimedPages :: "unclaimed_pages codec" where
  "UnclaimedPages = \<lparr>SIZE = Dynamic, ALIGNMENT = DEFAULT_ALIGNMENT, encode = up_encode,
     decode = up_decode, enc_size = up_size\<rparr>"

text \<open>The provided methods of the trait.\<close>

definition claim_page :: "'m mem_ops \<Rightarrow> ('m, nat) mem_prog" where
  "claim_page MA =
     mbind (read_at MA UnclaimedPages UNCLAIMED_PAGES_PAGE 0) (\<lambda>ledger.
       case up_pop ledger of
         (Some page, ledger') \<Rightarrow>
           mbind (write_at MA UnclaimedPages UNCLAIMED_PAGES_PAGE 0 ledger') (\<lambda>_. ret page)
       | (None, ledger') \<Rightarrow> grow_one_page MA)"

definition unclaim_page :: "'m mem_ops \<Rightarrow> nat \<Rightarrow> ('m, unit) mem_prog" where
  "unclaim_page MA page =
     mbind (zero_page MA page) (\<lambda>_.
     mbind (read_at MA UnclaimedPages UNCLAIMED_PAGES_PAGE 0) (\<lambda>ledger.
     mbind (lift_res (up_push page ledger)) (\<lambda>ledger'.
     write_at MA UnclaimedPages UNCLAIMED_PAGES_PAGE 0 ledger')))"

section \<open>The ledger's encoding\<close>

definition up_wf :: "unclaimed_pages \<Rightarrow> bool" where
  "up_wf l \<longleftrightarrow> length l \<le> UNCLAIMED_PAGES_CAPACITY \<and> (\<forall>q \<in> set l. q < 2 ^ 32)"

lemma capacity_16382 [simp]: "UNCLAIMED_PAGES_CAPACITY = 16382"
  by (simp add: UNCLAIMED_PAGES_CAPACITY_def u16_max_def)

lemma length_up_encode [simp]: "length (up_encode l) = 4 + 4 * length l"
  by (simp add: up_encode_def length_concat_const)

lemma up_decode_encode:
  assumes "up_wf l"
  shows "up_decode (up_encode l @ rest) = Ok l"
proof -
  let ?body = "concat (map (le_bytes 4) l)"
  have len: "length ?body = 4 * length l" by (simp add: length_concat_const)
  have "slice 0 4 (up_encode l @ rest) = le_bytes 4 (length l)"
    using assms by (simp add: up_encode_def slice_def up_wf_def)
  moreover have "slice 4 (4 * length l) (up_encode l @ rest) = ?body"
    using len by (simp add: up_encode_def slice_def)
  moreover have "decode_entries 4 (\<lambda>e. Ok (from_le e)) (length l) (?body @ []) = Ok l"
    using assms by (intro decode_entries_concat) (auto simp: up_wf_def)
  ultimately show ?thesis
    using assms by (simp add: up_decode_def up_wf_def Let_def mult.commute)
qed

interpretation unclaimed: prefix_encoding UnclaimedPages up_wf
  by unfold_locales
    (auto simp: UnclaimedPages_def DEFAULT_ALIGNMENT_def up_size_def wrap_add16_def wrap_mul16_def
       up_wf_def as_u16_def up_decode_encode [of _ "[]", simplified] up_decode_encode)

lemma up_decode_wf: "up_decode data = Ok l \<Longrightarrow> up_wf l"
proof -
  assume dec: "up_decode data = Ok l"
  define n where "n = from_le (slice 0 4 data)"
  from dec have n: "n \<le> 16382" and es: "decode_entries 4 (\<lambda>e. Ok (from_le e)) n (slice 4 (4 * n) data) = Ok l"
    by (auto simp: up_decode_def Let_def n_def mult.commute split: if_splits)
  have entries: "decode_entries 4 (\<lambda>e. Ok (from_le e)) k d = Ok xs \<Longrightarrow> \<forall>q \<in> set xs. q < 2 ^ 32" for k d xs
  proof (induction k arbitrary: d xs)
    case 0
    then show ?case by simp
  next
    case (Suc k)
    then obtain ys where "4 \<le> length d" "xs = from_le (slice 0 4 d) # ys"
      and "decode_entries 4 (\<lambda>e. Ok (from_le e)) k (drop 4 d) = Ok ys"
      by (auto simp: bind_outcome_Ok_iff slice_or_panic_def split: if_splits)
    moreover from this have "from_le (slice 0 4 d) < 256 ^ 4"
      using from_le_less [of "slice 0 4 d"] by simp
    ultimately show ?case using Suc.IH [of "drop 4 d" ys] by simp
  qed
  from es have "length l = n" by (rule decode_entries_Ok_length)
  then show ?thesis using n entries [OF es] by (simp add: up_wf_def)
qed

section \<open>The contract of MemoryAccess\<close>

text \<open>
  \<open>pg m\<close> is the list of the pages' contents and \<open>inv\<close> the implementor's invariant. Reads return the
  bytes of the page and change nothing; a write changes exactly the region it names, zero padding up
  to the alignment included; an access that does not fit is an error that leaves the pages as they
  were; growing appends one page of zeros or fails.
\<close>

definition padded :: "nat \<Rightarrow> byte list \<Rightarrow> byte list" where
  "padded a bs = bs @ replicate (align_up a (length bs) - length bs) 0"

definition read_len :: "data_size \<Rightarrow> nat \<Rightarrow> nat" where
  "read_len ds offset = (case ds of Fixed n \<Rightarrow> n | Dynamic \<Rightarrow> 65536 - offset)"

text \<open>A page that starts with the encoding of a value.\<close>

definition stored :: "'a codec \<Rightarrow> 'a \<Rightarrow> byte list \<Rightarrow> bool" where
  "stored C x content \<longleftrightarrow> (\<exists>rest. content = encode C x @ rest)"

lemma stored_decode: "prefix_encoding C V \<Longrightarrow> V x \<Longrightarrow> stored C x c \<Longrightarrow> decode C c = Ok x"
  by (auto simp: stored_def prefix_encoding.decode_prefix)

lemma stored_take:
  "prefix_encoding C V \<Longrightarrow> V x \<Longrightarrow> stored C x c \<Longrightarrow> decode C (take (length (encode C x)) c) = Ok x"
  using prefix_encoding.axioms(1) [THEN encoding.decode_encode, of C V x] by (auto simp: stored_def)

text \<open>Two memories that agree on every page of the first outside \<open>X\<close>.\<close>

definition same_except :: "nat set \<Rightarrow> byte list list \<Rightarrow> byte list list \<Rightarrow> bool" where
  "same_except X pgs pgs' \<longleftrightarrow> length pgs \<le> length pgs' \<and>
     (\<forall>q < length pgs. q \<notin> X \<longrightarrow> pgs' ! q = pgs ! q)"

lemma same_except_refl [simp]: "same_except X pgs pgs"
  by (simp add: same_except_def)

lemma same_except_trans:
  "same_except X a b \<Longrightarrow> same_except Y b c \<Longrightarrow> X \<union> Y \<subseteq> Z \<Longrightarrow> same_except Z a c"
  proof -
  assume ab: "same_except X a b" and bc: "same_except Y b c" and sub: "X \<union> Y \<subseteq> Z"
  have "c ! q = a ! q" if "q < length a" "q \<notin> Z" for q
  proof -
    have "q \<notin> X" "q \<notin> Y" "q < length b" using that ab sub by (auto simp: same_except_def)
    then show ?thesis using that ab bc by (simp add: same_except_def)
  qed
  then show ?thesis using ab bc by (auto simp: same_except_def)
qed

lemma same_except_mono: "same_except X a b \<Longrightarrow> X \<subseteq> Y \<Longrightarrow> same_except Y a b"
  by (auto simp: same_except_def)

lemma same_except_update [simp]: "p \<in> X \<Longrightarrow> same_except X pgs (pgs[p := c])"
  by (auto simp: same_except_def) (metis nth_list_update_neq)

lemma same_except_nth: "same_except X a b \<Longrightarrow> q < length a \<Longrightarrow> q \<notin> X \<Longrightarrow> b ! q = a ! q"
  by (simp add: same_except_def)

lemma same_except_length: "same_except X a b \<Longrightarrow> length a \<le> length b"
  by (simp add: same_except_def)

locale memory_access =
  fixes MA :: "'m mem_ops" and inv :: "'m \<Rightarrow> bool" and pg :: "'m \<Rightarrow> byte list list"
  assumes page_size: "page_size MA m = 65536"
    and page_len: "inv m \<Longrightarrow> p < length (pg m) \<Longrightarrow> length (pg m ! p) = 65536"
    and page_count: "inv m \<Longrightarrow> length (pg m) < 2 ^ 32"
    and read_raw: "inv m \<Longrightarrow> p < length (pg m) \<Longrightarrow> off \<le> 65536 \<Longrightarrow> k = min (65536 - off) (length buf) \<Longrightarrow>
        read_at_raw MA p off buf m = (Ok (k, slice off k (pg m ! p) @ drop k buf), m)"
    and read_raw_fault: "inv m \<Longrightarrow> length (pg m) \<le> p \<Longrightarrow>
        read_at_raw MA p off buf m = (Err (SegmentationFault p off (length buf) 65536), m)"
    and read_bytes: "inv m \<Longrightarrow> p < length (pg m) \<Longrightarrow> a dvd off \<Longrightarrow> off \<le> 65536 \<Longrightarrow>
        off + read_len ds off \<le> 65536 \<Longrightarrow>
        read_bytes_at MA ds a p off m = (Ok (slice off (read_len ds off) (pg m ! p)), m)"
    and write_bytes: "inv m \<Longrightarrow> p < length (pg m) \<Longrightarrow> 0 < a \<Longrightarrow> a dvd off \<Longrightarrow>
        off + align_up a (length bs) \<le> 65536 \<Longrightarrow>
        \<exists>m'. write_bytes_at MA a sz bs p off m = (Ok (), m') \<and> inv m' \<and>
             pg m' = (pg m)[p := splice_at off (padded a bs) (pg m ! p)]"
    and write_bytes_fault: "inv m \<Longrightarrow> 0 < a \<Longrightarrow> off \<le> 65536 \<Longrightarrow>
        length (pg m) \<le> p \<or> \<not> a dvd off \<or> 65536 < off + align_up a (length bs) \<Longrightarrow>
        \<exists>e m'. write_bytes_at MA a sz bs p off m = (Err e, m') \<and> inv m' \<and> pg m' = pg m"
    and write_raw: "inv m \<Longrightarrow> p < length (pg m) \<Longrightarrow> off + length bs \<le> 65536 \<Longrightarrow>
        \<exists>m'. write_at_raw MA p off bs m = (Ok (), m') \<and> inv m' \<and>
             pg m' = (pg m)[p := splice_at off bs (pg m ! p)]"
    and zero_bytes: "inv m \<Longrightarrow> p < length (pg m) \<Longrightarrow> 0 < a \<Longrightarrow> a dvd off \<Longrightarrow>
        off + align_up a sz \<le> 65536 \<Longrightarrow>
        \<exists>m'. zero_bytes_at MA a sz p off m = (Ok (), m') \<and> inv m' \<and>
             pg m' = (pg m)[p := splice_at off (replicate (align_up a sz) 0) (pg m ! p)]"
    and zero_raw: "inv m \<Longrightarrow> p < length (pg m) \<Longrightarrow> off + len \<le> 65536 \<Longrightarrow>
        \<exists>m'. zero_raw MA p off len m = (Ok (), m') \<and> inv m' \<and>
             pg m' = (pg m)[p := splice_at off (replicate len 0) (pg m ! p)]"
    and zero_page: "inv m \<Longrightarrow> p < length (pg m) \<Longrightarrow>
        \<exists>m'. zero_page MA p m = (Ok (), m') \<and> inv m' \<and> pg m' = (pg m)[p := replicate 65536 0]"
    and zero_page_fault: "inv m \<Longrightarrow> length (pg m) \<le> p \<Longrightarrow>
        \<exists>e m'. zero_page MA p m = (Err e, m') \<and> inv m' \<and> pg m' = pg m"
    and grow: "inv m \<Longrightarrow>
        (\<exists>m'. grow_one_page MA m = (Ok (length (pg m)), m') \<and> inv m' \<and>
              pg m' = pg m @ [replicate 65536 0]) \<or>
        (\<exists>e m'. grow_one_page MA m = (Err e, m') \<and> inv m' \<and> pg m' = pg m)"
begin

lemma length_padded: "0 < a \<Longrightarrow> length (padded a bs) = align_up a (length bs)"
  by (simp add: padded_def align_up_ge)

lemma write_at_ok:
  assumes "inv m" and "p < length (pg m)" and "0 < ALIGNMENT C" and "ALIGNMENT C dvd off"
    and "off + align_up (ALIGNMENT C) (length (encode C x)) \<le> 65536"
  shows "\<exists>m'. write_at MA C p off x m = (Ok (), m') \<and> inv m' \<and>
     pg m' = (pg m)[p := splice_at off (padded (ALIGNMENT C) (encode C x)) (pg m ! p)]"
  using assms by (simp add: write_at_def write_bytes)

lemma read_at_ok:
  assumes "inv m" and "p < length (pg m)" and "ALIGNMENT C dvd off" and "off \<le> 65536"
    and "off + read_len (SIZE C) off \<le> 65536"
  shows "read_at MA C p off m = (decode C (slice off (read_len (SIZE C) off) (pg m ! p)), m)"
  using assms by (simp add: read_at_def read_bytes)

text \<open>What was written at an offset is read back from it, and nothing else has changed.\<close>

lemma write_read_at:
  assumes C: "prefix_encoding C V" and "V x" and m: "inv m" and p: "p < length (pg m)"
    and d: "ALIGNMENT C dvd off" and le: "off + align_up (ALIGNMENT C) (length (encode C x)) \<le> 65536"
  obtains m' where "write_at MA C p off x m = (Ok (), m')" and "inv m'"
    and "pg m' = (pg m)[p := splice_at off (padded (ALIGNMENT C) (encode C x)) (pg m ! p)]"
    and "read_at MA C p off m' = (Ok x, m')"
proof -
  have enc: "encoding C V" using C by (rule prefix_encoding.axioms(1))
  let ?bs = "encode C x" and ?a = "ALIGNMENT C"
  have a: "0 < ?a" using enc by (rule encoding.alignment_pos)
  have ge: "length ?bs \<le> align_up ?a (length ?bs)" using a by (rule align_up_ge)
  obtain m' where w: "write_at MA C p off x m = (Ok (), m')" "inv m'"
    "pg m' = (pg m)[p := splice_at off (padded ?a ?bs) (pg m ! p)]"
    using write_at_ok [OF m p a d le] by blast
  have sz: "off + read_len (SIZE C) off \<le> 65536"
    using encoding.fixed_size [OF enc assms(2)] ge le by (cases "SIZE C") (auto simp: read_len_def)
  have sl: "\<exists>rest. slice off (read_len (SIZE C) off) (pg m' ! p) = ?bs @ rest"
  proof (cases "SIZE C")
    case (Fixed n)
    then have "slice off n (pg m' ! p) = ?bs @ []"
      using encoding.fixed_size [OF enc assms(2) Fixed] p page_len [OF m p] le ge
      by (simp add: w(3) slice_def splice_at_def padded_def)
    then show ?thesis using Fixed by (auto simp: read_len_def)
  next
    case Dynamic
    show ?thesis using p page_len [OF m p] le ge Dynamic
      by (simp add: w(3) slice_def splice_at_def padded_def read_len_def)
  qed
  have p': "p < length (pg m')" using p w(3) by simp
  have "read_at MA C p off m' = (Ok x, m')"
    using sl prefix_encoding.decode_prefix [OF C assms(2)] d le sz w(2) p'
    by (subst read_at_ok) auto
  with w show thesis by (rule that)
qed

text \<open>A read outside the written region gives what it gave before.\<close>

lemma read_raw_frame:
  assumes m: "inv m" and m': "inv m'" and pg': "pg m' = (pg m)[p := splice_at off bs (pg m ! p)]"
    and p: "p < length (pg m)" and le: "off + length bs \<le> 65536"
    and q: "q < length (pg m)" and k: "o' + length buf \<le> 65536"
    and out: "q \<noteq> p \<or> o' + length buf \<le> off \<or> off + length bs \<le> o'"
  shows "fst (read_at_raw MA q o' buf m') = fst (read_at_raw MA q o' buf m)"
proof -
  have "slice o' (length buf) (pg m' ! q) = slice o' (length buf) (pg m ! q)"
    using out p q le k page_len [OF m p] by (cases "q = p") (auto simp: pg' slice_splice_disjoint)
  then show ?thesis
    using k read_raw [OF m q _ refl, of o' buf] read_raw [OF m' _ _ refl, of q o' buf] q pg' by simp
qed

text \<open>Reading a whole page as a ledger.\<close>

lemma read_at_0:
  assumes "inv m" and "p < length (pg m)" and "SIZE C = Dynamic"
  shows "read_at MA C p 0 m = (decode C (pg m ! p), m)"
  using assms page_len [of m p] read_at_ok [of m p C 0]
  by (simp add: read_len_def slice_def)

text \<open>A ledger written at the start of its page reads back as it was.\<close>

lemma ledger_store:
  assumes C: "prefix_encoding C V" and "V x" and "ALIGNMENT C = 32"
    and m: "inv m" and p: "p < length (pg m)"
  obtains m' c where "write_at MA C p 0 x m = (Ok (), m')" and "inv m'"
    and "pg m' = (pg m)[p := c]" and "stored C x c"
proof -
  have "length (encode C x) \<le> 65535"
    using prefix_encoding.axioms(1) [OF C] assms(2) by (rule encoding.size_u16)
  then have le: "align_up 32 (length (encode C x)) \<le> 65536"
    by (intro align_up_le_page) auto
  then obtain m' where w: "write_at MA C p 0 x m = (Ok (), m')" and i: "inv m'"
    and pg': "pg m' = (pg m)[p := splice_at 0 (padded 32 (encode C x)) (pg m ! p)]"
    using write_at_ok [OF m p, of C 0 x] assms(3) by auto
  moreover have "stored C x (splice_at 0 (padded 32 (encode C x)) (pg m ! p))"
    by (simp add: stored_def splice_at_def padded_def)
  ultimately show thesis by (rule that)
qed

lemma ledger_write:
  assumes C: "prefix_encoding C V" and "V x" and "ALIGNMENT C = 32"
    and m: "inv m" and p: "p < length (pg m)"
  obtains m' where "write_at MA C p 0 x m = (Ok (), m')" and "inv m'"
    and "length (pg m') = length (pg m)" and "decode C (pg m' ! p) = Ok x"
    and "\<And>q. q \<noteq> p \<Longrightarrow> pg m' ! q = pg m ! q"
proof -
  obtain m' c where "write_at MA C p 0 x m = (Ok (), m')" "inv m'" "pg m' = (pg m)[p := c]"
    "stored C x c"
    using ledger_store [OF assms] by blast
  with stored_decode [OF C assms(2)] p show thesis by (intro that [of m']) auto
qed

end

section \<open>Claiming and releasing pages\<close>

text \<open>
  The clients of the page pool as a step relation: \<open>U\<close> is the set of pages they hold. A client may
  claim a page, hand back a page it holds, or write into a page it holds; each of the calls may fail.
\<close>

inductive alloc_step :: "'m mem_ops \<Rightarrow> 'm \<times> nat set \<Rightarrow> 'm \<times> nat set \<Rightarrow> bool" for MA where
  claim: "claim_page MA m = (Ok p, m') \<Longrightarrow> alloc_step MA (m, U) (m', insert p U)"
| claim_failed: "claim_page MA m = (Err e, m') \<Longrightarrow> alloc_step MA (m, U) (m', U)"
| unclaim: "p \<in> U \<Longrightarrow> unclaim_page MA p m = (Ok (), m') \<Longrightarrow> alloc_step MA (m, U) (m', U - {p})"
| unclaim_failed: "p \<in> U \<Longrightarrow> unclaim_page MA p m = (Err e, m') \<Longrightarrow> alloc_step MA (m, U) (m', U)"
| owner_write: "p \<in> U \<Longrightarrow> off + length bs \<le> 65536 \<Longrightarrow> write_at_raw MA p off bs m = (Ok (), m') \<Longrightarrow>
     alloc_step MA (m, U) (m', U)"

inductive alloc_reachable :: "'m mem_ops \<Rightarrow> 'm \<Rightarrow> 'm \<times> nat set \<Rightarrow> bool" for MA m0 where
  start: "alloc_reachable MA m0 (m0, {})"
| step: "alloc_reachable MA m0 s \<Longrightarrow> alloc_step MA s t \<Longrightarrow> alloc_reachable MA m0 t"

text \<open>The pool: released pages are recorded once, are not held by anyone, and are zeroed.\<close>

definition pool_inv :: "byte list list \<Rightarrow> nat set \<Rightarrow> bool" where
  "pool_inv pgs U \<longleftrightarrow> 2 \<le> length pgs \<and> U \<subseteq> {2..<length pgs} \<and>
     (\<exists>l. up_decode (pgs ! 1) = Ok l \<and> distinct l \<and> set l \<inter> U = {} \<and> set l \<subseteq> {2..<length pgs} \<and>
          (\<forall>q \<in> set l. pgs ! q = replicate 65536 0))"

lemma pool_invE:
  assumes "pool_inv pgs U"
  obtains l where "2 \<le> length pgs" and "U \<subseteq> {2..<length pgs}" and "up_decode (pgs ! 1) = Ok l"
    and "distinct l" and "set l \<inter> U = {}" and "set l \<subseteq> {2..<length pgs}"
    and "\<And>q. q \<in> set l \<Longrightarrow> pgs ! q = replicate 65536 0"
  using assms by (auto simp: pool_inv_def)

lemma pool_invI:
  assumes "2 \<le> length pgs" and "U \<subseteq> {2..<length pgs}" and "up_decode (pgs ! 1) = Ok l"
    and "distinct l" and "set l \<inter> U = {}" and "set l \<subseteq> {2..<length pgs}"
    and "\<And>q. q \<in> set l \<Longrightarrow> pgs ! q = replicate 65536 0"
  shows "pool_inv pgs U"
  using assms by (auto simp: pool_inv_def)

text \<open>Changing a page that is held does not disturb the pool.\<close>

lemma pool_inv_update:
  assumes "pool_inv pgs U" and "p \<in> U"
  shows "pool_inv (pgs[p := c]) U"
proof -
  from assms(1) obtain l where l: "2 \<le> length pgs" "U \<subseteq> {2..<length pgs}" "up_decode (pgs ! 1) = Ok l"
    "distinct l" "set l \<inter> U = {}" "set l \<subseteq> {2..<length pgs}"
    "\<And>q. q \<in> set l \<Longrightarrow> pgs ! q = replicate 65536 0"
    by (elim pool_invE) blast
  moreover from this assms(2) have "p \<notin> set l" "p \<noteq> 1" by auto
  moreover from this have "pgs[p := c] ! q = pgs ! q" if "q \<in> set l" for q
    using that by (metis nth_list_update_neq)
  ultimately show ?thesis
    by (intro pool_invI [of _ _ l]) auto
qed

lemma pool_inv_owned:
  assumes "pool_inv pgs U" and "same_except X pgs pgs'" and "length pgs' = length pgs" and "X \<subseteq> U"
  shows "pool_inv pgs' U"
proof -
  from assms(1) obtain l where l: "2 \<le> length pgs" "U \<subseteq> {2..<length pgs}" "up_decode (pgs ! 1) = Ok l"
    "distinct l" "set l \<inter> U = {}" "set l \<subseteq> {2..<length pgs}"
    "\<And>q. q \<in> set l \<Longrightarrow> pgs ! q = replicate 65536 0"
    by (elim pool_invE) blast
  have same: "pgs' ! q = pgs ! q" if "q < length pgs" "q \<notin> U" for q
    using that assms(2,4) by (auto simp: same_except_def)
  have "1 \<notin> U" using l(2) by auto
  then have "up_decode (pgs' ! 1) = Ok l" using same [of 1] l(1,3) by simp
  moreover have "pgs' ! q = replicate 65536 0" if "q \<in> set l" for q
  proof -
    have "q < length pgs" "q \<notin> U" using that l(5,6) by auto
    then show ?thesis using same l(7) [OF that] by simp
  qed
  ultimately show ?thesis using l assms(3) by (intro pool_invI [of _ _ l]) auto
qed

context memory_access
begin

lemma claim_reuse:
  assumes m: "inv m" and n: "2 \<le> length (pg m)" and l: "up_decode (pg m ! 1) = Ok l" "l \<noteq> []"
  obtains m' where "claim_page MA m = (Ok (last l), m')" and "inv m'"
    and "length (pg m') = length (pg m)" and "up_decode (pg m' ! 1) = Ok (butlast l)"
    and "\<And>q. q \<noteq> 1 \<Longrightarrow> pg m' ! q = pg m ! q"
proof -
  have "up_wf (butlast l)"
    using up_decode_wf [OF l(1)] by (auto simp: up_wf_def dest: in_set_butlastD)
  then obtain m' where w: "write_at MA UnclaimedPages 1 0 (butlast l) m = (Ok (), m')" "inv m'"
    "length (pg m') = length (pg m)" "decode UnclaimedPages (pg m' ! 1) = Ok (butlast l)"
    "\<And>q. q \<noteq> 1 \<Longrightarrow> pg m' ! q = pg m ! q"
    using n by (elim ledger_write [OF unclaimed.prefix_encoding_axioms _ _ m, of "butlast l" 1])
       (auto simp: UnclaimedPages_def DEFAULT_ALIGNMENT_def)
  have "read_at MA UnclaimedPages 1 0 m = (Ok l, m)"
    using m n l by (simp add: read_at_0 UnclaimedPages_def)
  then have "claim_page MA m = (Ok (last l), m')"
    using w l by (simp add: claim_page_def UNCLAIMED_PAGES_PAGE_def up_pop_def)
  with w show thesis by (intro that [of m']) (auto simp: UnclaimedPages_def)
qed

lemma claim_empty:
  assumes m: "inv m" and n: "2 \<le> length (pg m)" and l: "up_decode (pg m ! 1) = Ok []"
  shows "claim_page MA m = grow_one_page MA m"
proof -
  have "read_at MA UnclaimedPages 1 0 m = (Ok [], m)"
    using m n l by (simp add: read_at_0 UnclaimedPages_def)
  then show ?thesis by (simp add: claim_page_def UNCLAIMED_PAGES_PAGE_def up_pop_def)
qed

lemma unclaim_ok:
  assumes m: "inv m" and n: "2 \<le> length (pg m)" and l: "up_decode (pg m ! 1) = Ok l"
    and p: "p < length (pg m)" "p \<noteq> 1" and cap: "length l < UNCLAIMED_PAGES_CAPACITY"
  obtains m' where "unclaim_page MA p m = (Ok (), m')" and "inv m'"
    and "length (pg m') = length (pg m)" and "up_decode (pg m' ! 1) = Ok (l @ [p])"
    and "pg m' ! p = replicate 65536 0"
    and "\<And>q. q \<noteq> 1 \<Longrightarrow> q \<noteq> p \<Longrightarrow> pg m' ! q = pg m ! q"
proof -
  obtain m1 where z: "zero_page MA p m = (Ok (), m1)" "inv m1" "pg m1 = (pg m)[p := replicate 65536 0]"
    using zero_page [OF m p(1)] by blast
  have r: "read_at MA UnclaimedPages 1 0 m1 = (Ok l, m1)"
    using z n l p by (simp add: read_at_0 UnclaimedPages_def)
  have "up_wf (l @ [p])"
    using up_decode_wf [OF l] cap p page_count [OF m] by (auto simp: up_wf_def)
  then obtain m' where w: "write_at MA UnclaimedPages 1 0 (l @ [p]) m1 = (Ok (), m')" "inv m'"
    "length (pg m') = length (pg m1)" "decode UnclaimedPages (pg m' ! 1) = Ok (l @ [p])"
    "\<And>q. q \<noteq> 1 \<Longrightarrow> pg m' ! q = pg m1 ! q"
    using n z by (elim ledger_write [OF unclaimed.prefix_encoding_axioms _ _ z(2), of "l @ [p]" 1])
       (auto simp: UnclaimedPages_def DEFAULT_ALIGNMENT_def)
  have "unclaim_page MA p m = (Ok (), m')"
    using z r w cap by (simp add: unclaim_page_def UNCLAIMED_PAGES_PAGE_def up_push_def)
  with w z p show thesis by (intro that [of m']) (auto simp: UnclaimedPages_def)
qed

lemma unclaim_full:
  assumes m: "inv m" and n: "2 \<le> length (pg m)" and l: "up_decode (pg m ! 1) = Ok l"
    and p: "p < length (pg m)" "p \<noteq> 1" and cap: "UNCLAIMED_PAGES_CAPACITY \<le> length l"
  obtains m' where "unclaim_page MA p m = (Err (UnclaimedPagesFull 16382), m')" and "inv m'"
    and "pg m' = (pg m)[p := replicate 65536 0]"
proof -
  obtain m1 where z: "zero_page MA p m = (Ok (), m1)" "inv m1" "pg m1 = (pg m)[p := replicate 65536 0]"
    using zero_page [OF m p(1)] by blast
  have r: "read_at MA UnclaimedPages 1 0 m1 = (Ok l, m1)"
    using z n l p by (simp add: read_at_0 UnclaimedPages_def)
  have "unclaim_page MA p m = (Err (UnclaimedPagesFull 16382), m1)"
    using z r cap up_decode_wf [OF l]
    by (simp add: unclaim_page_def UNCLAIMED_PAGES_PAGE_def up_push_def up_wf_def)
  with z show thesis by (intro that [of m1]) auto
qed

text \<open>Whatever claiming returns is a fresh page: not held, not reserved, and full of zeros.\<close>

lemma claim_fresh:
  assumes "inv m" and pool: "pool_inv (pg m) U" and c: "claim_page MA m = (r, m')"
  shows "inv m' \<and> (case r of
      Ok p \<Rightarrow> p \<notin> U \<and> 2 \<le> p \<and> p < length (pg m') \<and> pg m' ! p = replicate 65536 0 \<and>
        pool_inv (pg m') (insert p U)
    | Err e \<Rightarrow> pool_inv (pg m') U \<and> fst (grow_one_page MA m) = Err e
    | Panic \<Rightarrow> False)"
proof -
  obtain l where l: "2 \<le> length (pg m)" "U \<subseteq> {2..<length (pg m)}" "up_decode (pg m ! 1) = Ok l"
    "distinct l" "set l \<inter> U = {}" "set l \<subseteq> {2..<length (pg m)}"
    "\<And>q. q \<in> set l \<Longrightarrow> pg m ! q = replicate 65536 0"
    using pool by (elim pool_invE) blast
  show ?thesis
  proof (cases "l = []")
    case True
    then have cg: "claim_page MA m = grow_one_page MA m"
      using claim_empty [OF assms(1) l(1)] l(3) by simp
    from grow [OF assms(1)] show ?thesis
    proof (elim disjE exE conjE)
      fix m1 assume g: "grow_one_page MA m = (Ok (length (pg m)), m1)" "inv m1"
        "pg m1 = pg m @ [replicate 65536 0]"
      then have "pool_inv (pg m1) (insert (length (pg m)) U)"
        using l True by (auto simp: pool_inv_def nth_append)
      then show ?thesis using c cg g l by (auto simp: nth_append)
    next
      fix e m1 assume "grow_one_page MA m = (Err e, m1)" "inv m1" "pg m1 = pg m"
      then show ?thesis using c cg pool by auto
    qed
  next
    case False
    then obtain m1 where c1: "claim_page MA m = (Ok (last l), m1)" "inv m1"
      "length (pg m1) = length (pg m)" "up_decode (pg m1 ! 1) = Ok (butlast l)"
      "\<And>q. q \<noteq> 1 \<Longrightarrow> pg m1 ! q = pg m ! q"
      using claim_reuse [OF assms(1) l(1) l(3)] by blast
    have lst: "last l \<in> set l" "last l \<notin> set (butlast l)"
      using False l(4) append_butlast_last_id [OF False] distinct_append [of "butlast l" "[last l]"]
      by auto
    have "pool_inv (pg m1) (insert (last l) U)"
    proof (rule pool_invI [of _ _ "butlast l"])
      show "pg m1 ! q = replicate 65536 0" if "q \<in> set (butlast l)" for q
        using in_set_butlastD [OF that] l c1 by auto
    qed (use c1 l lst in \<open>auto simp: distinct_butlast dest: in_set_butlastD\<close>)
    moreover have ll: "last l \<notin> U" "2 \<le> last l" "last l < length (pg m)"
      using lst(1) l(5,6) by (auto simp del: last_in_set)
    moreover have "pg m1 ! last l = replicate 65536 0"
      using c1(5) [of "last l"] l(7) [OF lst(1)] ll(2) by simp
    ultimately show ?thesis using c c1 by auto
  qed
qed

text \<open>Claiming touches no page but the ledger of unclaimed pages.\<close>

lemma claim_frame:
  assumes "inv m" and pool: "pool_inv (pg m) U" and c: "claim_page MA m = (r, m')"
  shows "same_except {1} (pg m) (pg m')"
proof -
  obtain l where l: "2 \<le> length (pg m)" "up_decode (pg m ! 1) = Ok l"
    using pool by (elim pool_invE) blast
  show ?thesis
  proof (cases "l = []")
    case True
    then have "claim_page MA m = grow_one_page MA m"
      using claim_empty [OF assms(1) l(1)] l(2) by simp
    with grow [OF assms(1)] c show ?thesis by (auto simp: nth_append same_except_def)
  next
    case False
    then obtain m1 where "claim_page MA m = (Ok (last l), m1)" "length (pg m1) = length (pg m)"
      "\<And>q. q \<noteq> 1 \<Longrightarrow> pg m1 ! q = pg m ! q"
      using claim_reuse [OF assms(1) l] by blast
    with c show ?thesis by (auto simp: same_except_def)
  qed
qed

lemma unclaim_pool:
  assumes "inv m" and pool: "pool_inv (pg m) U" and p: "p \<in> U" and c: "unclaim_page MA p m = (r, m')"
  shows "inv m' \<and> (case r of Ok _ \<Rightarrow> pool_inv (pg m') (U - {p}) | Err e \<Rightarrow> pool_inv (pg m') U | Panic \<Rightarrow> False)"
proof -
  obtain l where l: "2 \<le> length (pg m)" "U \<subseteq> {2..<length (pg m)}" "up_decode (pg m ! 1) = Ok l"
    "distinct l" "set l \<inter> U = {}" "set l \<subseteq> {2..<length (pg m)}"
    "\<And>q. q \<in> set l \<Longrightarrow> pg m ! q = replicate 65536 0"
    using pool by (elim pool_invE) blast
  have pp: "p < length (pg m)" "p \<noteq> 1" "2 \<le> p" "p \<notin> set l" using l p by auto
  show ?thesis
  proof (cases "length l < UNCLAIMED_PAGES_CAPACITY")
    case True
    then obtain m1 where u: "unclaim_page MA p m = (Ok (), m1)" "inv m1" "length (pg m1) = length (pg m)"
      "up_decode (pg m1 ! 1) = Ok (l @ [p])" "pg m1 ! p = replicate 65536 0"
      "\<And>q. q \<noteq> 1 \<Longrightarrow> q \<noteq> p \<Longrightarrow> pg m1 ! q = pg m ! q"
      using unclaim_ok [OF assms(1) l(1) l(3) pp(1,2)] by blast
    have "pool_inv (pg m1) (U - {p})"
    proof (rule pool_invI [of _ _ "l @ [p]"])
      show "pg m1 ! q = replicate 65536 0" if "q \<in> set (l @ [p])" for q
        using that u l by (cases "q = p") auto
    qed (use u l pp p in auto)
    then show ?thesis using u c by auto
  next
    case False
    then obtain m1 where u: "unclaim_page MA p m = (Err (UnclaimedPagesFull 16382), m1)" "inv m1"
      "pg m1 = (pg m)[p := replicate 65536 0]"
      using unclaim_full [OF assms(1) l(1) l(3) pp(1,2)] by auto
    have "pool_inv (pg m1) U"
      using pool p by (simp add: u(3) pool_inv_update)
    then show ?thesis using u c by auto
  qed
qed

lemma alloc_step_pool:
  "alloc_step MA s t \<Longrightarrow> inv (fst s) \<Longrightarrow> pool_inv (pg (fst s)) (snd s) \<Longrightarrow>
     inv (fst t) \<and> pool_inv (pg (fst t)) (snd t)"
proof (induction rule: alloc_step.induct)
  case (claim m p m' U)
  then show ?case using claim_fresh [of m U "Ok p" m'] by auto
next
  case (claim_failed m e m' U)
  then show ?case using claim_fresh [of m U "Err e" m'] by auto
next
  case (unclaim p U m m')
  then show ?case using unclaim_pool [of m U p "Ok ()" m'] by auto
next
  case (unclaim_failed p U m e m')
  then show ?case using unclaim_pool [of m U p "Err e" m'] by auto
next
  case (owner_write p U off bs m m')
  then have p: "2 \<le> p" "p < length (pg m)" by (auto simp: pool_inv_def)
  with owner_write obtain m1 where "write_at_raw MA p off bs m = (Ok (), m1)" "inv m1"
    "pg m1 = (pg m)[p := splice_at off bs (pg m ! p)]"
    using write_raw [of m p off bs] by auto
  with owner_write show ?case by (auto intro: pool_inv_update)
qed

lemma reachable_pool:
  "alloc_reachable MA m0 s \<Longrightarrow> inv m0 \<Longrightarrow> pool_inv (pg m0) {} \<Longrightarrow>
     inv (fst s) \<and> pool_inv (pg (fst s)) (snd s)"
  by (induction rule: alloc_reachable.induct) (auto dest: alloc_step_pool)

end

end
