(* ===== verification/Memory_Manager.thy ===== *)
theory Memory_Manager
  imports Memory_Provider Memory_Access
begin

text \<open>
  \<^verbatim>\<open>wasm-dbms-memory/src/memory_manager.rs\<close>: page-level access on top of any provider, and the proof
  that it honours the contract of \<^verbatim>\<open>MemoryAccess\<close> whenever the provider honours its own.
\<close>

section \<open>Operations\<close>

definition mm_init :: "'p provider \<Rightarrow> ('p, unit) mem_prog" where
  "mm_init P p =
     (let current_pages = p_pages P p in
      if current_pages \<ge> RESERVED_PAGES then (Ok (), p)
      else case p_grow P (RESERVED_PAGES - current_pages) p of
             (Ok _, p') \<Rightarrow> (Ok (), p')
           | (Err _, p') \<Rightarrow> (Panic, p')
           | (Panic, p') \<Rightarrow> (Panic, p'))"

definition last_page :: "'p provider \<Rightarrow> 'p \<Rightarrow> nat option" where
  "last_page P p = (let n = p_pages P p in
     if n = 0 then None else Some ((as_u32 n + 2 ^ 32 - 1) mod 2 ^ 32))"

definition absolute_offset :: "'p provider \<Rightarrow> nat \<Rightarrow> nat \<Rightarrow> nat memory_result" where
  "absolute_offset P page offset =
     (if page * PAGE_SIZE P < 2 ^ 64 \<and> page * PAGE_SIZE P + offset < 2 ^ 64
      then Ok (page * PAGE_SIZE P + offset) else Panic)"

text \<open>\<open>page > last_page\<close>, which is also the case when no page is allocated.\<close>

definition past_last_page :: "'p provider \<Rightarrow> nat \<Rightarrow> 'p \<Rightarrow> bool" where
  "past_last_page P page p = (case last_page P p of None \<Rightarrow> True | Some l \<Rightarrow> page > l)"

definition check_unallocated_page ::
  "'p provider \<Rightarrow> nat \<Rightarrow> nat \<Rightarrow> nat \<Rightarrow> ('p, unit) mem_prog" where
  "check_unallocated_page P page offset data_size p =
     (if past_last_page P page p
      then (Err (SegmentationFault page offset data_size (PAGE_SIZE P)), p) else (Ok (), p))"

definition check_alignment :: "nat \<Rightarrow> nat \<Rightarrow> ('p, unit) mem_prog" where
  "check_alignment alignment offset =
     (if alignment \<noteq> 0 \<and> \<not> alignment dvd offset
      then fail (OffsetNotAligned offset alignment) else ret ())"

definition provider_write :: "'p provider \<Rightarrow> nat \<Rightarrow> nat \<Rightarrow> byte list \<Rightarrow> ('p, unit) mem_prog" where
  "provider_write P page offset buf =
     mbind (lift_res (absolute_offset P page offset)) (\<lambda>absolute. p_write P absolute buf)"

definition mm_grow_one_page :: "'p provider \<Rightarrow> ('p, nat) mem_prog" where
  "mm_grow_one_page P =
     mbind (p_grow P 1) (\<lambda>_.
     mbind (\<lambda>p. provider_write P (case last_page P p of None \<Rightarrow> 0 | Some l \<Rightarrow> l) 0
              (replicate (PAGE_SIZE P) 0) p) (\<lambda>_.
     (\<lambda>p. case last_page P p of Some page \<Rightarrow> (Ok page, p) | None \<Rightarrow> (Err FailedToAllocatePage, p))))"

definition mm_zero_page :: "'p provider \<Rightarrow> nat \<Rightarrow> ('p, unit) mem_prog" where
  "mm_zero_page P page =
     mbind (check_unallocated_page P page 0 (PAGE_SIZE P)) (\<lambda>_.
     provider_write P page 0 (replicate (PAGE_SIZE P) 0))"

definition mm_read_at_raw :: "'p provider \<Rightarrow> nat \<Rightarrow> nat \<Rightarrow> byte list \<Rightarrow> ('p, nat \<times> byte list) mem_prog" where
  "mm_read_at_raw P page offset buf =
     mbind (check_unallocated_page P page offset (length buf)) (\<lambda>_.
       let read_len = min ((PAGE_SIZE P + 2 ^ 64 - offset) mod 2 ^ 64) (length buf) in
       mbind (lift_res (absolute_offset P page offset)) (\<lambda>absolute.
       mbind (p_read P absolute read_len) (\<lambda>bs.
       ret (read_len, bs @ drop read_len buf))))"

definition mm_read_bytes_at ::
  "'p provider \<Rightarrow> data_size \<Rightarrow> nat \<Rightarrow> nat \<Rightarrow> nat \<Rightarrow> ('p, byte list) mem_prog" where
  "mm_read_bytes_at P ds alignment page offset =
     mbind (check_alignment alignment offset) (\<lambda>_.
       let buf_len = (case ds of Fixed n \<Rightarrow> n | Dynamic \<Rightarrow> PAGE_SIZE P - offset) in
       mbind (mm_read_at_raw P page offset (replicate buf_len 0)) (\<lambda>(n, buf).
         if n < length buf
         then fail (SegmentationFault page offset (length buf) (PAGE_SIZE P))
         else ret buf))"

definition mm_write_bytes_at ::
  "'p provider \<Rightarrow> nat \<Rightarrow> nat \<Rightarrow> byte list \<Rightarrow> nat \<Rightarrow> nat \<Rightarrow> ('p, unit) mem_prog" where
  "mm_write_bytes_at P alignment data_size encoded page offset =
     mbind (check_unallocated_page P page offset data_size) (\<lambda>_.
     mbind (check_alignment alignment offset) (\<lambda>_.
       let padded_len = align_up alignment (length encoded) in
       if offset + padded_len > PAGE_SIZE P
       then fail (SegmentationFault page offset padded_len (PAGE_SIZE P))
       else
         mbind (provider_write P page offset encoded) (\<lambda>_.
           let padding = padded_len - length encoded in
           if padding > 0
           then mbind (lift_res (absolute_offset P page offset)) (\<lambda>absolute.
                  p_write P (absolute + length encoded) (replicate padding 0))
           else ret ())))"

definition mm_write_at_raw :: "'p provider \<Rightarrow> nat \<Rightarrow> nat \<Rightarrow> byte list \<Rightarrow> ('p, unit) mem_prog" where
  "mm_write_at_raw P page offset buf =
     mbind (check_unallocated_page P page offset (as_u16 (length buf))) (\<lambda>_.
       if offset + length buf > PAGE_SIZE P
       then fail (SegmentationFault page offset (length buf) (PAGE_SIZE P))
       else provider_write P page offset buf)"

definition mm_zero_bytes_at :: "'p provider \<Rightarrow> nat \<Rightarrow> nat \<Rightarrow> nat \<Rightarrow> nat \<Rightarrow> ('p, unit) mem_prog" where
  "mm_zero_bytes_at P alignment data_size page offset =
     mbind (check_unallocated_page P page offset data_size) (\<lambda>_.
     mbind (check_alignment alignment offset) (\<lambda>_.
       let len = align_up alignment data_size in
       if offset + len > PAGE_SIZE P
       then fail (SegmentationFault page offset data_size (PAGE_SIZE P))
       else provider_write P page offset (replicate len 0)))"

definition mm_zero_raw :: "'p provider \<Rightarrow> nat \<Rightarrow> nat \<Rightarrow> nat \<Rightarrow> ('p, unit) mem_prog" where
  "mm_zero_raw P page offset len =
     mbind (check_unallocated_page P page offset len) (\<lambda>_.
       if offset + len > PAGE_SIZE P
       then fail (SegmentationFault page offset len (PAGE_SIZE P))
       else provider_write P page offset (replicate len 0))"

definition MemoryManager :: "'p provider \<Rightarrow> 'p mem_ops" where
  "MemoryManager P = \<lparr>page_size = (\<lambda>_. PAGE_SIZE P),
     grow_one_page = mm_grow_one_page P, zero_page = mm_zero_page P,
     read_bytes_at = mm_read_bytes_at P, write_bytes_at = mm_write_bytes_at P,
     write_at_raw = mm_write_at_raw P, zero_bytes_at = mm_zero_bytes_at P,
     zero_raw = mm_zero_raw P, read_at_raw = mm_read_at_raw P\<rparr>"

section \<open>Pages of a flat memory\<close>

definition pages_of :: "byte list \<Rightarrow> byte list list" where
  "pages_of mem = map (\<lambda>i. slice (i * 65536) 65536 mem) [0..<length mem div 65536]"

lemma length_pages_of [simp]: "length (pages_of mem) = length mem div 65536"
  by (simp add: pages_of_def)

lemma page_end_le: "p < length mem div 65536 \<Longrightarrow> p * 65536 + 65536 \<le> length (mem :: byte list)"
proof -
  assume "p < length mem div 65536"
  then have "(p + 1) * 65536 \<le> length mem div 65536 * 65536" by simp
  also have "\<dots> \<le> length mem" by simp
  finally show ?thesis by simp
qed

lemma length_page [simp]: "p < length mem div 65536 \<Longrightarrow> length (pages_of mem ! p) = 65536"
  using page_end_le [of p mem] by (simp add: pages_of_def)

lemma pages_of_slice:
  assumes "p < length mem div 65536" and "off + len \<le> 65536"
  shows "slice off len (pages_of mem ! p) = slice (p * 65536 + off) len mem"
  using assms page_end_le [of p mem] by (simp add: pages_of_def slice_slice)

lemma pages_of_splice:
  assumes p: "p < length mem div 65536" and "off + length bs \<le> 65536"
  shows "pages_of (splice_at (p * 65536 + off) bs mem) =
     (pages_of mem)[p := splice_at off bs (pages_of mem ! p)]"
proof (rule nth_equalityI)
  have le: "p * 65536 + off + length bs \<le> length mem" using page_end_le [OF p] assms(2) by simp
  then show "length (pages_of (splice_at (p * 65536 + off) bs mem)) =
     length ((pages_of mem)[p := splice_at off bs (pages_of mem ! p)])" by simp
  fix i assume "i < length (pages_of (splice_at (p * 65536 + off) bs mem))"
  then have i: "i < length mem div 65536" using le by simp
  show "pages_of (splice_at (p * 65536 + off) bs mem) ! i =
     (pages_of mem)[p := splice_at off bs (pages_of mem ! p)] ! i"
  proof (cases "i = p")
    case True
    then show ?thesis
      using le i assms(2) page_end_le [OF p] by (simp add: pages_of_def slice_splice_inside)
  next
    case False
    then have "i * 65536 + 65536 \<le> p * 65536 \<or> p * 65536 + 65536 \<le> i * 65536"
      by (cases "i < p") auto
    then show ?thesis
      using False le i assms(2) page_end_le [OF i]
      by (simp add: pages_of_def) (rule slice_splice_disjoint, auto)
  qed
qed

lemma pages_of_append_page:
  assumes "65536 dvd length mem" and "length c = 65536"
  shows "pages_of (mem @ c) = pages_of mem @ [c]"
proof -
  obtain n where n: "length mem = 65536 * n" using assms(1) by (elim dvdE)
  have "slice (i * 65536) 65536 (mem @ c) = slice (i * 65536) 65536 mem" if "i < n" for i
    using that n by (intro slice_append_left) simp
  moreover have "slice (n * 65536) 65536 (mem @ c) = c"
    using n assms(2) by (simp add: slice_def)
  ultimately show ?thesis
    using n assms(2) by (simp add: pages_of_def)
qed

section \<open>The manager honours the contract\<close>

lemmas mm_ops_defs = mm_grow_one_page_def mm_zero_page_def mm_read_at_raw_def mm_read_bytes_at_def
  mm_write_bytes_at_def mm_write_at_raw_def mm_zero_bytes_at_def mm_zero_raw_def

definition mm_pages :: "('p \<Rightarrow> byte list) \<Rightarrow> 'p \<Rightarrow> byte list list" where
  "mm_pages bytes p = pages_of (bytes p)"

context memory_provider
begin

lemma length_mm_pages [simp]: "inv p \<Longrightarrow> length (mm_pages bytes p) = p_pages P p"
  by (simp add: mm_pages_def pages)

lemma last_page_Some: "inv p \<Longrightarrow> 0 < p_pages P p \<Longrightarrow> last_page P p = Some (p_pages P p - 1)"
proof -
  assume "inv p" and "0 < p_pages P p"
  then have "(p_pages P p + 2 ^ 32 - 1) mod 2 ^ 32 = p_pages P p - 1"
    using pages_u32 [of p] by (intro wrap_sub) auto
  then show ?thesis using pages_u32 [OF \<open>inv p\<close>] \<open>0 < p_pages P p\<close>
    by (simp add: last_page_def Let_def)
qed

lemma past_last_page_iff [simp]: "inv p \<Longrightarrow> past_last_page P pa p \<longleftrightarrow> p_pages P p \<le> pa"
  by (cases "p_pages P p = 0")
    (auto simp: past_last_page_def last_page_Some, simp add: last_page_def)

lemma check_unallocated_ok [simp]:
  "inv p \<Longrightarrow> pa < p_pages P p \<Longrightarrow> check_unallocated_page P pa off n p = (Ok (), p)"
  by (simp add: check_unallocated_page_def)

lemma check_unallocated_fault [simp]:
  "inv p \<Longrightarrow> p_pages P p \<le> pa \<Longrightarrow>
     check_unallocated_page P pa off n p = (Err (SegmentationFault pa off n 65536), p)"
  by (simp add: check_unallocated_page_def page_size)

lemma absolute_offset_ok [simp]:
  "inv p \<Longrightarrow> pa < p_pages P p \<Longrightarrow> off \<le> 65536 \<Longrightarrow> absolute_offset P pa off = Ok (pa * 65536 + off)"
  using pages_u32 [of p] by (simp add: absolute_offset_def page_size)

lemma in_page:
  "inv p \<Longrightarrow> pa < p_pages P p \<Longrightarrow> off + len \<le> 65536 \<Longrightarrow> pa * 65536 + off + len \<le> length (bytes p)"
  using page_end_le [of pa "bytes p"] by (simp add: pages)

lemma provider_write_ok:
  assumes "inv p" and "pa < p_pages P p" and "off + length bs \<le> 65536"
  obtains p' where "provider_write P pa off bs p = (Ok (), p')" and "inv p'"
    and "bytes p' = splice_at (pa * 65536 + off) bs (bytes p)"
    and "mm_pages bytes p' = (mm_pages bytes p)[pa := splice_at off bs (mm_pages bytes p ! pa)]"
proof -
  obtain p' where w: "p_write P (pa * 65536 + off) bs p = (Ok (), p')" "inv p'"
    "bytes p' = splice_at (pa * 65536 + off) bs (bytes p)"
    using write_ok [OF assms(1), of "pa * 65536 + off" bs] in_page [OF assms] by auto
  have a: "absolute_offset P pa off = Ok (pa * 65536 + off)"
    using assms by (intro absolute_offset_ok) auto
  have "provider_write P pa off bs p = (Ok (), p')"
    using w by (simp add: provider_write_def a)
  moreover have "mm_pages bytes p' = (mm_pages bytes p)[pa := splice_at off bs (mm_pages bytes p ! pa)]"
    using assms w by (simp add: mm_pages_def pages_of_splice pages)
  ultimately show thesis using w by (intro that) auto
qed

lemma mm_read_raw:
  assumes "inv p" and "pa < p_pages P p" and "off \<le> 65536" and "k = min (65536 - off) (length buf)"
  shows "mm_read_at_raw P pa off buf p = (Ok (k, slice off k (mm_pages bytes p ! pa) @ drop k buf), p)"
proof -
  have "(65536 + 2 ^ 64 - off) mod 2 ^ 64 = 65536 - off"
    using assms(3) by (intro wrap_sub) auto
  then have rl: "min ((65536 + 2 ^ 64 - off) mod 2 ^ 64) (length buf) = k"
    using assms(4) by (simp only:)
  have k: "off + k \<le> 65536" using assms by auto
  have a: "absolute_offset P pa off = Ok (pa * 65536 + off)"
    using assms by (intro absolute_offset_ok) auto
  have rd: "p_read P (pa * 65536 + off) k p = (Ok (slice (pa * 65536 + off) k (bytes p)), p)"
    using read_ok [OF assms(1)] in_page [OF assms(1,2) k] by simp
  show ?thesis
    using assms(1,2) k rd a rl
    by (simp add: mm_read_at_raw_def page_size Let_def mm_pages_def pages_of_slice pages)
qed

lemma mm_write_bytes:
  assumes "inv p" and "pa < p_pages P p" and "0 < a" and "a dvd off"
    and "off + align_up a (length bs) \<le> 65536"
  obtains p' where "mm_write_bytes_at P a sz bs pa off p = (Ok (), p')" and "inv p'"
    and "mm_pages bytes p' = (mm_pages bytes p)[pa := splice_at off (padded a bs) (mm_pages bytes p ! pa)]"
proof -
  let ?pad = "align_up a (length bs) - length bs"
  have ge: "length bs \<le> align_up a (length bs)" using assms by (intro align_up_ge) auto
  have abs: "absolute_offset P pa off = Ok (pa * 65536 + off)"
    using assms by (intro absolute_offset_ok) auto
  obtain p1 where w1: "provider_write P pa off bs p = (Ok (), p1)" "inv p1"
    "bytes p1 = splice_at (pa * 65536 + off) bs (bytes p)"
    using provider_write_ok [OF assms(1,2), of off bs] ge assms(5) by auto
  have lb: "length (bytes p1) = length (bytes p)"
    using w1 in_page [OF assms(1,2), of off "length bs"] ge assms(5) by simp
  then have n: "pa < p_pages P p1" using pages [OF w1(2)] pages [OF assms(1)] assms(2) by simp
  obtain p' where w2: "p_write P (pa * 65536 + off + length bs) (replicate ?pad 0) p1 = (Ok (), p')" "inv p'"
    "bytes p' = splice_at (pa * 65536 + off + length bs) (replicate ?pad 0) (bytes p1)"
    using write_ok [OF w1(2), of "pa * 65536 + off + length bs" "replicate ?pad 0"]
      in_page [OF w1(2) n, of off "align_up a (length bs)"] ge assms(5) by (auto simp: add.assoc)
  have bytes': "bytes p' = splice_at (pa * 65536 + off) (padded a bs) (bytes p)"
    using in_page [OF assms(1,2), of off "align_up a (length bs)"] ge assms(5)
    unfolding w2(3) w1(3) padded_def by (subst splice_splice_append) auto
  then have "mm_pages bytes p' = (mm_pages bytes p)[pa := splice_at off (padded a bs) (mm_pages bytes p ! pa)]"
    using assms ge pages_of_splice [of pa "bytes p" off "padded a bs"]
    by (simp add: mm_pages_def pages padded_def)
  moreover have "mm_write_bytes_at P a sz bs pa off p = (Ok (), if ?pad > 0 then p' else p1)"
    using assms w1 w2 abs
    by (simp add: mm_write_bytes_at_def page_size check_alignment_def Let_def add.assoc)
  moreover have "bytes p1 = bytes p'" if "\<not> ?pad > 0" using that w2(3) by simp
  ultimately show thesis using w1 w2 by (intro that [of "if ?pad > 0 then p' else p1"])
      (auto simp: mm_pages_def)
qed

lemma mm_grow:
  assumes "inv p"
  shows "(\<exists>p'. mm_grow_one_page P p = (Ok (p_pages P p), p') \<and> inv p' \<and>
            mm_pages bytes p' = mm_pages bytes p @ [replicate 65536 0]) \<or>
         (\<exists>e. mm_grow_one_page P p = (Err e, p) \<and> p_grow P 1 p = (Err e, p))"
  using grow [OF assms, of 1]
proof (elim disjE exE conjE)
  fix p1 junk
  assume g: "p_grow P 1 p = (Ok (length (bytes p)), p1)" "inv p1" "bytes p1 = bytes p @ junk"
    "length junk = 65536 * 1"
  have n1: "p_pages P p1 = p_pages P p + 1"
    using pages [OF assms] pages [OF g(2)] g by simp
  then have lp: "last_page P p1 = Some (p_pages P p)"
    using last_page_Some [OF g(2)] by simp
  obtain p' where w: "provider_write P (p_pages P p) 0 (replicate 65536 0) p1 = (Ok (), p')" "inv p'"
    "bytes p' = splice_at (p_pages P p * 65536 + 0) (replicate 65536 0) (bytes p1)"
    using provider_write_ok [OF g(2), of "p_pages P p" 0 "replicate 65536 0"] n1 by auto
  have b': "bytes p' = bytes p @ replicate 65536 0"
    using w g pages [OF assms] by (simp add: splice_at_def)
  then have "p_pages P p' = p_pages P p + 1"
    using pages [OF w(2)] pages [OF assms] by simp
  then have "last_page P p' = Some (p_pages P p)"
    using last_page_Some [OF w(2)] by simp
  then have "mm_grow_one_page P p = (Ok (p_pages P p), p')"
    using g w lp by (simp add: mm_grow_one_page_def page_size)
  moreover have "mm_pages bytes p' = mm_pages bytes p @ [replicate 65536 0]"
    using b' pages [OF assms] by (simp add: mm_pages_def pages_of_append_page)
  ultimately show ?thesis using w by blast
next
  fix e assume "p_grow P 1 p = (Err e, p)"
  then show ?thesis by (simp add: mm_grow_one_page_def)
qed

end

sublocale memory_provider \<subseteq> mm: memory_access "MemoryManager P" inv "mm_pages bytes"
proof (unfold_locales, goal_cases)
  case (1 m)
  show ?case by (simp add: MemoryManager_def page_size)
next
  case (2 m p)
  then show ?case by (simp add: mm_pages_def pages)
next
  case (3 m)
  then show ?case using pages_u32 [of m] by simp
next
  case (4 m p off k buf)
  then show ?case by (simp add: MemoryManager_def mm_read_raw)
next
  case (5 m p off buf)
  then show ?case by (simp add: MemoryManager_def mm_read_at_raw_def)
next
  case (6 m p a off ds)
  then have "length (mm_pages bytes m ! p) = 65536" by (simp add: mm_pages_def pages)
  with 6 show ?case
    by (cases ds) (auto simp: MemoryManager_def mm_read_bytes_at_def check_alignment_def Let_def
         page_size mm_read_raw read_len_def)
next
  case (7 m p a off bs sz)
  then show ?case
    by (simp add: MemoryManager_def) (metis mm_write_bytes)
next
  case (8 m a off p bs sz)
  then show ?case
    by (cases "p < p_pages P m") (auto simp: MemoryManager_def mm_write_bytes_at_def check_alignment_def
         Let_def page_size)
next
  case (9 m p off bs)
  then show ?case
    by (simp add: MemoryManager_def mm_write_at_raw_def page_size) (metis provider_write_ok)
next
  case (10 m p a off sz)
  then show ?case
    by (simp add: MemoryManager_def mm_zero_bytes_at_def page_size check_alignment_def Let_def)
       (metis provider_write_ok length_replicate)
next
  case (11 m p off len)
  then show ?case
    by (simp add: MemoryManager_def mm_zero_raw_def page_size) (metis provider_write_ok length_replicate)
next
  case (12 m p)
  have "length (mm_pages bytes m ! p) = 65536" using 12 by (simp add: mm_pages_def pages)
  then have "splice_at 0 (replicate 65536 0) (mm_pages bytes m ! p) = replicate 65536 0"
    by (intro splice_at_all) simp
  with 12 show ?case
    by (simp add: MemoryManager_def mm_zero_page_def page_size)
       (metis provider_write_ok length_replicate add_0 order_refl)
next
  case (13 m p)
  then show ?case by (simp add: MemoryManager_def mm_zero_page_def)
next
  case (14 m)
  then show ?case using mm_grow [of m] by (auto simp: MemoryManager_def)
qed

lemma heap_grow_succeeds:
  assumes "heap_inv h" and "heap_size h + 65536 \<le> alloc_limit h"
  shows "fst (mm_grow_one_page HeapMemoryProvider h) = Ok (p_pages HeapMemoryProvider h)"
proof -
  have "fst (p_grow HeapMemoryProvider 1 h) = Ok (heap_size h)"
    using assms by (simp add: heap_defs Let_def)
  then show ?thesis using heap.mm_grow [OF assms(1)] by auto
qed

section \<open>A memory to evaluate on\<close>

text \<open>A heap of \<open>n\<close> zeroed pages whose allocator serves up to 1024 pages.\<close>

definition blank_heap :: "nat \<Rightarrow> heap_memory" where
  "blank_heap n = \<lparr>memory = replicate (65536 * n) 0, alloc_limit = 65536 * 1024\<rparr>"

lemma blank_heap_inv: "n \<le> 1024 \<Longrightarrow> heap_inv (blank_heap n)"
  by (simp add: blank_heap_def heap_inv_def heap_size_def)

lemma blank_heap_pages [simp]: "p_pages HeapMemoryProvider (blank_heap n) = n"
  by (simp add: HeapMemoryProvider_def heap_pages_def heap_size_def blank_heap_def WASM_PAGE_SIZE_def)

lemma blank_heap_page: "p < n \<Longrightarrow> mm_pages memory (blank_heap n) ! p = replicate 65536 0"
  by (simp add: mm_pages_def pages_of_def blank_heap_def slice_def)

lemma length_blank_pages [simp]: "length (mm_pages memory (blank_heap n)) = n"
  by (simp add: mm_pages_def pages_of_def blank_heap_def)

lemma mm_init_blank: "mm_init HeapMemoryProvider (heap_default (65536 * 1024)) = (Ok (), blank_heap 2)"
  by (simp add: mm_init_def heap_defs heap_default_def RESERVED_PAGES_def blank_heap_def Let_def)

text \<open>A page that was never written decodes as the empty ledger.\<close>

lemma up_decode_blank: "up_decode (replicate 65536 0) = Ok []"
proof -
   have "as_u32 0 = 0" by (simp add: as_u32_def)
  then have "up_encode [] = replicate 4 0" by (simp add: up_encode_def le_bytes_0)
  moreover have "replicate (4 + 65532) 0 = replicate 4 0 @ replicate 65532 (0 :: byte)"
    by (rule replicate_add)
  moreover have "(4 :: nat) + 65532 = 65536" by simp
  ultimately have eq: "replicate 65536 0 = up_encode [] @ replicate 65532 (0 :: byte)"
    by (simp only:)
  have "up_wf []" by (simp add: up_wf_def)
  then show ?thesis unfolding eq by (rule up_decode_encode)
qed

lemma mm_grow_blank:
  assumes "n < 1024"
  shows "mm_grow_one_page HeapMemoryProvider (blank_heap n) = (Ok n, blank_heap (n + 1))"
proof -
  let ?P = HeapMemoryProvider and ?h = "blank_heap (n + 1)"
  have g: "p_grow ?P 1 (blank_heap n) = (Ok (65536 * n), ?h)"
    using assms by (simp add: heap_defs blank_heap_def Let_def replicate_add [symmetric])
  have i: "heap_inv ?h" using assms by (intro blank_heap_inv) simp
  then have l: "last_page ?P ?h = Some n" using heap.last_page_Some [OF i] by simp
  have "splice_at (65536 * n) (replicate 65536 0) (replicate (65536 * (n + 1)) 0) =
      replicate (65536 * (n + 1)) (0 :: byte)"
    by (intro nth_equalityI) (auto simp: nth_splice_at)
  then have "heap_write (65536 * n) (replicate 65536 0) ?h = (Ok (), ?h)"
    using assms by (simp add: heap_write_def heap_checked_range_def heap_size_def blank_heap_def)
  moreover have "absolute_offset ?P n 0 = Ok (65536 * n)"
    using heap.absolute_offset_ok [OF i, of n 0] by (simp add: mult.commute)
  ultimately have "provider_write ?P n 0 (replicate 65536 0) ?h = (Ok (), ?h)"
    by (simp add: provider_write_def HeapMemoryProvider_def)
  then show ?thesis
    using g l by (simp add: mm_grow_one_page_def heap.page_size)
qed

lemma pool_inv_blank: "2 \<le> n \<Longrightarrow> pool_inv (mm_pages memory (blank_heap n)) {}"
  by (intro pool_invI [of _ _ "[]"]) (auto simp: blank_heap_page up_decode_blank)

lemma pool_inv_blank_owned:
  assumes "U \<subseteq> {2..<n}" and "2 \<le> n"
  shows "pool_inv (mm_pages memory (blank_heap n)) U"
  using assms by (intro pool_invI [of _ _ "[]"]) (auto simp: blank_heap_page up_decode_blank)

abbreviation heap_mm :: "heap_memory mem_ops" where
  "heap_mm \<equiv> MemoryManager HeapMemoryProvider"

lemma claim_blank: "2 \<le> n \<Longrightarrow> n < 1024 \<Longrightarrow> claim_page heap_mm (blank_heap n) = (Ok n, blank_heap (n + 1))"
  using heap.mm.claim_empty [of "blank_heap n"] mm_grow_blank [of n]
  by (simp add: blank_heap_inv blank_heap_page up_decode_blank MemoryManager_def)

section \<open>Properties\<close>

text \<open>C14: a value of any well-behaved encoding written at an aligned offset of an allocated page where
  its padded encoding fits is read back as the same value, and every read of a region outside the
  padded one returns what it returned before.\<close>

theorem write_at_read_at:
  assumes "prefix_encoding C V" and "V x" and "heap_inv h" and "p < p_pages HeapMemoryProvider h"
    and "ALIGNMENT C dvd off" and "off + align_up (ALIGNMENT C) (length (encode C x)) \<le> 65536"
  shows "\<exists>h'. write_at heap_mm C p off x h = (Ok (), h') \<and> heap_inv h' \<and>
     read_at heap_mm C p off h' = (Ok x, h') \<and>
     (\<forall>q o' len. q < p_pages HeapMemoryProvider h \<longrightarrow> o' + len \<le> 65536 \<longrightarrow>
        q \<noteq> p \<or> o' + len \<le> off \<or> off + align_up (ALIGNMENT C) (length (encode C x)) \<le> o' \<longrightarrow>
        fst (read_at_raw heap_mm q o' (replicate len 0) h') = fst (read_at_raw heap_mm q o' (replicate len 0) h))"
proof -
  have a: "0 < ALIGNMENT C"
    using prefix_encoding.axioms(1) [OF assms(1)] by (rule encoding.alignment_pos)
  obtain h' where h': "write_at heap_mm C p off x h = (Ok (), h')" "heap_inv h'"
    "mm_pages memory h' = (mm_pages memory h)[p := splice_at off (padded (ALIGNMENT C) (encode C x)) (mm_pages memory h ! p)]"
    "read_at heap_mm C p off h' = (Ok x, h')"
    using assms by (elim heap.mm.write_read_at [of C V x h p off]) auto
  then show ?thesis
    using assms a heap.mm.read_raw_frame [OF assms(3) h'(2,3)]
    by (intro exI [of _ h']) (auto simp: heap.mm.length_padded)
qed

theorem write_at_read_at_witness:
  "\<exists>h'. write_at heap_mm UnclaimedPages 1 32 [7, 3] (blank_heap 2) = (Ok (), h') \<and>
     read_at heap_mm UnclaimedPages 1 32 h' = (Ok [7, 3], h') \<and>
     fst (read_at_raw heap_mm 1 0 (replicate 32 0) h') =
       fst (read_at_raw heap_mm 1 0 (replicate 32 0) (blank_heap 2))"
proof -
  have "align_up 32 12 \<le> 65504" using align_up_less [of 32 12] by simp
  then show ?thesis
    using write_at_read_at [OF unclaimed.prefix_encoding_axioms, of "[7, 3]" "blank_heap 2" 1 32]
    by (fastforce simp: blank_heap_inv up_wf_def UnclaimedPages_def DEFAULT_ALIGNMENT_def)
qed

text \<open>C15: a write that names an unallocated page, a misaligned offset, or a region whose padding would
  cross the end of the page is an error and changes nothing.\<close>

theorem write_at_rejects:
  assumes "heap_inv h" and "0 < ALIGNMENT C" and "off \<le> 65536"
    and "p_pages HeapMemoryProvider h \<le> p \<or> \<not> ALIGNMENT C dvd off \<or>
         65536 < off + align_up (ALIGNMENT C) (length (encode C x))"
  shows "\<exists>e h'. write_at heap_mm C p off x h = (Err e, h') \<and> heap_inv h' \<and>
     mm_pages memory h' = mm_pages memory h"
  using heap.mm.write_bytes_fault [of h "ALIGNMENT C" off p "encode C x" "enc_size C x"] assms
  by (simp add: write_at_def)

theorem write_at_rejects_witness:
  "\<exists>e h'. write_at heap_mm UnclaimedPages 1 65504 (replicate 8 3) (blank_heap 2) = (Err e, h') \<and>
     mm_pages memory h' = mm_pages memory (blank_heap 2)"
proof -
  have "32 < align_up 32 36" using align_up_ge [of 32 36] by simp
  then show ?thesis
    using write_at_rejects [of "blank_heap 2" UnclaimedPages 65504 1 "replicate 8 3"]
    by (simp add: blank_heap_inv UnclaimedPages_def DEFAULT_ALIGNMENT_def) blast
qed

text \<open>C13: whatever sequence of claims, releases and writes by owners has run since start-up, a page
  that is claimed next is held by nobody, is not one of the reserved pages, and is full of zeros.\<close>

theorem claimed_page_is_fresh:
  assumes "alloc_reachable heap_mm (blank_heap 2) (h, U)" and "claim_page heap_mm h = (Ok p, h')"
  shows "p \<notin> U \<and> RESERVED_PAGES \<le> p \<and> p < p_pages HeapMemoryProvider h' \<and>
     mm_pages memory h' ! p = replicate 65536 0"
proof -
  have "heap_inv h \<and> pool_inv (mm_pages memory h) U"
    using heap.mm.reachable_pool [OF assms(1)] by (simp add: blank_heap_inv pool_inv_blank)
  with heap.mm.claim_fresh [of h U "Ok p" h'] assms(2)
  have f: "heap_inv h'" "p \<notin> U \<and> 2 \<le> p \<and> p < length (mm_pages memory h') \<and>
     mm_pages memory h' ! p = replicate 65536 0" by auto
  from f(2) show ?thesis unfolding heap.length_mm_pages [OF f(1)] RESERVED_PAGES_def by blast
qed

theorem claimed_page_is_fresh_witness:
  "\<exists>h'. claim_page heap_mm (blank_heap 2) = (Ok 2, h') \<and> mm_pages memory h' ! 2 = replicate 65536 0"
proof -
  have g: "claim_page heap_mm (blank_heap 2) = grow_one_page heap_mm (blank_heap 2)"
    by (rule heap.mm.claim_empty) (simp_all add: blank_heap_inv blank_heap_page up_decode_blank)
  then have h': "claim_page heap_mm (blank_heap 2) = (Ok 2, blank_heap 3)"
    using mm_grow_blank [of 2] by (simp add: MemoryManager_def)
  show ?thesis
    using claimed_page_is_fresh [OF alloc_reachable.start h'] h' by blast
qed

end
