(* ===== verification/Journal.thy ===== *)
theory Journal
  imports Memory_Manager
begin

text \<open>
  The write-ahead journal (\<^verbatim>\<open>transaction/journal.rs\<close>): \<^verbatim>\<open>JournaledWriter\<close> records the bytes a write is
  about to change, \<^verbatim>\<open>Journal::rollback\<close> writes them back in reverse order, and
  \<^verbatim>\<open>WasmDbmsDatabase::atomic\<close> brackets a closure with both. The theory shows that the writer is a
  \<^verbatim>\<open>MemoryAccess\<close> like the manager it wraps and that what it does can be undone.
\<close>

section \<open>Model\<close>

record journal_entry =
  je_page :: nat
  je_offset :: nat
  original_bytes :: "byte list"

type_synonym journal = "journal_entry list"

text \<open>The entries are replayed last to first: \<open>replay\<close> is the loop over the reversed list.\<close>

fun replay :: "'p provider \<Rightarrow> journal \<Rightarrow> ('p, unit) mem_prog" where
  "replay P [] = ret ()"
| "replay P (entry # entries) =
     mbind (mm_write_at_raw P (je_page entry) (je_offset entry) (original_bytes entry)) (\<lambda>_.
     replay P entries)"

definition rollback :: "'p provider \<Rightarrow> journal \<Rightarrow> ('p, unit) mem_prog" where
  "rollback P entries = replay P (rev entries)"

definition journal_record ::
  "'p provider \<Rightarrow> nat \<Rightarrow> nat \<Rightarrow> nat \<Rightarrow> ('p \<times> journal, unit) mem_prog" where
  "journal_record P page offset len s =
     (case mm_read_at_raw P page offset (replicate len 0) (fst s) of
        (Ok (n, original), p') \<Rightarrow>
          (Ok (), (p', snd s @ [\<lparr>je_page = page, je_offset = offset, original_bytes = original\<rparr>]))
      | (Err e, p') \<Rightarrow> (Err e, (p', snd s))
      | (Panic, p') \<Rightarrow> (Panic, (p', snd s)))"

text \<open>\<open>delegate\<close> runs an operation of the wrapped manager.\<close>

definition delegate :: "('p, 'a) mem_prog \<Rightarrow> ('p \<times> journal, 'a) mem_prog" where
  "delegate f s = (case f (fst s) of (r, p') \<Rightarrow> (r, (p', snd s)))"

definition jw_zero_page :: "'p provider \<Rightarrow> nat \<Rightarrow> ('p \<times> journal, unit) mem_prog" where
  "jw_zero_page P page =
     mbind (journal_record P page 0 (PAGE_SIZE P)) (\<lambda>_. delegate (mm_zero_page P page))"

definition jw_write_bytes_at ::
  "'p provider \<Rightarrow> nat \<Rightarrow> nat \<Rightarrow> byte list \<Rightarrow> nat \<Rightarrow> nat \<Rightarrow> ('p \<times> journal, unit) mem_prog" where
  "jw_write_bytes_at P alignment data_size encoded page offset =
     (let total_len = align_up alignment data_size in
      mbind (journal_record P page offset total_len) (\<lambda>_.
      delegate (mm_write_bytes_at P alignment data_size encoded page offset)))"

definition jw_write_at_raw :: "'p provider \<Rightarrow> nat \<Rightarrow> nat \<Rightarrow> byte list \<Rightarrow> ('p \<times> journal, unit) mem_prog" where
  "jw_write_at_raw P page offset buf =
     mbind (journal_record P page offset (length buf)) (\<lambda>_.
     delegate (mm_write_at_raw P page offset buf))"

definition jw_zero_bytes_at ::
  "'p provider \<Rightarrow> nat \<Rightarrow> nat \<Rightarrow> nat \<Rightarrow> nat \<Rightarrow> ('p \<times> journal, unit) mem_prog" where
  "jw_zero_bytes_at P alignment data_size page offset =
     (let total_len = align_up alignment data_size in
      mbind (journal_record P page offset total_len) (\<lambda>_.
      delegate (mm_zero_bytes_at P alignment data_size page offset)))"

definition jw_zero_raw :: "'p provider \<Rightarrow> nat \<Rightarrow> nat \<Rightarrow> nat \<Rightarrow> ('p \<times> journal, unit) mem_prog" where
  "jw_zero_raw P page offset len =
     mbind (journal_record P page offset len) (\<lambda>_. delegate (mm_zero_raw P page offset len))"

definition JournaledWriter :: "'p provider \<Rightarrow> ('p \<times> journal) mem_ops" where
  "JournaledWriter P = \<lparr>page_size = (\<lambda>_. PAGE_SIZE P),
     grow_one_page = delegate (mm_grow_one_page P), zero_page = jw_zero_page P,
     read_bytes_at = (\<lambda>ds a page offset. delegate (mm_read_bytes_at P ds a page offset)),
     write_bytes_at = jw_write_bytes_at P, write_at_raw = jw_write_at_raw P,
     zero_bytes_at = jw_zero_bytes_at P, zero_raw = jw_zero_raw P,
     read_at_raw = (\<lambda>page offset buf. delegate (mm_read_at_raw P page offset buf))\<rparr>"

subsection \<open>Atomic blocks\<close>

text \<open>
  The part of \<^verbatim>\<open>DbmsContext\<close> an atomic block touches. A closure of \<^verbatim>\<open>atomic\<close> obtains its writer from the
  active journal, which is \<open>with_writer\<close>.
\<close>

record 'p db_context =
  ctx_mm :: 'p
  ctx_journal :: "journal option"

definition with_writer :: "('p \<times> journal, 'a, 'e) prog \<Rightarrow> ('p db_context, 'a, 'e) prog" where
  "with_writer f ctx = (case ctx_journal ctx of
      None \<Rightarrow> (Panic, ctx)
    | Some j \<Rightarrow> (case f (ctx_mm ctx, j) of
         (r, (p', j')) \<Rightarrow> (r, ctx\<lparr>ctx_mm := p', ctx_journal := Some j'\<rparr>)))"

definition atomic :: "'p provider \<Rightarrow> ('p db_context, 'a, 'e) prog \<Rightarrow> ('p db_context, 'a, 'e) prog" where
  "atomic P f ctx =
     (let nested = (ctx_journal ctx \<noteq> None);
          ctx1 = (if nested then ctx else ctx\<lparr>ctx_journal := Some []\<rparr>)
      in case f ctx1 of
           (Ok res, ctx2) \<Rightarrow>
             (Ok res, if nested then ctx2 else ctx2\<lparr>ctx_journal := None\<rparr>)
         | (Err err, ctx2) \<Rightarrow>
             (if nested then (Err err, ctx2)
              else (case ctx_journal ctx2 of
                      None \<Rightarrow> (Err err, ctx2)
                    | Some j \<Rightarrow> (case rollback P j (ctx_mm ctx2) of
                          (Ok _, p') \<Rightarrow> (Err err, ctx2\<lparr>ctx_mm := p', ctx_journal := None\<rparr>)
                        | (Err _, p') \<Rightarrow> (Panic, ctx2\<lparr>ctx_mm := p', ctx_journal := None\<rparr>)
                        | (Panic, p') \<Rightarrow> (Panic, ctx2\<lparr>ctx_mm := p', ctx_journal := None\<rparr>))))
         | (Panic, ctx2) \<Rightarrow> (Panic, ctx2))"

section \<open>Undoing on page contents\<close>

text \<open>What replaying a journal does to the pages, and when every entry lies inside its page.\<close>

fun undo :: "journal \<Rightarrow> byte list list \<Rightarrow> byte list list" where
  "undo [] pgs = pgs"
| "undo (e # es) pgs =
     (undo es pgs)[je_page e := splice_at (je_offset e) (original_bytes e) (undo es pgs ! je_page e)]"

definition fits :: "journal \<Rightarrow> nat \<Rightarrow> bool" where
  "fits es n \<longleftrightarrow> (\<forall>e \<in> set es. je_page e < n \<and> je_offset e + length (original_bytes e) \<le> 65536)"

lemma fits_simps [simp]:
  "fits [] n"
  "fits (e # es) n \<longleftrightarrow> je_page e < n \<and> je_offset e + length (original_bytes e) \<le> 65536 \<and> fits es n"
  "fits (es @ fs) n \<longleftrightarrow> fits es n \<and> fits fs n"
  by (auto simp: fits_def)

lemma fits_mono: "fits es n \<Longrightarrow> n \<le> k \<Longrightarrow> fits es k"
  by (auto simp: fits_def)

lemma length_undo [simp]: "length (undo es pgs) = length pgs"
  by (induction es) auto

lemma undo_append: "undo (es @ fs) pgs = undo es (undo fs pgs)"
  by (induction es) auto

lemma take_undo: "fits es n \<Longrightarrow> n \<le> length pgs \<Longrightarrow> take n (undo es pgs) = undo es (take n pgs)"
proof (induction es)
  case Nil
  then show ?case by simp
next
  case (Cons e es)
  then have "undo es (take n pgs) ! je_page e = undo es pgs ! je_page e"
    by (metis fits_simps(2) nth_take)
  with Cons show ?case by (simp add: take_update_swap)
qed

lemma splice_restore:
  assumes "off + len \<le> length xs" and "length bs \<le> len"
  shows "splice_at off (slice off len xs) (splice_at off bs xs) = xs"
  using assms by (intro nth_equalityI) (auto simp: nth_slice nth_splice_at)

section \<open>Undoable programs\<close>

text \<open>
  A program on the journaled memory is undoable when, however it ends, it has only added entries to
  the journal, and replaying those gives the pages it found back (pages it has grown stay).
\<close>

definition undoable ::
  "('p \<Rightarrow> bool) \<Rightarrow> ('p \<Rightarrow> byte list list) \<Rightarrow> ('p \<times> journal, 'a, 'e) prog \<Rightarrow> bool" where
  "undoable I pg f \<longleftrightarrow> (\<forall>p j r p' j'. I p \<longrightarrow> f (p, j) = (r, (p', j')) \<longrightarrow>
     I p' \<and> length (pg p) \<le> length (pg p') \<and>
     (\<exists>es. j' = j @ es \<and> fits es (length (pg p')) \<and>
           take (length (pg p)) (undo es (pg p')) = pg p))"

lemma undoableI:
  assumes "\<And>p j r p' j'. I p \<Longrightarrow> f (p, j) = (r, (p', j')) \<Longrightarrow>
     I p' \<and> length (pg p) \<le> length (pg p') \<and>
     (\<exists>es. j' = j @ es \<and> fits es (length (pg p')) \<and> take (length (pg p)) (undo es (pg p')) = pg p)"
  shows "undoable I pg f"
  using assms by (auto simp: undoable_def)

lemma undoableD:
  assumes "undoable I pg f" and "I p" and "f (p, j) = (r, (p', j'))"
  obtains es where "I p'" and "length (pg p) \<le> length (pg p')" and "j' = j @ es"
    and "fits es (length (pg p'))" and "take (length (pg p)) (undo es (pg p')) = pg p"
  using assms unfolding undoable_def by blast

text \<open>Programs that leave the journaled memory alone.\<close>

lemma undoable_pure: "(\<And>s. snd (f s) = s) \<Longrightarrow> undoable I pg f"
proof (rule undoableI)
  fix p j r p' j'
  assume "\<And>s. snd (f s) = s" and p: "I p" and f: "f (p, j) = (r, (p', j'))"
  then have "(p', j') = (p, j)" by (metis snd_conv)
  with p show "I p' \<and> length (pg p) \<le> length (pg p') \<and>
     (\<exists>es. j' = j @ es \<and> fits es (length (pg p')) \<and> take (length (pg p)) (undo es (pg p')) = pg p)"
    by (intro conjI exI [of _ "[]"]) auto
qed

lemma undoable_ret [intro, simp]: "undoable I pg (ret x)"
  and undoable_fail [intro, simp]: "undoable I pg (fail e)"
  and undoable_panic [intro, simp]: "undoable I pg panic"
  and undoable_lift_res [intro, simp]: "undoable I pg (lift_res r)"
  by (auto intro!: undoable_pure)

text \<open>Composition: whatever the first part answers, the second goes on from there.\<close>

lemma undoable_then:
  assumes f: "undoable I pg f" and g: "\<And>r p j p' j'. I p \<Longrightarrow> f (p, j) = (r, (p', j')) \<Longrightarrow> undoable I pg (g r)"
  shows "undoable I pg (\<lambda>s. case f s of (r, s') \<Rightarrow> g r s')"
proof (rule undoableI)
  fix p j r p2 j2
  assume p: "I p" and run: "(case f (p, j) of (r, s') \<Rightarrow> g r s') = (r, (p2, j2))"
  obtain r1 p1 j1 where f1: "f (p, j) = (r1, (p1, j1))" by (metis prod.exhaust)
  obtain es where es: "I p1" "length (pg p) \<le> length (pg p1)" "j1 = j @ es"
    "fits es (length (pg p1))" "take (length (pg p)) (undo es (pg p1)) = pg p"
    using f p f1 by (elim undoableD)
  obtain fs where fs: "I p2" "length (pg p1) \<le> length (pg p2)" "j2 = j1 @ fs"
    "fits fs (length (pg p2))" "take (length (pg p1)) (undo fs (pg p2)) = pg p1"
    using g [OF p f1] es(1) run f1 by (elim undoableD) auto
  have "take (length (pg p)) (undo (es @ fs) (pg p2)) =
      take (length (pg p)) (take (length (pg p1)) (undo es (undo fs (pg p2))))"
    using es(2) by (simp add: undo_append)
  also have "\<dots> = pg p"
    using es fs by (simp add: take_undo)
  finally show "I p2 \<and> length (pg p) \<le> length (pg p2) \<and>
     (\<exists>es. j2 = j @ es \<and> fits es (length (pg p2)) \<and> take (length (pg p)) (undo es (pg p2)) = pg p)"
    using es fs by (intro conjI exI [of _ "es @ fs"]) (auto intro: fits_mono)
qed

lemma undoable_mbind [intro]:
  assumes f: "undoable I pg f"
    and g: "\<And>x p j p' j'. I p \<Longrightarrow> f (p, j) = (Ok x, (p', j')) \<Longrightarrow> undoable I pg (g x)"
  shows "undoable I pg (mbind f g)"
proof -
  let ?g = "\<lambda>r. case r of Ok x \<Rightarrow> g x | Err e \<Rightarrow> fail e | Panic \<Rightarrow> panic"
  have "undoable I pg (\<lambda>s. case f s of (r, s') \<Rightarrow> ?g r s')"
  proof (rule undoable_then [OF f])
    fix r p j p' j' assume "I p" "f (p, j) = (r, p', j')"
    then show "undoable I pg (?g r)" using g by (cases r) auto
  qed
  moreover have "(\<lambda>s. case f s of (r, s') \<Rightarrow> ?g r s') = mbind f g"
    by (auto simp: mbind_def fun_eq_iff fail_def panic_def split: prod.split outcome.split)
  ultimately show ?thesis by simp
qed

lemma undoable_if [intro]: "undoable I pg f \<Longrightarrow> undoable I pg g \<Longrightarrow> undoable I pg (if b then f else g)"
  by simp

section \<open>The writer is undoable and honours the contract\<close>

definition jw_pages :: "('p \<Rightarrow> byte list list) \<Rightarrow> 'p \<times> journal \<Rightarrow> byte list list" where
  "jw_pages pg s = pg (fst s)"

definition jw_inv :: "('p \<Rightarrow> bool) \<Rightarrow> 'p \<times> journal \<Rightarrow> bool" where
  "jw_inv I s = I (fst s)"

lemma delegate_run: "f p = (r, p') \<Longrightarrow> delegate f (p, j) = (r, (p', j))"
  by (simp add: delegate_def)

lemmas jw_defs = jw_zero_page_def jw_write_bytes_at_def jw_write_at_raw_def jw_zero_bytes_at_def
  jw_zero_raw_def

context memory_provider
begin

abbreviation pgs where "pgs \<equiv> mm_pages bytes"

lemma journal_record_ok:
  assumes "inv p" and "pa < p_pages P p" and "off + len \<le> 65536"
  shows "journal_record P pa off len (p, j) =
     (Ok (), (p, j @ [\<lparr>je_page = pa, je_offset = off, original_bytes = slice off len (pgs p ! pa)\<rparr>]))"
proof -
  have "mm_read_at_raw P pa off (replicate len 0) p = (Ok (len, slice off len (pgs p ! pa) @ drop len (replicate len 0)), p)"
    using assms by (intro mm_read_raw) auto
  then show ?thesis by (simp add: journal_record_def)
qed

lemma journal_record_any:
  assumes "inv p" and "pa < p_pages P p" and "off \<le> 65536"
  obtains e where "journal_record P pa off len (p, j) = (Ok (), (p, j @ [e]))"
  using assms mm_read_raw [OF assms, of _ "replicate len 0"]
  by (simp add: journal_record_def)

lemma journal_record_fault:
  assumes "inv p" and "p_pages P p \<le> pa"
  shows "journal_record P pa off len (p, j) = (Err (SegmentationFault pa off len 65536), (p, j))"
  using assms by (simp add: journal_record_def mm_read_at_raw_def)

text \<open>
  The general case of a journaled primitive: the recorded region covers what the delegated operation
  changes.
\<close>

lemma undoable_recorded:
  assumes len: "off + len \<le> 65536"
    and f: "\<And>p r p'. inv p \<Longrightarrow> pa < p_pages P p \<Longrightarrow> f p = (r, p') \<Longrightarrow> inv p' \<and>
       (pgs p' = pgs p \<or> (\<exists>bs. length bs \<le> len \<and> pgs p' = (pgs p)[pa := splice_at off bs (pgs p ! pa)]))"
  shows "undoable inv pgs (mbind (journal_record P pa off len) (\<lambda>_. delegate f))"
proof (rule undoableI)
  fix p j r p' j'
  assume p: "inv p"
    and run: "mbind (journal_record P pa off len) (\<lambda>_. delegate f) (p, j) = (r, (p', j'))"
  let ?e = "\<lparr>je_page = pa, je_offset = off, original_bytes = slice off len (pgs p ! pa)\<rparr>"
  show "inv p' \<and> length (pgs p) \<le> length (pgs p') \<and>
     (\<exists>es. j' = j @ es \<and> fits es (length (pgs p')) \<and> take (length (pgs p)) (undo es (pgs p')) = pgs p)"
  proof (cases "pa < p_pages P p")
    case True
    then have pl: "length (pgs p ! pa) = 65536" using p by (simp add: mm_pages_def pages)
    obtain r1 p1 where f1: "f p = (r1, p1)" by (cases "f p")
    have eq: "p' = p1" "j' = j @ [?e]"
      using run f1 journal_record_ok [OF p True len, of j] by (auto simp: delegate_run)
    from f [OF p True f1] have "inv p1" and
      c: "pgs p1 = pgs p \<or> (\<exists>bs. length bs \<le> len \<and> pgs p1 = (pgs p)[pa := splice_at off bs (pgs p ! pa)])"
      by auto
    from c have "undo [?e] (pgs p1) = pgs p \<and> length (pgs p1) = length (pgs p)"
      using len pl True p by (auto simp: splice_restore)
    then show ?thesis using eq \<open>inv p1\<close> len pl True p
      by (intro conjI exI [of _ "[?e]"]) (auto simp del: undo.simps)
  next
    case False
    then have "p' = p" "j' = j" using run journal_record_fault [OF p, of pa off len j] by auto
    with p show ?thesis by (intro conjI exI [of _ "[]"]) auto
  qed
qed

text \<open>Every operation of the manager either updates the region it names or leaves the memory alone.\<close>

lemma mm_write_bytes_effect:
  assumes "inv p" and "pa < p_pages P p" and "0 < a" and "mm_write_bytes_at P a sz bs pa off p = (r, p')"
  shows "inv p' \<and> (pgs p' = pgs p \<or>
     (\<exists>cs. length cs \<le> align_up a (length bs) \<and> pgs p' = (pgs p)[pa := splice_at off cs (pgs p ! pa)]))"
proof (cases "a dvd off \<and> off + align_up a (length bs) \<le> 65536")
  case True
  then obtain p1 where w: "mm_write_bytes_at P a sz bs pa off p = (Ok (), p1)" "inv p1"
    "pgs p1 = (pgs p)[pa := splice_at off (padded a bs) (pgs p ! pa)]"
    using mm_write_bytes [OF assms(1-3)] by metis
  have "length (padded a bs) \<le> align_up a (length bs)"
    using assms(3) by (simp add: padded_def align_up_ge)
  with w assms(4) show ?thesis by auto
next
  case False
  then have "\<exists>e. mm_write_bytes_at P a sz bs pa off p = (Err e, p)"
    using assms(1-3)
    by (cases "a dvd off") (auto simp: mm_write_bytes_at_def check_alignment_def Let_def page_size)
  with assms show ?thesis by auto
qed

lemma mm_provider_write_effect:
  assumes "inv p" and "pa < p_pages P p" and "off + length bs \<le> 65536"
    and "provider_write P pa off bs p = (r, p')"
  shows "inv p' \<and> pgs p' = (pgs p)[pa := splice_at off bs (pgs p ! pa)]"
  using provider_write_ok [OF assms(1-3)] assms(4) by (metis prod.inject)

lemma undoable_write_bytes:
  assumes "0 < a" and "off + align_up a sz \<le> 65536" and "length bs \<le> sz"
  shows "undoable inv pgs (jw_write_bytes_at P a sz bs pa off)"
  unfolding jw_write_bytes_at_def Let_def
proof (rule undoable_recorded [OF assms(2)])
  fix p r p'
  assume "inv p" "pa < p_pages P p" "mm_write_bytes_at P a sz bs pa off p = (r, p')"
  then have "inv p' \<and> (pgs p' = pgs p \<or>
     (\<exists>cs. length cs \<le> align_up a (length bs) \<and> pgs p' = (pgs p)[pa := splice_at off cs (pgs p ! pa)]))"
    using assms(1) by (intro mm_write_bytes_effect)
  moreover have "align_up a (length bs) \<le> align_up a sz"
    using assms by (intro align_up_mono)
  ultimately show "inv p' \<and> (pgs p' = pgs p \<or>
     (\<exists>cs. length cs \<le> align_up a sz \<and> pgs p' = (pgs p)[pa := splice_at off cs (pgs p ! pa)]))"
    by (auto intro: order_trans)
qed

lemma undoable_write_raw:
  assumes "off + length bs \<le> 65536"
  shows "undoable inv pgs (jw_write_at_raw P pa off bs)"
  unfolding jw_write_at_raw_def
proof (rule undoable_recorded [OF assms])
  fix p r p'
  assume "inv p" "pa < p_pages P p" "mm_write_at_raw P pa off bs p = (r, p')"
  with assms show "inv p' \<and> (pgs p' = pgs p \<or>
     (\<exists>cs. length cs \<le> length bs \<and> pgs p' = (pgs p)[pa := splice_at off cs (pgs p ! pa)]))"
    using mm_provider_write_effect [of p pa off bs r p']
    by (auto simp: mm_write_at_raw_def page_size)
qed

lemma undoable_zero_bytes:
  assumes "0 < a" and "off + align_up a sz \<le> 65536"
  shows "undoable inv pgs (jw_zero_bytes_at P a sz pa off)"
  unfolding jw_zero_bytes_at_def Let_def
proof (rule undoable_recorded [OF assms(2)])
  fix p r p'
  assume "inv p" "pa < p_pages P p" "mm_zero_bytes_at P a sz pa off p = (r, p')"
  with assms show "inv p' \<and> (pgs p' = pgs p \<or>
     (\<exists>cs. length cs \<le> align_up a sz \<and> pgs p' = (pgs p)[pa := splice_at off cs (pgs p ! pa)]))"
    using mm_provider_write_effect [of p pa off "replicate (align_up a sz) 0" r p']
    by (auto simp: mm_zero_bytes_at_def check_alignment_def page_size Let_def split: if_splits
         intro!: exI [of _ "replicate (align_up a sz) 0"])
qed

lemma undoable_zero_raw:
  assumes "off + len \<le> 65536"
  shows "undoable inv pgs (jw_zero_raw P pa off len)"
  unfolding jw_zero_raw_def
proof (rule undoable_recorded [OF assms])
  fix p r p'
  assume "inv p" "pa < p_pages P p" "mm_zero_raw P pa off len p = (r, p')"
  with assms show "inv p' \<and> (pgs p' = pgs p \<or>
     (\<exists>cs. length cs \<le> len \<and> pgs p' = (pgs p)[pa := splice_at off cs (pgs p ! pa)]))"
    using mm_provider_write_effect [of p pa off "replicate len 0" r p']
    by (auto simp: mm_zero_raw_def page_size intro!: exI [of _ "replicate len 0"])
qed

lemma undoable_zero_page: "undoable inv pgs (jw_zero_page P pa)"
  unfolding jw_zero_page_def page_size
proof (rule undoable_recorded)
  fix p r p'
  assume "inv p" "pa < p_pages P p" "mm_zero_page P pa p = (r, p')"
  then show "inv p' \<and> (pgs p' = pgs p \<or>
     (\<exists>cs. length cs \<le> 65536 \<and> pgs p' = (pgs p)[pa := splice_at 0 cs (pgs p ! pa)]))"
    using mm_provider_write_effect [of p pa 0 "replicate 65536 0" r p']
    by (auto simp: mm_zero_page_def page_size intro!: exI [of _ "replicate 65536 0"])
qed simp

lemma undoable_grow: "undoable inv pgs (delegate (mm_grow_one_page P))"
proof (rule undoableI)
  fix p j r p' j'
  assume p: "inv p" and run: "delegate (mm_grow_one_page P) (p, j) = (r, (p', j'))"
  from mm_grow [OF p] run have "inv p' \<and> j' = j \<and> (pgs p' = pgs p @ [replicate 65536 0] \<or> p' = p)"
    using p by (auto simp: delegate_def)
  then show "inv p' \<and> length (pgs p) \<le> length (pgs p') \<and>
     (\<exists>es. j' = j @ es \<and> fits es (length (pgs p')) \<and> take (length (pgs p)) (undo es (pgs p')) = pgs p)"
    by (intro conjI exI [of _ "[]"]) (auto simp del: length_mm_pages)
qed

text \<open>Reading changes nothing, whatever it returns.\<close>

lemma mm_read_raw_pure: "inv p \<Longrightarrow> snd (mm_read_at_raw P pa off buf p) = p"
  using read_pure
  by (auto simp: mm_read_at_raw_def Let_def mbind_def check_unallocated_page_def
      split: prod.splits outcome.splits) (metis snd_conv)+

lemma mm_read_bytes_pure: "inv p \<Longrightarrow> snd (mm_read_bytes_at P ds a pa off p) = p"
  using mm_read_raw_pure
  by (auto simp: mm_read_bytes_at_def Let_def mbind_def check_alignment_def
      split: prod.splits outcome.splits) (metis snd_conv)+

lemma undoable_delegate_pure:
  assumes "\<And>p. inv p \<Longrightarrow> snd (f p) = p"
  shows "undoable inv pgs (delegate f)"
proof (rule undoableI)
  fix p j r p' j'
  assume p: "inv p" and run: "delegate f (p, j) = (r, (p', j'))"
  then have "p' = p" "j' = j" using assms [OF p] by (auto simp: delegate_def split: prod.splits)
  with p show "inv p' \<and> length (pgs p) \<le> length (pgs p') \<and>
     (\<exists>es. j' = j @ es \<and> fits es (length (pgs p')) \<and> take (length (pgs p)) (undo es (pgs p')) = pgs p)"
    by (intro conjI exI [of _ "[]"]) auto
qed

lemma undoable_read_at: "undoable inv pgs (read_at (JournaledWriter P) C pa off)"
  unfolding read_at_def JournaledWriter_def
  by (auto intro!: undoable_mbind undoable_delegate_pure mm_read_bytes_pure)

lemma undoable_read_at_raw: "undoable inv pgs (read_at_raw (JournaledWriter P) pa off buf)"
  unfolding JournaledWriter_def
  by (auto intro!: undoable_delegate_pure mm_read_raw_pure)

lemma undoable_write_at:
  assumes "encoding C V" and "V x" and "off + align_up (ALIGNMENT C) (length (encode C x)) \<le> 65536"
  shows "undoable inv pgs (write_at (JournaledWriter P) C pa off x)"
  unfolding write_at_def JournaledWriter_def
  using assms encoding.size_encode [OF assms(1,2)] encoding.alignment_pos [OF assms(1)]
  by (auto intro!: undoable_write_bytes)

lemma undoable_ledger_write:
  assumes "encoding C V" and "V x" and "ALIGNMENT C = 32"
  shows "undoable inv pgs (write_at (JournaledWriter P) C pa 0 x)"
  using assms(1,2)
proof (rule undoable_write_at)
  show "0 + align_up (ALIGNMENT C) (length (encode C x)) \<le> 65536"
    using encoding.size_u16 [OF assms(1,2)] assms(3) by (auto intro!: align_up_le_page)
qed

lemma undoable_zero_at:
  assumes "0 < ALIGNMENT C" and "off + align_up (ALIGNMENT C) (enc_size C x) \<le> 65536"
  shows "undoable inv pgs (zero_at (JournaledWriter P) C pa off x)"
  unfolding zero_at_def JournaledWriter_def using assms by (auto intro!: undoable_zero_bytes)

lemma read_at_Ok_decode:
  assumes "read_at (JournaledWriter P) C pa off s = (Ok x, s')"
  shows "\<exists>bs. decode C bs = Ok x"
  using assms by (auto simp: read_at_def lift_res_def elim!: mbind_OkE)

lemma undoable_claim_page: "undoable inv pgs (claim_page (JournaledWriter P))"
  unfolding claim_page_def
proof (rule undoable_mbind [OF undoable_read_at])
  fix l p j p' j'
  assume "read_at (JournaledWriter P) UnclaimedPages UNCLAIMED_PAGES_PAGE 0 (p, j) = (Ok l, p', j')"
  then have wf: "up_wf l"
    using read_at_Ok_decode by (metis UnclaimedPages_def codec.select_convs(4) up_decode_wf)
  then have "up_wf (butlast l)" by (auto simp: up_wf_def dest: in_set_butlastD)
  then have "undoable inv pgs (write_at (JournaledWriter P) UnclaimedPages UNCLAIMED_PAGES_PAGE 0 (butlast l))"
    by (intro undoable_ledger_write [OF unclaimed.encoding_axioms])
       (auto simp: UnclaimedPages_def DEFAULT_ALIGNMENT_def)
  then show "undoable inv pgs (case up_pop l of
       (None, ledger') \<Rightarrow> grow_one_page (JournaledWriter P)
     | (Some page, ledger') \<Rightarrow>
         mbind (write_at (JournaledWriter P) UnclaimedPages UNCLAIMED_PAGES_PAGE 0 ledger') (\<lambda>_. ret page))"
    by (cases "l = []") (auto simp: up_pop_def JournaledWriter_def intro: undoable_grow)
qed

lemma undoable_unclaim_page:
  assumes "pa < 2 ^ 32"
  shows "undoable inv pgs (unclaim_page (JournaledWriter P) pa)"
  unfolding unclaim_page_def
proof (intro undoable_mbind undoable_read_at undoable_lift_res)
  show "undoable inv pgs (zero_page (JournaledWriter P) pa)"
    by (simp add: JournaledWriter_def undoable_zero_page)
next
  fix p j p' j' and l l' :: unclaimed_pages and q k q' k'
  assume "read_at (JournaledWriter P) UnclaimedPages UNCLAIMED_PAGES_PAGE 0 (p, j) = (Ok l, p', j')"
    and push: "lift_res (up_push pa l) (q, k) = (Ok l', q', k')"
  then have wf: "up_wf l"
    using read_at_Ok_decode by (metis UnclaimedPages_def codec.select_convs(4) up_decode_wf)
  with push assms have "up_wf l'"
    by (auto simp: up_push_def up_wf_def split: if_splits)
  then show "undoable inv pgs (write_at (JournaledWriter P) UnclaimedPages UNCLAIMED_PAGES_PAGE 0 l')"
    by (intro undoable_ledger_write [OF unclaimed.encoding_axioms])
       (auto simp: UnclaimedPages_def DEFAULT_ALIGNMENT_def)
qed

subsection \<open>Rollback\<close>

lemma replay_ok:
  assumes "inv p" and "fits es (p_pages P p)"
  obtains p' where "replay P es p = (Ok (), p')" and "inv p'" and "pgs p' = undo (rev es) (pgs p)"
  using assms
proof (induction es arbitrary: p thesis)
  case Nil
  then show ?case by auto
next
  case (Cons e es)
  then have e: "je_page e < p_pages P p" "je_offset e + length (original_bytes e) \<le> 65536" "inv p"
    by auto
  obtain p1 where w: "provider_write P (je_page e) (je_offset e) (original_bytes e) p = (Ok (), p1)"
    "inv p1" "pgs p1 = (pgs p)[je_page e := splice_at (je_offset e) (original_bytes e) (pgs p ! je_page e)]"
    using provider_write_ok [OF e(3,1,2)] by metis
  have n: "p_pages P p1 = p_pages P p"
    using w(2,3) e(3) by (metis length_list_update length_mm_pages)
  obtain p' where r: "replay P es p1 = (Ok (), p')" "inv p'" "pgs p' = undo (rev es) (pgs p1)"
    using Cons.IH [OF _ w(2)] Cons.prems(3) n by auto
  have "replay P (e # es) p = (Ok (), p')"
    using e w r by (simp add: mm_write_at_raw_def page_size)
  moreover have "pgs p' = undo (rev (e # es)) (pgs p)"
    using r w by (simp add: undo_append)
  ultimately show ?case using r Cons.prems(1) by auto
qed

lemma rollback_ok:
  assumes "inv p" and "fits j (p_pages P p)"
  obtains p' where "rollback P j p = (Ok (), p')" and "inv p'" and "pgs p' = undo j (pgs p)"
proof -
  have "fits (rev j) (p_pages P p)" using assms(2) by (simp add: fits_def)
  then show thesis
    using replay_ok [OF assms(1)] that unfolding rollback_def by (metis rev_rev_ident)
qed

text \<open>
  An atomic block opened on a context without a journal keeps what a successful closure did and takes
  back everything a failing one did.
\<close>

lemma atomic_undoable:
  assumes f: "undoable inv pgs f" and ctx: "ctx_journal ctx = None" "inv (ctx_mm ctx)"
    and run: "atomic P (with_writer f) ctx = (r, ctx')"
  shows "case r of
      Ok x \<Rightarrow> (\<exists>p' j. f (ctx_mm ctx, []) = (Ok x, (p', j)) \<and> ctx' = ctx\<lparr>ctx_mm := p'\<rparr>)
    | Err e \<Rightarrow> (\<exists>p' j. f (ctx_mm ctx, []) = (Err e, (p', j))) \<and> ctx_journal ctx' = None \<and> inv (ctx_mm ctx') \<and>
        take (length (pgs (ctx_mm ctx))) (pgs (ctx_mm ctx')) = pgs (ctx_mm ctx)
    | Panic \<Rightarrow> (\<exists>p' j. f (ctx_mm ctx, []) = (Panic, (p', j)))"
proof -
  obtain r1 p1 j1 where f1: "f (ctx_mm ctx, []) = (r1, (p1, j1))" by (metis prod.exhaust)
  obtain es where es: "inv p1" "length (pgs (ctx_mm ctx)) \<le> length (pgs p1)" "j1 = [] @ es"
    "fits es (length (pgs p1))" "take (length (pgs (ctx_mm ctx))) (undo es (pgs p1)) = pgs (ctx_mm ctx)"
    using f ctx(2) f1 by (elim undoableD)
  obtain p2 where rb: "rollback P j1 p1 = (Ok (), p2)" "inv p2" "pgs p2 = undo es (pgs p1)"
    using rollback_ok [OF es(1), of es] es(1,3,4) by auto
  show ?thesis
  proof (cases r1)
    case (Ok x)
    then have "r = Ok x" "ctx' = ctx\<lparr>ctx_mm := p1\<rparr>"
      using run f1 ctx(1) by (auto simp: atomic_def with_writer_def Let_def)
    then show ?thesis using f1 Ok by auto
  next
    case (Err e)
    then have "r = Err e" "ctx' = ctx\<lparr>ctx_mm := p2, ctx_journal := None\<rparr>"
      using run f1 ctx(1) rb(1) by (auto simp: atomic_def with_writer_def Let_def)
    then show ?thesis using rb es f1 Err by simp
  next
    case Panic
    then have "r = Panic" using run f1 ctx(1) by (auto simp: atomic_def with_writer_def Let_def)
    then show ?thesis using f1 Panic by auto
  qed
qed

end

sublocale memory_provider \<subseteq> jw: memory_access "JournaledWriter P" "jw_inv inv" "jw_pages (mm_pages bytes)"
proof (unfold_locales, goal_cases)
  case (1 m)
  show ?case by (simp add: JournaledWriter_def page_size)
next
  case (2 m p)
  then show ?case by (simp add: jw_inv_def jw_pages_def mm.page_len)
next
  case (3 m)
  then show ?case using mm.page_count [of "fst m"] by (simp add: jw_inv_def jw_pages_def)
next
  case (4 m p off k buf)
  then show ?case
    by (cases m) (simp add: JournaledWriter_def jw_inv_def jw_pages_def delegate_def mm_read_raw)
next
  case (5 m p off buf)
  then show ?case
    using mm.read_raw_fault [of "fst m" p off buf]
    by (cases m) (simp add: JournaledWriter_def jw_inv_def jw_pages_def delegate_def MemoryManager_def)
next
  case (6 m p a off ds)
  then show ?case
    using mm.read_bytes [of "fst m" p a off ds]
    by (cases m) (simp add: JournaledWriter_def jw_inv_def jw_pages_def delegate_def MemoryManager_def)
next
  case (7 m p a off bs sz)
  obtain q j where m: "m = (q, j)" by (cases m)
  with 7 obtain q' where "mm_write_bytes_at P a sz bs p off q = (Ok (), q')" "inv q'"
    "mm_pages bytes q' = (mm_pages bytes q)[p := splice_at off (padded a bs) (mm_pages bytes q ! p)]"
    using mm_write_bytes [of q p a off bs sz] by (auto simp: jw_inv_def jw_pages_def)
  moreover obtain e where "journal_record P p off (align_up a sz) (q, j) = (Ok (), (q, j @ [e]))"
    using 7 m journal_record_any [of q p off "align_up a sz" j] by (auto simp: jw_inv_def jw_pages_def)
  ultimately show ?case
    using m by (simp add: JournaledWriter_def jw_write_bytes_at_def delegate_def jw_inv_def jw_pages_def)
next
  case (8 m a off p bs sz)
  obtain q j where m: "m = (q, j)" by (cases m)
  show ?case
  proof (cases "p < p_pages P q")
    case True
    obtain e where "journal_record P p off (align_up a sz) (q, j) = (Ok (), (q, j @ [e]))"
      using 8 m True journal_record_any [of q p off "align_up a sz" j] by (auto simp: jw_inv_def)
    moreover obtain e' q' where "mm_write_bytes_at P a sz bs p off q = (Err e', q')" "inv q'"
      "mm_pages bytes q' = mm_pages bytes q"
      using mm.write_bytes_fault [of q a off p bs sz] 8 m by (auto simp: jw_inv_def jw_pages_def MemoryManager_def)
    ultimately show ?thesis
      using m by (simp add: JournaledWriter_def jw_write_bytes_at_def delegate_def jw_inv_def jw_pages_def)
  next
    case False
    then show ?thesis using 8 m journal_record_fault [of q p off "align_up a sz" j]
      by (simp add: JournaledWriter_def jw_write_bytes_at_def jw_inv_def jw_pages_def)
  qed
next
  case (9 m p off bs)
  obtain q j where m: "m = (q, j)" by (cases m)
  with 9 obtain q' where "mm_write_at_raw P p off bs q = (Ok (), q')" "inv q'"
    "mm_pages bytes q' = (mm_pages bytes q)[p := splice_at off bs (mm_pages bytes q ! p)]"
    using mm.write_raw [of q p off bs] by (auto simp: jw_inv_def jw_pages_def MemoryManager_def)
  moreover obtain e where "journal_record P p off (length bs) (q, j) = (Ok (), (q, j @ [e]))"
    using 9 m journal_record_any [of q p off "length bs" j] by (auto simp: jw_inv_def jw_pages_def)
  ultimately show ?case
    using m by (simp add: JournaledWriter_def jw_write_at_raw_def delegate_def jw_inv_def jw_pages_def)
next
  case (10 m p a off sz)
  obtain q j where m: "m = (q, j)" by (cases m)
  with 10 obtain q' where "mm_zero_bytes_at P a sz p off q = (Ok (), q')" "inv q'"
    "mm_pages bytes q' = (mm_pages bytes q)[p := splice_at off (replicate (align_up a sz) 0) (mm_pages bytes q ! p)]"
    using mm.zero_bytes [of q p a off sz] by (auto simp: jw_inv_def jw_pages_def MemoryManager_def)
  moreover obtain e where "journal_record P p off (align_up a sz) (q, j) = (Ok (), (q, j @ [e]))"
    using 10 m journal_record_any [of q p off "align_up a sz" j] by (auto simp: jw_inv_def jw_pages_def)
  ultimately show ?case
    using m by (simp add: JournaledWriter_def jw_zero_bytes_at_def delegate_def jw_inv_def jw_pages_def)
next
  case (11 m p off len)
  obtain q j where m: "m = (q, j)" by (cases m)
  with 11 obtain q' where "mm_zero_raw P p off len q = (Ok (), q')" "inv q'"
    "mm_pages bytes q' = (mm_pages bytes q)[p := splice_at off (replicate len 0) (mm_pages bytes q ! p)]"
    using mm.zero_raw [of q p off len] by (auto simp: jw_inv_def jw_pages_def MemoryManager_def)
  moreover obtain e where "journal_record P p off len (q, j) = (Ok (), (q, j @ [e]))"
    using 11 m journal_record_any [of q p off len j] by (auto simp: jw_inv_def jw_pages_def)
  ultimately show ?case
    using m by (simp add: JournaledWriter_def jw_zero_raw_def delegate_def jw_inv_def jw_pages_def)
next
  case (12 m p)
  obtain q j where m: "m = (q, j)" by (cases m)
  with 12 obtain q' where "mm_zero_page P p q = (Ok (), q')" "inv q'"
    "mm_pages bytes q' = (mm_pages bytes q)[p := replicate 65536 0]"
    using mm.zero_page [of q p] by (auto simp: jw_inv_def jw_pages_def MemoryManager_def)
  moreover obtain e where "journal_record P p 0 65536 (q, j) = (Ok (), (q, j @ [e]))"
    using 12 m journal_record_any [of q p 0 65536 j] by (auto simp: jw_inv_def jw_pages_def)
  ultimately show ?case
    using m by (simp add: JournaledWriter_def jw_zero_page_def delegate_def jw_inv_def jw_pages_def page_size)
next
  case (13 m p)
  obtain q j where m: "m = (q, j)" by (cases m)
  then show ?case using 13 journal_record_fault [of q p 0 65536 j]
    by (simp add: JournaledWriter_def jw_zero_page_def jw_inv_def jw_pages_def page_size)
next
  case (14 m)
  then show ?case using mm_grow [of "fst m"]
    by (cases m) (auto simp: JournaledWriter_def delegate_def jw_inv_def jw_pages_def)
qed

section \<open>Programs over the journaled writer\<close>

text \<open>
  What a closure of an atomic block may do to the memory: calls of the methods of \<^verbatim>\<open>MemoryAccess\<close>, the typed
  ones with the alignment, the size and the encoding they are instantiated with. A program makes a call
  and goes on with what it answers, an error included, until it finishes with a result of its own; a
  panic ends it.
\<close>

datatype writer_op =
    OpReadBytes data_size nat nat nat
  | OpReadRaw nat nat "byte list"
  | OpWriteBytes nat nat "byte list" nat nat
  | OpWriteRaw nat nat "byte list"
  | OpZeroBytes nat nat nat nat
  | OpZeroRaw nat nat nat
  | OpZeroPage nat
  | OpGrow
  | OpClaim
  | OpUnclaim nat

datatype answer = Done | Bytes "byte list" | Count_Bytes nat "byte list" | Page nat

fun call_op :: "'p provider \<Rightarrow> writer_op \<Rightarrow> ('p \<times> journal, answer) mem_prog" where
  "call_op P (OpReadBytes ds a page offset) = mbind (read_bytes_at (JournaledWriter P) ds a page offset) (\<lambda>bs. ret (Bytes bs))"
| "call_op P (OpReadRaw page offset buf) = mbind (read_at_raw (JournaledWriter P) page offset buf) (\<lambda>(n, bs). ret (Count_Bytes n bs))"
| "call_op P (OpWriteBytes a sz bs page offset) = mbind (write_bytes_at (JournaledWriter P) a sz bs page offset) (\<lambda>_. ret Done)"
| "call_op P (OpWriteRaw page offset buf) = mbind (write_at_raw (JournaledWriter P) page offset buf) (\<lambda>_. ret Done)"
| "call_op P (OpZeroBytes a sz page offset) = mbind (zero_bytes_at (JournaledWriter P) a sz page offset) (\<lambda>_. ret Done)"
| "call_op P (OpZeroRaw page offset len) = mbind (zero_raw (JournaledWriter P) page offset len) (\<lambda>_. ret Done)"
| "call_op P (OpZeroPage page) = mbind (zero_page (JournaledWriter P) page) (\<lambda>_. ret Done)"
| "call_op P OpGrow = mbind (grow_one_page (JournaledWriter P)) (\<lambda>page. ret (Page page))"
| "call_op P OpClaim = mbind (claim_page (JournaledWriter P)) (\<lambda>page. ret (Page page))"
| "call_op P (OpUnclaim page) = mbind (unclaim_page (JournaledWriter P) page) (\<lambda>_. ret Done)"

datatype ('a, 'e) writer_prog = Finish "('a, 'e) outcome" | Call writer_op "answer memory_result \<Rightarrow> ('a, 'e) writer_prog"

primrec run_prog :: "'p provider \<Rightarrow> ('a, 'e) writer_prog \<Rightarrow> ('p \<times> journal, 'a, 'e) prog" where
  "run_prog P (Finish r) = lift_res r"
| "run_prog P (Call op k) = (\<lambda>s. case call_op P op s of (r, s') \<Rightarrow> if r = Panic then (Panic, s') else run_prog P (k r) s')"

text \<open>
  The calls that stay within their page: a write or zeroing ends there, an encoding is no longer than
  the size it declares, and alignments are positive; pages are \<^verbatim>\<open>u32\<close>.
\<close>

fun op_in_page :: "writer_op \<Rightarrow> bool" where
  "op_in_page (OpWriteBytes a sz bs page offset) \<longleftrightarrow> 0 < a \<and> length bs \<le> sz \<and> offset + align_up a sz \<le> 65536"
| "op_in_page (OpWriteRaw page offset buf) \<longleftrightarrow> offset + length buf \<le> 65536"
| "op_in_page (OpZeroBytes a sz page offset) \<longleftrightarrow> 0 < a \<and> offset + align_up a sz \<le> 65536"
| "op_in_page (OpZeroRaw page offset len) \<longleftrightarrow> offset + len \<le> 65536"
| "op_in_page (OpUnclaim page) \<longleftrightarrow> page < 2 ^ 32"
| "op_in_page _ \<longleftrightarrow> True"

primrec prog_in_page :: "('a, 'e) writer_prog \<Rightarrow> bool" where
  "prog_in_page (Finish r) \<longleftrightarrow> True"
| "prog_in_page (Call op k) \<longleftrightarrow> op_in_page op \<and> (\<forall>r. prog_in_page (k r))"

context memory_provider
begin

lemma undoable_op:
  assumes "op_in_page op"
  shows "undoable inv pgs (call_op P op)"
proof (cases op)
  case (OpReadBytes ds a page offset)
  then show ?thesis using assms by (auto simp: JournaledWriter_def intro!: undoable_mbind undoable_delegate_pure mm_read_bytes_pure)
next
  case (OpReadRaw page offset buf)
  then show ?thesis using assms by (auto intro!: undoable_mbind undoable_read_at_raw)
next
  case (OpWriteBytes a sz bs page offset)
  then show ?thesis using assms by (auto simp: JournaledWriter_def intro!: undoable_mbind undoable_write_bytes)
next
  case (OpWriteRaw page offset buf)
  then show ?thesis using assms by (auto simp: JournaledWriter_def intro!: undoable_mbind undoable_write_raw)
next
  case (OpZeroBytes a sz page offset)
  then show ?thesis using assms by (auto simp: JournaledWriter_def intro!: undoable_mbind undoable_zero_bytes)
next
  case (OpZeroRaw page offset len)
  then show ?thesis using assms by (auto simp: JournaledWriter_def intro!: undoable_mbind undoable_zero_raw)
next
  case (OpZeroPage page)
  then show ?thesis using assms by (auto simp: JournaledWriter_def intro!: undoable_mbind undoable_zero_page)
next
  case OpGrow
  then show ?thesis using assms by (auto simp: JournaledWriter_def intro!: undoable_mbind undoable_grow)
next
  case OpClaim
  then show ?thesis using assms by (auto intro!: undoable_mbind undoable_claim_page)
next
  case (OpUnclaim page)
  then show ?thesis using assms by (auto intro!: undoable_mbind undoable_unclaim_page)
qed

lemma undoable_prog: "prog_in_page f \<Longrightarrow> undoable inv pgs (run_prog P f)"
proof (induction f)
  case (Call op k)
  show ?case
    unfolding run_prog.simps
  proof (rule undoable_then [OF undoable_op])
    fix r
    have "(\<lambda>s'. if r = Panic then (Panic, s') else run_prog P (k r) s') = (if r = Panic then panic else run_prog P (k r))"
      by (simp add: fun_eq_iff panic_def)
    then show "undoable inv pgs (\<lambda>s'. if r = Panic then (Panic, s') else run_prog P (k r) s')" using Call by simp
  qed (use Call in simp)
qed simp

end

end
