(* ===== verification/Sized_Read.thy ===== *)
theory Sized_Read
  imports Journal
begin

text \<open>
  \<^verbatim>\<open>table_registry/sized_read.rs\<close>: reading a variable-length ledger from the start of its page by
  reading a prefix, computing the encoded length from it, and reading again until the prefix holds
  the whole value. The loop is shown to give what reading the whole page would give.
\<close>

definition INITIAL_READ_SIZE :: nat where "INITIAL_READ_SIZE = 1024"

text \<open>
  The loop of \<^verbatim>\<open>read_sized\<close>: \<open>buf\<close> is the buffer passed to \<^verbatim>\<open>read_at_raw\<close>, whose length the call does
  not change, and \<open>filled\<close> its content afterwards. The buffer is never empty, since the page size is
  positive; for an empty one the Rust loop would not advance, which is the \<open>Panic\<close> branch here.
\<close>

function read_sized_loop ::
  "'m mem_ops \<Rightarrow> 'a codec \<Rightarrow> (byte list \<Rightarrow> nat option) \<Rightarrow> nat \<Rightarrow> nat \<Rightarrow> byte list \<Rightarrow> ('m, 'a) mem_prog" where
  "read_sized_loop MA D encoded_len page ps buf m =
     (case read_at_raw MA page 0 buf m of
        (Ok (n, filled), m') \<Rightarrow>
          (case encoded_len filled of
             Some len \<Rightarrow>
               if len \<le> length buf then (decode D (take len filled), m')
               else if len \<le> ps then read_sized_loop MA D encoded_len page ps (vec_resize len 0 filled) m'
               else (Err (DecodeError TooShort), m')
           | None \<Rightarrow>
               if length buf < ps
               then if length buf = 0 then (Panic, m')
                    else read_sized_loop MA D encoded_len page ps
                           (vec_resize (min (length buf * 4) ps) 0 filled) m'
               else (Err (DecodeError TooShort), m'))
      | (Err e, m') \<Rightarrow> (Err e, m')
      | (Panic, m') \<Rightarrow> (Panic, m'))"
  by pat_completeness auto

termination
  by (relation "measure (\<lambda>(MA, D, encoded_len, page, ps, buf, m). ps - length buf)")
    (auto simp: min_def neq_Nil_conv)

declare read_sized_loop.simps [simp del]

definition read_sized ::
  "'m mem_ops \<Rightarrow> 'a codec \<Rightarrow> nat \<Rightarrow> (byte list \<Rightarrow> nat option) \<Rightarrow> ('m, 'a) mem_prog" where
  "read_sized MA D page encoded_len m =
     (let ps = page_size MA m in
      read_sized_loop MA D encoded_len page ps (replicate (min INITIAL_READ_SIZE ps) 0) m)"

text \<open>
  What the callers promise of \<open>encoded_len\<close>: on any prefix long enough to hold the header it returns
  the length of the encoding the page starts with, at most a page.
\<close>

definition len_header :: "(byte list \<Rightarrow> nat option) \<Rightarrow> nat \<Rightarrow> byte list \<Rightarrow> nat \<Rightarrow> bool" where
  "len_header el k content n \<longleftrightarrow> n \<le> 65536 \<and> (\<forall>j. k \<le> j \<longrightarrow> j \<le> 65536 \<longrightarrow> el (take j content) = Some n)"

context memory_access
begin

lemma read_prefix:
  assumes "inv m" and "p < length (pg m)" and "length buf \<le> 65536"
  shows "read_at_raw MA p 0 buf m = (Ok (length buf, take (length buf) (pg m ! p)), m)"
  using assms read_raw [of m p 0 "length buf" buf] page_len [of m p] by (simp add: slice_def)

lemma read_sized_ok:
  assumes m: "inv m" and p: "p < length (pg m)" and el: "len_header el k (pg m ! p) n" and k: "k \<le> 1024"
  shows "read_sized MA D p el m = (decode D (take n (pg m ! p)), m)"
proof -
  have pl: "length (pg m ! p) = 65536" using m p by (rule page_len)
  have n: "n \<le> 65536" using el by (simp add: len_header_def)
  have last: "read_sized_loop MA D el p 65536 buf m = (decode D (take n (pg m ! p)), m)"
    if "k \<le> length buf" "n \<le> length buf" "length buf \<le> 65536" for buf
  proof -
    have "el (take (length buf) (pg m ! p)) = Some n" using that el by (simp add: len_header_def)
    then show ?thesis
      using that m p by (subst read_sized_loop.simps) (simp add: read_prefix min_def)
  qed
  let ?buf = "replicate 1024 (0 :: byte)"
  have "read_sized_loop MA D el p 65536 ?buf m = (decode D (take n (pg m ! p)), m)"
  proof (cases "n \<le> 1024")
    case True
    then show ?thesis using last [of ?buf] k by simp
  next
    case False
    have "el (take 1024 (pg m ! p)) = Some n" using k el by (simp add: len_header_def)
    then have "read_sized_loop MA D el p 65536 ?buf m =
        read_sized_loop MA D el p 65536 (vec_resize n 0 (take 1024 (pg m ! p))) m"
      using False n m p by (subst read_sized_loop.simps) (simp add: read_prefix)
    then show ?thesis using last False k n by simp
  qed
  then show ?thesis by (simp add: read_sized_def page_size INITIAL_READ_SIZE_def Let_def)
qed

end

end
