(* ===== verification/Page_Ledger.thy ===== *)
theory Page_Ledger
  imports Sized_Read
begin

text \<open>
  \<^verbatim>\<open>table_registry/page_ledger.rs\<close> and \<^verbatim>\<open>page_ledger/page_table.rs\<close>: the pages of a table with the
  free space at the end of each, where the next record goes, and the commit of an allocation.
\<close>

section \<open>The page table\<close>

record page_record =
  pr_page :: nat
  pr_free :: nat

definition pr_encode :: "page_record \<Rightarrow> byte list" where
  "pr_encode r = le_bytes 4 (pr_page r) @ le_bytes 8 (pr_free r)"

definition pr_decode :: "byte list \<Rightarrow> page_record memory_result" where
  "pr_decode data =
     bind_outcome (slice_or_panic 0 4 data) (\<lambda>page_bytes.
     bind_outcome (slice_or_panic 4 8 data) (\<lambda>free_bytes.
     Ok \<lparr>pr_page = from_le page_bytes, pr_free = from_le free_bytes\<rparr>))"

definition PageRecord :: "page_record codec" where
  "PageRecord = \<lparr>SIZE = Fixed (4 + 8), ALIGNMENT = 4 + 8, encode = pr_encode, decode = pr_decode,
     enc_size = (\<lambda>_. 4 + 8)\<rparr>"

type_synonym page_table = "page_record list"

definition pt_encoded_len :: "byte list \<Rightarrow> nat option" where
  "pt_encoded_len prefix =
     (if length prefix < 4 then None
      else Some (4 + min (2 ^ 64 - 1) (from_le (slice 0 4 prefix) * 12)))"

definition pt_encode :: "page_table \<Rightarrow> byte list" where
  "pt_encode pages = le_bytes 4 (as_u32 (length pages)) @ concat (map pr_encode pages)"

definition pt_decode :: "byte list \<Rightarrow> page_table memory_result" where
  "pt_decode data =
     bind_outcome (slice_or_panic 0 4 data) (\<lambda>size_bytes.
     decode_entries 12 pr_decode (from_le size_bytes) (drop 4 data))"

definition pt_size :: "page_table \<Rightarrow> nat" where
  "pt_size pages = wrap_add16 4 (wrap_mul16 (as_u16 (length pages)) 12)"

definition PageTable :: "page_table codec" where
  "PageTable = \<lparr>SIZE = Dynamic, ALIGNMENT = DEFAULT_ALIGNMENT, encode = pt_encode,
     decode = pt_decode, enc_size = pt_size\<rparr>"

section \<open>The ledger\<close>

record page_ledger =
  pl_page :: nat
  pl_pages :: page_table

definition pl_load :: "'m mem_ops \<Rightarrow> nat \<Rightarrow> ('m, page_ledger) mem_prog" where
  "pl_load MA page =
     mbind (read_sized MA PageTable page pt_encoded_len) (\<lambda>pages.
     ret \<lparr>pl_page = page, pl_pages = pages\<rparr>)"

definition pl_write :: "'m mem_ops \<Rightarrow> (page_ledger \<times> 'm, unit) mem_prog" where
  "pl_write MA =
     mbind get_self (\<lambda>self. on_mem (write_at MA PageTable (pl_page self) 0 (pl_pages self)))"

text \<open>The end of both searches below when no page has room: a new page is claimed and added to the table.\<close>

definition pl_claim :: "'m mem_ops \<Rightarrow> nat \<Rightarrow> (page_ledger \<times> 'm, nat \<times> nat) mem_prog" where
  "pl_claim MA ps =
     mbind (on_mem (claim_page MA)) (\<lambda>new_page.
     mbind get_self (\<lambda>self.
     mbind (put_self (self\<lparr>pl_pages := pl_pages self @ [\<lparr>pr_page = new_page, pr_free = ps\<rparr>]\<rparr>))
       (\<lambda>_. ret (new_page, 0))))"

definition get_page_and_offset_for_record ::
  "'m mem_ops \<Rightarrow> 'r codec \<Rightarrow> 'r \<Rightarrow> (page_ledger \<times> 'm, nat \<times> nat) mem_prog" where
  "get_page_and_offset_for_record MA R rec s =
     (let required_size = align_up (ALIGNMENT R) (enc_size R rec);
          ps = page_size MA (snd s) in
      if required_size > ps then (Err (DataTooLarge ps required_size), s)
      else case find (\<lambda>pr. (ps - pr_free pr) + required_size \<le> ps) (pl_pages (fst s)) of
             Some pr \<Rightarrow> (Ok (pr_page pr, as_u16 (ps - pr_free pr)), s)
           | None \<Rightarrow> pl_claim MA ps s)"

definition pl_commit :: "'m mem_ops \<Rightarrow> 'r codec \<Rightarrow> nat \<Rightarrow> 'r \<Rightarrow> (page_ledger \<times> 'm, unit) mem_prog" where
  "pl_commit MA R page rec =
     mbind get_self (\<lambda>self.
       case find (\<lambda>pr. pr_page pr = page) (pl_pages self) of
         None \<Rightarrow> fail OutOfBounds
       | Some pr \<Rightarrow>
           let record_size = enc_size R rec in
           if pr_free pr < record_size then fail (DataTooLarge (pr_free pr) record_size)
           else
             let padding = align_up (ALIGNMENT R) record_size;
                 consumed = record_size + (padding - record_size) in
             mbind (put_self (self\<lparr>pl_pages := update_first (\<lambda>pr. pr_page pr = page)
                 (\<lambda>pr. pr\<lparr>pr_free := pr_free pr - consumed\<rparr>) (pl_pages self)\<rparr>)) (\<lambda>_.
             pl_write MA))"

definition align_up_u64 :: "nat \<Rightarrow> nat \<Rightarrow> nat" where
  "align_up_u64 offset alignment =
     (if alignment = 0 \<or> offset mod alignment = 0 then offset
      else offset + (alignment - offset mod alignment))"

definition get_page_and_offset_raw ::
  "'m mem_ops \<Rightarrow> nat \<Rightarrow> nat \<Rightarrow> (page_ledger \<times> 'm, nat \<times> nat) mem_prog" where
  "get_page_and_offset_raw MA physical_size alignment s =
     (let ps = page_size MA (snd s) in
      if physical_size > ps then (Err (DataTooLarge ps physical_size), s)
      else case find (\<lambda>pr. align_up_u64 (ps - pr_free pr) alignment + physical_size \<le> ps) (pl_pages (fst s)) of
             Some pr \<Rightarrow> (Ok (pr_page pr, as_u16 (align_up_u64 (ps - pr_free pr) alignment)), s)
           | None \<Rightarrow> pl_claim MA ps s)"

definition pl_commit_raw ::
  "'m mem_ops \<Rightarrow> nat \<Rightarrow> nat \<Rightarrow> nat \<Rightarrow> (page_ledger \<times> 'm, unit) mem_prog" where
  "pl_commit_raw MA page record_size alignment s =
     (case find (\<lambda>pr. pr_page pr = page) (pl_pages (fst s)) of
        None \<Rightarrow> (Err OutOfBounds, s)
      | Some pr \<Rightarrow>
          let ps = page_size MA (snd s);
              taken = ps - pr_free pr;
              alignment_gap = align_up_u64 taken alignment - taken;
              padded_size = (if alignment = 0 then record_size else div_ceil record_size alignment * alignment);
              consumed = alignment_gap + padded_size in
          if pr_free pr < consumed then (Err (DataTooLarge (pr_free pr) consumed), s)
          else pl_write MA ((fst s)\<lparr>pl_pages := update_first (\<lambda>pr. pr_page pr = page)
                 (\<lambda>pr. pr\<lparr>pr_free := pr_free pr - consumed\<rparr>) (pl_pages (fst s))\<rparr>, snd s))"

definition next_page_after :: "page_ledger \<Rightarrow> nat \<Rightarrow> nat option" where
  "next_page_after self current =
     (case position (\<lambda>pr. pr_page pr = current) (pl_pages self) of
        None \<Rightarrow> None
      | Some index \<Rightarrow>
          if index + 1 < length (pl_pages self) then Some (pr_page (pl_pages self ! (index + 1))) else None)"

definition pl_releasable_pages_count :: "page_ledger \<Rightarrow> nat" where
  "pl_releasable_pages_count self = length (pl_pages self) + 1"

fun unclaim_pages :: "'m mem_ops \<Rightarrow> nat list \<Rightarrow> ('m, unit) mem_prog" where
  "unclaim_pages MA [] = ret ()"
| "unclaim_pages MA (page # pages) = mbind (unclaim_page MA page) (\<lambda>_. unclaim_pages MA pages)"

definition pl_release_pages :: "'m mem_ops \<Rightarrow> page_ledger \<Rightarrow> ('m, unit) mem_prog" where
  "pl_release_pages MA self =
     mbind (unclaim_pages MA (map pr_page (pl_pages self))) (\<lambda>_. unclaim_page MA (pl_page self))"

section \<open>Encoding\<close>

definition pr_wf :: "page_record \<Rightarrow> bool" where
  "pr_wf r \<longleftrightarrow> pr_page r < 2 ^ 32 \<and> pr_free r < 2 ^ 64"

text \<open>The page table has at most 5460 entries: one more and its size no longer fits an \<^verbatim>\<open>MSize\<close>.\<close>

definition pt_wf :: "page_table \<Rightarrow> bool" where
  "pt_wf t \<longleftrightarrow> length t \<le> 5460 \<and> list_all pr_wf t"

lemma length_pr_encode [simp]: "length (pr_encode r) = 12"
  by (simp add: pr_encode_def)

lemma pr_decode_encode: "pr_wf r \<Longrightarrow> pr_decode (pr_encode r @ rest) = Ok r"
  by (simp add: pr_decode_def pr_encode_def pr_wf_def slice_def)

interpretation page_record_codec: prefix_encoding PageRecord pr_wf
  by unfold_locales (auto simp: PageRecord_def pr_decode_encode [of _ "[]", simplified] pr_decode_encode)

lemma length_pt_encode [simp]: "length (pt_encode t) = 4 + 12 * length t"
  by (simp add: pt_encode_def length_concat_const)

lemma pt_decode_encode:
  assumes "pt_wf t"
  shows "pt_decode (pt_encode t @ rest) = Ok t"
proof -
  have "slice 0 4 (pt_encode t @ rest) = le_bytes 4 (length t)"
    using assms by (simp add: pt_encode_def slice_def pt_wf_def)
  moreover have "drop 4 (pt_encode t @ rest) = concat (map pr_encode t) @ rest"
    by (simp add: pt_encode_def)
  moreover have "decode_entries 12 pr_decode (length t) (concat (map pr_encode t) @ rest) = Ok t"
    using assms pr_decode_encode [of _ "[]"]
    by (intro decode_entries_concat) (auto simp: pt_wf_def list_all_iff)
  ultimately show ?thesis
    using assms by (simp add: pt_decode_def pt_wf_def)
qed

interpretation page_table_codec: prefix_encoding PageTable pt_wf
  by unfold_locales
    (auto simp: PageTable_def DEFAULT_ALIGNMENT_def pt_size_def wrap_add16_def wrap_mul16_def
       pt_wf_def as_u16_def pt_decode_encode [of _ "[]", simplified] pt_decode_encode)

lemma pt_len_header:
  assumes "pt_wf t" and "content = pt_encode t @ rest" and "length content = 65536"
  shows "len_header pt_encoded_len 4 content (length (pt_encode t))"
proof -
  have "pt_encoded_len (take j content) = Some (4 + 12 * length t)" if "4 \<le> j" "j \<le> 65536" for j
  proof -
    have "slice 0 4 (take j content) = le_bytes 4 (length t)"
      using that assms by (simp add: pt_encode_def slice_def pt_wf_def min_def)
    then show ?thesis using that assms by (simp add: pt_encoded_len_def pt_wf_def mult.commute)
  qed
  then show ?thesis using assms by (auto simp: len_header_def pt_wf_def)
qed

section \<open>Allocation\<close>

text \<open>How far each page of the table is filled.\<close>

definition pl_taken :: "page_ledger \<Rightarrow> nat \<rightharpoonup> nat" where
  "pl_taken self p = map_option (\<lambda>pr. 65536 - pr_free pr) (find (\<lambda>pr. pr_page pr = p) (pl_pages self))"

definition pl_inv :: "nat \<Rightarrow> page_ledger \<Rightarrow> bool" where
  "pl_inv a self \<longleftrightarrow> distinct (map pr_page (pl_pages self)) \<and> length (pl_pages self) \<le> 5460 \<and>
     (\<forall>pr \<in> set (pl_pages self). pr_page pr < 2 ^ 32 \<and> pr_free pr \<le> 65536 \<and> a dvd 65536 - pr_free pr)"

lemma pl_inv_wf: "pl_inv a self \<Longrightarrow> pt_wf (pl_pages self)"
  by (auto simp: pl_inv_def pt_wf_def list_all_iff pr_wf_def)

lemma find_by_page:
  assumes "distinct (map pr_page prs)"
  shows "find (\<lambda>pr. pr_page pr = p) prs = Some pr \<longleftrightarrow> pr \<in> set prs \<and> pr_page pr = p"
  using assms by (induction prs) auto

lemma find_by_page_None: "find (\<lambda>pr. pr_page pr = p) prs = None \<longleftrightarrow> p \<notin> pr_page ` set prs"
  by (auto simp: find_None_iff)

lemma dom_pl_taken: "dom (pl_taken self) = pr_page ` set (pl_pages self)"
proof -
  have "pl_taken self p = None \<longleftrightarrow> p \<notin> pr_page ` set (pl_pages self)" for p
    by (simp add: pl_taken_def find_by_page_None)
  then show ?thesis by (metis (no_types, lifting) domIff subsetI subset_antisym)
qed

lemma pl_taken_Some:
  assumes "pl_inv a self"
  shows "pl_taken self p = Some t \<longleftrightarrow>
     (\<exists>pr \<in> set (pl_pages self). pr_page pr = p \<and> t = 65536 - pr_free pr)"
  using assms by (auto simp: pl_taken_def pl_inv_def find_by_page)

lemma pl_taken_dvd: "pl_inv a self \<Longrightarrow> pl_taken self p = Some t \<Longrightarrow> a dvd t"
  by (auto simp: pl_taken_Some) (auto simp: pl_inv_def)

lemma pl_taken_le: "pl_inv a self \<Longrightarrow> pl_taken self p = Some t \<Longrightarrow> t \<le> 65536"
  by (auto simp: pl_taken_Some) 

lemma find_append: "find P (xs @ ys) = (case find P xs of None \<Rightarrow> find P ys | Some x \<Rightarrow> Some x)"
  by (induction xs) auto

lemma pl_add_page:
  assumes "pl_inv a self" and "pl_taken self p = None" and "p < 2 ^ 32" and "length (pl_pages self) < 5460"
  shows "pl_inv a (self\<lparr>pl_pages := pl_pages self @ [\<lparr>pr_page = p, pr_free = 65536\<rparr>]\<rparr>)"
    and "pl_taken (self\<lparr>pl_pages := pl_pages self @ [\<lparr>pr_page = p, pr_free = 65536\<rparr>]\<rparr>)
       = (pl_taken self)(p \<mapsto> 0)"
proof -
  have "p \<notin> pr_page ` set (pl_pages self)" using assms(2) dom_pl_taken [of self] by auto
  then show "pl_inv a (self\<lparr>pl_pages := pl_pages self @ [\<lparr>pr_page = p, pr_free = 65536\<rparr>]\<rparr>)"
    using assms by (auto simp: pl_inv_def)
  show "pl_taken (self\<lparr>pl_pages := pl_pages self @ [\<lparr>pr_page = p, pr_free = 65536\<rparr>]\<rparr>)
       = (pl_taken self)(p \<mapsto> 0)"
    using assms(2) by (auto simp: pl_taken_def fun_eq_iff find_append split: option.splits)
qed

lemma find_update_first:
  assumes "\<And>x. key (f x) = key x"
  shows "find (\<lambda>x. key x = q) (update_first (\<lambda>x. key x = p) f xs) =
     (if q = p then map_option f (find (\<lambda>x. key x = p) xs) else find (\<lambda>x. key x = q) xs)"
  by (induction xs) (auto simp: assms)

lemma map_update_first:
  assumes "\<And>x. key (f x) = key x"
  shows "map key (update_first pred f xs) = map key xs"
  by (induction xs) (auto simp: assms)

lemma set_update_first: "x \<in> set (update_first pred f xs) \<Longrightarrow> x \<in> set xs \<or> (\<exists>y \<in> set xs. pred y \<and> x = f y)"
  by (induction xs) (auto split: if_splits)

lemma pl_use_page:
  assumes i: "pl_inv a self" and t: "pl_taken self p = Some t" and n: "a dvd n" "t + n \<le> 65536"
  defines "self' \<equiv> self\<lparr>pl_pages := update_first (\<lambda>pr. pr_page pr = p)
     (\<lambda>pr. pr\<lparr>pr_free := pr_free pr - n\<rparr>) (pl_pages self)\<rparr>"
  shows "pl_inv a self'" and "pl_taken self' = (pl_taken self)(p \<mapsto> t + n)"
proof -
  have upd: "65536 - (pr_free pr - n) = (65536 - pr_free pr) + n \<and> 65536 - pr_free pr = t"
    if "pr \<in> set (pl_pages self)" "pr_page pr = p" for pr
  proof -
    have "find (\<lambda>pr. pr_page pr = p) (pl_pages self) = Some pr"
      using that i by (simp add: pl_inv_def find_by_page)
    then have "t = 65536 - pr_free pr" using t by (simp add: pl_taken_def)
    moreover have "pr_free pr \<le> 65536" using that i by (simp add: pl_inv_def)
    ultimately show ?thesis using n by simp
  qed
  show "pl_inv a self'"
  proof -
    have "pr_page pr < 2 ^ 32 \<and> pr_free pr \<le> 65536 \<and> a dvd 65536 - pr_free pr"
      if pr: "pr \<in> set (pl_pages self')" for pr
    proof -
      from pr consider "pr \<in> set (pl_pages self)"
        | y where "y \<in> set (pl_pages self)" "pr_page y = p" "pr = y\<lparr>pr_free := pr_free y - n\<rparr>"
        by (auto simp: self'_def dest: set_update_first)
      then show ?thesis
      proof cases
        case 1
        then show ?thesis using i by (simp add: pl_inv_def)
      next
        case (2 y)
        then have u: "65536 - pr_free pr = t + n" "a dvd t" using upd [of y] i by (auto simp: pl_inv_def)
        with 2 i n show ?thesis by (auto simp: pl_inv_def simp del: Nat.diff_diff_right)
      qed
    qed
    then show ?thesis using i by (simp add: pl_inv_def self'_def map_update_first)
  qed
  obtain pr where pr: "find (\<lambda>pr. pr_page pr = p) (pl_pages self) = Some pr" "t = 65536 - pr_free pr"
    using t by (auto simp: pl_taken_def)
  then have "pr \<in> set (pl_pages self)" "pr_page pr = p"
    using i by (auto simp: pl_inv_def find_by_page)
  then show "pl_taken self' = (pl_taken self)(p \<mapsto> t + n)"
    using pr upd by (auto simp: pl_taken_def self'_def find_update_first fun_eq_iff)
qed

text \<open>
  Where the next record of \<open>n\<close> padded bytes goes: at the filled end of a page of the table with that
  much room, or at the start of a page claimed for it.
\<close>

context memory_access
begin

lemma pl_claim_spec:
  assumes m: "inv m" and pool: "pool_inv (pg m) U" and i: "pl_inv a self"
    and sub: "dom (pl_taken self) \<subseteq> U" and len: "length (pl_pages self) < 5460"
    and run: "pl_claim MA 65536 (self, m) = (r, (self', m'))"
  shows "case r of
      Ok (p, off) \<Rightarrow> p \<notin> U \<and> off = 0 \<and> inv m' \<and> pool_inv (pg m') (insert p U) \<and>
        pl_inv a self' \<and> pl_page self' = pl_page self \<and> pl_taken self' = (pl_taken self)(p \<mapsto> 0) \<and>
        p < length (pg m') \<and> pg m' ! p = replicate 65536 0 \<and>
        length (pl_pages self') = Suc (length (pl_pages self))
    | Err e \<Rightarrow> self' = self \<and> inv m' \<and> pool_inv (pg m') U \<and> fst (grow_one_page MA m) = Err e
    | Panic \<Rightarrow> False"
proof -
  obtain rc mc where c: "claim_page MA m = (rc, mc)" by (cases "claim_page MA m")
  note fresh = claim_fresh [OF m pool c]
  show ?thesis
  proof (cases rc)
    case (Ok p)
    then have f: "inv mc" "p \<notin> U" "p < length (pg mc)" "pool_inv (pg mc) (insert p U)"
      "pg mc ! p = replicate 65536 0" using fresh by auto
    then have "pl_taken self p = None" "p < 2 ^ 32"
      using sub page_count [OF f(1)] by auto
    with pl_add_page [OF i this len] Ok f run c show ?thesis
      by (auto simp: pl_claim_def)
  next
    case (Err e)
    then show ?thesis using fresh run c by (auto simp: pl_claim_def)
  next
    case Panic
    then show ?thesis using fresh by simp
  qed
qed

lemma pl_claim_frame:
  assumes m: "inv m" and pool: "pool_inv (pg m) U"
    and run: "pl_claim MA ps (self, m) = (r, (self', m'))"
  shows "same_except {1} (pg m) (pg m')"
proof -
  obtain rc mc where c: "claim_page MA m = (rc, mc)" by (cases "claim_page MA m")
  have "m' = mc" using run c by (cases rc) (auto simp: pl_claim_def)
  then show ?thesis using claim_frame [OF m pool c] by simp
qed

text \<open>The search never looks at a page that is too full, and a page it returns has room.\<close>

lemma get_page_found:
  assumes i: "pl_inv a self" and "0 < n" and n: "n = align_up (ALIGNMENT R) (enc_size R rec)" "n \<le> 65536"
    and f: "find (\<lambda>pr. 65536 - pr_free pr + n \<le> 65536) (pl_pages self) = Some pr"
  shows "get_page_and_offset_for_record MA R rec (self, m) = (Ok (pr_page pr, 65536 - pr_free pr), (self, m))"
    and "pl_taken self (pr_page pr) = Some (65536 - pr_free pr)" and "65536 - pr_free pr + n \<le> 65536"
proof -
  have pr: "pr \<in> set (pl_pages self)" "65536 - pr_free pr + n \<le> 65536"
    using f by (auto simp: find_Some_iff)
  then show "pl_taken self (pr_page pr) = Some (65536 - pr_free pr)" "65536 - pr_free pr + n \<le> 65536"
    using i by (auto simp: pl_taken_Some)
  have "as_u16 (65536 - pr_free pr) = 65536 - pr_free pr" using pr(2) \<open>0 < n\<close> by (intro as_u16_id) linarith
  then show "get_page_and_offset_for_record MA R rec (self, m) = (Ok (pr_page pr, 65536 - pr_free pr), (self, m))"
    using f n by (simp add: get_page_and_offset_for_record_def page_size Let_def)
qed

lemma get_page_spec:
  assumes m: "inv m" and pool: "pool_inv (pg m) U" and i: "pl_inv a self"
    and sub: "dom (pl_taken self) \<subseteq> U" and len: "length (pl_pages self) < 5460"
    and n: "n = align_up (ALIGNMENT R) (enc_size R rec)" "0 < n" "n \<le> 65536"
    and run: "get_page_and_offset_for_record MA R rec (self, m) = (r, (self', m'))"
  shows "case r of
      Ok (p, off) \<Rightarrow> inv m' \<and> pool_inv (pg m') (insert p U) \<and> pl_inv a self' \<and>
        pl_page self' = pl_page self \<and> pl_taken self' = (pl_taken self)(p \<mapsto> off) \<and> off + n \<le> 65536 \<and>
        (if p \<in> U then pl_taken self p = Some off
         else off = 0 \<and> p < length (pg m') \<and> pg m' ! p = replicate 65536 0)
    | Err e \<Rightarrow> self' = self \<and> inv m' \<and> pool_inv (pg m') U \<and> fst (grow_one_page MA m) = Err e
    | Panic \<Rightarrow> False"
proof (cases "find (\<lambda>pr. 65536 - pr_free pr + n \<le> 65536) (pl_pages self)")
  case None
  then have c: "pl_claim MA 65536 (self, m) = (r, (self', m'))"
    using run n by (simp add: get_page_and_offset_for_record_def page_size Let_def)
  show ?thesis using pl_claim_spec [OF m pool i sub len c] n by (cases r) auto
next
  case (Some pr)
  note g = get_page_found [OF i n(2,1,3) Some]
  then have "pr_page pr \<in> U" using sub by blast
  moreover from this have "insert (pr_page pr) U = U" by blast
  moreover have "(pl_taken self)(pr_page pr \<mapsto> 65536 - pr_free pr) = pl_taken self"
    using g(2) by (auto simp: fun_eq_iff)
  ultimately show ?thesis using g m pool i run by auto
qed

lemma get_page_frame:
  assumes m: "inv m" and pool: "pool_inv (pg m) U"
    and run: "get_page_and_offset_for_record MA R rec (self, m) = (r, (self', m'))"
  shows "same_except {1} (pg m) (pg m')"
  using run pl_claim_frame [OF m pool]
  by (auto simp: get_page_and_offset_for_record_def Let_def split: if_splits option.splits)

lemma pl_commit_spec:
  assumes m: "inv m" and i: "pl_inv a self" and t: "pl_taken self p = Some t"
    and a: "a = ALIGNMENT R" "0 < a"
    and n: "n = align_up a (enc_size R rec)" "t + n \<le> 65536" and lp: "pl_page self < length (pg m)"
  obtains self' m' c where "pl_commit MA R p rec (self, m) = (Ok (), (self', m'))"
    and "inv m'" and "pg m' = (pg m)[pl_page self := c]" and "stored PageTable (pl_pages self') c"
    and "pl_inv a self'" and "pl_taken self' = (pl_taken self)(p \<mapsto> t + n)" and "pl_page self' = pl_page self"
proof -
  let ?self = "self\<lparr>pl_pages := update_first (\<lambda>pr. pr_page pr = p)
     (\<lambda>pr. pr\<lparr>pr_free := pr_free pr - n\<rparr>) (pl_pages self)\<rparr>"
  have "a dvd n" using n(1) by simp
  note u = pl_use_page [OF i t this n(2)]
  obtain m' c where w: "write_at MA PageTable (pl_page self) 0 (pl_pages ?self) m = (Ok (), m')"
    "inv m'" "pg m' = (pg m)[pl_page self := c]" "stored PageTable (pl_pages ?self) c"
    using ledger_store [OF page_table_codec.prefix_encoding_axioms pl_inv_wf [OF u(1)] _ m lp]
    by (auto simp: PageTable_def DEFAULT_ALIGNMENT_def)
  obtain pr where pr: "find (\<lambda>pr. pr_page pr = p) (pl_pages self) = Some pr" "t = 65536 - pr_free pr"
    using t by (auto simp: pl_taken_def)
  have "enc_size R rec \<le> n" using n(1) a align_up_ge by simp
  moreover have "n \<le> pr_free pr" using n(2) pr(2) by simp
  ultimately have "pl_commit MA R p rec (self, m) = (Ok (), (?self, m'))"
    using pr w a n(1) by (simp add: pl_commit_def pl_write_def Let_def)
  with w u show thesis by (intro that [of ?self m' c]) auto
qed

lemma pl_load_ok:
  assumes m: "inv m" and p: "p < length (pg m)" and wf: "pt_wf t" and st: "stored PageTable t (pg m ! p)"
  shows "pl_load MA p m = (Ok \<lparr>pl_page = p, pl_pages = t\<rparr>, m)"
proof -
  obtain rest where c: "pg m ! p = pt_encode t @ rest"
    using st by (auto simp: stored_def PageTable_def)
  have "read_sized MA PageTable p pt_encoded_len m = (Ok t, m)"
    using read_sized_ok [OF m p pt_len_header [OF wf c page_len [OF m p]], of PageTable]
      stored_take [OF page_table_codec.prefix_encoding_axioms wf st] by (simp add: PageTable_def)
  then show ?thesis by (simp add: pl_load_def)
qed

end

end
