(* ===== verification/Free_Segments.thy ===== *)
theory Free_Segments
  imports Sized_Read Page_Ledger
begin

text \<open>
  \<^verbatim>\<open>table_registry/free_segments_ledger.rs\<close> and its submodules: the space of deleted records, kept as
  segments in one or more table pages, merged with adjacent segments on insertion and split when a
  part of a segment is reused.
\<close>

section \<open>Segments and tables of segments\<close>

record free_segment =
  fs_page :: nat
  fs_offset :: nat
  fs_size :: nat

definition seg_encode :: "free_segment \<Rightarrow> byte list" where
  "seg_encode s = le_bytes 4 (fs_page s) @ le_bytes 2 (fs_offset s) @ le_bytes 2 (fs_size s)"

definition seg_decode :: "byte list \<Rightarrow> free_segment memory_result" where
  "seg_decode data =
     bind_outcome (slice_or_panic 0 4 data) (\<lambda>page.
     bind_outcome (slice_or_panic 4 2 data) (\<lambda>offset.
     bind_outcome (slice_or_panic 6 2 data) (\<lambda>sz.
     Ok \<lparr>fs_page = from_le page, fs_offset = from_le offset, fs_size = from_le sz\<rparr>)))"

definition FreeSegment :: "free_segment codec" where
  "FreeSegment = \<lparr>SIZE = Fixed 8, ALIGNMENT = 8, encode = seg_encode, decode = seg_decode,
     enc_size = (\<lambda>_. 8)\<rparr>"

definition TABLE_LEN_SIZE :: nat where "TABLE_LEN_SIZE = 2"

text \<open>\<^verbatim>\<open>FreeSegmentsList\<close>. The decoder keeps its position in a \<^verbatim>\<open>u16\<close>, so a slice past byte 65535 panics.\<close>

definition fsl_encode :: "free_segment list \<Rightarrow> byte list" where
  "fsl_encode rs = le_bytes 2 (as_u16 (length rs)) @ concat (map seg_encode rs)"

definition fsl_decode :: "byte list \<Rightarrow> free_segment list memory_result" where
  "fsl_decode data =
     bind_outcome (slice_or_panic 0 TABLE_LEN_SIZE data) (\<lambda>len.
     decode_entries 8 seg_decode (from_le len) (drop TABLE_LEN_SIZE (take 65536 data)))"

definition fsl_size :: "free_segment list \<Rightarrow> nat" where
  "fsl_size rs = sat_add16 TABLE_LEN_SIZE (sat_mul16 (as_u16 (length rs)) 8)"

definition FreeSegmentsList :: "free_segment list codec" where
  "FreeSegmentsList = \<lparr>SIZE = Dynamic, ALIGNMENT = DEFAULT_ALIGNMENT, encode = fsl_encode,
     decode = fsl_decode, enc_size = fsl_size\<rparr>"

record free_segments_table =
  ft_max_records :: nat
  ft_records :: "free_segment list"
  ft_page :: nat

definition max_segments :: "nat \<Rightarrow> nat" where
  "max_segments ps = div_ceil ps 8 - 1"

definition ft_load :: "'m mem_ops \<Rightarrow> nat \<Rightarrow> ('m, free_segments_table) mem_prog" where
  "ft_load MA page =
     mbind (read_at MA FreeSegmentsList page 0) (\<lambda>rs. (\<lambda>m.
       (Ok \<lparr>ft_max_records = max_segments (page_size MA m), ft_records = rs, ft_page = page\<rparr>, m)))"

definition ft_is_full :: "free_segments_table \<Rightarrow> bool" where
  "ft_is_full t \<longleftrightarrow> length (ft_records t) \<ge> ft_max_records t"

definition ft_commit :: "'m mem_ops \<Rightarrow> (free_segments_table \<times> 'm, unit) mem_prog" where
  "ft_commit MA = mbind get_self (\<lambda>t. on_mem (write_at MA FreeSegmentsList (ft_page t) 0 (ft_records t)))"

definition ft_find :: "(free_segment \<Rightarrow> bool) \<Rightarrow> free_segments_table \<Rightarrow> free_segment option" where
  "ft_find pred t = find pred (ft_records t)"

text \<open>The list after \<^verbatim>\<open>remove\<close>: the segment is swapped out and what is not used of it is pushed.\<close>

definition remove_segment :: "free_segment \<Rightarrow> nat \<Rightarrow> nat \<Rightarrow> free_segment list \<Rightarrow> free_segment list" where
  "remove_segment seg used_size pos rs = swap_remove pos rs @
     (if used_size < fs_size seg
      then [\<lparr>fs_page = fs_page seg, fs_offset = sat_add16 (fs_offset seg) used_size,
             fs_size = fs_size seg - used_size\<rparr>]
      else [])"

definition ft_remove :: "'m mem_ops \<Rightarrow> free_segment \<Rightarrow> nat \<Rightarrow> (free_segments_table \<times> 'm, unit) mem_prog" where
  "ft_remove MA seg used_size s =
     (case position (\<lambda>r. r = seg) (ft_records (fst s)) of
        Some pos \<Rightarrow>
          ft_commit MA ((fst s)\<lparr>ft_records := remove_segment seg used_size pos (ft_records (fst s))\<rparr>, snd s)
      | None \<Rightarrow> (Ok (), s))"

datatype adjacent_segment = Before free_segment | After free_segment

definition has_adjacent_segment_before :: "nat \<Rightarrow> nat \<Rightarrow> free_segments_table \<Rightarrow> adjacent_segment option" where
  "has_adjacent_segment_before page offset t =
     map_option Before (ft_find (\<lambda>r. fs_page r = page \<and> sat_add16 (fs_offset r) (fs_size r) = offset) t)"

definition has_adjacent_segment_after :: "nat \<Rightarrow> nat \<Rightarrow> nat \<Rightarrow> free_segments_table \<Rightarrow> adjacent_segment option" where
  "has_adjacent_segment_after page offset sz t =
     map_option After (ft_find (\<lambda>r. fs_page r = page \<and> fs_offset r = sat_add16 offset sz) t)"

definition has_adjacent_segment :: "nat \<Rightarrow> nat \<Rightarrow> nat \<Rightarrow> free_segments_table \<Rightarrow> adjacent_segment option" where
  "has_adjacent_segment page offset sz t =
     (case has_adjacent_segment_before page offset t of
        Some adj \<Rightarrow> Some adj
      | None \<Rightarrow> has_adjacent_segment_after page offset sz t)"

lemma has_adjacent_segment_in:
  "has_adjacent_segment page offset sz t = Some (Before seg) \<Longrightarrow>
     seg \<in> set (ft_records t) \<and> fs_page seg = page \<and> sat_add16 (fs_offset seg) (fs_size seg) = offset"
  "has_adjacent_segment page offset sz t = Some (After seg) \<Longrightarrow>
     seg \<in> set (ft_records t) \<and> fs_page seg = page \<and> fs_offset seg = sat_add16 offset sz"
  by (auto simp: has_adjacent_segment_def has_adjacent_segment_before_def has_adjacent_segment_after_def
      ft_find_def find_Some_iff split: option.splits)

lemma ft_commit_self: "fst (snd (ft_commit MA s)) = fst s"
  by (cases s) (auto simp: ft_commit_def mbind_def on_mem_def get_self_def split: prod.splits outcome.splits)

lemma ft_remove_less:
  assumes "seg \<in> set (ft_records t)" and "ft_remove MA seg (fs_size seg) (t, m) = (r, (t', m'))"
  shows "length (ft_records t') < length (ft_records t)"
proof -
  obtain pos where pos: "position (\<lambda>r. r = seg) (ft_records t) = Some pos"
    using assms(1) position_None [of "\<lambda>r. r = seg" "ft_records t"] by auto
  then have "ft_records t' = swap_remove pos (ft_records t)"
    using assms(2) ft_commit_self [of MA "(t\<lparr>ft_records := swap_remove pos (ft_records t)\<rparr>, m)"]
    by (simp add: ft_remove_def remove_segment_def)
  moreover have "ft_records t \<noteq> []" using assms(1) by auto
  ultimately show ?thesis by (simp add: swap_remove_def)
qed

text \<open>\<^verbatim>\<open>FreeSegmentsTable::insert_free_segment\<close>; every merge removes one record, so the recursion ends.\<close>

function ft_insert ::
  "'m mem_ops \<Rightarrow> nat \<Rightarrow> nat \<Rightarrow> nat \<Rightarrow> free_segments_table \<Rightarrow> 'm \<Rightarrow> unit memory_result \<times> free_segments_table \<times> 'm" where
  "ft_insert MA page offset sz t m =
     (if ft_is_full t then (Panic, (t, m))
      else case has_adjacent_segment page offset sz t of
        Some (Before seg) \<Rightarrow>
          (case ft_remove MA seg (fs_size seg) (t, m) of
             (Ok _, (t1, m1)) \<Rightarrow>
               (case ft_insert MA page (fs_offset seg) (sat_add16 (fs_size seg) sz) t1 m1 of
                  (Ok _, s2) \<Rightarrow> ft_commit MA s2 | (Err e, s2) \<Rightarrow> (Err e, s2) | (Panic, s2) \<Rightarrow> (Panic, s2))
           | (Err e, s1) \<Rightarrow> (Err e, s1) | (Panic, s1) \<Rightarrow> (Panic, s1))
      | Some (After seg) \<Rightarrow>
          (case ft_remove MA seg (fs_size seg) (t, m) of
             (Ok _, (t1, m1)) \<Rightarrow>
               (case ft_insert MA page offset (sat_add16 sz (fs_size seg)) t1 m1 of
                  (Ok _, s2) \<Rightarrow> ft_commit MA s2 | (Err e, s2) \<Rightarrow> (Err e, s2) | (Panic, s2) \<Rightarrow> (Panic, s2))
           | (Err e, s1) \<Rightarrow> (Err e, s1) | (Panic, s1) \<Rightarrow> (Panic, s1))
      | None \<Rightarrow>
          ft_commit MA (t\<lparr>ft_records := ft_records t @
             [\<lparr>fs_page = page, fs_offset = offset, fs_size = sz\<rparr>]\<rparr>, m))"
  by pat_completeness auto

termination
proof (relation "measure (\<lambda>(MA, page, offset, sz, t, m). length (ft_records t))", goal_cases)
  case 1
  show ?case by simp
next
  case (2 MA page offset sz t m adj seg x y u t1 m1)
  have "seg \<in> set (ft_records t)" using has_adjacent_segment_in(1) 2(2,3) by blast
  moreover have "ft_remove MA seg (fs_size seg) (t, m) = (x, (t1, m1))" using 2(4,6) by simp
  ultimately have "length (ft_records t1) < length (ft_records t)" by (rule ft_remove_less)
  then show ?case by simp
next
  case (3 MA page offset sz t m adj seg x y u t1 m1)
  have "seg \<in> set (ft_records t)" using has_adjacent_segment_in(2) 3(2,3) by blast
  moreover have "ft_remove MA seg (fs_size seg) (t, m) = (x, (t1, m1))" using 3(4,6) by simp
  ultimately have "length (ft_records t1) < length (ft_records t)" by (rule ft_remove_less)
  then show ?case by simp
qed

declare ft_insert.simps [simp del]

section \<open>The ledger\<close>

type_synonym pages_table = "nat list"

definition pgt_encoded_len :: "byte list \<Rightarrow> nat option" where
  "pgt_encoded_len prefix =
     (if length prefix < TABLE_LEN_SIZE then None
      else Some (TABLE_LEN_SIZE + from_le (slice 0 TABLE_LEN_SIZE prefix) * 4))"

definition pgt_encode :: "pages_table \<Rightarrow> byte list" where
  "pgt_encode pages = le_bytes 2 (as_u16 (length pages)) @ concat (map (le_bytes 4) pages)"

definition pgt_decode :: "byte list \<Rightarrow> pages_table memory_result" where
  "pgt_decode data =
     bind_outcome (slice_or_panic 0 TABLE_LEN_SIZE data) (\<lambda>len_bytes.
     decode_entries 4 (\<lambda>e. Ok (from_le e)) (from_le len_bytes) (drop TABLE_LEN_SIZE data))"

definition pgt_size :: "pages_table \<Rightarrow> nat" where
  "pgt_size pages = as_u16 (TABLE_LEN_SIZE + length pages * 4)"

definition PagesTable :: "pages_table codec" where
  "PagesTable = \<lparr>SIZE = Dynamic, ALIGNMENT = DEFAULT_ALIGNMENT, encode = pgt_encode,
     decode = pgt_decode, enc_size = pgt_size\<rparr>"

record free_segments_ledger =
  fl_page :: nat
  fl_tables :: pages_table

record free_segment_ticket =
  tk_segment :: free_segment
  tk_table :: nat

definition fl_load :: "'m mem_ops \<Rightarrow> nat \<Rightarrow> ('m, free_segments_ledger) mem_prog" where
  "fl_load MA page =
     mbind (read_sized MA PagesTable page pgt_encoded_len) (\<lambda>tables.
     ret \<lparr>fl_page = page, fl_tables = tables\<rparr>)"

definition fl_commit :: "'m mem_ops \<Rightarrow> (free_segments_ledger \<times> 'm, unit) mem_prog" where
  "fl_commit MA = mbind get_self (\<lambda>self. on_mem (write_at MA PagesTable (fl_page self) 0 (fl_tables self)))"

definition create_new_page :: "'m mem_ops \<Rightarrow> (free_segments_ledger \<times> 'm, nat) mem_prog" where
  "create_new_page MA =
     mbind (on_mem (claim_page MA)) (\<lambda>new_page.
     mbind get_self (\<lambda>self.
     mbind (put_self (self\<lparr>fl_tables := fl_tables self @ [new_page]\<rparr>)) (\<lambda>_.
     mbind (fl_commit MA) (\<lambda>_. ret new_page))))"

text \<open>
  The loops over \<^verbatim>\<open>TablesIter\<close>: tables are loaded one at a time, and the loop stops at the first that
  satisfies its condition.
\<close>

fun first_table ::
  "'m mem_ops \<Rightarrow> (free_segments_table \<Rightarrow> bool) \<Rightarrow> nat list \<Rightarrow> ('m, free_segments_table option) mem_prog" where
  "first_table MA cond [] = ret None"
| "first_table MA cond (page # pages) =
     mbind (ft_load MA page) (\<lambda>t. if cond t then ret (Some t) else first_table MA cond pages)"

definition insert_free_segment_raw ::
  "'m mem_ops \<Rightarrow> nat \<Rightarrow> nat \<Rightarrow> nat \<Rightarrow> (free_segments_ledger \<times> 'm, unit) mem_prog" where
  "insert_free_segment_raw MA page offset physical_size =
     mbind get_self (\<lambda>self.
     mbind (on_mem (first_table MA (\<lambda>t. \<not> ft_is_full t) (fl_tables self))) (\<lambda>found.
       case found of
         Some t \<Rightarrow> on_mem (\<lambda>m. case ft_insert MA page offset physical_size t m of (r, (t', m')) \<Rightarrow> (r, m'))
       | None \<Rightarrow>
           mbind (create_new_page MA) (\<lambda>new_page.
           mbind (on_mem (ft_load MA new_page)) (\<lambda>t.
           on_mem (\<lambda>m. case ft_insert MA page offset physical_size t m of (r, (t', m')) \<Rightarrow> (r, m'))))))"

definition insert_free_segment ::
  "'m mem_ops \<Rightarrow> 'r codec \<Rightarrow> nat \<Rightarrow> nat \<Rightarrow> 'r \<Rightarrow> (free_segments_ledger \<times> 'm, unit) mem_prog" where
  "insert_free_segment MA R page offset rec =
     (let physical_size = as_u16 (align_up (ALIGNMENT R) (enc_size R rec)) in
      insert_free_segment_raw MA page offset physical_size)"

fun find_in_tables ::
  "'m mem_ops \<Rightarrow> (free_segment \<Rightarrow> bool) \<Rightarrow> nat list \<Rightarrow> ('m, free_segment_ticket option) mem_prog" where
  "find_in_tables MA pred [] = ret None"
| "find_in_tables MA pred (page # pages) =
     mbind (ft_load MA page) (\<lambda>t.
       case ft_find pred t of
         Some segment \<Rightarrow> ret (Some \<lparr>tk_segment = segment, tk_table = ft_page t\<rparr>)
       | None \<Rightarrow> find_in_tables MA pred pages)"

definition find_reusable_segment_raw ::
  "'m mem_ops \<Rightarrow> nat \<Rightarrow> free_segments_ledger \<Rightarrow> ('m, free_segment_ticket option) mem_prog" where
  "find_reusable_segment_raw MA required_size self =
     find_in_tables MA (\<lambda>r. fs_size r \<ge> required_size) (fl_tables self)"

definition find_reusable_segment ::
  "'m mem_ops \<Rightarrow> 'r codec \<Rightarrow> 'r \<Rightarrow> free_segments_ledger \<Rightarrow> ('m, free_segment_ticket option) mem_prog" where
  "find_reusable_segment MA R rec self =
     (let required_size = enc_size R rec in
      find_in_tables MA (\<lambda>r. fs_size r \<ge> required_size) (fl_tables self))"

definition commit_reused_space_raw ::
  "'m mem_ops \<Rightarrow> nat \<Rightarrow> free_segment_ticket \<Rightarrow> (free_segments_ledger \<times> 'm, unit) mem_prog" where
  "commit_reused_space_raw MA physical_size ticket =
     mbind get_self (\<lambda>self.
     mbind (on_mem (first_table MA (\<lambda>t. ft_page t = tk_table ticket) (fl_tables self))) (\<lambda>found.
       case found of
         None \<Rightarrow> fail OutOfBounds
       | Some t \<Rightarrow>
           on_mem (\<lambda>m. case ft_remove MA (tk_segment ticket) physical_size (t, m) of (r, (t', m')) \<Rightarrow> (r, m'))))"

definition commit_reused_space ::
  "'m mem_ops \<Rightarrow> 'r codec \<Rightarrow> 'r \<Rightarrow> free_segment_ticket \<Rightarrow> (free_segments_ledger \<times> 'm, unit) mem_prog" where
  "commit_reused_space MA R rec ticket =
     (let physical_size = as_u16 (align_up (ALIGNMENT R) (enc_size R rec)) in
      commit_reused_space_raw MA physical_size ticket)"

definition fl_release_pages :: "'m mem_ops \<Rightarrow> free_segments_ledger \<Rightarrow> ('m, unit) mem_prog" where
  "fl_release_pages MA self = mbind (unclaim_pages MA (fl_tables self)) (\<lambda>_. unclaim_page MA (fl_page self))"

definition fl_releasable_pages_count :: "free_segments_ledger \<Rightarrow> nat" where
  "fl_releasable_pages_count self = length (fl_tables self) + 1"

section \<open>Encodings\<close>

definition seg_wf :: "free_segment \<Rightarrow> bool" where
  "seg_wf s \<longleftrightarrow> fs_page s < 2 ^ 32 \<and> fs_offset s < 2 ^ 16 \<and> fs_size s < 2 ^ 16"

definition fsl_wf :: "free_segment list \<Rightarrow> bool" where
  "fsl_wf rs \<longleftrightarrow> length rs \<le> 8191 \<and> list_all seg_wf rs"

lemma length_seg_encode [simp]: "length (seg_encode s) = 8"
  by (simp add: seg_encode_def)

lemma seg_decode_encode: "seg_wf s \<Longrightarrow> seg_decode (seg_encode s @ rest) = Ok s"
  by (simp add: seg_decode_def seg_encode_def seg_wf_def slice_def)

interpretation free_segment_codec: prefix_encoding FreeSegment seg_wf
  by unfold_locales (auto simp: FreeSegment_def seg_decode_encode [of _ "[]", simplified] seg_decode_encode)

lemma length_fsl_encode [simp]: "length (fsl_encode rs) = 2 + 8 * length rs"
  by (simp add: fsl_encode_def length_concat_const)

lemma fsl_decode_encode:
  assumes "fsl_wf rs"
  shows "fsl_decode (fsl_encode rs @ rest) = Ok rs"
proof -
  have "slice 0 2 (fsl_encode rs @ rest) = le_bytes 2 (length rs)"
    using assms by (simp add: fsl_encode_def slice_def fsl_wf_def)
  moreover have "drop 2 (take 65536 (fsl_encode rs @ rest)) =
      concat (map seg_encode rs) @ take (65536 - (2 + 8 * length rs)) rest"
    using assms by (simp add: fsl_encode_def fsl_wf_def length_concat_const)
  moreover have "decode_entries 8 seg_decode (length rs)
      (concat (map seg_encode rs) @ take (65536 - (2 + 8 * length rs)) rest) = Ok rs"
    using assms seg_decode_encode [of _ "[]"]
    by (intro decode_entries_concat) (auto simp: fsl_wf_def list_all_iff)
  ultimately show ?thesis
    using assms by (simp add: fsl_decode_def fsl_wf_def TABLE_LEN_SIZE_def)
qed

interpretation segments_list_codec: prefix_encoding FreeSegmentsList fsl_wf
  by unfold_locales
    (auto simp: FreeSegmentsList_def DEFAULT_ALIGNMENT_def fsl_size_def sat_add16_def sat_mul16_def
       u16_max_def TABLE_LEN_SIZE_def fsl_wf_def fsl_decode_encode [of _ "[]", simplified] fsl_decode_encode)

definition pgt_wf :: "pages_table \<Rightarrow> bool" where
  "pgt_wf ps \<longleftrightarrow> length ps \<le> 16383 \<and> (\<forall>p \<in> set ps. p < 2 ^ 32)"

lemma length_pgt_encode [simp]: "length (pgt_encode ps) = 2 + 4 * length ps"
  by (simp add: pgt_encode_def length_concat_const)

lemma pgt_decode_encode:
  assumes "pgt_wf ps"
  shows "pgt_decode (pgt_encode ps @ rest) = Ok ps"
proof -
  have "slice 0 2 (pgt_encode ps @ rest) = le_bytes 2 (length ps)"
    using assms by (simp add: pgt_encode_def slice_def pgt_wf_def)
  moreover have "drop 2 (pgt_encode ps @ rest) = concat (map (le_bytes 4) ps) @ rest"
    by (simp add: pgt_encode_def)
  moreover have "decode_entries 4 (\<lambda>e. Ok (from_le e)) (length ps) (concat (map (le_bytes 4) ps) @ rest) = Ok ps"
    using assms by (intro decode_entries_concat) (auto simp: pgt_wf_def)
  ultimately show ?thesis
    using assms by (simp add: pgt_decode_def pgt_wf_def TABLE_LEN_SIZE_def)
qed

interpretation pages_table_codec: prefix_encoding PagesTable pgt_wf
  by unfold_locales
    (auto simp: PagesTable_def DEFAULT_ALIGNMENT_def pgt_size_def TABLE_LEN_SIZE_def pgt_wf_def
       pgt_decode_encode [of _ "[]", simplified] pgt_decode_encode)

lemma pgt_len_header:
  assumes "pgt_wf t" and "content = pgt_encode t @ rest" and "length content = 65536"
  shows "len_header pgt_encoded_len 2 content (length (pgt_encode t))"
proof -
  have "pgt_encoded_len (take j content) = Some (2 + 4 * length t)" if "2 \<le> j" "j \<le> 65536" for j
  proof -
    have "slice 0 2 (take j content) = le_bytes 2 (length t)"
      using that assms by (simp add: pgt_encode_def slice_def pgt_wf_def min_def)
    then show ?thesis using that assms
      by (simp add: pgt_encoded_len_def pgt_wf_def TABLE_LEN_SIZE_def mult.commute)
  qed
  then show ?thesis using assms by (auto simp: len_header_def pgt_wf_def)
qed

end
