(* ===== verification/Free_Space.thy ===== *)
theory Free_Space
  imports Free_Segments
begin

text \<open>
  What the free-segments ledger means: the set of byte cells its segments cover. Inserting a segment
  adds its cells, reusing a part of one removes exactly the cells used, merging and splitting never
  lose or invent a cell. Sizes are \<^verbatim>\<open>u16\<close>: a segment that covers a whole page is stored with the size
  65535 and still stands for all 65536 cells.
\<close>

section \<open>Cells of a segment\<close>

text \<open>
  \<open>a\<close> is the alignment of the table's records. Every offset and size is a multiple of \<open>a\<close>, except for
  the size of a segment that ends at the page end and whose size was cut to 65535 when it was merged.
\<close>

definition seg_end :: "nat \<Rightarrow> free_segment \<Rightarrow> nat" where
  "seg_end a s = fs_offset s + fs_size s + (if a dvd fs_size s then 0 else 1)"

definition seg_ok :: "nat \<Rightarrow> free_segment \<Rightarrow> bool" where
  "seg_ok a s \<longleftrightarrow> fs_page s < 2 ^ 32 \<and> a dvd fs_offset s \<and> 0 < fs_size s \<and> fs_offset s \<le> 65535 \<and>
     fs_size s \<le> 65535 \<and> fs_offset s + fs_size s \<le> 65536 \<and>
     (a dvd fs_size s \<or> fs_offset s + fs_size s = 65535 \<and> a dvd 65536)"

definition region :: "nat \<Rightarrow> nat \<Rightarrow> nat \<Rightarrow> (nat \<times> nat) set" where
  "region p off n = {p} \<times> {off..<off + n}"

definition seg_cells :: "nat \<Rightarrow> free_segment \<Rightarrow> (nat \<times> nat) set" where
  "seg_cells a s = {fs_page s} \<times> {fs_offset s..<seg_end a s}"

definition segs_cells :: "nat \<Rightarrow> free_segment list \<Rightarrow> (nat \<times> nat) set" where
  "segs_cells a rs = (\<Union>s \<in> set rs. seg_cells a s)"

definition segs_ok :: "nat \<Rightarrow> free_segment list \<Rightarrow> bool" where
  "segs_ok a rs \<longleftrightarrow> distinct rs \<and> (\<forall>s \<in> set rs. seg_ok a s) \<and>
     (\<forall>s \<in> set rs. \<forall>t \<in> set rs. s \<noteq> t \<longrightarrow> seg_cells a s \<inter> seg_cells a t = {})"

lemma seg_ok_wf: "seg_ok a s \<Longrightarrow> seg_wf s"
  by (auto simp: seg_ok_def seg_wf_def)

lemma seg_end_le: "seg_ok a s \<Longrightarrow> seg_end a s \<le> 65536"
  by (auto simp: seg_ok_def seg_end_def)

lemma seg_end_dvd: "seg_ok a s \<Longrightarrow> a dvd seg_end a s"
  by (auto simp: seg_ok_def seg_end_def)

lemma seg_end_gt: "seg_ok a s \<Longrightarrow> fs_offset s < seg_end a s"
  by (auto simp: seg_ok_def seg_end_def)

lemma seg_cells_nonempty: "seg_ok a s \<Longrightarrow> seg_cells a s \<noteq> {}"
  using seg_end_gt [of a s] by (auto simp: seg_cells_def)

lemma mem_seg_cells: "(p, i) \<in> seg_cells a s \<longleftrightarrow> p = fs_page s \<and> fs_offset s \<le> i \<and> i < seg_end a s"
  by (auto simp: seg_cells_def)

text \<open>A segment at least as long as the unpadded record has room for the padded one.\<close>

lemma seg_fits:
  assumes "seg_ok a s" and "0 < a" and "n \<le> fs_size s"
  shows "fs_offset s + align_up a n \<le> seg_end a s"
proof -
  have "fs_offset s + align_up a n = align_up a (fs_offset s + n)"
    using assms(1) by (simp add: seg_ok_def align_up_add)
  also have "\<dots> \<le> seg_end a s"
    using assms seg_end_dvd [OF assms(1)] by (intro align_up_least) (auto simp: seg_end_def)
  finally show ?thesis .
qed

lemma not_dvd_page_pred: "2 \<le> a \<Longrightarrow> a dvd 65536 \<Longrightarrow> \<not> a dvd (65535 :: nat)"
proof
  assume "2 \<le> a" and "a dvd 65536" and "a dvd (65535 :: nat)"
  then have "a dvd 65536 - 65535" by (intro dvd_diff_nat)
  then show False using \<open>2 \<le> a\<close> by simp
qed

section \<open>Splitting\<close>

text \<open>What remains of a segment after its first \<open>n\<close> cells are used.\<close>

definition seg_rest :: "free_segment \<Rightarrow> nat \<Rightarrow> free_segment" where
  "seg_rest s n = \<lparr>fs_page = fs_page s, fs_offset = sat_add16 (fs_offset s) n, fs_size = fs_size s - n\<rparr>"

lemma seg_rest_ok:
  assumes s: "seg_ok a s" and n: "a dvd n" "n < fs_size s"
  shows "seg_ok a (seg_rest s n)" and "seg_end a (seg_rest s n) = seg_end a s"
    and "fs_offset (seg_rest s n) = fs_offset s + n"
proof -
  have off: "sat_add16 (fs_offset s) n = fs_offset s + n"
    using assms by (intro sat_add16_eq) (auto simp: seg_ok_def)
  then show "fs_offset (seg_rest s n) = fs_offset s + n" by (simp add: seg_rest_def)
  have d: "a dvd fs_size s - n \<longleftrightarrow> a dvd fs_size s"
    using n by (metis dvd_diffD dvd_diff_nat less_imp_le_nat)
  then show "seg_ok a (seg_rest s n)" "seg_end a (seg_rest s n) = seg_end a s"
    using assms off by (auto simp: seg_ok_def seg_end_def seg_rest_def)
qed

lemma seg_used_up:
  assumes s: "seg_ok a s" and n: "a dvd n" "fs_size s \<le> n" "fs_offset s + n \<le> seg_end a s"
  shows "fs_offset s + n = seg_end a s"
proof (cases "a dvd fs_size s")
  case True
  then show ?thesis using n by (simp add: seg_end_def)
next
  case False
  then have "n \<noteq> fs_size s" using n(1) by auto
  then show ?thesis using n False by (simp add: seg_end_def)
qed

section \<open>Merging\<close>

definition seg_join :: "free_segment \<Rightarrow> free_segment \<Rightarrow> free_segment" where
  "seg_join s t = \<lparr>fs_page = fs_page s, fs_offset = fs_offset s, fs_size = sat_add16 (fs_size s) (fs_size t)\<rparr>"

lemma seg_join_ok:
  assumes a: "2 \<le> a" and s: "seg_ok a s" and t: "seg_ok a t"
    and adj: "fs_page t = fs_page s" "a dvd fs_size s" "fs_offset s + fs_size s = fs_offset t"
  shows "seg_ok a (seg_join s t)" and "seg_cells a (seg_join s t) = seg_cells a s \<union> seg_cells a t"
proof -
  let ?j = "seg_join s t"
  have ok: "seg_ok a ?j \<and> seg_end a ?j = seg_end a t"
  proof (cases "fs_size s + fs_size t \<le> 65535")
    case True
    have "a dvd fs_size s + fs_size t \<longleftrightarrow> a dvd fs_size t"
      using adj(2) by (simp add: dvd_add_right_iff)
    then show ?thesis
      using s t adj True by (auto simp: seg_join_def seg_ok_def seg_end_def sat_add16_eq)
  next
    case False
    then have sum: "fs_size s + fs_size t = 65536" "fs_offset s = 0"
      using t adj(3) by (auto simp: seg_ok_def)
    then have "a dvd fs_size t" using t adj(3) by (auto simp: seg_ok_def)
    then have "a dvd 65536" using adj(2) sum(1) dvd_add by metis
    moreover have "\<not> a dvd 65535" using not_dvd_page_pred a calculation by blast
    moreover have "sat_add16 (fs_size s) (fs_size t) = 65535"
      using sum by (simp add: sat_add16_def u16_max_def)
    ultimately show ?thesis
      using s t adj sum \<open>a dvd fs_size t\<close> by (auto simp: seg_join_def seg_ok_def seg_end_def)
  qed
  then show "seg_ok a ?j" by simp
  have "fs_offset s \<le> fs_offset t" "fs_offset t \<le> seg_end a t" "seg_end a s = fs_offset t"
    using s t adj seg_end_gt [OF t] by (auto simp: seg_end_def)
  then show "seg_cells a ?j = seg_cells a s \<union> seg_cells a t"
    using ok adj by (auto simp: set_eq_iff mem_seg_cells seg_join_def)
qed

text \<open>The tests of \<^verbatim>\<open>has_adjacent_segment\<close> with their saturating additions are exact.\<close>

lemma adjacent_exact:
  assumes a: "2 \<le> a" and s: "seg_ok a s" and t: "seg_ok a t"
    and eq: "sat_add16 (fs_offset s) (fs_size s) = fs_offset t"
  shows "a dvd fs_size s" and "fs_offset s + fs_size s = fs_offset t"
proof -
  have at: "a dvd fs_offset t" using t by (simp add: seg_ok_def)
  have ne: "fs_offset s + fs_size s \<noteq> 65536 \<or> \<not> a dvd fs_size s"
  proof
    show "fs_offset s + fs_size s \<noteq> 65536"
    proof
      assume e: "fs_offset s + fs_size s = 65536"
      then have "fs_offset t = 65535" using eq by (simp add: sat_add16_def u16_max_def)
      moreover have "a dvd 65536"
        using s e by (metis dvd_add seg_ok_def)
      ultimately show False using at a not_dvd_page_pred by metis
    qed
  qed
  show "a dvd fs_size s"
  proof (rule ccontr)
    assume "\<not> a dvd fs_size s"
    then have "fs_offset s + fs_size s = 65535" "a dvd 65536" using s by (auto simp: seg_ok_def)
    then have "a dvd 65535" using eq at by (simp add: sat_add16_def u16_max_def)
    then show False using \<open>a dvd 65536\<close> a not_dvd_page_pred by blast
  qed
  then have "fs_offset s + fs_size s \<le> 65535" using ne s by (auto simp: seg_ok_def)
  then show "fs_offset s + fs_size s = fs_offset t" using eq by (simp add: sat_add16_eq)
qed

section \<open>Lists of segments\<close>

lemma segs_okI:
  assumes "distinct rs" and "\<And>s. s \<in> set rs \<Longrightarrow> seg_ok a s"
    and "\<And>s t. s \<in> set rs \<Longrightarrow> t \<in> set rs \<Longrightarrow> s \<noteq> t \<Longrightarrow> seg_cells a s \<inter> seg_cells a t = {}"
  shows "segs_ok a rs"
  using assms by (auto simp: segs_ok_def)

lemma segs_ok_in: "segs_ok a rs \<Longrightarrow> s \<in> set rs \<Longrightarrow> seg_ok a s"
  by (simp add: segs_ok_def)

lemma segs_ok_disjoint:
  "segs_ok a rs \<Longrightarrow> s \<in> set rs \<Longrightarrow> t \<in> set rs \<Longrightarrow> s \<noteq> t \<Longrightarrow> seg_cells a s \<inter> seg_cells a t = {}"
  by (simp add: segs_ok_def)

lemma segs_ok_snoc:
  assumes "segs_ok a rs" and "seg_ok a s" and "seg_cells a s \<inter> segs_cells a rs = {}"
  shows "segs_ok a (rs @ [s])" and "segs_cells a (rs @ [s]) = segs_cells a rs \<union> seg_cells a s"
proof -
  have d: "seg_cells a s \<inter> seg_cells a t = {}" if "t \<in> set rs" for t
    using that assms(3) by (auto simp: segs_cells_def)
  have "s \<notin> set rs" using d [of s] seg_cells_nonempty [OF assms(2)] by auto
  then show "segs_ok a (rs @ [s])"
    using assms(1,2) d by (auto simp: segs_ok_def)
  show "segs_cells a (rs @ [s]) = segs_cells a rs \<union> seg_cells a s"
    by (auto simp: segs_cells_def)
qed

lemma segs_ok_subset:
  "segs_ok a rs \<Longrightarrow> set rs' \<subseteq> set rs \<Longrightarrow> distinct rs' \<Longrightarrow> segs_ok a rs'"
  unfolding segs_ok_def by (meson subsetD)

lemma segs_drop:
  assumes ok: "segs_ok a rs" and pos: "pos < length rs" "rs ! pos = s"
  shows "segs_ok a (swap_remove pos rs)"
    and "segs_cells a (swap_remove pos rs) = segs_cells a rs - seg_cells a s"
    and "seg_cells a s \<inter> segs_cells a (swap_remove pos rs) = {}"
proof -
  have d: "distinct rs" using ok by (simp add: segs_ok_def)
  note sw = set_swap_remove [OF d pos(1), unfolded pos(2)]
  show "segs_ok a (swap_remove pos rs)"
    using ok sw by (intro segs_ok_subset [OF ok]) auto
  have "s \<in> set rs" using pos by auto
  then have dis: "seg_cells a s \<inter> seg_cells a t = {}" if "t \<in> set rs - {s}" for t
    using that segs_ok_disjoint [OF ok] by auto
  then show "seg_cells a s \<inter> segs_cells a (swap_remove pos rs) = {}"
    by (auto simp: segs_cells_def sw(1))
  show "segs_cells a (swap_remove pos rs) = segs_cells a rs - seg_cells a s"
    using dis \<open>s \<in> set rs\<close> unfolding segs_cells_def sw(1) by blast
qed

text \<open>Using the first \<open>n\<close> cells of a segment takes exactly those away.\<close>

lemma remove_segment_cells:
  assumes ok: "segs_ok a rs" and pos: "pos < length rs" "rs ! pos = s"
    and n: "0 < n" "a dvd n" "fs_offset s + n \<le> seg_end a s"
  shows "segs_ok a (remove_segment s n pos rs)"
    and "segs_cells a (remove_segment s n pos rs) = segs_cells a rs - region (fs_page s) (fs_offset s) n"
proof -
  have s: "seg_ok a s" "s \<in> set rs" using ok pos by (auto simp: segs_ok_def)
  then have sub: "seg_cells a s \<subseteq> segs_cells a rs" by (auto simp: segs_cells_def)
  note d = segs_drop [OF ok pos]
  have "segs_ok a (remove_segment s n pos rs) \<and>
    segs_cells a (remove_segment s n pos rs) = segs_cells a rs - region (fs_page s) (fs_offset s) n"
  proof (cases "n < fs_size s")
    case True
    note r = seg_rest_ok [OF s(1) n(2) True]
    have rest: "seg_cells a (seg_rest s n) = seg_cells a s - region (fs_page s) (fs_offset s) n"
      using r n by (auto simp: set_eq_iff mem_seg_cells region_def seg_rest_def)
    have eq: "remove_segment s n pos rs = swap_remove pos rs @ [seg_rest s n]"
      using True by (simp add: remove_segment_def seg_rest_def)
    have "region (fs_page s) (fs_offset s) n \<subseteq> seg_cells a s"
      using n by (auto simp: region_def mem_seg_cells)
    moreover have "seg_cells a (seg_rest s n) \<inter> segs_cells a (swap_remove pos rs) = {}"
      using rest d(3) by auto
    note sn = segs_ok_snoc [OF d(1) r(1) this]
    ultimately show ?thesis using sn d(2) rest sub eq by auto
  next
    case False
    then have "region (fs_page s) (fs_offset s) n = seg_cells a s"
      using seg_used_up [OF s(1) n(2) _ n(3)] by (auto simp: region_def seg_cells_def)
    then show ?thesis using d False by (simp add: remove_segment_def)
  qed
  then show "segs_ok a (remove_segment s n pos rs)"
    and "segs_cells a (remove_segment s n pos rs) = segs_cells a rs - region (fs_page s) (fs_offset s) n"
    by auto
qed

section \<open>Operations of a table page\<close>

definition ft_ok :: "nat \<Rightarrow> free_segments_table \<Rightarrow> bool" where
  "ft_ok a t \<longleftrightarrow> ft_max_records t = 8191 \<and> length (ft_records t) \<le> 8191 \<and> segs_ok a (ft_records t)"

lemma ft_ok_wf: "ft_ok a t \<Longrightarrow> fsl_wf (ft_records t)"
  by (auto simp: ft_ok_def fsl_wf_def list_all_iff segs_ok_def seg_ok_wf)

lemma max_segments_8191: "max_segments 65536 = 8191"
  by (simp add: max_segments_def div_ceil_def)

context memory_access
begin

lemma ft_commit_ok:
  assumes m: "inv m" and t: "ft_ok a t" and p: "ft_page t < length (pg m)"
  obtains m' c where "ft_commit MA (t, m) = (Ok (), (t, m'))" and "inv m'"
    and "pg m' = (pg m)[ft_page t := c]" and "stored FreeSegmentsList (ft_records t) c"
proof -
  obtain m' c where "write_at MA FreeSegmentsList (ft_page t) 0 (ft_records t) m = (Ok (), m')"
    "inv m'" "pg m' = (pg m)[ft_page t := c]" "stored FreeSegmentsList (ft_records t) c"
    using ledger_store [OF segments_list_codec.prefix_encoding_axioms ft_ok_wf [OF t] _ m p]
    by (auto simp: FreeSegmentsList_def DEFAULT_ALIGNMENT_def)
  then show thesis by (intro that [of m' c]) (auto simp: ft_commit_def)
qed

lemma ft_load_ok:
  assumes m: "inv m" and p: "p < length (pg m)" and wf: "fsl_wf rs"
    and st: "stored FreeSegmentsList rs (pg m ! p)"
  shows "ft_load MA p m = (Ok \<lparr>ft_max_records = 8191, ft_records = rs, ft_page = p\<rparr>, m)"
proof -
  have "read_at MA FreeSegmentsList p 0 m = (Ok rs, m)"
    using read_at_0 [OF m p, of FreeSegmentsList]
      stored_decode [OF segments_list_codec.prefix_encoding_axioms wf st]
    by (simp add: FreeSegmentsList_def)
  then show ?thesis by (simp add: ft_load_def page_size max_segments_8191)
qed

lemma ft_remove_ok:
  assumes m: "inv m" and t: "ft_ok a t" and p: "ft_page t < length (pg m)"
    and s: "s \<in> set (ft_records t)" and n: "0 < n" "a dvd n" "fs_offset s + n \<le> seg_end a s"
  obtains t' m' c where "ft_remove MA s n (t, m) = (Ok (), (t', m'))" and "inv m'"
    and "pg m' = (pg m)[ft_page t := c]" and "stored FreeSegmentsList (ft_records t') c"
    and "ft_ok a t'" and "ft_page t' = ft_page t"
    and "segs_cells a (ft_records t') = segs_cells a (ft_records t) - region (fs_page s) (fs_offset s) n"
proof -
  obtain pos where pos: "position (\<lambda>r. r = s) (ft_records t) = Some pos"
    using s position_None [of "\<lambda>r. r = s" "ft_records t"] by auto
  then have at: "pos < length (ft_records t)" "ft_records t ! pos = s" by (auto simp: position_Some)
  let ?t = "t\<lparr>ft_records := remove_segment s n pos (ft_records t)\<rparr>"
  have "segs_ok a (ft_records t)" using t by (simp add: ft_ok_def)
  note r = remove_segment_cells [OF this at n]
  have "length (remove_segment s n pos (ft_records t)) \<le> length (ft_records t)"
    using at(1) by (simp add: remove_segment_def)
  then have ok: "ft_ok a ?t" using t r(1) by (simp add: ft_ok_def)
  obtain m' c where c: "ft_commit MA (?t, m) = (Ok (), (?t, m'))" "inv m'"
    "pg m' = (pg m)[ft_page t := c]" "stored FreeSegmentsList (ft_records ?t) c"
    using ft_commit_ok [OF m ok] p by auto
  show thesis using c ok r(2) pos by (intro that [of ?t m' c]) (auto simp: ft_remove_def)
qed

text \<open>
  Removing a whole segment, as merging does: the cells that go are those of the segment.
\<close>

lemma ft_take_ok:
  assumes m: "inv m" and t: "ft_ok a t" and p: "ft_page t < length (pg m)" and s: "s \<in> set (ft_records t)"
  obtains t' m' c where "ft_remove MA s (fs_size s) (t, m) = (Ok (), (t', m'))" and "inv m'"
    and "pg m' = (pg m)[ft_page t := c]" and "ft_ok a t'" and "ft_page t' = ft_page t"
    and "length (ft_records t') < length (ft_records t)"
    and "segs_cells a (ft_records t') = segs_cells a (ft_records t) - seg_cells a s"
proof -
  obtain pos where pos: "position (\<lambda>r. r = s) (ft_records t) = Some pos"
    using s position_None [of "\<lambda>r. r = s" "ft_records t"] by auto
  then have at: "pos < length (ft_records t)" "ft_records t ! pos = s" by (auto simp: position_Some)
  let ?t = "t\<lparr>ft_records := swap_remove pos (ft_records t)\<rparr>"
  have "segs_ok a (ft_records t)" using t by (simp add: ft_ok_def)
  note r = segs_drop [OF this at]
  have ok: "ft_ok a ?t" using t r(1) by (auto simp: ft_ok_def)
  have "ft_page ?t < length (pg m)" using p by simp
  from ft_commit_ok [OF m ok this] obtain m' c where c: "ft_commit MA (?t, m) = (Ok (), (?t, m'))"
    "inv m'" "pg m' = (pg m)[ft_page t := c]" by (metis free_segments_table.select_convs(3) free_segments_table.surjective free_segments_table.update_convs(2))
  have run: "ft_remove MA s (fs_size s) (t, m) = (Ok (), (?t, m'))"
    using c pos by (simp add: ft_remove_def remove_segment_def)
  show thesis using that [OF run c(2,3) ok] ft_remove_less [OF s run] r(2) by simp
qed

lemma ft_insert_ok:
  assumes "2 \<le> a" and "inv m" and "ft_ok a t" and "ft_page t < length (pg m)"
    and "length (ft_records t) < 8191"
    and "seg_ok a \<lparr>fs_page = page, fs_offset = off, fs_size = sz\<rparr>"
    and "seg_cells a \<lparr>fs_page = page, fs_offset = off, fs_size = sz\<rparr> \<inter> segs_cells a (ft_records t) = {}"
  shows "\<exists>t' m' c. ft_insert MA page off sz t m = (Ok (), (t', m')) \<and> inv m' \<and>
     pg m' = (pg m)[ft_page t := c] \<and> stored FreeSegmentsList (ft_records t') c \<and>
     ft_ok a t' \<and> ft_page t' = ft_page t \<and>
     segs_cells a (ft_records t') =
       segs_cells a (ft_records t) \<union> seg_cells a \<lparr>fs_page = page, fs_offset = off, fs_size = sz\<rparr>"
  using assms(2-)
proof (induction "length (ft_records t)" arbitrary: t m off sz rule: less_induct)
  case less
  let ?s = "\<lparr>fs_page = page, fs_offset = off, fs_size = sz\<rparr>"
  have nf: "\<not> ft_is_full t" using less.prems by (simp add: ft_is_full_def ft_ok_def)
  have merge: ?case
    if seg: "seg \<in> set (ft_records t)"
      and j: "seg_ok a \<lparr>fs_page = page, fs_offset = off', fs_size = sz'\<rparr>"
        "seg_cells a \<lparr>fs_page = page, fs_offset = off', fs_size = sz'\<rparr> = seg_cells a ?s \<union> seg_cells a seg"
      and run: "ft_insert MA page off sz t m =
        (case ft_remove MA seg (fs_size seg) (t, m) of
           (Ok _, (t1, m1)) \<Rightarrow>
             (case ft_insert MA page off' sz' t1 m1 of
                (Ok _, s2) \<Rightarrow> ft_commit MA s2 | (Err e, s2) \<Rightarrow> (Err e, s2) | (Panic, s2) \<Rightarrow> (Panic, s2))
         | (Err e, s1) \<Rightarrow> (Err e, s1) | (Panic, s1) \<Rightarrow> (Panic, s1))"
    for seg off' sz'
  proof -
    obtain t1 m1 c1 where r: "ft_remove MA seg (fs_size seg) (t, m) = (Ok (), (t1, m1))" "inv m1"
      "pg m1 = (pg m)[ft_page t := c1]" "ft_ok a t1" "ft_page t1 = ft_page t"
      "length (ft_records t1) < length (ft_records t)"
      "segs_cells a (ft_records t1) = segs_cells a (ft_records t) - seg_cells a seg"
      using ft_take_ok [OF less.prems(1-3) seg] by blast
    have "seg_cells a \<lparr>fs_page = page, fs_offset = off', fs_size = sz'\<rparr> \<inter> segs_cells a (ft_records t1) = {}"
      using j(2) r(7) less.prems(6) by auto
    then obtain t2 m2 c2 where i: "ft_insert MA page off' sz' t1 m1 = (Ok (), (t2, m2))" "inv m2"
      "pg m2 = (pg m1)[ft_page t1 := c2]" "ft_ok a t2" "ft_page t2 = ft_page t1"
      "segs_cells a (ft_records t2) = segs_cells a (ft_records t1) \<union> (seg_cells a ?s \<union> seg_cells a seg)"
      using less.hyps [OF r(6) r(2,4) _ _ j(1)] r less.prems(3,4) j(2) by auto
    obtain m3 c3 where c: "ft_commit MA (t2, m2) = (Ok (), (t2, m3))" "inv m3"
      "pg m3 = (pg m2)[ft_page t2 := c3]" "stored FreeSegmentsList (ft_records t2) c3"
      using ft_commit_ok [OF i(2,4)] i(3,5) r(3,5) less.prems(3) by auto
    have "seg_cells a seg \<subseteq> segs_cells a (ft_records t)" using seg by (auto simp: segs_cells_def)
    then have "segs_cells a (ft_records t2) = segs_cells a (ft_records t) \<union> seg_cells a ?s"
      using i(6) r(7) by auto
    then show ?thesis using run r i c
      by (intro exI [of _ t2] exI [of _ m3] exI [of _ c3]) simp
  qed
  have ok: "segs_ok a (ft_records t)" using less.prems(2) by (simp add: ft_ok_def)
  consider (before) seg where "has_adjacent_segment page off sz t = Some (Before seg)"
    | (after) seg where "has_adjacent_segment page off sz t = Some (After seg)"
    | (none) "has_adjacent_segment page off sz t = None"
    by (cases "has_adjacent_segment page off sz t") (metis adjacent_segment.exhaust)+
  then show ?case
  proof cases
    case (before seg)
    note h = has_adjacent_segment_in(1) [OF before]
    have so: "seg_ok a seg" using h ok segs_ok_in by blast
    note ex = adjacent_exact [OF assms(1) so less.prems(5)]
    have j: "seg_join seg ?s = \<lparr>fs_page = page, fs_offset = fs_offset seg, fs_size = sat_add16 (fs_size seg) sz\<rparr>"
      using h by (simp add: seg_join_def)
    show ?thesis
      using h ex seg_join_ok [OF assms(1) so less.prems(5)] nf before
      by (intro merge [of seg "fs_offset seg" "sat_add16 (fs_size seg) sz"])
         (auto simp: j [symmetric] ft_insert.simps [of MA page off sz t m])
  next
    case (after seg)
    note h = has_adjacent_segment_in(2) [OF after]
    have so: "seg_ok a seg" using h ok segs_ok_in by blast
    have eq: "sat_add16 (fs_offset ?s) (fs_size ?s) = fs_offset seg" using h by simp
    note ex = adjacent_exact [OF assms(1) less.prems(5) so eq]
    have j: "seg_join ?s seg = \<lparr>fs_page = page, fs_offset = off, fs_size = sat_add16 sz (fs_size seg)\<rparr>"
      by (simp add: seg_join_def)
    show ?thesis
      using h ex seg_join_ok [OF assms(1) less.prems(5) so] nf after
      by (intro merge [of seg off "sat_add16 sz (fs_size seg)"])
         (auto simp: j [symmetric] ft_insert.simps [of MA page off sz t m])
  next
    case none
    let ?t = "t\<lparr>ft_records := ft_records t @ [?s]\<rparr>"
    note sn = segs_ok_snoc [OF ok less.prems(5,6)]
    have "ft_ok a ?t" using less.prems(2,4) sn by (simp add: ft_ok_def)
    then obtain m' c where "ft_commit MA (?t, m) = (Ok (), (?t, m'))" "inv m'"
      "pg m' = (pg m)[ft_page t := c]" "stored FreeSegmentsList (ft_records ?t) c"
      using ft_commit_ok [OF less.prems(1), of a ?t] less.prems(3) by auto
    then show ?thesis using none nf sn \<open>ft_ok a ?t\<close>
      by (intro exI [of _ ?t] exI [of _ m'] exI [of _ c]) (simp add: ft_insert.simps [of MA page off sz t m])
  qed
qed

end

section \<open>The ledger\<close>

text \<open>\<open>S\<close> is the list of the segments of each table page.\<close>

definition table_at :: "nat \<Rightarrow> byte list list \<Rightarrow> nat \<Rightarrow> free_segment list \<Rightarrow> bool" where
  "table_at a pgs tp rs \<longleftrightarrow> tp < length pgs \<and> stored FreeSegmentsList rs (pgs ! tp) \<and>
     length rs \<le> 8191 \<and> segs_ok a rs"

definition fl_inv :: "nat \<Rightarrow> byte list list \<Rightarrow> free_segments_ledger \<Rightarrow> free_segment list list \<Rightarrow> bool" where
  "fl_inv a pgs self S \<longleftrightarrow> pgt_wf (fl_tables self) \<and> distinct (fl_page self # fl_tables self) \<and>
     fl_page self < length pgs \<and> stored PagesTable (fl_tables self) (pgs ! fl_page self) \<and>
     list_all2 (table_at a pgs) (fl_tables self) S \<and>
     (\<forall>i < length S. \<forall>j < length S. i \<noteq> j \<longrightarrow> segs_cells a (S ! i) \<inter> segs_cells a (S ! j) = {})"

definition fl_cells :: "nat \<Rightarrow> free_segment list list \<Rightarrow> (nat \<times> nat) set" where
  "fl_cells a S = (\<Union>rs \<in> set S. segs_cells a rs)"

definition fl_pages :: "free_segments_ledger \<Rightarrow> nat set" where
  "fl_pages self = insert (fl_page self) (set (fl_tables self))"

lemma table_at_wf: "table_at a pgs tp rs \<Longrightarrow> fsl_wf rs"
  by (auto simp: table_at_def fsl_wf_def list_all_iff segs_ok_def seg_ok_wf)

lemma table_at_cong: "table_at a pgs tp rs \<Longrightarrow> length pgs \<le> length pgs' \<Longrightarrow> pgs' ! tp = pgs ! tp \<Longrightarrow> table_at a pgs' tp rs"
  by (auto simp: table_at_def)

lemma fl_inv_length: "fl_inv a pgs self S \<Longrightarrow> length S = length (fl_tables self)"
  by (auto simp: fl_inv_def dest: list_all2_lengthD)

lemma fl_inv_frame:
  assumes i: "fl_inv a pgs self S" and sm: "same_except X pgs pgs'" and "X \<inter> fl_pages self = {}"
  shows "fl_inv a pgs' self S"
proof -
  have "table_at a pgs' (fl_tables self ! k) (S ! k)" if "k < length (fl_tables self)" for k
  proof (rule table_at_cong)
    show t: "table_at a pgs (fl_tables self ! k) (S ! k)"
      using i that by (auto simp: fl_inv_def list_all2_conv_all_nth)
    then show "pgs' ! (fl_tables self ! k) = pgs ! (fl_tables self ! k)"
      using that assms(3) sm by (intro same_except_nth [OF sm]) (auto simp: table_at_def fl_pages_def)
    show "length pgs \<le> length pgs'" using sm by (rule same_except_length)
  qed
  moreover have "pgs' ! fl_page self = pgs ! fl_page self"
    using i assms(3) by (intro same_except_nth [OF sm]) (auto simp: fl_inv_def fl_pages_def)
  ultimately show ?thesis
    using i same_except_length [OF sm] by (auto simp: fl_inv_def list_all2_conv_all_nth)
qed

text \<open>Replacing the segments of one table.\<close>

lemma fl_inv_update:
  assumes i: "fl_inv a pgs self S" and k: "k < length S" and tp: "tp = fl_tables self ! k"
    and c: "stored FreeSegmentsList rs c" "length rs \<le> 8191" "segs_ok a rs"
    and dis: "\<And>j. j < length S \<Longrightarrow> j \<noteq> k \<Longrightarrow> segs_cells a rs \<inter> segs_cells a (S ! j) = {}"
  shows "fl_inv a (pgs[tp := c]) self (S[k := rs])"
proof -
  have len: "length S = length (fl_tables self)" using i by (rule fl_inv_length)
  have tab: "table_at a pgs (fl_tables self ! j) (S ! j)" if "j < length S" for j
    using i that len by (auto simp: fl_inv_def list_all2_conv_all_nth)
  have "table_at a (pgs[tp := c]) (fl_tables self ! j) (S[k := rs] ! j)" if j: "j < length S" for j
  proof (cases "j = k")
    case True
    then show ?thesis using c k tp tab [OF j] by (auto simp: table_at_def)
  next
    case False
    then have "fl_tables self ! j \<noteq> tp"
      using i j k tp len by (auto simp: fl_inv_def nth_eq_iff_index_eq)
    then show ?thesis using False tab [OF j] by (auto simp: table_at_def)
  qed
  moreover have "fl_page self \<noteq> tp" using i tp k len by (auto simp: fl_inv_def)
  moreover have "segs_cells a (S[k := rs] ! x) \<inter> segs_cells a (S[k := rs] ! y) = {}"
    if "x < length S" "y < length S" "x \<noteq> y" for x y
    using that i k dis [of x] dis [of y] by (cases "x = k"; cases "y = k") (auto simp: fl_inv_def)
  ultimately show ?thesis
    using i len by (auto simp: fl_inv_def list_all2_conv_all_nth)
qed

lemma fl_cells_update:
  assumes "k < length S"
  shows "fl_cells a (S[k := rs]) = segs_cells a rs \<union> (\<Union>j \<in> {..<length S} - {k}. segs_cells a (S ! j))"
  using assms by (auto simp: fl_cells_def set_conv_nth nth_list_update split: if_splits)

lemma fl_cells_nth: "k < length S \<Longrightarrow> segs_cells a (S ! k) \<subseteq> fl_cells a S"
  unfolding fl_cells_def by (intro UN_upper nth_mem)

lemma fl_cells_split:
  assumes "k < length S"
  shows "fl_cells a S = segs_cells a (S ! k) \<union> (\<Union>j \<in> {..<length S} - {k}. segs_cells a (S ! j))"
  using fl_cells_update [OF assms, of a "S ! k"] by simp

lemma stored_empty_segments: "stored FreeSegmentsList [] (replicate 65536 0)"
proof -
  have "fsl_encode [] = replicate 2 0" by (simp add: fsl_encode_def as_u16_def le_bytes_0)
  moreover have "replicate (2 + 65534) 0 = replicate 2 0 @ replicate 65534 (0 :: byte)"
    by (rule replicate_add)
  moreover have "(2 :: nat) + 65534 = 65536" by simp
  ultimately have "replicate 65536 0 = fsl_encode [] @ replicate 65534 (0 :: byte)" by (simp only:)
  then show ?thesis unfolding stored_def FreeSegmentsList_def by auto
qed

context memory_access
begin

lemma first_table_spec:
  assumes m: "inv m" and tabs: "list_all2 (table_at a (pg m)) tps S"
  shows "\<exists>r. first_table MA cond tps m = (Ok r, m) \<and>
     (case r of
        None \<Rightarrow> \<forall>k < length tps. \<not> cond \<lparr>ft_max_records = 8191, ft_records = S ! k, ft_page = tps ! k\<rparr>
      | Some t \<Rightarrow> \<exists>k < length tps. t = \<lparr>ft_max_records = 8191, ft_records = S ! k, ft_page = tps ! k\<rparr> \<and> cond t)"
  using tabs
proof (induction rule: list_all2_induct)
  case Nil
  then show ?case by simp
next
  case (Cons tp tps rs S)
  let ?t = "\<lparr>ft_max_records = 8191, ft_records = rs, ft_page = tp\<rparr>"
  have l: "ft_load MA tp m = (Ok ?t, m)"
    using Cons(1) m by (intro ft_load_ok) (auto simp: table_at_def intro: table_at_wf)
  show ?case
  proof (cases "cond ?t")
    case True
    then show ?thesis using l by (auto intro!: exI [of _ 0])
  next
    case False
    obtain r where r: "first_table MA cond tps m = (Ok r, m)"
      "case r of
        None \<Rightarrow> \<forall>k < length tps. \<not> cond \<lparr>ft_max_records = 8191, ft_records = S ! k, ft_page = tps ! k\<rparr>
      | Some t \<Rightarrow> \<exists>k < length tps. t = \<lparr>ft_max_records = 8191, ft_records = S ! k, ft_page = tps ! k\<rparr> \<and> cond t"
      using Cons.IH by blast
    show ?thesis
    proof (cases r)
      case None
      then show ?thesis using r l False by (auto simp: nth_Cons less_Suc_eq_0_disj split: nat.splits)
    next
      case (Some t)
      then obtain k where "k < length tps" "t = \<lparr>ft_max_records = 8191, ft_records = S ! k, ft_page = tps ! k\<rparr>"
        "cond t" using r(2) by auto
      then show ?thesis using r l False Some by (auto intro!: exI [of _ "Suc k"])
    qed
  qed
qed

lemma find_in_tables_spec:
  assumes m: "inv m" and tabs: "list_all2 (table_at a (pg m)) tps S"
  shows "\<exists>r. find_in_tables MA pred tps m = (Ok r, m) \<and>
     (case r of
        None \<Rightarrow> \<forall>k < length tps. \<forall>s \<in> set (S ! k). \<not> pred s
      | Some tk \<Rightarrow> \<exists>k < length tps. tk_table tk = tps ! k \<and> tk_segment tk \<in> set (S ! k) \<and> pred (tk_segment tk))"
  using tabs
proof (induction rule: list_all2_induct)
  case Nil
  then show ?case by simp
next
  case (Cons tp tps rs S)
  have l: "ft_load MA tp m = (Ok \<lparr>ft_max_records = 8191, ft_records = rs, ft_page = tp\<rparr>, m)"
    using Cons(1) m by (intro ft_load_ok) (auto simp: table_at_def intro: table_at_wf)
  show ?case
  proof (cases "find pred rs")
    case (Some s)
    then have "s \<in> set rs \<and> pred s" by (auto simp: find_Some_iff)
    then show ?thesis using l Some by (auto simp: ft_find_def intro!: exI [of _ 0])
  next
    case None
    obtain r where r: "find_in_tables MA pred tps m = (Ok r, m)"
      "case r of
        None \<Rightarrow> \<forall>k < length tps. \<forall>s \<in> set (S ! k). \<not> pred s
      | Some tk \<Rightarrow> \<exists>k < length tps. tk_table tk = tps ! k \<and> tk_segment tk \<in> set (S ! k) \<and> pred (tk_segment tk)"
      using Cons.IH by blast
    have n: "\<forall>s \<in> set rs. \<not> pred s" using None by (auto simp: find_None_iff)
    show ?thesis
    proof (cases r)
      case None
      then show ?thesis using r l \<open>find pred rs = None\<close> n
        by (auto simp: ft_find_def nth_Cons less_Suc_eq_0_disj split: nat.splits)
    next
      case (Some tk)
      then obtain k where "k < length tps" "tk_table tk = tps ! k" "tk_segment tk \<in> set (S ! k)"
        "pred (tk_segment tk)" using r(2) by auto
      then show ?thesis using r l \<open>find pred rs = None\<close> Some
        by (auto simp: ft_find_def intro!: exI [of _ "Suc k"])
    qed
  qed
qed

lemma find_reusable_spec:
  assumes m: "inv m" and i: "fl_inv a (pg m) self S"
  shows "\<exists>r. find_reusable_segment_raw MA n self m = (Ok r, m) \<and>
     (case r of
        None \<Rightarrow> True
      | Some tk \<Rightarrow> \<exists>k < length S. tk_table tk = fl_tables self ! k \<and> tk_segment tk \<in> set (S ! k) \<and>
          n \<le> fs_size (tk_segment tk))"
proof -
  have "list_all2 (table_at a (pg m)) (fl_tables self) S" using i by (simp add: fl_inv_def)
  from find_in_tables_spec [OF m this, of "\<lambda>r. n \<le> fs_size r"] show ?thesis
    using fl_inv_length [OF i] by (force simp: find_reusable_segment_raw_def split: option.splits)
qed

lemma commit_reused_spec:
  assumes m: "inv m" and i: "fl_inv a (pg m) self S" and k: "k < length S"
    and tk: "tk_table tk = fl_tables self ! k" "tk_segment tk = s" "s \<in> set (S ! k)"
    and n: "0 < n" "a dvd n" "fs_offset s + n \<le> seg_end a s"
  obtains m' S' where "commit_reused_space_raw MA n tk (self, m) = (Ok (), (self, m'))" and "inv m'"
    and "same_except {fl_tables self ! k} (pg m) (pg m')" and "length (pg m') = length (pg m)"
    and "fl_inv a (pg m') self S'"
    and "fl_cells a S' = fl_cells a S - region (fs_page s) (fs_offset s) n"
proof -
  have len: "length S = length (fl_tables self)" using i by (rule fl_inv_length)
  have tabs: "list_all2 (table_at a (pg m)) (fl_tables self) S" using i by (simp add: fl_inv_def)
  then have tab: "table_at a (pg m) (fl_tables self ! k) (S ! k)" using k by (simp add: list_all2_conv_all_nth)
  let ?t = "\<lparr>ft_max_records = 8191, ft_records = S ! k, ft_page = fl_tables self ! k\<rparr>"
  obtain r where r: "first_table MA (\<lambda>t. ft_page t = tk_table tk) (fl_tables self) m = (Ok r, m)"
     "case r of
        None \<Rightarrow> \<forall>k < length (fl_tables self).
          ft_page \<lparr>ft_max_records = 8191, ft_records = S ! k, ft_page = fl_tables self ! k\<rparr> \<noteq> tk_table tk
      | Some t \<Rightarrow> \<exists>j < length (fl_tables self).
          t = \<lparr>ft_max_records = 8191, ft_records = S ! j, ft_page = fl_tables self ! j\<rparr> \<and> ft_page t = tk_table tk"
    using first_table_spec [OF m tabs, of "\<lambda>t. ft_page t = tk_table tk"] by blast
  have "r = Some ?t"
  proof (cases r)
    case None
    then show ?thesis using r(2) k len tk(1) by auto
  next
    case (Some t)
    then obtain j where j: "j < length (fl_tables self)" "fl_tables self ! j = fl_tables self ! k"
      "t = \<lparr>ft_max_records = 8191, ft_records = S ! j, ft_page = fl_tables self ! j\<rparr>"
      using r(2) tk(1) by auto
    then have "j = k" using i k len by (auto simp: fl_inv_def nth_eq_iff_index_eq)
    then show ?thesis using j Some by simp
  qed
  have ok: "ft_ok a ?t" using tab by (simp add: ft_ok_def table_at_def)
  obtain t' m' c where rm: "ft_remove MA s n (?t, m) = (Ok (), (t', m'))" "inv m'"
    "pg m' = (pg m)[fl_tables self ! k := c]" "stored FreeSegmentsList (ft_records t') c"
    "ft_ok a t'" "ft_page t' = fl_tables self ! k"
    "segs_cells a (ft_records t') = segs_cells a (S ! k) - region (fs_page s) (fs_offset s) n"
    using ft_remove_ok [OF m ok _ _ n] tk(3) tab by (auto simp: table_at_def)
  have dj: "segs_cells a (S ! k) \<inter> segs_cells a (S ! j) = {}" if "j < length S" "j \<noteq> k" for j
    using i that k by (auto simp: fl_inv_def)
  have fi: "fl_inv a (pg m') self (S[k := ft_records t'])"
    unfolding rm(3) using rm dj by (intro fl_inv_update [OF i k refl]) (auto simp: ft_ok_def)
  have "s \<in> set (S ! k)" by fact
  then have "region (fs_page s) (fs_offset s) n \<subseteq> segs_cells a (S ! k)"
    using n by (auto simp: region_def segs_cells_def mem_seg_cells intro!: bexI [of _ s])
  then have "fl_cells a (S[k := ft_records t']) = fl_cells a S - region (fs_page s) (fs_offset s) n"
    using dj rm(7) unfolding fl_cells_update [OF k] fl_cells_split [OF k] by blast
  moreover have "commit_reused_space_raw MA n tk (self, m) = (Ok (), (self, m'))"
    using r \<open>r = Some ?t\<close> rm(1) tk(2) by (simp add: commit_reused_space_raw_def)
  ultimately show thesis using rm fi by (intro that [of m' "S[k := ft_records t']"]) auto
qed

text \<open>
  Recording a freed region. The ledger succeeds with a memory in which exactly that region has become
  free, or reports that no page could be claimed for another table.
\<close>

lemma insert_into_table:
  assumes a: "2 \<le> a" and m: "inv m" and i: "fl_inv a (pg m) self S" and k: "k < length S"
    and nf: "length (S ! k) < 8191"
    and s: "s = \<lparr>fs_page = page, fs_offset = off, fs_size = sz\<rparr>" "seg_ok a s"
    and dis: "seg_cells a s \<inter> fl_cells a S = {}"
  obtains t' m' S' where
      "ft_insert MA page off sz \<lparr>ft_max_records = 8191, ft_records = S ! k, ft_page = fl_tables self ! k\<rparr> m
        = (Ok (), (t', m'))"
    and "inv m'" and "same_except (fl_pages self) (pg m) (pg m')" and "length (pg m') = length (pg m)"
    and "fl_inv a (pg m') self S'" and "fl_cells a S' = fl_cells a S \<union> seg_cells a s"
    and "\<And>q. q \<notin> fl_pages self \<Longrightarrow> pg m' ! q = pg m ! q"
proof -
  have len: "length S = length (fl_tables self)" using i by (rule fl_inv_length)
  have tab: "table_at a (pg m) (fl_tables self ! k) (S ! k)"
    using i k by (simp add: fl_inv_def list_all2_conv_all_nth)
  let ?t = "\<lparr>ft_max_records = 8191, ft_records = S ! k, ft_page = fl_tables self ! k\<rparr>"
  have ok: "ft_ok a ?t" using tab by (simp add: ft_ok_def table_at_def)
  have "segs_cells a (S ! k) \<subseteq> fl_cells a S" using k by (rule fl_cells_nth)
  then have "seg_cells a s \<inter> segs_cells a (ft_records ?t) = {}" using dis by auto
  then obtain t' m' c where ins: "ft_insert MA page off sz ?t m = (Ok (), (t', m'))" "inv m'"
    "pg m' = (pg m)[fl_tables self ! k := c]" "stored FreeSegmentsList (ft_records t') c" "ft_ok a t'"
    "segs_cells a (ft_records t') = segs_cells a (S ! k) \<union> seg_cells a s"
    using ft_insert_ok [OF a m ok, of page off sz] tab s nf by (auto simp: table_at_def)
  have dj: "segs_cells a (ft_records t') \<inter> segs_cells a (S ! j) = {}" if "j < length S" "j \<noteq> k" for j
  proof -
    have "segs_cells a (S ! j) \<subseteq> fl_cells a S" using that(1) by (rule fl_cells_nth)
    moreover have "segs_cells a (S ! k) \<inter> segs_cells a (S ! j) = {}"
      using i that k unfolding fl_inv_def by metis
    ultimately show ?thesis using dis ins(6) by auto
  qed
  have fi: "fl_inv a (pg m') self (S[k := ft_records t'])"
    unfolding ins(3) using ins dj by (intro fl_inv_update [OF i k refl]) (auto simp: ft_ok_def)
  have cells: "fl_cells a (S[k := ft_records t']) = fl_cells a S \<union> seg_cells a s"
    unfolding fl_cells_update [OF k] fl_cells_split [OF k] ins(6) by blast
  have "fl_tables self ! k \<in> fl_pages self" using k len by (simp add: fl_pages_def)
  then show thesis
    using that [OF ins(1,2) _ _ fi cells] by (auto simp: ins(3)) (metis nth_list_update_neq)
qed

lemma create_new_page_spec:
  assumes m: "inv m" and pool: "pool_inv (pg m) U" and i: "fl_inv a (pg m) self S"
    and sub: "fl_pages self \<subseteq> U" and len: "length (fl_tables self) < 16383"
    and run: "create_new_page MA (self, m) = (r, (self', m'))"
  shows "inv m' \<and> same_except (insert 1 (fl_pages self)) (pg m) (pg m') \<and>
    (case r of
       Ok p \<Rightarrow> p \<notin> U \<and> fl_page self' = fl_page self \<and> fl_tables self' = fl_tables self @ [p] \<and>
         pool_inv (pg m') (insert p U) \<and> fl_inv a (pg m') self' (S @ [[]])
     | Err e \<Rightarrow> self' = self \<and> pool_inv (pg m') U \<and> fl_inv a (pg m') self S
     | Panic \<Rightarrow> False)"
proof -
  obtain rc mc where c: "claim_page MA m = (rc, mc)" by (cases "claim_page MA m")
  note fresh = claim_fresh [OF m pool c]
  note frame = claim_frame [OF m pool c]
  show ?thesis
  proof (cases rc)
    case (Ok p)
    then have f: "inv mc" "p \<notin> U" "2 \<le> p" "p < length (pg mc)" "pool_inv (pg mc) (insert p U)"
      "pg mc ! p = replicate 65536 0" using fresh by auto
    have U1: "1 \<notin> U" using pool by (auto simp: pool_inv_def)
    let ?tabs = "fl_tables self @ [p]" and ?self = "self\<lparr>fl_tables := fl_tables self @ [p]\<rparr>"
    have ic: "fl_inv a (pg mc) self S"
      using i frame by (rule fl_inv_frame) (use sub U1 in auto)
    have wf: "pgt_wf ?tabs"
      using ic len page_count [OF f(1)] f(4) by (auto simp: fl_inv_def pgt_wf_def)
    have lp: "fl_page self < length (pg mc)" using ic by (simp add: fl_inv_def)
    obtain m2 c2 where w: "write_at MA PagesTable (fl_page self) 0 ?tabs mc = (Ok (), m2)" "inv m2"
      "pg m2 = (pg mc)[fl_page self := c2]" "stored PagesTable ?tabs c2"
      using ledger_store [OF pages_table_codec.prefix_encoding_axioms wf _ f(1) lp]
      by (auto simp: PagesTable_def DEFAULT_ALIGNMENT_def)
    have eq: "r = Ok p" "self' = ?self" "m' = m2"
      using run c Ok w by (auto simp: create_new_page_def fl_commit_def)
    have np: "p \<notin> fl_pages self" using f(2) sub by auto
    have "table_at a (pg m2) q rs" if "table_at a (pg mc) q rs" "q \<noteq> fl_page self" for q rs
      using that by (auto simp: table_at_def w(3))
    moreover have "fl_page self \<notin> set (fl_tables self)" using ic by (auto simp: fl_inv_def)
    ultimately have "list_all2 (table_at a (pg m2)) (fl_tables self) S"
      using ic by (auto simp: fl_inv_def list_all2_conv_all_nth) (metis nth_mem)
    moreover have "table_at a (pg m2) p []"
      using np f(4,6) stored_empty_segments by (auto simp: table_at_def w(3) fl_pages_def segs_ok_def)
    ultimately have fi: "fl_inv a (pg m') self' (S @ [[]])"
      using ic wf w np eq fl_inv_length [OF ic]
      by (auto simp: fl_inv_def list_all2_append fl_pages_def nth_append segs_cells_def less_Suc_eq)
    have "fl_page self \<in> U" "fl_page self \<noteq> p" using sub np by (auto simp: fl_pages_def)
    then have "pool_inv (pg m') (insert p U)"
      using f(5) eq w(3) by (simp add: pool_inv_update)
    moreover have "same_except (insert 1 (fl_pages self)) (pg m) (pg m')"
      using frame eq w(3) by (intro same_except_trans [OF frame, of "fl_pages self"]) (auto simp: fl_pages_def)
    ultimately show ?thesis using eq f w fi by simp
  next
    case (Err e)
    then have "r = Err e" "self' = self" "m' = mc" using run c by (auto simp: create_new_page_def)
    moreover have "fl_inv a (pg mc) self S"
      using i frame by (rule fl_inv_frame) (use sub pool in \<open>auto simp: pool_inv_def\<close>)
    ultimately show ?thesis using fresh Err frame by (auto intro: same_except_mono)
  next
    case Panic
    then show ?thesis using fresh by simp
  qed
qed

lemma insert_free_segment_spec:
  assumes a: "2 \<le> a" and m: "inv m" and pool: "pool_inv (pg m) U" and i: "fl_inv a (pg m) self S"
    and sub: "fl_pages self \<subseteq> U" and len: "length (fl_tables self) < 16383"
    and s: "s = \<lparr>fs_page = page, fs_offset = off, fs_size = sz\<rparr>" "seg_ok a s"
    and dis: "seg_cells a s \<inter> fl_cells a S = {}"
    and run: "insert_free_segment_raw MA page off sz (self, m) = (r, (self', m'))"
  shows "inv m' \<and> same_except (- (U - fl_pages self)) (pg m) (pg m') \<and>
    (case r of
       Ok _ \<Rightarrow> fl_page self' = fl_page self \<and> fl_pages self \<subseteq> fl_pages self' \<and>
         fl_pages self' \<inter> U \<subseteq> fl_pages self \<and> pool_inv (pg m') (U \<union> fl_pages self') \<and>
         (\<exists>S'. fl_inv a (pg m') self' S' \<and> fl_cells a S' = fl_cells a S \<union> seg_cells a s)
     | Err e \<Rightarrow> self' = self \<and> pool_inv (pg m') U \<and> fl_inv a (pg m') self S
     | Panic \<Rightarrow> False)"
proof -
  have U1: "1 \<notin> U" using pool by (auto simp: pool_inv_def)
  have ls: "length S = length (fl_tables self)" using i by (rule fl_inv_length)
  have tabs: "list_all2 (table_at a (pg m)) (fl_tables self) S" using i by (simp add: fl_inv_def)
  obtain f where f: "first_table MA (\<lambda>t. \<not> ft_is_full t) (fl_tables self) m = (Ok f, m)"
     "case f of None \<Rightarrow> True
      | Some t \<Rightarrow> \<exists>k < length (fl_tables self).
          t = \<lparr>ft_max_records = 8191, ft_records = S ! k, ft_page = fl_tables self ! k\<rparr> \<and> \<not> ft_is_full t"
    using first_table_spec [OF m tabs, of "\<lambda>t. \<not> ft_is_full t"] by (fastforce split: option.splits)
  show ?thesis
  proof (cases f)
    case (Some t)
    then obtain k where k: "k < length S" "length (S ! k) < 8191"
      "t = \<lparr>ft_max_records = 8191, ft_records = S ! k, ft_page = fl_tables self ! k\<rparr>"
      using f(2) ls by (auto simp: ft_is_full_def)
    obtain t' m1 S' where ins: "ft_insert MA page off sz t m = (Ok (), (t', m1))" "inv m1"
      "same_except (fl_pages self) (pg m) (pg m1)" "length (pg m1) = length (pg m)"
      "fl_inv a (pg m1) self S'" "fl_cells a S' = fl_cells a S \<union> seg_cells a s"
      "\<And>q. q \<notin> fl_pages self \<Longrightarrow> pg m1 ! q = pg m ! q"
      unfolding k(3) using insert_into_table [OF a m i k(1,2) s dis] by blast
    have eq: "r = Ok ()" "self' = self" "m' = m1"
      using run f(1) Some ins(1) by (auto simp: insert_free_segment_raw_def)
    have "pool_inv (pg m1) U" using pool_inv_owned [OF pool ins(3,4) sub] .
    moreover have "U \<union> fl_pages self = U" using sub by blast
    moreover have "same_except (- (U - fl_pages self)) (pg m) (pg m1)"
      using ins(3) by (rule same_except_mono) auto
    ultimately show ?thesis using eq ins by auto
  next
    case None
    obtain rc self1 m1 where c: "create_new_page MA (self, m) = (rc, (self1, m1))"
      by (metis prod.exhaust)
    note cn = create_new_page_spec [OF m pool i sub len c]
    show ?thesis
    proof (cases rc)
      case (Ok p)
      then have cp: "inv m1" "same_except (insert 1 (fl_pages self)) (pg m) (pg m1)" "p \<notin> U"
        "fl_page self1 = fl_page self" "fl_tables self1 = fl_tables self @ [p]"
        "pool_inv (pg m1) (insert p U)" "fl_inv a (pg m1) self1 (S @ [[]])"
        using cn by auto
      let ?k = "length S" and ?S = "S @ [[]]"
      let ?t = "\<lparr>ft_max_records = 8191, ft_records = ?S ! ?k, ft_page = fl_tables self1 ! ?k\<rparr>"
      have tp: "fl_tables self1 ! ?k = p" using cp(5) ls by simp
      have "table_at a (pg m1) p []"
        using cp(5,7) ls by (auto simp: fl_inv_def list_all2_append)
      then have ld: "ft_load MA p m1 = (Ok ?t, m1)"
        using ft_load_ok [OF cp(1), of p "[]"] tp by (simp add: table_at_def fsl_wf_def)
      have dis1: "seg_cells a s \<inter> fl_cells a ?S = {}" using dis by (simp add: fl_cells_def segs_cells_def)
      obtain t' m2 S' where ins: "ft_insert MA page off sz ?t m1 = (Ok (), (t', m2))" "inv m2"
        "same_except (fl_pages self1) (pg m1) (pg m2)" "length (pg m2) = length (pg m1)"
        "fl_inv a (pg m2) self1 S'" "fl_cells a S' = fl_cells a ?S \<union> seg_cells a s"
        "\<And>q. q \<notin> fl_pages self1 \<Longrightarrow> pg m2 ! q = pg m1 ! q"
        using insert_into_table [OF a cp(1,7) _ _ s dis1, of ?k] by auto
      have eq: "r = Ok ()" "self' = self1" "m' = m2"
        using run f(1) None c Ok ld ins(1) by (auto simp: insert_free_segment_raw_def)
      have pgs1: "fl_pages self1 = insert p (fl_pages self)"
        using cp(4,5) by (auto simp: fl_pages_def)
      have u: "U \<union> fl_pages self1 = insert p U" using pgs1 sub by blast
      have "pool_inv (pg m2) (insert p U)"
        using pool_inv_owned [OF cp(6) ins(3,4)] pgs1 sub by blast
      moreover have "same_except (- (U - fl_pages self)) (pg m) (pg m2)"
        using same_except_trans [OF cp(2) ins(3), of "- (U - fl_pages self)"] pgs1 U1 cp(3) by auto
      moreover have "fl_cells a S' = fl_cells a S \<union> seg_cells a s"
        using ins(6) by (simp add: fl_cells_def segs_cells_def)
      ultimately show ?thesis using eq ins cp pgs1 u by auto
    next
      case (Err e)
      then have eq: "r = Err e" "self' = self1" "m' = m1"
        using run f(1) None c by (auto simp: insert_free_segment_raw_def)
      have "same_except (- (U - fl_pages self)) (pg m) (pg m1)"
        by (rule same_except_mono [of "insert 1 (fl_pages self)"]) (use cn U1 in auto)
      then show ?thesis using cn eq Err by auto
    next
      case Panic
      then show ?thesis using cn by simp
    qed
  qed
qed

lemma fl_load_ok:
  assumes m: "inv m" and p: "p < length (pg m)" and wf: "pgt_wf t" and st: "stored PagesTable t (pg m ! p)"
  shows "fl_load MA p m = (Ok \<lparr>fl_page = p, fl_tables = t\<rparr>, m)"
proof -
  obtain rest where c: "pg m ! p = pgt_encode t @ rest"
    using st by (auto simp: stored_def PagesTable_def)
  have "read_sized MA PagesTable p pgt_encoded_len m = (Ok t, m)"
    using read_sized_ok [OF m p pgt_len_header [OF wf c page_len [OF m p]], of PagesTable]
      stored_take [OF pages_table_codec.prefix_encoding_axioms wf st] by (simp add: PagesTable_def)
  then show ?thesis by (simp add: fl_load_def)
qed

end

end
