(* ===== verification/Records.thy ===== *)
theory Records
  imports Sized_Read
begin

text \<open>
  Records as they lie on a page: \<^verbatim>\<open>raw_record.rs\<close> (a two-byte length header in front of the encoded
  record) and \<^verbatim>\<open>record_address.rs\<close> (page and offset of a record, the pointer stored in indexes).
\<close>

section \<open>RawRecord\<close>

definition RAW_RECORD_HEADER_SIZE :: nat where "RAW_RECORD_HEADER_SIZE = 2"

record 'e raw_record =
  rr_length :: nat
  rr_data :: 'e

definition new_raw_record :: "'e codec \<Rightarrow> 'e \<Rightarrow> 'e raw_record" where
  "new_raw_record E d = \<lparr>rr_length = enc_size E d, rr_data = d\<rparr>"

definition rr_SIZE :: "'e codec \<Rightarrow> data_size" where
  "rr_SIZE E = (case SIZE E of Fixed n \<Rightarrow> Fixed (RAW_RECORD_HEADER_SIZE + n) | Dynamic \<Rightarrow> Dynamic)"

definition rr_ALIGNMENT :: "'e codec \<Rightarrow> nat" where
  "rr_ALIGNMENT E = (case SIZE E of Fixed n \<Rightarrow> n + RAW_RECORD_HEADER_SIZE | Dynamic \<Rightarrow> ALIGNMENT E)"

definition rr_encode :: "'e codec \<Rightarrow> 'e raw_record \<Rightarrow> byte list" where
  "rr_encode E r = le_bytes 2 (rr_length r) @ encode E (rr_data r)"

definition rr_decode :: "'e codec \<Rightarrow> byte list \<Rightarrow> 'e raw_record memory_result" where
  "rr_decode E data =
     (if length data < 2 then Err (DecodeError TooShort)
      else let len = from_le (slice 0 2 data) in
        if length data < RAW_RECORD_HEADER_SIZE + len then Err (DecodeError TooShort)
        else bind_outcome (decode E (slice RAW_RECORD_HEADER_SIZE len data)) (\<lambda>d.
               Ok \<lparr>rr_length = len, rr_data = d\<rparr>))"

definition rr_size :: "'e raw_record \<Rightarrow> nat" where
  "rr_size r = sat_add16 RAW_RECORD_HEADER_SIZE (rr_length r)"

definition RawRecord :: "'e codec \<Rightarrow> 'e raw_record codec" where
  "RawRecord E = \<lparr>SIZE = rr_SIZE E, ALIGNMENT = rr_ALIGNMENT E, encode = rr_encode E,
     decode = rr_decode E, enc_size = rr_size\<rparr>"

text \<open>The records \<^verbatim>\<open>TableRegistry\<close> stores: built by \<^verbatim>\<open>RawRecord::new\<close>, header included below 65536 bytes.\<close>

definition rr_valid :: "'e codec \<Rightarrow> ('e \<Rightarrow> bool) \<Rightarrow> 'e raw_record \<Rightarrow> bool" where
  "rr_valid E V r \<longleftrightarrow> V (rr_data r) \<and> rr_length r = enc_size E (rr_data r) \<and> enc_size E (rr_data r) \<le> 65533"

lemmas raw_record_simps = RawRecord_def rr_SIZE_def rr_ALIGNMENT_def rr_size_def RAW_RECORD_HEADER_SIZE_def

context encoding
begin

lemma length_rr_encode: "rr_valid C valid r \<Longrightarrow> length (rr_encode C r) = 2 + length (encode C (rr_data r))"
  by (simp add: rr_encode_def)

lemma rr_decode_encode:
  assumes "rr_valid C valid r"
  shows "rr_decode C (rr_encode C r @ rest) = Ok r"
proof -
  have v: "valid (rr_data r)" "rr_length r = length (encode C (rr_data r))"
    "length (encode C (rr_data r)) \<le> 65533"
    using assms size_encode by (auto simp: rr_valid_def)
  have "slice 0 2 (rr_encode C r @ rest) = le_bytes 2 (rr_length r)"
    by (simp add: rr_encode_def slice_def)
  moreover have "slice 2 (rr_length r) (rr_encode C r @ rest) = encode C (rr_data r)"
    using v(2) by (simp add: rr_encode_def slice_def)
  moreover have "from_le (le_bytes 2 (rr_length r)) = rr_length r"
    using v by (intro from_le_le_bytes) simp
  ultimately show ?thesis
    using v decode_encode [OF v(1)]
    by (simp add: rr_decode_def Let_def RAW_RECORD_HEADER_SIZE_def length_rr_encode [OF assms])
qed

text \<open>A raw record can be read back whatever follows it, even if the record's own encoding cannot.\<close>

lemma raw_record_prefix: "prefix_encoding (RawRecord C) (rr_valid C valid)"
proof (unfold_locales, goal_cases)
  case 1
  show ?case using alignment_pos by (auto simp: raw_record_simps split: data_size.splits)
next
  case (2 r)
  then show ?case
    using size_encode [of "rr_data r"] length_rr_encode [OF 2]
    by (auto simp: raw_record_simps rr_valid_def sat_add16_eq)
next
  case (3 r)
  then show ?case
    using size_encode [of "rr_data r"] length_rr_encode [OF 3] by (auto simp: RawRecord_def rr_valid_def)
next
  case (4 r n)
  then show ?case
    using fixed_size [of "rr_data r"] length_rr_encode [OF 4(1)]
    by (auto simp: raw_record_simps rr_valid_def split: data_size.splits)
next
  case (5 r)
  then show ?case using rr_decode_encode [of r "[]"] by (simp add: RawRecord_def)
next
  case (6 r rest)
  then show ?case using rr_decode_encode [of r rest] by (simp add: RawRecord_def)
qed

end

section \<open>RecordAddress\<close>

definition RECORD_POINTER_SIZE :: nat where "RECORD_POINTER_SIZE = 6"

record record_address =
  ra_page :: nat
  ra_offset :: nat

definition ra_cmp :: "record_address \<Rightarrow> record_address \<Rightarrow> int" where
  "ra_cmp x y =
     (let by_page = sgn (int (ra_page x) - int (ra_page y)) in
      if by_page \<noteq> 0 then by_page else sgn (int (ra_offset x) - int (ra_offset y)))"

definition ra_encode :: "record_address \<Rightarrow> byte list" where
  "ra_encode x = le_bytes 4 (ra_page x) @ le_bytes 2 (ra_offset x)"

definition ra_decode :: "byte list \<Rightarrow> record_address memory_result" where
  "ra_decode data =
     (if length data < RECORD_POINTER_SIZE then Err (DecodeError TooShort)
      else Ok \<lparr>ra_page = from_le (slice 0 4 data), ra_offset = from_le (slice 4 2 data)\<rparr>)"

definition RecordAddress :: "record_address codec" where
  "RecordAddress = \<lparr>SIZE = Fixed RECORD_POINTER_SIZE, ALIGNMENT = RECORD_POINTER_SIZE,
     encode = ra_encode, decode = ra_decode, enc_size = (\<lambda>_. RECORD_POINTER_SIZE)\<rparr>"

definition ra_wf :: "record_address \<Rightarrow> bool" where
  "ra_wf x \<longleftrightarrow> ra_page x < 2 ^ 32 \<and> ra_offset x < 2 ^ 16"

lemma ra_decode_encode: "ra_wf x \<Longrightarrow> ra_decode (ra_encode x @ rest) = Ok x"
  by (simp add: ra_decode_def ra_encode_def ra_wf_def RECORD_POINTER_SIZE_def slice_def)

interpretation record_address_codec: prefix_encoding RecordAddress ra_wf
  by unfold_locales (auto simp: RecordAddress_def RECORD_POINTER_SIZE_def ra_encode_def
      ra_decode_encode [of _ "[]", unfolded append_Nil2, unfolded ra_encode_def]
      ra_decode_encode [unfolded ra_encode_def append_assoc])

lemma ra_cmp_less: "ra_cmp x y < 0 \<longleftrightarrow> ra_page x < ra_page y \<or> ra_page x = ra_page y \<and> ra_offset x < ra_offset y"
  by (auto simp: ra_cmp_def Let_def sgn_if)

lemma ra_cmp_eq: "ra_cmp x y = 0 \<longleftrightarrow> x = y"
  by (auto simp: ra_cmp_def Let_def sgn_if)

end
