(* ===== verification/Table_Layout.thy ===== *)
theory Table_Layout
  imports Free_Space Records
begin

text \<open>
  The abstract picture of a table's record pages: a map from addresses to the raw records that live
  there. \<open>layout\<close> says how the pages realise it: every record lies at an aligned offset inside the
  filled part of its page, records do not overlap, free cells belong to no record, and every cell that
  belongs to no record is zero, which is what lets a scan find the records again.
\<close>

type_synonym live_map = "nat \<times> nat \<rightharpoonup> byte list"

text \<open>A raw record: a non-empty body behind a header that holds its length, padded to fit an \<^verbatim>\<open>MSize\<close>.\<close>

definition raw_bytes :: "nat \<Rightarrow> byte list \<Rightarrow> bool" where
  "raw_bytes a bs \<longleftrightarrow> 2 < length bs \<and> align_up a (length bs) \<le> 65535 \<and> take 2 bs = le_bytes 2 (length bs - 2)"

definition live_cells :: "nat \<Rightarrow> live_map \<Rightarrow> (nat \<times> nat) set" where
  "live_cells a live = {(p, i). \<exists>off bs. live (p, off) = Some bs \<and> off \<le> i \<and> i < off + align_up a (length bs)}"

definition layout :: "nat \<Rightarrow> (nat \<rightharpoonup> nat) \<Rightarrow> byte list list \<Rightarrow> live_map \<Rightarrow> (nat \<times> nat) set \<Rightarrow> bool" where
  "layout a taken pgs live free \<longleftrightarrow>
     (\<forall>p \<in> dom taken. p < length pgs \<and> length (pgs ! p) = 65536 \<and> the (taken p) \<le> 65536) \<and>
     (\<forall>p off bs. live (p, off) = Some bs \<longrightarrow> raw_bytes a bs \<and> a dvd off \<and>
        (\<exists>t. taken p = Some t \<and> off + align_up a (length bs) \<le> t) \<and>
        slice off (align_up a (length bs)) (pgs ! p) = padded a bs) \<and>
     (\<forall>p off bs off' bs'. live (p, off) = Some bs \<longrightarrow> live (p, off') = Some bs' \<longrightarrow> off < off' \<longrightarrow>
        off + align_up a (length bs) \<le> off') \<and>
     free \<inter> live_cells a live = {} \<and>
     free \<subseteq> {(p, i). \<exists>t. taken p = Some t \<and> i < t} \<and>
     (\<forall>p \<in> dom taken. \<forall>i < 65536. (p, i) \<notin> live_cells a live \<longrightarrow> pgs ! p ! i = 0)"

lemma layout_page:
  "layout a taken pgs live free \<Longrightarrow> taken p = Some t \<Longrightarrow>
     p < length pgs \<and> length (pgs ! p) = 65536 \<and> t \<le> 65536"
  unfolding layout_def by (metis domI option.sel)

lemma layout_live:
  assumes "layout a taken pgs live free" and "live (p, off) = Some bs"
  obtains t where "raw_bytes a bs" and "a dvd off" and "taken p = Some t"
    and "off + align_up a (length bs) \<le> t"
    and "slice off (align_up a (length bs)) (pgs ! p) = padded a bs"
  using assms unfolding layout_def by metis

lemma layout_order:
  "layout a taken pgs live free \<Longrightarrow> live (p, off) = Some bs \<Longrightarrow> live (p, off') = Some bs' \<Longrightarrow> off < off' \<Longrightarrow>
     off + align_up a (length bs) \<le> off'"
  unfolding layout_def by blast

lemma layout_free_live: "layout a taken pgs live free \<Longrightarrow> free \<inter> live_cells a live = {}"
  unfolding layout_def by blast

lemma layout_free_taken:
  "layout a taken pgs live free \<Longrightarrow> (p, i) \<in> free \<Longrightarrow> \<exists>t. taken p = Some t \<and> i < t"
  unfolding layout_def by blast

lemma layout_zero:
  "layout a taken pgs live free \<Longrightarrow> taken p = Some t \<Longrightarrow> i < 65536 \<Longrightarrow> (p, i) \<notin> live_cells a live \<Longrightarrow>
     pgs ! p ! i = 0"
  unfolding layout_def by blast

lemma layoutI:
  assumes "\<And>p t. taken p = Some t \<Longrightarrow> p < length pgs \<and> length (pgs ! p) = 65536 \<and> t \<le> 65536"
    and "\<And>p off bs. live (p, off) = Some bs \<Longrightarrow> raw_bytes a bs \<and> a dvd off \<and>
       (\<exists>t. taken p = Some t \<and> off + align_up a (length bs) \<le> t) \<and>
       slice off (align_up a (length bs)) (pgs ! p) = padded a bs"
    and "\<And>p off bs off' bs'. live (p, off) = Some bs \<Longrightarrow> live (p, off') = Some bs' \<Longrightarrow> off < off' \<Longrightarrow>
       off + align_up a (length bs) \<le> off'"
    and "free \<inter> live_cells a live = {}"
    and "\<And>p i. (p, i) \<in> free \<Longrightarrow> \<exists>t. taken p = Some t \<and> i < t"
    and "\<And>p t i. taken p = Some t \<Longrightarrow> i < 65536 \<Longrightarrow> (p, i) \<notin> live_cells a live \<Longrightarrow> pgs ! p ! i = 0"
  shows "layout a taken pgs live free"
  unfolding layout_def using assms by (auto simp: dom_def)

text \<open>Pages of the table that do not change keep the layout.\<close>

lemma layout_frame:
  assumes l: "layout a taken pgs live free" and "same_except X pgs pgs'" and "X \<inter> dom taken = {}"
  shows "layout a taken pgs' live free"
proof -
  have same: "pgs' ! p = pgs ! p \<and> p < length pgs'" if "taken p = Some t" for p t
    using layout_page [OF l that] assms(2,3) that by (auto simp: same_except_def)
  show ?thesis
  proof (rule layoutI)
    fix p off bs assume "live (p, off) = Some bs"
    then show "raw_bytes a bs \<and> a dvd off \<and> (\<exists>t. taken p = Some t \<and> off + align_up a (length bs) \<le> t) \<and>
       slice off (align_up a (length bs)) (pgs' ! p) = padded a bs"
      using same by (elim layout_live [OF l]) auto
  next
    fix p t assume "taken p = Some t"
    then show "p < length pgs' \<and> length (pgs' ! p) = 65536 \<and> t \<le> 65536"
      using layout_page [OF l] same by auto
  next
    fix p t i assume "taken p = Some t" "i < 65536" "(p, i) \<notin> live_cells a live"
    then show "pgs' ! p ! i = 0" using layout_zero [OF l] same by auto
  qed (use layout_order [OF l] layout_free_live [OF l] layout_free_taken [OF l] in blast)+
qed

text \<open>A page claimed for the table adds nothing but zeros.\<close>

lemma layout_add_page:
  assumes l: "layout a taken pgs live free" and p: "taken p = None" "p < length pgs" "pgs ! p = replicate 65536 0"
  shows "layout a (taken(p \<mapsto> 0)) pgs live free"
proof (rule layoutI)
  fix q t assume "(taken(p \<mapsto> 0)) q = Some t"
  then show "q < length pgs \<and> length (pgs ! q) = 65536 \<and> t \<le> 65536"
    using layout_page [OF l] p by (auto split: if_splits)
next
  fix q off bs assume "live (q, off) = Some bs"
  then show "raw_bytes a bs \<and> a dvd off \<and> (\<exists>t. (taken(p \<mapsto> 0)) q = Some t \<and> off + align_up a (length bs) \<le> t) \<and>
      slice off (align_up a (length bs)) (pgs ! q) = padded a bs"
    using p(1) by (elim layout_live [OF l]) auto
next
  fix q i assume "(q, i) \<in> free"
  then show "\<exists>t. (taken(p \<mapsto> 0)) q = Some t \<and> i < t"
    using layout_free_taken [OF l] p(1) by fastforce
next
  fix q t i assume "(taken(p \<mapsto> 0)) q = Some t" "i < 65536" "(q, i) \<notin> live_cells a live"
  then show "pgs ! q ! i = 0" using layout_zero [OF l] p by (auto split: if_splits)
qed (use layout_order [OF l] layout_free_live [OF l] in blast)+

section \<open>Writing and erasing a record\<close>

lemma raw_bytes_align_pos: "raw_bytes a bs \<Longrightarrow> 0 < a \<Longrightarrow> 0 < align_up a (length bs)"
  using align_up_ge [of a "length bs"] by (auto simp: raw_bytes_def)

lemma length_padded_bytes: "0 < a \<Longrightarrow> length (padded a bs) = align_up a (length bs)"
  by (simp add: padded_def align_up_ge)

lemma live_cells_upd:
  "live (p, off) = None \<Longrightarrow>
     live_cells a (live((p, off) \<mapsto> bs)) = live_cells a live \<union> region p off (align_up a (length bs))"
  by (auto simp: live_cells_def region_def split: if_splits)

lemma live_cells_mem:
  "live (p, off) = Some bs \<Longrightarrow> off \<le> i \<Longrightarrow> i < off + align_up a (length bs) \<Longrightarrow> (p, i) \<in> live_cells a live"
  by (auto simp: live_cells_def)

lemma layout_write:
  assumes l: "layout a taken pgs live free" and a: "0 < a" and bs: "raw_bytes a bs" and n: "n = align_up a (length bs)"
    and t: "taken p = Some t0" "t0 \<le> t" "t \<le> 65536" and off: "a dvd off" "off + n \<le> t"
    and dis: "region p off n \<inter> live_cells a live = {}"
    and free: "free' \<subseteq> free" "free' \<inter> region p off n = {}"
  shows "layout a (taken(p \<mapsto> t)) (pgs[p := splice_at off (padded a bs) (pgs ! p)]) (live((p, off) \<mapsto> bs)) free'"
    and "live (p, off) = None"
proof -
  note pp = layout_page [OF l t(1)]
  have npos: "0 < n" using raw_bytes_align_pos [OF bs a] n by simp
  have lp: "length (padded a bs) = n" using a n by (simp add: length_padded_bytes)
  have nm: "(p, i) \<notin> live_cells a live" if "off \<le> i" "i < off + n" for i
  proof -
    have "(p, i) \<in> region p off n" using that by (simp add: region_def)
    then show ?thesis using dis by blast
  qed
  show none: "live (p, off) = None"
  proof (rule ccontr)
    assume "live (p, off) \<noteq> None"
    then obtain cs where cs: "live (p, off) = Some cs" by auto
    then have "raw_bytes a cs" by (elim layout_live [OF l])
    then have "(p, off) \<in> live_cells a live" using cs raw_bytes_align_pos [of a cs] a by (intro live_cells_mem [of live p off cs]) auto
    then show False using nm [of off] npos by simp
  qed
  have apart: "o' + align_up a (length cs) \<le> off \<or> off + n \<le> o'" if "live (p, o') = Some cs" for o' cs
  proof (rule ccontr)
    assume "\<not> ?thesis"
    then have h: "off < o' + align_up a (length cs)" "o' < off + n" by auto
    have "raw_bytes a cs" using that by (elim layout_live [OF l])
    then have "0 < align_up a (length cs)" using a by (rule raw_bytes_align_pos)
    then have "(p, max off o') \<in> live_cells a live"
      using h that by (intro live_cells_mem [of live p o' cs]) auto
    then show False using nm [of "max off o'"] h npos by auto
  qed
  let ?pgs = "pgs[p := splice_at off (padded a bs) (pgs ! p)]" and ?live = "live((p, off) \<mapsto> bs)"
  have cells: "live_cells a ?live = live_cells a live \<union> region p off n"
    using live_cells_upd [of live p off a bs] none n by simp
  show "layout a (taken(p \<mapsto> t)) ?pgs ?live free'"
  proof (rule layoutI)
    fix q u assume "(taken(p \<mapsto> t)) q = Some u"
    then show "q < length ?pgs \<and> length (?pgs ! q) = 65536 \<and> u \<le> 65536"
      using layout_page [OF l] pp t off lp by (cases "q = p") auto
  next
    fix q o' cs assume live: "?live (q, o') = Some cs"
    show "raw_bytes a cs \<and> a dvd o' \<and> (\<exists>u. (taken(p \<mapsto> t)) q = Some u \<and> o' + align_up a (length cs) \<le> u) \<and>
       slice o' (align_up a (length cs)) (?pgs ! q) = padded a cs"
    proof (cases "(q, o') = (p, off)")
      case True
      then show ?thesis using live bs off n pp lp t by auto
    next
      case False
      then have lv: "live (q, o') = Some cs" using live by auto
      then obtain u where u: "raw_bytes a cs" "a dvd o'" "taken q = Some u" "o' + align_up a (length cs) \<le> u"
        "slice o' (align_up a (length cs)) (pgs ! q) = padded a cs"
        by (elim layout_live [OF l])
      have "slice o' (align_up a (length cs)) (?pgs ! q) = padded a cs"
      proof (cases "q = p")
        case True
        have "slice o' (align_up a (length cs)) (splice_at off (padded a bs) (pgs ! p)) =
            slice o' (align_up a (length cs)) (pgs ! p)"
          using True apart [of o' cs] lv pp lp off t u by (intro slice_splice_disjoint) auto
        then show ?thesis using True u pp by simp
      next
        case False
        then show ?thesis using u by simp
      qed
      then show ?thesis using u t by auto
    qed
  next
    fix q o1 b1 o2 b2
    assume "?live (q, o1) = Some b1" "?live (q, o2) = Some b2" "o1 < o2"
    then show "o1 + align_up a (length b1) \<le> o2"
      using layout_order [OF l] apart n
      by (cases "q = p \<and> o1 = off"; cases "q = p \<and> o2 = off") fastforce+
  next
    show "free' \<inter> live_cells a ?live = {}"
      using cells free layout_free_live [OF l] by auto
  next
    fix q i assume "(q, i) \<in> free'"
    then obtain u where "taken q = Some u" "i < u" using free(1) layout_free_taken [OF l] by blast
    then show "\<exists>u. (taken(p \<mapsto> t)) q = Some u \<and> i < u" using t by (cases "q = p") auto
  next
    fix q u i assume h: "(taken(p \<mapsto> t)) q = Some u" "i < 65536" "(q, i) \<notin> live_cells a ?live"
    then have nl: "(q, i) \<notin> live_cells a live" "q = p \<Longrightarrow> \<not> (off \<le> i \<and> i < off + n)"
      using cells by (auto simp: region_def)
    show "?pgs ! q ! i = 0"
    proof (cases "q = p")
      case True
      then show ?thesis using nl layout_zero [OF l t(1) h(2)] pp lp off t h(2)
        by (auto simp: nth_splice_at)
    next
      case False
      then show ?thesis using layout_zero [OF l _ h(2) nl(1)] h(1) by auto
    qed
  qed
qed

lemma live_cells_del:
  assumes l: "layout a taken pgs live free" and a: "0 < a" and live: "live (p, off) = Some bs"
  shows "live_cells a (live((p, off) := None)) = live_cells a live - region p off (align_up a (length bs))"
proof -
  have "\<not> (off \<le> i \<and> i < off + align_up a (length bs))"
    if "live (p, o') = Some cs" "o' \<noteq> off" "o' \<le> i" "i < o' + align_up a (length cs)" for o' cs i
    using that layout_order [OF l live that(1)] layout_order [OF l that(1) live] by fastforce
  note apart = this
  show ?thesis
  proof (rule set_eqI, clarify)
    fix q i
    show "(q, i) \<in> live_cells a (live((p, off) := None)) \<longleftrightarrow>
        (q, i) \<in> live_cells a live - region p off (align_up a (length bs))"
    proof
      assume "(q, i) \<in> live_cells a (live((p, off) := None))"
      then obtain o' cs where "live (q, o') = Some cs" "o' \<le> i" "i < o' + align_up a (length cs)"
        "q = p \<Longrightarrow> o' \<noteq> off" by (auto simp: live_cells_def split: if_splits)
      then show "(q, i) \<in> live_cells a live - region p off (align_up a (length bs))"
        using apart [of o' cs i] by (auto simp: region_def intro: live_cells_mem)
    next
      assume "(q, i) \<in> live_cells a live - region p off (align_up a (length bs))"
      then obtain o' cs where lv: "live (q, o') = Some cs" "o' \<le> i" "i < o' + align_up a (length cs)"
        and "(q, i) \<notin> region p off (align_up a (length bs))" by (auto simp: live_cells_def)
      then have "(q, o') \<noteq> (p, off)" using live by (auto simp: region_def)
      then have "(live((p, off) := None)) (q, o') = Some cs" using lv by auto
      then show "(q, i) \<in> live_cells a (live((p, off) := None))" using lv by (intro live_cells_mem) auto
    qed
  qed
qed

lemma layout_erase:
  assumes l: "layout a taken pgs live free" and a: "0 < a" and live: "live (p, off) = Some bs"
    and n: "n = align_up a (length bs)" and free: "free' \<subseteq> free \<union> region p off n"
  shows "layout a taken (pgs[p := splice_at off (replicate n 0) (pgs ! p)]) (live((p, off) := None)) free'"
proof -
  obtain t where t: "raw_bytes a bs" "a dvd off" "taken p = Some t" "off + n \<le> t"
    using live n by (elim layout_live [OF l]) auto
  note pp = layout_page [OF l t(3)]
  let ?pgs = "pgs[p := splice_at off (replicate n 0) (pgs ! p)]" and ?live = "live((p, off) := None)"
  have cells: "live_cells a ?live = live_cells a live - region p off n"
    using live_cells_del [OF l a live] n by simp
  show ?thesis
  proof (rule layoutI)
    fix q u assume u: "taken q = Some u"
    have "length (splice_at off (replicate n 0) (pgs ! p)) = 65536" using pp t by simp
    then show "q < length ?pgs \<and> length (?pgs ! q) = 65536 \<and> u \<le> 65536"
      using layout_page [OF l u] pp by (cases "q = p") auto
  next
    fix q o' cs assume lv: "?live (q, o') = Some cs"
    then have lv: "live (q, o') = Some cs" "(q, o') \<noteq> (p, off)" by (auto split: if_splits)
    then obtain u where u: "raw_bytes a cs" "a dvd o'" "taken q = Some u" "o' + align_up a (length cs) \<le> u"
      "slice o' (align_up a (length cs)) (pgs ! q) = padded a cs"
      by (elim layout_live [OF l])
    have "slice o' (align_up a (length cs)) (?pgs ! q) = padded a cs"
    proof (cases "q = p")
      case True
      then have "o' + align_up a (length cs) \<le> off \<or> off + n \<le> o'"
        using lv n layout_order [OF l live, of o' cs] layout_order [OF l _ live, of o' cs] by fastforce
      then have "slice o' (align_up a (length cs)) (splice_at off (replicate n 0) (pgs ! p)) =
          slice o' (align_up a (length cs)) (pgs ! p)"
        using True pp t u by (intro slice_splice_disjoint) auto
      then show ?thesis using True u pp by simp
    next
      case False
      then show ?thesis using u by simp
    qed
    then show "raw_bytes a cs \<and> a dvd o' \<and> (\<exists>u. taken q = Some u \<and> o' + align_up a (length cs) \<le> u) \<and>
       slice o' (align_up a (length cs)) (?pgs ! q) = padded a cs"
      using u by auto
  next
    fix q o1 b1 o2 b2
    assume "?live (q, o1) = Some b1" "?live (q, o2) = Some b2" "o1 < o2"
    then show "o1 + align_up a (length b1) \<le> o2" using layout_order [OF l] by (auto split: if_splits)
  next
    show "free' \<inter> live_cells a ?live = {}"
      using cells free layout_free_live [OF l] by auto
  next
    fix q i assume "(q, i) \<in> free'"
    then have "(q, i) \<in> free \<or> (q = p \<and> i < off + n)" using free by (auto simp: region_def)
    then show "\<exists>u. taken q = Some u \<and> i < u" using layout_free_taken [OF l] t by auto
  next
    fix q u i assume h: "taken q = Some u" "i < 65536" "(q, i) \<notin> live_cells a ?live"
    show "?pgs ! q ! i = 0"
    proof (cases "(q, i) \<in> region p off n")
      case True
      then show ?thesis using pp t h(2) by (auto simp: region_def nth_splice_at)
    next
      case False
      then have "pgs ! q ! i = 0" using cells h layout_zero [OF l h(1,2)] by auto
      then show ?thesis using pp t h(2) by (cases "q = p") (auto simp: nth_splice_at)
    qed
  qed
qed

text \<open>Overwriting a record with one of the same length.\<close>

lemma layout_overwrite:
  assumes l: "layout a taken pgs live free" and a: "0 < a" and live: "live (p, off) = Some cs"
    and bs: "raw_bytes a bs" "length bs = length cs"
  shows "layout a taken (pgs[p := splice_at off (padded a bs) (pgs ! p)]) (live((p, off) \<mapsto> bs)) free"
proof -
  let ?n = "align_up a (length cs)"
  obtain t where t: "a dvd off" "taken p = Some t" "off + ?n \<le> t"
    using live by (elim layout_live [OF l]) auto
  note pp = layout_page [OF l t(2)]
  let ?z = "pgs[p := splice_at off (replicate ?n 0) (pgs ! p)]" and ?l = "live((p, off) := None)"
  have e: "layout a taken ?z ?l free"
    using layout_erase [OF l a live refl] by blast
  have dis: "region p off (align_up a (length bs)) \<inter> live_cells a ?l = {}"
    using live_cells_del [OF l a live] bs(2) by auto
  have fd: "free \<inter> region p off (align_up a (length bs)) = {}"
  proof -
    have "region p off ?n \<subseteq> live_cells a live" using live live_cells_mem [of live p off cs] by (auto simp: region_def)
    then show ?thesis using layout_free_live [OF l] bs(2) by auto
  qed
  have "layout a (taken(p \<mapsto> t)) (?z[p := splice_at off (padded a bs) (?z ! p)]) (?l((p, off) \<mapsto> bs)) free"
    by (rule layout_write(1) [OF e a bs(1) refl t(2) _ _ t(1) _ dis subset_refl fd]) (use pp t bs in auto)
  moreover have "taken(p \<mapsto> t) = taken" using t(2) by (auto simp: fun_eq_iff)
  moreover have "splice_at off (padded a bs) (?z ! p) = splice_at off (padded a bs) (pgs ! p)"
    using pp t bs a by (intro nth_equalityI) (auto simp: nth_splice_at length_padded_bytes)
  ultimately show ?thesis by simp
qed

lemma live_slice:
  assumes l: "layout a taken pgs live free" and a: "0 < a" and live: "live (p, off) = Some bs"
  shows "slice off (length bs) (pgs ! p) = bs"
proof -
  obtain t where t: "taken p = Some t" "off + align_up a (length bs) \<le> t"
    "slice off (align_up a (length bs)) (pgs ! p) = padded a bs"
    using live by (elim layout_live [OF l])
  have ge: "length bs \<le> align_up a (length bs)" using a by (rule align_up_ge)
  have "slice off (length bs) (pgs ! p) = take (length bs) (slice off (align_up a (length bs)) (pgs ! p))"
    using layout_page [OF l t(1)] t(2) ge by (intro take_slice [symmetric]) auto
  then show ?thesis using t(3) by (simp add: padded_def)
qed

end
