(* ===== verification/Table_Registry.thy ===== *)
theory Table_Registry
  imports Table_Layout
begin

text \<open>
  \<^verbatim>\<open>table_registry.rs\<close>: storing, reading, updating and deleting the records of a table, through the
  page ledger and the free-segments ledger; the raw variants are those of the migration pipeline.
\<close>

section \<open>Model\<close>

text \<open>The ledgers the record operations use; the remaining fields of the struct are the extension of the record.\<close>

record table_registry =
  tr_page_ledger :: page_ledger
  tr_free_segments :: free_segments_ledger

abbreviation on_page_ledger ::
  "(page_ledger \<times> 'm, 'a) mem_prog \<Rightarrow> ('x table_registry_scheme \<times> 'm, 'a) mem_prog" where
  "on_page_ledger \<equiv> focus tr_page_ledger (\<lambda>k r. r\<lparr>tr_page_ledger := k\<rparr>)"

abbreviation on_free_segments ::
  "(free_segments_ledger \<times> 'm, 'a) mem_prog \<Rightarrow> ('x table_registry_scheme \<times> 'm, 'a) mem_prog" where
  "on_free_segments \<equiv> focus tr_free_segments (\<lambda>k r. r\<lparr>tr_free_segments := k\<rparr>)"

text \<open>\<^verbatim>\<open>write_at.rs\<close>.\<close>

datatype write_at_pos = ReusedSegment free_segment_ticket | End nat nat

primrec wa_page :: "write_at_pos \<Rightarrow> nat" where
  "wa_page (ReusedSegment tk) = fs_page (tk_segment tk)"
| "wa_page (End page offset) = page"

primrec wa_offset :: "write_at_pos \<Rightarrow> nat" where
  "wa_offset (ReusedSegment tk) = fs_offset (tk_segment tk)"
| "wa_offset (End page offset) = offset"

definition raw_record_footprint :: "nat \<Rightarrow> nat \<Rightarrow> nat \<Rightarrow> nat memory_result" where
  "raw_record_footprint body_len alignment ps =
     (let unaligned = min (2 ^ 64 - 1) (body_len + RAW_RECORD_HEADER_SIZE);
          aligned = (if alignment = 0 then unaligned
                     else min (2 ^ 64 - 1) (div_ceil unaligned alignment * alignment))
      in if aligned \<le> u16_max then Ok aligned else Err (DataTooLarge ps aligned))"

definition ensure_record_fits :: "'e codec \<Rightarrow> 'e \<Rightarrow> nat \<Rightarrow> unit memory_result" where
  "ensure_record_fits E rec ps =
     map_outcome (\<lambda>_. ()) (raw_record_footprint (enc_size E rec) (rr_ALIGNMENT E) ps)"

definition get_write_position ::
  "'m mem_ops \<Rightarrow> 'e codec \<Rightarrow> 'e raw_record \<Rightarrow> ('x table_registry_scheme \<times> 'm, write_at_pos) mem_prog" where
  "get_write_position MA E raw =
     mbind get_self (\<lambda>self.
     mbind (on_mem (find_reusable_segment MA (RawRecord E) raw (tr_free_segments self))) (\<lambda>found.
       case found of
         Some segment \<Rightarrow> ret (ReusedSegment segment)
       | None \<Rightarrow> mbind (on_page_ledger (get_page_and_offset_for_record MA (RawRecord E) raw))
                   (\<lambda>(page, offset). ret (End page offset))))"

definition post_write ::
  "'m mem_ops \<Rightarrow> 'e codec \<Rightarrow> write_at_pos \<Rightarrow> 'e raw_record \<Rightarrow> ('x table_registry_scheme \<times> 'm, unit) mem_prog" where
  "post_write MA E w raw = (case w of
       ReusedSegment segment \<Rightarrow> on_free_segments (commit_reused_space MA (RawRecord E) raw segment)
     | End page _ \<Rightarrow> on_page_ledger (pl_commit MA (RawRecord E) page raw))"

definition tr_insert ::
  "'m mem_ops \<Rightarrow> 'e codec \<Rightarrow> 'e \<Rightarrow> ('x table_registry_scheme \<times> 'm, record_address) mem_prog" where
  "tr_insert MA E rec =
     mbind (\<lambda>s. (ensure_record_fits E rec (page_size MA (snd s)), s)) (\<lambda>_.
       let raw = new_raw_record E rec in
       mbind (get_write_position MA E raw) (\<lambda>w.
         let aligned_offset = as_u16 (align_up (rr_ALIGNMENT E) (wa_offset w)) in
         mbind (on_mem (Memory_Access.write_at MA (RawRecord E) (wa_page w) aligned_offset raw)) (\<lambda>_.
         mbind (post_write MA E w raw) (\<lambda>_.
         ret \<lparr>ra_page = wa_page w, ra_offset = aligned_offset\<rparr>))))"

definition tr_read_at :: "'m mem_ops \<Rightarrow> 'e codec \<Rightarrow> record_address \<Rightarrow> ('m, 'e) mem_prog" where
  "tr_read_at MA E addr =
     (case SIZE E of
        Fixed _ \<Rightarrow> mbind (read_at MA (RawRecord E) (ra_page addr) (ra_offset addr)) (\<lambda>raw. ret (rr_data raw))
      | Dynamic \<Rightarrow>
          let alignment = rr_ALIGNMENT E in
          if alignment \<noteq> 0 \<and> \<not> alignment dvd ra_offset addr
          then fail (OffsetNotAligned (ra_offset addr) alignment)
          else mbind (read_at_raw MA (ra_page addr) (ra_offset addr) (replicate RAW_RECORD_HEADER_SIZE 0))
            (\<lambda>(n, header).
              if n < length header then fail (DecodeError TooShort)
              else let len = from_le header; body_offset = ra_offset addr + RAW_RECORD_HEADER_SIZE in
                (\<lambda>m. if body_offset + len > page_size MA m then (Err (DecodeError TooShort), m)
                     else mbind (read_at_raw MA (ra_page addr) (as_u16 body_offset) (replicate len 0))
                       (\<lambda>(n, body). lift_res (decode E body)) m)))"

definition tr_delete ::
  "'m mem_ops \<Rightarrow> 'e codec \<Rightarrow> 'e \<Rightarrow> record_address \<Rightarrow> ('x table_registry_scheme \<times> 'm, unit) mem_prog" where
  "tr_delete MA E rec addr =
     (let raw = new_raw_record E rec in
      mbind (on_mem (zero_at MA (RawRecord E) (ra_page addr) (ra_offset addr) raw)) (\<lambda>_.
      on_free_segments (insert_free_segment MA (RawRecord E) (ra_page addr) (ra_offset addr) raw)))"

definition update_in_place ::
  "'m mem_ops \<Rightarrow> 'e codec \<Rightarrow> 'e \<Rightarrow> record_address \<Rightarrow> ('x table_registry_scheme \<times> 'm, record_address) mem_prog" where
  "update_in_place MA E rec addr =
     mbind (on_mem (Memory_Access.write_at MA (RawRecord E) (ra_page addr) (ra_offset addr) (new_raw_record E rec)))
       (\<lambda>_. ret addr)"

definition update_by_realloc ::
  "'m mem_ops \<Rightarrow> 'e codec \<Rightarrow> 'e \<Rightarrow> 'e \<Rightarrow> record_address \<Rightarrow> ('x table_registry_scheme \<times> 'm, record_address) mem_prog" where
  "update_by_realloc MA E new_rec old_rec old_addr =
     mbind (tr_delete MA E old_rec old_addr) (\<lambda>_. tr_insert MA E new_rec)"

definition tr_update ::
  "'m mem_ops \<Rightarrow> 'e codec \<Rightarrow> 'e \<Rightarrow> 'e \<Rightarrow> record_address \<Rightarrow> ('x table_registry_scheme \<times> 'm, record_address) mem_prog" where
  "tr_update MA E new_rec old_rec old_addr =
     mbind (\<lambda>s. (ensure_record_fits E new_rec (page_size MA (snd s)), s)) (\<lambda>_.
       if enc_size E new_rec = enc_size E old_rec then update_in_place MA E new_rec old_addr
       else update_by_realloc MA E new_rec old_rec old_addr)"

subsection \<open>The raw path\<close>

definition insert_raw ::
  "'m mem_ops \<Rightarrow> byte list \<Rightarrow> nat \<Rightarrow> ('x table_registry_scheme \<times> 'm, record_address) mem_prog" where
  "insert_raw MA bs alignment =
     mbind (\<lambda>s. (raw_record_footprint (length bs) alignment (page_size MA (snd s)), s)) (\<lambda>physical_size.
       let len = as_u16 (length bs); total = wrap_add16 RAW_RECORD_HEADER_SIZE len in
       mbind get_self (\<lambda>self.
       mbind (on_mem (find_reusable_segment_raw MA physical_size (tr_free_segments self))) (\<lambda>found.
       mbind (case found of
            Some segment \<Rightarrow>
              mbind (on_free_segments (commit_reused_space_raw MA physical_size segment)) (\<lambda>_.
              ret (fs_page (tk_segment segment), fs_offset (tk_segment segment)))
          | None \<Rightarrow>
              mbind (on_page_ledger (get_page_and_offset_raw MA physical_size alignment)) (\<lambda>(page, offset).
              mbind (on_page_ledger (pl_commit_raw MA page total alignment)) (\<lambda>_.
              ret (page, offset)))) (\<lambda>(page, offset).
       mbind (on_mem (write_at_raw MA page offset (le_bytes 2 len @ bs))) (\<lambda>_.
         let padding = physical_size - total in
         mbind (if padding > 0
                then on_mem (zero_raw MA page (wrap_add16 offset total) padding)
                else ret ()) (\<lambda>_.
         ret \<lparr>ra_page = page, ra_offset = offset\<rparr>))))))"

definition read_raw_at :: "'m mem_ops \<Rightarrow> record_address \<Rightarrow> ('m, byte list) mem_prog" where
  "read_raw_at MA addr =
     mbind (read_at_raw MA (ra_page addr) (ra_offset addr) (replicate RAW_RECORD_HEADER_SIZE 0)) (\<lambda>(_, header).
       let len = from_le header in
       mbind (read_at_raw MA (ra_page addr) (wrap_add16 (ra_offset addr) RAW_RECORD_HEADER_SIZE) (replicate len 0))
         (\<lambda>(_, body). ret body))"

definition delete_raw ::
  "'m mem_ops \<Rightarrow> record_address \<Rightarrow> nat \<Rightarrow> nat \<Rightarrow> ('x table_registry_scheme \<times> 'm, unit) mem_prog" where
  "delete_raw MA addr body_len alignment =
     mbind (\<lambda>s. (raw_record_footprint body_len alignment (page_size MA (snd s)), s)) (\<lambda>physical_size.
     mbind (on_mem (zero_raw MA (ra_page addr) (ra_offset addr) physical_size)) (\<lambda>_.
     on_free_segments (insert_free_segment_raw MA (ra_page addr) (ra_offset addr) physical_size)))"

text \<open>The part of \<^verbatim>\<open>TableRegistry::load\<close> that reads the two ledgers.\<close>

definition tr_load :: "'m mem_ops \<Rightarrow> nat \<Rightarrow> nat \<Rightarrow> ('m, table_registry) mem_prog" where
  "tr_load MA pages_list_page free_segments_page =
     mbind (pl_load MA pages_list_page) (\<lambda>pl.
     mbind (fl_load MA free_segments_page) (\<lambda>fl.
     ret \<lparr>tr_page_ledger = pl, tr_free_segments = fl\<rparr>))"

section \<open>The table invariant\<close>

text \<open>
  \<open>U\<close> is the set of pages that are in use by anyone. The table's own pages are part of it, its three
  kinds of pages are distinct, the two ledgers are stored on their pages, and the record pages realise
  the map \<open>live\<close>.
\<close>

definition tr_pages :: "'x table_registry_scheme \<Rightarrow> nat set" where
  "tr_pages reg = insert (pl_page (tr_page_ledger reg))
     (dom (pl_taken (tr_page_ledger reg)) \<union> fl_pages (tr_free_segments reg))"

definition tr_inv ::
  "nat \<Rightarrow> byte list list \<Rightarrow> nat set \<Rightarrow> 'x table_registry_scheme \<Rightarrow> live_map \<Rightarrow> bool" where
  "tr_inv a pgs U reg live \<longleftrightarrow> pool_inv pgs U \<and> tr_pages reg \<subseteq> U \<and>
     pl_inv a (tr_page_ledger reg) \<and>
     stored PageTable (pl_pages (tr_page_ledger reg)) (pgs ! pl_page (tr_page_ledger reg)) \<and>
     pl_page (tr_page_ledger reg) \<notin> dom (pl_taken (tr_page_ledger reg)) \<and>
     insert (pl_page (tr_page_ledger reg)) (dom (pl_taken (tr_page_ledger reg)))
       \<inter> fl_pages (tr_free_segments reg) = {} \<and>
     (\<exists>S. fl_inv a pgs (tr_free_segments reg) S \<and>
          layout a (pl_taken (tr_page_ledger reg)) pgs live (fl_cells a S))"

lemma footprint_eq:
  assumes "0 < a" and "n \<le> 65535" and "a \<le> 65535"
  shows "raw_record_footprint n a ps =
     (if align_up a (n + 2) \<le> 65535 then Ok (align_up a (n + 2)) else Err (DataTooLarge ps (align_up a (n + 2))))"
proof -
  have "align_up a (n + 2) < n + 2 + a" using assms(1) by (rule align_up_less)
  then have "align_up a (n + 2) \<le> 2 ^ 64 - 1" using assms by simp
  then show ?thesis
    using assms by (simp add: raw_record_footprint_def Let_def RAW_RECORD_HEADER_SIZE_def u16_max_def
        align_up_def min_def)
qed

lemma RawRecord_simps [simp]:
  "ALIGNMENT (RawRecord E) = rr_ALIGNMENT E" "encode (RawRecord E) = rr_encode E"
  "decode (RawRecord E) = rr_decode E" "enc_size (RawRecord E) = rr_size" "SIZE (RawRecord E) = rr_SIZE E"
  by (simp_all add: RawRecord_def)

text \<open>The bytes \<^verbatim>\<open>RawRecord::new(record)\<close> encodes to.\<close>

abbreviation raw_of :: "'e codec \<Rightarrow> 'e \<Rightarrow> byte list" where
  "raw_of E rec \<equiv> rr_encode E (new_raw_record E rec)"

lemma raw_facts:
  assumes E: "encoding E V" and v: "V rec" and pos: "0 < enc_size E rec"
    and fits: "align_up a (enc_size E rec + 2) \<le> 65535" and a: "0 < a"
  shows "rr_valid E V (new_raw_record E rec)" and "raw_bytes a (raw_of E rec)"
    and "length (raw_of E rec) = enc_size E rec + 2" and "rr_size (new_raw_record E rec) = enc_size E rec + 2"
proof -
  have le: "enc_size E rec + 2 \<le> 65535" using fits align_up_ge [OF a, of "enc_size E rec + 2"] by simp
  have sz: "enc_size E rec = length (encode E rec)" using E v by (rule encoding.size_encode)
  show "rr_valid E V (new_raw_record E rec)" using v le by (simp add: rr_valid_def new_raw_record_def)
  show len: "length (raw_of E rec) = enc_size E rec + 2" using sz by (simp add: rr_encode_def new_raw_record_def)
  show "raw_bytes a (raw_of E rec)"
    using len pos fits by (auto simp: raw_bytes_def rr_encode_def new_raw_record_def)
  show "rr_size (new_raw_record E rec) = enc_size E rec + 2"
    using le by (simp add: rr_size_def new_raw_record_def RAW_RECORD_HEADER_SIZE_def sat_add16_eq)
qed

lemma ensure_fits:
  assumes "align_up a (enc_size E rec + 2) \<le> 65535" and "0 < a" and "0 < enc_size E rec"
    and "a = rr_ALIGNMENT E"
  shows "ensure_record_fits E rec ps = Ok ()"
proof -
  have le: "enc_size E rec + 2 \<le> align_up a (enc_size E rec + 2)" using assms(2) by (rule align_up_ge)
  moreover have "a \<le> align_up a (enc_size E rec + 2)"
    using le assms(3) by (intro dvd_imp_le) auto
  ultimately show ?thesis using assms footprint_eq [of a "enc_size E rec" ps]
    by (simp add: ensure_record_fits_def)
qed

lemma tr_inv_D:
  assumes "tr_inv a pgs U reg live"
  obtains S where "pool_inv pgs U" and "tr_pages reg \<subseteq> U" and "pl_inv a (tr_page_ledger reg)"
    and "stored PageTable (pl_pages (tr_page_ledger reg)) (pgs ! pl_page (tr_page_ledger reg))"
    and "pl_page (tr_page_ledger reg) \<notin> dom (pl_taken (tr_page_ledger reg))"
    and "insert (pl_page (tr_page_ledger reg)) (dom (pl_taken (tr_page_ledger reg)))
       \<inter> fl_pages (tr_free_segments reg) = {}"
    and "fl_inv a pgs (tr_free_segments reg) S"
    and "layout a (pl_taken (tr_page_ledger reg)) pgs live (fl_cells a S)"
  using assms by (auto simp: tr_inv_def)

lemma pool_inv_pages: "pool_inv pgs U \<Longrightarrow> p \<in> U \<Longrightarrow> 2 \<le> p \<and> p < length pgs"
  by (auto simp: pool_inv_def)

text \<open>A table is not affected by what happens on pages that are not its own.\<close>

lemma tr_inv_frame:
  assumes i: "tr_inv a pgs U reg live" and sm: "same_except X pgs pgs'" and X: "X \<inter> tr_pages reg = {}"
    and U: "pool_inv pgs' U'" "tr_pages reg \<subseteq> U'"
  shows "tr_inv a pgs' U' reg live"
proof -
  let ?pl = "tr_page_ledger reg" and ?fl = "tr_free_segments reg"
  obtain S where inv: "pool_inv pgs U" "tr_pages reg \<subseteq> U" "pl_inv a ?pl"
    "stored PageTable (pl_pages ?pl) (pgs ! pl_page ?pl)" "pl_page ?pl \<notin> dom (pl_taken ?pl)"
    "insert (pl_page ?pl) (dom (pl_taken ?pl)) \<inter> fl_pages ?fl = {}"
    "fl_inv a pgs ?fl S" "layout a (pl_taken ?pl) pgs live (fl_cells a S)"
    using i by (elim tr_inv_D)
  have "pl_page ?pl < length pgs" using inv(1,2) pool_inv_pages by (auto simp: tr_pages_def)
  then have "pgs' ! pl_page ?pl = pgs ! pl_page ?pl"
    using X by (intro same_except_nth [OF sm]) (auto simp: tr_pages_def)
  moreover have "fl_inv a pgs' ?fl S" using X by (intro fl_inv_frame [OF inv(7) sm]) (auto simp: tr_pages_def)
  moreover have "layout a (pl_taken ?pl) pgs' live (fl_cells a S)"
    using X by (intro layout_frame [OF inv(8) sm]) (auto simp: tr_pages_def)
  ultimately show ?thesis using inv U by (auto simp: tr_inv_def)
qed

text \<open>A segment of the free list lies in the filled part of its page.\<close>

lemma seg_in_taken:
  assumes l: "layout a taken pgs live (fl_cells a S)" and s: "s \<in> set rs" "rs \<in> set S" and ok: "seg_ok a s"
  obtains t where "taken (fs_page s) = Some t" and "seg_end a s \<le> t"
proof -
  have sub: "seg_cells a s \<subseteq> fl_cells a S" using s by (auto simp: fl_cells_def segs_cells_def)
  have "(fs_page s, seg_end a s - 1) \<in> seg_cells a s"
    using seg_end_gt [OF ok] by (auto simp: mem_seg_cells)
  then obtain t where "taken (fs_page s) = Some t" "seg_end a s - 1 < t"
    using layout_free_taken [OF l] sub by blast
  then show thesis by (intro that) auto
qed

context memory_access
begin

lemma insert_reuse:
  assumes E: "encoding E V" "V rec" "0 < enc_size E rec" and a: "a = rr_ALIGNMENT E" "2 \<le> a"
    and fits: "align_up a (enc_size E rec + 2) \<le> 65535"
    and m: "inv m" and i: "tr_inv a (pg m) U reg live"
    and fnd: "find_reusable_segment MA (RawRecord E) (new_raw_record E rec) (tr_free_segments reg) m = (Ok (Some tk), m)"
  obtains m' off where "tr_insert MA E rec (reg, m) =
      (Ok \<lparr>ra_page = fs_page (tk_segment tk), ra_offset = off\<rparr>, (reg, m'))"
    and "inv m'" and "live (fs_page (tk_segment tk), off) = None"
    and "tr_inv a (pg m') U reg (live((fs_page (tk_segment tk), off) \<mapsto> raw_of E rec))"
    and "same_except (tr_pages reg) (pg m) (pg m')"
proof -
  let ?raw = "new_raw_record E rec" and ?bs = "raw_of E rec" and ?n = "align_up a (enc_size E rec + 2)"
  let ?fl = "tr_free_segments reg" and ?pl = "tr_page_ledger reg" and ?s = "tk_segment tk"
  let ?p = "fs_page ?s" and ?o = "fs_offset ?s"
  have a0: "0 < a" using a by simp
  note rf = raw_facts [OF E fits a0]
  obtain S where inv: "pool_inv (pg m) U" "tr_pages reg \<subseteq> U" "pl_inv a ?pl"
    "stored PageTable (pl_pages ?pl) (pg m ! pl_page ?pl)" "pl_page ?pl \<notin> dom (pl_taken ?pl)"
    "insert (pl_page ?pl) (dom (pl_taken ?pl)) \<inter> fl_pages ?fl = {}"
    "fl_inv a (pg m) ?fl S" "layout a (pl_taken ?pl) (pg m) live (fl_cells a S)"
    using i by (elim tr_inv_D)
  from find_reusable_spec [OF m inv(7), of "enc_size E rec + 2"] fnd rf(4)
  obtain k where k: "k < length S" "tk_table tk = fl_tables ?fl ! k" "?s \<in> set (S ! k)"
    "enc_size E rec + 2 \<le> fs_size ?s"
    by (auto simp: find_reusable_segment_def find_reusable_segment_raw_def Let_def)
  have ok: "seg_ok a ?s"
    using k(1,3) inv(7) by (auto simp: fl_inv_def list_all2_conv_all_nth table_at_def segs_ok_def)
  obtain t where t: "pl_taken ?pl ?p = Some t" "seg_end a ?s \<le> t"
    using seg_in_taken [OF inv(8) k(3) _ ok] k(1) by auto
  have fit: "?o + ?n \<le> seg_end a ?s" using seg_fits [OF ok a0 k(4)] .
  have t64: "t \<le> 65536" using inv(8) t(1) by (auto dest: layout_page)
  have off: "a dvd ?o" "as_u16 (align_up a ?o) = ?o" using ok by (auto simp: seg_ok_def)
  have pin: "?p < length (pg m)" using layout_page [OF inv(8) t(1)] by simp
  obtain m1 where w: "Memory_Access.write_at MA (RawRecord E) ?p ?o ?raw m = (Ok (), m1)" "inv m1"
    "pg m1 = (pg m)[?p := splice_at ?o (padded a ?bs) (pg m ! ?p)]"
    using write_at_ok [OF m pin, of "RawRecord E" ?o ?raw] a0 a off(1) fit t(2) t64 rf(3) by auto
  have reg: "region ?p ?o ?n \<subseteq> fl_cells a S"
  proof -
    have "region ?p ?o ?n \<subseteq> seg_cells a ?s" using fit by (auto simp: region_def mem_seg_cells)
    also have "\<dots> \<subseteq> fl_cells a S" using k(3) nth_mem [OF k(1)] by (auto simp: fl_cells_def segs_cells_def)
    finally show ?thesis .
  qed
  have l1: "layout a ((pl_taken ?pl)(?p \<mapsto> t)) (pg m1) (live((?p, ?o) \<mapsto> ?bs)) (fl_cells a S - region ?p ?o ?n)"
    and none: "live (?p, ?o) = None"
    using layout_write [OF inv(8) a0 rf(2) _ t(1) order_refl t64 off(1), of ?n "fl_cells a S - region ?p ?o ?n"]
      w(3) rf(3) fit t(2) reg layout_free_live [OF inv(8)] by auto
  have pd: "?p \<in> dom (pl_taken ?pl)" using t(1) by auto
  then have pf: "?p \<notin> fl_pages ?fl" "?p \<noteq> pl_page ?pl" using inv(5,6) by auto
  have fl1: "fl_inv a (pg m1) ?fl S"
    using fl_inv_frame [OF inv(7), of "{?p}" "pg m1"] w(3) pf by simp
  obtain m2 S2 where c: "commit_reused_space_raw MA ?n tk (?fl, m1) = (Ok (), (?fl, m2))" "inv m2"
    "same_except {fl_tables ?fl ! k} (pg m1) (pg m2)" "length (pg m2) = length (pg m1)"
    "fl_inv a (pg m2) ?fl S2" "fl_cells a S2 = fl_cells a S - region ?p ?o ?n"
    using commit_reused_spec [OF w(2) fl1 k(1,2) refl k(3), of ?n] fit
      raw_bytes_align_pos [OF rf(2) a0] rf(3) by auto
  have tp: "fl_tables ?fl ! k \<in> fl_pages ?fl" using k(1) fl_inv_length [OF inv(7)] by (simp add: fl_pages_def)
  have upd: "(pl_taken ?pl)(?p \<mapsto> t) = pl_taken ?pl" using t(1) by (auto simp: fun_eq_iff)
  have l2: "layout a (pl_taken ?pl) (pg m2) (live((?p, ?o) \<mapsto> ?bs)) (fl_cells a S2)"
    using layout_frame [OF l1 c(3)] tp inv(6) c(6) upd by auto
  have se: "same_except (tr_pages reg) (pg m) (pg m2)"
    using same_except_trans [OF _ c(3), of "{?p}" "pg m" "tr_pages reg"] w(3) pd tp
    by (auto simp: tr_pages_def)
  have "pg m2 ! pl_page ?pl = pg m ! pl_page ?pl"
  proof -
    have "pl_page ?pl < length (pg m)" using inv(1,2) pool_inv_pages by (auto simp: tr_pages_def)
    then show ?thesis using c(3) w(3) pf tp inv(6) by (auto simp: same_except_def)
  qed
  then have "tr_inv a (pg m2) U reg (live((?p, ?o) \<mapsto> ?bs))"
    using inv c(5) l2 pool_inv_owned [OF inv(1) se _ inv(2)] c(4) w(3) by (auto simp: tr_inv_def)
  moreover have "tr_insert MA E rec (reg, m) = (Ok \<lparr>ra_page = ?p, ra_offset = ?o\<rparr>, (reg, m2))"
    using fnd w(1) c(1) rf(4) off(2) fits a ensure_fits [OF fits a0 E(3)]
    by (simp add: tr_insert_def get_write_position_def post_write_def commit_reused_space_def Let_def)
  ultimately show thesis using that c(2) none se by blast
qed

text \<open>No segment fits: the record goes to the end of a page, possibly a new one.\<close>

lemma insert_end:
  assumes E: "encoding E V" "V rec" "0 < enc_size E rec" and a: "a = rr_ALIGNMENT E" "2 \<le> a"
    and fits: "align_up a (enc_size E rec + 2) \<le> 65535"
    and m: "inv m" and i: "tr_inv a (pg m) U reg live" and room: "length (pl_pages (tr_page_ledger reg)) < 5460"
    and fnd: "find_reusable_segment MA (RawRecord E) (new_raw_record E rec) (tr_free_segments reg) m = (Ok None, m)"
    and get: "get_page_and_offset_for_record MA (RawRecord E) (new_raw_record E rec) (tr_page_ledger reg, m)
       = (Ok (p, off), (pl1, m1))"
  obtains pl2 m' where "tr_insert MA E rec (reg, m) =
      (Ok \<lparr>ra_page = p, ra_offset = off\<rparr>, (reg\<lparr>tr_page_ledger := pl2\<rparr>, m'))"
    and "inv m'" and "live (p, off) = None" and "p \<in> U \<Longrightarrow> p \<in> tr_pages reg"
    and "tr_pages (reg\<lparr>tr_page_ledger := pl2\<rparr>) = insert p (tr_pages reg)"
    and "tr_inv a (pg m') (insert p U) (reg\<lparr>tr_page_ledger := pl2\<rparr>) (live((p, off) \<mapsto> raw_of E rec))"
    and "same_except (- (U - tr_pages reg)) (pg m) (pg m')"
proof -
  let ?raw = "new_raw_record E rec" and ?bs = "raw_of E rec" and ?n = "align_up a (enc_size E rec + 2)"
  let ?fl = "tr_free_segments reg" and ?pl = "tr_page_ledger reg"
  have a0: "0 < a" using a by simp
  note rf = raw_facts [OF E fits a0]
  have npos: "0 < ?n" using raw_bytes_align_pos [OF rf(2) a0] rf(3) by simp
  obtain S where inv: "pool_inv (pg m) U" "tr_pages reg \<subseteq> U" "pl_inv a ?pl"
    "stored PageTable (pl_pages ?pl) (pg m ! pl_page ?pl)" "pl_page ?pl \<notin> dom (pl_taken ?pl)"
    "insert (pl_page ?pl) (dom (pl_taken ?pl)) \<inter> fl_pages ?fl = {}"
    "fl_inv a (pg m) ?fl S" "layout a (pl_taken ?pl) (pg m) live (fl_cells a S)"
    using i by (elim tr_inv_D)
  have U1: "1 \<notin> U" using inv(1) by (auto simp: pool_inv_def)
  have sub: "dom (pl_taken ?pl) \<subseteq> U" using inv(2) by (auto simp: tr_pages_def)
  have g: "inv m1" "pool_inv (pg m1) (insert p U)" "pl_inv a pl1" "pl_page pl1 = pl_page ?pl"
    "pl_taken pl1 = (pl_taken ?pl)(p \<mapsto> off)" "off + ?n \<le> 65536"
    "if p \<in> U then pl_taken ?pl p = Some off
     else off = 0 \<and> p < length (pg m1) \<and> pg m1 ! p = replicate 65536 0"
    using get_page_spec [OF m inv(1,3) sub _ _ npos _ get] room fits rf(4) a by auto
  have fr: "same_except {1} (pg m) (pg m1)" by (rule get_page_frame [OF m inv(1) get])
  have l0: "layout a (pl_taken ?pl) (pg m1) live (fl_cells a S)"
    using layout_frame [OF inv(8) fr] sub U1 by auto
  have l1: "layout a (pl_taken pl1) (pg m1) live (fl_cells a S)"
  proof (cases "p \<in> U")
    case True
    then have "pl_taken pl1 = pl_taken ?pl" using g(5,7) by (auto simp: fun_eq_iff)
    then show ?thesis using l0 by simp
  next
    case False
    then have "pl_taken ?pl p = None" using sub by auto
    then show ?thesis using layout_add_page [OF l0] g(5,7) False by auto
  qed
  have tp: "pl_taken pl1 p = Some off" using g(5) by simp
  have off: "a dvd off" "off \<le> 65535" using pl_taken_dvd [OF g(3) tp] g(6) npos by auto
  have pnotin: "p \<notin> fl_pages ?fl" "p \<noteq> pl_page ?pl"
    using g(7) inv(2,5,6) by (auto simp: tr_pages_def split: if_splits)
  have pin: "p < length (pg m1)" using layout_page [OF l1 tp] by simp
  obtain m2 where w: "Memory_Access.write_at MA (RawRecord E) p off ?raw m1 = (Ok (), m2)" "inv m2"
    "pg m2 = (pg m1)[p := splice_at off (padded a ?bs) (pg m1 ! p)]"
    using write_at_ok [OF g(1) pin, of "RawRecord E" off ?raw] a0 a off(1) g(6) rf(3) by auto
  have dl: "region p off ?n \<inter> live_cells a live = {}"
  proof -
    have "i < off" if lc: "(p, i) \<in> live_cells a live" for i
    proof -
      obtain o' bs' where o': "live (p, o') = Some bs'" "i < o' + align_up a (length bs')"
        using lc by (auto simp: live_cells_def)
      obtain t where "pl_taken pl1 p = Some t" "o' + align_up a (length bs') \<le> t"
        using o'(1) by (elim layout_live [OF l1])
      then show ?thesis using tp o'(2) by simp
    qed
    then show ?thesis by (fastforce simp: region_def)
  qed
  have df: "fl_cells a S \<inter> region p off ?n = {}"
    using layout_free_taken [OF l1] tp by (fastforce simp: region_def)
  have n': "?n = align_up a (length ?bs)" using rf(3) by simp
  note lw = layout_write [OF l1 a0 rf(2) n' tp le_add1 g(6) off(1) order_refl dl subset_refl df]
  have fl2: "fl_inv a (pg m2) ?fl S"
  proof -
    have "same_except {1, p} (pg m) (pg m2)"
      using same_except_trans [OF fr, of "{p}" "pg m2" "{1, p}"] w(3) by auto
    moreover have "{1, p} \<inter> fl_pages ?fl = {}" using pnotin U1 inv(2) by (auto simp: tr_pages_def)
    ultimately show ?thesis by (rule fl_inv_frame [OF inv(7)])
  qed
  have lp2: "pl_page pl1 < length (pg m2)"
    using g(2,4) inv(2) pool_inv_pages [OF g(2), of "pl_page ?pl"] w(3) by (auto simp: tr_pages_def)
  obtain pl2 m3 c where c: "pl_commit MA (RawRecord E) p ?raw (pl1, m2) = (Ok (), (pl2, m3))"
    "inv m3" "pg m3 = (pg m2)[pl_page pl1 := c]" "stored PageTable (pl_pages pl2) c"
    "pl_inv a pl2" "pl_taken pl2 = (pl_taken pl1)(p \<mapsto> off + ?n)" "pl_page pl2 = pl_page pl1"
    using pl_commit_spec [OF w(2) g(3) tp, of "RawRecord E" ?n ?raw] a a0 g(6) lp2 rf(4) by auto
  let ?reg = "reg\<lparr>tr_page_ledger := pl2\<rparr>"
  have dom2: "dom (pl_taken pl2) = insert p (dom (pl_taken ?pl))" using c(6) g(5) by auto
  have l3: "layout a (pl_taken pl2) (pg m3) (live((p, off) \<mapsto> ?bs)) (fl_cells a S)"
    using layout_frame [OF lw(1) [folded w(3) c(6)], of "{pl_page ?pl}" "pg m3"] c(3) g(4) dom2 inv(5) pnotin by auto
  have fl3: "fl_inv a (pg m3) ?fl S"
    using fl_inv_frame [OF fl2, of "{pl_page ?pl}" "pg m3"] c(3) g(4) inv(6) by auto
  have lenp: "length (pg m2) = length (pg m1)" "length (pg m3) = length (pg m1)" using w(3) c(3) by auto
  have pl_in: "pl_page ?pl \<in> U" using inv(2) by (auto simp: tr_pages_def)
  have pool3: "pool_inv (pg m3) (insert p U)"
  proof (rule pool_inv_owned [OF g(2)])
    show "same_except {p, pl_page ?pl} (pg m1) (pg m3)"
      using same_except_trans [of "{p}" "pg m1" "pg m2" "{pl_page ?pl}" "pg m3"] w(3) c(3) g(4) by auto
  qed (use lenp pl_in in auto)
  have "tr_inv a (pg m3) (insert p U) ?reg (live((p, off) \<mapsto> ?bs))"
    unfolding tr_inv_def
    using pool3 inv(2,5,6) c(4,5,7) g(4) l3 fl3 dom2 pnotin lp2 lenp
    by (auto simp: tr_pages_def c(3))
  moreover have "tr_insert MA E rec (reg, m) = (Ok \<lparr>ra_page = p, ra_offset = off\<rparr>, (?reg, m3))"
    using fnd get w(1) c(1) rf(4) off fits a ensure_fits [OF fits a0 E(3)]
    by (simp add: tr_insert_def get_write_position_def post_write_def Let_def)
  moreover have "tr_pages ?reg = insert p (tr_pages reg)" using dom2 c(7) g(4) by (auto simp: tr_pages_def)
  moreover have "p \<in> tr_pages reg" if "p \<in> U"
    using that g(7) by (auto simp: tr_pages_def)
  moreover have "same_except (- (U - tr_pages reg)) (pg m) (pg m3)"
  proof (rule same_except_trans [OF fr])
    show "same_except {p, pl_page ?pl} (pg m1) (pg m3)"
      using same_except_trans [of "{p}" "pg m1" "pg m2" "{pl_page ?pl}" "pg m3"] w(3) c(3) g(4) by auto
  qed (use U1 calculation(4) in \<open>auto simp: tr_pages_def\<close>)
  ultimately show thesis using that [of pl2 m3] c(2) lw(2) by blast
qed

text \<open>Inserting a record succeeds at an address no record has, or leaves the table as it was.\<close>

lemma insert_spec:
  assumes E: "encoding E V" "V rec" "0 < enc_size E rec" and a: "a = rr_ALIGNMENT E" "2 \<le> a" "a \<le> 65535"
    and m: "inv m" and i: "tr_inv a (pg m) U reg live" and room: "length (pl_pages (tr_page_ledger reg)) < 5460"
    and run: "tr_insert MA E rec (reg, m) = (r, (reg', m'))"
  shows "inv m' \<and> same_except (- (U - tr_pages reg)) (pg m) (pg m') \<and>
    (case r of
       Ok addr \<Rightarrow> live (ra_page addr, ra_offset addr) = None \<and>
         tr_inv a (pg m') (U \<union> tr_pages reg') reg' (live((ra_page addr, ra_offset addr) \<mapsto> raw_of E rec)) \<and>
         tr_pages reg' \<inter> U \<subseteq> tr_pages reg \<and> tr_pages reg \<subseteq> tr_pages reg'
     | Err e \<Rightarrow> reg' = reg \<and> tr_inv a (pg m') U reg live \<and>
         (align_up a (enc_size E rec + 2) \<le> 65535 \<longrightarrow> fst (grow_one_page MA m) = Err e)
     | Panic \<Rightarrow> False)"
proof (cases "align_up a (enc_size E rec + 2) \<le> 65535")
  case False
  have "enc_size E rec \<le> 65535"
    using encoding.size_encode [OF E(1,2)] encoding.size_u16 [OF E(1,2)] by simp
  then have "\<exists>e. ensure_record_fits E rec (page_size MA m) = Err e"
    using footprint_eq [of a "enc_size E rec" "page_size MA m"] False a by (simp add: ensure_record_fits_def)
  then have "\<exists>e. r = Err e \<and> reg' = reg \<and> m' = m" using run by (auto simp: tr_insert_def)
  then show ?thesis using m i False by auto
next
  case True
  let ?fl = "tr_free_segments reg" and ?pl = "tr_page_ledger reg"
  have a0: "0 < a" using a by simp
  note rf = raw_facts [OF E True a0]
  obtain S where inv: "pool_inv (pg m) U" "tr_pages reg \<subseteq> U" "pl_inv a ?pl" "fl_inv a (pg m) ?fl S"
    using i by (elim tr_inv_D)
  obtain f where f: "find_reusable_segment MA (RawRecord E) (new_raw_record E rec) ?fl m = (Ok f, m)"
    using find_reusable_spec [OF m inv(4), of "rr_size (new_raw_record E rec)"]
    by (auto simp: find_reusable_segment_def find_reusable_segment_raw_def Let_def)
  show ?thesis
  proof (cases f)
    case (Some tk)
    obtain m1 off where "tr_insert MA E rec (reg, m) =
        (Ok \<lparr>ra_page = fs_page (tk_segment tk), ra_offset = off\<rparr>, (reg, m1))" "inv m1"
      "live (fs_page (tk_segment tk), off) = None"
      "tr_inv a (pg m1) U reg (live((fs_page (tk_segment tk), off) \<mapsto> raw_of E rec))"
      "same_except (tr_pages reg) (pg m) (pg m1)"
      using insert_reuse [OF E a(1,2) True m i] f Some by blast
    moreover have "U \<union> tr_pages reg = U" using inv(2) by blast
    moreover have "same_except (- (U - tr_pages reg)) (pg m) (pg m1)"
      using calculation(5) by (rule same_except_mono) auto
    ultimately show ?thesis using run by auto
  next
    case None
    obtain rg pl1 m1 where get: "get_page_and_offset_for_record MA (RawRecord E) (new_raw_record E rec) (?pl, m)
       = (rg, (pl1, m1))" by (metis prod.exhaust)
    have sub: "dom (pl_taken ?pl) \<subseteq> U" using inv(2) by (auto simp: tr_pages_def)
    note gs = get_page_spec [OF m inv(1,3) sub _ _ _ _ get, of "align_up a (enc_size E rec + 2)"]
    have gs: "case rg of Ok _ \<Rightarrow> True | Err e \<Rightarrow> pl1 = ?pl \<and> inv m1 \<and> pool_inv (pg m1) U \<and> fst (grow_one_page MA m) = Err e | Panic \<Rightarrow> False"
      using gs room True rf(3,4) a raw_bytes_align_pos [OF rf(2) a0]
      by (cases rg) auto
    show ?thesis
    proof (cases rg)
      case (Ok po)
      obtain p off where po: "po = (p, off)" by (cases po)
      obtain pl2 m2 where ie: "tr_insert MA E rec (reg, m) =
          (Ok \<lparr>ra_page = p, ra_offset = off\<rparr>, (reg\<lparr>tr_page_ledger := pl2\<rparr>, m2))" "inv m2"
        "live (p, off) = None" "p \<in> U \<Longrightarrow> p \<in> tr_pages reg"
        "tr_pages (reg\<lparr>tr_page_ledger := pl2\<rparr>) = insert p (tr_pages reg)"
        "tr_inv a (pg m2) (insert p U) (reg\<lparr>tr_page_ledger := pl2\<rparr>) (live((p, off) \<mapsto> raw_of E rec))"
        "same_except (- (U - tr_pages reg)) (pg m) (pg m2)"
        using insert_end [OF E a(1,2) True m i room f [unfolded None] get [unfolded Ok po]] by blast
      have "U \<union> insert p (tr_pages reg) = insert p U" using inv(2) by blast
      then show ?thesis using run ie by auto
    next
      case (Err e)
      then have eq: "r = Err e" "reg' = reg" "m' = m1"
        using run get gs f None ensure_fits [OF True a0 E(3) a(1)]
        by (auto simp: tr_insert_def get_write_position_def Let_def)
      have "1 \<notin> U" using inv(1) by (auto simp: pool_inv_def)
      then have X: "{1} \<inter> tr_pages reg = {}" "{1} \<subseteq> - (U - tr_pages reg)" using inv(2) by auto
      have fr: "same_except {1} (pg m) (pg m1)" by (rule get_page_frame [OF m inv(1) get])
      have "tr_inv a (pg m1) U reg live"
        using tr_inv_frame [OF i fr X(1) _ inv(2)] gs Err by simp
      then show ?thesis using eq gs Err same_except_mono [OF fr X(2)] by simp
    next
      case Panic
      then show ?thesis using gs by simp
    qed
  qed
qed

text \<open>
  The record at the address is gone afterwards, whether or not its space could be recorded as free;
  every other record is where it was.
\<close>

lemma raw_of_facts:
  assumes E: "encoding E V" "V rec" and rb: "raw_bytes a (raw_of E rec)" and a: "0 < a"
  shows "0 < enc_size E rec" and "align_up a (enc_size E rec + 2) \<le> 65535"
    and "length (raw_of E rec) = enc_size E rec + 2"
proof -
  have "length (raw_of E rec) = enc_size E rec + 2"
    using encoding.size_encode [OF E] by (simp add: rr_encode_def new_raw_record_def)
  then show "0 < enc_size E rec" "align_up a (enc_size E rec + 2) \<le> 65535"
    "length (raw_of E rec) = enc_size E rec + 2"
    using rb by (auto simp: raw_bytes_def)
qed

lemma delete_spec:
  assumes E: "encoding E V" "V rec" and a: "a = rr_ALIGNMENT E" "2 \<le> a"
    and m: "inv m" and i: "tr_inv a (pg m) U reg live"
    and room: "length (fl_tables (tr_free_segments reg)) < 16383"
    and live: "live (ra_page addr, ra_offset addr) = Some (raw_of E rec)"
    and run: "tr_delete MA E rec addr (reg, m) = (r, (reg', m'))"
  shows "inv m' \<and> same_except (- (U - tr_pages reg)) (pg m) (pg m') \<and> r \<noteq> Panic \<and>
     tr_inv a (pg m') (U \<union> tr_pages reg') reg' (live((ra_page addr, ra_offset addr) := None)) \<and>
     tr_pages reg' \<inter> U \<subseteq> tr_pages reg \<and> tr_page_ledger reg' = tr_page_ledger reg"
proof -
  let ?p = "ra_page addr" and ?o = "ra_offset addr" and ?bs = "raw_of E rec"
  let ?fl = "tr_free_segments reg" and ?pl = "tr_page_ledger reg" and ?live = "live((ra_page addr, ra_offset addr) := None)"
  let ?n = "align_up a (enc_size E rec + 2)" and ?s = "\<lparr>fs_page = ra_page addr, fs_offset = ra_offset addr, fs_size = align_up a (enc_size E rec + 2)\<rparr>"
  have a0: "0 < a" using a by simp
  obtain S where inv: "pool_inv (pg m) U" "tr_pages reg \<subseteq> U" "pl_inv a ?pl"
    "stored PageTable (pl_pages ?pl) (pg m ! pl_page ?pl)" "pl_page ?pl \<notin> dom (pl_taken ?pl)"
    "insert (pl_page ?pl) (dom (pl_taken ?pl)) \<inter> fl_pages ?fl = {}"
    "fl_inv a (pg m) ?fl S" "layout a (pl_taken ?pl) (pg m) live (fl_cells a S)"
    using i by (elim tr_inv_D)
  obtain t where t: "raw_bytes a ?bs" "a dvd ?o" "pl_taken ?pl ?p = Some t" "?o + align_up a (length ?bs) \<le> t"
    using live by (elim layout_live [OF inv(8)])
  note rb = raw_of_facts [OF E t(1) a0]
  note rf = raw_facts [OF E rb(1,2) a0]
  have pp: "?p < length (pg m)" "t \<le> 65536" using layout_page [OF inv(8) t(3)] by auto
  have pU: "?p \<in> U" "?p \<notin> fl_pages ?fl" "?p \<noteq> pl_page ?pl" "fl_pages ?fl \<subseteq> U"
    using t(3) inv(2,5,6) by (auto simp: tr_pages_def)
  have npos: "0 < ?n" using raw_bytes_align_pos [OF t(1) a0] rb(3) by simp
  obtain m1 where z: "zero_at MA (RawRecord E) ?p ?o (new_raw_record E rec) m = (Ok (), m1)" "inv m1"
    "pg m1 = (pg m)[?p := splice_at ?o (replicate ?n 0) (pg m ! ?p)]"
    using zero_bytes [OF m pp(1) a0 t(2), of "enc_size E rec + 2"] t(4) pp(2) rb(3) rf(4) a
    by (auto simp: zero_at_def)
  have sm1: "same_except {?p} (pg m) (pg m1)" using z(3) by simp
  have fl1: "fl_inv a (pg m1) ?fl S" using pU by (intro fl_inv_frame [OF inv(7) sm1]) auto
  have pool1: "pool_inv (pg m1) U" using pool_inv_owned [OF inv(1) sm1] z(3) pU by simp
  have reg_live: "region ?p ?o ?n \<subseteq> live_cells a live"
    using live live_cells_mem [of live ?p ?o ?bs] rb(3) by (auto simp: region_def)
  have adn: "a dvd ?n" by simp
  have sok: "seg_ok a ?s"
  proof -
    have "?p < 2 ^ 32" using pp(1) page_count [OF m] by simp
    then show ?thesis using t(2,4) rb(2,3) npos pp(2) adn by (auto simp: seg_ok_def simp del: align_up_dvd)
  qed
  have scells: "seg_cells a ?s = region ?p ?o ?n"
    using adn by (simp add: seg_cells_def seg_end_def region_def)
  have dis: "seg_cells a ?s \<inter> fl_cells a S = {}"
    using scells reg_live layout_free_live [OF inv(8)] by auto
  obtain r2 fl2 m2 where ins: "insert_free_segment_raw MA ?p ?o ?n (?fl, m1) = (r2, (fl2, m2))"
    by (metis prod.exhaust)
  note spec = insert_free_segment_spec [OF a(2) z(2) pool1 fl1 pU(4) room refl sok dis ins]
  have eq: "r = r2" "reg' = reg\<lparr>tr_free_segments := fl2\<rparr>" "m' = m2"
    using run z(1) ins rb(2) rf(4) a by (auto simp: tr_delete_def insert_free_segment_def Let_def)
  have sm2: "same_except (- (U - fl_pages ?fl)) (pg m1) (pg m2)" and im2: "inv m2" using spec by auto
  have sm: "same_except (- (U - tr_pages reg)) (pg m) (pg m2)"
    using t(3) by (intro same_except_trans [OF sm1 sm2]) (auto simp: tr_pages_def)
  have layout2: "layout a (pl_taken ?pl) (pg m2) ?live F" if "F \<subseteq> fl_cells a S \<union> region ?p ?o ?n" for F
  proof -
    have "layout a (pl_taken ?pl) (pg m1) ?live F"
      unfolding z(3) using that rb(3) by (intro layout_erase [OF inv(8) a0 live]) auto
    then show ?thesis
      using inv(2,6) by (intro layout_frame [OF _ sm2]) (auto simp: tr_pages_def)
  qed
  have pls: "pg m2 ! pl_page ?pl = pg m ! pl_page ?pl"
  proof -
    have "pl_page ?pl < length (pg m)" using inv(1,2) pool_inv_pages by (auto simp: tr_pages_def)
    then show ?thesis using sm2 z(3) pU(3) inv(2,6) by (auto simp: same_except_def tr_pages_def)
  qed
  show ?thesis
  proof (cases r2)
    case (Ok u)
    then obtain S2 where sp: "fl_pages ?fl \<subseteq> fl_pages fl2" "fl_pages fl2 \<inter> U \<subseteq> fl_pages ?fl"
      "pool_inv (pg m2) (U \<union> fl_pages fl2)" "fl_inv a (pg m2) fl2 S2"
      "fl_cells a S2 = fl_cells a S \<union> region ?p ?o ?n"
      using spec scells by auto
    have pgs': "tr_pages reg' = tr_pages reg \<union> fl_pages fl2" "U \<union> tr_pages reg' = U \<union> fl_pages fl2"
      using eq sp(1) inv(2) by (auto simp: tr_pages_def)
    have d: "insert (pl_page ?pl) (dom (pl_taken ?pl)) \<inter> fl_pages fl2 = {}"
      using inv(2,6) sp(2) by (auto simp: tr_pages_def)
    have "tr_inv a (pg m2) (U \<union> tr_pages reg') reg' ?live"
      unfolding tr_inv_def using eq sp pls inv layout2 [of "fl_cells a S2"] pgs' d by auto
    moreover have "tr_pages reg' \<inter> U \<subseteq> tr_pages reg"
      using pgs' sp(2) by (auto simp: tr_pages_def)
    ultimately show ?thesis using im2 sm eq Ok by simp
  next
    case (Err e)
    then have sp: "fl2 = ?fl" "pool_inv (pg m2) U" "fl_inv a (pg m2) ?fl S" using spec by auto
    then have reg: "reg' = reg" using eq by simp
    have "U \<union> tr_pages reg = U" using inv(2) by blast
    then have "tr_inv a (pg m2) (U \<union> tr_pages reg') reg' ?live"
      unfolding tr_inv_def using reg sp pls inv layout2 [of "fl_cells a S"] by auto
    then show ?thesis using im2 sm eq reg Err by simp
  next
    case Panic
    then show ?thesis using spec by simp
  qed
qed

text \<open>
  Updating: the new record replaces the old one at the address returned. On an error the old record is
  still there, or it has been removed and the insertion failed.
\<close>

lemma update_in_place_spec:
  assumes E: "encoding E V" "V rec" "V old" and a: "a = rr_ALIGNMENT E" "2 \<le> a"
    and m: "inv m" and i: "tr_inv a (pg m) U reg live"
    and live: "live (ra_page addr, ra_offset addr) = Some (raw_of E old)"
    and sz: "enc_size E rec = enc_size E old"
  obtains m' where "update_in_place MA E rec addr (reg, m) = (Ok addr, (reg, m'))" and "inv m'"
    and "tr_inv a (pg m') U reg (live((ra_page addr, ra_offset addr) \<mapsto> raw_of E rec))"
    and "same_except (tr_pages reg) (pg m) (pg m')"
proof -
  let ?p = "ra_page addr" and ?o = "ra_offset addr" and ?fl = "tr_free_segments reg" and ?pl = "tr_page_ledger reg"
  have a0: "0 < a" using a by simp
  obtain S where inv: "pool_inv (pg m) U" "tr_pages reg \<subseteq> U" "pl_inv a ?pl"
    "stored PageTable (pl_pages ?pl) (pg m ! pl_page ?pl)" "pl_page ?pl \<notin> dom (pl_taken ?pl)"
    "insert (pl_page ?pl) (dom (pl_taken ?pl)) \<inter> fl_pages ?fl = {}"
    "fl_inv a (pg m) ?fl S" "layout a (pl_taken ?pl) (pg m) live (fl_cells a S)"
    using i by (elim tr_inv_D)
  obtain t where t: "raw_bytes a (raw_of E old)" "a dvd ?o" "pl_taken ?pl ?p = Some t"
    "?o + align_up a (length (raw_of E old)) \<le> t"
    using live by (elim layout_live [OF inv(8)])
  note rb = raw_of_facts [OF E(1,3) t(1) a0]
  note rf = raw_facts [OF E(1,2) _ _ a0, unfolded sz, OF rb(1,2)]
  have pp: "?p < length (pg m)" "t \<le> 65536" using layout_page [OF inv(8) t(3)] by auto
  obtain m1 where w: "Memory_Access.write_at MA (RawRecord E) ?p ?o (new_raw_record E rec) m = (Ok (), m1)" "inv m1"
    "pg m1 = (pg m)[?p := splice_at ?o (padded a (raw_of E rec)) (pg m ! ?p)]"
    using write_at_ok [OF m pp(1), of "RawRecord E" ?o "new_raw_record E rec"] a0 a t pp(2) rf(3) rb(3) by auto
  have l1: "layout a (pl_taken ?pl) (pg m1) (live((?p, ?o) \<mapsto> raw_of E rec)) (fl_cells a S)"
    unfolding w(3) using rf(2,3) rb(3) by (intro layout_overwrite [OF inv(8) a0 live]) auto
  have pU: "?p \<in> tr_pages reg" "?p \<notin> fl_pages ?fl" "?p \<noteq> pl_page ?pl"
    using t(3) inv(5,6) by (auto simp: tr_pages_def)
  have sm: "same_except {?p} (pg m) (pg m1)" using w(3) by simp
  have "tr_inv a (pg m1) U reg (live((?p, ?o) \<mapsto> raw_of E rec))"
    unfolding tr_inv_def
    using inv l1 pU w(3) pool_inv_owned [OF inv(1) sm] fl_inv_frame [OF inv(7) sm] by auto
  moreover have "update_in_place MA E rec addr (reg, m) = (Ok addr, (reg, m1))"
    using w(1) by (simp add: update_in_place_def)
  moreover have "same_except (tr_pages reg) (pg m) (pg m1)" using sm pU(1) by (auto intro: same_except_mono)
  ultimately show thesis using that w(2) by blast
qed

lemma update_spec:
  assumes E: "encoding E V" "V rec" "V old" "0 < enc_size E rec" and a: "a = rr_ALIGNMENT E" "2 \<le> a" "a \<le> 65535"
    and m: "inv m" and i: "tr_inv a (pg m) U reg live"
    and room: "length (pl_pages (tr_page_ledger reg)) < 5460" "length (fl_tables (tr_free_segments reg)) < 16383"
    and live: "live (ra_page addr, ra_offset addr) = Some (raw_of E old)"
    and run: "tr_update MA E rec old addr (reg, m) = (r, (reg', m'))"
  shows "inv m' \<and> same_except (- (U - tr_pages reg)) (pg m) (pg m') \<and>
    (case r of
       Ok addr' \<Rightarrow>
         tr_inv a (pg m') (U \<union> tr_pages reg') reg' ((live((ra_page addr, ra_offset addr) := None))
           ((ra_page addr', ra_offset addr') \<mapsto> raw_of E rec)) \<and>
         (live((ra_page addr, ra_offset addr) := None)) (ra_page addr', ra_offset addr') = None
     | Err e \<Rightarrow>
         tr_inv a (pg m') U reg' live \<or>
         tr_inv a (pg m') (U \<union> tr_pages reg') reg' (live((ra_page addr, ra_offset addr) := None))
     | Panic \<Rightarrow> False)"
proof (cases "ensure_record_fits E rec (page_size MA m)")
  case (Ok u)
  have sub: "tr_pages reg \<subseteq> U" using i by (elim tr_inv_D)
  show ?thesis
  proof (cases "enc_size E rec = enc_size E old")
    case True
    obtain m1 where u: "update_in_place MA E rec addr (reg, m) = (Ok addr, (reg, m1))" "inv m1"
      "tr_inv a (pg m1) U reg (live((ra_page addr, ra_offset addr) \<mapsto> raw_of E rec))"
      "same_except (tr_pages reg) (pg m) (pg m1)"
      using update_in_place_spec [OF E(1-3) a(1,2) m i live True] by blast
    have "r = Ok addr \<and> reg' = reg \<and> m' = m1" using run Ok True u(1) by (auto simp: tr_update_def)
    moreover have "U \<union> tr_pages reg = U" using sub by blast
    moreover have "same_except (- (U - tr_pages reg)) (pg m) (pg m1)"
      using u(4) by (rule same_except_mono) auto
    ultimately show ?thesis using u by simp
  next
    case False
    obtain rd reg1 m1 where d: "tr_delete MA E old addr (reg, m) = (rd, (reg1, m1))" by (metis prod.exhaust)
    let ?live = "live((ra_page addr, ra_offset addr) := None)"
    have ds: "inv m1" "same_except (- (U - tr_pages reg)) (pg m) (pg m1)" "rd \<noteq> Panic"
      "tr_inv a (pg m1) (U \<union> tr_pages reg1) reg1 ?live" "tr_pages reg1 \<inter> U \<subseteq> tr_pages reg"
      "tr_page_ledger reg1 = tr_page_ledger reg"
      using delete_spec [OF E(1,3) a(1,2) m i room(2) live d] by auto
    show ?thesis
    proof (cases rd)
      case (Ok v)
      then have ins: "tr_insert MA E rec (reg1, m1) = (r, (reg', m'))"
        using run \<open>ensure_record_fits E rec (page_size MA m) = Ok u\<close> False d
        by (simp add: tr_update_def update_by_realloc_def)
      have room1: "length (pl_pages (tr_page_ledger reg1)) < 5460" using room(1) ds(6) by simp
      let ?U = "U \<union> tr_pages reg1"
      note sp = insert_spec [OF E(1,2,4) a ds(1,4) room1 ins]
      have sm: "same_except (- (U - tr_pages reg)) (pg m) (pg m')"
        using sp ds(5) by (intro same_except_trans [OF ds(2), of "- (?U - tr_pages reg1)"]) auto
      show ?thesis
      proof (cases r)
        case (Ok addr')
        then have "U \<union> tr_pages reg1 \<union> tr_pages reg' = U \<union> tr_pages reg'" using sp by auto
        then show ?thesis using sp sm Ok by (auto simp: Un_assoc)
      next
        case (Err e)
        then show ?thesis using sp sm by auto
      next
        case Panic
        then show ?thesis using sp by simp
      qed
    next
      case (Err e)
      then have "r = Err e \<and> reg' = reg1 \<and> m' = m1"
        using run \<open>ensure_record_fits E rec (page_size MA m) = Ok u\<close> False d
        by (auto simp: tr_update_def update_by_realloc_def)
      then show ?thesis using ds by simp
    next
      case Panic
      then show ?thesis using ds(3) by simp
    qed
  qed
next
  case (Err e)
  then have "r = Err e \<and> reg' = reg \<and> m' = m" using run by (auto simp: tr_update_def)
  then show ?thesis using m i by simp
next
  case Panic
  then show ?thesis
    by (auto simp: ensure_record_fits_def raw_record_footprint_def Let_def split: if_splits)
qed

text \<open>Reading at the address of a live record gives the record.\<close>

lemma read_spec:
  assumes E: "encoding E V" "V rec" and a: "a = rr_ALIGNMENT E" "2 \<le> a"
    and m: "inv m" and i: "tr_inv a (pg m) U reg live"
    and live: "live (ra_page addr, ra_offset addr) = Some (raw_of E rec)"
  shows "tr_read_at MA E addr m = (Ok rec, m)"
proof -
  let ?p = "ra_page addr" and ?o = "ra_offset addr" and ?bs = "raw_of E rec" and ?pl = "tr_page_ledger reg"
  have a0: "0 < a" using a by simp
  obtain S where l: "layout a (pl_taken ?pl) (pg m) live (fl_cells a S)" using i by (elim tr_inv_D)
  obtain t where t: "raw_bytes a ?bs" "a dvd ?o" "pl_taken ?pl ?p = Some t" "?o + align_up a (length ?bs) \<le> t"
    using live by (elim layout_live [OF l])
  note rb = raw_of_facts [OF E t(1) a0]
  note rf = raw_facts [OF E rb(1,2) a0]
  have pp: "?p < length (pg m)" "length (pg m ! ?p) = 65536" "t \<le> 65536" using layout_page [OF l t(3)] by auto
  have sl: "slice ?o (length ?bs) (pg m ! ?p) = ?bs" using live_slice [OF l a0 live] .
  have ole: "?o + length ?bs \<le> 65536" using t(4) pp(3) align_up_ge [OF a0, of "length ?bs"] by simp
  show ?thesis
  proof (cases "SIZE E")
    case (Fixed n)
    have "n = enc_size E rec" using encoding.fixed_size [OF E Fixed] encoding.size_encode [OF E] by simp
    then have rl: "read_len (rr_SIZE E) ?o = length ?bs"
      using Fixed rb(3) by (simp add: read_len_def rr_SIZE_def RAW_RECORD_HEADER_SIZE_def)
    have "read_at MA (RawRecord E) ?p ?o m = (rr_decode E ?bs, m)"
      using read_at_ok [OF m pp(1), of "RawRecord E" ?o] rl sl ole a t(2) by simp
    moreover have "rr_decode E ?bs = Ok (new_raw_record E rec)"
      using encoding.rr_decode_encode [OF E(1) rf(1), of "[]"] by simp
    ultimately show ?thesis by (simp add: tr_read_at_def Fixed new_raw_record_def)
  next
    case Dynamic
    have le: "2 \<le> length ?bs" using rb by simp
    have hd: "slice ?o 2 (pg m ! ?p) = take 2 ?bs"
      using take_slice [of 2 "length ?bs" ?o "pg m ! ?p"] sl le ole pp(2) by simp
    have th: "take 2 ?bs = le_bytes 2 (enc_size E rec)" by (simp add: rr_encode_def new_raw_record_def)
    have n: "enc_size E rec \<le> 65533"
      using rb(2) align_up_ge [OF a0, of "enc_size E rec + 2"] by simp
    have "slice (?o + 2) (length ?bs - 2) (pg m ! ?p) = drop 2 ?bs"
      using drop_slice [of 2 ?o "length ?bs" "pg m ! ?p"] sl by simp
    then have body: "slice (?o + 2) (enc_size E rec) (pg m ! ?p) = encode E rec"
      using rb(3) by (simp add: rr_encode_def new_raw_record_def)
    have r1: "read_at_raw MA ?p ?o (replicate 2 0) m = (Ok (2, le_bytes 2 (enc_size E rec)), m)"
      using read_raw [OF m pp(1), of ?o 2 "replicate 2 0"] hd th ole le by simp
    have r2: "read_at_raw MA ?p (?o + 2) (replicate (enc_size E rec) 0) m =
        (Ok (enc_size E rec, encode E rec), m)"
      using read_raw [OF m pp(1), of "?o + 2" "enc_size E rec" "replicate (enc_size E rec) 0"] body ole rb(3) by simp
    have o16: "as_u16 (?o + 2) = ?o + 2" using ole rb by (intro as_u16_id) simp
    show ?thesis
      using r1 r2 o16 a t(2) n ole rb(3) encoding.decode_encode [OF E]
      by (simp add: tr_read_at_def Dynamic RAW_RECORD_HEADER_SIZE_def page_size Let_def)
  qed
qed

text \<open>Loading the registry from its pages gives the registry whose state they hold.\<close>

lemma load_spec:
  fixes reg :: table_registry
  assumes m: "inv m" and i: "tr_inv a (pg m) U reg live"
  shows "tr_load MA (pl_page (tr_page_ledger reg)) (fl_page (tr_free_segments reg)) m = (Ok reg, m)"
proof -
  let ?fl = "tr_free_segments reg" and ?pl = "tr_page_ledger reg"
  obtain S where inv: "pool_inv (pg m) U" "tr_pages reg \<subseteq> U" "pl_inv a ?pl"
    "stored PageTable (pl_pages ?pl) (pg m ! pl_page ?pl)" "fl_inv a (pg m) ?fl S"
    using i by (elim tr_inv_D)
  have "pl_page ?pl < length (pg m)" using inv(1,2) pool_inv_pages by (auto simp: tr_pages_def)
  then have "pl_load MA (pl_page ?pl) m = (Ok ?pl, m)"
    using pl_load_ok [OF m _ pl_inv_wf [OF inv(3)] inv(4)] by simp
  moreover have "fl_load MA (fl_page ?fl) m = (Ok ?fl, m)"
    using fl_load_ok [OF m, of "fl_page ?fl" "fl_tables ?fl"] inv(5) by (simp add: fl_inv_def)
  ultimately show ?thesis by (simp add: tr_load_def)
qed

end

section \<open>An empty table\<close>

text \<open>The ledger pages of a table as they are after they have been claimed.\<close>

definition empty_table :: "nat \<Rightarrow> nat \<Rightarrow> table_registry" where
  "empty_table p q = \<lparr>tr_page_ledger = \<lparr>pl_page = p, pl_pages = []\<rparr>,
     tr_free_segments = \<lparr>fl_page = q, fl_tables = []\<rparr>\<rparr>"

lemma stored_zero_page:
  assumes "encode C x = replicate k 0" and "k \<le> 65536"
  shows "stored C x (replicate 65536 0)"
proof -
  have "replicate (k + (65536 - k)) 0 = replicate k 0 @ replicate (65536 - k) (0 :: byte)"
    by (rule replicate_add)
  moreover have "k + (65536 - k) = 65536" using assms(2) by simp
  ultimately have "replicate 65536 0 = encode C x @ replicate (65536 - k) (0 :: byte)"
    using assms(1) by (simp only:)
  then show ?thesis unfolding stored_def by blast
qed

lemma empty_table_inv:
  assumes pool: "pool_inv pgs U" and p: "p \<in> U" "q \<in> U" "p \<noteq> q"
    and z: "pgs ! p = replicate 65536 0" "pgs ! q = replicate 65536 0"
  shows "tr_inv a pgs U (empty_table p q) Map.empty"
proof -
  have "encode PageTable [] = replicate 4 0" "encode PagesTable [] = replicate 2 0"
    by (simp_all add: PageTable_def pt_encode_def PagesTable_def pgt_encode_def as_u32_def as_u16_def le_bytes_0)
  then have st: "stored PageTable [] (pgs ! p)" "stored PagesTable [] (pgs ! q)"
    unfolding z by (auto intro: stored_zero_page)
  have "fl_inv a pgs \<lparr>fl_page = q, fl_tables = []\<rparr> []"
    using st(2) p(2) pool pool_inv_pages by (auto simp: fl_inv_def pgt_wf_def)
  moreover have "pl_taken \<lparr>pl_page = p, pl_pages = []\<rparr> = Map.empty"
    by (auto simp: pl_taken_def fun_eq_iff)
  moreover have "layout a Map.empty pgs Map.empty (fl_cells a [])"
    by (rule layoutI) (auto simp: fl_cells_def)
  ultimately show ?thesis
    using pool p st(1) by (auto simp: tr_inv_def empty_table_def tr_pages_def pl_inv_def fl_pages_def)
qed

end
