(* ===== verification/Table_Reader.thy ===== *)
theory Table_Reader
  imports Table_Registry
begin

text \<open>
  \<^verbatim>\<open>table_registry/table_reader.rs\<close>: reading every record of a table by scanning its pages in ledger
  order. Slots without a record are recognised by a zero length, which the layout guarantees.
\<close>

section \<open>Model\<close>

record table_reader =
  rd_buffer :: "byte list"
  rd_position :: "(nat \<times> nat) option"

record found_record =
  fr_page :: nat
  fr_offset :: nat
  fr_length :: nat
  fr_new_position :: "(nat \<times> nat) option"

record 'e next_record =
  nr_record :: 'e
  nr_page :: nat
  nr_offset :: nat

definition reader_new :: "'m mem_ops \<Rightarrow> page_ledger \<Rightarrow> 'm \<Rightarrow> table_reader" where
  "reader_new MA pl m = \<lparr>rd_buffer = replicate (page_size MA m) 0,
     rd_position = (case pl_pages pl of [] \<Rightarrow> None | pr # _ \<Rightarrow> Some (pr_page pr, 0))\<rparr>"

definition reader_next_page :: "page_ledger \<Rightarrow> nat \<Rightarrow> (nat \<times> nat) option" where
  "reader_next_page pl current_page = map_option (\<lambda>page. (page, 0)) (next_page_after pl current_page)"

text \<open>
  The loop of \<^verbatim>\<open>find_next_record_position\<close>, at a slot boundary. The alignment of a raw record is
  positive; with a zero alignment the Rust loop would not advance.
\<close>

function find_slot :: "nat \<Rightarrow> byte list \<Rightarrow> nat \<Rightarrow> (nat \<times> nat) option memory_result" where
  "find_slot a buf offset =
     (if offset + 1 \<ge> length buf then Ok None
      else let data_len = from_le [buf ! offset, buf ! (offset + 1)] in
        if data_len \<noteq> 0
        then (if length buf < offset + RAW_RECORD_HEADER_SIZE + data_len then Err (DecodeError TooShort)
              else Ok (Some (as_u16 offset, wrap_add16 data_len RAW_RECORD_HEADER_SIZE)))
        else if a = 0 then Panic else find_slot a buf (offset + a))"
  by pat_completeness auto

termination
  by (relation "measure (\<lambda>(a, buf, offset). length buf - offset)") auto

declare find_slot.simps [simp del]

definition find_next_record_position :: "nat \<Rightarrow> byte list \<Rightarrow> nat \<Rightarrow> (nat \<times> nat) option memory_result" where
  "find_next_record_position a buf offset = find_slot a buf (align_up a offset)"

text \<open>
  The loop over the pages. Each round moves to the next page of the ledger, so as many rounds as the
  ledger has pages are enough when the pages are distinct.
\<close>

fun find_next_record ::
  "'m mem_ops \<Rightarrow> nat \<Rightarrow> page_ledger \<Rightarrow> nat \<Rightarrow> nat \<Rightarrow> nat \<Rightarrow> (table_reader \<times> 'm, found_record option) mem_prog" where
  "find_next_record MA a pl 0 page offset s = (Panic, s)"
| "find_next_record MA a pl (Suc fuel) page offset (rd, m) =
     (case (if offset = 0 then read_at_raw MA page 0 (rd_buffer rd) m else (Ok (0, rd_buffer rd), m)) of
        (Ok (_, buf), m') \<Rightarrow>
          (let rd' = rd\<lparr>rd_buffer := buf\<rparr> in
           case find_next_record_position a buf offset of
             Ok (Some (seg_offset, seg_size)) \<Rightarrow>
               (let new_offset = seg_offset + seg_size;
                    new_position = (if new_offset \<ge> page_size MA m' then reader_next_page pl page
                                    else Some (page, as_u16 new_offset)) in
                (Ok (Some \<lparr>fr_page = page, fr_offset = seg_offset, fr_length = seg_size,
                           fr_new_position = new_position\<rparr>), (rd', m')))
           | Ok None \<Rightarrow>
               (case reader_next_page pl page of
                  Some (page', offset') \<Rightarrow> find_next_record MA a pl fuel page' offset' (rd', m')
                | None \<Rightarrow> (Ok None, (rd', m')))
           | Err e \<Rightarrow> (Err e, (rd', m'))
           | Panic \<Rightarrow> (Panic, (rd', m')))
      | (Err e, m') \<Rightarrow> (Err e, (rd, m'))
      | (Panic, m') \<Rightarrow> (Panic, (rd, m')))"

definition reader_try_next ::
  "'m mem_ops \<Rightarrow> 'e codec \<Rightarrow> page_ledger \<Rightarrow> (table_reader \<times> 'm, 'e next_record option) mem_prog" where
  "reader_try_next MA E pl s =
     (case rd_position (fst s) of
        None \<Rightarrow> (Ok None, s)
      | Some (page, offset) \<Rightarrow>
          (case find_next_record MA (rr_ALIGNMENT E) pl (length (pl_pages pl)) page offset s of
             (Ok None, (rd, m)) \<Rightarrow> (Ok None, (rd\<lparr>rd_position := None\<rparr>, m))
           | (Ok (Some nr), (rd, m)) \<Rightarrow>
               (case bind_outcome (slice_or_panic (fr_offset nr) (fr_length nr) (rd_buffer rd)) (rr_decode E) of
                  Ok raw \<Rightarrow> (Ok (Some \<lparr>nr_record = rr_data raw, nr_page = fr_page nr, nr_offset = fr_offset nr\<rparr>),
                            (rd\<lparr>rd_position := fr_new_position nr\<rparr>, m))
                | Err e \<Rightarrow> (Err e, (rd, m))
                | Panic \<Rightarrow> (Panic, (rd, m)))
           | (Err e, s') \<Rightarrow> (Err e, s')
           | (Panic, s') \<Rightarrow> (Panic, s')))"

text \<open>The loop of the callers, \<^verbatim>\<open>while let Some(record) = reader.try_next()?\<close>.\<close>

fun read_all ::
  "'m mem_ops \<Rightarrow> 'e codec \<Rightarrow> page_ledger \<Rightarrow> nat \<Rightarrow> (table_reader \<times> 'm, 'e next_record list) mem_prog" where
  "read_all MA E pl 0 = panic"
| "read_all MA E pl (Suc fuel) =
     mbind (reader_try_next MA E pl) (\<lambda>next.
       case next of
         None \<Rightarrow> ret []
       | Some r \<Rightarrow> mbind (read_all MA E pl fuel) (\<lambda>rs. ret (r # rs)))"

section \<open>Finding the next slot\<close>

text \<open>\<open>x\<close> is not inside a record of page \<open>p\<close>.\<close>

definition slot_boundary :: "nat \<Rightarrow> live_map \<Rightarrow> nat \<Rightarrow> nat \<Rightarrow> bool" where
  "slot_boundary a live p x \<longleftrightarrow> a dvd x \<and>
     (\<forall>off bs. live (p, off) = Some bs \<longrightarrow> off < x \<longrightarrow> off + align_up a (length bs) \<le> x)"

lemma slot_boundary_after:
  assumes l: "layout a taken pgs live free" and live: "live (p, off) = Some bs"
  shows "slot_boundary a live p (off + align_up a (length bs))"
proof -
  obtain t where "a dvd off" using live by (elim layout_live [OF l])
  moreover have "o' + align_up a (length cs) \<le> off + align_up a (length bs)"
    if "live (p, o') = Some cs" "o' < off + align_up a (length bs)" for o' cs
  proof (cases o' off rule: linorder_cases)
    case less
    then show ?thesis using layout_order [OF l that(1) live] by simp
  next
    case equal
    then show ?thesis using that(1) live by simp
  next
    case greater
    then show ?thesis using layout_order [OF l live that(1)] that(2) by simp
  qed
  ultimately show ?thesis by (auto simp: slot_boundary_def)
qed

lemma slot_empty:
  assumes l: "layout a taken pgs live free" and a: "2 \<le> a" and b: "slot_boundary a live p x"
    and none: "live (p, x) = None" and d: "i < a"
  shows "(p, x + i) \<notin> live_cells a live"
proof
  assume "(p, x + i) \<in> live_cells a live"
  then obtain o' cs where o': "live (p, o') = Some cs" "o' \<le> x + i" "x + i < o' + align_up a (length cs)"
    by (auto simp: live_cells_def)
  then have "a dvd o'" by (elim layout_live [OF l])
  have ax: "a dvd x" using b by (simp add: slot_boundary_def)
  consider "o' < x" | "o' = x" | "x < o'" by linarith
  then show False
  proof cases
    case 1
    then show ?thesis using b o' by (fastforce simp: slot_boundary_def)
  next
    case 2
    then show ?thesis using o'(1) none by simp
  next
    case 3
    then have "a dvd o' - x" "0 < o' - x" using \<open>a dvd o'\<close> ax by (auto intro: dvd_diff_nat)
    then have "a \<le> o' - x" by (rule dvd_imp_le)
    then show ?thesis using o'(2) d by linarith
  qed
qed

lemma two_bytes: "x + 1 < length buf \<Longrightarrow> [buf ! x, buf ! (x + 1)] = slice x 2 buf"
  by (intro nth_equalityI) (auto simp: nth_slice less_2_cases_iff nth_Cons split: nat.splits)

lemma find_slot_record:
  assumes l: "layout a taken pgs live free" and a: "2 \<le> a" and live: "live (p, x) = Some bs"
  shows "find_slot a (pgs ! p) x = Ok (Some (x, length bs))"
proof -
  obtain t where t: "raw_bytes a bs" "taken p = Some t" "x + align_up a (length bs) \<le> t"
    using live by (elim layout_live [OF l])
  have a0: "0 < a" using a by simp
  have pp: "length (pgs ! p) = 65536" "t \<le> 65536" using layout_page [OF l t(2)] by auto
  have ge: "length bs \<le> align_up a (length bs)" using a0 by (rule align_up_ge)
  have rb: "2 < length bs" "length bs \<le> 65535" "take 2 bs = le_bytes 2 (length bs - 2)"
    using t(1) ge by (auto simp: raw_bytes_def)
  have le: "x + length bs \<le> 65536" using t(3) pp(2) ge by simp
  have "slice x 2 (pgs ! p) = take 2 (slice x (length bs) (pgs ! p))"
    using rb le pp by (intro take_slice [symmetric]) auto
  then have "[pgs ! p ! x, pgs ! p ! (x + 1)] = le_bytes 2 (length bs - 2)"
    using two_bytes [of x "pgs ! p"] live_slice [OF l a0 live] rb le pp by simp
  then have "from_le [pgs ! p ! x, pgs ! p ! (x + 1)] = length bs - 2"
    using rb by (simp only:) simp
  moreover have "as_u16 x = x" using le rb by (intro as_u16_id) simp
  moreover have "wrap_add16 (length bs - 2) 2 = length bs" using rb by (simp add: wrap_add16_def)
  ultimately show ?thesis
    using rb le pp by (subst find_slot.simps) (simp add: RAW_RECORD_HEADER_SIZE_def Let_def)
qed

lemma find_slot_skip:
  assumes l: "layout a taken pgs live free" and t: "taken p = Some t" and a: "2 \<le> a"
    and b: "slot_boundary a live p x" and none: "live (p, x) = None" and x: "x + 1 < 65536"
  shows "find_slot a (pgs ! p) x = find_slot a (pgs ! p) (x + a)" and "slot_boundary a live p (x + a)"
proof -
  have pp: "length (pgs ! p) = 65536" using layout_page [OF l t] by auto
  have "(p, x + 0) \<notin> live_cells a live" "(p, x + 1) \<notin> live_cells a live"
    using slot_empty [OF l a b none, of 0] slot_empty [OF l a b none, of 1] a by simp_all
  then have "pgs ! p ! x = 0" "pgs ! p ! (x + 1) = 0" using layout_zero [OF l t] x by auto
  then show "find_slot a (pgs ! p) x = find_slot a (pgs ! p) (x + a)"
    using x pp a by (subst find_slot.simps) (simp add: Let_def)
  have "off + align_up a (length bs) \<le> x + a" if "live (p, off) = Some bs" "off < x + a" for off bs
  proof -
    have "a dvd off" using that(1) by (elim layout_live [OF l])
    have "off \<noteq> x" using that(1) none by auto
    moreover have "\<not> x < off"
    proof
      assume "x < off"
      then have "a dvd off - x" using \<open>a dvd off\<close> b by (auto simp: slot_boundary_def)
      then have "a \<le> off - x" using \<open>x < off\<close> by (intro dvd_imp_le) auto
      then show False using that(2) \<open>x < off\<close> by linarith
    qed
    ultimately have "off < x" by simp
    then have "off + align_up a (length bs) \<le> x" using b that(1) unfolding slot_boundary_def by blast
    then show ?thesis by simp
  qed
  then show "slot_boundary a live p (x + a)" using b by (auto simp: slot_boundary_def)
qed

lemma find_slot_spec:
  assumes l: "layout a taken pgs live free" and t: "taken p = Some t" and a: "2 \<le> a"
    and b: "slot_boundary a live p x"
  shows "(\<forall>off \<ge> x. live (p, off) = None) \<and> find_slot a (pgs ! p) x = Ok None \<or>
     (\<exists>off bs. x \<le> off \<and> live (p, off) = Some bs \<and> (\<forall>o' \<ge> x. o' < off \<longrightarrow> live (p, o') = None) \<and>
        find_slot a (pgs ! p) x = Ok (Some (off, length bs)))"
  using b
proof (induction "65536 - x" arbitrary: x rule: less_induct)
  case less
  have pp: "length (pgs ! p) = 65536" using layout_page [OF l t] by auto
  have above: "live (p, off) = None" if "65535 \<le> off" for off
  proof (rule ccontr)
    assume "live (p, off) \<noteq> None"
    then obtain bs where lv: "live (p, off) = Some bs" by auto
    then obtain u where "raw_bytes a bs" "taken p = Some u" "off + align_up a (length bs) \<le> u"
      by (elim layout_live [OF l])
    moreover have "length bs \<le> align_up a (length bs)" using a by (intro align_up_ge) simp
    ultimately show False using that layout_page [OF l] by (fastforce simp: raw_bytes_def)
  qed
  show ?case
  proof (cases "x + 1 < 65536")
    case False
    then have "find_slot a (pgs ! p) x = Ok None" using pp by (subst find_slot.simps) simp
    moreover have "\<forall>off \<ge> x. live (p, off) = None" using above False by auto
    ultimately show ?thesis by simp
  next
    case True
    show ?thesis
    proof (cases "live (p, x)")
      case (Some bs)
      then show ?thesis using find_slot_record [OF l a Some] by auto
    next
      case None
      note sk = find_slot_skip [OF l t a less.prems None True]
      have gap: "live (p, off) = None" if "x \<le> off" "off < x + a" for off
      proof (rule ccontr)
        assume "live (p, off) \<noteq> None"
        then obtain bs where lv: "live (p, off) = Some bs" by auto
        have "raw_bytes a bs" using lv by (elim layout_live [OF l])
        then have "0 < align_up a (length bs)" using a by (intro raw_bytes_align_pos) auto
        then have "(p, x + (off - x)) \<in> live_cells a live"
          using that lv by (intro live_cells_mem [of live p off bs]) auto
        then show False using slot_empty [OF l a less.prems None, of "off - x"] that by linarith
      qed
      have "65536 - (x + a) < 65536 - x" using True a by simp
      from less.hyps [OF this sk(2)] show ?thesis
      proof (elim disjE exE conjE)
        assume h: "\<forall>off \<ge> x + a. live (p, off) = None" "find_slot a (pgs ! p) (x + a) = Ok None"
        have "live (p, off) = None" if "x \<le> off" for off
          using that h(1) gap by (cases "off < x + a") auto
        then show ?thesis using h sk(1) by simp
      next
        fix off bs
        assume h: "x + a \<le> off" "live (p, off) = Some bs" "\<forall>o' \<ge> x + a. o' < off \<longrightarrow> live (p, o') = None"
          "find_slot a (pgs ! p) (x + a) = Ok (Some (off, length bs))"
        have "live (p, o') = None" if "x \<le> o'" "o' < off" for o'
          using that h(3) gap by (cases "o' < x + a") auto
        then show ?thesis using h sk(1) by (intro disjI2 exI [of _ off] exI [of _ bs]) auto
      qed
    qed
  qed
qed

section \<open>The order of a scan\<close>

text \<open>The addresses of the records of page \<open>p\<close> from \<open>x\<close> on, and of all pages still to be visited.\<close>

definition page_addrs :: "live_map \<Rightarrow> nat \<Rightarrow> nat \<Rightarrow> (nat \<times> nat) list" where
  "page_addrs live p x = map (Pair p) (sorted_list_of_set {off. x \<le> off \<and> live (p, off) \<noteq> None})"

definition remaining :: "live_map \<Rightarrow> nat \<Rightarrow> nat \<Rightarrow> page_record list \<Rightarrow> (nat \<times> nat) list" where
  "remaining live p x prs = page_addrs live p x @ concat (map (\<lambda>pr. page_addrs live (pr_page pr) 0) prs)"

lemma finite_live_page:
  assumes l: "layout a taken pgs live free" and a: "0 < a"
  shows "finite {off. x \<le> off \<and> live (p, off) \<noteq> None}"
proof (rule finite_subset)
  show "{off. x \<le> off \<and> live (p, off) \<noteq> None} \<subseteq> {..65536}"
  proof
    fix off assume "off \<in> {off. x \<le> off \<and> live (p, off) \<noteq> None}"
    then obtain bs where lv: "live (p, off) = Some bs" by auto
    then obtain t where "taken p = Some t" "off + align_up a (length bs) \<le> t"
      by (elim layout_live [OF l])
    then show "off \<in> {..65536}" using layout_page [OF l] by fastforce
  qed
qed simp

lemma page_addrs_Nil: "\<forall>off \<ge> x. live (p, off) = None \<Longrightarrow> page_addrs live p x = []"
proof -
  assume "\<forall>off \<ge> x. live (p, off) = None"
  then have "{off. x \<le> off \<and> live (p, off) \<noteq> None} = {}" by auto
  then show ?thesis unfolding page_addrs_def by (simp only:) simp
qed

lemma page_addrs_align:
  assumes l: "layout a taken pgs live free" and a: "0 < a"
  shows "page_addrs live p (align_up a x) = page_addrs live p x"
proof -
  have "x \<le> off \<longleftrightarrow> align_up a x \<le> off" if lv: "live (p, off) = Some bs" for off bs
  proof -
    have "a dvd off" using lv by (elim layout_live [OF l])
    then show ?thesis using align_up_least [OF a] align_up_ge [OF a, of x] by (meson order_trans)
  qed
  then have "{off. align_up a x \<le> off \<and> live (p, off) \<noteq> None} = {off. x \<le> off \<and> live (p, off) \<noteq> None}"
    by auto
  then show ?thesis by (simp add: page_addrs_def)
qed

lemma page_addrs_Cons:
  assumes l: "layout a taken pgs live free" and a: "0 < a" and lv: "live (p, off) = Some bs"
    and x: "x \<le> off" and first: "\<forall>o' \<ge> x. o' < off \<longrightarrow> live (p, o') = None"
  shows "page_addrs live p x = (p, off) # page_addrs live p (off + length bs)"
proof -
  let ?A = "{o'. x \<le> o' \<and> live (p, o') \<noteq> None}"
  have fin: "finite ?A" using l a by (rule finite_live_page)
  have "raw_bytes a bs" using lv by (elim layout_live [OF l])
  then have pos: "0 < length bs" by (auto simp: raw_bytes_def)
  have mem: "off \<in> ?A" using lv x by simp
  have min: "Min ?A = off"
  proof (rule Min_eqI [OF fin _ mem])
    fix y assume "y \<in> ?A"
    then show "off \<le> y" using first by (metis (mono_tags, lifting) linorder_not_le mem_Collect_eq)
  qed
  have gap: "off + length bs \<le> y" if y: "live (p, y) = Some cs" "off < y" for y cs
  proof -
    have "off + align_up a (length bs) \<le> y" using layout_order [OF l lv y(1)] y(2) by simp
    then show ?thesis using align_up_ge [OF a, of "length bs"] by linarith
  qed
  have "?A - {off} = {o'. off + length bs \<le> o' \<and> live (p, o') \<noteq> None}" (is "?L = ?R")
  proof (rule set_eqI, rule iffI)
    fix y assume y: "y \<in> ?L"
    then have "off < y" using first by (metis (mono_tags, lifting) DiffE linorder_neqE_nat mem_Collect_eq singletonI)
    then show "y \<in> ?R" using y gap by auto
  next
    fix y assume "y \<in> ?R"
    then show "y \<in> ?L" using x pos by auto
  qed
  then have "sorted_list_of_set ?A = off # sorted_list_of_set {o'. off + length bs \<le> o' \<and> live (p, o') \<noteq> None}"
    using sorted_list_of_set_nonempty [OF fin] mem min by (metis empty_iff)
  then show ?thesis unfolding page_addrs_def by (simp only: list.map)
qed

lemma next_page_split:
  assumes "distinct (map pr_page (pre @ pr # suf))" and "pl_pages pl = pre @ pr # suf"
  shows "reader_next_page pl (pr_page pr) = (case suf of [] \<Rightarrow> None | pr' # _ \<Rightarrow> Some (pr_page pr', 0))"
proof -
  have "position (\<lambda>r. pr_page r = pr_page pr) (pre @ pr # suf) = Some (length pre)"
    using assms(1) by (auto simp: position_Some nth_append) (metis image_eqI nth_mem)
  then show ?thesis
    using assms(2) by (auto simp: reader_next_page_def next_page_after_def nth_append split: list.splits)
qed

text \<open>A reader position from which exactly the addresses \<open>rem\<close> are still to come.\<close>

definition reads_next ::
  "nat \<Rightarrow> live_map \<Rightarrow> page_ledger \<Rightarrow> byte list list \<Rightarrow> table_reader \<Rightarrow> (nat \<times> nat) list \<Rightarrow> bool" where
  "reads_next a live pl pgs rd rem \<longleftrightarrow> length (rd_buffer rd) = 65536 \<and>
     (case rd_position rd of
        None \<Rightarrow> rem = []
      | Some (p, x) \<Rightarrow>
          x < 65536 \<and> slot_boundary a live p (align_up a x) \<and> (x = 0 \<or> rd_buffer rd = pgs ! p) \<and>
          (\<exists>pre pr suf. pl_pages pl = pre @ pr # suf \<and> pr_page pr = p \<and> rem = remaining live p x suf))"

lemma slot_boundary_0: "slot_boundary a live p 0"
  by (simp add: slot_boundary_def)

lemma reads_next_page:
  assumes "pl_pages pl = pre @ pr # suf" and "distinct (map pr_page (pl_pages pl))"
    and "length (rd_buffer rd) = 65536" and "rd_position rd = reader_next_page pl (pr_page pr)"
  shows "reads_next a live pl pgs rd (concat (map (\<lambda>pr. page_addrs live (pr_page pr) 0) suf))"
proof (cases suf)
  case Nil
  then show ?thesis using assms next_page_split [of pre pr suf pl] by (simp add: reads_next_def)
next
  case (Cons pr' suf')
  then have split: "pl_pages pl = (pre @ [pr]) @ pr' # suf'" using assms(1) by simp
  have pos: "rd_position rd = Some (pr_page pr', 0)"
    using assms next_page_split [of pre pr suf pl] Cons by simp
  have "concat (map (\<lambda>pr. page_addrs live (pr_page pr) 0) suf) = remaining live (pr_page pr') 0 suf'"
    using Cons by (simp add: remaining_def)
  then show ?thesis unfolding reads_next_def pos using assms(3) split
    by (auto simp only: option.case prod.case align_up_0 slot_boundary_0)
qed

lemma reads_next_after:
  assumes a: "2 \<le> a" and l: "layout a taken pgs live free" and lv: "live (pr_page pr, off) = Some bs"
    and split: "pl_pages pl = pre @ pr # suf" and d: "distinct (map pr_page (pl_pages pl))"
    and pos: "pos = (if 65536 \<le> off + length bs then reader_next_page pl (pr_page pr)
                     else Some (pr_page pr, off + length bs))"
  shows "reads_next a live pl pgs \<lparr>rd_buffer = pgs ! pr_page pr, rd_position = pos\<rparr>
     (remaining live (pr_page pr) (off + length bs) suf)"
proof -
  let ?p = "pr_page pr"
  obtain t where t: "a dvd off" "taken ?p = Some t" "off + align_up a (length bs) \<le> t"
    using lv by (elim layout_live [OF l])
  have a0: "0 < a" using a by simp
  have len: "length (pgs ! ?p) = 65536" using layout_page [OF l t(2)] by simp
  show ?thesis
  proof (cases "65536 \<le> off + length bs")
    case True
    have "live (?p, o') = None" if "off + length bs \<le> o'" for o'
    proof (rule ccontr)
      assume "live (?p, o') \<noteq> None"
      then obtain cs where c: "live (?p, o') = Some cs" by auto
      then obtain u where u: "raw_bytes a cs" "taken ?p = Some u" "o' + align_up a (length cs) \<le> u"
        by (elim layout_live [OF l])
      then have "0 < align_up a (length cs)" using a0 raw_bytes_align_pos by blast
      then show False using u that True layout_page [OF l u(2)] by linarith
    qed
    then have "remaining live ?p (off + length bs) suf = concat (map (\<lambda>pr. page_addrs live (pr_page pr) 0) suf)"
      by (simp add: remaining_def page_addrs_Nil)
    then show ?thesis using reads_next_page [OF split d, of "\<lparr>rd_buffer = pgs ! ?p, rd_position = pos\<rparr>"] len pos True
      by simp
  next
    case False
    have "align_up a (off + length bs) = off + align_up a (length bs)" using t(1) by (rule align_up_add)
    then have "slot_boundary a live ?p (align_up a (off + length bs))"
      using slot_boundary_after [OF l lv] by simp
    then show ?thesis using pos False len split by (auto simp: reads_next_def)
  qed
qed

context memory_access
begin

text \<open>One round of the page loop.\<close>

lemma find_next_record_round:
  assumes a: "2 \<le> a" and m: "inv m" and l: "layout a (pl_taken pl) (pg m) live free"
    and d: "distinct (map pr_page (pl_pages pl))" and split: "pl_pages pl = pre @ pr # suf" and p: "p = pr_page pr"
    and x: "x < 65536" "slot_boundary a live p (align_up a x)" "x = 0 \<or> rd_buffer rd = pg m ! p"
    and buf: "length (rd_buffer rd) = 65536"
  obtains (found) off bs pos where "live (p, off) = Some bs"
      and "page_addrs live p x = (p, off) # page_addrs live p (off + length bs)"
      and "find_next_record MA a pl (Suc fuel) p x (rd, m) =
          (Ok (Some \<lparr>fr_page = p, fr_offset = off, fr_length = length bs, fr_new_position = pos\<rparr>),
           (rd\<lparr>rd_buffer := pg m ! p\<rparr>, m))"
      and "reads_next a live pl (pg m) \<lparr>rd_buffer = pg m ! p, rd_position = pos\<rparr>
          (remaining live p (off + length bs) suf)"
  | (next_page) "page_addrs live p x = []"
      and "find_next_record MA a pl (Suc fuel) p x (rd, m) =
        (case reader_next_page pl p of
           Some (page', offset') \<Rightarrow> find_next_record MA a pl fuel page' offset' (rd\<lparr>rd_buffer := pg m ! p\<rparr>, m)
         | None \<Rightarrow> (Ok None, (rd\<lparr>rd_buffer := pg m ! p\<rparr>, m)))"
proof -
  have "p \<in> dom (pl_taken pl)" unfolding dom_pl_taken p using split by simp
  then obtain t where t: "pl_taken pl p = Some t" by auto
  have a0: "0 < a" using a by simp
  have pp: "p < length (pg m)" "length (pg m ! p) = 65536" using layout_page [OF l t] by auto
  have rd: "(if x = 0 then read_at_raw MA p 0 (rd_buffer rd) m else (Ok (0, rd_buffer rd), m)) =
      (Ok (if x = 0 then 65536 else 0, pg m ! p), m)"
    using read_prefix [OF m pp(1), of "rd_buffer rd"] buf pp(2) x(3) by auto
  have fp: "find_next_record_position a (pg m ! p) x = find_slot a (pg m ! p) (align_up a x)"
    by (simp add: find_next_record_position_def)
  from find_slot_spec [OF l t a x(2)] show thesis
  proof (elim disjE exE conjE)
    assume none: "\<forall>off \<ge> align_up a x. live (p, off) = None" "find_slot a (pg m ! p) (align_up a x) = Ok None"
    then have "page_addrs live p x = []"
      using page_addrs_align [OF l a0, of p x] page_addrs_Nil by metis
    then show thesis using none(2) rd fp by (intro next_page) (simp_all add: Let_def)
  next
    fix off bs
    assume f: "align_up a x \<le> off" "live (p, off) = Some bs"
      "\<forall>o' \<ge> align_up a x. o' < off \<longrightarrow> live (p, o') = None"
      "find_slot a (pg m ! p) (align_up a x) = Ok (Some (off, length bs))"
    let ?pos = "if 65536 \<le> off + length bs then reader_next_page pl p else Some (p, off + length bs)"
    have pa: "page_addrs live p x = (p, off) # page_addrs live p (off + length bs)"
      using page_addrs_Cons [OF l a0 f(2,1,3)] page_addrs_align [OF l a0, of p x] by simp
    have run: "find_next_record MA a pl (Suc fuel) p x (rd, m) =
          (Ok (Some \<lparr>fr_page = p, fr_offset = off, fr_length = length bs, fr_new_position = ?pos\<rparr>),
           (rd\<lparr>rd_buffer := pg m ! p\<rparr>, m))"
      using rd fp f(4) by (simp add: Let_def page_size)
    have "reads_next a live pl (pg m) \<lparr>rd_buffer = pg m ! p, rd_position = ?pos\<rparr>
          (remaining live p (off + length bs) suf)"
      unfolding p using f(2) p by (intro reads_next_after [OF a l _ split d]) auto
    then show thesis by (rule found [OF f(2) pa run])
  qed
qed

text \<open>The page loop finds the first address that is still to come.\<close>

lemma find_next_record_spec:
  assumes a: "2 \<le> a" and m: "inv m" and l: "layout a (pl_taken pl) (pg m) live free"
    and d: "distinct (map pr_page (pl_pages pl))"
    and split: "pl_pages pl = pre @ pr # suf" and fuel: "length suf < fuel"
    and x: "x < 65536" "slot_boundary a live (pr_page pr) (align_up a x)"
      "x = 0 \<or> rd_buffer rd = pg m ! pr_page pr"
    and buf: "length (rd_buffer rd) = 65536"
  shows "case remaining live (pr_page pr) x suf of
      [] \<Rightarrow> \<exists>rd'. find_next_record MA a pl fuel (pr_page pr) x (rd, m) = (Ok None, (rd', m)) \<and>
             length (rd_buffer rd') = 65536
    | (q, off) # rem \<Rightarrow> \<exists>bs pos. live (q, off) = Some bs \<and>
        find_next_record MA a pl fuel (pr_page pr) x (rd, m) =
          (Ok (Some \<lparr>fr_page = q, fr_offset = off, fr_length = length bs, fr_new_position = pos\<rparr>),
           (rd\<lparr>rd_buffer := pg m ! q\<rparr>, m)) \<and>
        reads_next a live pl (pg m) \<lparr>rd_buffer = pg m ! q, rd_position = pos\<rparr> rem"
  using split fuel x buf
proof (induction suf arbitrary: pre pr fuel x rd)
  case (Nil pre pr fuel x rd)
  then obtain k where k: "fuel = Suc k" by (cases fuel) auto
  show ?case
  proof (cases rule: find_next_record_round [OF a m l d Nil.prems(1) refl Nil.prems(3-6), of k])
    case (1 off bs pos)
    then show ?thesis using k by (simp add: remaining_def)
  next
    case 2
    have "reader_next_page pl (pr_page pr) = None"
      using next_page_split [of pre pr "[]" pl] Nil.prems(1) d by simp
    moreover have "length (pg m ! pr_page pr) = 65536"
    proof -
      have "pr_page pr \<in> dom (pl_taken pl)" unfolding dom_pl_taken using Nil.prems(1) by simp
      then show ?thesis using layout_page [OF l] by auto
    qed
    ultimately show ?thesis using 2 k by (simp add: remaining_def)
  qed
next
  case (Cons pr' suf pre pr fuel x rd)
  then obtain k where k: "fuel = Suc k" "length suf < k" by (cases fuel) auto
  show ?case
  proof (cases rule: find_next_record_round [OF a m l d Cons.prems(1) refl Cons.prems(3-6), of k])
    case (1 off bs pos)
    then show ?thesis using k by (simp add: remaining_def)
  next
    case 2
    let ?rd = "rd\<lparr>rd_buffer := pg m ! pr_page pr\<rparr>"
    have np: "reader_next_page pl (pr_page pr) = Some (pr_page pr', 0)"
      using next_page_split [of pre pr "pr' # suf" pl] Cons.prems(1) d by simp
    have len: "length (rd_buffer ?rd) = 65536"
    proof -
      have "pr_page pr \<in> dom (pl_taken pl)" unfolding dom_pl_taken using Cons.prems(1) by simp
      then show ?thesis using layout_page [OF l] by auto
    qed
    have rem: "remaining live (pr_page pr) x (pr' # suf) = remaining live (pr_page pr') 0 suf"
      using 2(1) by (simp add: remaining_def)
    have run: "find_next_record MA a pl fuel (pr_page pr) x (rd, m) = find_next_record MA a pl k (pr_page pr') 0 (?rd, m)"
      using 2(2) np k(1) by simp
    have sp: "pl_pages pl = (pre @ [pr]) @ pr' # suf" using Cons.prems(1) by simp
    have "slot_boundary a live (pr_page pr') (align_up a 0)" by (simp add: slot_boundary_0)
    from Cons.IH [OF sp k(2) _ this _ len] show ?thesis
      unfolding rem run by (simp split: list.splits prod.splits) 
  qed
qed

end

section \<open>Reading a whole table\<close>

text \<open>\<open>recs\<close> is the table as a map from addresses to records.\<close>

definition live_of :: "'e codec \<Rightarrow> (nat \<times> nat \<rightharpoonup> 'e) \<Rightarrow> live_map" where
  "live_of E recs ad = map_option (raw_of E) (recs ad)"

definition scan_order :: "live_map \<Rightarrow> page_ledger \<Rightarrow> (nat \<times> nat) list" where
  "scan_order live pl = concat (map (\<lambda>pr. page_addrs live (pr_page pr) 0) (pl_pages pl))"

definition record_at :: "(nat \<times> nat \<rightharpoonup> 'e) \<Rightarrow> nat \<times> nat \<Rightarrow> 'e next_record" where
  "record_at recs ad = \<lparr>nr_record = the (recs ad), nr_page = fst ad, nr_offset = snd ad\<rparr>"

lemma set_page_addrs:
  assumes "layout a taken pgs live free" and "0 < a"
  shows "set (page_addrs live p x) = {p} \<times> {off. x \<le> off \<and> live (p, off) \<noteq> None}"
  using finite_live_page [OF assms, of x p] by (auto simp: page_addrs_def)

lemma scan_order_complete:
  assumes l: "layout a (pl_taken pl) pgs live free" and a: "0 < a" and d: "distinct (map pr_page (pl_pages pl))"
  shows "set (scan_order live pl) = dom live" and "distinct (scan_order live pl)"
proof -
  have pages: "p \<in> pr_page ` set (pl_pages pl)" if lv: "live (p, off) = Some bs" for p off bs
  proof -
    obtain t where "pl_taken pl p = Some t" using lv by (elim layout_live [OF l])
    then show ?thesis using dom_pl_taken [of pl] by (metis domI)
  qed
  show "set (scan_order live pl) = dom live"
  proof (rule set_eqI, rule iffI)
    fix ad assume "ad \<in> set (scan_order live pl)"
    then show "ad \<in> dom live" by (auto simp: scan_order_def set_page_addrs [OF l a])
  next
    fix ad assume "ad \<in> dom live"
    then obtain p off bs where ad: "ad = (p, off)" "live (p, off) = Some bs" by (cases ad) auto
    with pages [OF ad(2)] show "ad \<in> set (scan_order live pl)"
      by (auto simp: scan_order_def set_page_addrs [OF l a])
  qed
  have "distinct (concat (map (\<lambda>pr. page_addrs live (pr_page pr) 0) prs))" if "distinct (map pr_page prs)" for prs
    using that
  proof (induction prs)
    case Nil
    then show ?case by simp
  next
    case (Cons pr prs)
    have "distinct (page_addrs live (pr_page pr) 0)"
      by (simp add: page_addrs_def distinct_map inj_on_def)
    with Cons show ?case by (auto simp: set_page_addrs [OF l a])
  qed
  then show "distinct (scan_order live pl)" using d by (simp add: scan_order_def)
qed

context memory_access
begin

lemma try_next_spec:
  assumes E: "encoding E V" "\<forall>rec \<in> ran recs. V rec" and a: "a = rr_ALIGNMENT E" "2 \<le> a" and m: "inv m"
    and l: "layout a (pl_taken pl) (pg m) (live_of E recs) free" and d: "distinct (map pr_page (pl_pages pl))"
    and rd: "reads_next a (live_of E recs) pl (pg m) rd rem"
  shows "case rem of
      [] \<Rightarrow> \<exists>rd'. reader_try_next MA E pl (rd, m) = (Ok None, (rd', m))
    | ad # rem' \<Rightarrow> \<exists>rd'. reader_try_next MA E pl (rd, m) = (Ok (Some (record_at recs ad)), (rd', m)) \<and>
        reads_next a (live_of E recs) pl (pg m) rd' rem'"
proof (cases "rd_position rd")
  case None
  then have "rem = []" using rd by (simp add: reads_next_def)
  then show ?thesis using None by (simp add: reader_try_next_def)
next
  case (Some px)
  obtain p x where px: "px = (p, x)" by (cases px)
  then obtain pre pr suf where st: "x < 65536" "slot_boundary a (live_of E recs) p (align_up a x)"
    "x = 0 \<or> rd_buffer rd = pg m ! p" "length (rd_buffer rd) = 65536"
    "pl_pages pl = pre @ pr # suf" "pr_page pr = p" "rem = remaining (live_of E recs) p x suf"
    using rd Some by (auto simp: reads_next_def)
  have fuel: "length suf < length (pl_pages pl)" using st(5) by simp
  note fn = find_next_record_spec [OF a(2) m l d st(5) fuel st(1) _ _ st(4), unfolded st(6), OF st(2,3), folded st(7)]
  show ?thesis
  proof (cases rem)
    case Nil
    then show ?thesis using fn Some px a by (auto simp: reader_try_next_def)
  next
    case (Cons ad rem')
    obtain q off where ad: "ad = (q, off)" by (cases ad)
    obtain bs pos where f: "live_of E recs (q, off) = Some bs"
      "find_next_record MA a pl (length (pl_pages pl)) p x (rd, m) =
          (Ok (Some \<lparr>fr_page = q, fr_offset = off, fr_length = length bs, fr_new_position = pos\<rparr>),
           (rd\<lparr>rd_buffer := pg m ! q\<rparr>, m))"
      "reads_next a (live_of E recs) pl (pg m) \<lparr>rd_buffer = pg m ! q, rd_position = pos\<rparr> rem'"
      using fn Cons ad by auto
    obtain rec where rec: "recs (q, off) = Some rec" "bs = raw_of E rec" "V rec"
      using f(1) E(2) by (auto simp: live_of_def ran_def)
    have a0: "0 < a" using a by simp
    obtain t where t: "raw_bytes a bs" "pl_taken pl q = Some t" "off + align_up a (length bs) \<le> t"
      using f(1) by (elim layout_live [OF l])
    have ge: "length bs \<le> align_up a (length bs)" using a0 by (rule align_up_ge)
    have rfb: "raw_bytes a (raw_of E rec)" using t(1) rec(2) by simp
    note rb = raw_of_facts [OF E(1) rec(3) rfb a0]
    have valid: "rr_valid E V (new_raw_record E rec)"
      using raw_facts(1) [OF E(1) rec(3) rb(1,2) a0] .
    have dec: "rr_decode E bs = Ok (new_raw_record E rec)"
      using encoding.rr_decode_encode [OF E(1) valid, of "[]"] rec(2) by simp
    have sl: "slice off (length bs) (pg m ! q) = bs" using live_slice [OF l a0 f(1)] .
    have "off + length bs \<le> length (pg m ! q)" using layout_page [OF l t(2)] t(3) ge by simp
    then have "reader_try_next MA E pl (rd, m) =
        (Ok (Some (record_at recs ad)), (\<lparr>rd_buffer = pg m ! q, rd_position = pos\<rparr>, m))"
      using Some px f(2) a sl dec rec ad
      by (simp add: reader_try_next_def record_at_def new_raw_record_def)
    then show ?thesis using f(3) Cons by auto
  qed
qed

lemma read_all_spec:
  assumes E: "encoding E V" "\<forall>rec \<in> ran recs. V rec" and a: "a = rr_ALIGNMENT E" "2 \<le> a" and m: "inv m"
    and l: "layout a (pl_taken pl) (pg m) (live_of E recs) free" and d: "distinct (map pr_page (pl_pages pl))"
    and rd: "reads_next a (live_of E recs) pl (pg m) rd rem" and fuel: "length rem < fuel"
  shows "\<exists>rd'. read_all MA E pl fuel (rd, m) = (Ok (map (record_at recs) rem), (rd', m))"
  using rd fuel
proof (induction fuel arbitrary: rd rem)
  case 0
  then show ?case by simp
next
  case (Suc fuel)
  note tn = try_next_spec [OF E a m l d Suc.prems(1)]
  show ?case
  proof (cases rem)
    case Nil
    then show ?thesis using tn by auto
  next
    case (Cons ad rem')
    then obtain rd' where t: "reader_try_next MA E pl (rd, m) = (Ok (Some (record_at recs ad)), (rd', m))"
      "reads_next a (live_of E recs) pl (pg m) rd' rem'" using tn by auto
    obtain rd2 where "read_all MA E pl fuel (rd', m) = (Ok (map (record_at recs) rem'), (rd2, m))"
      using Suc.IH [OF t(2)] Suc.prems(2) Cons by auto
    then show ?thesis using t(1) Cons by simp
  qed
qed

lemma reader_new_spec: "reads_next a live pl pgs (reader_new MA pl m) (scan_order live pl)"
proof (cases "pl_pages pl")
  case Nil
  then show ?thesis by (simp add: reads_next_def reader_new_def scan_order_def page_size)
next
  case (Cons pr prs)
  then have "scan_order live pl = remaining live (pr_page pr) 0 prs" by (simp add: scan_order_def remaining_def)
  moreover have "pl_pages pl = [] @ pr # prs" using Cons by simp
  ultimately have "\<exists>pre pr' suf. pl_pages pl = pre @ pr' # suf \<and> pr_page pr' = pr_page pr \<and>
      scan_order live pl = remaining live (pr_page pr) 0 suf" by blast
  then show ?thesis using Cons by (simp add: reads_next_def reader_new_def page_size slot_boundary_0)
qed

lemma table_scan:
  assumes E: "encoding E V" "\<forall>rec \<in> ran recs. V rec" and a: "a = rr_ALIGNMENT E" "2 \<le> a" and m: "inv m"
    and i: "tr_inv a (pg m) U reg (live_of E recs)" and fuel: "card (dom recs) < fuel"
  shows "\<exists>rd' ads. read_all MA E (tr_page_ledger reg) fuel (reader_new MA (tr_page_ledger reg) m, m) =
      (Ok (map (record_at recs) ads), (rd', m)) \<and> distinct ads \<and> set ads = dom recs"
proof -
  let ?pl = "tr_page_ledger reg" and ?live = "live_of E recs"
  obtain S where l: "layout a (pl_taken ?pl) (pg m) ?live (fl_cells a S)" and pi: "pl_inv a ?pl"
    using i by (elim tr_inv_D)
  have d: "distinct (map pr_page (pl_pages ?pl))" using pi by (simp add: pl_inv_def)
  have so: "set (scan_order ?live ?pl) = dom ?live" "distinct (scan_order ?live ?pl)"
    using scan_order_complete [OF l _ d] a by auto
  have dm: "dom ?live = dom recs" by (auto simp: live_of_def dom_def)
  have "length (scan_order ?live ?pl) = card (dom recs)" using so dm distinct_card by metis
  then obtain rd' where "read_all MA E ?pl fuel (reader_new MA ?pl m, m) =
      (Ok (map (record_at recs) (scan_order ?live ?pl)), (rd', m))"
    using read_all_spec [OF E a m l d reader_new_spec, of fuel] fuel by auto
  then show ?thesis using so dm by blast
qed

end

end
