(* ===== verification/Index_Node.thy ===== *)
theory Index_Node
  imports Records
begin

text \<open>
  Nodes of the B+ tree of an index, \<^verbatim>\<open>table_registry/index_ledger/index_tree.rs\<close>: their layout on a page, the
  decoded node, and the read-only view of \<^verbatim>\<open>node_view.rs\<close> that decodes keys on demand. Main results:
  a node that is written is read back, and the view of a page answers like the decoded node.
\<close>

section \<open>Nodes\<close>

definition NODE_TYPE_INTERNAL :: nat where "NODE_TYPE_INTERNAL = 0"
definition NODE_TYPE_LEAF :: nat where "NODE_TYPE_LEAF = 1"
definition NO_PAGE_SENTINEL :: nat where "NO_PAGE_SENTINEL = 2 ^ 32 - 1"
definition INTERNAL_HEADER_SIZE :: nat where "INTERNAL_HEADER_SIZE = 11"
definition LEAF_HEADER_SIZE :: nat where "LEAF_HEADER_SIZE = 15"

lemmas node_consts = NODE_TYPE_INTERNAL_def NODE_TYPE_LEAF_def NO_PAGE_SENTINEL_def INTERNAL_HEADER_SIZE_def LEAF_HEADER_SIZE_def
  RECORD_POINTER_SIZE_def

text \<open>An internal entry is a separator key with the child left of it, a leaf entry a key with its record.\<close>

datatype 'k node_body =
    InternalBody "('k \<times> nat) list" nat
  | LeafBody "('k \<times> record_address) list" "nat option" "nat option"

record 'k btree_node =
  bn_page :: nat
  bn_parent_page :: "nat option"
  bn_num_entries :: nat
  bn_body :: "'k node_body"
  bn_dirty :: bool

definition new_leaf :: "nat \<Rightarrow> nat option \<Rightarrow> 'k btree_node" where
  "new_leaf page parent = \<lparr>bn_page = page, bn_parent_page = parent, bn_num_entries = 0, bn_body = LeafBody [] None None, bn_dirty = True\<rparr>"

definition entry_size_from_len :: "nat \<Rightarrow> nat \<Rightarrow> nat \<Rightarrow> nat \<Rightarrow> nat memory_result" where
  "entry_size_from_len header tail key_len ps =
     (if key_len > u16_max then Err (KeyTooLarge key_len u16_max)
      else if header + (2 + key_len + tail) > ps then Err (KeyTooLarge (2 + key_len + tail) (ps - header))
      else Ok (2 + key_len + tail))"

definition leaf_entry_size_from_len :: "nat \<Rightarrow> nat \<Rightarrow> nat memory_result" where
  "leaf_entry_size_from_len key_len ps = entry_size_from_len LEAF_HEADER_SIZE RECORD_POINTER_SIZE key_len ps"

definition internal_entry_size_from_len :: "nat \<Rightarrow> nat \<Rightarrow> nat memory_result" where
  "internal_entry_size_from_len key_len ps = entry_size_from_len INTERNAL_HEADER_SIZE 4 key_len ps"

text \<open>The loop over the entries of a node, with the bytes that follow a key.\<close>

fun put_entries ::
  "('k \<Rightarrow> byte list) \<Rightarrow> nat \<Rightarrow> nat \<Rightarrow> ('v \<Rightarrow> byte list) \<Rightarrow> nat \<Rightarrow> nat \<Rightarrow> ('k \<times> 'v) list \<Rightarrow> byte list memory_result" where
  "put_entries enc header tail put ps offset [] = Ok []"
| "put_entries enc header tail put ps offset ((k, v) # entries) =
     bind_outcome (entry_size_from_len header tail (length (enc k)) ps) (\<lambda>entry_size.
       if offset + entry_size > ps then Err (KeyTooLarge entry_size (ps - header))
       else map_outcome (\<lambda>rest. le_bytes 2 (length (enc k)) @ enc k @ put v @ rest)
         (put_entries enc header tail put ps (offset + entry_size) entries))"

definition link_or_sentinel :: "nat option \<Rightarrow> nat" where
  "link_or_sentinel link = (case link of Some page \<Rightarrow> page | None \<Rightarrow> NO_PAGE_SENTINEL)"

definition fill_page :: "nat \<Rightarrow> byte list \<Rightarrow> byte list" where
  "fill_page ps bs = bs @ replicate (ps - length bs) 0"

definition node_serialize :: "'k codec \<Rightarrow> nat \<Rightarrow> 'k btree_node \<Rightarrow> byte list memory_result" where
  "node_serialize KC ps node =
     (case bn_body node of
        InternalBody entries rightmost_child \<Rightarrow>
          map_outcome (\<lambda>body. fill_page ps (le_bytes 1 NODE_TYPE_INTERNAL @ le_bytes 4 (link_or_sentinel (bn_parent_page node)) @
              le_bytes 2 (bn_num_entries node) @ le_bytes 4 rightmost_child @ body))
            (put_entries (encode KC) INTERNAL_HEADER_SIZE 4 (le_bytes 4) ps INTERNAL_HEADER_SIZE entries)
      | LeafBody entries prev next \<Rightarrow>
          map_outcome (\<lambda>body. fill_page ps (le_bytes 1 NODE_TYPE_LEAF @ le_bytes 4 (link_or_sentinel (bn_parent_page node)) @
              le_bytes 2 (bn_num_entries node) @ le_bytes 4 (link_or_sentinel prev) @ le_bytes 4 (link_or_sentinel next) @ body))
            (put_entries (encode KC) LEAF_HEADER_SIZE RECORD_POINTER_SIZE ra_encode ps LEAF_HEADER_SIZE entries))"

definition too_short :: memory_error where "too_short = DecodeError TooShort"

definition read_page :: "byte list \<Rightarrow> nat \<Rightarrow> nat" where
  "read_page buf offset = from_le (slice offset 4 buf)"

definition read_link :: "byte list \<Rightarrow> nat \<Rightarrow> nat option" where
  "read_link buf offset = (if read_page buf offset \<noteq> NO_PAGE_SENTINEL then Some (read_page buf offset) else None)"

fun get_entries ::
  "(byte list \<Rightarrow> 'k memory_result) \<Rightarrow> nat \<Rightarrow> (byte list \<Rightarrow> 'v memory_result) \<Rightarrow> byte list \<Rightarrow> nat \<Rightarrow> nat \<Rightarrow> ('k \<times> 'v) list memory_result" where
  "get_entries dec tail get buf 0 offset = Ok []"
| "get_entries dec tail get buf (Suc n) offset =
     (if offset + 2 > length buf then Err too_short
      else let key_size = from_le (slice offset 2 buf) in
        if offset + 2 + key_size + tail > length buf then Err too_short
        else bind_outcome (dec (slice (offset + 2) key_size buf)) (\<lambda>key.
          bind_outcome (get (slice (offset + 2 + key_size) tail buf)) (\<lambda>v.
          map_outcome ((#) (key, v)) (get_entries dec tail get buf n (offset + 2 + key_size + tail)))))"

definition node_deserialize :: "'k codec \<Rightarrow> nat \<Rightarrow> byte list \<Rightarrow> 'k btree_node memory_result" where
  "node_deserialize KC page buf =
     (if length buf < INTERNAL_HEADER_SIZE then Err too_short
      else let node_type = from_le (slice 0 1 buf); num_entries = from_le (slice 5 2 buf) in
        if node_type = NODE_TYPE_INTERNAL then
          map_outcome (\<lambda>entries. \<lparr>bn_page = page, bn_parent_page = read_link buf 1, bn_num_entries = num_entries,
              bn_body = InternalBody entries (read_page buf 7), bn_dirty = False\<rparr>)
            (get_entries (decode KC) 4 (\<lambda>bs. Ok (from_le bs)) buf num_entries INTERNAL_HEADER_SIZE)
        else if node_type = NODE_TYPE_LEAF then
          (if length buf < LEAF_HEADER_SIZE then Err too_short
           else map_outcome (\<lambda>entries. \<lparr>bn_page = page, bn_parent_page = read_link buf 1, bn_num_entries = num_entries,
                bn_body = LeafBody entries (read_link buf 7) (read_link buf 11), bn_dirty = False\<rparr>)
              (get_entries (decode KC) RECORD_POINTER_SIZE ra_decode buf num_entries LEAF_HEADER_SIZE))
        else Err too_short)"

section \<open>Reading back a written node\<close>

lemma map_outcome_Ok_iff: "map_outcome f r = Ok y \<longleftrightarrow> (\<exists>x. r = Ok x \<and> y = f x)"
  by (cases r) auto

lemma map_outcome_Panic_iff: "map_outcome f r = Panic \<longleftrightarrow> r = Panic"
  by (cases r) auto

lemma put_entries_no_panic: "put_entries enc header tail put ps offset entries \<noteq> Panic"
proof (induction entries arbitrary: offset)
  case (Cons e entries)
  then show ?case by (cases e) (simp add: entry_size_from_len_def map_outcome_Panic_iff)
qed simp

text \<open>When the entries fit: each key is short enough, and all of them together end on the page.\<close>

definition entry_len :: "('k \<Rightarrow> byte list) \<Rightarrow> nat \<Rightarrow> 'k \<times> 'v \<Rightarrow> nat" where
  "entry_len enc tail e = 2 + length (enc (fst e)) + tail"

lemma put_entries_fits:
  "offset \<le> ps \<Longrightarrow> (\<exists>bs. put_entries enc header tail put ps offset entries = Ok bs) \<longleftrightarrow>
   (\<forall>e \<in> set entries. length (enc (fst e)) \<le> u16_max \<and> header + entry_len enc tail e \<le> ps) \<and> offset + sum_list (map (entry_len enc tail) entries) \<le> ps"
proof (induction entries arbitrary: offset)
  case (Cons e entries)
  obtain k v where e: "e = (k, v)" by (cases e)
  let ?n = "2 + length (enc k) + tail"
  show ?case
  proof (cases "length (enc k) \<le> u16_max \<and> header + ?n \<le> ps \<and> offset + ?n \<le> ps")
    case True
    then have "(\<exists>bs. put_entries enc header tail put ps offset (e # entries) = Ok bs) \<longleftrightarrow> (\<exists>bs. put_entries enc header tail put ps (offset + ?n) entries = Ok bs)"
      by (auto simp: e entry_size_from_len_def map_outcome_Ok_iff)
    then show ?thesis using Cons.IH [of "offset + ?n"] True by (auto simp: e entry_len_def)
  next
    case False
    then show ?thesis by (auto simp: e entry_size_from_len_def entry_len_def bind_outcome_Ok_iff split: if_splits)
  qed
qed simp

text \<open>What a node has to satisfy to be written: keys the codec can encode, addresses and page numbers in range.\<close>

definition link_ok :: "nat option \<Rightarrow> bool" where
  "link_ok link \<longleftrightarrow> (\<forall>page. link = Some page \<longrightarrow> page < NO_PAGE_SENTINEL)"

definition body_ok :: "('k \<Rightarrow> bool) \<Rightarrow> 'k node_body \<Rightarrow> bool" where
  "body_ok V body \<longleftrightarrow> (case body of
       InternalBody entries rightmost_child \<Rightarrow> (\<forall>(k, p) \<in> set entries. V k \<and> p < NO_PAGE_SENTINEL) \<and> rightmost_child < NO_PAGE_SENTINEL
     | LeafBody entries prev next \<Rightarrow> (\<forall>(k, a) \<in> set entries. V k \<and> ra_wf a) \<and> link_ok prev \<and> link_ok next)"

definition body_len :: "'k node_body \<Rightarrow> nat" where
  "body_len body = (case body of InternalBody entries _ \<Rightarrow> length entries | LeafBody entries _ _ \<Rightarrow> length entries)"

definition node_ok :: "('k \<Rightarrow> bool) \<Rightarrow> 'k btree_node \<Rightarrow> bool" where
  "node_ok V node \<longleftrightarrow> link_ok (bn_parent_page node) \<and> body_ok V (bn_body node) \<and> bn_num_entries node = as_u16 (body_len (bn_body node))"

lemma link_ok_simps [simp]: "link_ok None" "link_ok (Some p) \<longleftrightarrow> p < NO_PAGE_SENTINEL"
  by (simp_all add: link_ok_def)

lemma put_entries_length:
  "put_entries enc header tail put ps offset entries = Ok bs \<Longrightarrow> (\<And>v. length (put v) = tail) \<Longrightarrow> offset \<le> ps \<Longrightarrow>
   offset + length bs \<le> ps \<and> length bs \<ge> 2 * length entries"
proof (induction entries arbitrary: offset bs)
  case (Cons kv entries)
  obtain k v where kv: "kv = (k, v)" by (cases kv)
  obtain rest where r: "offset + (2 + length (enc k) + tail) \<le> ps" "bs = le_bytes 2 (length (enc k)) @ enc k @ put v @ rest"
    "put_entries enc header tail put ps (offset + (2 + length (enc k) + tail)) entries = Ok rest"
    using Cons.prems(1) by (auto simp: kv entry_size_from_len_def bind_outcome_Ok_iff map_outcome_Ok_iff split: if_splits)
  then show ?case using Cons.IH [OF r(3) Cons.prems(2)] Cons.prems(2) by simp
qed simp

lemma slice_at_prefix: "length pre = offset \<Longrightarrow> length mid = k \<Longrightarrow> slice offset k (pre @ mid @ rest) = mid"
  by (simp add: slice_def)

lemma get_put_entries:
  assumes "encoding KC V" and "\<And>v. W v \<Longrightarrow> get (put v) = Ok v" and "\<And>v. length (put v) = tail"
    and "put_entries (encode KC) header tail put ps offset entries = Ok bs" and "\<forall>(k, v) \<in> set entries. V k \<and> W v"
    and "length pre = offset"
  shows "get_entries (decode KC) tail get (pre @ bs @ rest) (length entries) offset = Ok entries"
  using assms(4-)
proof (induction entries arbitrary: pre offset bs)
  case (Cons kv entries)
  obtain k v where kv: "kv = (k, v)" by (cases kv)
  let ?k = "encode KC k" and ?n = "length (encode KC k)"
  obtain more where r: "offset + (2 + ?n + tail) \<le> ps" "?n \<le> u16_max" "bs = le_bytes 2 ?n @ ?k @ put v @ more"
    "put_entries (encode KC) header tail put ps (offset + (2 + ?n + tail)) entries = Ok more"
    using Cons.prems(1) by (auto simp: kv entry_size_from_len_def bind_outcome_Ok_iff map_outcome_Ok_iff split: if_splits)
  have valid: "V k" "W v" using Cons.prems(2) by (simp_all add: kv)
  let ?buf = "pre @ bs @ rest" and ?pre = "pre @ le_bytes 2 ?n @ ?k @ put v"
  have buf: "?buf = ?pre @ more @ rest" by (simp add: r(3))
  have sz: "from_le (slice offset 2 ?buf) = ?n"
    using r(2) slice_at_prefix [of pre offset "le_bytes 2 ?n" 2 "?k @ put v @ more @ rest"] Cons.prems(3) by (simp add: r(3) u16_max_def)
  have key: "slice (offset + 2) ?n ?buf = ?k" using slice_at_prefix [of "pre @ le_bytes 2 ?n" "offset + 2" ?k ?n "put v @ more @ rest"] Cons.prems(3) by (simp add: r(3))
  have val: "slice (offset + 2 + ?n) tail ?buf = put v"
    using slice_at_prefix [of "pre @ le_bytes 2 ?n @ ?k" "offset + 2 + ?n" "put v" tail "more @ rest"] Cons.prems(3) assms(3) by (simp add: r(3))
  have "get_entries (decode KC) tail get ?buf (length entries) (offset + 2 + ?n + tail) = Ok entries"
    unfolding buf using Cons.IH [OF r(4) _, of ?pre] Cons.prems(2,3) assms(3) by (simp add: ac_simps)
  moreover have "length ?buf \<ge> offset + 2 + ?n + tail" using Cons.prems(3) assms(3) by (simp add: r(3))
  ultimately show ?case
    using valid assms(2) encoding.decode_encode [OF assms(1)] sz key val by (simp add: kv Let_def del: append_assoc)
qed simp

lemma read_link_put: "link_ok link \<Longrightarrow> length pre = offset \<Longrightarrow> read_link (pre @ le_bytes 4 (link_or_sentinel link) @ rest) offset = link"
  by (auto simp: read_link_def read_page_def link_or_sentinel_def slice_at_prefix NO_PAGE_SENTINEL_def split: option.splits)

lemma node_round_trip:
  assumes KC: "encoding KC V" and ok: "node_ok V node" and ser: "node_serialize KC 65536 node = Ok buf"
  shows "length buf = 65536" and "node_deserialize KC (bn_page node) buf = Ok (node\<lparr>bn_dirty := False\<rparr>)"
proof -
  let ?parent = "le_bytes 4 (link_or_sentinel (bn_parent_page node))" and ?num = "le_bytes 2 (bn_num_entries node)"
  have parent: "link_ok (bn_parent_page node)" and body: "body_ok V (bn_body node)" and num: "bn_num_entries node = as_u16 (body_len (bn_body node))"
    using ok by (simp_all add: node_ok_def)
  have "length buf = 65536 \<and> node_deserialize KC (bn_page node) buf = Ok (node\<lparr>bn_dirty := False\<rparr>)"
  proof (cases "bn_body node")
    case (InternalBody entries rightmost)
    let ?head = "le_bytes 1 NODE_TYPE_INTERNAL @ ?parent @ ?num @ le_bytes 4 rightmost"
    obtain bs where bs: "put_entries (encode KC) INTERNAL_HEADER_SIZE 4 (le_bytes 4) 65536 INTERNAL_HEADER_SIZE entries = Ok bs"
      and buf: "buf = fill_page 65536 (?head @ bs)"
      using ser by (auto simp: node_serialize_def InternalBody map_outcome_Ok_iff)
    have len: "11 + length bs \<le> 65536" "2 * length entries \<le> length bs"
      using put_entries_length [OF bs] by (simp_all add: INTERNAL_HEADER_SIZE_def)
    define rest where "rest = replicate (65536 - length (?head @ bs)) (0 :: byte)"
    have full: "buf = ?head @ bs @ rest" by (simp add: buf fill_page_def rest_def)
    have n: "bn_num_entries node = length entries" using num len by (simp add: InternalBody body_len_def)
    have e: "\<forall>(k, p) \<in> set entries. V k \<and> p < NO_PAGE_SENTINEL" "rightmost < NO_PAGE_SENTINEL"
      using body by (auto simp: body_ok_def InternalBody)
    have "get_entries (decode KC) 4 (\<lambda>bs. Ok (from_le bs)) buf (length entries) INTERNAL_HEADER_SIZE = Ok entries"
      unfolding full
      by (rule get_put_entries [OF KC _ _ bs e(1)]) (simp_all add: NO_PAGE_SENTINEL_def INTERNAL_HEADER_SIZE_def)
    moreover have "length buf = 65536" using len by (simp add: full rest_def)
    moreover have "from_le (slice 0 1 buf) = NODE_TYPE_INTERNAL" "from_le (slice 5 2 buf) = length entries" "read_page buf 7 = rightmost"
      "read_link buf 1 = bn_parent_page node"
      using len e(2) slice_at_prefix [of "[]" 0 "le_bytes 1 NODE_TYPE_INTERNAL" 1]
        slice_at_prefix [of "le_bytes 1 NODE_TYPE_INTERNAL @ ?parent" 5 ?num 2]
        slice_at_prefix [of "le_bytes 1 NODE_TYPE_INTERNAL @ ?parent @ ?num" 7 "le_bytes 4 rightmost" 4]
        read_link_put [OF parent, of "le_bytes 1 NODE_TYPE_INTERNAL" 1]
      by (simp_all add: full n read_page_def NODE_TYPE_INTERNAL_def NO_PAGE_SENTINEL_def del: le_bytes.simps)
    ultimately show ?thesis
      by (simp add: node_deserialize_def Let_def n InternalBody) (simp add: INTERNAL_HEADER_SIZE_def n InternalBody)
  next
    case (LeafBody entries prev "next")
    let ?type = "le_bytes 1 NODE_TYPE_LEAF" and ?prev = "le_bytes 4 (link_or_sentinel prev)" and ?next = "le_bytes 4 (link_or_sentinel next)"
    let ?head = "?type @ ?parent @ ?num @ ?prev @ ?next"
    obtain bs where bs: "put_entries (encode KC) LEAF_HEADER_SIZE RECORD_POINTER_SIZE ra_encode 65536 LEAF_HEADER_SIZE entries = Ok bs"
      and buf: "buf = fill_page 65536 (?head @ bs)"
      using ser by (auto simp: node_serialize_def LeafBody map_outcome_Ok_iff)
    have ra: "length (ra_encode a) = RECORD_POINTER_SIZE" for a by (simp add: ra_encode_def RECORD_POINTER_SIZE_def)
    have len: "15 + length bs \<le> 65536" "2 * length entries \<le> length bs"
      using put_entries_length [OF bs ra] by (simp_all add: LEAF_HEADER_SIZE_def)
    define rest where "rest = replicate (65536 - length (?head @ bs)) (0 :: byte)"
    have full: "buf = ?head @ bs @ rest" by (simp add: buf fill_page_def rest_def)
    have n: "bn_num_entries node = length entries" using num len by (simp add: LeafBody body_len_def)
    have e: "\<forall>(k, a) \<in> set entries. V k \<and> ra_wf a" "link_ok prev" "link_ok next"
      using body by (auto simp: body_ok_def LeafBody)
    have "get_entries (decode KC) RECORD_POINTER_SIZE ra_decode buf (length entries) LEAF_HEADER_SIZE = Ok entries"
      unfolding full
      by (rule get_put_entries [OF KC _ ra bs e(1)]) (use ra_decode_encode [of _ "[]"] in \<open>simp_all add: LEAF_HEADER_SIZE_def\<close>)
    moreover have "length buf = 65536" using len by (simp add: full rest_def)
    moreover have "from_le (slice 0 1 buf) = NODE_TYPE_LEAF" "from_le (slice 5 2 buf) = length entries"
      "read_link buf 7 = prev" "read_link buf 11 = next" "read_link buf 1 = bn_parent_page node"
      using len slice_at_prefix [of "[]" 0 ?type 1]
        slice_at_prefix [of "?type @ ?parent" 5 ?num 2]
        read_link_put [OF e(2), of "?type @ ?parent @ ?num" 7] read_link_put [OF e(3), of "?type @ ?parent @ ?num @ ?prev" 11]
        read_link_put [OF parent, of ?type 1]
      by (simp_all add: full n NODE_TYPE_LEAF_def del: le_bytes.simps)
    ultimately show ?thesis
      by (simp add: node_deserialize_def Let_def n LeafBody) (simp add: INTERNAL_HEADER_SIZE_def LEAF_HEADER_SIZE_def NODE_TYPE_LEAF_def NODE_TYPE_INTERNAL_def n LeafBody)
  qed
  then show "length buf = 65536" and "node_deserialize KC (bn_page node) buf = Ok (node\<lparr>bn_dirty := False\<rparr>)" by simp_all
qed

section \<open>The view of a page\<close>

datatype node_kind = InternalKind nat | LeafKind "nat option" "nat option"

record node_view =
  nv_buf :: "byte list"
  nv_kind :: node_kind
  nv_key_offsets :: "nat list"

fun key_offset_loop :: "byte list \<Rightarrow> nat \<Rightarrow> nat \<Rightarrow> nat \<Rightarrow> nat list memory_result" where
  "key_offset_loop buf tail 0 offset = Ok []"
| "key_offset_loop buf tail (Suc n) offset =
     (if offset + 2 > length buf then Err too_short
      else let key_size = from_le (slice offset 2 buf) in
        if offset + 2 + key_size + tail > length buf then Err too_short
        else map_outcome ((#) (offset + 2)) (key_offset_loop buf tail n (offset + 2 + key_size + tail)))"

definition nv_parse :: "byte list \<Rightarrow> node_view memory_result" where
  "nv_parse buf =
     (if length buf < INTERNAL_HEADER_SIZE then Err too_short
      else let num_entries = from_le (slice 5 2 buf); node_type = from_le (slice 0 1 buf);
               view = (\<lambda>kind offsets. \<lparr>nv_buf = buf, nv_kind = kind, nv_key_offsets = offsets\<rparr>) in
        if node_type = NODE_TYPE_INTERNAL then
          map_outcome (view (InternalKind (read_page buf 7))) (key_offset_loop buf 4 num_entries INTERNAL_HEADER_SIZE)
        else if node_type = NODE_TYPE_LEAF \<and> length buf \<ge> LEAF_HEADER_SIZE then
          map_outcome (view (LeafKind (read_link buf 7) (read_link buf 11)))
            (key_offset_loop buf RECORD_POINTER_SIZE num_entries LEAF_HEADER_SIZE)
        else Err too_short)"

definition first_leaf_key :: "'k codec \<Rightarrow> byte list \<Rightarrow> 'k option memory_result" where
  "first_leaf_key KC buf =
     (if length buf < LEAF_HEADER_SIZE \<or> from_le (slice 0 1 buf) \<noteq> NODE_TYPE_LEAF then Err too_short
      else if from_le (slice 5 2 buf) = 0 then Ok None
      else bind_outcome (slice_or_panic LEAF_HEADER_SIZE 2 buf) (\<lambda>bytes.
        let start = LEAF_HEADER_SIZE + 2; key_size = from_le bytes in
        if start + key_size + RECORD_POINTER_SIZE > length buf then Err too_short
        else map_outcome Some (decode KC (slice start key_size buf))))"

definition is_leaf_page :: "byte list \<Rightarrow> bool" where
  "is_leaf_page buf \<longleftrightarrow> buf \<noteq> [] \<and> unat (hd buf) = NODE_TYPE_LEAF"

definition nv_len :: "node_view \<Rightarrow> nat" where
  "nv_len v = length (nv_key_offsets v)"

definition nv_is_leaf :: "node_view \<Rightarrow> bool" where
  "nv_is_leaf v \<longleftrightarrow> (case nv_kind v of LeafKind _ _ \<Rightarrow> True | InternalKind _ \<Rightarrow> False)"

definition nv_prev_leaf :: "node_view \<Rightarrow> nat option" where
  "nv_prev_leaf v = (case nv_kind v of LeafKind prev _ \<Rightarrow> prev | InternalKind _ \<Rightarrow> None)"

definition nv_next_leaf :: "node_view \<Rightarrow> nat option" where
  "nv_next_leaf v = (case nv_kind v of LeafKind _ next \<Rightarrow> next | InternalKind _ \<Rightarrow> None)"

text \<open>An index past the entries panics.\<close>

definition key_range :: "node_view \<Rightarrow> nat \<Rightarrow> (nat \<times> nat) memory_result" where
  "key_range v i =
     (if i < nv_len v then
        let start = nv_key_offsets v ! i in Ok (start, start + from_le (slice (start - 2) 2 (nv_buf v)))
      else Panic)"

definition nv_key :: "'k codec \<Rightarrow> node_view \<Rightarrow> nat \<Rightarrow> 'k memory_result" where
  "nv_key KC v i = bind_outcome (key_range v i) (\<lambda>(start, stop). decode KC (slice start (stop - start) (nv_buf v)))"

definition nv_pointer :: "node_view \<Rightarrow> nat \<Rightarrow> record_address memory_result" where
  "nv_pointer v i = bind_outcome (key_range v i) (\<lambda>(_, stop). ra_decode (slice stop RECORD_POINTER_SIZE (nv_buf v)))"

function nv_search :: "'k codec \<Rightarrow> ('k \<Rightarrow> bool) \<Rightarrow> node_view \<Rightarrow> nat \<Rightarrow> nat \<Rightarrow> nat memory_result" where
  "nv_search KC pred v low high =
     (if low < high then
        let mid = low + (high - low) div 2 in
        bind_outcome (nv_key KC v mid) (\<lambda>k. if pred k then nv_search KC pred v (mid + 1) high else nv_search KC pred v low mid)
      else Ok low)"
  by pat_completeness auto
termination by (relation "measure (\<lambda>(KC, pred, v, low, high). high - low)") auto

definition nv_partition_point :: "'k codec \<Rightarrow> ('k \<Rightarrow> bool) \<Rightarrow> node_view \<Rightarrow> nat memory_result" where
  "nv_partition_point KC pred v = nv_search KC pred v 0 (nv_len v)"

definition nv_child_for :: "('k :: linorder) codec \<Rightarrow> 'k \<Rightarrow> node_view \<Rightarrow> nat option memory_result" where
  "nv_child_for KC key v =
     (case nv_kind v of
        LeafKind _ _ \<Rightarrow> Ok None
      | InternalKind rightmost_child \<Rightarrow>
          bind_outcome (nv_partition_point KC (\<lambda>k. k \<le> key) v) (\<lambda>i.
            if i < nv_len v then map_outcome (\<lambda>(_, stop). Some (read_page (nv_buf v) stop)) (key_range v i)
            else Ok (Some rightmost_child)))"

text \<open>
  The view of a page that decodes to a node: the same entries, decoded one at a time, and the same links.
\<close>

definition body_keys :: "'k node_body \<Rightarrow> 'k list" where
  "body_keys body = (case body of InternalBody entries _ \<Rightarrow> map fst entries | LeafBody entries _ _ \<Rightarrow> map fst entries)"

definition views :: "'k codec \<Rightarrow> node_view \<Rightarrow> 'k node_body \<Rightarrow> bool" where
  "views KC v body \<longleftrightarrow> nv_len v = length (body_keys body) \<and> (\<forall>i < nv_len v. nv_key KC v i = Ok (body_keys body ! i)) \<and>
     (case body of
        InternalBody entries rightmost_child \<Rightarrow> nv_kind v = InternalKind rightmost_child \<and>
          (\<forall>i < nv_len v. map_outcome (\<lambda>(_, stop). read_page (nv_buf v) stop) (key_range v i) = Ok (snd (entries ! i)))
      | LeafBody entries prev next \<Rightarrow> nv_kind v = LeafKind prev next \<and> (\<forall>i < nv_len v. nv_pointer v i = Ok (snd (entries ! i))))"

lemma get_entries_offsets:
  assumes "get_entries dec tail get buf n offset = Ok entries"
  shows "\<exists>offsets. key_offset_loop buf tail n offset = Ok offsets \<and> length offsets = n \<and> length entries = n \<and>
    (\<forall>i < n. 2 \<le> offsets ! i \<and>
       dec (slice (offsets ! i) (from_le (slice (offsets ! i - 2) 2 buf)) buf) = Ok (fst (entries ! i)) \<and>
       get (slice (offsets ! i + from_le (slice (offsets ! i - 2) 2 buf)) tail buf) = Ok (snd (entries ! i)))"
  using assms
proof (induction n arbitrary: offset entries)
  case (Suc n)
  let ?n = "from_le (slice offset 2 buf)"
  obtain key v more where r: "\<not> offset + 2 > length buf" "\<not> offset + 2 + ?n + tail > length buf"
    "dec (slice (offset + 2) ?n buf) = Ok key" "get (slice (offset + 2 + ?n) tail buf) = Ok v"
    "get_entries dec tail get buf n (offset + 2 + ?n + tail) = Ok more" "entries = (key, v) # more"
    using Suc.prems by (auto simp: Let_def bind_outcome_Ok_iff map_outcome_Ok_iff split: if_splits)
  obtain offsets where o: "key_offset_loop buf tail n (offset + 2 + ?n + tail) = Ok offsets" "length offsets = n" "length more = n"
    "\<forall>i < n. 2 \<le> offsets ! i \<and>
       dec (slice (offsets ! i) (from_le (slice (offsets ! i - 2) 2 buf)) buf) = Ok (fst (more ! i)) \<and>
       get (slice (offsets ! i + from_le (slice (offsets ! i - 2) 2 buf)) tail buf) = Ok (snd (more ! i))"
    using Suc.IH [OF r(5)] by (elim exE conjE)
  have "key_offset_loop buf tail (Suc n) offset = Ok ((offset + 2) # offsets)" using r(1,2) o(1) by (simp add: Let_def)
  then show ?case
    using o(2-4) r(3,4,6) by (intro exI [of _ "(offset + 2) # offsets"]) (auto simp: nth_Cons split: nat.split)
qed simp

lemma deserialize_views:
  assumes "node_deserialize KC p buf = Ok node"
  shows "\<exists>v. nv_parse buf = Ok v \<and> nv_buf v = buf \<and> views KC v (bn_body node) \<and>
    is_leaf_page buf = (case bn_body node of LeafBody _ _ _ \<Rightarrow> True | InternalBody _ _ \<Rightarrow> False)"
proof -
  have len: "11 \<le> length buf" using assms by (auto simp: node_deserialize_def INTERNAL_HEADER_SIZE_def split: if_splits)
  have hd: "from_le (slice 0 1 buf) = unat (hd buf)" "buf \<noteq> []" using len by (cases buf; auto simp: slice_def)+
  consider (internal) entries where "from_le (slice 0 1 buf) = NODE_TYPE_INTERNAL" "bn_body node = InternalBody entries (read_page buf 7)"
      "get_entries (decode KC) 4 (\<lambda>bs. Ok (from_le bs)) buf (from_le (slice 5 2 buf)) INTERNAL_HEADER_SIZE = Ok entries"
    | (leaf) entries where "from_le (slice 0 1 buf) = NODE_TYPE_LEAF" "LEAF_HEADER_SIZE \<le> length buf"
      "bn_body node = LeafBody entries (read_link buf 7) (read_link buf 11)"
      "get_entries (decode KC) RECORD_POINTER_SIZE ra_decode buf (from_le (slice 5 2 buf)) LEAF_HEADER_SIZE = Ok entries"
    using assms by (auto simp: node_deserialize_def Let_def map_outcome_Ok_iff split: if_splits)
  then show ?thesis
  proof cases
    case internal
    obtain offsets where o: "key_offset_loop buf 4 (from_le (slice 5 2 buf)) INTERNAL_HEADER_SIZE = Ok offsets" "length offsets = length entries"
      "\<forall>i < length entries. decode KC (slice (offsets ! i) (from_le (slice (offsets ! i - 2) 2 buf)) buf) = Ok (fst (entries ! i)) \<and>
       Ok (from_le (slice (offsets ! i + from_le (slice (offsets ! i - 2) 2 buf)) 4 buf)) = (Ok (snd (entries ! i)) :: nat memory_result)"
      using get_entries_offsets [OF internal(3)] by (elim exE conjE) simp
    then show ?thesis using internal(1,2) len hd
      by (simp add: nv_parse_def Let_def views_def nv_len_def body_keys_def nv_key_def key_range_def read_page_def is_leaf_page_def)
        (simp add: node_consts)
  next
    case leaf
    obtain offsets where o: "key_offset_loop buf RECORD_POINTER_SIZE (from_le (slice 5 2 buf)) LEAF_HEADER_SIZE = Ok offsets" "length offsets = length entries"
      "\<forall>i < length entries. decode KC (slice (offsets ! i) (from_le (slice (offsets ! i - 2) 2 buf)) buf) = Ok (fst (entries ! i)) \<and>
       ra_decode (slice (offsets ! i + from_le (slice (offsets ! i - 2) 2 buf)) RECORD_POINTER_SIZE buf) = Ok (snd (entries ! i))"
      using get_entries_offsets [OF leaf(4)] by (elim exE conjE) simp
    then show ?thesis using leaf(1-3) len hd
      by (simp add: nv_parse_def Let_def views_def nv_len_def body_keys_def nv_key_def nv_pointer_def key_range_def is_leaf_page_def)
        (simp add: node_consts)
  qed
qed

lemma first_leaf_key_views:
  assumes "node_deserialize KC p buf = Ok node" and "bn_body node = LeafBody entries prev next"
  shows "first_leaf_key KC buf = Ok (case entries of [] \<Rightarrow> None | (k, a) # _ \<Rightarrow> Some k)"
proof -
  have r: "from_le (slice 0 1 buf) = NODE_TYPE_LEAF" "LEAF_HEADER_SIZE \<le> length buf"
    "get_entries (decode KC) RECORD_POINTER_SIZE ra_decode buf (from_le (slice 5 2 buf)) LEAF_HEADER_SIZE = Ok entries"
    using assms by (auto simp: node_deserialize_def Let_def map_outcome_Ok_iff split: if_splits)
  then show ?thesis
    by (cases "from_le (slice 5 2 buf)")
      (auto simp: first_leaf_key_def Let_def bind_outcome_Ok_iff map_outcome_Ok_iff slice_or_panic_def split: if_splits)
qed

lemma nv_search_takeWhile:
  assumes "\<And>i. i < length ks \<Longrightarrow> nv_key KC v i = Ok (ks ! i)" and "\<And>i j. i < j \<Longrightarrow> j < length ks \<Longrightarrow> pred (ks ! j) \<Longrightarrow> pred (ks ! i)"
    and "low \<le> high" "high \<le> length ks" "\<forall>i < low. pred (ks ! i)" "\<forall>i < length ks. high \<le> i \<longrightarrow> \<not> pred (ks ! i)"
  shows "nv_search KC pred v low high = Ok (length (takeWhile pred ks))"
  using assms
proof (induction KC pred v low high rule: nv_search.induct)
  case (1 KC pred v low high)
  show ?case
  proof (cases "low < high")
    case True
    define mid where "mid = low + (high - low) div 2"
    have mid: "low \<le> mid" "mid < high" using True by (auto simp: mid_def)
    have key: "nv_key KC v mid = Ok (ks ! mid)" using "1.prems"(1,4) mid by simp
    show ?thesis
    proof (cases "pred (ks ! mid)")
      case p: True
      have "\<forall>i < mid + 1. pred (ks ! i)" using p "1.prems"(2) [of _ mid] "1.prems"(4) mid by (metis Suc_eq_plus1 less_Suc_eq less_le_trans)
      then have "nv_search KC pred v (mid + 1) high = Ok (length (takeWhile pred ks))"
        using "1.IH"(1) [OF True mid_def p] "1.prems" mid by simp
      then show ?thesis using True key p by (subst nv_search.simps) (simp add: Let_def mid_def)
    next
      case p: False
      have "\<forall>i < length ks. mid \<le> i \<longrightarrow> \<not> pred (ks ! i)" using p "1.prems"(2) [of mid] by (metis le_neq_implies_less)
      then have "nv_search KC pred v low mid = Ok (length (takeWhile pred ks))"
        using "1.IH"(2) [OF True mid_def p] "1.prems" mid by simp
      then show ?thesis using True key p by (subst nv_search.simps) (simp add: Let_def mid_def)
    qed
  next
    case False
    then have "low = high" using "1.prems"(3) by simp
    moreover have "length (takeWhile pred ks) = low"
      using "1.prems"(4,5,6) \<open>low = high\<close> takeWhile_eq_take_P_nth [of low ks pred] by simp
    ultimately show ?thesis by (subst nv_search.simps) simp
  qed
qed

lemma nv_partition_point_views:
  assumes "views KC v body" and "\<And>i j. i < j \<Longrightarrow> j < length (body_keys body) \<Longrightarrow> pred (body_keys body ! j) \<Longrightarrow> pred (body_keys body ! i)"
  shows "nv_partition_point KC pred v = Ok (length (takeWhile pred (body_keys body)))"
  unfolding nv_partition_point_def using assms
  by (intro nv_search_takeWhile) (auto simp: views_def)

end
