(* ===== verification/Index_Tree.thy ===== *)
theory Index_Tree
  imports Index_Node
begin

text \<open>
  The B+ tree of an index on pages, \<^verbatim>\<open>table_registry/index_ledger/index_tree.rs\<close> and its cursor \<^verbatim>\<open>walker.rs\<close>.
  The loops that follow page links have no bound in the code; the model counts their steps down and ends
  in a panic when the count runs out, which the theorems exclude for a count above the number of nodes.
\<close>

section \<open>Nodes in memory\<close>

definition read_into :: "'m mem_ops \<Rightarrow> nat \<Rightarrow> byte list \<Rightarrow> ('m, byte list) mem_prog" where
  "read_into MA page buf = mbind (read_at_raw MA page 0 buf) (\<lambda>(_, filled). ret filled)"

definition zero_buf :: "'m mem_ops \<Rightarrow> ('m, byte list) mem_prog" where
  "zero_buf MA m = (Ok (replicate (page_size MA m) 0), m)"

definition node_read :: "'m mem_ops \<Rightarrow> 'k codec \<Rightarrow> nat \<Rightarrow> ('m, 'k btree_node) mem_prog" where
  "node_read MA KC page =
     mbind (zero_buf MA) (\<lambda>buf. mbind (read_into MA page buf) (\<lambda>filled. lift_res (node_deserialize KC page filled)))"

definition node_flush :: "'m mem_ops \<Rightarrow> 'k codec \<Rightarrow> 'k btree_node \<Rightarrow> ('m, 'k btree_node) mem_prog" where
  "node_flush MA KC node m =
     (if \<not> bn_dirty node then ret node
      else mbind (lift_res (node_serialize KC (page_size MA m) node)) (\<lambda>buf.
        mbind (write_at_raw MA (bn_page node) 0 buf) (\<lambda>_. ret (node\<lparr>bn_dirty := False\<rparr>)))) m"

fun sum_sizes :: "('k \<Rightarrow> byte list) \<Rightarrow> (nat \<Rightarrow> nat memory_result) \<Rightarrow> 'k list \<Rightarrow> nat \<Rightarrow> nat memory_result" where
  "sum_sizes enc size_of [] acc = Ok acc"
| "sum_sizes enc size_of (k # ks) acc = bind_outcome (size_of (length (enc k))) (\<lambda>n. sum_sizes enc size_of ks (acc + n))"

definition entries_byte_size :: "'k codec \<Rightarrow> nat \<Rightarrow> 'k btree_node \<Rightarrow> nat memory_result" where
  "entries_byte_size KC ps node =
     (case bn_body node of
        InternalBody entries _ \<Rightarrow> sum_sizes (encode KC) (\<lambda>n. internal_entry_size_from_len n ps) (map fst entries) 0
      | LeafBody entries _ _ \<Rightarrow> sum_sizes (encode KC) (\<lambda>n. leaf_entry_size_from_len n ps) (map fst entries) 0)"

definition would_overflow :: "'k codec \<Rightarrow> nat \<Rightarrow> 'k btree_node \<Rightarrow> bool memory_result" where
  "would_overflow KC ps node =
     map_outcome (\<lambda>n. (case bn_body node of InternalBody _ _ \<Rightarrow> INTERNAL_HEADER_SIZE | LeafBody _ _ _ \<Rightarrow> LEAF_HEADER_SIZE) + n > ps)
       (entries_byte_size KC ps node)"

definition first_key :: "'k btree_node \<Rightarrow> 'k option" where
  "first_key node = (case body_keys (bn_body node) of [] \<Rightarrow> None | k # _ \<Rightarrow> Some k)"

text \<open>\<^verbatim>\<open>slice::partition_point\<close> on a slice that the predicate partitions.\<close>

definition partition_point :: "('a \<Rightarrow> bool) \<Rightarrow> 'a list \<Rightarrow> nat" where
  "partition_point pred xs = length (takeWhile pred xs)"

definition insert_at :: "nat \<Rightarrow> 'a \<Rightarrow> 'a list \<Rightarrow> 'a list" where
  "insert_at i x xs = take i xs @ x # drop i xs"

definition remove_at :: "nat \<Rightarrow> 'a list \<Rightarrow> 'a list" where
  "remove_at i xs = take i xs @ drop (Suc i) xs"

section \<open>Searching\<close>

definition find_child :: "('k :: linorder \<times> nat) list \<Rightarrow> nat \<Rightarrow> 'k \<Rightarrow> nat" where
  "find_child entries rightmost_child key =
     (let i = partition_point (\<lambda>(k, _). k \<le> key) entries in if i < length entries then snd (entries ! i) else rightmost_child)"

fun find_leaf_page_into ::
  "'m mem_ops \<Rightarrow> ('k :: linorder) codec \<Rightarrow> nat \<Rightarrow> nat \<Rightarrow> 'k \<Rightarrow> byte list \<Rightarrow> ('m, nat \<times> byte list) mem_prog" where
  "find_leaf_page_into MA KC 0 page key buf = panic"
| "find_leaf_page_into MA KC (Suc fuel) page key buf =
     mbind (read_into MA page buf) (\<lambda>buf.
       if is_leaf_page buf then ret (page, buf)
       else mbind (lift_res (nv_parse buf)) (\<lambda>view.
         mbind (lift_res (nv_child_for KC key view)) (\<lambda>child.
           case child of Some c \<Rightarrow> find_leaf_page_into MA KC fuel c key buf | None \<Rightarrow> ret (page, buf))))"

text \<open>The inner loop: the nearest earlier leaf with entries, if its last key may still be \<open>key\<close>.\<close>

fun previous_leaf ::
  "'m mem_ops \<Rightarrow> ('k :: linorder) codec \<Rightarrow> nat \<Rightarrow> 'k \<Rightarrow> nat option \<Rightarrow> byte list \<Rightarrow> ('m, nat option \<times> byte list) mem_prog" where
  "previous_leaf MA KC fuel key None buf = ret (None, buf)"
| "previous_leaf MA KC 0 key (Some prev) buf = panic"
| "previous_leaf MA KC (Suc fuel) key (Some prev) buf =
     mbind (read_into MA prev buf) (\<lambda>buf.
     mbind (lift_res (nv_parse buf)) (\<lambda>view.
       case nv_len view of
         0 \<Rightarrow> previous_leaf MA KC fuel key (nv_prev_leaf view) buf
       | Suc n \<Rightarrow> mbind (lift_res (nv_key KC view n)) (\<lambda>k. ret (if k \<ge> key then Some prev else None, buf))))"

fun search_start_loop ::
  "'m mem_ops \<Rightarrow> ('k :: linorder) codec \<Rightarrow> nat \<Rightarrow> nat \<Rightarrow> 'k \<Rightarrow> byte list \<Rightarrow> ('m, nat \<times> byte list) mem_prog" where
  "search_start_loop MA KC 0 page key buf = panic"
| "search_start_loop MA KC (Suc fuel) page key buf =
     mbind (lift_res (first_leaf_key KC buf)) (\<lambda>first.
       if (case first of Some k \<Rightarrow> k < key | None \<Rightarrow> False) then ret (page, buf)
       else mbind (lift_res (nv_parse buf)) (\<lambda>view.
         mbind (previous_leaf MA KC fuel key (nv_prev_leaf view) buf) (\<lambda>(found, buf').
           case found of
             Some prev \<Rightarrow> search_start_loop MA KC fuel prev key buf'
           | None \<Rightarrow>
               if nv_prev_leaf view \<noteq> None then mbind (read_into MA page buf') (\<lambda>buf''. ret (page, buf''))
               else ret (page, buf'))))"

definition find_search_start_page ::
  "'m mem_ops \<Rightarrow> ('k :: linorder) codec \<Rightarrow> nat \<Rightarrow> nat \<Rightarrow> 'k \<Rightarrow> byte list \<Rightarrow> ('m, nat \<times> byte list) mem_prog" where
  "find_search_start_page MA KC fuel root key buf =
     mbind (find_leaf_page_into MA KC fuel root key buf) (\<lambda>(page, buf). search_start_loop MA KC fuel page key buf)"

definition find_search_start_leaf :: "'m mem_ops \<Rightarrow> ('k :: linorder) codec \<Rightarrow> nat \<Rightarrow> nat \<Rightarrow> 'k \<Rightarrow> ('m, 'k btree_node) mem_prog" where
  "find_search_start_leaf MA KC fuel root key =
     mbind (zero_buf MA) (\<lambda>buf.
     mbind (find_search_start_page MA KC fuel root key buf) (\<lambda>(page, buf). lift_res (node_deserialize KC page buf)))"

text \<open>The entries of one leaf: \<open>Inl\<close> ends the search with a result, \<open>Inr\<close> goes on with the next leaf.\<close>

fun collect_pointers ::
  "'k codec \<Rightarrow> 'k \<Rightarrow> nat \<Rightarrow> node_view \<Rightarrow> nat list \<Rightarrow> record_address list \<Rightarrow> (record_address list option + record_address list) memory_result" where
  "collect_pointers KC key limit view [] results = Ok (Inr results)"
| "collect_pointers KC key limit view (i # is) results =
     bind_outcome (nv_key KC view i) (\<lambda>k.
       if k \<noteq> key then Ok (Inl (Some results))
       else if length results = limit then Ok (Inl None)
       else bind_outcome (nv_pointer view i) (\<lambda>a. collect_pointers KC key limit view is (results @ [a])))"

fun search_loop ::
  "'m mem_ops \<Rightarrow> ('k :: linorder) codec \<Rightarrow> nat \<Rightarrow> 'k \<Rightarrow> nat \<Rightarrow> byte list \<Rightarrow> record_address list \<Rightarrow> ('m, record_address list option) mem_prog" where
  "search_loop MA KC 0 key limit buf results = panic"
| "search_loop MA KC (Suc fuel) key limit buf results =
     mbind (lift_res (nv_parse buf)) (\<lambda>view.
       if \<not> nv_is_leaf view then ret (Some results)
       else mbind (lift_res (nv_partition_point KC (\<lambda>k. k < key) view)) (\<lambda>start.
         mbind (lift_res (collect_pointers KC key limit view [start ..< nv_len view] results)) (\<lambda>r.
           case r of
             Inl answer \<Rightarrow> ret answer
           | Inr results \<Rightarrow>
               (case nv_next_leaf view of
                  Some page \<Rightarrow> mbind (read_into MA page buf) (\<lambda>buf. search_loop MA KC fuel key limit buf results)
                | None \<Rightarrow> ret (Some results)))))"

definition search_limited :: "'m mem_ops \<Rightarrow> ('k :: linorder) codec \<Rightarrow> nat \<Rightarrow> nat \<Rightarrow> 'k \<Rightarrow> nat \<Rightarrow> ('m, record_address list option) mem_prog" where
  "search_limited MA KC fuel root key limit =
     mbind (zero_buf MA) (\<lambda>buf.
     mbind (find_search_start_page MA KC fuel root key buf) (\<lambda>(_, buf). search_loop MA KC fuel key limit buf []))"

definition search :: "'m mem_ops \<Rightarrow> ('k :: linorder) codec \<Rightarrow> nat \<Rightarrow> nat \<Rightarrow> nat \<Rightarrow> 'k \<Rightarrow> ('m, record_address list) mem_prog" where
  "search MA KC usize_max fuel root key =
     mbind (search_limited MA KC fuel root key usize_max) (\<lambda>found. ret (case found of Some as \<Rightarrow> as | None \<Rightarrow> []))"

section \<open>Deleting\<close>

fun tree_delete_loop ::
  "'m mem_ops \<Rightarrow> ('k :: linorder) codec \<Rightarrow> nat \<Rightarrow> 'k \<Rightarrow> record_address \<Rightarrow> 'k btree_node \<Rightarrow> ('m, unit) mem_prog" where
  "tree_delete_loop MA KC 0 key pointer leaf = panic"
| "tree_delete_loop MA KC (Suc fuel) key pointer leaf =
     (case bn_body leaf of
        InternalBody _ _ \<Rightarrow> fail EntryNotFound
      | LeafBody entries prev next \<Rightarrow>
          (case position (\<lambda>(k, a). k = key \<and> a = pointer) entries of
             Some i \<Rightarrow>
               mbind (node_flush MA KC (leaf\<lparr>bn_body := LeafBody (remove_at i entries) prev next,
                 bn_num_entries := as_u16 (length (remove_at i entries)), bn_dirty := True\<rparr>)) (\<lambda>_. ret ())
           | None \<Rightarrow>
               (case next of
                  Some page \<Rightarrow>
                    mbind (node_read MA KC page) (\<lambda>next_leaf.
                      if (case first_key next_leaf of Some k \<Rightarrow> k > key | None \<Rightarrow> False) then fail EntryNotFound
                      else tree_delete_loop MA KC fuel key pointer next_leaf)
                | None \<Rightarrow> fail EntryNotFound)))"

definition tree_delete :: "'m mem_ops \<Rightarrow> ('k :: linorder) codec \<Rightarrow> nat \<Rightarrow> nat \<Rightarrow> 'k \<Rightarrow> record_address \<Rightarrow> ('m, unit) mem_prog" where
  "tree_delete MA KC fuel root key pointer =
     mbind (find_search_start_leaf MA KC fuel root key) (\<lambda>leaf. tree_delete_loop MA KC fuel key pointer leaf)"

section \<open>Inserting\<close>

fun read_path :: "'m mem_ops \<Rightarrow> ('k :: linorder) codec \<Rightarrow> nat \<Rightarrow> nat \<Rightarrow> 'k \<Rightarrow> ('m, 'k btree_node list) mem_prog" where
  "read_path MA KC 0 page key = panic"
| "read_path MA KC (Suc fuel) page key =
     mbind (node_read MA KC page) (\<lambda>node.
       case bn_body node of
         InternalBody entries rightmost_child \<Rightarrow>
           mbind (read_path MA KC fuel (find_child entries rightmost_child key) key) (\<lambda>path. ret (node # path))
       | LeafBody _ _ _ \<Rightarrow> ret [node])"

text \<open>The loop of the split: the best index so far, with its imbalance.\<close>

definition better_split :: "nat \<Rightarrow> bool \<Rightarrow> nat \<Rightarrow> nat \<Rightarrow> nat \<Rightarrow> nat \<Rightarrow> (nat \<times> nat) option \<Rightarrow> (nat \<times> nat) option" where
  "better_split room promote_median len index left right best =
     (if index > 0 \<and> (\<not> promote_median \<or> index + 1 < len) \<and> left \<le> room \<and> right \<le> room \<and>
         (case best of None \<Rightarrow> True | Some (_, b) \<Rightarrow> (left - right) + (right - left) < b)
      then Some (index, (left - right) + (right - left)) else best)"

fun split_index_loop ::
  "nat \<Rightarrow> nat \<Rightarrow> bool \<Rightarrow> nat \<Rightarrow> nat list \<Rightarrow> nat \<Rightarrow> nat \<Rightarrow> (nat \<times> nat) option \<Rightarrow> (nat \<times> nat) option" where
  "split_index_loop room all promote_median len [] index left best = best"
| "split_index_loop room all promote_median len (n # sizes) index left best =
     split_index_loop room all promote_median len sizes (index + 1) (left + n)
       (better_split room promote_median len index left (if promote_median then all - left - n else all - left) best)"

definition byte_balanced_split_index :: "nat list \<Rightarrow> nat \<Rightarrow> nat \<Rightarrow> bool \<Rightarrow> nat option" where
  "byte_balanced_split_index sizes header ps promote_median =
     (if header \<le> ps then
        map_option fst (split_index_loop (ps - header) (sum_list sizes) promote_median (length sizes) sizes 0 0 None)
      else None)"

record 'k promotion =
  pr_key :: 'k
  pr_left_page :: nat
  pr_right_page :: nat

definition max_size :: "nat list \<Rightarrow> nat" where
  "max_size sizes = fold max sizes 0"

fun entry_sizes :: "('k \<Rightarrow> byte list) \<Rightarrow> (nat \<Rightarrow> nat memory_result) \<Rightarrow> 'k list \<Rightarrow> nat list memory_result" where
  "entry_sizes enc size_of [] = Ok []"
| "entry_sizes enc size_of (k # ks) = bind_outcome (size_of (length (enc k))) (\<lambda>n. map_outcome ((#) n) (entry_sizes enc size_of ks))"

definition split_index :: "nat list \<Rightarrow> nat \<Rightarrow> nat \<Rightarrow> bool \<Rightarrow> nat memory_result" where
  "split_index sizes header ps promote_median =
     (case byte_balanced_split_index sizes header ps promote_median of
        Some i \<Rightarrow> Ok i
      | None \<Rightarrow> Err (KeyTooLarge (max_size sizes) (ps - header)))"

text \<open>The backward link of the leaf after a split leaf.\<close>

definition relink_next :: "'m mem_ops \<Rightarrow> 'k codec \<Rightarrow> nat option \<Rightarrow> nat \<Rightarrow> ('m, unit) mem_prog" where
  "relink_next MA KC old_next right_page =
     (case old_next of
        None \<Rightarrow> ret ()
      | Some next_page \<Rightarrow>
          mbind (node_read MA KC next_page) (\<lambda>next_leaf.
            case bn_body next_leaf of
              LeafBody entries _ nxt \<Rightarrow>
                mbind (node_flush MA KC (next_leaf\<lparr>bn_body := LeafBody entries (Some right_page) nxt, bn_dirty := True\<rparr>)) (\<lambda>_. ret ())
            | InternalBody _ _ \<Rightarrow> ret ()))"

text \<open>Splitting a node returns the promoted key and the left half; the right half is written.\<close>

definition split_node :: "'m mem_ops \<Rightarrow> 'k codec \<Rightarrow> 'k btree_node \<Rightarrow> ('m, 'k promotion \<times> 'k btree_node) mem_prog" where
  "split_node MA KC node m =
     (case bn_body node of
        LeafBody entries prev next \<Rightarrow>
          mbind (lift_res (entry_sizes (encode KC) (\<lambda>n. leaf_entry_size_from_len n (page_size MA m)) (map fst entries))) (\<lambda>sizes.
          mbind (lift_res (split_index sizes LEAF_HEADER_SIZE (page_size MA m) False)) (\<lambda>split_at.
            case drop split_at entries of
              [] \<Rightarrow> panic
            | (promote_key, _) # _ \<Rightarrow>
                mbind (claim_page MA) (\<lambda>right_page.
                mbind (relink_next MA KC next right_page) (\<lambda>_.
                mbind (node_flush MA KC \<lparr>bn_page = right_page, bn_parent_page = bn_parent_page node,
                    bn_num_entries = as_u16 (length (drop split_at entries)),
                    bn_body = LeafBody (drop split_at entries) (Some (bn_page node)) next, bn_dirty = True\<rparr>) (\<lambda>_.
                  ret (\<lparr>pr_key = promote_key, pr_left_page = bn_page node, pr_right_page = right_page\<rparr>,
                    node\<lparr>bn_body := LeafBody (take split_at entries) prev (Some right_page),
                      bn_num_entries := as_u16 (length (take split_at entries)), bn_dirty := True\<rparr>))))))
      | InternalBody entries rightmost_child \<Rightarrow>
          mbind (lift_res (entry_sizes (encode KC) (\<lambda>n. internal_entry_size_from_len n (page_size MA m)) (map fst entries))) (\<lambda>sizes.
          mbind (lift_res (split_index sizes INTERNAL_HEADER_SIZE (page_size MA m) True)) (\<lambda>mid.
            case drop mid entries of
              [] \<Rightarrow> panic
            | (median_key, median_child) # right_entries \<Rightarrow>
                mbind (claim_page MA) (\<lambda>right_page.
                mbind (node_flush MA KC \<lparr>bn_page = right_page, bn_parent_page = bn_parent_page node,
                    bn_num_entries = as_u16 (length right_entries),
                    bn_body = InternalBody right_entries rightmost_child, bn_dirty = True\<rparr>) (\<lambda>_.
                  ret (\<lparr>pr_key = median_key, pr_left_page = bn_page node, pr_right_page = right_page\<rparr>,
                    node\<lparr>bn_body := InternalBody (take mid entries) median_child,
                      bn_num_entries := as_u16 (length (take mid entries)), bn_dirty := True\<rparr>)))))) m"

definition promoted_body :: "('k \<times> nat) list \<Rightarrow> nat \<Rightarrow> 'k promotion \<Rightarrow> 'k node_body memory_result" where
  "promoted_body entries rightmost_child pr =
     (if rightmost_child = pr_left_page pr then Ok (InternalBody (entries @ [(pr_key pr, pr_left_page pr)]) (pr_right_page pr))
      else case position (\<lambda>(_, child). child = pr_left_page pr) entries of
        Some i \<Rightarrow>
          let inserted = insert_at i (pr_key pr, pr_left_page pr) entries in
          Ok (InternalBody (inserted[i + 1 := (fst (inserted ! (i + 1)), pr_right_page pr)]) rightmost_child)
      | None \<Rightarrow> Panic)"

definition promote_into_internal :: "'k btree_node \<Rightarrow> 'k promotion \<Rightarrow> 'k btree_node memory_result" where
  "promote_into_internal parent pr =
     (case bn_body parent of
        LeafBody _ _ _ \<Rightarrow> Panic
      | InternalBody entries rightmost_child \<Rightarrow>
          map_outcome (\<lambda>body. parent\<lparr>bn_body := body, bn_num_entries := as_u16 (body_len body), bn_dirty := True\<rparr>)
            (promoted_body entries rightmost_child pr))"

text \<open>The loop from the leaf up to the root over the nodes of the path.\<close>

fun split_up :: "'m mem_ops \<Rightarrow> 'k codec \<Rightarrow> nat \<Rightarrow> 'k btree_node list \<Rightarrow> nat \<Rightarrow> ('m, 'k btree_node list \<times> nat) mem_prog" where
  "split_up MA KC 0 path root m = ret (path, root) m"
| "split_up MA KC (Suc i) path root m =
     mbind (lift_res (would_overflow KC (page_size MA m) (path ! i))) (\<lambda>overflow.
       if \<not> overflow then split_up MA KC i path root
       else mbind (split_node MA KC (path ! i)) (\<lambda>(pr, left).
         if i > 0 then
           mbind (lift_res (promote_into_internal (path ! (i - 1)) pr)) (\<lambda>parent.
             split_up MA KC i (path[i := left, i - 1 := parent]) root)
         else
           mbind (claim_page MA) (\<lambda>new_root_page.
           mbind (node_flush MA KC \<lparr>bn_page = new_root_page, bn_parent_page = None, bn_num_entries = 1,
               bn_body = InternalBody [(pr_key pr, pr_left_page pr)] (pr_right_page pr), bn_dirty = True\<rparr>) (\<lambda>_.
             split_up MA KC i (path[i := left\<lparr>bn_parent_page := Some new_root_page, bn_dirty := True\<rparr>]) new_root_page)))) m"

fun flush_all :: "'m mem_ops \<Rightarrow> 'k codec \<Rightarrow> 'k btree_node list \<Rightarrow> ('m, unit) mem_prog" where
  "flush_all MA KC [] = ret ()"
| "flush_all MA KC (node # nodes) = mbind (node_flush MA KC node) (\<lambda>_. flush_all MA KC nodes)"

definition leaf_insert :: "'k :: linorder \<Rightarrow> record_address \<Rightarrow> 'k btree_node \<Rightarrow> 'k btree_node" where
  "leaf_insert key pointer leaf =
     (case bn_body leaf of
        LeafBody entries prev next \<Rightarrow>
          let entries' = insert_at (partition_point (\<lambda>(k, a). k < key \<or> k = key \<and> ra_cmp a pointer < 0) entries) (key, pointer) entries
          in leaf\<lparr>bn_body := LeafBody entries' prev next, bn_num_entries := as_u16 (length entries'), bn_dirty := True\<rparr>
      | InternalBody _ _ \<Rightarrow> leaf)"

definition tree_insert :: "'m mem_ops \<Rightarrow> ('k :: linorder) codec \<Rightarrow> nat \<Rightarrow> nat \<Rightarrow> 'k \<Rightarrow> record_address \<Rightarrow> ('m, nat) mem_prog" where
  "tree_insert MA KC fuel root key pointer =
     mbind (read_path MA KC fuel root key) (\<lambda>path.
     mbind (split_up MA KC (length path) (path[length path - 1 := leaf_insert key pointer (last path)]) root) (\<lambda>(path, root').
     mbind (flush_all MA KC path) (\<lambda>_. ret root')))"

definition tree_init :: "'m mem_ops \<Rightarrow> 'k codec \<Rightarrow> ('m, nat) mem_prog" where
  "tree_init MA KC =
     mbind (claim_page MA) (\<lambda>root_page. mbind (node_flush MA KC (new_leaf root_page None)) (\<lambda>_. ret root_page))"

definition tree_update ::
  "'m mem_ops \<Rightarrow> ('k :: linorder) codec \<Rightarrow> nat \<Rightarrow> nat \<Rightarrow> 'k \<Rightarrow> record_address \<Rightarrow> record_address \<Rightarrow> ('m, nat) mem_prog" where
  "tree_update MA KC fuel root key old_pointer new_pointer =
     mbind (tree_delete MA KC fuel root key old_pointer) (\<lambda>_. tree_insert MA KC fuel root key new_pointer)"

section \<open>Range scans\<close>

record 'k tree_walker =
  tw_entries :: "('k \<times> record_address) list"
  tw_cursor :: nat
  tw_next_leaf :: "nat option"
  tw_end_key :: "'k option"

definition tree_range_scan :: "'m mem_ops \<Rightarrow> ('k :: linorder) codec \<Rightarrow> nat \<Rightarrow> nat \<Rightarrow> 'k \<Rightarrow> 'k option \<Rightarrow> ('m, 'k tree_walker) mem_prog" where
  "tree_range_scan MA KC fuel root start_key end_key =
     mbind (find_search_start_leaf MA KC fuel root start_key) (\<lambda>leaf.
       case bn_body leaf of
         LeafBody entries _ next \<Rightarrow>
           ret \<lparr>tw_entries = entries, tw_cursor = partition_point (\<lambda>(k, _). k < start_key) entries, tw_next_leaf = next, tw_end_key = end_key\<rparr>
       | InternalBody _ _ \<Rightarrow> panic)"

definition is_past_end :: "('k :: linorder) tree_walker \<Rightarrow> 'k \<Rightarrow> bool" where
  "is_past_end w key \<longleftrightarrow> (case tw_end_key w of Some e \<Rightarrow> key \<ge> e | None \<Rightarrow> False)"

definition load_next_leaf :: "'m mem_ops \<Rightarrow> 'k codec \<Rightarrow> 'k tree_walker \<Rightarrow> ('m, 'k tree_walker option) mem_prog" where
  "load_next_leaf MA KC w =
     (case tw_next_leaf w of
        None \<Rightarrow> ret None
      | Some page \<Rightarrow>
          mbind (node_read MA KC page) (\<lambda>node.
            case bn_body node of
              LeafBody entries _ next \<Rightarrow> ret (Some (w\<lparr>tw_entries := entries, tw_cursor := 0, tw_next_leaf := next\<rparr>))
            | InternalBody _ _ \<Rightarrow> ret None))"

fun next_entry ::
  "'m mem_ops \<Rightarrow> ('k :: linorder) codec \<Rightarrow> nat \<Rightarrow> 'k tree_walker \<Rightarrow> ('m, ('k \<times> record_address) option \<times> 'k tree_walker) mem_prog" where
  "next_entry MA KC 0 w = panic"
| "next_entry MA KC (Suc fuel) w =
     (if tw_cursor w < length (tw_entries w) then
        let e = tw_entries w ! tw_cursor w in
        if is_past_end w (fst e) then ret (None, w) else ret (Some e, w\<lparr>tw_cursor := tw_cursor w + 1\<rparr>)
      else mbind (load_next_leaf MA KC w) (\<lambda>loaded.
        case loaded of Some w' \<Rightarrow> next_entry MA KC fuel w' | None \<Rightarrow> ret (None, w)))"

definition walker_next ::
  "'m mem_ops \<Rightarrow> ('k :: linorder) codec \<Rightarrow> nat \<Rightarrow> 'k tree_walker \<Rightarrow> ('m, record_address option \<times> 'k tree_walker) mem_prog" where
  "walker_next MA KC fuel w = mbind (next_entry MA KC fuel w) (\<lambda>(e, w'). ret (map_option snd e, w'))"

definition peek_key :: "'k tree_walker \<Rightarrow> 'k option" where
  "peek_key w = (if tw_cursor w < length (tw_entries w) then Some (fst (tw_entries w ! tw_cursor w)) else None)"

section \<open>Releasing a tree\<close>

text \<open>The children of an internal page, in the order they are pushed; keys are skipped by their length.\<close>

fun child_pages :: "byte list \<Rightarrow> nat \<Rightarrow> nat \<Rightarrow> nat list memory_result" where
  "child_pages buf 0 offset = Ok []"
| "child_pages buf (Suc n) offset =
     bind_outcome (slice_or_panic offset 2 buf) (\<lambda>key_size.
     bind_outcome (slice_or_panic (offset + 2 + from_le key_size) 4 buf) (\<lambda>child.
       map_outcome ((#) (from_le child)) (child_pages buf n (offset + 2 + from_le key_size + 4))))"

text \<open>The stack of pages still to visit has its top first.\<close>

fun tree_pages_loop :: "'m mem_ops \<Rightarrow> nat \<Rightarrow> nat list \<Rightarrow> byte list \<Rightarrow> nat list \<Rightarrow> ('m, nat list) mem_prog" where
  "tree_pages_loop MA fuel [] buf pages = ret pages"
| "tree_pages_loop MA 0 (page # stack) buf pages = panic"
| "tree_pages_loop MA (Suc fuel) (page # stack) buf pages =
     mbind (read_into MA page buf) (\<lambda>buf.
     mbind (lift_res (slice_or_panic 0 1 buf)) (\<lambda>node_type.
       if from_le node_type = NODE_TYPE_INTERNAL then
         mbind (lift_res (slice_or_panic 5 2 buf)) (\<lambda>num_entries.
         mbind (lift_res (slice_or_panic 7 4 buf)) (\<lambda>rightmost_child.
         mbind (lift_res (child_pages buf (from_le num_entries) INTERNAL_HEADER_SIZE)) (\<lambda>children.
           tree_pages_loop MA fuel (rev children @ from_le rightmost_child # stack) buf (pages @ [page]))))
       else if from_le node_type = NODE_TYPE_LEAF then tree_pages_loop MA fuel stack buf (pages @ [page])
       else fail (DecodeError (InvalidDiscriminant (from_le node_type)))))"

definition index_tree_pages :: "'m mem_ops \<Rightarrow> nat \<Rightarrow> nat \<Rightarrow> ('m, nat list) mem_prog" where
  "index_tree_pages MA fuel root = mbind (zero_buf MA) (\<lambda>buf. tree_pages_loop MA fuel [root] buf [])"

fun release_all :: "'m mem_ops \<Rightarrow> nat list \<Rightarrow> ('m, unit) mem_prog" where
  "release_all MA [] = ret ()"
| "release_all MA (page # pages) = mbind (unclaim_page MA page) (\<lambda>_. release_all MA pages)"

definition release_index_tree_pages :: "'m mem_ops \<Rightarrow> nat \<Rightarrow> nat \<Rightarrow> ('m, unit) mem_prog" where
  "release_index_tree_pages MA fuel root = mbind (index_tree_pages MA fuel root) (\<lambda>pages. release_all MA pages)"

end
