(* ===== verification/Index_Search.thy ===== *)
theory Index_Search
  imports Index_Tree "HOL-Library.Sublist"
begin

text \<open>
  What the pages of an index hold: a B+ tree as a value, its nodes laid out on pages, and the searches of
  \<^verbatim>\<open>index_tree.rs\<close> against it. A search answers from the entries of the tree in key order, whatever the
  number of levels and of emptied leaves; a deletion removes exactly one entry or reports that there is none.
\<close>

section \<open>Trees\<close>

text \<open>A leaf with its entries, or a branch with its separators and one child more than separators.\<close>

datatype 'k btree =
    BLeaf nat "('k \<times> record_address) list"
  | BNode nat "'k list" "'k btree list"

primrec root_page :: "'k btree \<Rightarrow> nat" where
  "root_page (BLeaf p es) = p"
| "root_page (BNode p ss cs) = p"

fun leaves :: "'k btree \<Rightarrow> (nat \<times> ('k \<times> record_address) list) list" where
  "leaves (BLeaf p es) = [(p, es)]"
| "leaves (BNode p ss cs) = concat (map leaves cs)"

fun inner :: "'k btree \<Rightarrow> (nat \<times> 'k node_body) list" where
  "inner (BLeaf p es) = []"
| "inner (BNode p ss cs) = (p, InternalBody (zip ss (map root_page cs)) (root_page (last cs))) # concat (map inner cs)"

text \<open>The keys in order, the separators between the children included.\<close>

fun interleave :: "'a list list \<Rightarrow> 'a list \<Rightarrow> 'a list" where
  "interleave [] ss = []"
| "interleave (x # xs) [] = x @ concat xs"
| "interleave (x # xs) (s # ss) = x @ s # interleave xs ss"

fun keyseq :: "'k btree \<Rightarrow> 'k list" where
  "keyseq (BLeaf p es) = map fst es"
| "keyseq (BNode p ss cs) = interleave (map keyseq cs) ss"

fun depth :: "'k btree \<Rightarrow> nat" where
  "depth (BLeaf p es) = 0"
| "depth (BNode p ss cs) = Suc (fold max (map depth cs) 0)"

definition entry_before :: "('k :: linorder) \<times> record_address \<Rightarrow> 'k \<times> record_address \<Rightarrow> bool" where
  "entry_before x y \<longleftrightarrow> fst x < fst y \<or> fst x = fst y \<and> ra_cmp (snd x) (snd y) < 0"

fun shaped :: "('k :: linorder) btree \<Rightarrow> bool" where
  "shaped (BLeaf p es) \<longleftrightarrow> sorted_wrt (\<lambda>x y. \<not> entry_before y x) es"
| "shaped (BNode p ss cs) \<longleftrightarrow> length cs = Suc (length ss) \<and> (\<forall>c \<in> set cs. shaped c)"

text \<open>The leaves are linked in both directions.\<close>

definition last_link :: "nat option \<Rightarrow> (nat \<times> 'b) list \<Rightarrow> nat option" where
  "last_link prev ls = (if ls = [] then prev else Some (fst (last ls)))"

definition first_link :: "(nat \<times> 'b) list \<Rightarrow> nat option" where
  "first_link ls = (case ls of [] \<Rightarrow> None | l # _ \<Rightarrow> Some (fst l))"

fun chain :: "nat option \<Rightarrow> (nat \<times> ('k \<times> record_address) list) list \<Rightarrow> (nat \<times> 'k node_body) list" where
  "chain prev [] = []"
| "chain prev ((p, es) # ls) = (p, LeafBody es prev (first_link ls)) # chain (Some p) ls"

definition bodies :: "'k btree \<Rightarrow> (nat \<times> 'k node_body) list" where
  "bodies t = inner t @ chain None (leaves t)"

definition tree_pages :: "'k btree \<Rightarrow> nat set" where
  "tree_pages t = fst ` set (bodies t)"

definition tree_ok :: "('k :: linorder) btree \<Rightarrow> bool" where
  "tree_ok t \<longleftrightarrow> shaped t \<and> sorted (keyseq t) \<and> distinct (map fst (bodies t))"

definition tree_entries :: "'k btree \<Rightarrow> ('k \<times> record_address) list" where
  "tree_entries t = concat (map snd (leaves t))"

text \<open>The pointers of the entries with a key.\<close>

definition pointers_of :: "'k \<Rightarrow> ('k \<times> record_address) list \<Rightarrow> record_address list" where
  "pointers_of key es = map snd (filter (\<lambda>e. fst e = key) es)"

lemma map_fst_zip_le: "length xs \<le> length ys \<Longrightarrow> map fst (zip xs ys) = xs"
  by (simp add: map_fst_zip_take)

lemma fold_max_ge: "x \<in> set xs \<or> x \<le> a \<Longrightarrow> x \<le> fold max xs (a :: nat)"
  by (induction xs arbitrary: a) (auto simp: le_max_iff_disj)

lemma fold_max_le: "a \<le> b \<Longrightarrow> (\<And>x. x \<in> set xs \<Longrightarrow> x \<le> b) \<Longrightarrow> fold max xs (a :: nat) \<le> b"
  by (induction xs arbitrary: a) auto

lemma depth_child: "c \<in> set cs \<Longrightarrow> depth c < depth (BNode p ss cs)"
  using fold_max_ge [of "depth c" "map depth cs" 0] by (simp add: less_Suc_eq_le)

lemma length_chain [simp]: "length (chain prev ls) = length ls"
  by (induction prev ls rule: chain.induct) auto

lemma fst_chain [simp]: "map fst (chain prev ls) = map fst ls"
  by (induction prev ls rule: chain.induct) auto

lemma depth_inner: "depth t \<le> length (inner t)"
proof (induction t)
  case (BNode p ss cs)
  have "depth c \<le> length (concat (map inner cs))" if "c \<in> set cs" for c
    using BNode [OF that] member_le_sum_list [of "length (inner c)" "map (length \<circ> inner) cs"] that by (simp add: length_concat o_def)
  then have "fold max (map depth cs) 0 \<le> length (concat (map inner cs))" by (intro fold_max_le) auto
  then show ?case by simp
qed simp

subsection \<open>Order\<close>

definition before :: "'a list list \<Rightarrow> 'a list \<Rightarrow> 'a list" where
  "before xs ss = concat (map2 (\<lambda>x s. x @ [s]) xs ss)"

definition after :: "'a list \<Rightarrow> 'a list list \<Rightarrow> 'a list" where
  "after ss xs = concat (map2 (\<lambda>s x. s # x) ss xs)"

lemma interleave_after: "length xs = length ss \<Longrightarrow> interleave (x # xs) ss = x @ after ss xs"
  by (induction xs ss arbitrary: x rule: list_induct2) (simp_all add: after_def)

lemma interleave_focus:
  assumes "length xs = length ss" and "length ys = length rs"
  shows "interleave (xs @ x # ys) (ss @ rs) = before xs ss @ x @ after rs ys"
  using assms by (induction xs ss rule: list_induct2) (simp_all add: before_def interleave_after)

lemma before_last: "length xs = length ss \<Longrightarrow> ss \<noteq> [] \<Longrightarrow> \<exists>ys. before xs ss = ys @ [last ss]"
  by (induction xs ss rule: list_induct2) (auto simp: before_def neq_Nil_conv)

lemma after_hd: "length xs = length ss \<Longrightarrow> ss \<noteq> [] \<Longrightarrow> \<exists>ys. after ss xs = hd ss # ys"
  by (cases ss; cases xs) (auto simp: after_def)

lemma set_before: "length xs = length ss \<Longrightarrow> set (before xs ss) = \<Union> (set ` set xs) \<union> set ss"
  by (induction xs ss rule: list_induct2) (auto simp: before_def)

lemma set_after: "length xs = length ss \<Longrightarrow> set (after ss xs) = \<Union> (set ` set xs) \<union> set ss"
  by (induction xs ss rule: list_induct2) (auto simp: after_def)

lemma set_interleave: "length xs = Suc (length ss) \<Longrightarrow> set (interleave xs ss) = \<Union> (set ` set xs) \<union> set ss"
  by (cases xs) (auto simp: interleave_after set_after)

text \<open>The keys a search passes on its way down are at most the key, those to the right are above it.\<close>

lemma focus_bounds:
  assumes sorted: "sorted (interleave xs ss)" and len: "length xs = Suc (length ss)" and i: "i = length (takeWhile (\<lambda>s. s \<le> key) ss)"
  shows "i < length xs" and "interleave xs ss = before (take i xs) (take i ss) @ xs ! i @ after (drop i ss) (drop (Suc i) xs)"
    and "\<forall>k \<in> set (before (take i xs) (take i ss)). k \<le> key" and "\<forall>k \<in> set (after (drop i ss) (drop (Suc i) xs)). key < k"
proof -
  have le: "i \<le> length ss" using i length_takeWhile_le by simp
  then show lt: "i < length xs" using len by simp
  have "interleave xs ss = interleave (take i xs @ xs ! i # drop (Suc i) xs) (take i ss @ drop i ss)"
    using id_take_nth_drop [OF lt] by simp
  then show eq: "interleave xs ss = before (take i xs) (take i ss) @ xs ! i @ after (drop i ss) (drop (Suc i) xs)"
    using interleave_focus [of "take i xs" "take i ss" "drop (Suc i) xs" "drop i ss" "xs ! i"] le len by simp
  have s: "sorted (before (take i xs) (take i ss))" "sorted (after (drop i ss) (drop (Suc i) xs))"
    using sorted unfolding eq by (simp_all add: sorted_append)
  show "\<forall>k \<in> set (before (take i xs) (take i ss)). k \<le> key"
  proof (cases "i = 0")
    case False
    then obtain ys where ys: "before (take i xs) (take i ss) = ys @ [last (take i ss)]"
      using before_last [of "take i xs" "take i ss"] le len by (cases ss) auto
    have "last (take i ss) \<in> set (takeWhile (\<lambda>s. s \<le> key) ss)"
      using i False takeWhile_eq_take [of "\<lambda>s. s \<le> key" ss] by (metis last_in_set length_0_conv)
    then have "last (take i ss) \<le> key" using set_takeWhileD by fastforce
    then show ?thesis using s(1) unfolding ys by (auto simp: sorted_append)
  qed (simp add: before_def)
  show "\<forall>k \<in> set (after (drop i ss) (drop (Suc i) xs)). key < k"
  proof (cases "i = length ss")
    case False
    then have "key < ss ! i" using nth_length_takeWhile [of "\<lambda>s. s \<le> key" ss] i le by auto
    moreover have "hd (drop i ss) = ss ! i" using False le by (simp add: hd_drop_conv_nth)
    moreover obtain ys where "after (drop i ss) (drop (Suc i) xs) = hd (drop i ss) # ys"
      using after_hd [of "drop (Suc i) xs" "drop i ss"] False le len by auto
    ultimately show ?thesis using s(2) by auto
  qed (simp add: after_def)
qed

lemma subseq_interleave:
  "length xs = Suc (length ss) \<Longrightarrow> list_all2 subseq ys xs \<Longrightarrow> subseq (concat ys) (interleave xs ss)"
proof (induction xs ss arbitrary: ys rule: interleave.induct)
  case (3 x xs s ss)
  obtain y zs where ys: "ys = y # zs" "subseq y x" "list_all2 subseq zs xs" using "3.prems"(2) by (auto simp: list_all2_Cons2)
  have "subseq (concat zs) (s # interleave xs ss)" using "3.IH" [OF _ ys(3)] "3.prems"(1) by (simp add: list_emb_Cons)
  then show ?case using ys(1,2) by (simp add: list_emb_append_mono)
qed (auto simp: list_all2_Cons2)

lemma interleave_mono: "list_all2 subseq ys xs \<Longrightarrow> subseq (interleave ys ss) (interleave xs ss)"
proof (induction xs ss arbitrary: ys rule: interleave.induct)
  case (2 x xs)
  then obtain y zs where ys: "ys = y # zs" "subseq y x" "list_all2 subseq zs xs" by (auto simp: list_all2_Cons2)
  have "subseq (concat zs) (concat xs)" using ys(3) by (induction rule: list_all2_induct) (auto intro: list_emb_append_mono)
  then show ?case using ys(1,2) by (simp add: list_emb_append_mono)
next
  case (3 x xs s ss)
  then show ?case by (auto simp: list_all2_Cons2 intro!: list_emb_append_mono)
qed simp

lemma tree_entries_BNode: "tree_entries (BNode p ss cs) = concat (map tree_entries cs)"
  by (induction cs) (simp_all add: tree_entries_def)

lemma entries_subseq: "shaped t \<Longrightarrow> subseq (map fst (tree_entries t)) (keyseq t)"
proof (induction t)
  case (BNode p ss cs)
  have "list_all2 subseq (map (\<lambda>c. map fst (tree_entries c)) cs) (map keyseq cs)"
    using BNode by (auto simp: list_all2_conv_all_nth)
  moreover have "map fst (tree_entries (BNode p ss cs)) = concat (map (\<lambda>c. map fst (tree_entries c)) cs)"
    by (simp add: tree_entries_BNode map_concat o_def)
  ultimately show ?case using subseq_interleave [of "map keyseq cs" ss] BNode.prems by simp
qed (simp add: tree_entries_def)

lemma entries_sorted: "shaped t \<Longrightarrow> sorted (keyseq t) \<Longrightarrow> sorted (map fst (tree_entries t))"
  using entries_subseq [of t] by (auto simp: subseq_conv_nths sorted_nths)

lemma entries_in_keyseq: "shaped t \<Longrightarrow> e \<in> set (tree_entries t) \<Longrightarrow> fst e \<in> set (keyseq t)"
  using entries_subseq [of t] by (metis image_eqI list.set_map notin_set_nthsI subseq_conv_nths)

text \<open>In a sorted list the entries with a key are the run that follows the smaller ones.\<close>

lemma sorted_run:
  "sorted (map fst xs) \<Longrightarrow> \<forall>x \<in> set xs. key \<le> fst x \<Longrightarrow> filter (\<lambda>e. fst e = (key :: 'k :: linorder)) xs = takeWhile (\<lambda>e. fst e = key) xs"
proof (induction xs)
  case (Cons x xs)
  show ?case
  proof (cases "fst x = key")
    case False
    then have "filter (\<lambda>e. fst e = key) xs = []" using Cons.prems by (force simp: filter_empty_conv)
    then show ?thesis using False by simp
  qed (use Cons in simp)
qed simp

lemma sorted_key_run:
  assumes "sorted (map fst es)"
  shows "takeWhile (\<lambda>e. fst e = key) (drop (length (takeWhile (\<lambda>e. fst e < key) es)) es) = filter (\<lambda>e. fst e = (key :: 'k :: linorder)) es"
  using assms
proof (induction es)
  case (Cons e es)
  show ?case
  proof (cases "fst e < key")
    case False
    then have "\<forall>x \<in> set (e # es). key \<le> fst x" using Cons.prems by (auto simp: not_less)
    then show ?thesis using sorted_run [OF Cons.prems] False by simp
  qed (use Cons in simp)
qed simp

text \<open>An entry above the key behind the run: nothing after the list has the key.\<close>

lemma run_ends:
  assumes "sorted (map fst (es @ fs))" and "takeWhile (\<lambda>e. fst e = key) (drop n es) \<noteq> drop n es" and "\<forall>e \<in> set (drop n es). key \<le> fst e"
  shows "pointers_of (key :: 'k :: linorder) fs = []"
proof -
  obtain e where e: "e \<in> set (drop n es)" "fst e \<noteq> key" using assms(2) unfolding takeWhile_eq_all_conv by blast
  then have "key < fst e" using assms(3) by fastforce
  moreover have "fst e \<le> fst f" if "f \<in> set fs" for f using assms(1) in_set_dropD [OF e(1)] that by (auto simp: sorted_append)
  ultimately show ?thesis by (force simp: pointers_of_def filter_empty_conv)
qed

lemma sorted_drop_ge:
  assumes "sorted (map fst es)" shows "\<forall>e \<in> set (drop (length (takeWhile (\<lambda>e. fst e < (key :: 'k :: linorder)) es)) es). key \<le> fst e"
  using assms by (induction es) (auto simp: not_less)

lemma sorted_later: "sorted (map fst (xs @ ys @ zs)) \<Longrightarrow> e \<in> set ys \<Longrightarrow> e' \<in> set zs \<Longrightarrow> fst e \<le> fst e'"
  by (auto simp: sorted_append)

subsection \<open>Changing the entries of a leaf\<close>

fun set_leaf :: "nat \<Rightarrow> ('k \<times> record_address) list \<Rightarrow> 'k btree \<Rightarrow> 'k btree" where
  "set_leaf q fs (BLeaf p es) = BLeaf p (if p = q then fs else es)"
| "set_leaf q fs (BNode p ss cs) = BNode p ss (map (set_leaf q fs) cs)"

lemma root_set_leaf [simp]: "root_page (set_leaf q fs t) = root_page t"
  by (cases t) auto

lemma inner_set_leaf [simp]: "shaped t \<Longrightarrow> inner (set_leaf q fs t) = inner t"
proof (induction t)
  case (BNode p ss cs)
  have "cs \<noteq> []" using BNode.prems by auto
  then show ?case using BNode by (simp add: o_def last_map cong: map_cong)
qed simp

definition put_leaf :: "nat \<Rightarrow> 'e \<Rightarrow> nat \<times> 'e \<Rightarrow> nat \<times> 'e" where
  "put_leaf q fs l = (if fst l = q then (q, fs) else l)"

lemma leaves_set_leaf: "leaves (set_leaf q fs t) = map (put_leaf q fs) (leaves t)"
proof (induction t)
  case (BNode p ss cs)
  then show ?case by (simp add: map_concat o_def cong: map_cong)
qed (simp add: put_leaf_def)

lemma put_leaf_split:
  "distinct (map fst (A @ (q, es) # B)) \<Longrightarrow> map (put_leaf q fs) (A @ (q, es) # B) = A @ (q, fs) # B"
  by (force simp: put_leaf_def intro!: map_idI)

lemma shaped_set_leaf: "shaped t \<Longrightarrow> sorted_wrt (\<lambda>x y. \<not> entry_before y x) fs \<Longrightarrow> shaped (set_leaf q fs t)"
  by (induction t) auto

lemma keyseq_set_leaf:
  "shaped t \<Longrightarrow> (\<And>es. (q, es) \<in> set (leaves t) \<Longrightarrow> subseq (map fst fs) (map fst es)) \<Longrightarrow> subseq (keyseq (set_leaf q fs t)) (keyseq t)"
proof (induction t)
  case (BNode p ss cs)
  have "list_all2 subseq (map (\<lambda>c. keyseq (set_leaf q fs c)) cs) (map keyseq cs)"
    unfolding list_all2_conv_all_nth
  proof (intro conjI allI impI)
    fix i assume "i < length (map (\<lambda>c. keyseq (set_leaf q fs c)) cs)"
    then have "cs ! i \<in> set cs" "i < length cs" by simp_all
    then show "subseq (map (\<lambda>c. keyseq (set_leaf q fs c)) cs ! i) (map keyseq cs ! i)"
      using BNode.IH [of "cs ! i"] BNode.prems by (auto simp del: nth_mem)
  qed simp
  then show ?case using interleave_mono [of "map (\<lambda>c. keyseq (set_leaf q fs c)) cs" "map keyseq cs" ss] BNode.prems(1) by (simp add: o_def)
qed simp

lemma shaped_leaf: "shaped t \<Longrightarrow> (q, es) \<in> set (leaves t) \<Longrightarrow> sorted_wrt (\<lambda>x y. \<not> entry_before y x) es"
  by (induction t) auto

lemma sorted_wrt_remove1: "sorted_wrt P xs \<Longrightarrow> sorted_wrt P (remove1 x xs)"
  using set_remove1_subset by (induction xs) fastforce+

lemma subseq_remove1: "subseq (remove1 x xs) xs"
  by (induction xs) auto

section \<open>Nodes on pages\<close>

text \<open>A page that holds a node with a given body, whatever parent the node records.\<close>

definition page_stores :: "'k codec \<Rightarrow> ('k \<Rightarrow> bool) \<Rightarrow> byte list list \<Rightarrow> nat \<Rightarrow> 'k node_body \<Rightarrow> bool" where
  "page_stores KC V pgs p b \<longleftrightarrow> p < length pgs \<and>
     (\<exists>node. node_ok V node \<and> bn_page node = p \<and> bn_body node = b \<and> node_serialize KC 65536 node = Ok (pgs ! p))"

definition holds_tree :: "'k codec \<Rightarrow> ('k \<Rightarrow> bool) \<Rightarrow> byte list list \<Rightarrow> 'k btree \<Rightarrow> bool" where
  "holds_tree KC V pgs t \<longleftrightarrow> (\<forall>(p, b) \<in> set (bodies t). page_stores KC V pgs p b)"

lemma holds_treeD: "holds_tree KC V pgs t \<Longrightarrow> (p, b) \<in> set (bodies t) \<Longrightarrow> page_stores KC V pgs p b"
  by (auto simp: holds_tree_def)

lemma holds_treeI: "(\<And>p b. (p, b) \<in> set (bodies t) \<Longrightarrow> page_stores KC V pgs p b) \<Longrightarrow> holds_tree KC V pgs t"
  by (auto simp: holds_tree_def)

locale index_memory = memory_access MA inv pg + key: encoding KC V
  for MA :: "'m mem_ops" and inv :: "'m \<Rightarrow> bool" and pg :: "'m \<Rightarrow> byte list list"
    and KC :: "('k :: linorder) codec" and V :: "'k \<Rightarrow> bool"
begin

abbreviation stores :: "'m \<Rightarrow> nat \<Rightarrow> 'k node_body \<Rightarrow> bool" where
  "stores m p b \<equiv> page_stores KC V (pg m) p b"

lemma key_encoding: "encoding KC V"
  by (rule key.encoding_axioms)

lemma stores_node:
  assumes "stores m p b"
  shows "\<exists>node. node_deserialize KC p (pg m ! p) = Ok node \<and> bn_page node = p \<and> bn_body node = b \<and> bn_dirty node = False \<and>
    node_ok V node \<and> node_serialize KC 65536 node = Ok (pg m ! p)"
proof -
  obtain node where n: "node_ok V node" "bn_page node = p" "bn_body node = b" "node_serialize KC 65536 node = Ok (pg m ! p)"
    using assms by (auto simp: page_stores_def)
  have "node_serialize KC 65536 (node\<lparr>bn_dirty := False\<rparr>) = node_serialize KC 65536 node" "node_ok V (node\<lparr>bn_dirty := False\<rparr>) = node_ok V node"
    by (simp_all add: node_serialize_def node_ok_def split: node_body.split)
  then show ?thesis using n node_round_trip(2) [OF key_encoding n(1,4)] by (intro exI [of _ "node\<lparr>bn_dirty := False\<rparr>"]) simp
qed

lemma read_into_page: "inv m \<Longrightarrow> p < length (pg m) \<Longrightarrow> length buf = 65536 \<Longrightarrow> read_into MA p buf m = (Ok (pg m ! p), m)"
  using page_len [of m p] read_raw [of m p 0 65536 buf] by (simp add: read_into_def slice_def)

lemma zero_buf_run [simp]: "zero_buf MA m = (Ok (replicate 65536 0), m)"
  by (simp add: zero_buf_def page_size)

lemma node_read_stores:
  assumes "inv m" and "stores m p b"
  shows "\<exists>node. node_read MA KC p m = (Ok node, m) \<and> bn_page node = p \<and> bn_body node = b \<and> bn_dirty node = False \<and>
    node_ok V node \<and> node_serialize KC 65536 node = Ok (pg m ! p)"
proof -
  obtain node where n: "node_deserialize KC p (pg m ! p) = Ok node" "bn_page node = p" "bn_body node = b" "bn_dirty node = False"
    "node_ok V node" "node_serialize KC 65536 node = Ok (pg m ! p)"
    using stores_node [OF assms(2)] by (elim exE conjE)
  have "read_into MA p (replicate 65536 0) m = (Ok (pg m ! p), m)"
    using assms by (intro read_into_page) (simp_all add: page_stores_def)
  then show ?thesis using n by (intro exI [of _ node]) (simp add: node_read_def)
qed

lemma stores_view:
  assumes "stores m p b"
  shows "\<exists>v. nv_parse (pg m ! p) = Ok v \<and> nv_buf v = pg m ! p \<and> views KC v b \<and>
    is_leaf_page (pg m ! p) = (case b of LeafBody _ _ _ \<Rightarrow> True | InternalBody _ _ \<Rightarrow> False)"
  using stores_node [OF assms] deserialize_views by metis

lemma stores_first_key:
  "stores m p (LeafBody es prev next) \<Longrightarrow> first_leaf_key KC (pg m ! p) = Ok (case es of [] \<Rightarrow> None | (k, a) # _ \<Rightarrow> Some k)"
  using stores_node [of m p "LeafBody es prev next"] first_leaf_key_views by metis

lemma stores_length: "inv m \<Longrightarrow> stores m p b \<Longrightarrow> length (pg m ! p) = 65536 \<and> p < length (pg m)"
  by (auto simp: page_stores_def page_len)

text \<open>Writing a node: the page holds it afterwards and no other page has changed.\<close>

lemma node_flush_cases:
  assumes m: "inv m" and p: "bn_page node < length (pg m)" and ok: "node_ok V node" and dirty: "bn_dirty node"
  shows "(\<exists>m' c. node_flush MA KC node m = (Ok (node\<lparr>bn_dirty := False\<rparr>), m') \<and> inv m' \<and> pg m' = (pg m)[bn_page node := c] \<and>
       stores m' (bn_page node) (bn_body node)) \<or>
    (\<exists>e. node_flush MA KC node m = (Err e, m) \<and> node_serialize KC 65536 node = Err e)"
proof (cases "node_serialize KC 65536 node")
  case (Ok buf)
  have len: "length buf = 65536" using node_round_trip(1) [OF key_encoding ok Ok] .
  obtain m' where w: "write_at_raw MA (bn_page node) 0 buf m = (outcome.Ok (), m')" "inv m'"
    "pg m' = (pg m)[bn_page node := splice_at 0 buf (pg m ! bn_page node)]"
    using write_raw [OF m p, of 0 buf] len by auto
  have "splice_at 0 buf (pg m ! bn_page node) = buf" using len page_len [OF m p] by (simp add: splice_at_all)
  then have "stores m' (bn_page node) (bn_body node)" using w(3) p ok Ok by (auto simp: page_stores_def)
  then show ?thesis using w Ok dirty by (intro disjI1 exI [of _ m']) (auto simp: node_flush_def page_size)
next
  case (Err e)
  then show ?thesis using dirty by (simp add: node_flush_def page_size)
next
  case Panic
  then show ?thesis
    by (auto simp: node_serialize_def map_outcome_Panic_iff put_entries_no_panic split: node_body.splits)
qed

section \<open>Descending to a leaf\<close>

text \<open>The pages below a node hold it: its branches, and its leaves with some links.\<close>

definition subtree_at :: "'m \<Rightarrow> 'k btree \<Rightarrow> bool" where
  "subtree_at m t \<longleftrightarrow> (\<forall>(p, b) \<in> set (inner t). stores m p b) \<and> (\<forall>(p, es) \<in> set (leaves t). \<exists>prev nxt. stores m p (LeafBody es prev nxt))"

lemma below_child: "subtree_at m (BNode p ss cs) \<Longrightarrow> c \<in> set cs \<Longrightarrow> subtree_at m c"
  by (fastforce simp: subtree_at_def)

lemma child_index:
  assumes "length cs = Suc (length ss)" and "i = length (takeWhile (\<lambda>s. s \<le> key) ss)"
  shows "find_child (zip ss (map root_page cs)) (root_page (last cs)) key = root_page (cs ! i)"
proof -
  have map: "map fst (zip ss (map root_page cs)) = ss" using assms(1) by (intro map_fst_zip_le) simp
  have "length (takeWhile (\<lambda>(k, _). k \<le> key) (zip ss (map root_page cs))) = i"
    using takeWhile_map [of "\<lambda>s. s \<le> key" fst "zip ss (map root_page cs)"] by (simp add: map assms(2) o_def case_prod_unfold)
  moreover have "i \<le> length ss" using assms(2) length_takeWhile_le by simp
  moreover have "cs ! length ss = last cs" using assms(1) by (metis diff_Suc_1 last_conv_nth length_0_conv nat.simps(3))
  ultimately show ?thesis using assms(1) by (auto simp: find_child_def partition_point_def Let_def)
qed

lemma view_child:
  assumes "stores m p (InternalBody es r)" and "sorted (map fst es)"
  shows "\<exists>v. nv_parse (pg m ! p) = Ok v \<and> nv_child_for KC key v = Ok (Some (find_child es r key)) \<and> \<not> is_leaf_page (pg m ! p)"
proof -
  obtain v where v: "nv_parse (pg m ! p) = Ok v" "views KC v (InternalBody es r)" "\<not> is_leaf_page (pg m ! p)"
    using stores_view [OF assms(1)] by auto
  have "nv_partition_point KC (\<lambda>k. k \<le> key) v = Ok (length (takeWhile (\<lambda>k. k \<le> key) (map fst es)))"
    using nv_partition_point_views [OF v(2), of "\<lambda>k. k \<le> key"] sorted_nth_mono [OF assms(2)]
    by (simp add: body_keys_def) (meson less_or_eq_imp_le order_trans)
  moreover have "length (takeWhile (\<lambda>k. k \<le> key) (map fst es)) = length (takeWhile (\<lambda>(k, _). k \<le> key) es)"
    by (simp add: takeWhile_map o_def case_prod_unfold)
  ultimately have "nv_child_for KC key v = Ok (Some (find_child es r key))"
    using v(2) by (auto simp: nv_child_for_def views_def find_child_def partition_point_def Let_def body_keys_def map_outcome_Ok_iff split: prod.splits)
  then show ?thesis using v by blast
qed

lemma sorted_separators: "length xs = Suc (length ss) \<Longrightarrow> sorted (interleave xs ss) \<Longrightarrow> sorted ss"
proof (induction xs ss rule: interleave.induct)
  case (3 x xs s ss)
  then show ?case using set_interleave [of xs ss] by (auto simp: sorted_append)
qed auto

lemma find_leaf_page:
  assumes m: "inv m" and "subtree_at m t" "shaped t" "sorted (keyseq t)" "depth t < fuel" "length buf = 65536"
  shows "\<exists>A p es B. leaves t = A @ (p, es) # B \<and> find_leaf_page_into MA KC fuel (root_page t) key buf m = (Ok (p, pg m ! p), m) \<and>
    (\<forall>e \<in> set (concat (map snd A)). fst e \<le> key) \<and> (\<forall>e \<in> set (concat (map snd B)). key < fst e)"
  using assms(2-)
proof (induction t arbitrary: fuel buf)
  case (BLeaf p es)
  obtain fl where fuel: "fuel = Suc fl" using BLeaf.prems(4) by (cases fuel) auto
  obtain prev nxt where s: "stores m p (LeafBody es prev nxt)" using BLeaf.prems(1) by (auto simp: subtree_at_def)
  have "is_leaf_page (pg m ! p)" using stores_view [OF s] by auto
  then have "find_leaf_page_into MA KC fuel p key buf m = (Ok (p, pg m ! p), m)"
    using read_into_page [OF m, of p buf] s BLeaf.prems(5) by (simp add: fuel page_stores_def)
  then show ?case by (intro exI [of _ "[]"] exI [of _ p] exI [of _ es]) simp
next
  case (BNode p ss cs)
  obtain fl where fuel: "fuel = Suc fl" using BNode.prems(4) by (cases fuel) auto
  define i where "i = length (takeWhile (\<lambda>s. s \<le> key) ss)"
  have len: "length (map keyseq cs) = Suc (length ss)" and sorted: "sorted (interleave (map keyseq cs) ss)"
    using BNode.prems(2,3) by simp_all
  note bounds = focus_bounds [OF sorted len i_def]
  let ?body = "InternalBody (zip ss (map root_page cs)) (root_page (last cs))"
  have s: "stores m p ?body" using BNode.prems(1) by (simp add: subtree_at_def)
  have c: "cs ! i \<in> set cs" using bounds(1) by simp
  have fst_zip: "map fst (zip ss (map root_page cs)) = ss" using len by (intro map_fst_zip_le) simp
  obtain v where v: "nv_parse (pg m ! p) = Ok v" "nv_child_for KC key v = Ok (Some (root_page (cs ! i)))" "\<not> is_leaf_page (pg m ! p)"
    using view_child [OF s, of key] sorted_separators [OF len sorted] len child_index [OF _ i_def, of cs] by (auto simp: fst_zip)
  have lenb: "length (pg m ! p) = 65536" "p < length (pg m)" using stores_length [OF m s] by simp_all
  have child_sorted: "sorted (keyseq (cs ! i))" using sorted bounds(1,2) by (simp add: sorted_append)
  have d: "depth (cs ! i) < fl" using BNode.prems(4) depth_child [OF c, of p ss] fuel by linarith
  obtain A q es B where r: "leaves (cs ! i) = A @ (q, es) # B"
    "find_leaf_page_into MA KC fl (root_page (cs ! i)) key (pg m ! p) m = (Ok (q, pg m ! q), m)"
    "\<forall>e \<in> set (concat (map snd A)). fst e \<le> key" "\<forall>e \<in> set (concat (map snd B)). key < fst e"
    using BNode.IH [OF c below_child [OF BNode.prems(1) c] _ child_sorted d lenb(1)] BNode.prems(2) c by auto
  have split: "leaves (BNode p ss cs) = (concat (map leaves (take i cs)) @ A) @ (q, es) # (B @ concat (map leaves (drop (Suc i) cs)))"
    using r(1) id_take_nth_drop [of i cs] bounds(1) by (metis append.assoc append_Cons concat.simps(2) concat_append leaves.simps(2) length_map list.simps(9) map_append)
  have left: "fst e \<le> key" if e: "e \<in> set (concat (map snd (concat (map leaves (take i cs)))))" for e
  proof -
    obtain t where t: "t \<in> set (take i cs)" "e \<in> set (tree_entries t)" using e by (auto simp: tree_entries_def)
    then have "fst e \<in> set (keyseq t)" using entries_in_keyseq BNode.prems(2) by (meson in_set_takeD shaped.simps(2))
    then have "fst e \<in> set (before (take i (map keyseq cs)) (take i ss))"
      using t(1) bounds(1) len set_before [of "take i (map keyseq cs)" "take i ss"] by (auto simp: take_map)
    then show ?thesis using bounds(3) by blast
  qed
  have right: "key < fst e" if e: "e \<in> set (concat (map snd (concat (map leaves (drop (Suc i) cs)))))" for e
  proof -
    obtain t where t: "t \<in> set (drop (Suc i) cs)" "e \<in> set (tree_entries t)" using e by (auto simp: tree_entries_def)
    then have "fst e \<in> set (keyseq t)" using entries_in_keyseq BNode.prems(2) by (meson in_set_dropD shaped.simps(2))
    then have "fst e \<in> set (after (drop i ss) (drop (Suc i) (map keyseq cs)))"
      using t(1) bounds(1) len set_after [of "drop (Suc i) (map keyseq cs)" "drop i ss"] by (auto simp: drop_map)
    then show ?thesis using bounds(4) by blast
  qed
  have "find_leaf_page_into MA KC fuel (root_page (BNode p ss cs)) key buf m = (Ok (q, pg m ! q), m)"
    using read_into_page [OF m lenb(2) BNode.prems(5)] v r(2) by (simp add: fuel)
  moreover have "\<forall>e \<in> set (concat (map snd (concat (map leaves (take i cs)) @ A))). fst e \<le> key"
    "\<forall>e \<in> set (concat (map snd (B @ concat (map leaves (drop (Suc i) cs))))). key < fst e"
    unfolding map_append concat_append set_append using left right r(3,4) by blast+
  ultimately show ?case
    using split by (intro exI [of _ "concat (map leaves (take i cs)) @ A"] exI [of _ q] exI [of _ es] exI [of _ "B @ concat (map leaves (drop (Suc i) cs))"] conjI)
qed

section \<open>Walking the leaves\<close>

definition linked :: "'m \<Rightarrow> (nat \<times> ('k \<times> record_address) list) list \<Rightarrow> bool" where
  "linked m L \<longleftrightarrow> (\<forall>(p, b) \<in> set (chain None L). stores m p b)"

lemma chain_focus: "(p, LeafBody es (last_link prev A) (first_link B)) \<in> set (chain prev (A @ (p, es) # B))"
proof (induction A arbitrary: prev)
  case (Cons a A)
  then show ?case using Cons [of "Some (fst a)"] by (cases a) (auto simp: last_link_def split: if_splits)
qed (simp add: last_link_def)

lemma linked_leaf: "linked m (A @ (p, es) # B) \<Longrightarrow> stores m p (LeafBody es (last_link None A) (first_link B))"
  using chain_focus [of p es None A B] by (auto simp: linked_def)

lemma leaf_view:
  assumes "linked m (A @ (p, es) # B)"
  shows "\<exists>v. nv_parse (pg m ! p) = Ok v \<and> views KC v (LeafBody es (last_link None A) (first_link B)) \<and> nv_is_leaf v \<and>
    nv_prev_leaf v = last_link None A \<and> nv_next_leaf v = first_link B \<and> nv_len v = length es"
  using stores_view [OF linked_leaf [OF assms]]
  by (auto simp: views_def nv_is_leaf_def nv_prev_leaf_def nv_next_leaf_def body_keys_def)

lemma holds_below: "holds_tree KC V (pg m) t \<Longrightarrow> subtree_at m t"
proof -
  assume h: "holds_tree KC V (pg m) t"
  then have "linked m (leaves t)" by (simp add: holds_tree_def linked_def bodies_def)
  then have "\<exists>prev nxt. stores m p (LeafBody es prev nxt)" if "(p, es) \<in> set (leaves t)" for p es
    using that linked_leaf by (metis split_list)
  then show ?thesis using h by (auto simp: subtree_at_def holds_tree_def bodies_def)
qed

text \<open>Looking back for a leaf that may hold the key, over emptied leaves.\<close>

lemma previous_leaf_spec:
  assumes m: "inv m" and "linked m (A @ C)" "length A \<le> fuel" "length buf = 65536" "sorted (map fst (concat (map snd A)))"
  shows "\<exists>r buf'. previous_leaf MA KC fuel key (last_link None A) buf m = (Ok (r, buf'), m) \<and> length buf' = 65536 \<and>
    (A = [] \<longrightarrow> buf' = buf) \<and>
    (case r of
       None \<Rightarrow> \<forall>e \<in> set (concat (map snd A)). fst e < key
     | Some q \<Rightarrow> \<exists>A' es B. A = A' @ (q, es) # B \<and> buf' = pg m ! q \<and> (\<exists>e \<in> set es. key \<le> fst e))"
  using assms(2-)
proof (induction A arbitrary: C fuel buf rule: rev_induct)
  case Nil
  then show ?case by (simp add: last_link_def)
next
  case (snoc a A)
  obtain p es where a: "a = (p, es)" by (cases a)
  obtain fl where fuel: "fuel = Suc fl" using snoc.prems(2) by (cases fuel) auto
  have L: "linked m (A @ (p, es) # C)" using snoc.prems(1) by (simp add: a)
  have p: "p < length (pg m)" "length (pg m ! p) = 65536" using stores_length [OF m linked_leaf [OF L]] by simp_all
  obtain v where v: "nv_parse (pg m ! p) = Ok v" "views KC v (LeafBody es (last_link None A) (first_link C))"
    "nv_prev_leaf v = last_link None A" "nv_len v = length es"
    using leaf_view [OF L] by (elim exE conjE)
  note read = read_into_page [OF m p(1) snoc.prems(3)]
  have ll: "last_link None (A @ [a]) = Some p" by (simp add: last_link_def a)
  show ?case
  proof (cases "length es")
    case 0
    obtain r buf' where r: "previous_leaf MA KC fl key (last_link None A) (pg m ! p) m = (Ok (r, buf'), m)" "length buf' = 65536"
      "case r of None \<Rightarrow> \<forall>e \<in> set (concat (map snd A)). fst e < key | Some q \<Rightarrow> \<exists>A' es B. A = A' @ (q, es) # B \<and> buf' = pg m ! q \<and> (\<exists>e \<in> set es. key \<le> fst e)"
      using snoc.IH [of "(p, es) # C" fl "pg m ! p"] L snoc.prems(2,4) p(2) by (auto simp: fuel sorted_append)
    have "previous_leaf MA KC fuel key (last_link None (A @ [a])) buf m = (Ok (r, buf'), m)"
      unfolding ll using read v 0 r(1) by (simp add: fuel)
    moreover have "\<exists>A' es B. A @ [a] = A' @ (q, es) # B \<and> buf' = pg m ! q \<and> (\<exists>e \<in> set es. key \<le> fst e)" if q: "r = Some q" for q
    proof -
      obtain A' es' B where "A = A' @ (q, es') # B" "buf' = pg m ! q" "\<exists>e \<in> set es'. key \<le> fst e" using r(3) q by auto
      then show ?thesis by (intro exI [of _ A'] exI [of _ es'] exI [of _ "B @ [a]"]) simp
    qed
    ultimately show ?thesis using r(2,3) 0 by (intro exI [of _ r] exI [of _ buf']) (auto simp: a split: option.splits)
  next
    case (Suc n)
    let ?k = "fst (es ! n)"
    have k: "nv_key KC v n = Ok ?k" using v(2,4) Suc by (auto simp: views_def body_keys_def)
    have run: "previous_leaf MA KC fuel key (last_link None (A @ [a])) buf m = (Ok (if ?k \<ge> key then Some p else None, pg m ! p), m)"
      unfolding ll using read v(1,4) Suc k by (simp add: fuel)
    have "es = butlast es @ [es ! n]" using Suc append_butlast_last_id [of es] last_conv_nth [of es] by (cases "es = []") simp_all
    then obtain xs where xs: "concat (map snd (A @ [a])) = xs @ [es ! n]" by (simp add: a) (metis append.assoc)
    have "fst e \<le> ?k" if e: "e \<in> set (concat (map snd (A @ [a])))" for e
      using snoc.prems(4) e unfolding xs by (auto simp: sorted_append)
    then have "\<not> key \<le> ?k \<longrightarrow> (\<forall>e \<in> set (concat (map snd (A @ [a]))). fst e < key)" by (meson le_less_trans not_le)
    moreover have "key \<le> ?k \<longrightarrow> (\<exists>A' es' B. A @ [a] = A' @ (p, es') # B \<and> (\<exists>e \<in> set es'. key \<le> fst e))"
    proof
      assume "key \<le> ?k"
      moreover have "es ! n \<in> set es" using Suc by simp
      ultimately show "\<exists>A' es' B. A @ [a] = A' @ (p, es') # B \<and> (\<exists>e \<in> set es'. key \<le> fst e)"
        by (intro exI [of _ A] exI [of _ es] exI [of _ "[]"]) (auto simp: a)
    qed
    ultimately show ?thesis using run p(2) by (intro exI [of _ "if ?k \<ge> key then Some p else None"] exI [of _ "pg m ! p"]) (simp del: map_append concat_append set_append)
  qed
qed

lemma search_start_spec:
  assumes m: "inv m" and "linked m (A @ (p, es) # B)" "length A < fuel" "sorted (map fst (concat (map snd (A @ (p, es) # B))))"
    "\<forall>e \<in> set (concat (map snd B)). key \<le> fst e"
  shows "\<exists>A' q es' B'. A @ (p, es) # B = A' @ (q, es') # B' \<and> search_start_loop MA KC fuel p key (pg m ! p) m = (Ok (q, pg m ! q), m) \<and>
    (\<forall>e \<in> set (concat (map snd A')). fst e < key) \<and> (\<forall>e \<in> set (concat (map snd B')). key \<le> fst e)"
  using assms(2-)
proof (induction fuel arbitrary: A p es B)
  case (Suc fl)
  have stored: "stores m p (LeafBody es (last_link None A) (first_link B))" by (rule linked_leaf [OF Suc.prems(1)])
  have p: "p < length (pg m)" "length (pg m ! p) = 65536" using stores_length [OF m stored] by simp_all
  obtain v where v: "nv_parse (pg m ! p) = Ok v" "nv_prev_leaf v = last_link None A" using leaf_view [OF Suc.prems(1)] by (elim exE conjE)
  have sorted: "sorted (map fst (concat (map snd A)))" "\<forall>e \<in> set (concat (map snd A)). \<forall>e' \<in> set es. fst e \<le> fst e'"
    using Suc.prems(3) by (auto simp: sorted_append)
  note first = stores_first_key [OF stored]
  show ?case
  proof (cases "\<exists>k a rest. es = (k, a) # rest \<and> k < key")
    case True
    then obtain k a rest where es: "es = (k, a) # rest" "k < key" by blast
    then have "search_start_loop MA KC (Suc fl) p key (pg m ! p) m = (Ok (p, pg m ! p), m)" using first by simp
    moreover have "\<forall>e \<in> set (concat (map snd A)). fst e < key" using sorted(2) es by fastforce
    ultimately show ?thesis using Suc.prems(4) by (intro exI [of _ A] exI [of _ p] exI [of _ es] exI [of _ B]) simp
  next
    case False
    obtain r buf' where r: "previous_leaf MA KC fl key (last_link None A) (pg m ! p) m = (Ok (r, buf'), m)" "length buf' = 65536"
      "A = [] \<longrightarrow> buf' = pg m ! p"
      "case r of None \<Rightarrow> \<forall>e \<in> set (concat (map snd A)). fst e < key | Some q \<Rightarrow> \<exists>A' es B. A = A' @ (q, es) # B \<and> buf' = pg m ! q \<and> (\<exists>e \<in> set es. key \<le> fst e)"
      using previous_leaf_spec [OF m Suc.prems(1) less_Suc_eq_le [THEN iffD1, OF Suc.prems(2)] p(2) sorted(1), of key] by (elim exE conjE)
    have no_first: "\<not> (case (case es of [] \<Rightarrow> None | (k, a) # _ \<Rightarrow> Some k) of Some k \<Rightarrow> k < key | None \<Rightarrow> False)"
      using False by (auto split: list.splits)
    show ?thesis
    proof (cases r)
      case None
      have "search_start_loop MA KC (Suc fl) p key (pg m ! p) m = (Ok (p, pg m ! p), m)"
        using first no_first v r(1,2,3) None read_into_page [OF m p(1) r(2)] by (auto simp: last_link_def)
      then show ?thesis using r(4) None Suc.prems(4) by (intro exI [of _ A] exI [of _ p] exI [of _ es] exI [of _ B]) simp
    next
      case (Some q)
      then obtain A' es' B' e where A: "A = A' @ (q, es') # B'" "buf' = pg m ! q" "e \<in> set es'" "key \<le> fst e" using r(4) by auto
      have "sorted (map fst (concat (map snd A') @ es' @ concat (map snd (B' @ (p, es) # B))))" using Suc.prems(3) by (simp add: A(1))
      then have "\<forall>e' \<in> set (concat (map snd (B' @ (p, es) # B))). fst e \<le> fst e'" using sorted_later A(3) by blast
      then have later: "\<forall>e' \<in> set (concat (map snd (B' @ (p, es) # B))). key \<le> fst e'" using A(4) by (meson order_trans)
      have "search_start_loop MA KC (Suc fl) p key (pg m ! p) m = search_start_loop MA KC fl q key (pg m ! q) m"
        using first no_first v r(1) Some A(2) by simp
      then show ?thesis using Suc.IH [of A' q es' "B' @ (p, es) # B"] Suc.prems(1-3) later by (simp add: A(1))
    qed
  qed
qed simp

text \<open>The leaf a search starts at: every entry in front of it is below the key.\<close>

lemma find_search_start:
  assumes m: "inv m" and "holds_tree KC V (pg m) t" "tree_ok t" "length (bodies t) < fuel" "length buf = 65536"
  shows "\<exists>A p es B. leaves t = A @ (p, es) # B \<and> find_search_start_page MA KC fuel (root_page t) key buf m = (Ok (p, pg m ! p), m) \<and>
    (\<forall>e \<in> set (concat (map snd A)). fst e < key) \<and> (\<forall>e \<in> set (concat (map snd B)). key \<le> fst e)"
proof -
  have ok: "shaped t" "sorted (keyseq t)" using assms(3) by (simp_all add: tree_ok_def)
  have L: "linked m (leaves t)" using assms(2) by (simp add: holds_tree_def linked_def bodies_def)
  have fuel: "depth t < fuel" "length (leaves t) < fuel" using assms(4) depth_inner [of t] by (simp_all add: bodies_def)
  obtain A p es B where r: "leaves t = A @ (p, es) # B" "find_leaf_page_into MA KC fuel (root_page t) key buf m = (Ok (p, pg m ! p), m)"
    "\<forall>e \<in> set (concat (map snd B)). key < fst e"
    using find_leaf_page [OF m holds_below [OF assms(2)] ok fuel(1) assms(5), of key] by (elim exE conjE)
  have "sorted (map fst (concat (map snd (A @ (p, es) # B))))" using entries_sorted [OF ok] r(1) by (simp add: tree_entries_def)
  moreover have "\<forall>e \<in> set (concat (map snd B)). key \<le> fst e" using r(3) less_imp_le by blast
  ultimately obtain A' q es' B' where s: "A @ (p, es) # B = A' @ (q, es') # B'" "search_start_loop MA KC fuel p key (pg m ! p) m = (Ok (q, pg m ! q), m)"
    "\<forall>e \<in> set (concat (map snd A')). fst e < key" "\<forall>e \<in> set (concat (map snd B')). key \<le> fst e"
    using search_start_spec [OF m L [unfolded r(1)], of fuel key] fuel(2) r(1) by auto
  then show ?thesis using r(1,2) by (intro exI [of _ A'] exI [of _ q] exI [of _ es'] exI [of _ B']) (simp add: find_search_start_page_def)
qed

section \<open>Searching\<close>

lemma collect_pointers_spec:
  assumes v: "views KC v (LeafBody es prev nxt)" and "length rs \<le> limit" and "i \<le> length es"
  shows "collect_pointers KC key limit v [i ..< length es] rs =
    (let eq = takeWhile (\<lambda>e. fst e = key) (drop i es); found = rs @ map snd eq in
     if limit < length found then Ok (Inl None) else if eq = drop i es then Ok (Inr found) else Ok (Inl (Some found)))"
  using assms(2-)
proof (induction "length es - i" arbitrary: i rs)
  case (Suc d)
  then have i: "i < length es" by simp
  have step: "[i ..< length es] = i # [Suc i ..< length es]" "drop i es = es ! i # drop (Suc i) es"
    using i by (simp_all add: upt_conv_Cons Cons_nth_drop_Suc)
  have view: "nv_key KC v i = Ok (fst (es ! i))" "nv_pointer v i = Ok (snd (es ! i))" using v i by (auto simp: views_def body_keys_def)
  show ?case
  proof (cases "fst (es ! i) = key \<and> length rs < limit")
    case True
    then show ?thesis using Suc.hyps(1) [of "Suc i" "rs @ [snd (es ! i)]"] Suc.hyps(2) Suc.prems i
      by (simp add: step view Let_def)
  next
    case False
    then show ?thesis using Suc.prems by (auto simp: step view Let_def)
  qed
qed simp

text \<open>What the search does with one leaf: it may only stop early when nothing more can follow.\<close>

lemma search_leaf:
  assumes m: "inv m" and L: "linked m (A @ (p, es) # B)" and sorted: "sorted (map fst (es @ concat (map snd B)))" and rs: "length rs \<le> limit"
  shows "\<exists>stops. (stops \<longrightarrow> pointers_of key (concat (map snd B)) = []) \<and>
    search_loop MA KC (Suc fl) key limit (pg m ! p) rs m =
      (let found = rs @ pointers_of key es in
       if limit < length found then (Ok None, m)
       else if stops \<or> B = [] then (Ok (Some found), m)
       else search_loop MA KC fl key limit (pg m ! fst (hd B)) found m)"
proof -
  obtain v where v: "nv_parse (pg m ! p) = Ok v" "views KC v (LeafBody es (last_link None A) (first_link B))" "nv_is_leaf v"
    "nv_next_leaf v = first_link B" "nv_len v = length es"
    using leaf_view [OF L] by (elim exE conjE)
  have es: "sorted (map fst es)" using sorted by (simp add: sorted_append)
  define start where "start = length (takeWhile (\<lambda>e. fst e < key) es)"
  define eq where "eq = takeWhile (\<lambda>e. fst e = key) (drop start es)"
  have pp: "nv_partition_point KC (\<lambda>k. k < key) v = Ok start"
    using nv_partition_point_views [OF v(2), of "\<lambda>k. k < key"] sorted_nth_mono [OF es]
    by (simp add: body_keys_def start_def takeWhile_map o_def) (meson less_or_eq_imp_le le_less_trans)
  have le: "start \<le> length es" by (simp add: start_def length_takeWhile_le)
  have found: "map snd eq = pointers_of key es" using sorted_key_run [OF es, of key] by (simp add: start_def eq_def pointers_of_def)
  have stops: "eq \<noteq> drop start es \<longrightarrow> pointers_of key (concat (map snd B)) = []"
    using run_ends [OF sorted] sorted_drop_ge [OF es, of key] by (simp add: start_def eq_def)
  have p: "length (pg m ! p) = 65536" using stores_length [OF m linked_leaf [OF L]] by simp
  have nxt: "read_into MA q (pg m ! p) m = (Ok (pg m ! q), m)" if B: "B = (q, fs) # C" for q fs C
    using L stores_length [OF m linked_leaf [of m "A @ [(p, es)]" q fs C]] p by (intro read_into_page [OF m]) (simp_all add: B)
  have c: "collect_pointers KC key limit v [start ..< length es] rs =
      (if limit < length (rs @ pointers_of key es) then Ok (Inl None) else if eq = drop start es then Ok (Inr (rs @ pointers_of key es))
       else Ok (Inl (Some (rs @ pointers_of key es))))"
    using collect_pointers_spec [OF v(2) rs le, of key] unfolding Let_def eq_def [symmetric] found .
  show ?thesis
    using stops v(1,3,4,5) pp c nxt
    by (intro exI [of _ "eq \<noteq> drop start es"]) (cases B; auto simp: Let_def first_link_def)
qed

lemma search_loop_spec:
  assumes m: "inv m" and "linked m (A @ (p, es) # B)" "length B < fuel" "sorted (map fst (es @ concat (map snd B)))" "length rs \<le> limit"
  shows "search_loop MA KC fuel key limit (pg m ! p) rs m =
    (let found = rs @ pointers_of key (es @ concat (map snd B)) in (Ok (if length found \<le> limit then Some found else None), m))"
  using assms(2-)
proof (induction B arbitrary: A p es fuel rs)
  case Nil
  then obtain fl where fuel: "fuel = Suc fl" by (cases fuel) auto
  show ?case using search_leaf [OF m Nil.prems(1,3,4), of key fl] by (elim exE conjE) (simp add: fuel Let_def)
next
  case (Cons b B)
  obtain q fs where b: "b = (q, fs)" by (cases b)
  obtain fl where fuel: "fuel = Suc fl" using Cons.prems(2) by (cases fuel) auto
  have L: "linked m ((A @ [(p, es)]) @ (q, fs) # B)" using Cons.prems(1) by (simp add: b)
  have s: "sorted (map fst (fs @ concat (map snd B)))" using Cons.prems(3) by (auto simp: sorted_append b)
  let ?found = "rs @ pointers_of key es"
  obtain stops where stop: "stops \<longrightarrow> pointers_of key (concat (map snd (b # B))) = []" and
    step: "search_loop MA KC (Suc fl) key limit (pg m ! p) rs m =
      (let found = rs @ pointers_of key es in if limit < length found then (Ok None, m)
       else if stops \<or> b # B = [] then (Ok (Some found), m)
       else search_loop MA KC fl key limit (pg m ! fst (hd (b # B))) found m)"
    using search_leaf [OF m Cons.prems(1,3,4), of key fl] by (elim exE conjE)
  have all: "pointers_of key (es @ concat (map snd (b # B))) = pointers_of key es @ pointers_of key (concat (map snd (b # B)))"
    "pointers_of key (concat (map snd (b # B))) = pointers_of key (fs @ concat (map snd B))"
    by (simp_all add: pointers_of_def b)
  consider "limit < length ?found" | "length ?found \<le> limit" "stops" | "length ?found \<le> limit" "\<not> stops" by linarith
  then show ?case
  proof cases
    case 3
    have "search_loop MA KC fuel key limit (pg m ! p) rs m = search_loop MA KC fl key limit (pg m ! q) ?found m"
      using step 3 by (simp add: fuel b Let_def)
    also have "\<dots> = (let found = ?found @ pointers_of key (fs @ concat (map snd B)) in (Ok (if length found \<le> limit then Some found else None), m))"
      using Cons.prems(2) fuel by (intro Cons.IH [OF L _ s 3(1)]) simp
    finally show ?thesis unfolding all by (simp add: Let_def)
  next
    case 1
    then have "search_loop MA KC fuel key limit (pg m ! p) rs m = (Ok None, m)" using step by (simp add: fuel del: search_loop.simps)
    then show ?thesis unfolding all(1) using 1 by (simp add: Let_def)
  next
    case 2
    then have "search_loop MA KC fuel key limit (pg m ! p) rs m = (Ok (Some ?found), m)" using step by (simp add: fuel del: search_loop.simps)
    then show ?thesis unfolding all(1) using 2 stop by (simp add: Let_def del: concat.simps list.map)
  qed
qed

text \<open>The whole search: the entries with the key, in order, unless there are more than the limit.\<close>

lemma search_limited_spec:
  assumes m: "inv m" and "holds_tree KC V (pg m) t" "tree_ok t" "length (bodies t) < fuel"
  shows "search_limited MA KC fuel (root_page t) key limit m =
    (let found = pointers_of key (tree_entries t) in (Ok (if length found \<le> limit then Some found else None), m))"
proof -
  obtain A p es B where r: "leaves t = A @ (p, es) # B" "find_search_start_page MA KC fuel (root_page t) key (replicate 65536 0) m = (Ok (p, pg m ! p), m)"
    "\<forall>e \<in> set (concat (map snd A)). fst e < key"
    using find_search_start [OF assms, of "replicate 65536 0" key] by auto
  have L: "linked m (A @ (p, es) # B)" using assms(2) r(1) by (simp add: holds_tree_def linked_def bodies_def)
  have "sorted (map fst (es @ concat (map snd B)))"
    using entries_sorted [of t] assms(3) r(1) by (simp add: tree_ok_def tree_entries_def sorted_append)
  moreover have "length B < fuel" using assms(4) r(1) by (simp add: bodies_def)
  moreover have "pointers_of key (tree_entries t) = pointers_of key (es @ concat (map snd B))"
    using r(1,3) by (fastforce simp: pointers_of_def tree_entries_def filter_empty_conv)
  ultimately show ?thesis using search_loop_spec [OF m L, of fuel "[]" limit key] r(2) by (simp add: search_limited_def)
qed

section \<open>Deleting\<close>

lemma longer_prefix: "xs @ x # ys = zs @ ws \<Longrightarrow> length xs < length zs \<Longrightarrow> \<exists>rest. zs = xs @ x # rest"
  by (auto simp: append_eq_append_conv2 Cons_eq_append_conv)

lemma remove_at_position:
  "position (\<lambda>(k, a). k = key \<and> a = ptr) es = Some i \<Longrightarrow> i < length es \<and> remove_at i es = remove1 (key, ptr) es"
  by (induction es arbitrary: i) (auto simp: remove_at_def split: if_splits)

lemma shrunk_serializes:
  assumes "node_serialize KC 65536 node = Ok buf" and "bn_body node = LeafBody es prev nxt" and "set fs \<subseteq> set es"
    and "sum_list (map (entry_len (encode KC) 6) fs) \<le> sum_list (map (entry_len (encode KC) 6) es)"
  shows "\<exists>buf'. node_serialize KC 65536 (node\<lparr>bn_body := LeafBody fs prev nxt, bn_num_entries := n, bn_dirty := d\<rparr>) = Ok buf'"
proof -
  obtain bs where bs: "put_entries (encode KC) LEAF_HEADER_SIZE RECORD_POINTER_SIZE ra_encode 65536 LEAF_HEADER_SIZE es = Ok bs"
    using assms(1,2) by (auto simp: node_serialize_def map_outcome_Ok_iff)
  have le: "LEAF_HEADER_SIZE \<le> 65536" by (simp add: LEAF_HEADER_SIZE_def)
  obtain bs' where "put_entries (encode KC) LEAF_HEADER_SIZE RECORD_POINTER_SIZE ra_encode 65536 LEAF_HEADER_SIZE fs = Ok bs'"
    using put_entries_fits [OF le, THEN iffD1, OF exI, OF bs] put_entries_fits [OF le, THEN iffD2, of fs "encode KC" LEAF_HEADER_SIZE RECORD_POINTER_SIZE ra_encode] assms(3,4)
    by (auto simp: RECORD_POINTER_SIZE_def)
  then show ?thesis by (simp add: node_serialize_def)
qed

lemma delete_from_leaf:
  assumes m: "inv m" and "linked m (A @ (p, es) # B)" and leaf: "bn_page leaf = p" "bn_body leaf = LeafBody es (last_link None A) (first_link B)"
      "node_ok V leaf" "node_serialize KC 65536 leaf = Ok (pg m ! p)" and mem: "(key, ptr) \<in> set es"
  shows "\<exists>m' c. tree_delete_loop MA KC (Suc fuel) key ptr leaf m = (Ok (), m') \<and> inv m' \<and> pg m' = (pg m)[p := c] \<and>
    stores m' p (LeafBody (remove1 (key, ptr) es) (last_link None A) (first_link B))"
proof -
  let ?fs = "remove1 (key, ptr) es"
  let ?node = "leaf\<lparr>bn_body := LeafBody ?fs (last_link None A) (first_link B), bn_num_entries := as_u16 (length ?fs), bn_dirty := True\<rparr>"
  obtain i where i: "position (\<lambda>(k, a). k = key \<and> a = ptr) es = Some i"
    using mem position_None [of "\<lambda>(k, a). k = key \<and> a = ptr" es] by (cases "position (\<lambda>(k, a). k = key \<and> a = ptr) es") auto
  have sum: "sum_list (map (entry_len (encode KC) 6) ?fs) \<le> sum_list (map (entry_len (encode KC) 6) es)"
    by (induction es) auto
  obtain buf where buf: "node_serialize KC 65536 ?node = Ok buf"
    using shrunk_serializes [OF leaf(4,2) set_remove1_subset sum, of True "as_u16 (length ?fs)"] by (elim exE)
  have ok: "node_ok V ?node" using leaf(2,3) set_remove1_subset [of "(key, ptr)" es] by (auto simp: node_ok_def body_ok_def body_len_def)
  have p: "bn_page ?node < length (pg m)" using stores_length [OF m linked_leaf [OF assms(2)]] leaf(1) by simp
  obtain m' c where f: "node_flush MA KC ?node m = (Ok (?node\<lparr>bn_dirty := False\<rparr>), m')" "inv m'" "pg m' = (pg m)[bn_page ?node := c]"
    "stores m' (bn_page ?node) (bn_body ?node)"
    using node_flush_cases [OF m p ok] buf by auto
  then have "tree_delete_loop MA KC (Suc fuel) key ptr leaf m = (Ok (), m')" using i leaf(2) remove_at_position [OF i] by simp
  then show ?thesis using f leaf(1) by auto
qed

lemma delete_loop_spec:
  assumes m: "inv m" and "linked m (A @ (p, es) # B)" "length B < fuel" "sorted (map fst (es @ concat (map snd B)))"
    and "bn_page leaf = p" "bn_body leaf = LeafBody es (last_link None A) (first_link B)" "node_ok V leaf" "node_serialize KC 65536 leaf = Ok (pg m ! p)"
  shows "if (key, ptr) \<in> set (es @ concat (map snd B))
    then \<exists>A' q fs B' m' c. A @ (p, es) # B = A' @ (q, fs) # B' \<and> length A \<le> length A' \<and> (key, ptr) \<in> set fs \<and>
      (key, ptr) \<notin> set (concat (map snd (drop (length A) A'))) \<and>
      tree_delete_loop MA KC fuel key ptr leaf m = (Ok (), m') \<and> inv m' \<and> pg m' = (pg m)[q := c] \<and>
      stores m' q (LeafBody (remove1 (key, ptr) fs) (last_link None A') (first_link B'))
    else tree_delete_loop MA KC fuel key ptr leaf m = (Err EntryNotFound, m)"
  using assms(2-)
proof (induction B arbitrary: A p es fuel leaf)
  case Nil
  obtain fl where fuel: "fuel = Suc fl" using Nil.prems(2) by (cases fuel) auto
  show ?case
  proof (cases "(key, ptr) \<in> set es")
    case True
    obtain m' c where "tree_delete_loop MA KC (Suc fl) key ptr leaf m = (Ok (), m')" "inv m'" "pg m' = (pg m)[p := c]"
      "stores m' p (LeafBody (remove1 (key, ptr) es) (last_link None A) (first_link ([] :: (nat \<times> ('k \<times> record_address) list) list)))"
      using delete_from_leaf [OF m Nil.prems(1,4,5,6,7) True, of fl] by (elim exE conjE)
    moreover have mem: "(key, ptr) \<in> set (es @ concat (map snd ([])))" using True by simp
    ultimately show ?thesis unfolding if_P [OF mem]
      using True by (intro exI [of _ A] exI [of _ p] exI [of _ es] exI [of _ "[]"] exI [of _ m'] exI [of _ c] conjI) (simp_all add: fuel del: tree_delete_loop.simps)
  next
    case False
    then have "position (\<lambda>(k, a). k = key \<and> a = ptr) es = None" by (auto simp: position_None)
    then show ?thesis using False Nil.prems(5) by (simp add: fuel first_link_def)
  qed
next
  case (Cons b B)
  obtain fl where fuel: "fuel = Suc fl" using Cons.prems(2) by (cases fuel) auto
  obtain q fs where b: "b = (q, fs)" by (cases b)
  have L: "linked m ((A @ [(p, es)]) @ (q, fs) # B)" using Cons.prems(1) by (simp add: b)
  have s: "sorted (map fst (fs @ concat (map snd B)))" using Cons.prems(3) by (auto simp: sorted_append b)
  show ?case
  proof (cases "(key, ptr) \<in> set es")
    case True
    obtain m' c where "tree_delete_loop MA KC (Suc fl) key ptr leaf m = (Ok (), m')" "inv m'" "pg m' = (pg m)[p := c]"
      "stores m' p (LeafBody (remove1 (key, ptr) es) (last_link None A) (first_link (b # B)))"
      using delete_from_leaf [OF m Cons.prems(1,4,5,6,7) True, of fl] by (elim exE conjE)
    moreover have mem: "(key, ptr) \<in> set (es @ concat (map snd (b # B)))" using True by simp
    ultimately show ?thesis unfolding if_P [OF mem]
      using True by (intro exI [of _ A] exI [of _ p] exI [of _ es] exI [of _ "b # B"] exI [of _ m'] exI [of _ c] conjI) (simp_all add: fuel del: tree_delete_loop.simps)
  next
    case False
    then have none: "position (\<lambda>(k, a). k = key \<and> a = ptr) es = None" by (auto simp: position_None)
    obtain node where n: "node_read MA KC q m = (Ok node, m)" "bn_page node = q" "bn_body node = LeafBody fs (last_link None (A @ [(p, es)])) (first_link B)"
      "node_ok V node" "node_serialize KC 65536 node = Ok (pg m ! q)"
      using node_read_stores [OF m linked_leaf [OF L]] by (elim exE conjE)
    show ?thesis
    proof (cases "case first_key node of Some k \<Rightarrow> k > key | None \<Rightarrow> False")
      case True
      then obtain k a rest where fs: "fs = (k, a) # rest" "key < k" using n(3) by (auto simp: first_key_def body_keys_def split: list.splits)
      have "(key, ptr) \<notin> set (fs @ concat (map snd B))" using s fs by (force simp: sorted_append)
      moreover have "tree_delete_loop MA KC fuel key ptr leaf m = (Err EntryNotFound, m)"
        using n(1) none True Cons.prems(5) by (simp add: fuel first_link_def b)
      ultimately show ?thesis using False by (simp add: b)
    next
      case cont: False
      have run: "tree_delete_loop MA KC fuel key ptr leaf m = tree_delete_loop MA KC fl key ptr node m"
        using n(1) none cont Cons.prems(5) by (simp add: fuel first_link_def b)
      have len: "length B < fl" using Cons.prems(2) by (simp add: fuel)
      have all: "(A @ [(p, es)]) @ (q, fs) # B = A @ (p, es) # b # B" by (simp add: b)
      note IH = Cons.IH [OF L len s n(2,3,4,5), folded run, unfolded all]
      show ?thesis
      proof (cases "(key, ptr) \<in> set (fs @ concat (map snd B))")
        case True
        obtain A' r gs B' m' c where d: "A @ (p, es) # b # B = A' @ (r, gs) # B'" "length (A @ [(p, es)]) \<le> length A'" "(key, ptr) \<in> set gs"
          "(key, ptr) \<notin> set (concat (map snd (drop (length (A @ [(p, es)])) A')))"
          "tree_delete_loop MA KC fuel key ptr leaf m = (Ok (), m')" "inv m'" "pg m' = (pg m)[r := c]"
          "stores m' r (LeafBody (remove1 (key, ptr) gs) (last_link None A') (first_link B'))"
          using IH [unfolded if_P [OF True]] by (elim exE conjE)
        obtain rest where "A' = A @ (p, es) # rest" using longer_prefix [OF d(1)] d(2) by auto
        then have "(key, ptr) \<notin> set (concat (map snd (drop (length A) A')))" using d(4) False by simp
        moreover have "length A \<le> length A'" using d(2) by simp
        moreover have mem: "(key, ptr) \<in> set (es @ concat (map snd (b # B)))" using True by (simp add: b)
        ultimately show ?thesis unfolding if_P [OF mem] using d(1,3,5-8)
          by (intro exI [of _ A'] exI [of _ r] exI [of _ gs] exI [of _ B'] exI [of _ m'] exI [of _ c] conjI)
      next
        case no: False
        then show ?thesis using IH False by (simp add: b del: tree_delete_loop.simps)
      qed
    qed
  qed
qed

text \<open>Replacing the entries of one leaf, with the links kept, gives the pages of the changed tree.\<close>

lemma chain_put_leaf:
  "(p, b) \<in> set (chain prev (A @ (q, fs) # B)) \<Longrightarrow> p \<noteq> q \<Longrightarrow> (p, b) \<in> set (chain prev (A @ (q, es) # B))"
proof (induction A arbitrary: prev)
  case (Cons a A)
  have "first_link (A @ (q, fs) # B) = first_link (A @ (q, es) # B)" by (cases A) (simp_all add: first_link_def)
  then show ?case using Cons by (cases a) auto
qed simp

lemma stores_frame:
  "stores m p b \<Longrightarrow> pg m' ! p = pg m ! p \<Longrightarrow> length (pg m) \<le> length (pg m') \<Longrightarrow> stores m' p b"
  by (auto simp: page_stores_def)

lemma holds_set_leaf:
  assumes "holds_tree KC V (pg m) t" "tree_ok t" "leaves t = A @ (q, es) # B" "pg m' = (pg m)[q := c]"
    and "stores m' q (LeafBody fs (last_link None A) (first_link B))"
  shows "holds_tree KC V (pg m') (set_leaf q fs t)"
proof -
  have ok: "shaped t" "distinct (map fst (inner t) @ map fst (A @ (q, es) # B))" using assms(2,3) by (simp_all add: tree_ok_def bodies_def)
  have leaves: "leaves (set_leaf q fs t) = A @ (q, fs) # B" using ok(2) put_leaf_split [of A q es B fs] by (simp add: leaves_set_leaf assms(3))
  have frame: "stores m' p b" if "stores m p b" "p \<noteq> q" for p b
    by (rule stores_frame [OF that(1)]) (use that(2) assms(4) in simp_all)
  have "stores m' p b" if b: "(p, b) \<in> set (chain None (A @ (q, fs) # B))" for p b
  proof (cases "p = q")
    case True
    have "distinct (map fst (chain None (A @ (q, fs) # B)))" using ok(2) by simp
    then have "b = LeafBody fs (last_link None A) (first_link B)" using b chain_focus [of q fs None A B] True by (meson eq_key_imp_eq_value)
    then show ?thesis using assms(5) True by simp
  next
    case False
    have "stores m p b" using chain_put_leaf [OF b False, of es] assms(3) by (intro holds_treeD [OF assms(1)]) (simp add: bodies_def)
    then show ?thesis using False by (intro frame)
  qed
  moreover have "stores m' p b" if "(p, b) \<in> set (inner t)" for p b
  proof -
    have "p \<in> fst ` set (inner t)" using that by (metis fst_conv image_eqI)
    then have "p \<noteq> q" using ok(2) by auto
    moreover have "stores m p b" using that by (intro holds_treeD [OF assms(1)]) (simp add: bodies_def)
    ultimately show ?thesis by (intro frame)
  qed
  ultimately have "stores m' p b" if "(p, b) \<in> set (bodies (set_leaf q fs t))" for p b
    using that unfolding bodies_def leaves inner_set_leaf [OF ok(1)] set_append by (elim UnE)
  then show ?thesis by (rule holds_treeI)
qed

lemma tree_ok_remove:
  assumes "tree_ok t" and leaves: "leaves t = A @ (q, es) # B"
  shows "tree_ok (set_leaf q (remove1 e es) t)" and "map fst (bodies (set_leaf q (remove1 e es) t)) = map fst (bodies t)"
proof -
  have ok: "shaped t" "sorted (keyseq t)" "distinct (map fst (A @ (q, es) # B))" using assms by (simp_all add: tree_ok_def bodies_def)
  have new: "leaves (set_leaf q (remove1 e es) t) = A @ (q, remove1 e es) # B" by (simp only: leaves_set_leaf leaves put_leaf_split [OF ok(3)])
  show pages: "map fst (bodies (set_leaf q (remove1 e es) t)) = map fst (bodies t)" using ok(1) by (simp add: bodies_def new leaves)
  have "sorted_wrt (\<lambda>x y. \<not> entry_before y x) es" using shaped_leaf [OF ok(1), of q es] by (simp add: leaves)
  then have "shaped (set_leaf q (remove1 e es) t)" using ok(1) by (simp add: shaped_set_leaf sorted_wrt_remove1)
  moreover have "subseq (keyseq (set_leaf q (remove1 e es) t)) (keyseq t)"
  proof (rule keyseq_set_leaf [OF ok(1)])
    fix fs assume "(q, fs) \<in> set (leaves t)"
    then have "fs = es" using ok(3) by (force simp: leaves)
    then show "subseq (map fst (remove1 e es)) (map fst fs)" using subseq_map [OF subseq_remove1, of fst e es] by simp
  qed
  then have "sorted (keyseq (set_leaf q (remove1 e es) t))" using ok(2) by (auto simp: subseq_conv_nths sorted_nths)
  ultimately show "tree_ok (set_leaf q (remove1 e es) t)" using assms(1) unfolding tree_ok_def pages by simp
qed

lemma delete_spec:
  assumes m: "inv m" and "holds_tree KC V (pg m) t" "tree_ok t" "length (bodies t) < fuel"
  shows "if (key, ptr) \<in> set (tree_entries t)
    then \<exists>m' t' q c. tree_delete MA KC fuel (root_page t) key ptr m = (Ok (), m') \<and> inv m' \<and> holds_tree KC V (pg m') t' \<and> tree_ok t' \<and>
      root_page t' = root_page t \<and> tree_pages t' = tree_pages t \<and> tree_entries t' = remove1 (key, ptr) (tree_entries t) \<and>
      q \<in> tree_pages t \<and> pg m' = (pg m)[q := c]
    else tree_delete MA KC fuel (root_page t) key ptr m = (Err EntryNotFound, m)"
proof -
  obtain A p es B where r: "leaves t = A @ (p, es) # B" "find_search_start_page MA KC fuel (root_page t) key (replicate 65536 0) m = (Ok (p, pg m ! p), m)"
    "\<forall>e \<in> set (concat (map snd A)). fst e < key"
    using find_search_start [OF assms, of "replicate 65536 0" key] by auto
  have ok: "shaped t" "sorted (keyseq t)" using assms(3) by (simp_all add: tree_ok_def)
  have L: "linked m (A @ (p, es) # B)" using assms(2) r(1) by (simp add: holds_tree_def linked_def bodies_def)
  obtain leaf where leaf: "node_deserialize KC p (pg m ! p) = Ok leaf" "bn_page leaf = p" "bn_body leaf = LeafBody es (last_link None A) (first_link B)"
    "node_ok V leaf" "node_serialize KC 65536 leaf = Ok (pg m ! p)"
    using stores_node [OF linked_leaf [OF L]] by (elim exE conjE)
  have run: "tree_delete MA KC fuel (root_page t) key ptr m = tree_delete_loop MA KC fuel key ptr leaf m"
    using r(2) leaf(1) by (simp add: tree_delete_def find_search_start_leaf_def)
  have s: "sorted (map fst (es @ concat (map snd B)))" using entries_sorted [OF ok] r(1) by (simp add: tree_entries_def sorted_append)
  have len: "length B < fuel" using assms(4) r(1) by (simp add: bodies_def)
  have A: "(key, ptr) \<notin> set (concat (map snd A))" using r(3) by fastforce
  then have mem: "(key, ptr) \<in> set (es @ concat (map snd B)) \<longleftrightarrow> (key, ptr) \<in> set (tree_entries t)"
    using r(1) by (auto simp: tree_entries_def)
  note loop = delete_loop_spec [OF m L len s leaf(2-5), of key ptr, folded run, unfolded mem]
  show ?thesis
  proof (cases "(key, ptr) \<in> set (tree_entries t)")
    case True
    obtain A' q fs B' m' c where d: "A @ (p, es) # B = A' @ (q, fs) # B'" "length A \<le> length A'" "(key, ptr) \<in> set fs"
      "(key, ptr) \<notin> set (concat (map snd (drop (length A) A')))"
      "tree_delete MA KC fuel (root_page t) key ptr m = (Ok (), m')" "inv m'" "pg m' = (pg m)[q := c]"
      "stores m' q (LeafBody (remove1 (key, ptr) fs) (last_link None A') (first_link B'))"
      using loop [unfolded if_P [OF True]] by (elim exE conjE)
    have leaves: "leaves t = A' @ (q, fs) # B'" using r(1) d(1) by simp
    let ?t = "set_leaf q (remove1 (key, ptr) fs) t"
    have distinct: "distinct (map fst (A' @ (q, fs) # B'))" using assms(3) leaves by (simp add: tree_ok_def bodies_def)
    have new: "leaves ?t = A' @ (q, remove1 (key, ptr) fs) # B'" by (simp only: leaves_set_leaf leaves put_leaf_split [OF distinct])
    have "A' = A @ drop (length A) A'"
      using d(1,2) by (metis append_eq_append_conv_if append_take_drop_id)
    then have "(key, ptr) \<notin> set (concat (map snd A'))" using A d(4) by (metis Un_iff concat_append map_append set_append)
    then have entries: "tree_entries ?t = remove1 (key, ptr) (tree_entries t)" using d(3) by (simp add: tree_entries_def new leaves remove1_append)
    have ok': "tree_ok ?t" "map fst (bodies ?t) = map fst (bodies t)" using tree_ok_remove [OF assms(3) leaves] by simp_all
    moreover have "holds_tree KC V (pg m') ?t" using holds_set_leaf [OF assms(2,3) leaves d(7,8)] .
    moreover have "tree_pages ?t = tree_pages t" "q \<in> tree_pages t"
      using ok'(2) leaves by (simp_all add: tree_pages_def flip: set_map) (simp add: bodies_def)
    ultimately show ?thesis unfolding if_P [OF True]
      using d(5-7) entries by (intro exI [of _ m'] exI [of _ ?t] exI [of _ q] exI [of _ c] conjI) simp_all
  next
    case False
    then show ?thesis using loop by simp
  qed
qed

end

end
