(* ===== verification/Index_Insert.thy ===== *)
theory Index_Insert
  imports Index_Search
begin

text \<open>
  Insertion into the B+ tree of an index: the path from the root to a leaf as a list of frames around the
  leaf, what splitting a node does to the tree, and the whole of \<^verbatim>\<open>insert\<close>. When it returns, the pages
  hold a well-formed tree with exactly the new entry added.
\<close>

section \<open>Frames\<close>

text \<open>A branch with one child taken out: the children and separators on both sides of the hole.\<close>

datatype 'k frame = Frame (fpage: nat) (fcl: "'k btree list") (fsl: "'k list") (fcr: "'k btree list") (fsr: "'k list")

definition plug1 :: "'k frame \<Rightarrow> 'k btree \<Rightarrow> 'k btree" where
  "plug1 f t = BNode (fpage f) (fsl f @ fsr f) (fcl f @ t # fcr f)"

fun plug :: "'k frame list \<Rightarrow> 'k btree \<Rightarrow> 'k btree" where
  "plug [] t = t"
| "plug (f # fs) t = plug1 f (plug fs t)"

definition frame_ok :: "('k :: linorder) frame \<Rightarrow> bool" where
  "frame_ok f \<longleftrightarrow> length (fcl f) = length (fsl f) \<and> length (fcr f) = length (fsr f) \<and> (\<forall>c \<in> set (fcl f @ fcr f). shaped c)"

definition frame_body :: "'k frame \<Rightarrow> nat \<Rightarrow> 'k node_body" where
  "frame_body f h = InternalBody (zip (fsl f @ fsr f) (map root_page (fcl f) @ h # map root_page (fcr f)))
     (last (h # map root_page (fcr f)))"

fun spine :: "'k frame list \<Rightarrow> nat \<Rightarrow> (nat \<times> 'k node_body) list" where
  "spine [] h = []"
| "spine (f # fs) h = (fpage f, frame_body f (case fs of [] \<Rightarrow> h | g # _ \<Rightarrow> fpage g)) # spine fs h"

fun side :: "'k frame list \<Rightarrow> (nat \<times> 'k node_body) list" where
  "side [] = []"
| "side (f # fs) = concat (map inner (fcl f)) @ concat (map inner (fcr f)) @ side fs"

fun lefts :: "'k frame list \<Rightarrow> (nat \<times> ('k \<times> record_address) list) list" where
  "lefts [] = []"
| "lefts (f # fs) = concat (map leaves (fcl f)) @ lefts fs"

fun rights :: "'k frame list \<Rightarrow> (nat \<times> ('k \<times> record_address) list) list" where
  "rights [] = []"
| "rights (f # fs) = rights fs @ concat (map leaves (fcr f))"

fun lower :: "'k frame list \<Rightarrow> 'k list" where
  "lower [] = []"
| "lower (f # fs) = before (map keyseq (fcl f)) (fsl f) @ lower fs"

fun upper :: "'k frame list \<Rightarrow> 'k list" where
  "upper [] = []"
| "upper (f # fs) = upper fs @ after (fsr f) (map keyseq (fcr f))"

lemma root_plug: "root_page (plug fs t) = (case fs of [] \<Rightarrow> root_page t | f # _ \<Rightarrow> fpage f)"
  by (cases fs) (simp_all add: plug1_def)

lemma plug_snoc: "plug (fs @ [f]) t = plug fs (plug1 f t)"
  by (induction fs) simp_all

lemma leaves_plug: "leaves (plug fs t) = lefts fs @ leaves t @ rights fs"
  by (induction fs) (simp_all add: plug1_def)

lemma inner_plug: "mset (inner (plug fs t)) = mset (spine fs (root_page t)) + mset (side fs) + mset (inner t)"
  by (induction fs) (simp_all add: plug1_def frame_body_def root_plug last_map split: list.split)

lemma keyseq_plug: "\<forall>f \<in> set fs. frame_ok f \<Longrightarrow> keyseq (plug fs t) = lower fs @ keyseq t @ upper fs"
  by (induction fs) (simp_all add: plug1_def frame_ok_def interleave_focus)

lemma shaped_plug: "\<forall>f \<in> set fs. frame_ok f \<Longrightarrow> shaped (plug fs t) \<longleftrightarrow> shaped t"
  by (induction fs) (auto simp: plug1_def frame_ok_def)

lemma spine_pages [simp]: "map fst (spine fs h) = map fpage fs"
  by (induction fs) auto

lemma spine_snoc: "spine (fs @ [f]) h = spine fs (fpage f) @ [(fpage f, frame_body f h)]"
  by (induction fs) (auto split: list.split)

text \<open>The pages of a tree, and what replacing a subtree does to them.\<close>

lemma pages_plug:
  "mset (map fst (bodies (plug fs t))) = mset (map fpage fs) + mset (map fst (side fs)) + mset (map fst (lefts fs @ rights fs)) + mset (map fst (bodies t))"
proof -
  have "mset (map fst (inner (plug fs t))) = mset (map fpage fs) + mset (map fst (side fs)) + mset (map fst (inner t))"
    unfolding mset_map inner_plug image_mset_union by (simp flip: mset_map)
  then show ?thesis by (simp add: bodies_def leaves_plug)
qed

lemma root_in_pages: "root_page t \<in> tree_pages t"
  by (cases t) (auto simp: tree_pages_def bodies_def)

lemma pages_BNode: "mset (map fst (bodies (BNode p ss cs))) = add_mset p (mset (concat (map (\<lambda>c. map fst (bodies c)) cs)))"
  by (induction cs) (simp_all add: bodies_def)

lemma tree_pages_BNode: "tree_pages (BNode p ss cs) = insert p (\<Union> (tree_pages ` set cs))"
  using arg_cong [OF pages_BNode [of p ss cs], of set_mset] by (simp add: tree_pages_def)

lemma tree_pages_plug: "tree_pages t \<subseteq> tree_pages (plug fs t)"
  using arg_cong [OF pages_plug [of fs t], of set_mset] by (auto simp: tree_pages_def)

lemma distinct_roots: "distinct (map fst (bodies (BNode p ss cs))) \<Longrightarrow> distinct (map root_page cs)"
proof -
  assume "distinct (map fst (bodies (BNode p ss cs)))"
  then have "distinct (concat (map (\<lambda>c. map fst (bodies c)) cs))"
    using mset_eq_imp_distinct_iff [of "map fst (bodies (BNode p ss cs))" "p # concat (map (\<lambda>c. map fst (bodies c)) cs)"] pages_BNode [of p ss cs] by simp
  then show ?thesis
  proof (induction cs)
    case (Cons c cs)
    have disjoint: "set (map fst (bodies c)) \<inter> (\<Union>d \<in> set cs. set (map fst (bodies d))) = {}" using Cons.prems by simp
    have root: "root_page d \<in> set (map fst (bodies d))" for d :: "'a btree" using root_in_pages [of d] by (simp add: tree_pages_def)
    have "root_page c \<noteq> root_page d" if "d \<in> set cs" for d using disjoint root [of c] root [of d] that by (metis UN_I disjoint_iff)
    then show ?case using Cons by auto
  qed simp
qed

lemma distinct_plug: "distinct (map fst (bodies (plug fs t))) \<Longrightarrow> distinct (map fst (bodies t))"
  using mset_eq_imp_distinct_iff [of "map fst (bodies (plug fs t))" "(map fpage fs @ map fst (side fs) @ map fst (lefts fs @ rights fs)) @ map fst (bodies t)"]
    pages_plug [of fs t] by simp

lemma tree_ok_replace:
  assumes "tree_ok (plug fs t)" and ok: "\<forall>f \<in> set fs. frame_ok f" and "shaped t'" "sorted (lower fs @ keyseq t' @ upper fs)"
    and "mset (map fst (bodies t')) = mset (new @ map fst (bodies t))" "distinct new" "set new \<inter> tree_pages (plug fs t) = {}"
  shows "tree_ok (plug fs t')" and "tree_pages (plug fs t') = set new \<union> tree_pages (plug fs t)"
proof -
  have ms: "mset (map fst (bodies (plug fs t'))) = mset (new @ map fst (bodies (plug fs t)))"
    unfolding mset_append pages_plug using assms(5) by simp
  have "distinct (map fst (bodies (plug fs t')))"
    using mset_eq_imp_distinct_iff [OF ms] assms(1,6,7) by (simp add: tree_ok_def tree_pages_def)
  then show "tree_ok (plug fs t')" using assms(3,4) ok by (simp add: tree_ok_def shaped_plug keyseq_plug)
  show "tree_pages (plug fs t') = set new \<union> tree_pages (plug fs t)"
    using mset_eq_setD [OF ms] by (simp add: tree_pages_def)
qed

section \<open>The new entry in its leaf\<close>

lemma entry_before_trans: "\<not> entry_before y x \<Longrightarrow> \<not> entry_before z y \<Longrightarrow> \<not> entry_before z x"
  by (auto simp: entry_before_def ra_cmp_less not_less le_less)

lemma entry_before_asym: "entry_before x y \<Longrightarrow> \<not> entry_before y x"
  by (auto simp: entry_before_def ra_cmp_less)

lemma sorted_wrt_insert:
  assumes "sorted_wrt (\<lambda>x y. \<not> entry_before y x) es"
  shows "sorted_wrt (\<lambda>x y. \<not> entry_before y x) (takeWhile (\<lambda>x. entry_before x e) es @ e # dropWhile (\<lambda>x. entry_before x e) es)"
  using assms
proof (induction es)
  case (Cons x es)
  show ?case
  proof (cases "entry_before x e")
    case True
    then have "\<forall>y \<in> set (takeWhile (\<lambda>x. entry_before x e) es @ e # dropWhile (\<lambda>x. entry_before x e) es). \<not> entry_before y x"
      using Cons.prems entry_before_asym [OF True] by (auto dest: set_takeWhileD set_dropWhileD)
    then show ?thesis using Cons True by simp
  next
    case False
    then show ?thesis using Cons.prems entry_before_trans [of x e] by auto
  qed
qed simp

text \<open>The keys in order with the new key in its place.\<close>

lemma sorted_keys_insert:
  assumes "sorted (lo @ map fst es @ hi)" and "\<forall>k \<in> set lo. k \<le> fst e" and "\<forall>k \<in> set hi. fst e \<le> k" and "sorted_wrt (\<lambda>x y. \<not> entry_before y x) (xs @ e # ys)"
    and "es = xs @ ys"
  shows "sorted (lo @ map fst (xs @ e # ys) @ hi)"
proof -
  have "fst x \<le> fst e" if "x \<in> set xs" for x using assms(4) that by (auto simp: sorted_wrt_append entry_before_def not_less)
  moreover have "fst e \<le> fst y" if "y \<in> set ys" for y using assms(4) that by (auto simp: sorted_wrt_append entry_before_def not_less)
  ultimately show ?thesis using assms(1,2,3) by (auto simp: assms(5) sorted_append)
qed

lemma leaf_insert_spec:
  assumes "bn_body leaf = LeafBody es prev nxt"
  shows "leaf_insert key ptr leaf = leaf\<lparr>bn_body := LeafBody (takeWhile (\<lambda>x. entry_before x (key, ptr)) es @ (key, ptr) # dropWhile (\<lambda>x. entry_before x (key, ptr)) es) prev nxt,
    bn_num_entries := as_u16 (Suc (length es)), bn_dirty := True\<rparr>"
proof -
  let ?P = "\<lambda>x. entry_before x (key, ptr)"
  have "insert_at (partition_point ?P es) (key, ptr) es = takeWhile ?P es @ (key, ptr) # dropWhile ?P es"
    by (simp add: insert_at_def partition_point_def takeWhile_eq_take [symmetric] dropWhile_eq_drop [symmetric])
  moreover have "(\<lambda>(k, a). k < key \<or> k = key \<and> ra_cmp a ptr < 0) = ?P" by (auto simp: entry_before_def)
  moreover have "length (takeWhile ?P es @ (key, ptr) # dropWhile ?P es) = Suc (length es)"
    by (metis add_Suc_right length_Cons length_append takeWhile_dropWhile_id)
  ultimately show ?thesis by (simp add: leaf_insert_def assms Let_def)
qed

section \<open>Sizes\<close>

definition fits_page :: "'k codec \<Rightarrow> 'k btree_node \<Rightarrow> bool" where
  "fits_page KC node \<longleftrightarrow> (\<exists>buf. node_serialize KC 65536 node = Ok buf)"

definition key_fits :: "('k \<Rightarrow> byte list) \<Rightarrow> nat \<Rightarrow> nat \<Rightarrow> 'k \<Rightarrow> bool" where
  "key_fits enc header tail k \<longleftrightarrow> length (enc k) \<le> u16_max \<and> header + (2 + length (enc k) + tail) \<le> 65536"

definition entries_fit :: "('k \<Rightarrow> byte list) \<Rightarrow> nat \<Rightarrow> nat \<Rightarrow> 'k list \<Rightarrow> bool" where
  "entries_fit enc header tail ks \<longleftrightarrow> (\<forall>k \<in> set ks. key_fits enc header tail k) \<and> header + sum_list (map (\<lambda>k. 2 + length (enc k) + tail) ks) \<le> 65536"

lemma entries_fit_take:
  "\<forall>k \<in> set ks. key_fits enc header tail k \<Longrightarrow> header \<le> 65536 \<Longrightarrow> sum_list (take i (map (\<lambda>k. 2 + length (enc k) + tail) ks)) \<le> 65536 - header \<Longrightarrow>
   entries_fit enc header tail (take i ks)"
  by (auto simp: entries_fit_def take_map dest: in_set_takeD)

lemma entries_fit_drop:
  "\<forall>k \<in> set ks. key_fits enc header tail k \<Longrightarrow> header \<le> 65536 \<Longrightarrow> sum_list (drop i (map (\<lambda>k. 2 + length (enc k) + tail) ks)) \<le> 65536 - header \<Longrightarrow>
   entries_fit enc header tail (drop i ks)"
  by (auto simp: entries_fit_def drop_map dest: in_set_dropD)

lemma fits_leaf: "bn_body node = LeafBody es prev nxt \<Longrightarrow> fits_page KC node \<longleftrightarrow> entries_fit (encode KC) 15 6 (map fst es)"
  using put_entries_fits [of LEAF_HEADER_SIZE 65536 "encode KC" LEAF_HEADER_SIZE RECORD_POINTER_SIZE ra_encode es]
  by (auto simp: fits_page_def node_serialize_def map_outcome_Ok_iff entries_fit_def key_fits_def entry_len_def [abs_def] node_consts o_def)

lemma fits_internal: "bn_body node = InternalBody es r \<Longrightarrow> fits_page KC node \<longleftrightarrow> entries_fit (encode KC) 11 4 (map fst es)"
  using put_entries_fits [of INTERNAL_HEADER_SIZE 65536 "encode KC" INTERNAL_HEADER_SIZE 4 "le_bytes 4" es]
  by (auto simp: fits_page_def node_serialize_def map_outcome_Ok_iff entries_fit_def key_fits_def entry_len_def [abs_def] node_consts o_def)

lemma sum_sizes_spec:
  "sum_sizes enc (\<lambda>n. entry_size_from_len header tail n 65536) ks acc =
    (if \<forall>k \<in> set ks. key_fits enc header tail k then Ok (acc + sum_list (map (\<lambda>k. 2 + length (enc k) + tail) ks))
     else sum_sizes enc (\<lambda>n. entry_size_from_len header tail n 65536) ks acc)"
  by (induction ks arbitrary: acc) (auto simp: entry_size_from_len_def key_fits_def)

lemma sum_sizes_cases:
  "(\<exists>k \<in> set ks. \<not> key_fits enc header tail k) \<Longrightarrow> \<exists>a b. sum_sizes enc (\<lambda>n. entry_size_from_len header tail n 65536) ks acc = Err (KeyTooLarge a b)"
  by (induction ks arbitrary: acc) (auto simp: entry_size_from_len_def key_fits_def)

lemma would_overflow_cases:
  obtains (fits) "would_overflow KC 65536 node = Ok False" "fits_page KC node"
    | (over) "would_overflow KC 65536 node = Ok True"
    | (error) a b where "would_overflow KC 65536 node = Err (KeyTooLarge a b)"
proof (cases "bn_body node")
  case (InternalBody es r)
  note body = this
  let ?n = "sum_list (map (\<lambda>k. 2 + length (encode KC k) + 4) (map fst es))"
  show ?thesis
  proof (cases "\<forall>k \<in> set (map fst es). key_fits (encode KC) 11 4 k")
    case True
    then have w: "would_overflow KC 65536 node = Ok (11 + ?n > 65536)"
      using sum_sizes_spec [of "encode KC" 11 4 "map fst es" 0]
      by (simp add: would_overflow_def entries_byte_size_def body internal_entry_size_from_len_def INTERNAL_HEADER_SIZE_def)
    show ?thesis using fits over fits_internal [OF body, of KC] w True by (cases "11 + ?n > 65536") (auto simp: entries_fit_def)
  next
    case False
    then show ?thesis using sum_sizes_cases [of "map fst es" "encode KC" 11 4 0] error
      by (auto simp: would_overflow_def entries_byte_size_def body internal_entry_size_from_len_def INTERNAL_HEADER_SIZE_def)
  qed
next
  case (LeafBody es prev nxt)
  note body = this
  let ?n = "sum_list (map (\<lambda>k. 2 + length (encode KC k) + 6) (map fst es))"
  show ?thesis
  proof (cases "\<forall>k \<in> set (map fst es). key_fits (encode KC) 15 6 k")
    case True
    then have w: "would_overflow KC 65536 node = Ok (15 + ?n > 65536)"
      using sum_sizes_spec [of "encode KC" 15 6 "map fst es" 0]
      by (simp add: would_overflow_def entries_byte_size_def body leaf_entry_size_from_len_def LEAF_HEADER_SIZE_def RECORD_POINTER_SIZE_def)
    show ?thesis using fits over fits_leaf [OF body, of KC] w True by (cases "15 + ?n > 65536") (auto simp: entries_fit_def)
  next
    case False
    then show ?thesis using sum_sizes_cases [of "map fst es" "encode KC" 15 6 0] error
      by (auto simp: would_overflow_def entries_byte_size_def body leaf_entry_size_from_len_def LEAF_HEADER_SIZE_def RECORD_POINTER_SIZE_def)
  qed
qed

subsection \<open>Where a node is split\<close>

lemma would_overflow_fits: "fits_page KC node \<Longrightarrow> would_overflow KC 65536 node = Ok False"
proof (cases "bn_body node")
  case (InternalBody es r)
  then show "fits_page KC node \<Longrightarrow> would_overflow KC 65536 node = Ok False"
    using fits_internal [OF InternalBody, of KC] sum_sizes_spec [of "encode KC" 11 4 "map fst es" 0]
    by (simp add: entries_fit_def would_overflow_def entries_byte_size_def internal_entry_size_from_len_def INTERNAL_HEADER_SIZE_def)
next
  case (LeafBody es prev nxt)
  then show "fits_page KC node \<Longrightarrow> would_overflow KC 65536 node = Ok False"
    using fits_leaf [OF LeafBody, of KC] sum_sizes_spec [of "encode KC" 15 6 "map fst es" 0]
    by (simp add: entries_fit_def would_overflow_def entries_byte_size_def leaf_entry_size_from_len_def LEAF_HEADER_SIZE_def RECORD_POINTER_SIZE_def)
qed

lemma entries_fit_perm:
  assumes "mset ks = mset ks'"
  shows "entries_fit enc header tail ks = entries_fit enc header tail ks'"
proof -
  let ?f = "\<lambda>k. 2 + length (enc k) + tail"
  have "sum_list (map ?f ks) = sum_list (map ?f ks')"
    using arg_cong [OF assms, of "\<lambda>M. sum_mset (image_mset ?f M)"] by (simp only: sum_mset_sum_list flip: mset_map)
  then show ?thesis using mset_eq_setD [OF assms] by (simp add: entries_fit_def)
qed

lemma entry_sizes_cases:
  "(\<forall>k \<in> set ks. key_fits enc header tail k) \<and>
     entry_sizes enc (\<lambda>n. entry_size_from_len header tail n 65536) ks = Ok (map (\<lambda>k. 2 + length (enc k) + tail) ks) \<or>
   (\<exists>a b. entry_sizes enc (\<lambda>n. entry_size_from_len header tail n 65536) ks = Err (KeyTooLarge a b))"
  by (induction ks) (auto simp: entry_size_from_len_def key_fits_def)

definition good_split :: "nat \<Rightarrow> bool \<Rightarrow> nat list \<Rightarrow> nat \<Rightarrow> bool" where
  "good_split room promote_median sizes i \<longleftrightarrow> 0 < i \<and> i < length sizes \<and> sum_list (take i sizes) \<le> room \<and>
     (if promote_median then i + 1 < length sizes \<and> sum_list (drop (i + 1) sizes) \<le> room else sum_list (drop i sizes) \<le> room)"

lemma split_index_loop_good:
  assumes "split_index_loop room (sum_list sizes) promote_median (length sizes) (drop index sizes) index (sum_list (take index sizes)) best = Some (i, d)"
    and "\<And>i d. best = Some (i, d) \<Longrightarrow> good_split room promote_median sizes i"
  shows "good_split room promote_median sizes i"
  using assms
proof (induction "length sizes - index" arbitrary: index best)
  case (Suc n)
  have i: "index < length sizes" using Suc.hyps(2) by simp
  have step: "drop index sizes = sizes ! index # drop (Suc index) sizes" "sum_list (take (Suc index) sizes) = sum_list (take index sizes) + sizes ! index"
    using i by (simp_all add: Cons_nth_drop_Suc take_Suc_conv_app_nth)
  have total: "sum_list sizes = sum_list (take index sizes) + (sizes ! index + sum_list (drop (Suc index) sizes))"
    using step(1) by (metis append_take_drop_id sum_list.Cons sum_list_append)
  let ?right = "if promote_median then sum_list sizes - sum_list (take index sizes) - sizes ! index else sum_list sizes - sum_list (take index sizes)"
  have right: "?right = (if promote_median then sum_list (drop (index + 1) sizes) else sum_list (drop index sizes))"
    using total step(1) by simp
  have "good_split room promote_median sizes j" if "better_split room promote_median (length sizes) index (sum_list (take index sizes)) ?right best = Some (j, e)" for j e
    using that Suc.prems(2) i right by (auto simp: better_split_def good_split_def split: if_splits)
  then show ?case using Suc.hyps(1) [of "Suc index"] Suc.hyps(2) Suc.prems(1) by (simp add: step)
qed simp

lemma split_index_cases:
  assumes "header \<le> 65536"
  obtains (split) i where "split_index sizes header 65536 promote_median = Ok i" "good_split (65536 - header) promote_median sizes i"
    | (error) a b where "split_index sizes header 65536 promote_median = Err (KeyTooLarge a b)"
proof (cases "split_index_loop (65536 - header) (sum_list sizes) promote_median (length sizes) sizes 0 0 None")
  case None
  then show ?thesis using error assms by (simp add: split_index_def byte_balanced_split_index_def)
next
  case (Some a)
  then show ?thesis
    using split [of "fst a"] assms split_index_loop_good [of "65536 - header" sizes promote_median 0 None "fst a" "snd a"]
    by (simp add: split_index_def byte_balanced_split_index_def)
qed

section \<open>Splitting a node\<close>

lemma chain_split:
  "x \<noteq> p \<Longrightarrow> x \<noteq> r \<Longrightarrow> first_link B \<noteq> Some x \<Longrightarrow>
   (x, b) \<in> set (chain prev (A @ (p, es1) # (r, es2) # B)) \<longleftrightarrow> (x, b) \<in> set (chain prev (A @ (p, es) # B))"
proof (induction A arbitrary: prev)
  case Nil
  then show ?case by (cases B) (auto simp: first_link_def)
next
  case (Cons a A)
  have "first_link (A @ (p, es1) # (r, es2) # B) = first_link (A @ (p, es) # B)" by (cases A) (simp_all add: first_link_def)
  then show ?case using Cons by (cases a) auto
qed

lemma interleave_split:
  assumes "length xs = Suc (length ss)" and "i < length ss"
  shows "interleave xs ss = interleave (take (Suc i) xs) (take i ss) @ ss ! i # interleave (drop (Suc i) xs) (drop (Suc i) ss)"
  using assms
proof (induction i arbitrary: xs ss)
  case 0
  then obtain x xs' s ss' where "xs = x # xs'" "ss = s # ss'" by (cases xs; cases ss) auto
  then show ?case by simp
next
  case (Suc i)
  then obtain x xs' s ss' where "xs = x # xs'" "ss = s # ss'" by (cases xs; cases ss) auto
  then show ?case using Suc.IH [of xs' ss'] Suc.prems by simp
qed

definition left_half :: "nat \<Rightarrow> nat \<Rightarrow> 'k list \<Rightarrow> 'k btree list \<Rightarrow> 'k btree" where
  "left_half i p ss cs = BNode p (take i ss) (take (Suc i) cs)"

definition right_half :: "nat \<Rightarrow> nat \<Rightarrow> 'k list \<Rightarrow> 'k btree list \<Rightarrow> 'k btree" where
  "right_half i r ss cs = BNode r (drop (Suc i) ss) (drop (Suc i) cs)"

lemma halves:
  assumes len: "length cs = Suc (length ss)" and i: "i < length ss"
  shows "keyseq (BNode p ss cs) = keyseq (left_half i p ss cs) @ ss ! i # keyseq (right_half i r ss cs)"
    and "leaves (BNode p ss cs) = leaves (left_half i p ss cs) @ leaves (right_half i r ss cs)"
    and "inner (left_half i p ss cs) = (p, InternalBody (take i (zip ss (map root_page cs))) (root_page (cs ! i))) # concat (map inner (take (Suc i) cs))"
    and "inner (right_half i r ss cs) = (r, InternalBody (drop (Suc i) (zip ss (map root_page cs))) (root_page (last cs))) # concat (map inner (drop (Suc i) cs))"
    and "concat (map inner cs) = concat (map inner (take (Suc i) cs)) @ concat (map inner (drop (Suc i) cs))"
proof -
  show "keyseq (BNode p ss cs) = keyseq (left_half i p ss cs) @ ss ! i # keyseq (right_half i r ss cs)"
    using interleave_split [of "map keyseq cs" ss i] len i by (simp add: left_half_def right_half_def take_map drop_map)
  show "leaves (BNode p ss cs) = leaves (left_half i p ss cs) @ leaves (right_half i r ss cs)"
    by (simp add: left_half_def right_half_def flip: concat_append map_append)
  have "last (take (Suc i) cs) = cs ! i" using len i by (simp add: take_Suc_conv_app_nth)
  moreover have "zip (take i ss) (take (Suc i) (map root_page cs)) = take i (zip ss (map root_page cs))"
    by (rule nth_equalityI) (use len i in auto)
  ultimately show "inner (left_half i p ss cs) = (p, InternalBody (take i (zip ss (map root_page cs))) (root_page (cs ! i))) # concat (map inner (take (Suc i) cs))"
    by (simp add: left_half_def take_map)
  show "inner (right_half i r ss cs) = (r, InternalBody (drop (Suc i) (zip ss (map root_page cs))) (root_page (last cs))) # concat (map inner (drop (Suc i) cs))"
    using len i by (simp add: right_half_def drop_zip drop_map last_drop)
  show "concat (map inner cs) = concat (map inner (take (Suc i) cs)) @ concat (map inner (drop (Suc i) cs))"
    by (simp flip: concat_append map_append)
qed

text \<open>What is stored for a subtree in its context: its branches, and all the leaves with their links.\<close>

definition local_bodies :: "'k frame list \<Rightarrow> (nat \<times> 'k node_body) list \<Rightarrow> (nat \<times> ('k \<times> record_address) list) list \<Rightarrow> (nat \<times> 'k node_body) set" where
  "local_bodies fs is ls = set is \<union> set (chain None (lefts fs @ ls @ rights fs))"

lemma bodies_plug: "set (bodies (plug fs t)) = set (spine fs (root_page t)) \<union> set (side fs) \<union> local_bodies fs (inner t) (leaves t)"
proof -
  have "set (inner (plug fs t)) = set (spine fs (root_page t)) \<union> set (side fs) \<union> set (inner t)"
    using inner_plug [of fs t] by (metis set_mset_mset set_mset_union)
  then show ?thesis by (auto simp: bodies_def local_bodies_def leaves_plug)
qed

lemma fst_set_chain: "fst ` set (chain prev ls) = fst ` set ls"
  by (metis fst_chain list.set_map)

lemma lefts_snoc: "lefts (fs @ [f]) = lefts fs @ concat (map leaves (fcl f))"
  by (induction fs) simp_all

lemma rights_snoc: "rights (fs @ [f]) = concat (map leaves (fcr f)) @ rights fs"
  by (induction fs) simp_all

lemma side_snoc: "side (fs @ [f]) = side fs @ concat (map inner (fcl f)) @ concat (map inner (fcr f))"
  by (induction fs) simp_all

lemma entries_plug: "tree_entries (plug fs t) = concat (map snd (lefts fs)) @ tree_entries t @ concat (map snd (rights fs))"
  by (simp add: tree_entries_def leaves_plug)

text \<open>The pages of the frames and of the siblings are not those of the subtree or of a leaf.\<close>

lemma context_disjoint:
  assumes "distinct (map fst (bodies (plug fs t)))" and "x \<in> set (map fpage fs) \<union> fst ` set (side fs)"
  shows "x \<notin> fst ` local_bodies fs (inner t) (leaves t)"
proof -
  have "mset (map fst (bodies (plug fs t))) = mset ((map fpage fs @ map fst (side fs)) @ map fst (lefts fs @ rights fs) @ map fst (bodies t))"
    unfolding pages_plug by simp
  then have "distinct ((map fpage fs @ map fst (side fs)) @ map fst (lefts fs @ rights fs) @ map fst (bodies t))"
    using assms(1) mset_eq_imp_distinct_iff by blast
  then have "x \<notin> set (map fst (lefts fs @ rights fs) @ map fst (bodies t))" using assms(2) by auto
  moreover have "fst ` local_bodies fs (inner t) (leaves t) \<subseteq> set (map fst (lefts fs @ rights fs) @ map fst (bodies t))"
    unfolding local_bodies_def image_Un by (auto simp: bodies_def simp flip: set_map)
  ultimately show ?thesis by blast
qed

subsection \<open>Promotion\<close>

text \<open>The parent after the split of the child in the hole of its frame.\<close>

definition grown :: "'k frame \<Rightarrow> 'k \<Rightarrow> 'k btree \<Rightarrow> 'k btree \<Rightarrow> 'k btree" where
  "grown f k tL tR = BNode (fpage f) (fsl f @ k # fsr f) (fcl f @ tL # tR # fcr f)"

lemma position_append: "\<forall>x \<in> set xs. \<not> pred x \<Longrightarrow> pred y \<Longrightarrow> position pred (xs @ y # ys) = Some (length xs)"
  by (induction xs) auto

lemma promoted_body_spec:
  assumes "length rl = length sl" and "length rr = length sr" and "distinct (rl @ h # rr)"
  shows "promoted_body (zip (sl @ sr) (rl @ h # rr)) (last (h # rr)) \<lparr>pr_key = k, pr_left_page = h, pr_right_page = r\<rparr> =
    Ok (InternalBody (zip (sl @ k # sr) (rl @ h # r # rr)) (last (r # rr)))"
proof (cases sr)
  case Nil
  then show ?thesis using assms by (simp add: promoted_body_def zip_append2)
next
  case (Cons s sr')
  then obtain q rr' where rr: "rr = q # rr'" using assms(2) by (cases rr) auto
  have "last rr \<noteq> h" using assms(3) rr last_in_set [of rr] by auto
  moreover have "position (\<lambda>(_, child). child = h) (zip sl rl @ (s, h) # zip sr' rr) = Some (length (zip sl rl))"
    using assms(3) by (intro position_append) (auto dest: set_zip_rightD)
  ultimately show ?thesis
    using assms(1) by (simp add: promoted_body_def Cons rr Let_def insert_at_def list_update_append nth_append)
qed

context index_memory
begin

lemma stores_fits: "stores m p b \<Longrightarrow> bn_body node = b \<Longrightarrow> fits_page KC node"
  by (cases b) (auto simp: page_stores_def fits_leaf fits_internal dest!: fits_page_def [THEN iffD2, OF exI])

lemma flush_ok:
  assumes m: "inv m" and pool: "pool_inv (pg m) U" and p: "bn_page node \<in> U" and ok: "node_ok V node" "fits_page KC node" "bn_dirty node"
  shows "\<exists>m' c. node_flush MA KC node m = (Ok (node\<lparr>bn_dirty := False\<rparr>), m') \<and> inv m' \<and> pool_inv (pg m') U \<and>
    pg m' = (pg m)[bn_page node := c] \<and> stores m' (bn_page node) (bn_body node)"
proof -
  have "bn_page node < length (pg m)" using pool p by (auto simp: pool_inv_def)
  then obtain m' c where f: "node_flush MA KC node m = (Ok (node\<lparr>bn_dirty := False\<rparr>), m')" "inv m'" "pg m' = (pg m)[bn_page node := c]"
    "stores m' (bn_page node) (bn_body node)"
    using node_flush_cases [OF m _ ok(1,3)] ok(2) by (auto simp: fits_page_def)
  then show ?thesis using pool_inv_update [OF pool p, of c] by (intro exI [of _ m'] exI [of _ c]) simp
qed

lemma claim_cases:
  assumes "inv m" and "pool_inv (pg m) U"
  obtains (claimed) r m' where "claim_page MA m = (Ok r, m')" "inv m'" "r \<notin> U" "r < NO_PAGE_SENTINEL" "pool_inv (pg m') (insert r U)"
      "length (pg m) \<le> length (pg m')" "\<And>x. x \<in> U \<Longrightarrow> pg m' ! x = pg m ! x"
    | (failed) e m' where "claim_page MA m = (Err e, m')" "inv m'"
proof -
  obtain res m' where c: "claim_page MA m = (res, m')" by (cases "claim_page MA m")
  note fresh = claim_fresh [OF assms c] and frame = claim_frame [OF assms c]
  have U: "x \<noteq> 1 \<and> x < length (pg m)" if "x \<in> U" for x using assms(2) that by (auto simp: pool_inv_def)
  show ?thesis
  proof (cases res)
    case (Ok r)
    have "r < NO_PAGE_SENTINEL" using fresh Ok page_count [of m'] by (simp add: NO_PAGE_SENTINEL_def)
    then show ?thesis using claimed [of r m'] c Ok fresh same_except_length [OF frame] same_except_nth [OF frame] U by auto
  next
    case (Err e)
    then show ?thesis using failed c fresh by auto
  qed (use fresh in simp)
qed

text \<open>A tree under construction: some of its nodes are in memory, the others on their pages.\<close>

definition working :: "'m \<Rightarrow> nat set \<Rightarrow> 'k btree_node list \<Rightarrow> 'k btree \<Rightarrow> bool" where
  "working m U path T \<longleftrightarrow> inv m \<and> pool_inv (pg m) U \<and> tree_ok T \<and> tree_pages T \<subseteq> U \<and> distinct (map bn_page path) \<and>
     (\<forall>n \<in> set path. (bn_page n, bn_body n) \<in> set (bodies T) \<and> node_ok V n \<and> (bn_dirty n \<or> stores m (bn_page n) (bn_body n))) \<and>
     (\<forall>p b. (p, b) \<in> set (bodies T) \<longrightarrow> p \<in> bn_page ` set path \<or> stores m p b)"

text \<open>What a split leaves behind: the node is cut into two subtrees, and the new page holds the right one.\<close>

definition split_done ::
  "'m \<Rightarrow> nat set \<Rightarrow> 'k btree_node list \<Rightarrow> 'k frame list \<Rightarrow> 'k btree \<Rightarrow> 'k promotion \<Rightarrow> 'k btree_node \<Rightarrow> 'm \<Rightarrow> 'k btree \<Rightarrow> 'k btree \<Rightarrow> bool" where
  "split_done m U path fs t pr left m' tL tR \<longleftrightarrow>
     inv m' \<and> pr_right_page pr \<notin> U \<and> pr_right_page pr < NO_PAGE_SENTINEL \<and> pool_inv (pg m') (insert (pr_right_page pr) U) \<and>
     length (pg m) \<le> length (pg m') \<and> V (pr_key pr) \<and>
     (\<forall>x \<in> U. x \<notin> fst ` local_bodies fs (inner t) (leaves t) \<or> x \<in> bn_page ` set path \<longrightarrow> pg m' ! x = pg m ! x) \<and>
     root_page tL = root_page t \<and> pr_left_page pr = root_page t \<and> root_page tR = pr_right_page pr \<and> shaped tL \<and> shaped tR \<and>
     tree_entries t = tree_entries tL @ tree_entries tR \<and>
     (\<forall>lo hi. sorted (lo @ keyseq t @ hi) \<longrightarrow> sorted (lo @ keyseq tL @ pr_key pr # keyseq tR @ hi)) \<and>
     mset (map fst (bodies tL)) + mset (map fst (bodies tR)) = add_mset (pr_right_page pr) (mset (map fst (bodies t))) \<and>
     fst ` set (leaves tL @ leaves tR) \<subseteq> insert (pr_right_page pr) (fst ` set (leaves t)) \<and>
     (root_page t, bn_body left) \<in> local_bodies fs (inner tL @ inner tR) (leaves tL @ leaves tR) \<and>
     (\<forall>x b. (x, b) \<in> local_bodies fs (inner tL @ inner tR) (leaves tL @ leaves tR) \<longrightarrow> x \<noteq> root_page t \<longrightarrow>
        x \<in> bn_page ` set path \<and> (x, b) \<in> local_bodies fs (inner t) (leaves t) \<or> stores m' x b) \<and>
     (\<forall>x b. (x, b) \<in> local_bodies fs (inner t) (leaves t) \<longrightarrow> x \<in> bn_page ` set path \<longrightarrow> x \<noteq> root_page t \<longrightarrow>
        (x, b) \<in> local_bodies fs (inner tL @ inner tR) (leaves tL @ leaves tR)) \<and>
     bn_page left = root_page t \<and> node_ok V left \<and> bn_dirty left \<and> fits_page KC left"

lemma split_doneI:
  assumes "inv m'" "r \<notin> U" "r < NO_PAGE_SENTINEL" "pool_inv (pg m') (insert r U)" "length (pg m) \<le> length (pg m')" "V k"
    and "\<And>x. x \<in> U \<Longrightarrow> x \<notin> fst ` local_bodies fs (inner t) (leaves t) \<or> x \<in> bn_page ` set path \<Longrightarrow> pg m' ! x = pg m ! x"
    and "root_page t = p" "root_page tL = p" "root_page tR = r" "shaped tL" "shaped tR" "tree_entries t = tree_entries tL @ tree_entries tR"
    and "\<And>lo hi. sorted (lo @ keyseq t @ hi) \<Longrightarrow> sorted (lo @ keyseq tL @ k # keyseq tR @ hi)"
    and "mset (map fst (bodies tL)) + mset (map fst (bodies tR)) = add_mset r (mset (map fst (bodies t)))"
    and "fst ` set (leaves tL @ leaves tR) \<subseteq> insert r (fst ` set (leaves t))"
    and "(p, bn_body left) \<in> local_bodies fs (inner tL @ inner tR) (leaves tL @ leaves tR)"
    and "\<And>x b. (x, b) \<in> local_bodies fs (inner tL @ inner tR) (leaves tL @ leaves tR) \<Longrightarrow> x \<noteq> p \<Longrightarrow>
        x \<in> bn_page ` set path \<and> (x, b) \<in> local_bodies fs (inner t) (leaves t) \<or> stores m' x b"
    and "\<And>x b. (x, b) \<in> local_bodies fs (inner t) (leaves t) \<Longrightarrow> x \<noteq> p \<Longrightarrow> x \<in> bn_page ` set path \<Longrightarrow>
        (x, b) \<in> local_bodies fs (inner tL @ inner tR) (leaves tL @ leaves tR)"
    and "bn_page left = p" "node_ok V left" "bn_dirty left" "fits_page KC left"
  shows "split_done m U path fs t \<lparr>pr_key = k, pr_left_page = p, pr_right_page = r\<rparr> left m' tL tR"
  using assms by (simp add: split_done_def)

lemma split_doneD:
  assumes "split_done m U path fs t pr left m' tL tR"
  shows "inv m'" "pr_right_page pr \<notin> U" "pr_right_page pr < NO_PAGE_SENTINEL" "pool_inv (pg m') (insert (pr_right_page pr) U)"
    and "length (pg m) \<le> length (pg m')" "V (pr_key pr)"
    and "\<And>x. x \<in> U \<Longrightarrow> x \<notin> fst ` local_bodies fs (inner t) (leaves t) \<or> x \<in> bn_page ` set path \<Longrightarrow> pg m' ! x = pg m ! x"
    and "root_page tL = root_page t" "pr_left_page pr = root_page t" "root_page tR = pr_right_page pr" "shaped tL" "shaped tR"
    and "tree_entries t = tree_entries tL @ tree_entries tR"
    and "\<And>lo hi. sorted (lo @ keyseq t @ hi) \<Longrightarrow> sorted (lo @ keyseq tL @ pr_key pr # keyseq tR @ hi)"
    and "mset (map fst (bodies tL)) + mset (map fst (bodies tR)) = add_mset (pr_right_page pr) (mset (map fst (bodies t)))"
    and "fst ` set (leaves tL @ leaves tR) \<subseteq> insert (pr_right_page pr) (fst ` set (leaves t))"
    and "(root_page t, bn_body left) \<in> local_bodies fs (inner tL @ inner tR) (leaves tL @ leaves tR)"
    and "\<And>x b. (x, b) \<in> local_bodies fs (inner tL @ inner tR) (leaves tL @ leaves tR) \<Longrightarrow> x \<noteq> root_page t \<Longrightarrow>
        x \<in> bn_page ` set path \<and> (x, b) \<in> local_bodies fs (inner t) (leaves t) \<or> stores m' x b"
    and "\<And>x b. (x, b) \<in> local_bodies fs (inner t) (leaves t) \<Longrightarrow> x \<in> bn_page ` set path \<Longrightarrow> x \<noteq> root_page t \<Longrightarrow>
        (x, b) \<in> local_bodies fs (inner tL @ inner tR) (leaves tL @ leaves tR)"
    and "bn_page left = root_page t" "node_ok V left" "bn_dirty left" "fits_page KC left"
  using assms by (simp_all add: split_done_def)

lemma workingD:
  assumes "working m U path T"
  shows "inv m" "pool_inv (pg m) U" "tree_ok T" "tree_pages T \<subseteq> U" "distinct (map bn_page path)"
    and "\<And>n. n \<in> set path \<Longrightarrow> (bn_page n, bn_body n) \<in> set (bodies T) \<and> node_ok V n \<and> (bn_dirty n \<or> stores m (bn_page n) (bn_body n))"
    and "\<And>p b. (p, b) \<in> set (bodies T) \<Longrightarrow> p \<in> bn_page ` set path \<or> stores m p b"
    and "\<And>p b. (p, b) \<in> set (bodies T) \<Longrightarrow> p \<in> U"
  using assms by (force simp: working_def tree_pages_def)+

lemma workingI:
  assumes "inv m" "pool_inv (pg m) U" "tree_ok T" "tree_pages T \<subseteq> U" "distinct (map bn_page path)"
    and "\<And>n. n \<in> set path \<Longrightarrow> (bn_page n, bn_body n) \<in> set (bodies T) \<and> node_ok V n \<and> (bn_dirty n \<or> stores m (bn_page n) (bn_body n))"
    and "\<And>p b. (p, b) \<in> set (bodies T) \<Longrightarrow> p \<in> bn_page ` set path \<or> stores m p b"
  shows "working m U path T"
  using assms by (simp add: working_def)

lemma page_sentinel: "inv m \<Longrightarrow> pool_inv (pg m) U \<Longrightarrow> p \<in> U \<Longrightarrow> p < NO_PAGE_SENTINEL"
  using page_count [of m] by (fastforce simp: pool_inv_def NO_PAGE_SENTINEL_def)

lemma inner_split_done:
  assumes w: "working m U path (plug fs (BNode p ss cs))" and fs: "\<forall>f \<in> set fs. frame_ok f" and len: "length cs = Suc (length ss)"
    and mid: "mid < length ss" and r: "r \<notin> U" "r < NO_PAGE_SENTINEL" and m': "inv m'" "pool_inv (pg m') (insert r U)" "length (pg m) \<le> length (pg m')"
      "\<And>x. x \<in> U \<Longrightarrow> pg m' ! x = pg m ! x" "stores m' r (InternalBody (drop (Suc mid) (zip ss (map root_page cs))) (root_page (last cs)))"
    and V: "V (ss ! mid)" and left: "bn_page left = p" "bn_body left = InternalBody (take mid (zip ss (map root_page cs))) (root_page (cs ! mid))"
      "node_ok V left" "bn_dirty left" "fits_page KC left"
  shows "split_done m U path fs (BNode p ss cs) \<lparr>pr_key = ss ! mid, pr_left_page = p, pr_right_page = r\<rparr> left m' (left_half mid p ss cs) (right_half mid r ss cs)"
proof -
  note W = workingD [OF w] and H = halves [OF len mid]
  let ?t = "BNode p ss cs" and ?tL = "left_half mid p ss cs" and ?tR = "right_half mid r ss cs"
  have leaves: "leaves ?tL @ leaves ?tR = leaves ?t" using H(2) [of p r] by simp
  have cs: "\<forall>c \<in> set cs. shaped c" using W(3) fs by (simp add: tree_ok_def shaped_plug)
  have shaped: "shaped ?tL" "shaped ?tR" using len mid cs by (auto simp: left_half_def right_half_def dest: in_set_takeD in_set_dropD)
  have entries: "tree_entries ?t = tree_entries ?tL @ tree_entries ?tR" using leaves by (simp only: tree_entries_def flip: leaves) simp
  have pages: "mset (map fst (bodies ?tL)) + mset (map fst (bodies ?tR)) = add_mset r (mset (map fst (bodies ?t)))"
    by (simp add: bodies_def H(3-5) leaves [symmetric] del: leaves.simps)
  have local: "local_bodies fs (inner ?tL @ inner ?tR) (leaves ?tL @ leaves ?tR) =
      {(p, bn_body left), (r, InternalBody (drop (Suc mid) (zip ss (map root_page cs))) (root_page (last cs)))} \<union>
      (set (concat (map inner cs)) \<union> set (chain None (lefts fs @ leaves ?t @ rights fs)))"
    unfolding leaves by (auto simp: local_bodies_def H(3-5) left(2))
  have old: "local_bodies fs (inner ?t) (leaves ?t) = {(p, InternalBody (zip ss (map root_page cs)) (root_page (last cs)))} \<union>
      (set (concat (map inner cs)) \<union> set (chain None (lefts fs @ leaves ?t @ rights fs)))"
    by (auto simp: local_bodies_def)
  have kept: "x \<in> bn_page ` set path \<and> (x, b) \<in> local_bodies fs (inner ?t) (leaves ?t) \<or> stores m' x b"
    if x: "(x, b) \<in> local_bodies fs (inner ?tL @ inner ?tR) (leaves ?tL @ leaves ?tR)" "x \<noteq> p" for x b
  proof (cases "(x, b) \<in> local_bodies fs (inner ?t) (leaves ?t)")
    case True
    then have T: "(x, b) \<in> set (bodies (plug fs ?t))" by (simp add: bodies_plug)
    have "stores m' x b" if s: "stores m x b" using W(8) [OF T] m'(3,4) by (intro stores_frame [OF s]) auto
    then show ?thesis using W(7) [OF T] True by blast
  next
    case False
    then have "x = r" "b = InternalBody (drop (Suc mid) (zip ss (map root_page cs))) (root_page (last cs))"
      using x unfolding local old by auto
    then show ?thesis using m'(5) by simp
  qed
  have roots: "root_page ?tL = p" "root_page ?tR = r" by (simp_all add: left_half_def right_half_def)
  show ?thesis
  proof (rule split_doneI)
    show "sorted (lo @ keyseq ?tL @ ss ! mid # keyseq ?tR @ hi)" if "sorted (lo @ keyseq ?t @ hi)" for lo hi
      using that unfolding H(1) [of p r] by simp
    show "(x, b) \<in> local_bodies fs (inner ?tL @ inner ?tR) (leaves ?tL @ leaves ?tR)"
      if "(x, b) \<in> local_bodies fs (inner ?t) (leaves ?t)" "x \<noteq> p" for x b
      using that unfolding local old by auto
    show "(p, bn_body left) \<in> local_bodies fs (inner ?tL @ inner ?tR) (leaves ?tL @ leaves ?tR)" unfolding local by simp
    show "fst ` set (leaves ?tL @ leaves ?tR) \<subseteq> insert r (fst ` set (leaves ?t))" unfolding leaves by blast
  qed (use r m' V left shaped entries pages kept roots in simp_all)
qed

lemma split_inner:
  assumes w: "working m U path (plug fs (BNode p ss cs))" and fs: "\<forall>f \<in> set fs. frame_ok f"
    and node: "node \<in> set path" "bn_page node = p"
  shows "(\<exists>e m'. split_node MA KC node m = (Err e, m') \<and> inv m') \<or>
    (\<exists>pr left m' tL tR. split_node MA KC node m = (Ok (pr, left), m') \<and> split_done m U path fs (BNode p ss cs) pr left m' tL tR)"
proof -
  note W = workingD [OF w]
  let ?es = "zip ss (map root_page cs)" and ?T = "plug fs (BNode p ss cs)"
  have shaped: "shaped (BNode p ss cs)" using W(3) fs by (simp add: tree_ok_def shaped_plug)
  then have len: "length cs = Suc (length ss)" by simp
  have mem: "(p, InternalBody ?es (root_page (last cs))) \<in> set (bodies ?T)" by (simp add: bodies_plug local_bodies_def)
  have body: "bn_body node = InternalBody ?es (root_page (last cs))"
    using W(6) [OF node(1)] mem W(3) node(2) by (auto simp: tree_ok_def dest: eq_key_imp_eq_value)
  have keys: "map fst ?es = ss" using len by (intro map_fst_zip_le) simp
  have ok: "node_ok V node" using W(6) [OF node(1)] by blast
  let ?sizes = "map (\<lambda>k. 2 + length (encode KC k) + 4) ss"
  have le11: "11 \<le> (65536 :: nat)" by simp
  show ?thesis
  proof (cases "\<exists>a b. entry_sizes (encode KC) (\<lambda>n. internal_entry_size_from_len n 65536) ss = Err (KeyTooLarge a b)")
    case True
    then show ?thesis using W(1) body keys by (auto simp: split_node_def page_size)
  next
    case False
    then have sizes: "entry_sizes (encode KC) (\<lambda>n. internal_entry_size_from_len n 65536) ss = Ok ?sizes" "\<forall>k \<in> set ss. key_fits (encode KC) 11 4 k"
      using entry_sizes_cases [of ss "encode KC" 11 4] by (auto simp: internal_entry_size_from_len_def INTERNAL_HEADER_SIZE_def)
    show ?thesis
    proof (cases rule: split_index_cases [OF le11, of ?sizes True])
      case (2 a b)
      then show ?thesis using W(1) body keys sizes(1) by (auto simp: split_node_def page_size INTERNAL_HEADER_SIZE_def)
    next
      case (1 mid)
      then have mid: "0 < mid" "mid + 1 < length ss" "sum_list (take mid ?sizes) \<le> 65536 - 11" "sum_list (drop (mid + 1) ?sizes) \<le> 65536 - 11"
        by (auto simp: good_split_def)
      have drop: "drop mid ?es = (ss ! mid, root_page (cs ! mid)) # drop (Suc mid) ?es" using mid len by (simp add: Cons_nth_drop_Suc [symmetric])
      let ?left = "node\<lparr>bn_body := InternalBody (take mid ?es) (root_page (cs ! mid)), bn_num_entries := as_u16 (length (take mid ?es)), bn_dirty := True\<rparr>"
      have "(ss ! mid, root_page (cs ! mid)) \<in> set ?es" using in_set_dropD [of "(ss ! mid, root_page (cs ! mid))" mid ?es] drop by simp
      then have bound: "V (ss ! mid)" "root_page (cs ! mid) < NO_PAGE_SENTINEL" "root_page (last cs) < NO_PAGE_SENTINEL"
          "\<forall>(k, q) \<in> set ?es. V k \<and> q < NO_PAGE_SENTINEL"
        using ok by (auto simp: node_ok_def body_ok_def body simp del: set_zip)
      have left: "node_ok V ?left" "fits_page KC ?left"
        using ok bound(2,4) sizes(2) mid(3) keys
        by (auto simp: node_ok_def body_ok_def body_len_def fits_internal entries_fit_def take_map simp flip: take_map dest: in_set_takeD)
      show ?thesis
      proof (cases rule: claim_cases [OF W(1,2)])
        case (2 e m')
        then show ?thesis using body keys sizes(1) 1(1) drop by (auto simp: split_node_def page_size INTERNAL_HEADER_SIZE_def)
      next
        case claimed: (1 r m1)
        let ?right = "\<lparr>bn_page = r, bn_parent_page = bn_parent_page node, bn_num_entries = as_u16 (length (drop (Suc mid) ?es)),
          bn_body = InternalBody (drop (Suc mid) ?es) (root_page (last cs)), bn_dirty = True\<rparr>"
        have right: "node_ok V ?right" "fits_page KC ?right"
          using ok bound(3,4) sizes(2) mid(4) keys
          by (auto simp: node_ok_def body_ok_def body_len_def fits_internal entries_fit_def drop_map simp flip: drop_map dest: in_set_dropD)
        obtain m2 c where f: "node_flush MA KC ?right m1 = (Ok (?right\<lparr>bn_dirty := False\<rparr>), m2)" "inv m2" "pool_inv (pg m2) (insert r U)"
          "pg m2 = (pg m1)[r := c]" "stores m2 r (InternalBody (drop (Suc mid) ?es) (root_page (last cs)))"
          using flush_ok [OF claimed(2,5) _ right] by auto
        let ?pr = "\<lparr>pr_key = ss ! mid, pr_left_page = p, pr_right_page = r\<rparr>"
        have run: "split_node MA KC node m = (Ok (?pr, ?left), m2)"
          using body keys sizes(1) 1(1) drop claimed(1) f(1) node(2) by (simp add: split_node_def page_size INTERNAL_HEADER_SIZE_def)
        have "split_done m U path fs (BNode p ss cs) ?pr ?left m2 (left_half mid p ss cs) (right_half mid r ss cs)"
        proof (rule inner_split_done [OF w fs len _ claimed(3,4) f(2,3) _ _ f(5) bound(1)])
          show "pg m2 ! x = pg m ! x" if "x \<in> U" for x using that claimed(3,7) f(4) by (cases "x = r") auto
        qed (use claimed(6) f(4) left node(2) mid(2) in simp_all)
        then show ?thesis using run by blast
      qed
    qed
  qed
qed

text \<open>The leaf after a split leaf gets its backward link set.\<close>

lemma relink_spec:
  assumes m: "inv m" and pool: "pool_inv (pg m) U" and r: "r < NO_PAGE_SENTINEL"
    and nxt: "\<And>q fs C. B = (q, fs) # C \<Longrightarrow> q \<in> U \<and> stores m q (LeafBody fs prev (first_link C))"
  shows "\<exists>m'. relink_next MA KC (first_link B) r m = (Ok (), m') \<and> inv m' \<and> pool_inv (pg m') U \<and> length (pg m') = length (pg m) \<and>
    (\<forall>x. first_link B \<noteq> Some x \<longrightarrow> pg m' ! x = pg m ! x) \<and> (\<forall>q fs C. B = (q, fs) # C \<longrightarrow> stores m' q (LeafBody fs (Some r) (first_link C)))"
proof (cases B)
  case Nil
  then show ?thesis using m pool by (simp add: relink_next_def first_link_def)
next
  case (Cons b C)
  obtain q fs where b: "b = (q, fs)" by (cases b)
  have q: "q \<in> U" "stores m q (LeafBody fs prev (first_link C))" using nxt Cons b by simp_all
  obtain n where n: "node_read MA KC q m = (Ok n, m)" "bn_page n = q" "bn_body n = LeafBody fs prev (first_link C)" "node_ok V n"
    using node_read_stores [OF m q(2)] by (elim exE conjE)
  let ?n = "n\<lparr>bn_body := LeafBody fs (Some r) (first_link C), bn_dirty := True\<rparr>"
  have "node_ok V ?n" using n(3,4) r by (auto simp: node_ok_def body_ok_def body_len_def)
  moreover have "fits_page KC ?n" using stores_fits [OF q(2) n(3)] fits_leaf [OF n(3)] by (simp add: fits_leaf)
  ultimately obtain m' c where f: "node_flush MA KC ?n m = (Ok (?n\<lparr>bn_dirty := False\<rparr>), m')" "inv m'" "pool_inv (pg m') U"
    "pg m' = (pg m)[q := c]" "stores m' q (LeafBody fs (Some r) (first_link C))"
    using flush_ok [OF m pool, of ?n] n(2) q(1) by auto
  then have "relink_next MA KC (first_link B) r m = (Ok (), m')" using n by (simp add: relink_next_def first_link_def Cons b)
  then show ?thesis using f by (intro exI [of _ m']) (simp add: Cons b first_link_def)
qed

lemma leaf_split_done:
  assumes w: "working m U path (plug fs (BLeaf p es))" and fs: "\<forall>f \<in> set fs. frame_ok f" and es: "es = es1 @ (k, a) # es2"
    and path: "\<And>q gs C. rights fs = (q, gs) # C \<Longrightarrow> q \<notin> bn_page ` set path"
    and r: "r \<notin> U" "r < NO_PAGE_SENTINEL" and m': "inv m'" "pool_inv (pg m') (insert r U)" "length (pg m) \<le> length (pg m')"
      "\<And>x. x \<in> U \<Longrightarrow> first_link (rights fs) \<noteq> Some x \<Longrightarrow> pg m' ! x = pg m ! x" "stores m' r (LeafBody ((k, a) # es2) (Some p) (first_link (rights fs)))"
      "\<And>q gs C. rights fs = (q, gs) # C \<Longrightarrow> stores m' q (LeafBody gs (Some r) (first_link C))"
    and V: "V k" and left: "bn_page left = p" "bn_body left = LeafBody es1 (last_link None (lefts fs)) (Some r)"
      "node_ok V left" "bn_dirty left" "fits_page KC left"
  shows "split_done m U path fs (BLeaf p es) \<lparr>pr_key = k, pr_left_page = p, pr_right_page = r\<rparr> left m' (BLeaf p es1) (BLeaf r ((k, a) # es2))"
proof -
  note W = workingD [OF w]
  let ?t = "BLeaf p es" and ?tL = "BLeaf p es1" and ?tR = "BLeaf r ((k, a) # es2)"
  let ?old = "chain None (lefts fs @ (p, es) # rights fs)" and ?new = "chain None (lefts fs @ (p, es1) # (r, (k, a) # es2) # rights fs)"
  have local: "local_bodies fs (inner ?tL @ inner ?tR) (leaves ?tL @ leaves ?tR) = set ?new" "local_bodies fs (inner ?t) (leaves ?t) = set ?old"
    by (simp_all add: local_bodies_def)
  have shaped: "shaped ?t" using W(3) fs by (simp add: tree_ok_def shaped_plug)
  have distinct: "distinct (map fst (bodies (plug fs ?t)))" using W(3) by (simp add: tree_ok_def)
  have sub: "set ?old \<subseteq> set (bodies (plug fs ?t))" by (auto simp: bodies_plug local_bodies_def)
  have pU: "p \<in> U" using W(8) chain_focus [of p es None "lefts fs" "rights fs"] sub by blast
  have in_new: "(p, bn_body left) \<in> set ?new" "(r, LeafBody ((k, a) # es2) (Some p) (first_link (rights fs))) \<in> set ?new"
    using chain_focus [of p es1 None "lefts fs" "(r, (k, a) # es2) # rights fs"] chain_focus [of r "(k, a) # es2" None "lefts fs @ [(p, es1)]" "rights fs"]
    by (simp_all add: left(2) first_link_def last_link_def)
  have old_pages: "fst ` set ?old \<subseteq> U" using sub W(8) by fastforce
  have "mset (map fst (bodies (plug fs ?t))) = mset (map fst (inner (plug fs ?t))) + mset (map fst ?old)" by (simp add: bodies_def leaves_plug)
  then have "distinct (map fst (lefts fs @ (p, es) # rights fs))" using distinct by (simp add: bodies_def leaves_plug)
  then have new_pages: "distinct (map fst ?new)"
    using r(1) old_pages by (auto simp flip: set_map)
  have kept: "x \<in> bn_page ` set path \<and> (x, b) \<in> set ?old \<or> stores m' x b" if x: "(x, b) \<in> set ?new" "x \<noteq> p" for x b
  proof -
    consider (right) "x = r" | (follow) "first_link (rights fs) = Some x" "x \<noteq> r" | (other) "x \<noteq> r" "first_link (rights fs) \<noteq> Some x" by blast
    then show ?thesis
    proof cases
      case right
      then have "b = LeafBody ((k, a) # es2) (Some p) (first_link (rights fs))" using x(1) in_new(2) new_pages by (metis eq_key_imp_eq_value)
      then show ?thesis using right m'(5) by simp
    next
      case follow
      then obtain gs C where C: "rights fs = (x, gs) # C" by (cases "rights fs") (auto simp: first_link_def)
      then have "(x, LeafBody gs (Some r) (first_link C)) \<in> set ?new"
        using chain_focus [of x gs None "lefts fs @ [(p, es1), (r, (k, a) # es2)]" C] by (simp add: last_link_def)
      then have "b = LeafBody gs (Some r) (first_link C)" using x(1) new_pages by (metis eq_key_imp_eq_value)
      then show ?thesis using m'(6) [OF C] by simp
    next
      case other
      then have old: "(x, b) \<in> set ?old" using chain_split [OF x(2), of r "rights fs" b None "lefts fs"] x(1) by blast
      then have T: "(x, b) \<in> set (bodies (plug fs ?t))" using sub by blast
      have "stores m' x b" if s: "stores m x b" using W(8) [OF T] m'(3,4) other(2) by (intro stores_frame [OF s]) auto
      then show ?thesis using W(7) [OF T] old by blast
    qed
  qed
  show ?thesis
  proof (rule split_doneI)
    show "sorted (lo @ keyseq ?tL @ k # keyseq ?tR @ hi)" if "sorted (lo @ keyseq ?t @ hi)" for lo hi
      using that by (auto simp: es sorted_append)
    show "pg m' ! x = pg m ! x" if "x \<in> U" "x \<notin> fst ` local_bodies fs (inner ?t) (leaves ?t) \<or> x \<in> bn_page ` set path" for x
    proof (rule m'(4) [OF that(1)])
      show "first_link (rights fs) \<noteq> Some x"
      proof
        assume "first_link (rights fs) = Some x"
        then obtain gs C where C: "rights fs = (x, gs) # C" by (cases "rights fs") (auto simp: first_link_def)
        then have "x \<in> fst ` set ?old" by (simp flip: set_map)
        then show False using that(2) path [OF C] unfolding local by blast
      qed
    qed
    show "(x, b) \<in> local_bodies fs (inner ?tL @ inner ?tR) (leaves ?tL @ leaves ?tR)"
      if "(x, b) \<in> local_bodies fs (inner ?t) (leaves ?t)" "x \<noteq> p" "x \<in> bn_page ` set path" for x b
    proof -
      have "x \<noteq> r" using that(1) old_pages r(1) unfolding local by force
      moreover have "first_link (rights fs) \<noteq> Some x" using path that(3) by (cases "rights fs") (auto simp: first_link_def)
      ultimately show ?thesis using that(1) chain_split [OF that(2), of r "rights fs" b None "lefts fs"] unfolding local by blast
    qed
    show "(p, bn_body left) \<in> local_bodies fs (inner ?tL @ inner ?tR) (leaves ?tL @ leaves ?tR)" unfolding local by (rule in_new(1))
    show "x \<in> bn_page ` set path \<and> (x, b) \<in> local_bodies fs (inner ?t) (leaves ?t) \<or> stores m' x b"
      if "(x, b) \<in> local_bodies fs (inner ?tL @ inner ?tR) (leaves ?tL @ leaves ?tR)" "x \<noteq> p" for x b
      using that unfolding local by (rule kept)
    show "shaped ?tL" "shaped ?tR" using shaped by (simp_all add: es sorted_wrt_append)
  qed (use r m' V left in \<open>simp_all add: tree_entries_def es bodies_def\<close>)
qed

lemma split_leaf:
  assumes w: "working m U path (plug fs (BLeaf p es))" and fs: "\<forall>f \<in> set fs. frame_ok f"
    and node: "node \<in> set path" "bn_page node = p" and path: "\<And>q gs C. rights fs = (q, gs) # C \<Longrightarrow> q \<notin> bn_page ` set path"
  shows "(\<exists>e m'. split_node MA KC node m = (Err e, m') \<and> inv m') \<or>
    (\<exists>pr left m' tL tR. split_node MA KC node m = (Ok (pr, left), m') \<and> split_done m U path fs (BLeaf p es) pr left m' tL tR)"
proof -
  note W = workingD [OF w]
  let ?T = "plug fs (BLeaf p es)" and ?nxt = "first_link (rights fs)" and ?prev = "last_link None (lefts fs)"
  have sub: "(x, b) \<in> set (bodies ?T)" if "(x, b) \<in> set (chain None (lefts fs @ (p, es) # rights fs))" for x b
    using that by (simp add: bodies_plug local_bodies_def)
  have mem: "(p, LeafBody es ?prev ?nxt) \<in> set (bodies ?T)" using chain_focus by (rule sub)
  then have body: "bn_body node = LeafBody es ?prev ?nxt"
    using W(6) [OF node(1)] W(3) node(2) by (auto simp: tree_ok_def dest: eq_key_imp_eq_value)
  have ok: "node_ok V node" using W(6) [OF node(1)] by blast
  let ?sizes = "map (\<lambda>k. 2 + length (encode KC k) + 6) (map fst es)"
  have le15: "15 \<le> (65536 :: nat)" by simp
  show ?thesis
  proof (cases "\<exists>a b. entry_sizes (encode KC) (\<lambda>n. leaf_entry_size_from_len n 65536) (map fst es) = Err (KeyTooLarge a b)")
    case True
    then show ?thesis using W(1) body by (auto simp: split_node_def page_size)
  next
    case False
    then have sizes: "entry_sizes (encode KC) (\<lambda>n. leaf_entry_size_from_len n 65536) (map fst es) = Ok ?sizes" "\<forall>k \<in> set (map fst es). key_fits (encode KC) 15 6 k"
      using entry_sizes_cases [of "map fst es" "encode KC" 15 6] by (auto simp: leaf_entry_size_from_len_def LEAF_HEADER_SIZE_def RECORD_POINTER_SIZE_def)
    show ?thesis
    proof (cases rule: split_index_cases [OF le15, of ?sizes False])
      case (2 a b)
      then show ?thesis using W(1) body sizes(1) by (auto simp: split_node_def page_size LEAF_HEADER_SIZE_def)
    next
      case (1 i)
      then have i: "0 < i" "i < length es" "sum_list (take i ?sizes) \<le> 65536 - 15" "sum_list (drop i ?sizes) \<le> 65536 - 15"
        by (auto simp: good_split_def)
      obtain k a es2 where drop: "drop i es = (k, a) # es2" using i(2) by (cases "drop i es") auto
      have es: "es = take i es @ (k, a) # es2" using append_take_drop_id [of i es] drop by simp
      have bound: "\<forall>(k, a) \<in> set es. V k \<and> ra_wf a" "link_ok ?prev" "link_ok ?nxt" using ok by (auto simp: node_ok_def body_ok_def body)
      have "V k" using bound(1) in_set_dropD [of "(k, a)" i es] drop by auto
      show ?thesis
      proof (cases rule: claim_cases [OF W(1,2)])
        case (2 e m')
        then show ?thesis using body sizes(1) 1(1) drop by (auto simp: split_node_def page_size LEAF_HEADER_SIZE_def)
      next
        case claimed: (1 r m1)
        have nxt: "q \<in> U \<and> stores m1 q (LeafBody gs (Some p) (first_link C))" if C: "rights fs = (q, gs) # C" for q gs C
        proof -
          have T: "(q, LeafBody gs (Some p) (first_link C)) \<in> set (bodies ?T)"
            using chain_focus [of q gs None "lefts fs @ [(p, es)]" C] by (intro sub) (simp add: C last_link_def)
          then have "stores m q (LeafBody gs (Some p) (first_link C))" using W(7) path [OF C] by blast
          then show ?thesis using claimed(6,7) W(8) [OF T] by (auto intro: stores_frame [of m])
        qed
        obtain m2 where m2: "relink_next MA KC ?nxt r m1 = (Ok (), m2)" "inv m2" "pool_inv (pg m2) (insert r U)" "length (pg m2) = length (pg m1)"
          "\<forall>x. ?nxt \<noteq> Some x \<longrightarrow> pg m2 ! x = pg m1 ! x" "\<forall>q gs C. rights fs = (q, gs) # C \<longrightarrow> stores m2 q (LeafBody gs (Some r) (first_link C))"
          using relink_spec [OF claimed(2,5,4), of "rights fs" "Some p"] nxt by blast
        let ?right = "\<lparr>bn_page = r, bn_parent_page = bn_parent_page node, bn_num_entries = as_u16 (length (drop i es)),
          bn_body = LeafBody (drop i es) (Some p) ?nxt, bn_dirty = True\<rparr>"
        let ?left = "node\<lparr>bn_body := LeafBody (take i es) ?prev (Some r), bn_num_entries := as_u16 (length (take i es)), bn_dirty := True\<rparr>"
        have p: "p < NO_PAGE_SENTINEL" using page_sentinel [OF W(1,2) W(8) [OF mem]] .
        have left: "node_ok V ?left" "fits_page KC ?left"
          using ok bound claimed(4) entries_fit_take [OF sizes(2) le15 i(3)]
          by (auto simp: node_ok_def body_ok_def body_len_def fits_leaf take_map dest: in_set_takeD)
        have right: "node_ok V ?right" "fits_page KC ?right"
          using ok bound p entries_fit_drop [OF sizes(2) le15 i(4)]
          by (auto simp: node_ok_def body_ok_def body_len_def fits_leaf drop_map dest: in_set_dropD)
        obtain m3 c where f: "node_flush MA KC ?right m2 = (Ok (?right\<lparr>bn_dirty := False\<rparr>), m3)" "inv m3" "pool_inv (pg m3) (insert r U)"
          "pg m3 = (pg m2)[r := c]" "stores m3 r (LeafBody (drop i es) (Some p) ?nxt)"
          using flush_ok [OF m2(2,3) _ right] by auto
        have run: "split_node MA KC node m = (Ok (\<lparr>pr_key = k, pr_left_page = p, pr_right_page = r\<rparr>, ?left), m3)"
          using body sizes(1) 1(1) drop claimed(1) m2(1) f(1) node(2) by (simp add: split_node_def page_size LEAF_HEADER_SIZE_def)
        have "split_done m U path fs (BLeaf p es) \<lparr>pr_key = k, pr_left_page = p, pr_right_page = r\<rparr> ?left m3 (BLeaf p (take i es)) (BLeaf r ((k, a) # es2))"
        proof (rule leaf_split_done [OF w fs es path claimed(3,4) f(2,3) _ _ f(5) [unfolded drop] _ \<open>V k\<close>])
          show "pg m3 ! x = pg m ! x" if "x \<in> U" "?nxt \<noteq> Some x" for x using that claimed(3,7) m2(5) f(4) by (cases "x = r") auto
          show "stores m3 q (LeafBody gs (Some r) (first_link C))" if C: "rights fs = (q, gs) # C" for q gs C
          proof -
            have "q \<noteq> r" using nxt [OF C] claimed(3) by blast
            moreover have s: "stores m2 q (LeafBody gs (Some r) (first_link C))" using m2(6) C by blast
            ultimately show ?thesis by (intro stores_frame [OF s]) (simp_all add: f(4))
          qed
        qed (use claimed(6) m2(4) f(4) left node(2) in simp_all)
        then show ?thesis using run by blast
      qed
    qed
  qed
qed

text \<open>The tree after a split: the part around the split node is as it was.\<close>

lemma grown_tree:
  assumes w: "working m U path (plug (fs @ [f]) t)" and fs: "\<forall>f \<in> set (fs @ [f]). frame_ok f"
    and sd: "split_done m U path (fs @ [f]) t pr left m' tL tR"
  defines "T' \<equiv> plug fs (grown f (pr_key pr) tL tR)"
  shows "tree_ok T'" and "tree_pages T' = insert (pr_right_page pr) (tree_pages (plug (fs @ [f]) t))" and "tree_entries T' = tree_entries (plug (fs @ [f]) t)"
    and "set (bodies T') = set (spine fs (fpage f)) \<union> set (side (fs @ [f])) \<union>
      insert (fpage f, InternalBody (zip (fsl f @ pr_key pr # fsr f) (map root_page (fcl f) @ root_page t # pr_right_page pr # map root_page (fcr f)))
        (last (pr_right_page pr # map root_page (fcr f))))
      (local_bodies (fs @ [f]) (inner tL @ inner tR) (leaves tL @ leaves tR))"
    and "set (bodies (plug (fs @ [f]) t)) = set (spine fs (fpage f)) \<union> set (side (fs @ [f])) \<union>
      insert (fpage f, frame_body f (root_page t)) (local_bodies (fs @ [f]) (inner t) (leaves t))"
proof -
  note W = workingD [OF w] and S = split_doneD [OF sd]
  let ?k = "pr_key pr" and ?r = "pr_right_page pr"
  have f: "length (map keyseq (fcl f)) = length (fsl f)" "length (map keyseq (fcr f)) = length (fsr f)" "\<forall>c \<in> set (fcl f @ fcr f). shaped c"
    using fs by (simp_all add: frame_ok_def)
  have fs': "\<forall>f \<in> set fs. frame_ok f" using fs by simp
  have keys: "keyseq (grown f ?k tL tR) = before (map keyseq (fcl f)) (fsl f) @ keyseq tL @ ?k # keyseq tR @ after (fsr f) (map keyseq (fcr f))"
    using interleave_focus [OF f(1), of "keyseq tR # map keyseq (fcr f)" "?k # fsr f" "keyseq tL"] f(2) by (simp add: grown_def after_def)
  have "sorted (lower fs @ keyseq (grown f ?k tL tR) @ upper fs)"
    using S(14) [of "lower fs @ before (map keyseq (fcl f)) (fsl f)" "after (fsr f) (map keyseq (fcr f)) @ upper fs"] W(3)
      keyseq_plug [OF fs, of t] keyseq_plug [OF fs', of "plug1 f t"] interleave_focus [OF f(1,2), of "keyseq t"]
    by (simp add: keys tree_ok_def plug_snoc plug1_def)
  moreover have "shaped (grown f ?k tL tR)" using S(11,12) f by (auto simp: grown_def)
  moreover have "mset (map fst (bodies (grown f ?k tL tR))) = mset ([?r] @ map fst (bodies (plug1 f t)))"
    using S(15) by (simp add: grown_def plug1_def bodies_def ac_simps)
  moreover have "set [?r] \<inter> tree_pages (plug fs (plug1 f t)) = {}" using S(2) W(4) by (auto simp: plug_snoc)
  ultimately show "tree_ok T'" "tree_pages T' = insert ?r (tree_pages (plug (fs @ [f]) t))"
    using tree_ok_replace [of fs "plug1 f t" "grown f ?k tL tR" "[?r]"] W(3) fs' by (simp_all add: T'_def plug_snoc)
  have leaves: "leaves (grown f ?k tL tR) = concat (map leaves (fcl f)) @ (leaves tL @ leaves tR) @ concat (map leaves (fcr f))" by (simp add: grown_def)
  show "tree_entries T' = tree_entries (plug (fs @ [f]) t)"
    unfolding T'_def entries_plug lefts_snoc rights_snoc using S(13) by (simp add: tree_entries_def leaves)
  have "inner (grown f ?k tL tR) = (fpage f, InternalBody (zip (fsl f @ ?k # fsr f) (map root_page (fcl f) @ root_page t # ?r # map root_page (fcr f)))
        (last (?r # map root_page (fcr f)))) # concat (map inner (fcl f)) @ (inner tL @ inner tR) @ concat (map inner (fcr f))"
    using S(8,10) by (simp add: grown_def last_map)
  then show "set (bodies T') = set (spine fs (fpage f)) \<union> set (side (fs @ [f])) \<union>
      insert (fpage f, InternalBody (zip (fsl f @ ?k # fsr f) (map root_page (fcl f) @ root_page t # ?r # map root_page (fcr f)))
        (last (?r # map root_page (fcr f))))
      (local_bodies (fs @ [f]) (inner tL @ inner tR) (leaves tL @ leaves tR))"
    unfolding T'_def bodies_plug local_bodies_def leaves by (auto simp: side_snoc lefts_snoc rights_snoc grown_def)
  show "set (bodies (plug (fs @ [f]) t)) = set (spine fs (fpage f)) \<union> set (side (fs @ [f])) \<union>
      insert (fpage f, frame_body f (root_page t)) (local_bodies (fs @ [f]) (inner t) (leaves t))"
    unfolding bodies_plug spine_snoc by auto
qed

lemma promote_step:
  assumes w: "working m U path (plug (fs @ [f]) t)" and fs: "\<forall>f \<in> set (fs @ [f]). frame_ok f"
    and sd: "split_done m U path (fs @ [f]) t pr left m' tL tR"
    and i: "Suc j < length path" and pages: "bn_page (path ! Suc j) = root_page t" "bn_page (path ! j) = fpage f"
  shows "\<exists>parent. promote_into_internal (path ! j) pr = Ok parent \<and> bn_page parent = fpage f \<and>
    working m' (insert (pr_right_page pr) U) (path[Suc j := left, j := parent]) (plug fs (grown f (pr_key pr) tL tR))"
proof -
  note W = workingD [OF w] and S = split_doneD [OF sd] and G = grown_tree [OF w fs sd]
  let ?k = "pr_key pr" and ?r = "pr_right_page pr" and ?p = "root_page t" and ?T = "plug (fs @ [f]) t" and ?P = "path ! j"
  let ?T' = "plug fs (grown f ?k tL tR)" and ?rl = "map root_page (fcl f)" and ?rr = "map root_page (fcr f)"
  let ?body = "InternalBody (zip (fsl f @ ?k # fsr f) (?rl @ ?p # ?r # ?rr)) (last (?r # ?rr))"
  let ?parent = "?P\<lparr>bn_body := ?body, bn_num_entries := as_u16 (body_len ?body), bn_dirty := True\<rparr>"
  have f: "length ?rl = length (fsl f)" "length ?rr = length (fsr f)" using fs by (simp_all add: frame_ok_def)
  have distinct: "distinct (map fst (bodies ?T))" using W(3) by (simp add: tree_ok_def)
  have P: "?P \<in> set path" "node_ok V ?P" "(fpage f, bn_body ?P) \<in> set (bodies ?T)" using W(6) [of ?P] i pages(2) by auto
  have body: "bn_body ?P = frame_body f ?p" using P(3) G(5) distinct by (metis UnCI eq_key_imp_eq_value insertI1)
  have "distinct (map fst (bodies (plug1 f t)))" using distinct_plug distinct by (simp add: plug_snoc)
  then have roots: "distinct (?rl @ ?p # ?rr)" unfolding plug1_def by (drule_tac distinct_roots) simp
  have "pr = \<lparr>pr_key = ?k, pr_left_page = ?p, pr_right_page = ?r\<rparr>" using S(9) by simp
  then have promote: "promote_into_internal ?P pr = Ok ?parent"
    using promoted_body_spec [OF f roots, of ?k ?r] by (simp add: promote_into_internal_def body frame_body_def)
  have sentinel: "q < NO_PAGE_SENTINEL" if "q \<in> set (?rl @ ?p # ?r # ?rr)" for q
  proof (cases "q = ?r")
    case False
    then have "q \<in> tree_pages (plug1 f t)" using that root_in_pages by (fastforce simp: plug1_def tree_pages_BNode)
    then have "q \<in> U" using tree_pages_plug [of "plug1 f t" fs] W(4) by (auto simp: plug_snoc)
    then show ?thesis using page_sentinel [OF W(1,2)] by blast
  qed (use S(3) in simp)
  have "map fst (zip (fsl f @ fsr f) (?rl @ ?p # ?rr)) = fsl f @ fsr f" using f by (intro map_fst_zip_le) simp
  moreover have "\<forall>k \<in> set (map fst (zip (fsl f @ fsr f) (?rl @ ?p # ?rr))). V k"
    using P(2) unfolding node_ok_def body_ok_def body frame_body_def by auto
  ultimately have "\<forall>k \<in> set (fsl f @ fsr f). V k" by simp
  then have "V k" if "k \<in> set (fsl f @ ?k # fsr f)" for k using that S(6) by auto
  then have parent: "node_ok V ?parent"
    using P(2) sentinel last_in_set [of "?r # ?rr"] by (auto simp: node_ok_def body_ok_def dest: set_zip_leftD set_zip_rightD)
  have "working m' (insert ?r U) (path[Suc j := left, j := ?parent]) ?T'"
  proof (rule workingI [OF S(1,4) G(1)])
    show "tree_pages ?T' \<subseteq> insert ?r U" using G(2) W(4) by auto
    have same: "map bn_page (path[Suc j := left, j := ?parent]) = map bn_page path"
      by (rule nth_equalityI) (use S(20) pages i in \<open>auto simp: nth_list_update\<close>)
    then show "distinct (map bn_page (path[Suc j := left, j := ?parent]))" using W(5) by simp
    have kept: "stores m' x b" if "stores m x b" "(x, b) \<in> set (bodies ?T)" "x \<notin> fst ` local_bodies (fs @ [f]) (inner t) (leaves t) \<or> x \<in> bn_page ` set path" for x b
      using S(5) S(7) [OF W(8) [OF that(2)] that(3)] by (intro stores_frame [OF that(1)])
    show "(bn_page n, bn_body n) \<in> set (bodies ?T') \<and> node_ok V n \<and> (bn_dirty n \<or> stores m' (bn_page n) (bn_body n))"
      if n: "n \<in> set (path[Suc j := left, j := ?parent])" for n
    proof -
      obtain l where l: "l < length path" "n = path[Suc j := left, j := ?parent] ! l" using n by (auto simp: in_set_conv_nth)
      consider "l = j" | "l = Suc j" | "l \<noteq> j" "l \<noteq> Suc j" by blast
      then show ?thesis
      proof cases
        case 1
        then show ?thesis using l i parent pages(2) G(4) by simp
      next
        case 2
        then show ?thesis using l i S(17,20,21,22) G(4) by simp
      next
        case 3
        then have n: "n = path ! l" "n \<in> set path" using l by simp_all
        have ne: "bn_page n \<noteq> ?p" "bn_page n \<noteq> fpage f"
          using W(5) 3 l(1) i pages unfolding n(1) by (metis length_map nth_eq_iff_index_eq nth_map Suc_lessD)+
        then have "(bn_page n, bn_body n) \<in> set (bodies ?T')" using W(6) [OF n(2)] S(19) [of "bn_page n" "bn_body n"] n(2) unfolding G(4) G(5) by blast
        then show ?thesis using W(6) [OF n(2)] kept n(2) by blast
      qed
    qed
    show "x \<in> bn_page ` set (path[Suc j := left, j := ?parent]) \<or> stores m' x b" if x: "(x, b) \<in> set (bodies ?T')" for x b
    proof -
      have pg: "bn_page ` set (path[Suc j := left, j := ?parent]) = bn_page ` set path" using same by (metis list.set_map)
      consider "(x, b) \<in> set (spine fs (fpage f)) \<union> set (side (fs @ [f]))" | "x = fpage f" | "x = ?p"
        | "(x, b) \<in> local_bodies (fs @ [f]) (inner tL @ inner tR) (leaves tL @ leaves tR)" "x \<noteq> ?p"
        using x unfolding G(4) by blast
      then show ?thesis
      proof cases
        case 1
        then have T: "(x, b) \<in> set (bodies ?T)" unfolding G(5) by blast
        have "x \<in> set (map fst (spine fs (fpage f))) \<union> fst ` set (side (fs @ [f]))" using 1 by (metis UnE UnI1 UnI2 fst_conv image_eqI list.set_map)
        then have "x \<in> set (map fpage (fs @ [f])) \<union> fst ` set (side (fs @ [f]))" by auto
        then show ?thesis using context_disjoint [OF distinct] W(7) [OF T] kept [OF _ T] unfolding pg by blast
      next
        case 2
        then show ?thesis using P(1) pages(2) unfolding pg by (metis image_eqI)
      next
        case 3
        then show ?thesis using pages(1) i unfolding pg by (metis image_eqI nth_mem)
      next
        case 4
        then show ?thesis using S(18) unfolding pg by blast
      qed
    qed
  qed
  then show ?thesis using promote pages(2) by auto
qed

text \<open>A split root gets a new root above it.\<close>

lemma fits_cong: "bn_body n = bn_body n' \<Longrightarrow> fits_page KC n = fits_page KC n'"
  by (cases "bn_body n'") (simp_all add: fits_leaf fits_internal)

lemma new_root_tree:
  assumes w: "working m U path t" and sd: "split_done m U path [] t pr left m' tL tR" and nr: "nr \<notin> insert (pr_right_page pr) U"
  defines "T' \<equiv> BNode nr [pr_key pr] [tL, tR]"
  shows "tree_ok T'" and "tree_pages T' = insert nr (insert (pr_right_page pr) (tree_pages t))" and "tree_entries T' = tree_entries t"
    and "set (bodies T') = insert (nr, InternalBody [(pr_key pr, root_page t)] (pr_right_page pr)) (local_bodies [] (inner tL @ inner tR) (leaves tL @ leaves tR))"
proof -
  note W = workingD [OF w] and S = split_doneD [OF sd]
  have ms: "mset (map fst (bodies T')) = mset (nr # pr_right_page pr # map fst (bodies t))"
    using S(15) by (simp add: T'_def bodies_def ac_simps)
  show "tree_pages T' = insert nr (insert (pr_right_page pr) (tree_pages t))" using mset_eq_setD [OF ms] by (simp add: tree_pages_def)
  have "distinct (nr # pr_right_page pr # map fst (bodies t))"
    using nr S(2) W(3,4) by (auto simp: tree_ok_def tree_pages_def)
  then have "distinct (map fst (bodies T'))" using mset_eq_imp_distinct_iff [OF ms] by blast
  moreover have "sorted (keyseq T')" using S(14) [of "[]" "[]"] W(3) by (simp add: T'_def tree_ok_def)
  ultimately show "tree_ok T'" using S(11,12) by (simp add: tree_ok_def T'_def)
  show "tree_entries T' = tree_entries t" using S(13) by (simp add: T'_def tree_entries_BNode)
  show "set (bodies T') = insert (nr, InternalBody [(pr_key pr, root_page t)] (pr_right_page pr)) (local_bodies [] (inner tL @ inner tR) (leaves tL @ leaves tR))"
    using S(8,10) by (simp add: T'_def bodies_def local_bodies_def Un_assoc)
qed

lemma root_step:
  assumes w: "working m U path t" and sd: "split_done m U path [] t pr left m' tL tR"
    and path: "0 < length path" "bn_page (path ! 0) = root_page t" and nr: "nr \<notin> insert (pr_right_page pr) U" "nr < NO_PAGE_SENTINEL"
    and m'': "inv m''" "pool_inv (pg m'') (insert nr (insert (pr_right_page pr) U))" "length (pg m') \<le> length (pg m'')"
      "\<And>x. x \<in> insert (pr_right_page pr) U \<Longrightarrow> pg m'' ! x = pg m' ! x" "stores m'' nr (InternalBody [(pr_key pr, root_page t)] (pr_right_page pr))"
  shows "working m'' (insert nr (insert (pr_right_page pr) U)) (path[0 := left\<lparr>bn_parent_page := Some nr, bn_dirty := True\<rparr>]) (BNode nr [pr_key pr] [tL, tR])"
proof -
  note W = workingD [OF w] and S = split_doneD [OF sd] and G = new_root_tree [OF w sd nr(1)]
  let ?left = "left\<lparr>bn_parent_page := Some nr, bn_dirty := True\<rparr>" and ?T' = "BNode nr [pr_key pr] [tL, tR]" and ?p = "root_page t"
  let ?L = "local_bodies [] (inner t) (leaves t)" and ?L' = "local_bodies [] (inner tL @ inner tR) (leaves tL @ leaves tR)"
  have T: "set (bodies t) = ?L" by (simp add: bodies_def local_bodies_def)
  have same: "map bn_page (path[0 := ?left]) = map bn_page path"
    by (rule nth_equalityI) (use S(20) path in \<open>auto simp: nth_list_update\<close>)
  then have pg: "bn_page ` set (path[0 := ?left]) = bn_page ` set path" by (metis list.set_map)
  have frame: "stores m'' x b" if "stores m' x b" "x \<in> insert (pr_right_page pr) U" for x b using m''(3,4) that(2) by (intro stores_frame [OF that(1)])
  have new: "x \<in> insert (pr_right_page pr) U" if "(x, b) \<in> ?L'" for x b
  proof -
    have "fst ` ?L' \<subseteq> set (map fst (bodies tL)) \<union> set (map fst (bodies tR))"
      unfolding local_bodies_def image_Un fst_set_chain by (auto simp: bodies_def image_Un fst_set_chain)
    also have "\<dots> = insert (pr_right_page pr) (tree_pages t)" using arg_cong [OF S(15), of set_mset] by (simp add: tree_pages_def)
    finally show ?thesis using that W(4) by force
  qed
  show ?thesis
  proof (rule workingI [OF m''(1,2) G(1)])
    show "tree_pages ?T' \<subseteq> insert nr (insert (pr_right_page pr) U)" using G(2) W(4) by auto
    show "distinct (map bn_page (path[0 := ?left]))" using W(5) same by simp
    show "(bn_page n, bn_body n) \<in> set (bodies ?T') \<and> node_ok V n \<and> (bn_dirty n \<or> stores m'' (bn_page n) (bn_body n))"
      if n: "n \<in> set (path[0 := ?left])" for n
    proof -
      obtain l where l: "l < length path" "n = path[0 := ?left] ! l" using n by (auto simp: in_set_conv_nth)
      show ?thesis
      proof (cases "l = 0")
        case True
        have "node_ok V ?left" using S(21) nr(2) by (simp add: node_ok_def)
        then show ?thesis using True l S(17,20) unfolding G(4) by simp
      next
        case False
        then have n: "n = path ! l" "n \<in> set path" using l by simp_all
        have ne: "bn_page n \<noteq> ?p" using W(5) False l(1) path unfolding n(1) by (metis length_map nth_eq_iff_index_eq nth_map)
        note old = W(6) [OF n(2), unfolded T]
        have x: "bn_page n \<in> U" using W(8) W(6) [OF n(2)] by blast
        have "stores m'' (bn_page n) (bn_body n)" if "stores m (bn_page n) (bn_body n)"
          using S(5) S(7) [OF x] n(2) x by (intro frame stores_frame [OF that]) auto
        then show ?thesis using old S(19) [of "bn_page n" "bn_body n"] ne n(2) unfolding G(4) by blast
      qed
    qed
    show "x \<in> bn_page ` set (path[0 := ?left]) \<or> stores m'' x b" if x: "(x, b) \<in> set (bodies ?T')" for x b
    proof -
      consider "x = nr" "b = InternalBody [(pr_key pr, ?p)] (pr_right_page pr)" | "x = ?p" | "(x, b) \<in> ?L'" "x \<noteq> ?p" using x unfolding G(4) by blast
      then show ?thesis
      proof cases
        case 1
        then show ?thesis using m''(5) by simp
      next
        case 2
        then show ?thesis using path unfolding pg by (metis image_eqI nth_mem)
      next
        case 3
        then show ?thesis using S(18) [OF 3] frame new unfolding pg by blast
      qed
    qed
  qed
qed

section \<open>The loop over the path\<close>

text \<open>The first \<open>n\<close> nodes of the path are the way from the root to a node of the tree.\<close>

definition on_path :: "'k btree \<Rightarrow> nat \<Rightarrow> 'k btree_node list \<Rightarrow> bool" where
  "on_path T n path \<longleftrightarrow> n = 0 \<or> (\<exists>fs t. T = plug fs t \<and> (\<forall>f \<in> set fs. frame_ok f) \<and> Suc (length fs) = n \<and>
     map fpage fs @ [root_page t] = map bn_page (take n path))"

text \<open>The only leaf of the path is its last node.\<close>

definition one_leaf :: "'k btree \<Rightarrow> 'k btree_node list \<Rightarrow> bool" where
  "one_leaf T path \<longleftrightarrow> (\<forall>q \<in> fst ` set (leaves T). q \<in> bn_page ` set path \<longrightarrow> q = bn_page (last path))"

definition path_state :: "'m \<Rightarrow> nat set \<Rightarrow> 'k btree_node list \<Rightarrow> 'k btree \<Rightarrow> nat \<Rightarrow> bool" where
  "path_state m U path T n \<longleftrightarrow> working m U path T \<and> n \<le> length path \<and> path \<noteq> [] \<and> on_path T n path \<and> one_leaf T path \<and>
     (\<forall>j. n \<le> j \<longrightarrow> j < length path \<longrightarrow> fits_page KC (path ! j))"

text \<open>The new pages are the ones claimed, and pages of others are untouched.\<close>

definition grew :: "'m \<Rightarrow> nat set \<Rightarrow> 'k btree \<Rightarrow> 'm \<Rightarrow> nat set \<Rightarrow> 'k btree \<Rightarrow> bool" where
  "grew m U T m' U' T' \<longleftrightarrow> tree_entries T' = tree_entries T \<and> U \<subseteq> U' \<and> tree_pages T' = tree_pages T \<union> (U' - U) \<and>
     (\<forall>x \<in> U - tree_pages T. pg m' ! x = pg m ! x)"

lemma grew_refl: "grew m U T m U T"
  by (simp add: grew_def)

lemma grew_trans: "grew m U T m' U' T' \<Longrightarrow> grew m' U' T' m'' U'' T'' \<Longrightarrow> tree_pages T \<subseteq> U \<Longrightarrow> grew m U T m'' U'' T''"
  unfolding grew_def by (auto; blast)

lemma split_node_spec:
  assumes st: "path_state m U path T (Suc i)" and T: "T = plug fs t" "\<forall>f \<in> set fs. frame_ok f" "length fs = i" "root_page t = bn_page (path ! i)"
  shows "(\<exists>e m'. split_node MA KC (path ! i) m = (Err e, m') \<and> inv m') \<or>
    (\<exists>pr left m' tL tR. split_node MA KC (path ! i) m = (Ok (pr, left), m') \<and> split_done m U path fs t pr left m' tL tR)"
proof -
  have w: "working m U path (plug fs t)" and i: "path ! i \<in> set path" using st T(1) by (auto simp: path_state_def)
  note W = workingD [OF w]
  show ?thesis
  proof (cases t)
    case (BLeaf p es)
    have "q \<notin> bn_page ` set path" if C: "rights fs = (q, gs) # C" for q gs C
    proof
      assume q: "q \<in> bn_page ` set path"
      have leaves: "leaves T = lefts fs @ (p, es) # (q, gs) # C" by (simp add: T(1) leaves_plug BLeaf C)
      have "p \<in> bn_page ` set path" using T(4) i by (simp add: BLeaf)
      then have "q = bn_page (last path)" "p = bn_page (last path)" using st q leaves by (auto simp: path_state_def one_leaf_def)
      moreover have "distinct (map fst (leaves T))" using W(3) by (simp add: tree_ok_def bodies_def T(1))
      ultimately show False by (simp add: leaves)
    qed
    then show ?thesis using split_leaf [OF w [unfolded BLeaf] T(2) i] T(4) by (simp add: BLeaf)
  next
    case (BNode p ss cs)
    then show ?thesis using split_inner [OF w [unfolded BNode] T(2) i] T(4) by simp
  qed
qed

lemma split_done_grew:
  assumes "split_done m U path fs t pr left m' tL tR" and "tree_pages T' = N \<union> insert (pr_right_page pr) (tree_pages (plug fs t))"
    and "tree_entries T' = tree_entries (plug fs t)" and "N \<inter> U = {}" and "\<And>x. x \<in> U \<Longrightarrow> pg m'' ! x = pg m' ! x"
  shows "grew m U (plug fs t) m'' (N \<union> insert (pr_right_page pr) U) T'"
proof -
  note S = split_doneD [OF assms(1)]
  have "fst ` local_bodies fs (inner t) (leaves t) \<subseteq> tree_pages (plug fs t)" by (auto simp: tree_pages_def bodies_plug)
  then have "pg m'' ! x = pg m ! x" if "x \<in> U - tree_pages (plug fs t)" for x using S(7) [of x] assms(5) that by auto
  moreover have "N \<union> insert (pr_right_page pr) U - U = insert (pr_right_page pr) N" using S(2) assms(4) by blast
  ultimately show ?thesis using assms(2,3) by (auto simp: grew_def)
qed

text \<open>The leaves of the tree after a split, and the path, still have one page in common.\<close>

lemma one_leaf_split:
  assumes w: "working m U path (plug fs t)" and sd: "split_done m U path fs t pr left m' tL tR" and "one_leaf (plug fs t) path"
    and leaves: "leaves T' = lefts fs @ (leaves tL @ leaves tR) @ rights fs" and pages: "map bn_page path' = map bn_page path" "path \<noteq> []"
  shows "one_leaf T' path'"
proof -
  note W = workingD [OF w] and S = split_doneD [OF sd]
  have set: "bn_page ` set path' = bn_page ` set path" using pages(1) by (metis list.set_map)
  have "path' \<noteq> []" using pages by auto
  then have last: "bn_page (last path') = bn_page (last path)" using pages by (metis last_map)
  have U: "bn_page n \<in> U" if "n \<in> set path" for n using W(8) W(6) [OF that] by blast
  have "fst ` set (leaves T') \<subseteq> insert (pr_right_page pr) (fst ` set (leaves (plug fs t)))"
    unfolding leaves leaves_plug set_append image_Un using S(16) [unfolded set_append image_Un] by blast
  moreover have "q = bn_page (last path)" if "q \<in> insert (pr_right_page pr) (fst ` set (leaves (plug fs t)))" "q \<in> bn_page ` set path" for q
  proof -
    have "q \<noteq> pr_right_page pr" using that(2) U S(2) by (metis imageE)
    then show ?thesis using that assms(3) unfolding one_leaf_def by blast
  qed
  ultimately show ?thesis unfolding one_leaf_def set last by (meson subsetD)
qed

lemma on_pathE:
  assumes "on_path T (Suc i) path" and "Suc i \<le> length path"
  obtains fs t where "T = plug fs t" "\<forall>f \<in> set fs. frame_ok f" "length fs = i" "root_page t = bn_page (path ! i)" "map fpage fs = map bn_page (take i path)"
  using assms by (auto simp: on_path_def take_Suc_conv_app_nth)

lemma on_path_up:
  assumes "T = plug fs t" "\<forall>f \<in> set fs. frame_ok f" "length fs = i" "map fpage fs = map bn_page (take i path)"
  shows "on_path T i path"
proof (cases fs rule: rev_cases)
  case (snoc fs0 f)
  have "root_page (plug1 f t) = fpage f" by (simp add: plug1_def)
  then show ?thesis
    unfolding on_path_def using assms by (intro disjI2 exI [of _ fs0] exI [of _ "plug1 f t"]) (auto simp: snoc plug_snoc)
qed (use assms in \<open>simp add: on_path_def\<close>)

lemma split_up_root:
  assumes st: "path_state m U path t (Suc 0)" and page: "root_page t = bn_page (path ! 0)" and over: "would_overflow KC 65536 (path ! 0) = Ok True"
    and sp: "split_node MA KC (path ! 0) m = (Ok (pr, left), m')" "split_done m U path [] t pr left m' tL tR"
  shows "(\<exists>e m'. split_up MA KC (Suc 0) path (root_page t) m = (Err e, m') \<and> inv m') \<or>
    (\<exists>path' m' U' T'. split_up MA KC (Suc 0) path (root_page t) m = (Ok (path', root_page T'), m') \<and> path_state m' U' path' T' 0 \<and> grew m U t m' U' T')"
proof -
  note S = split_doneD [OF sp(2)]
  have w: "working m U path t" and path: "0 < length path" using st by (auto simp: path_state_def)
  note W = workingD [OF w]
  show ?thesis
  proof (cases rule: claim_cases [OF S(1,4)])
    case (2 e m1)
    then show ?thesis using over sp(1) by (simp add: page_size)
  next
    case (1 nr m1)
    let ?root = "\<lparr>bn_page = nr, bn_parent_page = None, bn_num_entries = 1, bn_body = InternalBody [(pr_key pr, pr_left_page pr)] (pr_right_page pr), bn_dirty = True\<rparr>"
    let ?left = "left\<lparr>bn_parent_page := Some nr, bn_dirty := True\<rparr>" and ?T' = "BNode nr [pr_key pr] [tL, tR]"
    have ok: "node_ok V ?root"
      using S(3,6,9) page_sentinel [OF W(1,2), of "root_page t"] root_in_pages [of t] W(4) by (auto simp: node_ok_def body_ok_def body_len_def)
    have nr: "bn_page ?root < length (pg m1)" using 1(5) by (auto simp: pool_inv_def)
    have dirty: "bn_dirty ?root" by simp
    from node_flush_cases [OF 1(2) nr ok dirty] show ?thesis
    proof (elim disjE exE conjE)
      fix e assume "node_flush MA KC ?root m1 = (Err e, m1)"
      then show ?thesis using over sp(1) 1(1,2) by (simp add: page_size)
    next
      fix m2 c assume f: "node_flush MA KC ?root m1 = (Ok (?root\<lparr>bn_dirty := False\<rparr>), m2)" "inv m2" "pg m2 = (pg m1)[bn_page ?root := c]"
        "stores m2 (bn_page ?root) (bn_body ?root)"
      have pool: "pool_inv (pg m2) (insert nr (insert (pr_right_page pr) U))" using pool_inv_update [OF 1(5), of nr c] f(3) by simp
      have same: "pg m2 ! x = pg m' ! x" if "x \<in> insert (pr_right_page pr) U" for x using 1(3,7) f(3) that by (cases "x = nr") auto
      have w': "working m2 (insert nr (insert (pr_right_page pr) U)) (path[0 := ?left]) ?T'"
        by (rule root_step [OF w sp(2) path page [symmetric] 1(3,4) f(2) pool]) (use 1(6) f S(9) same in simp_all)
      have "map bn_page (path[0 := ?left]) = map bn_page path"
        by (rule nth_equalityI) (use S(20) path page in \<open>auto simp: nth_list_update\<close>)
      then have "one_leaf ?T' (path[0 := ?left])"
        using one_leaf_split [of m U path "[]" t pr left m' tL tR ?T' "path[0 := ?left]"] w sp(2) st by (auto simp: path_state_def)
      moreover have "fits_page KC (path[0 := ?left] ! j)" if "j < length path" for j
        using that st S(23) fits_cong [of ?left left] by (cases "j = 0") (auto simp: path_state_def)
      ultimately have st': "path_state m2 (insert nr (insert (pr_right_page pr) U)) (path[0 := ?left]) ?T' 0"
        using w' path by (simp add: path_state_def on_path_def)
      have "grew m U (plug [] t) m2 ({nr} \<union> insert (pr_right_page pr) U) ?T'"
        using new_root_tree [OF w sp(2) 1(3)] 1(3) same by (intro split_done_grew [OF sp(2)]) auto
      moreover have "split_up MA KC (Suc 0) path (root_page t) m = (Ok (path[0 := ?left], root_page ?T'), m2)"
        using over sp(1) 1(1) f(1) by (simp add: page_size)
      ultimately show ?thesis using st' by (intro disjI2 exI [of _ "path[0 := ?left]"] exI [of _ m2] exI [of _ "insert nr (insert (pr_right_page pr) U)"] exI [of _ ?T']) (simp add: insert_commute del: split_up.simps)
    qed
  qed
qed

lemma split_up_promote:
  assumes st: "path_state m U path T (Suc (Suc j))" and T: "T = plug (fs @ [f]) t" "\<forall>f \<in> set (fs @ [f]). frame_ok f" "length fs = j"
      "root_page t = bn_page (path ! Suc j)" "map fpage (fs @ [f]) = map bn_page (take (Suc j) path)"
    and sd: "split_done m U path (fs @ [f]) t pr left m' tL tR"
  shows "\<exists>parent U' T'. promote_into_internal (path ! j) pr = Ok parent \<and> path_state m' U' (path[Suc j := left, j := parent]) T' (Suc j) \<and>
    grew m U T m' U' T' \<and> root_page T' = root_page T"
proof -
  note S = split_doneD [OF sd]
  have w: "working m U path (plug (fs @ [f]) t)" and len: "Suc j < length path" using st T(1) by (auto simp: path_state_def)
  have f: "fpage f = bn_page (path ! j)" "map fpage fs = map bn_page (take j path)"
    using T(5) len by (simp_all add: take_Suc_conv_app_nth)
  obtain parent where p: "promote_into_internal (path ! j) pr = Ok parent" "bn_page parent = fpage f"
    "working m' (insert (pr_right_page pr) U) (path[Suc j := left, j := parent]) (plug fs (grown f (pr_key pr) tL tR))"
    using promote_step [OF w T(2) sd len T(4) [symmetric] f(1) [symmetric]] by (elim exE conjE)
  let ?path = "path[Suc j := left, j := parent]" and ?T' = "plug fs (grown f (pr_key pr) tL tR)"
  note G = grown_tree [OF w T(2) sd]
  have pages: "map bn_page ?path = map bn_page path"
    by (rule nth_equalityI) (use S(20) T(4) f(1) p(2) len in \<open>auto simp: nth_list_update\<close>)
  have "leaves ?T' = lefts (fs @ [f]) @ (leaves tL @ leaves tR) @ rights (fs @ [f])" by (simp add: leaves_plug grown_def lefts_snoc rights_snoc)
  then have "one_leaf ?T' ?path" using one_leaf_split [OF w sd _ _ pages] st T(1) by (auto simp: path_state_def)
  moreover have "on_path ?T' (Suc j) ?path"
  proof -
    have "map fpage fs @ [root_page (grown f (pr_key pr) tL tR)] = take (Suc j) (map bn_page ?path)"
      unfolding pages using T(5) by (simp add: grown_def take_map)
    then show ?thesis unfolding on_path_def using T(2,3) by (intro disjI2 exI [of _ fs] exI [of _ "grown f (pr_key pr) tL tR"]) (simp add: take_map)
  qed
  moreover have "fits_page KC (?path ! l)" if "Suc j \<le> l" "l < length path" for l
    using that st S(23) by (cases "l = Suc j") (auto simp: path_state_def nth_list_update)
  ultimately have "path_state m' (insert (pr_right_page pr) U) ?path ?T' (Suc j)" using p(3) len by (auto simp: path_state_def)
  moreover have "grew m U T m' ({} \<union> insert (pr_right_page pr) U) ?T'" unfolding T(1) using G(2,3) by (intro split_done_grew [OF sd]) auto
  moreover have "root_page ?T' = root_page T" by (cases fs) (simp_all add: T(1) root_plug plug1_def grown_def)
  ultimately show ?thesis using p(1) by (intro exI [of _ parent] exI [of _ "insert (pr_right_page pr) U"] exI [of _ ?T']) simp
qed

lemma split_up_spec:
  assumes "path_state m U path T n"
  shows "(\<exists>e m'. split_up MA KC n path (root_page T) m = (Err e, m') \<and> inv m') \<or>
    (\<exists>path' m' U' T'. split_up MA KC n path (root_page T) m = (Ok (path', root_page T'), m') \<and> path_state m' U' path' T' 0 \<and> grew m U T m' U' T')"
  using assms
proof (induction n arbitrary: m U path T)
  case 0
  then show ?case using grew_refl by (intro disjI2 exI [of _ path] exI [of _ m] exI [of _ U] exI [of _ T]) simp
next
  case (Suc i)
  have len: "Suc i \<le> length path" and w: "working m U path T" using Suc.prems by (simp_all add: path_state_def)
  note W = workingD [OF w]
  obtain fs t where T: "T = plug fs t" "\<forall>f \<in> set fs. frame_ok f" "length fs = i" "root_page t = bn_page (path ! i)" "map fpage fs = map bn_page (take i path)"
    using on_pathE [of T i path] Suc.prems len by (auto simp: path_state_def)
  show ?case
  proof (cases rule: would_overflow_cases [of KC "path ! i"])
    case fits
    have "on_path T i path" using T(1,2,3,5) by (rule on_path_up)
    then have "path_state m U path T i" using Suc.prems fits(2) by (auto simp: path_state_def not_less_eq_eq) (metis le_antisym not_less_eq_eq)
    moreover have "split_up MA KC (Suc i) path (root_page T) m = split_up MA KC i path (root_page T) m" using fits(1) by (simp add: page_size mbind_def)
    ultimately show ?thesis using Suc.IH by simp
  next
    case (error a b)
    then show ?thesis using W(1) by (simp add: page_size)
  next
    case over
    from split_node_spec [OF Suc.prems T(1-4)] show ?thesis
    proof (elim disjE exE conjE)
      fix e m' assume "split_node MA KC (path ! i) m = (Err e, m')" "inv m'"
      then show ?thesis using over by (simp add: page_size)
    next
      fix pr left m' tL tR assume sp: "split_node MA KC (path ! i) m = (Ok (pr, left), m')" "split_done m U path fs t pr left m' tL tR"
      show ?thesis
      proof (cases i)
        case 0
        then have "fs = []" using T(3) by simp
        then show ?thesis using split_up_root [of m U path t pr left m' tL tR] Suc.prems sp over T(1,4) 0 by simp
      next
        case (Suc j)
        then obtain fs0 f where fs: "fs = fs0 @ [f]" using T(3) by (cases fs rule: rev_cases) auto
        obtain parent U' T' where p: "promote_into_internal (path ! j) pr = Ok parent" "path_state m' U' (path[Suc j := left, j := parent]) T' (Suc j)"
          "grew m U T m' U' T'" "root_page T' = root_page T"
          using split_up_promote [of m U path T j fs0 f t pr left m' tL tR] Suc.prems sp(2) T unfolding fs Suc by auto
        have "split_up MA KC (Suc i) path (root_page T) m = split_up MA KC i (path[Suc j := left, j := parent]) (root_page T') m'"
          using over sp(1) p(1,4) by (simp add: page_size Suc)
        then show ?thesis using Suc.IH [of m' U' "path[Suc j := left, j := parent]" T'] p(2,3) W(4) grew_trans [of m U T m' U' T'] unfolding Suc by metis
      qed
    qed
  qed
qed

section \<open>Insertion\<close>

lemma flush_all_spec:
  assumes "inv m" "pool_inv (pg m) U" "distinct (map bn_page ns)"
    and "\<forall>n \<in> set ns. bn_page n \<in> U \<and> node_ok V n \<and> fits_page KC n \<and> (bn_dirty n \<or> stores m (bn_page n) (bn_body n))"
  shows "\<exists>m'. flush_all MA KC ns m = (Ok (), m') \<and> inv m' \<and> pool_inv (pg m') U \<and> length (pg m') = length (pg m) \<and>
    (\<forall>n \<in> set ns. stores m' (bn_page n) (bn_body n)) \<and> (\<forall>x. x \<notin> bn_page ` set ns \<longrightarrow> pg m' ! x = pg m ! x)"
  using assms
proof (induction ns arbitrary: m)
  case (Cons n ns)
  have n: "bn_page n \<in> U \<and> node_ok V n \<and> fits_page KC n \<and> (bn_dirty n \<or> stores m (bn_page n) (bn_body n))" using Cons.prems(4) by simp
  have "\<exists>m1 n'. node_flush MA KC n m = (Ok n', m1) \<and> inv m1 \<and> pool_inv (pg m1) U \<and> length (pg m1) = length (pg m) \<and>
      stores m1 (bn_page n) (bn_body n) \<and> (\<forall>x. x \<noteq> bn_page n \<longrightarrow> pg m1 ! x = pg m ! x)"
  proof (cases "bn_dirty n")
    case True
    then obtain m' c where "node_flush MA KC n m = (Ok (n\<lparr>bn_dirty := False\<rparr>), m')" "inv m'" "pool_inv (pg m') U"
      "pg m' = (pg m)[bn_page n := c]" "stores m' (bn_page n) (bn_body n)"
      using flush_ok [OF Cons.prems(1,2), of n] n by (elim conjE exE) blast
    then show ?thesis by (intro exI [of _ m'] exI [of _ "n\<lparr>bn_dirty := False\<rparr>"]) simp
  next
    case False
    then show ?thesis using n Cons.prems(1,2) by (intro exI [of _ m] exI [of _ n]) (simp add: node_flush_def)
  qed
  then obtain m1 n' where m1: "node_flush MA KC n m = (Ok n', m1)" "inv m1" "pool_inv (pg m1) U" "length (pg m1) = length (pg m)"
    "stores m1 (bn_page n) (bn_body n)" "\<forall>x. x \<noteq> bn_page n \<longrightarrow> pg m1 ! x = pg m ! x"
    by (elim exE conjE)
  have rest: "bn_page k \<in> U \<and> node_ok V k \<and> fits_page KC k \<and> (bn_dirty k \<or> stores m1 (bn_page k) (bn_body k))" if k: "k \<in> set ns" for k
  proof -
    have "bn_page k \<noteq> bn_page n" using Cons.prems(3) k by (metis distinct.simps(2) image_eqI list.set_map list.simps(9))
    then have "stores m1 (bn_page k) (bn_body k)" if s: "stores m (bn_page k) (bn_body k)" using m1(4,6) by (intro stores_frame [OF s]) auto
    then show ?thesis using Cons.prems(4) k by auto
  qed
  obtain m' where m': "flush_all MA KC ns m1 = (Ok (), m')" "inv m'" "pool_inv (pg m') U" "length (pg m') = length (pg m1)"
    "\<forall>k \<in> set ns. stores m' (bn_page k) (bn_body k)" "\<forall>x. x \<notin> bn_page ` set ns \<longrightarrow> pg m' ! x = pg m1 ! x"
    using Cons.IH [OF m1(2,3) _ ballI [OF rest]] Cons.prems(3) by auto
  have "bn_page n \<notin> bn_page ` set ns" using Cons.prems(3) by simp
  then have "stores m' (bn_page n) (bn_body n)" using m'(4,6) by (intro stores_frame [OF m1(5)]) auto
  then show ?case using m1 m' by (intro exI [of _ m']) simp
qed simp

lemma stores_unique: "stores m p b \<Longrightarrow> stores m p b' \<Longrightarrow> b = b'"
  using stores_node [of m p b] stores_node [of m p b'] by auto

lemma read_path_spec:
  assumes m: "inv m" and "subtree_at m t" "shaped t" "sorted (keyseq t)" "depth t < fuel"
  shows "\<exists>fs p es path. t = plug fs (BLeaf p es) \<and> (\<forall>f \<in> set fs. frame_ok f) \<and> read_path MA KC fuel (root_page t) key m = (Ok path, m) \<and>
    map bn_page path = map fpage fs @ [p] \<and> (\<forall>n \<in> set path. \<not> bn_dirty n \<and> node_ok V n \<and> stores m (bn_page n) (bn_body n)) \<and>
    (\<forall>k \<in> set (lower fs). k \<le> key) \<and> (\<forall>k \<in> set (upper fs). key < k)"
  using assms(2-)
proof (induction t arbitrary: fuel)
  case (BLeaf p es)
  obtain fl where fuel: "fuel = Suc fl" using BLeaf.prems(4) by (cases fuel) auto
  obtain prev nxt where s: "stores m p (LeafBody es prev nxt)" using BLeaf.prems(1) by (auto simp: subtree_at_def)
  obtain n where n: "node_read MA KC p m = (Ok n, m)" "bn_page n = p" "bn_body n = LeafBody es prev nxt" "bn_dirty n = False" "node_ok V n"
    using node_read_stores [OF m s] by (elim exE conjE)
  then have "read_path MA KC fuel p key m = (Ok [n], m)" by (simp add: fuel)
  then show ?case using n s by (intro exI [of _ "[]"] exI [of _ p] exI [of _ es] exI [of _ "[n]"]) simp
next
  case (BNode p ss cs)
  obtain fl where fuel: "fuel = Suc fl" using BNode.prems(4) by (cases fuel) auto
  define i where "i = length (takeWhile (\<lambda>s. s \<le> key) ss)"
  have len: "length (map keyseq cs) = Suc (length ss)" and sorted: "sorted (interleave (map keyseq cs) ss)" using BNode.prems(2,3) by simp_all
  note bounds = focus_bounds [OF sorted len i_def]
  let ?body = "InternalBody (zip ss (map root_page cs)) (root_page (last cs))"
  have s: "stores m p ?body" using BNode.prems(1) by (simp add: subtree_at_def)
  obtain n where n: "node_read MA KC p m = (Ok n, m)" "bn_page n = p" "bn_body n = ?body" "bn_dirty n = False" "node_ok V n"
    using node_read_stores [OF m s] by (elim exE conjE)
  have c: "cs ! i \<in> set cs" using bounds(1) by simp
  have child: "find_child (zip ss (map root_page cs)) (root_page (last cs)) key = root_page (cs ! i)" using len by (intro child_index [OF _ i_def]) simp
  have child_sorted: "sorted (keyseq (cs ! i))" using sorted bounds(1,2) by (simp add: sorted_append)
  have d: "depth (cs ! i) < fl" using BNode.prems(4) depth_child [OF c, of p ss] fuel by linarith
  have sh: "shaped (cs ! i)" using BNode.prems(2) c by simp
  obtain fs q es path where r: "cs ! i = plug fs (BLeaf q es)" "\<forall>f \<in> set fs. frame_ok f" "read_path MA KC fl (root_page (cs ! i)) key m = (Ok path, m)"
    "map bn_page path = map fpage fs @ [q]" "\<forall>n \<in> set path. \<not> bn_dirty n \<and> node_ok V n \<and> stores m (bn_page n) (bn_body n)"
    "\<forall>k \<in> set (lower fs). k \<le> key" "\<forall>k \<in> set (upper fs). key < k"
    using BNode.IH [OF c below_child [OF BNode.prems(1) c] sh child_sorted d] by (elim exE conjE)
  let ?f = "Frame p (take i cs) (take i ss) (drop (Suc i) cs) (drop i ss)"
  have "BNode p ss cs = plug (?f # fs) (BLeaf q es)" using id_take_nth_drop [of i cs] bounds(1) by (simp add: plug1_def r(1) [symmetric])
  moreover have "frame_ok ?f" using len bounds(1) BNode.prems(2) by (auto simp: frame_ok_def dest: in_set_takeD in_set_dropD)
  moreover have "read_path MA KC fuel (root_page (BNode p ss cs)) key m = (Ok (n # path), m)" using n child r(3) by (simp add: fuel)
  moreover have "\<forall>k \<in> set (lower (?f # fs)). k \<le> key" "\<forall>k \<in> set (upper (?f # fs)). key < k" using r(6,7) bounds(3,4) by (auto simp: take_map drop_map)
  ultimately show ?case
    using n s r(2,4,5) by (intro exI [of _ "?f # fs"] exI [of _ q] exI [of _ es] exI [of _ "n # path"] conjI) (simp_all del: plug.simps lower.simps upper.simps)
qed

text \<open>The leaf of the path takes the new entry: the tree with the entry, ready for the loop.\<close>

lemma insert_state:
  assumes m: "inv m" "pool_inv (pg m) U" and T: "holds_tree KC V (pg m) T" "tree_ok T" "tree_pages T \<subseteq> U" and fuel: "length (bodies T) < fuel"
    and e: "V key" "ra_wf ptr"
  shows "\<exists>path T'. read_path MA KC fuel (root_page T) key m = (Ok path, m) \<and>
    path_state m U (path[length path - 1 := leaf_insert key ptr (last path)]) T' (length path) \<and> root_page T' = root_page T \<and> tree_pages T' = tree_pages T \<and>
    (\<exists>xs ys. tree_entries T = xs @ ys \<and> tree_entries T' = xs @ (key, ptr) # ys) \<and>
    (\<exists>(p, es) \<in> set (leaves T). entries_fit (encode KC) 15 6 (key # map fst es) \<longrightarrow>
      (\<forall>n \<in> set (path[length path - 1 := leaf_insert key ptr (last path)]). fits_page KC n))"
proof -
  have ok: "shaped T" "sorted (keyseq T)" "distinct (map fst (bodies T))" using T(2) by (simp_all add: tree_ok_def)
  have d: "depth T < fuel" using fuel depth_inner [of T] by (simp add: bodies_def)
  obtain fs p es path where r: "T = plug fs (BLeaf p es)" "\<forall>f \<in> set fs. frame_ok f" "read_path MA KC fuel (root_page T) key m = (Ok path, m)"
    "map bn_page path = map fpage fs @ [p]" "\<forall>n \<in> set path. \<not> bn_dirty n \<and> node_ok V n \<and> stores m (bn_page n) (bn_body n)"
    "\<forall>k \<in> set (lower fs). k \<le> key" "\<forall>k \<in> set (upper fs). key < k"
    using read_path_spec [OF m(1) holds_below [OF T(1)] ok(1,2) d, of key] by (elim exE conjE)
  let ?xs = "takeWhile (\<lambda>x. entry_before x (key, ptr)) es" and ?ys = "dropWhile (\<lambda>x. entry_before x (key, ptr)) es"
  let ?T' = "plug fs (BLeaf p (?xs @ (key, ptr) # ?ys))"
  have leaf_sorted: "sorted_wrt (\<lambda>x y. \<not> entry_before y x) es" using shaped_plug [OF r(2)] ok(1) r(1) by simp
  have "sorted (lower fs @ keyseq (BLeaf p (?xs @ (key, ptr) # ?ys)) @ upper fs)"
    using sorted_keys_insert [of "lower fs" es "upper fs" "(key, ptr)" ?xs ?ys] sorted_wrt_insert [OF leaf_sorted] ok(2) r(6,7) keyseq_plug [OF r(2)] r(1)
    by (auto simp: less_imp_le)
  then have T': "tree_ok ?T'" "tree_pages ?T' = tree_pages T"
    using tree_ok_replace [OF T(2) [unfolded r(1)] r(2), of "BLeaf p (?xs @ (key, ptr) # ?ys)" "[]"] sorted_wrt_insert [OF leaf_sorted]
    by (simp_all add: bodies_def r(1))
  have len: "length path = Suc (length fs)" using arg_cong [OF r(4), of length] by simp
  then have ne: "path \<noteq> []" by auto
  let ?leaf = "last path"
  let ?path = "path[length path - 1 := leaf_insert key ptr ?leaf]"
  have leaf: "?leaf \<in> set path" "bn_page ?leaf = p" using ne r(4) last_map [OF ne, of bn_page] by simp_all
  let ?prev = "last_link None (lefts fs)" and ?nxt = "first_link (rights fs)"
  have leaves: "leaves T = lefts fs @ (p, es) # rights fs" by (simp add: r(1) leaves_plug)
  have stored: "stores m p (LeafBody es ?prev ?nxt)"
    using holds_treeD [OF T(1)] chain_focus [of p es None "lefts fs" "rights fs"] by (simp add: bodies_def leaves)
  then have body: "bn_body ?leaf = LeafBody es ?prev ?nxt" using r(5) leaf stores_unique by metis
  note ins = leaf_insert_spec [OF body, of key ptr]
  let ?new = "leaf_insert key ptr ?leaf" and ?es = "?xs @ (key, ptr) # ?ys"
  have len_es: "length ?es = Suc (length es)" by (metis add_Suc_right length_Cons length_append takeWhile_dropWhile_id)
  have set_es: "set ?es = insert (key, ptr) (set es)" using takeWhile_dropWhile_id [of "\<lambda>x. entry_before x (key, ptr)" es]
    by (metis Un_insert_right list.set(2) set_append)
  have new: "bn_page ?new = p" "bn_body ?new = LeafBody ?es ?prev ?nxt" "bn_dirty ?new" using leaf(2) by (simp_all add: ins)
  have "node_ok V ?leaf" using r(5) leaf(1) by blast
  then have old: "link_ok (bn_parent_page ?leaf)" "\<forall>(k, a) \<in> set es. V k \<and> ra_wf a" "link_ok ?prev" "link_ok ?nxt"
    using body by (auto simp: node_ok_def body_ok_def)
  have "body_ok V (bn_body ?new)" unfolding new(2) body_ok_def node_body.case set_es using old e by simp
  moreover have "body_len (bn_body ?new) = Suc (length es)" unfolding new(2) body_len_def node_body.case by (rule len_es)
  ultimately have new_ok: "node_ok V ?new" using old(1) by (simp add: node_ok_def) (simp add: ins)
  have bodies: "set (bodies T) = set (spine fs p) \<union> set (side fs) \<union> set (chain None (lefts fs @ (p, es) # rights fs))"
    "set (bodies ?T') = set (spine fs p) \<union> set (side fs) \<union> set (chain None (lefts fs @ (p, ?es) # rights fs))"
    unfolding r(1) bodies_plug by (simp_all add: local_bodies_def)
  have same: "map bn_page ?path = map bn_page path"
    by (rule nth_equalityI) (use new(1) leaf(2) ne in \<open>auto simp: nth_list_update last_conv_nth\<close>)
  then have pages: "bn_page ` set ?path = insert p (set (map fpage fs))" using r(4) by (metis Un_insert_right append_Nil2 list.set(1,2) list.set_map set_append)
  have frames: "x \<notin> fst ` set (chain None (lefts fs @ (p, es) # rights fs))" if "x \<in> set (map fpage fs)" for x
    using context_disjoint [of fs "BLeaf p es" x] ok(3) that by (simp add: r(1) local_bodies_def)
  have distinct: "distinct (map bn_page ?path)"
  proof -
    have "p \<in> fst ` set (chain None (lefts fs @ (p, es) # rights fs))" by (simp add: fst_set_chain)
    moreover have "distinct (map fpage fs)"
      using ok(3) mset_eq_imp_distinct_iff [OF trans [OF pages_plug [of fs "BLeaf p es"], of "mset (map fpage fs @ map fst (side fs) @ map fst (lefts fs @ rights fs) @ map fst (bodies (BLeaf p es)))"]]
      by (simp add: r(1))
    ultimately show ?thesis unfolding same r(4) using frames by auto
  qed
  have w: "working m U ?path ?T'"
  proof (rule workingI [OF m T'(1) _ distinct])
    show "tree_pages ?T' \<subseteq> U" using T'(2) T(3) by simp
    show "(bn_page n, bn_body n) \<in> set (bodies ?T') \<and> node_ok V n \<and> (bn_dirty n \<or> stores m (bn_page n) (bn_body n))" if n: "n \<in> set ?path" for n
    proof -
      obtain l where l: "l < length path" "n = ?path ! l" using n by (auto simp: in_set_conv_nth)
      show ?thesis
      proof (cases "l = length path - 1")
        case True
        then show ?thesis using l new new_ok chain_focus [of p ?es None "lefts fs" "rights fs"] unfolding bodies(2) by simp
      next
        case False
        then have n: "n = path ! l" "n \<in> set path" using l by simp_all
        have "bn_page n = map bn_page path ! l" using l(1) n(1) by simp
        then have f: "bn_page n = fpage (fs ! l)" "l < length fs" using False l(1) len unfolding r(4) by (simp_all add: nth_append)
        then have x: "bn_page n \<in> set (map fpage fs)" by simp
        then obtain b where "(bn_page n, b) \<in> set (spine fs p)" using spine_pages [of fs p] by (metis (no_types, lifting) fst_conv imageE list.set_map prod.collapse)
        moreover from this have "stores m (bn_page n) b" using holds_treeD [OF T(1)] bodies(1) by blast
        moreover from this have "b = bn_body n" using r(5) n(2) stores_unique by blast
        ultimately show ?thesis using r(5) n(2) unfolding bodies(2) by blast
      qed
    qed
    show "x \<in> bn_page ` set ?path \<or> stores m x b" if x: "(x, b) \<in> set (bodies ?T')" for x b
    proof (cases "x = p")
      case False
      then have "(x, b) \<in> set (bodies T)" using x chain_put_leaf [of x b None "lefts fs" p ?es "rights fs" es] unfolding bodies by blast
      then show ?thesis using holds_treeD [OF T(1)] by blast
    next
      case True
      then show ?thesis unfolding pages by blast
    qed
  qed
  have "one_leaf ?T' ?path"
  proof -
    have last: "bn_page (last ?path) = p" using ne new(1) by (simp add: last_list_update)
    have leaf_pages: "fst ` set (leaves ?T') = fst ` set (leaves T)" by (simp add: leaves leaves_plug)
    have "q = p" if "q \<in> fst ` set (leaves T)" "q \<in> insert p (set (map fpage fs))" for q
      using frames [of q] that unfolding leaves fst_set_chain by blast
    then show ?thesis unfolding one_leaf_def pages last leaf_pages by blast
  qed
  moreover have "on_path ?T' (length path) ?path"
    unfolding on_path_def using r(2,4) len same by (intro disjI2 exI [of _ fs] exI [of _ "BLeaf p ?es"]) (simp add: take_map)
  ultimately have "path_state m U ?path ?T' (length path)" using w ne by (simp add: path_state_def)
  moreover have "root_page ?T' = root_page T" unfolding r(1) root_plug by (simp split: list.split)
  moreover have "tree_entries T = (concat (map snd (lefts fs)) @ ?xs) @ (?ys @ concat (map snd (rights fs)))"
    "tree_entries ?T' = (concat (map snd (lefts fs)) @ ?xs) @ (key, ptr) # (?ys @ concat (map snd (rights fs)))"
    unfolding r(1) entries_plug by (simp_all add: tree_entries_def)
  moreover have "(p, es) \<in> set (leaves T)" by (simp add: leaves)
  moreover have "\<forall>n \<in> set ?path. fits_page KC n" if room: "entries_fit (encode KC) 15 6 (key # map fst es)"
  proof -
    have eq: "mset ?es = add_mset (key, ptr) (mset es)" using takeWhile_dropWhile_id [of "\<lambda>x. entry_before x (key, ptr)" es]
      by (metis add_mset_add_single mset_append mset.simps(2) union_mset_add_mset_right)
    have "mset (map fst ?es) = mset (key # map fst es)" unfolding mset_map eq by simp
    then have "fits_page KC ?new" using room entries_fit_perm fits_leaf [OF new(2), of KC] by blast
    moreover have "\<forall>n \<in> set path. fits_page KC n" using r(5) stores_fits by blast
    ultimately show ?thesis using set_update_subset_insert [of path "length path - 1" ?new] by blast
  qed
  ultimately show ?thesis using r(3) T'(2)
    by (intro exI [of _ path] exI [of _ ?T'] conjI exI [of _ "concat (map snd (lefts fs)) @ ?xs"] exI [of _ "?ys @ concat (map snd (rights fs))"]
        bexI [of _ "(p, es)"]) auto
qed

text \<open>A path on which every node fits its page is not split.\<close>

lemma split_up_fits: "n \<le> length path \<Longrightarrow> \<forall>node \<in> set path. fits_page KC node \<Longrightarrow> split_up MA KC n path root m = (Ok (path, root), m)"
  by (induction n) (simp_all add: would_overflow_fits page_size mbind_def)

lemma flush_path:
  assumes "path_state m U path T 0"
  shows "\<exists>m'. flush_all MA KC path m = (Ok (), m') \<and> inv m' \<and> pool_inv (pg m') U \<and> length (pg m') = length (pg m) \<and>
    (\<forall>n \<in> set path. stores m' (bn_page n) (bn_body n)) \<and> (\<forall>x. x \<notin> bn_page ` set path \<longrightarrow> pg m' ! x = pg m ! x)"
proof -
  have w: "working m U path T" using assms by (simp add: path_state_def)
  note W = workingD [OF w]
  have "\<forall>n \<in> set path. bn_page n \<in> U \<and> node_ok V n \<and> fits_page KC n \<and> (bn_dirty n \<or> stores m (bn_page n) (bn_body n))"
  proof
    fix n assume n: "n \<in> set path"
    show "bn_page n \<in> U \<and> node_ok V n \<and> fits_page KC n \<and> (bn_dirty n \<or> stores m (bn_page n) (bn_body n))"
      using W(6) [OF n] W(8) assms n by (auto simp: path_state_def in_set_conv_nth)
  qed
  then show ?thesis by (rule flush_all_spec [OF W(1,2,5)])
qed

text \<open>When no leaf is too full for the entry, the insertion succeeds, and the root stays.\<close>

lemma tree_insert_room:
  assumes m: "inv m" "pool_inv (pg m) U" and T: "holds_tree KC V (pg m) T" "tree_ok T" "tree_pages T \<subseteq> U" and fuel: "length (bodies T) < fuel"
    and e: "V key" "ra_wf ptr" and room: "\<forall>(p, es) \<in> set (leaves T). entries_fit (encode KC) 15 6 (key # map fst es)"
  shows "\<exists>m'. tree_insert MA KC fuel (root_page T) key ptr m = (Ok (root_page T), m')"
proof -
  obtain path T1 where r: "read_path MA KC fuel (root_page T) key m = (Ok path, m)"
    "path_state m U (path[length path - 1 := leaf_insert key ptr (last path)]) T1 (length path)"
    and "\<exists>(p, es) \<in> set (leaves T). entries_fit (encode KC) 15 6 (key # map fst es) \<longrightarrow>
      (\<forall>n \<in> set (path[length path - 1 := leaf_insert key ptr (last path)]). fits_page KC n)"
    using insert_state [OF m T fuel e] by (elim exE conjE) (rule that)
  let ?path = "path[length path - 1 := leaf_insert key ptr (last path)]"
  have fits: "\<forall>n \<in> set ?path. fits_page KC n" using \<open>\<exists>(p, es) \<in> _. _\<close> room by blast
  then have "path_state m U ?path T1 0" using r(2) by (auto simp: path_state_def on_path_def)
  then obtain m' where "flush_all MA KC ?path m = (Ok (), m')" using flush_path by blast
  then show ?thesis using r(1) split_up_fits [of "length path" ?path "root_page T" m] fits by (simp add: tree_insert_def)
qed

lemma tree_insert_spec:
  assumes m: "inv m" "pool_inv (pg m) U" and T: "holds_tree KC V (pg m) T" "tree_ok T" "tree_pages T \<subseteq> U" and fuel: "length (bodies T) < fuel"
    and e: "V key" "ra_wf ptr"
  shows "(\<exists>e m'. tree_insert MA KC fuel (root_page T) key ptr m = (Err e, m') \<and> inv m') \<or>
    (\<exists>m' U' T'. tree_insert MA KC fuel (root_page T) key ptr m = (Ok (root_page T'), m') \<and> inv m' \<and> pool_inv (pg m') U' \<and> U \<subseteq> U' \<and>
      holds_tree KC V (pg m') T' \<and> tree_ok T' \<and> tree_pages T' = tree_pages T \<union> (U' - U) \<and>
      (\<exists>xs ys. tree_entries T = xs @ ys \<and> tree_entries T' = xs @ (key, ptr) # ys) \<and> (\<forall>x \<in> U - tree_pages T. pg m' ! x = pg m ! x))"
proof -
  obtain path T1 xs ys where r: "read_path MA KC fuel (root_page T) key m = (Ok path, m)"
    "path_state m U (path[length path - 1 := leaf_insert key ptr (last path)]) T1 (length path)" "root_page T1 = root_page T" "tree_pages T1 = tree_pages T"
    "tree_entries T = xs @ ys" "tree_entries T1 = xs @ (key, ptr) # ys"
    using insert_state [OF assms] by (elim exE conjE) (rule that)
  let ?path = "path[length path - 1 := leaf_insert key ptr (last path)]"
  from split_up_spec [OF r(2)] show ?thesis
  proof (elim disjE exE conjE)
    fix e m' assume "split_up MA KC (length path) ?path (root_page T1) m = (Err e, m')" "inv m'"
    then show ?thesis using r(1,3) by (simp add: tree_insert_def)
  next
    fix path' m1 U' T' assume sp: "split_up MA KC (length path) ?path (root_page T1) m = (Ok (path', root_page T'), m1)"
      "path_state m1 U' path' T' 0" "grew m U T1 m1 U' T'"
    have w: "working m1 U' path' T'" using sp(2) by (simp add: path_state_def)
    note W = workingD [OF w]
    obtain m' where f: "flush_all MA KC path' m1 = (Ok (), m')" "inv m'" "pool_inv (pg m') U'" "length (pg m') = length (pg m1)"
      "\<forall>n \<in> set path'. stores m' (bn_page n) (bn_body n)" "\<forall>x. x \<notin> bn_page ` set path' \<longrightarrow> pg m' ! x = pg m1 ! x"
      using flush_path [OF sp(2)] by (elim exE conjE)
    have run: "tree_insert MA KC fuel (root_page T) key ptr m = (Ok (root_page T'), m')" using r(1,3) sp(1) f(1) by (simp add: tree_insert_def)
    have "stores m' p b" if T: "(p, b) \<in> set (bodies T')" for p b
    proof (cases "p \<in> bn_page ` set path'")
      case True
      then obtain n where n: "n \<in> set path'" "bn_page n = p" by auto
      have "(p, bn_body n) \<in> set (bodies T')" using W(6) [OF n(1)] n(2) by simp
      then have "b = bn_body n" using T W(3) by (auto simp: tree_ok_def dest: eq_key_imp_eq_value)
      then show ?thesis using f(5) n by blast
    next
      case False
      then have s: "stores m1 p b" using W(7) [OF T] by blast
      show ?thesis using False f(4,6) by (intro stores_frame [OF s]) auto
    qed
    then have "holds_tree KC V (pg m') T'" by (rule holds_treeI)
    moreover have "pg m' ! x = pg m ! x" if x: "x \<in> U - tree_pages T" for x
    proof -
      have "x \<notin> tree_pages T'" using sp(3) x r(4) by (auto simp: grew_def)
      then have "x \<notin> bn_page ` set path'" using W(6) by (force simp: tree_pages_def)
      then show ?thesis using f(6) sp(3) x r(4) by (simp add: grew_def)
    qed
    moreover have "\<exists>xs ys. tree_entries T = xs @ ys \<and> tree_entries T' = xs @ (key, ptr) # ys"
      using r(5,6) sp(3) by (intro exI [of _ xs] exI [of _ ys]) (simp add: grew_def)
    ultimately show ?thesis using run f(2,3) W(3) sp(3) r(4)
      by (intro disjI2 exI [of _ m'] exI [of _ U'] exI [of _ T'] conjI) (simp_all add: grew_def)
  qed
qed

end

end
