(* ===== verification/Index_Pages.thy ===== *)
theory Index_Pages
  imports Index_Insert
begin

text \<open>
  The other operations on the tree of an index: the cursor of a range scan, creation, replacement of a
  record address, and the release of all pages of a tree.
\<close>

section \<open>Range scans\<close>

text \<open>Reading a cursor to its end; the callers of the code do this one entry at a time.\<close>

fun drain :: "'m mem_ops \<Rightarrow> ('k :: linorder) codec \<Rightarrow> nat \<Rightarrow> nat \<Rightarrow> 'k tree_walker \<Rightarrow> ('m, ('k \<times> record_address) list) mem_prog" where
  "drain MA KC fuel 0 w = panic"
| "drain MA KC fuel (Suc n) w =
     mbind (next_entry MA KC fuel w) (\<lambda>(e, w'). case e of None \<Rightarrow> ret [] | Some x \<Rightarrow> mbind (drain MA KC fuel n w') (\<lambda>xs. ret (x # xs)))"

definition in_range :: "'k :: linorder \<Rightarrow> 'k option \<Rightarrow> 'k \<Rightarrow> bool" where
  "in_range start stop k \<longleftrightarrow> start \<le> k \<and> (case stop of None \<Rightarrow> True | Some s \<Rightarrow> k < s)"

lemma in_range_takeWhile:
  assumes "sorted (map fst es)" and "\<forall>e \<in> set es. start \<le> fst e"
  shows "filter (\<lambda>e. in_range start stop (fst e)) es = takeWhile (\<lambda>e. case stop of None \<Rightarrow> True | Some s \<Rightarrow> fst e < s) es"
proof (cases stop)
  case None
  have "filter (\<lambda>e. in_range start stop (fst e)) es = es" using assms(2) by (simp add: None in_range_def)
  moreover have "takeWhile (\<lambda>e. case stop of None \<Rightarrow> True | Some s \<Rightarrow> fst e < s) es = es" by (simp add: None takeWhile_eq_all_conv)
  ultimately show ?thesis by (simp only:)
next
  case (Some s)
  have "filter (\<lambda>e. start \<le> fst e \<and> fst e < s) es = takeWhile (\<lambda>e. fst e < s) es" using assms
  proof (induction es)
    case (Cons e es)
    show ?case
    proof (cases "fst e < s")
      case False
      then have "filter (\<lambda>e. start \<le> fst e \<and> fst e < s) es = []" using Cons.prems by (force simp: filter_empty_conv)
      then show ?thesis using False by simp
    qed (use Cons in simp)
  qed simp
  then show ?thesis by (simp add: Some in_range_def)
qed

context index_memory
begin

text \<open>The entries a cursor has still to give, bounds aside.\<close>

definition walks :: "'m \<Rightarrow> 'k tree_walker \<Rightarrow> nat \<Rightarrow> ('k \<times> record_address) list \<Rightarrow> bool" where
  "walks m w n rest \<longleftrightarrow> (\<exists>A p B. linked m (A @ (p, tw_entries w) # B) \<and> tw_next_leaf w = first_link B \<and> length B \<le> n \<and>
     rest = drop (tw_cursor w) (tw_entries w) @ concat (map snd B))"

lemma walks_mono: "walks m w n rest \<Longrightarrow> n \<le> n' \<Longrightarrow> walks m w n' rest"
  unfolding walks_def by (elim exE conjE, intro exI conjI, assumption+, erule (1) le_trans, assumption)

lemma next_entry_spec:
  assumes m: "inv m" and "walks m w n rest" and "n < fuel"
  shows "case rest of
      [] \<Rightarrow> \<exists>w'. next_entry MA KC fuel w m = (Ok (None, w'), m)
    | e # rest' \<Rightarrow>
        if is_past_end w (fst e) then \<exists>w'. next_entry MA KC fuel w m = (Ok (None, w'), m)
        else \<exists>w'. next_entry MA KC fuel w m = (Ok (Some e, w'), m) \<and> walks m w' n rest' \<and> tw_end_key w' = tw_end_key w"
  using assms(2-)
proof (induction fuel arbitrary: w n)
  case (Suc fuel)
  obtain A p B where L: "linked m (A @ (p, tw_entries w) # B)" "tw_next_leaf w = first_link B" "length B \<le> n"
    "rest = drop (tw_cursor w) (tw_entries w) @ concat (map snd B)"
    using Suc.prems(1) by (auto simp: walks_def)
  show ?case
  proof (cases "tw_cursor w < length (tw_entries w)")
    case True
    let ?e = "tw_entries w ! tw_cursor w"
    have rest: "rest = ?e # (drop (Suc (tw_cursor w)) (tw_entries w) @ concat (map snd B))"
      using True by (simp add: L(4) Cons_nth_drop_Suc [symmetric])
    have "walks m (w\<lparr>tw_cursor := tw_cursor w + 1\<rparr>) n (drop (Suc (tw_cursor w)) (tw_entries w) @ concat (map snd B))"
      unfolding walks_def using L by (intro exI [of _ A] exI [of _ p] exI [of _ B]) simp
    then show ?thesis using True by (simp add: rest)
  next
    case False
    show ?thesis
    proof (cases B)
      case Nil
      then show ?thesis using False L(2,4) by (simp add: load_next_leaf_def first_link_def)
    next
      case (Cons b C)
      obtain q fs where b: "b = (q, fs)" by (cases b)
      have L': "linked m ((A @ [(p, tw_entries w)]) @ (q, fs) # C)" using L(1) by (simp add: Cons b)
      obtain node where node: "node_read MA KC q m = (Ok node, m)" "bn_body node = LeafBody fs (last_link None (A @ [(p, tw_entries w)])) (first_link C)"
        using node_read_stores [OF m linked_leaf [OF L']] by (elim exE conjE)
      let ?w = "w\<lparr>tw_entries := fs, tw_cursor := 0, tw_next_leaf := first_link C\<rparr>"
      have run: "next_entry MA KC (Suc fuel) w m = next_entry MA KC fuel ?w m"
        using False L(2) node by (simp add: load_next_leaf_def first_link_def Cons b)
      have "walks m ?w (n - 1) rest"
        unfolding walks_def using L' L(3,4) False by (intro exI [of _ "A @ [(p, tw_entries w)]"] exI [of _ q] exI [of _ C]) (simp add: Cons b)
      moreover have "n - 1 < fuel" "0 < n" using Suc.prems(2) L(3) by (simp_all add: Cons)
      moreover have "is_past_end ?w = is_past_end w" by (simp add: is_past_end_def fun_eq_iff)
      ultimately show ?thesis
        using Suc.IH [of ?w "n - 1"] walks_mono [of m _ "n - 1" _ n] unfolding run by (cases rest) (auto split: if_splits)
    qed
  qed
qed simp

lemma drain_spec:
  assumes m: "inv m" and "walks m w n rest" "n < fuel" "length rest < calls"
  shows "drain MA KC fuel calls w m = (Ok (takeWhile (\<lambda>e. \<not> is_past_end w (fst e)) rest), m)"
  using assms(2,4)
proof (induction calls arbitrary: w rest)
  case (Suc calls)
  note step = next_entry_spec [OF m Suc.prems(1) assms(3)]
  show ?case
  proof (cases rest)
    case Nil
    then show ?thesis using step by auto
  next
    case (Cons e rest')
    show ?thesis
    proof (cases "is_past_end w (fst e)")
      case True
      then show ?thesis using step by (auto simp: Cons)
    next
      case False
      then obtain w' where w': "next_entry MA KC fuel w m = (Ok (Some e, w'), m)" "walks m w' n rest'" "tw_end_key w' = tw_end_key w"
        using step by (auto simp: Cons)
      have "is_past_end w' = is_past_end w" using w'(3) by (simp add: is_past_end_def fun_eq_iff)
      then show ?thesis using Suc.IH [OF w'(2)] Suc.prems(2) w'(1) False by (simp add: Cons)
    qed
  qed
qed simp

lemma range_scan_spec:
  assumes m: "inv m" and "holds_tree KC V (pg m) t" "tree_ok t" "length (bodies t) < fuel" "length (tree_entries t) < calls"
  shows "mbind (tree_range_scan MA KC fuel (root_page t) start stop) (drain MA KC fuel calls) m =
    (Ok (filter (\<lambda>e. in_range start stop (fst e)) (tree_entries t)), m)"
proof -
  obtain A p es B where r: "leaves t = A @ (p, es) # B" "find_search_start_page MA KC fuel (root_page t) start (replicate 65536 0) m = (Ok (p, pg m ! p), m)"
    "\<forall>e \<in> set (concat (map snd A)). fst e < start" "\<forall>e \<in> set (concat (map snd B)). start \<le> fst e"
    using find_search_start [OF assms(1-4), of "replicate 65536 0" start] by auto
  have L: "linked m (A @ (p, es) # B)" using assms(2) r(1) by (simp add: holds_tree_def linked_def bodies_def)
  obtain leaf where leaf: "node_deserialize KC p (pg m ! p) = Ok leaf" "bn_body leaf = LeafBody es (last_link None A) (first_link B)"
    using stores_node [OF linked_leaf [OF L]] by (elim exE conjE)
  let ?n = "partition_point (\<lambda>(k, _). k < start) es"
  let ?w = "\<lparr>tw_entries = es, tw_cursor = ?n, tw_next_leaf = first_link B, tw_end_key = stop\<rparr>"
  have run: "tree_range_scan MA KC fuel (root_page t) start stop m = (Ok ?w, m)"
    using r(2) leaf by (simp add: tree_range_scan_def find_search_start_leaf_def)
  let ?rest = "drop ?n es @ concat (map snd B)"
  have w: "walks m ?w (length B) ?rest" unfolding walks_def using L by (intro exI [of _ A] exI [of _ p] exI [of _ B]) simp
  have sorted: "sorted (map fst (tree_entries t))" using entries_sorted [of t] assms(3) by (simp add: tree_ok_def)
  have entries: "tree_entries t = (concat (map snd A) @ take ?n es) @ ?rest" by (simp add: r(1) tree_entries_def)
  have n: "?n = length (takeWhile (\<lambda>e. fst e < start) es)" by (simp add: partition_point_def case_prod_unfold)
  have front: "fst e < start" if "e \<in> set (concat (map snd A) @ take ?n es)" for e
    using that r(3) set_takeWhileD [of e "\<lambda>e. fst e < start" es] unfolding n by (auto simp: takeWhile_eq_take [symmetric])
  have es: "sorted (map fst es)" using sorted by (simp add: r(1) tree_entries_def sorted_append)
  have rest: "sorted (map fst ?rest)" using sorted unfolding entries map_append [of fst "_ @ _"] by (simp add: sorted_append)
  have ge: "\<forall>e \<in> set ?rest. start \<le> fst e" using sorted_drop_ge [OF es, of start] r(4) unfolding n by auto
  have "filter (\<lambda>e. in_range start stop (fst e)) (concat (map snd A) @ take ?n es) = []"
    unfolding filter_empty_conv
  proof
    fix e assume "e \<in> set (concat (map snd A) @ take ?n es)"
    then show "\<not> in_range start stop (fst e)" using front by (simp add: in_range_def not_le)
  qed
  then have "filter (\<lambda>e. in_range start stop (fst e)) (tree_entries t) = filter (\<lambda>e. in_range start stop (fst e)) ?rest"
    by (simp only: entries filter_append [of _ "_ @ _"] append_Nil)
  moreover have past: "(\<not> is_past_end ?w k) = (case stop of None \<Rightarrow> True | Some s \<Rightarrow> k < s)" for k
    by (auto simp: is_past_end_def split: option.split)
  ultimately have "filter (\<lambda>e. in_range start stop (fst e)) (tree_entries t) = takeWhile (\<lambda>e. \<not> is_past_end ?w (fst e)) ?rest"
    by (simp only: in_range_takeWhile [OF rest ge] past)
  moreover have "length ?rest < calls" using assms(5) unfolding entries by simp
  moreover have "length B < fuel" using assms(4) r(1) by (simp add: bodies_def)
  ultimately show ?thesis using drain_spec [OF m w] run by simp
qed

section \<open>Creation\<close>

lemma tree_init_spec:
  assumes "inv m" "pool_inv (pg m) U"
  shows "(\<exists>e m'. tree_init MA KC m = (Err e, m') \<and> inv m' \<and> claim_page MA m = (Err e, m')) \<or>
    (\<exists>r m'. tree_init MA KC m = (Ok r, m') \<and> inv m' \<and> fst (claim_page MA m) = Ok r \<and> r \<notin> U \<and> pool_inv (pg m') (insert r U) \<and>
      holds_tree KC V (pg m') (BLeaf r []) \<and> tree_ok (BLeaf r ([] :: ('k \<times> record_address) list)) \<and> (\<forall>x \<in> U. pg m' ! x = pg m ! x))"
proof (cases rule: claim_cases [OF assms])
  case (2 e m')
  then show ?thesis by (simp add: tree_init_def)
next
  case (1 r m1)
  let ?leaf = "new_leaf r None :: 'k btree_node"
  have leaf: "bn_page ?leaf \<in> insert r U" "node_ok V ?leaf" "fits_page KC ?leaf" "bn_dirty ?leaf"
    by (simp_all add: new_leaf_def node_ok_def body_ok_def body_len_def fits_leaf entries_fit_def)
  obtain m' c where f: "node_flush MA KC ?leaf m1 = (Ok (?leaf\<lparr>bn_dirty := False\<rparr>), m')" "inv m'" "pool_inv (pg m') (insert r U)"
    "pg m' = (pg m1)[bn_page ?leaf := c]" "stores m' (bn_page ?leaf) (bn_body ?leaf)"
    using flush_ok [OF 1(2,5) leaf] by (elim exE conjE)
  have "tree_init MA KC m = (Ok r, m')" using 1(1) f(1) by (simp add: tree_init_def)
  moreover have "holds_tree KC V (pg m') (BLeaf r [])" using f(5) by (simp add: holds_tree_def bodies_def new_leaf_def first_link_def)
  moreover have "tree_ok (BLeaf r ([] :: ('k \<times> record_address) list))" by (simp add: tree_ok_def bodies_def)
  moreover have "\<forall>x \<in> U. pg m' ! x = pg m ! x"
  proof
    fix x assume "x \<in> U"
    then show "pg m' ! x = pg m ! x" using 1(3,7) f(4) by (cases "x = r") (auto simp: new_leaf_def)
  qed
  moreover have "fst (claim_page MA m) = Ok r" by (simp add: 1(1))
  ultimately show ?thesis using 1(3) f(2,3) by blast
qed

section \<open>Releasing the pages of a tree\<close>

lemma child_pages_entries:
  "get_entries dec 4 (\<lambda>bs. Ok (from_le bs)) buf n offset = Ok es \<Longrightarrow> child_pages buf n offset = Ok (map snd es)"
proof (induction n arbitrary: offset es)
  case (Suc n)
  then show ?case by (auto simp: Let_def bind_outcome_Ok_iff map_outcome_Ok_iff split: if_splits)
qed simp

lemma stored_header:
  assumes "stores m p b"
  shows "11 \<le> length (pg m ! p)" and "b = InternalBody es r \<Longrightarrow> from_le (slice 0 1 (pg m ! p)) = NODE_TYPE_INTERNAL \<and> from_le (slice 7 4 (pg m ! p)) = r \<and>
      child_pages (pg m ! p) (from_le (slice 5 2 (pg m ! p))) INTERNAL_HEADER_SIZE = Ok (map snd es)"
    and "b = LeafBody ls prev nxt \<Longrightarrow> from_le (slice 0 1 (pg m ! p)) = NODE_TYPE_LEAF"
proof -
  obtain node where n: "node_deserialize KC p (pg m ! p) = Ok node" "bn_body node = b" using stores_node [OF assms] by (elim exE conjE)
  show "11 \<le> length (pg m ! p)" using n(1) by (auto simp: node_deserialize_def INTERNAL_HEADER_SIZE_def split: if_splits)
  show "b = InternalBody es r \<Longrightarrow> from_le (slice 0 1 (pg m ! p)) = NODE_TYPE_INTERNAL \<and> from_le (slice 7 4 (pg m ! p)) = r \<and>
      child_pages (pg m ! p) (from_le (slice 5 2 (pg m ! p))) INTERNAL_HEADER_SIZE = Ok (map snd es)"
    using n by (auto simp: node_deserialize_def Let_def map_outcome_Ok_iff read_page_def child_pages_entries split: if_splits)
  show "b = LeafBody ls prev nxt \<Longrightarrow> from_le (slice 0 1 (pg m ! p)) = NODE_TYPE_LEAF"
    using n by (auto simp: node_deserialize_def Let_def map_outcome_Ok_iff split: if_splits)
qed

text \<open>The walk with the trees below the pages on the stack.\<close>

lemma concat_map_perm: "mset xs = mset ys \<Longrightarrow> mset (concat (map g xs)) = mset (concat (map g ys))"
proof -
  have "mset (concat (map g zs)) = sum_mset (image_mset (\<lambda>z. mset (g z)) (mset zs))" for zs by (induction zs) simp_all
  then show "mset xs = mset ys \<Longrightarrow> mset (concat (map g xs)) = mset (concat (map g ys))" by simp
qed

lemma tree_pages_loop_spec:
  assumes m: "inv m" and "\<forall>t \<in> set ts. subtree_at m t \<and> shaped t" "sum_list (map (\<lambda>t. length (bodies t)) ts) \<le> fuel" "length buf = 65536"
  shows "\<exists>pages'. tree_pages_loop MA fuel (map root_page ts) buf pages m = (Ok pages', m) \<and>
    mset pages' = mset pages + mset (concat (map (\<lambda>t. map fst (bodies t)) ts))"
  using assms(2-)
proof (induction fuel arbitrary: ts buf pages)
  case 0
  have "ts = []"
  proof (cases ts)
    case (Cons t ts')
    then have "bodies t = []" using "0.prems"(2) by simp
    then show ?thesis by (cases t) (simp_all add: bodies_def)
  qed
  then show ?case by simp
next
  case (Suc fuel)
  show ?case
  proof (cases ts)
    case Nil
    then show ?thesis by simp
  next
    case (Cons t ts')
    have t: "subtree_at m t" "shaped t" using Suc.prems(1) by (simp_all add: Cons)
    show ?thesis
    proof (cases t)
      case (BLeaf p es)
      obtain prev nxt where s: "stores m p (LeafBody es prev nxt)" using t(1) by (auto simp: subtree_at_def BLeaf)
      have p: "p < length (pg m)" "length (pg m ! p) = 65536" using stores_length [OF m s] by simp_all
      have leaf: "from_le (slice 0 1 (pg m ! p)) = NODE_TYPE_LEAF" using stored_header(3) [OF s] by simp
      have "tree_pages_loop MA (Suc fuel) (map root_page ts) buf pages m = tree_pages_loop MA fuel (map root_page ts') (pg m ! p) (pages @ [p]) m"
        using read_into_page [OF m p(1) Suc.prems(3)] p(2) leaf by (simp add: Cons BLeaf NODE_TYPE_LEAF_def NODE_TYPE_INTERNAL_def)
      moreover obtain pages' where "tree_pages_loop MA fuel (map root_page ts') (pg m ! p) (pages @ [p]) m = (Ok pages', m)"
        "mset pages' = mset (pages @ [p]) + mset (concat (map (\<lambda>t. map fst (bodies t)) ts'))"
        using Suc.IH [of ts' "pg m ! p" "pages @ [p]"] Suc.prems p(2) by (auto simp: Cons BLeaf bodies_def)
      ultimately show ?thesis by (simp add: Cons BLeaf bodies_def)
    next
      case (BNode p ss cs)
      let ?body = "InternalBody (zip ss (map root_page cs)) (root_page (last cs))"
      have s: "stores m p ?body" using t(1) by (simp add: subtree_at_def BNode)
      have p: "p < length (pg m)" "length (pg m ! p) = 65536" using stores_length [OF m s] by simp_all
      note h = stored_header(2) [OF s refl]
      have len: "length cs = Suc (length ss)" using t(2) by (simp add: BNode)
      have "map snd (zip ss (map root_page cs)) = map root_page (butlast cs)"
        by (rule nth_equalityI) (use len in \<open>auto simp: nth_butlast\<close>)
      moreover have "cs \<noteq> []" using len by auto
      let ?ts = "rev (butlast cs) @ last cs # ts'"
      have perm: "mset (rev (butlast cs) @ [last cs]) = mset cs" using append_butlast_last_id [OF \<open>cs \<noteq> []\<close>] by (metis mset_append mset_rev)
      ultimately have "tree_pages_loop MA (Suc fuel) (map root_page ts) buf pages m = tree_pages_loop MA fuel (map root_page ?ts) (pg m ! p) (pages @ [p]) m"
        using read_into_page [OF m p(1) Suc.prems(3)] p(2) h by (simp add: Cons BNode rev_map)
      moreover have sub: "\<forall>t \<in> set ?ts. subtree_at m t \<and> shaped t"
      proof -
        have "set ?ts = set cs \<union> set ts'" using mset_eq_setD [OF perm] by auto
        moreover have "\<forall>c \<in> set cs. subtree_at m c \<and> shaped c" using t below_child by (auto simp: BNode)
        ultimately show ?thesis using Suc.prems(1) by (auto simp: Cons)
      qed
      moreover have "sum_list (map (\<lambda>t. length (bodies t)) ?ts) \<le> fuel"
      proof -
        have "length (bodies t) = Suc (sum_list (map (\<lambda>c. length (bodies c)) cs))"
          using arg_cong [OF pages_BNode [of p ss cs], of size] by (simp add: BNode length_concat o_def)
        moreover have "sum_list (map (\<lambda>c. length (bodies c)) (rev (butlast cs) @ [last cs])) = sum_list (map (\<lambda>c. length (bodies c)) cs)"
          using arg_cong [OF perm, of "\<lambda>M. sum_mset (image_mset (\<lambda>c. length (bodies c)) M)"] by (simp only: sum_mset_sum_list flip: mset_map)
        ultimately show ?thesis using Suc.prems(2) by (simp add: Cons)
      qed
      ultimately obtain pages' where r: "tree_pages_loop MA (Suc fuel) (map root_page ts) buf pages m = (Ok pages', m)"
        "mset pages' = mset (pages @ [p]) + mset (concat (map (\<lambda>t. map fst (bodies t)) ?ts))"
        using Suc.IH [OF sub, of "pg m ! p" "pages @ [p]"] p(2) by auto
      have "mset (concat (map (\<lambda>t. map fst (bodies t)) (rev (butlast cs) @ [last cs]))) = mset (concat (map (\<lambda>t. map fst (bodies t)) cs))"
        using perm by (rule concat_map_perm)
      then show ?thesis using r pages_BNode [of p ss cs] by (simp add: Cons BNode)
    qed
  qed
qed

lemma index_tree_pages_spec:
  assumes "inv m" "holds_tree KC V (pg m) t" "tree_ok t" "length (bodies t) \<le> fuel"
  shows "\<exists>pages. index_tree_pages MA fuel (root_page t) m = (Ok pages, m) \<and> distinct pages \<and> set pages = tree_pages t"
proof -
  obtain pages where "tree_pages_loop MA fuel [root_page t] (replicate 65536 0) [] m = (Ok pages, m)" "mset pages = mset (map fst (bodies t))"
    using tree_pages_loop_spec [OF assms(1), of "[t]" fuel "replicate 65536 0" "[]"] holds_below [OF assms(2)] assms(3,4) by (auto simp: tree_ok_def)
  then show ?thesis
    using assms(3) mset_eq_imp_distinct_iff [of pages "map fst (bodies t)"] mset_eq_setD [of pages "map fst (bodies t)"]
    by (intro exI [of _ pages]) (simp add: index_tree_pages_def tree_ok_def tree_pages_def)
qed

lemma release_all_spec:
  assumes "inv m" "pool_inv (pg m) U" "distinct pages" "set pages \<subseteq> U"
  shows "(\<exists>e m'. release_all MA pages m = (Err e, m') \<and> inv m') \<or>
    (\<exists>m'. release_all MA pages m = (Ok (), m') \<and> inv m' \<and> pool_inv (pg m') (U - set pages))"
  using assms
proof (induction pages arbitrary: m U)
  case (Cons p pages)
  obtain r m1 where u: "unclaim_page MA p m = (r, m1)" by (cases "unclaim_page MA p m")
  note s = unclaim_pool [OF Cons.prems(1,2) _ u]
  show ?case
  proof (cases r)
    case (Ok a)
    have "U - set (p # pages) = U - {p} - set pages" by auto
    then show ?thesis using Cons.IH [of m1 "U - {p}"] s Cons.prems(3,4) u Ok by auto
  next
    case (Err e)
    then show ?thesis using s u Cons.prems(4) by auto
  next
    case Panic
    then show ?thesis using s Cons.prems(4) by simp
  qed
qed simp

lemma release_tree_spec:
  assumes "inv m" "pool_inv (pg m) U" "holds_tree KC V (pg m) t" "tree_ok t" "tree_pages t \<subseteq> U" "length (bodies t) \<le> fuel"
  shows "(\<exists>e m'. release_index_tree_pages MA fuel (root_page t) m = (Err e, m') \<and> inv m') \<or>
    (\<exists>m'. release_index_tree_pages MA fuel (root_page t) m = (Ok (), m') \<and> inv m' \<and> pool_inv (pg m') (U - tree_pages t))"
proof -
  obtain pages where "index_tree_pages MA fuel (root_page t) m = (Ok pages, m)" "distinct pages" "set pages = tree_pages t"
    using index_tree_pages_spec [OF assms(1,3,4,6)] by (elim exE conjE)
  then show ?thesis using release_all_spec [OF assms(1,2), of pages] assms(5) by (simp add: release_index_tree_pages_def)
qed

end

end
