(* ===== verification/Value_Codecs.thy ===== *)
theory Value_Codecs
  imports Encoding
begin

text \<open>
  Encodings of values that records and index keys are made of (\<^verbatim>\<open>wasm-dbms-api/src/dbms/types\<close>): the
  fixed-size unsigned integers of the macro in \<^verbatim>\<open>integers.rs\<close> and the byte strings of \<^verbatim>\<open>blob.rs\<close>. They satisfy
  the laws storage relies on, a byte string up to the length its size can express.
\<close>

section \<open>Unsigned integers\<close>

text \<open>\<open>uint_type n\<close> is the integer type of \<open>n\<close> bytes; its alignment is its size.\<close>

definition uint_decode :: "nat \<Rightarrow> byte list \<Rightarrow> nat memory_result" where
  "uint_decode n data = (if length data < n then Err (DecodeError TooShort) else Ok (from_le (slice 0 n data)))"

definition uint_type :: "nat \<Rightarrow> nat codec" where
  "uint_type n = \<lparr>SIZE = Fixed n, ALIGNMENT = n, encode = le_bytes n, decode = uint_decode n, enc_size = (\<lambda>_. n)\<rparr>"

lemma uint_codec: "0 < n \<Longrightarrow> n \<le> 65535 \<Longrightarrow> prefix_encoding (uint_type n) (\<lambda>i. i < 256 ^ n)"
  by unfold_locales (auto simp: uint_type_def uint_decode_def slice_def)

interpretation uint32_codec: prefix_encoding "uint_type 4" "\<lambda>i. i < 256 ^ 4"
  by (rule uint_codec) simp_all

section \<open>Byte strings\<close>

definition blob_encode :: "byte list \<Rightarrow> byte list" where
  "blob_encode bs = length_prefix (length bs) @ bs"

definition blob_decode :: "byte list \<Rightarrow> byte list memory_result" where
  "blob_decode data =
     (if length data < 2 then Err (DecodeError TooShort)
      else let buf_len = from_le (slice 0 2 data) in
        if length data < 2 + buf_len then Err (DecodeError TooShort) else Ok (slice 2 buf_len data))"

definition blob_type :: "byte list codec" where
  "blob_type = \<lparr>SIZE = Dynamic, ALIGNMENT = DEFAULT_ALIGNMENT, encode = blob_encode, decode = blob_decode,
     enc_size = (\<lambda>bs. saturating_size 2 (length bs))\<rparr>"

interpretation blob_codec: prefix_encoding blob_type "\<lambda>bs. length bs \<le> 65533"
proof unfold_locales
  fix bs rest :: "byte list" assume len: "length bs \<le> 65533"
  have pre: "slice 0 2 (length_prefix (length bs) @ xs) = length_prefix (length bs)" for xs by (simp add: slice_def)
  show dec: "decode blob_type (encode blob_type bs @ rest) = Ok bs"
    using len by (simp add: blob_type_def blob_decode_def blob_encode_def pre from_le_length_prefix Let_def slice_def)
  show "decode blob_type (encode blob_type bs) = Ok bs"
    using len by (simp add: blob_type_def blob_decode_def blob_encode_def pre from_le_length_prefix Let_def slice_def)
  show "enc_size blob_type bs = length (encode blob_type bs)" using len by (simp add: blob_type_def blob_encode_def saturating_size_exact)
  show "length (encode blob_type bs) \<le> 65535" using len by (simp add: blob_type_def blob_encode_def)
qed (simp_all add: blob_type_def DEFAULT_ALIGNMENT_def)

end
