(* ===== verification/Index_Store.thy ===== *)
theory Index_Store
  imports Index_Pages Memory_Manager Value_Codecs
begin

text \<open>
  The B+ tree of an index in the memory of the database. \<open>holds_index KC V h U T\<close>: the heap \<open>h\<close> holds the tree \<open>T\<close>
  of an index with keys of the codec \<open>KC\<close> on pages that belong to it. The theorems say what each operation
  of the tree does to the entries the index holds.
\<close>

section \<open>Indexes in the heap\<close>

definition holds_index :: "('k :: linorder) codec \<Rightarrow> ('k \<Rightarrow> bool) \<Rightarrow> heap_memory \<Rightarrow> nat set \<Rightarrow> 'k btree \<Rightarrow> bool" where
  "holds_index KC V h U T \<longleftrightarrow> heap_inv h \<and> pool_inv (mm_pages memory h) U \<and> holds_tree KC V (mm_pages memory h) T \<and> tree_ok T \<and> tree_pages T \<subseteq> U"

text \<open>The leaf has room for one entry more.\<close>

definition leaf_room :: "'k codec \<Rightarrow> 'k \<Rightarrow> 'k btree \<Rightarrow> bool" where
  "leaf_room KC key T \<longleftrightarrow> (\<forall>(p, es) \<in> set (leaves T). entries_fit (encode KC) 15 6 (key # map fst es))"

interpretation heap_index: index_memory heap_mm heap_inv "mm_pages memory" "uint_type 4" "\<lambda>i. i < 256 ^ 4"
  by (rule index_memory.intro) (rule heap.mm.memory_access_axioms, rule uint32_codec.encoding_axioms)

lemma heap_index_memory: "encoding KC V \<Longrightarrow> index_memory heap_mm heap_inv (mm_pages memory) KC V"
  by (rule index_memory.intro [OF heap.mm.memory_access_axioms])

text \<open>A tree has fewer nodes than the memory has pages, which bounds the steps of every walk.\<close>

lemma nodes_below_pages:
  assumes "holds_index KC V h U T"
  shows "length (bodies T) < length (mm_pages memory h)"
proof -
  have "distinct (map fst (bodies T))" "set (map fst (bodies T)) \<subseteq> U"
    using assms by (auto simp: holds_index_def tree_ok_def tree_pages_def)
  moreover have "U \<subseteq> {2..<length (mm_pages memory h)}" "2 \<le> length (mm_pages memory h)"
    using assms by (auto simp: holds_index_def pool_inv_def)
  ultimately have "length (bodies T) \<le> card {2..<length (mm_pages memory h)}"
    by (metis card_mono distinct_card finite_atLeastLessThan length_map subset_trans)
  then show ?thesis using \<open>2 \<le> _\<close> by simp
qed

lemma holds_indexD:
  assumes "holds_index KC V h U T" "length (mm_pages memory h) \<le> fuel"
  shows "heap_inv h" "pool_inv (mm_pages memory h) U" "holds_tree KC V (mm_pages memory h) T" "tree_ok T" "tree_pages T \<subseteq> U" "length (bodies T) < fuel"
  using assms nodes_below_pages [OF assms(1)] by (auto simp: holds_index_def)

text \<open>Insertion, with the cause of an error.\<close>

lemma tree_insert_index:
  assumes "encoding KC V" and "holds_index KC V h U T" and "length (mm_pages memory h) \<le> fuel" and "V key" and "ra_wf ptr"
  obtains (err) e h' where "tree_insert heap_mm KC fuel (root_page T) key ptr h = (Err e, h')" "heap_inv h'" "\<not> leaf_room KC key T"
    | (ok) h' U' T' xs ys where "tree_insert heap_mm KC fuel (root_page T) key ptr h = (Ok (root_page T'), h')" "holds_index KC V h' U' T'" "U \<subseteq> U'"
      "tree_pages T' = tree_pages T \<union> (U' - U)" "tree_entries T = xs @ ys" "tree_entries T' = xs @ (key, ptr) # ys"
      "\<forall>x \<in> U - tree_pages T. mm_pages memory h' ! x = mm_pages memory h ! x"
proof -
  note ix = heap_index_memory [OF assms(1)]
  note D = holds_indexD [OF assms(2,3)]
  have room: "\<exists>h'. tree_insert heap_mm KC fuel (root_page T) key ptr h = (Ok (root_page T), h')" if "leaf_room KC key T"
    using index_memory.tree_insert_room [OF ix D assms(4,5)] that by (simp add: leaf_room_def)
  from index_memory.tree_insert_spec [OF ix D assms(4,5)] show thesis
  proof (elim disjE exE conjE)
    fix e h' assume "tree_insert heap_mm KC fuel (root_page T) key ptr h = (Err e, h')" "heap_inv h'"
    then show thesis using err room by auto
  next
    fix h' U' T' xs ys
    assume r: "tree_insert heap_mm KC fuel (root_page T) key ptr h = (Ok (root_page T'), h')" "heap_inv h'" "pool_inv (mm_pages memory h') U'" "U \<subseteq> U'"
      "holds_tree KC V (mm_pages memory h') T'" "tree_ok T'" "tree_pages T' = tree_pages T \<union> (U' - U)"
      "\<forall>x \<in> U - tree_pages T. mm_pages memory h' ! x = mm_pages memory h ! x"
      "tree_entries T = xs @ ys" "tree_entries T' = xs @ (key, ptr) # ys"
    have "holds_index KC V h' U' T'" using r(2-7) D(5) by (auto simp: holds_index_def)
    then show thesis by (rule ok [OF r(1) _ r(4,7,9,10,8)])
  qed
qed

text \<open>A new index of integers on a fresh heap, and its first entry.\<close>

abbreviation u32_index :: "heap_memory \<Rightarrow> nat set \<Rightarrow> nat btree \<Rightarrow> bool" where
  "u32_index \<equiv> holds_index (uint_type 4) (\<lambda>i. i < 256 ^ 4)"

lemma u32_codec: "encoding (uint_type 4) (\<lambda>i. i < 256 ^ 4)"
  by (rule uint32_codec.encoding_axioms)

lemma fresh_index:
  obtains h where "tree_init heap_mm (uint_type 4) (blank_heap 2) = (Ok 2, h)" "u32_index h {2} (BLeaf 2 [])"
proof -
  have "heap_inv (blank_heap 2)" "pool_inv (mm_pages memory (blank_heap 2)) {}" by (simp_all add: blank_heap_inv pool_inv_blank)
  from heap_index.tree_init_spec [OF this] claim_blank [of 2] that show thesis
    by (auto simp: holds_index_def tree_pages_def bodies_def)
qed

lemma room_in_empty: "k < 256 ^ 4 \<Longrightarrow> leaf_room (uint_type 4) k (BLeaf p [])"
  by (simp add: leaf_room_def entries_fit_def key_fits_def uint_type_def u16_max_def)

lemma one_entry:
  assumes "k < 256 ^ 4" and "ra_wf a"
  obtains h U T where "u32_index h U T" "tree_entries T = [(k, a)]"
proof -
  obtain h where h: "u32_index h {2} (BLeaf 2 [])" using fresh_index by blast
  show thesis
    by (rule tree_insert_index [OF u32_codec h order_refl assms]) (use that room_in_empty [OF assms(1)] in \<open>auto simp: tree_entries_def\<close>)
qed

section \<open>Reading an index\<close>

text \<open>C12: reading an index finds exactly its entries. A search for a key with a limit returns the record addresses of all
  entries with that key in order, or nothing when there are more than the limit; a range scan read to its end
  returns the entries from the start key up to, and without, the end key. Neither changes the memory, and both end:
  as many steps as there are pages are enough.\<close>

theorem index_reads_exact:
  assumes "encoding KC V" and "holds_index KC V h U T" and "length (mm_pages memory h) \<le> fuel" and "length (tree_entries T) < calls"
  shows "search_limited heap_mm KC fuel (root_page T) key limit h =
      (Ok (if length (pointers_of key (tree_entries T)) \<le> limit then Some (pointers_of key (tree_entries T)) else None), h) \<and>
    mbind (tree_range_scan heap_mm KC fuel (root_page T) start stop) (drain heap_mm KC fuel calls) h =
      (Ok (filter (\<lambda>e. in_range start stop (fst e)) (tree_entries T)), h)"
  using index_memory.search_limited_spec [OF heap_index_memory [OF assms(1)] holds_indexD(1,3,4,6) [OF assms(2,3)], of key limit]
    index_memory.range_scan_spec [OF heap_index_memory [OF assms(1)] holds_indexD(1,3,4,6) [OF assms(2,3)] assms(4), of start stop]
  by (simp add: Let_def)

theorem index_reads_exact_witness:
  "\<exists>h fuel root. search_limited heap_mm (uint_type 4) fuel root 7 5 h = (Ok (Some [\<lparr>ra_page = 9, ra_offset = 64\<rparr>]), h) \<and>
     search_limited heap_mm (uint_type 4) fuel root 7 0 h = (Ok None, h) \<and> search_limited heap_mm (uint_type 4) fuel root 8 0 h = (Ok (Some []), h) \<and>
     mbind (tree_range_scan heap_mm (uint_type 4) fuel root 3 (Some 8)) (drain heap_mm (uint_type 4) fuel 2) h = (Ok [(7, \<lparr>ra_page = 9, ra_offset = 64\<rparr>)], h) \<and>
     mbind (tree_range_scan heap_mm (uint_type 4) fuel root 3 (Some 7)) (drain heap_mm (uint_type 4) fuel 2) h = (Ok [], h)"
proof -
  let ?a = "\<lparr>ra_page = 9, ra_offset = 64\<rparr>"
  obtain h U T where t: "u32_index h U T" "tree_entries T = [(7, ?a)]" using one_entry [of 7 ?a] by (auto simp: ra_wf_def)
  note r = index_reads_exact [OF u32_codec t(1) order_refl, of 2]
  show ?thesis
    using r [of 7 5 3 "Some 8"] r [of 7 0 3 "Some 7"] r [of 8 0 3 "Some 7"] t(2)
    by (intro exI [of _ h] exI [of _ "length (mm_pages memory h)"] exI [of _ "root_page T"]) (simp add: pointers_of_def in_range_def)
qed

section \<open>Changing an index\<close>

text \<open>C10: inserting an entry into an index never panics. It either returns the root of a tree that holds the old entries
  and the new one at its place in the order, on the old pages and newly claimed ones, with every page that is
  not the tree's unchanged; or it returns an error, which means that some leaf had no room for the entry.\<close>

theorem index_insert_correct:
  assumes "encoding KC V" and "holds_index KC V h U T" and "length (mm_pages memory h) \<le> fuel" and "V key" and "ra_wf ptr"
  shows "case tree_insert heap_mm KC fuel (root_page T) key ptr h of
      (Ok root, h') \<Rightarrow> \<exists>U' T'. root = root_page T' \<and> holds_index KC V h' U' T' \<and> U \<subseteq> U' \<and> tree_pages T' = tree_pages T \<union> (U' - U) \<and>
        (\<exists>xs ys. tree_entries T = xs @ ys \<and> tree_entries T' = xs @ (key, ptr) # ys) \<and>
        (\<forall>x \<in> U - tree_pages T. mm_pages memory h' ! x = mm_pages memory h ! x)
    | (Err e, h') \<Rightarrow> heap_inv h' \<and> \<not> leaf_room KC key T
    | (Panic, h') \<Rightarrow> False"
  by (rule tree_insert_index [OF assms]) auto

theorem index_insert_correct_witness:
  "\<exists>h h' fuel U' T'. tree_init heap_mm (uint_type 4) (blank_heap 2) = (Ok 2, h) \<and>
     tree_insert heap_mm (uint_type 4) fuel 2 7 \<lparr>ra_page = 9, ra_offset = 64\<rparr> h = (Ok (root_page T'), h') \<and>
     u32_index h' U' T' \<and> tree_entries T' = [(7, \<lparr>ra_page = 9, ra_offset = 64\<rparr>)]"
proof -
  let ?a = "\<lparr>ra_page = 9, ra_offset = 64\<rparr>"
  obtain h where h: "tree_init heap_mm (uint_type 4) (blank_heap 2) = (Ok 2, h)" "u32_index h {2} (BLeaf 2 [])" by (rule fresh_index)
  have a: "ra_wf ?a" by (simp add: ra_wf_def)
  let ?n = "length (mm_pages memory h)"
  have room: "leaf_room (uint_type 4) 7 (BLeaf 2 [])" by (rule room_in_empty) simp
  obtain r h' where run: "tree_insert heap_mm (uint_type 4) ?n 2 7 ?a h = (r, h')" by (cases "tree_insert heap_mm (uint_type 4) ?n 2 7 ?a h")
  show ?thesis
    using index_insert_correct [OF u32_codec h(2) order_refl _ a, of 7] run room h(1) by (cases r) (auto simp: tree_entries_def)
qed

text \<open>C11: deleting an entry from an index takes out exactly that entry: the tree keeps its root and its pages, holds the
  other entries, and no page of another owner changes. When the index does not hold the entry, the
  deletion answers that there is none and the memory is as before.\<close>

theorem index_delete_exact:
  assumes "encoding KC V" and "holds_index KC V h U T" and "length (mm_pages memory h) \<le> fuel"
  shows "if (key, ptr) \<in> set (tree_entries T)
    then \<exists>h' T'. tree_delete heap_mm KC fuel (root_page T) key ptr h = (Ok (), h') \<and> holds_index KC V h' U T' \<and>
      root_page T' = root_page T \<and> tree_pages T' = tree_pages T \<and> tree_entries T' = remove1 (key, ptr) (tree_entries T) \<and>
      (\<forall>x. x \<notin> tree_pages T \<longrightarrow> mm_pages memory h' ! x = mm_pages memory h ! x)
    else tree_delete heap_mm KC fuel (root_page T) key ptr h = (Err EntryNotFound, h)"
proof (cases "(key, ptr) \<in> set (tree_entries T)")
  case True
  note D = holds_indexD [OF assms(2,3)]
  obtain h' T' q c where r: "tree_delete heap_mm KC fuel (root_page T) key ptr h = (Ok (), h')" "heap_inv h'" "holds_tree KC V (mm_pages memory h') T'" "tree_ok T'"
    "root_page T' = root_page T" "tree_pages T' = tree_pages T" "tree_entries T' = remove1 (key, ptr) (tree_entries T)"
    "q \<in> tree_pages T" "mm_pages memory h' = (mm_pages memory h)[q := c]"
    using index_memory.delete_spec [OF heap_index_memory [OF assms(1)] D(1,3,4,6), of key ptr] True by auto
  have "pool_inv (mm_pages memory h') U" unfolding r(9) using D(2,5) r(8) by (intro pool_inv_update) auto
  then have "holds_index KC V h' U T'" using r(2-4,6) D(5) by (simp add: holds_index_def)
  moreover have "\<forall>x. x \<notin> tree_pages T \<longrightarrow> mm_pages memory h' ! x = mm_pages memory h ! x" unfolding r(9) using r(8) by (metis nth_list_update_neq)
  ultimately show ?thesis using True r(1,5-7) by auto
next
  case False
  then show ?thesis using index_memory.delete_spec [OF heap_index_memory [OF assms(1)] holds_indexD(1,3,4,6) [OF assms(2,3)], of key ptr] by simp
qed

theorem index_delete_exact_witness:
  "\<exists>h h' fuel root U T'. search_limited heap_mm (uint_type 4) fuel root 7 5 h = (Ok (Some [\<lparr>ra_page = 9, ra_offset = 64\<rparr>]), h) \<and>
     tree_delete heap_mm (uint_type 4) fuel root 7 \<lparr>ra_page = 9, ra_offset = 64\<rparr> h = (Ok (), h') \<and> u32_index h' U T' \<and>
     root_page T' = root \<and> tree_entries T' = [] \<and>
     tree_delete heap_mm (uint_type 4) fuel root 8 \<lparr>ra_page = 9, ra_offset = 64\<rparr> h = (Err EntryNotFound, h)"
proof -
  let ?a = "\<lparr>ra_page = 9, ra_offset = 64\<rparr>"
  obtain h U T where t: "u32_index h U T" "tree_entries T = [(7, ?a)]" using one_entry [of 7 ?a] by (auto simp: ra_wf_def)
  let ?n = "length (mm_pages memory h)"
  note d = index_delete_exact [OF u32_codec t(1) order_refl]
  have "search_limited heap_mm (uint_type 4) ?n (root_page T) 7 5 h = (Ok (Some [?a]), h)"
    using heap_index.search_limited_spec [OF holds_indexD(1,3,4,6) [OF t(1) order_refl], of 7 5] t(2) by (simp add: pointers_of_def)
  moreover obtain h' T' where "tree_delete heap_mm (uint_type 4) ?n (root_page T) 7 ?a h = (Ok (), h')" "u32_index h' U T'"
    "root_page T' = root_page T" "tree_entries T' = []" using d [of 7 ?a] t(2) by auto
  moreover have "tree_delete heap_mm (uint_type 4) ?n (root_page T) 8 ?a h = (Err EntryNotFound, h)" using d [of 8 ?a] t(2) by simp
  ultimately show ?thesis by metis
qed

end
