(* ===== verification/Json_Value.thy ===== *)
theory Json_Value
  imports Prelude Complex_Main "HOL-Library.List_Lexorder" "HOL-Library.Char_ord"
begin

text \<open>
  The JSON documents of \<^verbatim>\<open>wasm-dbms-api/src/dbms/types/json.rs\<close> and their order. A Rust \<^verbatim>\<open>String\<close> is the
  list of its UTF-8 bytes, one \<^typ>\<open>char\<close> each, so that \<^verbatim>\<open>str::cmp\<close> is the lexicographic order of
  \<^typ>\<open>string\<close>. Documents are taken up to the equality of the source, which is \<^verbatim>\<open>cmp_value = Equal\<close>: a
  finite \<^verbatim>\<open>f64\<close> is its exact value (so \<^verbatim>\<open>0.0\<close> and \<^verbatim>\<open>-0.0\<close> are one number) and the cached text of a
  document is left to its encoding.
\<close>

section \<open>Comparison results\<close>

datatype ordering = Less | Equal | Greater

primrec reverse_ord :: "ordering \<Rightarrow> ordering" where
  "reverse_ord Less = Greater"
| "reverse_ord Equal = Equal"
| "reverse_ord Greater = Less"

text \<open>\<^verbatim>\<open>Ordering::then\<close>, and \<^verbatim>\<open>Ord::cmp\<close> of a type with a linear order.\<close>

definition then_ord :: "ordering \<Rightarrow> ordering \<Rightarrow> ordering" where
  "then_ord r s = (if r = Equal then s else r)"

definition cmp :: "'a :: linorder \<Rightarrow> 'a \<Rightarrow> ordering" where
  "cmp a b = (if a < b then Less else if a = b then Equal else Greater)"

lemma cmp_simps [simp]:
  "cmp a b = Less \<longleftrightarrow> a < b" "cmp a b = Equal \<longleftrightarrow> a = b" "cmp a b = Greater \<longleftrightarrow> b < a"
  "reverse_ord (cmp a b) = cmp b a" "cmp a a = Equal"
  by (auto simp: cmp_def)

lemma reverse_ord_simps [simp]:
  "reverse_ord r = Equal \<longleftrightarrow> r = Equal" "reverse_ord (reverse_ord r) = r"
  "reverse_ord r = Less \<longleftrightarrow> r = Greater" "reverse_ord r = Greater \<longleftrightarrow> r = Less"
  by (cases r; simp)+

lemma then_ord_simps [simp]: "then_ord Equal s = s" "r \<noteq> Equal \<Longrightarrow> then_ord r s = r"
  by (auto simp: then_ord_def)

section \<open>Documents\<close>

text \<open>
  \<^verbatim>\<open>serde_json::Value\<close>. A number is a \<^verbatim>\<open>u64\<close>, a negative \<^verbatim>\<open>i64\<close> (\<open>NegInt w\<close> is \<open>- 1 - w\<close>) or a finite float;
  an object lists its entries in the key order of the \<^verbatim>\<open>BTreeMap\<close> that holds them.
\<close>

datatype json_number = PosInt "64 word" | NegInt "63 word" | FloatNum rat

datatype json =
    JNull
  | JBool bool
  | JNumber json_number
  | JString string
  | JArray "json list"
  | JObject "(string \<times> json) list"

primrec type_order :: "json \<Rightarrow> nat" where
  "type_order JNull = 0"
| "type_order (JBool _) = 1"
| "type_order (JNumber _) = 2"
| "type_order (JString _) = 3"
| "type_order (JArray _) = 4"
| "type_order (JObject _) = 5"

definition cmp_float :: "rat \<Rightarrow> rat \<Rightarrow> ordering" where
  "cmp_float a b = cmp a b"

definition I128_UPPER :: rat where "I128_UPPER = 2 ^ 127"

definition cmp_int_float :: "int \<Rightarrow> rat \<Rightarrow> ordering" where
  "cmp_int_float i f =
     (if f \<ge> I128_UPPER then Less
      else if f < - I128_UPPER then Greater
      else let truncated = (if f \<ge> 0 then \<lfloor>f\<rfloor> else \<lceil>f\<rceil>)
           in then_ord (cmp i truncated) (cmp_float 0 (f - of_int truncated)))"

text \<open>\<^verbatim>\<open>JsonNumber\<close>, the lossless view of a number.\<close>

datatype json_num_view = JInt int | JFloat rat

primrec json_number_view :: "json_number \<Rightarrow> json_num_view" where
  "json_number_view (PosInt w) = JInt (uint w)"
| "json_number_view (NegInt w) = JInt (- 1 - uint w)"
| "json_number_view (FloatNum f) = JFloat f"

definition cmp_number :: "json_number \<Rightarrow> json_number \<Rightarrow> ordering" where
  "cmp_number a b =
     (case (json_number_view a, json_number_view b) of
        (JInt a, JInt b) \<Rightarrow> cmp a b
      | (JFloat a, JFloat b) \<Rightarrow> cmp_float a b
      | (JInt a, JFloat b) \<Rightarrow> then_ord (cmp_int_float a b) Less
      | (JFloat a, JInt b) \<Rightarrow> then_ord (reverse_ord (cmp_int_float b a)) Greater)"

text \<open>
  The loops of \<^verbatim>\<open>cmp_array\<close> and \<^verbatim>\<open>cmp_object\<close> over the zipped sequences, with the comparison of the
  lengths at the end; sorting the keys of an object leaves them as they are.
\<close>

fun cmp_value :: "json \<Rightarrow> json \<Rightarrow> ordering"
  and cmp_array :: "json list \<Rightarrow> json list \<Rightarrow> ordering"
  and cmp_object :: "(string \<times> json) list \<Rightarrow> (string \<times> json) list \<Rightarrow> ordering" where
  "cmp_value (JBool a) (JBool b) = cmp a b"
| "cmp_value (JNumber a) (JNumber b) = cmp_number a b"
| "cmp_value (JString a) (JString b) = cmp a b"
| "cmp_value (JArray a) (JArray b) = cmp_array a b"
| "cmp_value (JObject a) (JObject b) = cmp_object a b"
| "cmp_value a b = cmp (type_order a) (type_order b)"
| "cmp_array (x # xs) (y # ys) = then_ord (cmp_value x y) (cmp_array xs ys)"
| "cmp_array xs ys = cmp (length xs) (length ys)"
| "cmp_object ((k, v) # xs) ((l, w) # ys) = then_ord (cmp k l) (then_ord (cmp_value v w) (cmp_object xs ys))"
| "cmp_object xs ys = cmp (length xs) (length ys)"

section \<open>The order is linear\<close>

text \<open>The exact value of a number, and the key it is ordered by: integers come before equal floats.\<close>

primrec view_val :: "json_num_view \<Rightarrow> rat" where
  "view_val (JInt i) = of_int i"
| "view_val (JFloat f) = f"

primrec is_float :: "json_num_view \<Rightarrow> bool" where
  "is_float (JInt i) \<longleftrightarrow> False"
| "is_float (JFloat f) \<longleftrightarrow> True"

abbreviation num_val :: "json_number \<Rightarrow> rat" where
  "num_val n \<equiv> view_val (json_number_view n)"

definition json_int_ok :: "int \<Rightarrow> bool" where
  "json_int_ok i \<longleftrightarrow> - (2 ^ 127) \<le> i \<and> i < 2 ^ 127"

lemma cmp_int_float_exact:
  assumes "json_int_ok i"
  shows "cmp_int_float i f = cmp (of_int i) f"
proof -
  consider "f \<ge> I128_UPPER" | "f < - I128_UPPER" | "f < I128_UPPER" "f \<ge> - I128_UPPER" by linarith
  then show ?thesis
  proof cases
    case 1
    have "(of_int i :: rat) < of_int (2 ^ 127)" using assms unfolding json_int_ok_def of_int_less_iff by simp
    then have "of_int i < f" using 1 by (simp add: I128_UPPER_def)
    then show ?thesis using 1 by (simp add: cmp_int_float_def cmp_def)
  next
    case 2
    have "(of_int (- (2 ^ 127)) :: rat) \<le> of_int i" using assms unfolding json_int_ok_def of_int_le_iff by simp
    then have "f < of_int i" using 2 by (simp add: I128_UPPER_def)
    moreover have "\<not> f \<ge> I128_UPPER" using 2 by (simp add: I128_UPPER_def)
    ultimately show ?thesis using 2 by (auto simp: cmp_int_float_def cmp_def)
  next
    case 3
    let ?t = "if f \<ge> 0 then \<lfloor>f\<rfloor> else \<lceil>f\<rceil>"
    have t: "then_ord (cmp i ?t) (cmp 0 (f - of_int ?t)) = cmp (of_int i) f"
    proof (cases "f \<ge> 0")
      case True
      have "of_int \<lfloor>f\<rfloor> \<le> f" "f < of_int \<lfloor>f\<rfloor> + 1" by linarith+
      then have "(i < \<lfloor>f\<rfloor> \<longrightarrow> of_int i < f)" "(\<lfloor>f\<rfloor> < i \<longrightarrow> f < of_int i)" by linarith+
      then show ?thesis using True by (auto simp: cmp_def then_ord_def)
    next
      case False
      have "f \<le> of_int \<lceil>f\<rceil>" "of_int \<lceil>f\<rceil> < f + 1" by linarith+
      then have "(i < \<lceil>f\<rceil> \<longrightarrow> of_int i < f)" "(\<lceil>f\<rceil> < i \<longrightarrow> f < of_int i)" by linarith+
      then show ?thesis using False by (auto simp: cmp_def then_ord_def)
    qed
    show ?thesis using 3 t by (simp add: cmp_int_float_def cmp_float_def Let_def)
  qed
qed

lemma json_int_ok_view: "json_number_view n = JInt i \<Longrightarrow> json_int_ok i"
proof (cases n)
  case (PosInt w)
  moreover have "uint w < 2 ^ 64" "0 \<le> uint w" using uint_lt2p [of w] by (simp_all del: uint_lt2p)
  ultimately show "json_number_view n = JInt i \<Longrightarrow> json_int_ok i" unfolding json_int_ok_def by auto
next
  case (NegInt w)
  have "uint w < 2 ^ 63" "0 \<le> uint w" using uint_lt2p [of w] by (simp_all del: uint_lt2p)
  moreover assume "json_number_view n = JInt i"
  then have "i = - 1 - uint w" using NegInt by simp
  ultimately have "i < 0" "- (2 ^ 63) \<le> i" by linarith+
  then show "json_int_ok i" unfolding json_int_ok_def by simp
qed simp

lemma cmp_number_key:
  "cmp_number a b =
     then_ord (cmp (num_val a) (num_val b)) (cmp (is_float (json_number_view a)) (is_float (json_number_view b)))"
  by (cases "json_number_view a"; cases "json_number_view b")
    (auto simp: cmp_number_def cmp_float_def cmp_int_float_exact json_int_ok_view cmp_def then_ord_def)

lemma view_inj: "json_number_view a = json_number_view b \<longleftrightarrow> a = b"
proof (cases a; cases b)
  fix w v assume ab: "a = PosInt w" "b = NegInt v"
  have "uint w \<noteq> - 1 - uint v" using uint_ge_0 [of w] uint_ge_0 [of v] by linarith
  then show ?thesis using ab by simp
next
  fix w v assume ab: "a = NegInt w" "b = PosInt v"
  have "- 1 - uint w \<noteq> uint v" using uint_ge_0 [of w] uint_ge_0 [of v] by linarith
  then show ?thesis using ab by simp
qed (auto simp: word_uint_eq_iff)

lemma num_key_inj:
  "num_val a = num_val b \<Longrightarrow> is_float (json_number_view a) = is_float (json_number_view b) \<Longrightarrow> a = b"
  by (cases "json_number_view a"; cases "json_number_view b") (auto simp: view_inj [symmetric])

lemma type_order_0 [simp]: "type_order a = 0 \<longleftrightarrow> a = JNull" "0 = type_order a \<longleftrightarrow> a = JNull"
  by (cases a; auto)+

text \<open>The three laws of a linear order, for a comparison function.\<close>

lemma cmp_number_Equal: "cmp_number a b = Equal \<longleftrightarrow> a = b"
  using num_key_inj [of a b] by (auto simp: cmp_number_key then_ord_def)

lemma cmp_number_reverse: "cmp_number b a = reverse_ord (cmp_number a b)"
  by (auto simp: cmp_number_key then_ord_def cmp_def)

lemma cmp_number_trans: "cmp_number a b = Less \<Longrightarrow> cmp_number b c = Less \<Longrightarrow> cmp_number a c = Less"
  by (auto simp: cmp_number_key then_ord_def split: if_splits)

lemma cmp_value_Equal:
  "cmp_value a b = Equal \<longleftrightarrow> a = b"
  "cmp_array xs ys = Equal \<longleftrightarrow> xs = ys"
  "cmp_object es fs = Equal \<longleftrightarrow> es = fs"
  by (induction a b and xs ys and es fs rule: cmp_value_cmp_array_cmp_object.induct)
    (auto simp: cmp_number_Equal then_ord_def)

lemma cmp_value_mixed: "type_order a \<noteq> type_order b \<Longrightarrow> cmp_value a b = cmp (type_order a) (type_order b)"
  by (cases a; cases b) auto

lemma cmp_lengths [simp]:
  "cmp_array [] ys = cmp 0 (length ys)" "cmp_array xs [] = cmp (length xs) 0"
  "cmp_object [] fs = cmp 0 (length fs)" "cmp_object es [] = cmp (length es) 0"
  by (cases ys; cases xs; cases fs; cases es; simp)+

lemma cmp_value_reverse:
  "cmp_value b a = reverse_ord (cmp_value a b)"
  "cmp_array ys xs = reverse_ord (cmp_array xs ys)"
  "cmp_object fs es = reverse_ord (cmp_object es fs)"
proof (induction a b and xs ys and es fs rule: cmp_value_cmp_array_cmp_object.induct)
  case (2 a b)
  show ?case by (simp add: cmp_number_reverse [of b a])
qed (simp_all add: then_ord_def)

text \<open>Transitivity: the middle term of the three has the type of the outer ones when these agree.\<close>

lemma cmp_value_type: "cmp_value a b = Less \<Longrightarrow> type_order a \<le> type_order b"
  by (cases "type_order a = type_order b") (auto simp: cmp_value_mixed)

lemma cmp_value_asym: "cmp_value a b = Less \<Longrightarrow> cmp_value b a \<noteq> Less"
  by (simp add: cmp_value_reverse(1) [of b a])

lemma cmp_value_trans:
  "cmp_value a b = Less \<Longrightarrow> cmp_value b c = Less \<Longrightarrow> cmp_value a c = Less"
  "cmp_array xs ys = Less \<Longrightarrow> cmp_array ys zs = Less \<Longrightarrow> cmp_array xs zs = Less"
  "cmp_object es fs = Less \<Longrightarrow> cmp_object fs gs = Less \<Longrightarrow> cmp_object es gs = Less"
proof (induction a b and xs ys and es fs arbitrary: c and zs and gs
    rule: cmp_value_cmp_array_cmp_object.induct)
  case (1 a b)
  then show ?case by (cases c) (auto simp: cmp_value_mixed)
next
  case (2 a b)
  then show ?case by (cases c) (auto simp: cmp_value_mixed intro: cmp_number_trans)
next
  case (3 a b)
  then show ?case by (cases c) (auto simp: cmp_value_mixed)
next
  case (4 a b)
  then show ?case by (cases c) (auto simp: cmp_value_mixed)
next
  case (5 a b)
  then show ?case by (cases c) (auto simp: cmp_value_mixed)
next
  case (7 x xs y ys)
  then show ?case by (cases zs) (auto simp: then_ord_def cmp_value_Equal split: if_splits dest: cmp_value_asym)
next
  case (9 k v xs l w ys)
  then show ?case
    by (cases gs) (auto simp: then_ord_def cmp_value_Equal split: if_splits dest: cmp_value_asym)
qed (auto simp: cmp_value_mixed dest: cmp_value_type)

section \<open>Json is ordered\<close>

instantiation json :: linorder
begin

definition less_eq_json :: "json \<Rightarrow> json \<Rightarrow> bool" where
  "a \<le> b \<longleftrightarrow> cmp_value a b \<noteq> Greater"

definition less_json :: "json \<Rightarrow> json \<Rightarrow> bool" where
  "a < b \<longleftrightarrow> cmp_value a b = Less"

instance
proof
  fix a b c :: json
  have r: "cmp_value b a = reverse_ord (cmp_value a b)" by (rule cmp_value_reverse)
  show "a < b \<longleftrightarrow> a \<le> b \<and> \<not> b \<le> a" using r by (cases "cmp_value a b") (auto simp: less_eq_json_def less_json_def)
  show "a \<le> a" using cmp_value_Equal(1) [of a a] by (simp add: less_eq_json_def)
  show "a \<le> b \<or> b \<le> a" using r by (cases "cmp_value a b") (auto simp: less_eq_json_def)
  show "a = b" if "a \<le> b" "b \<le> a"
    using that r cmp_value_Equal(1) [of a b] by (cases "cmp_value a b") (auto simp: less_eq_json_def)
  show "a \<le> c" if "a \<le> b" "b \<le> c"
    using that cmp_value_trans(1) [of a b c] cmp_value_Equal(1) [of a b] cmp_value_Equal(1) [of b c]
    by (cases "cmp_value a b"; cases "cmp_value b c") (auto simp: less_eq_json_def)
qed

end

lemma cmp_json: "cmp (a :: json) b = cmp_value a b"
  using cmp_value_Equal(1) [of a b] by (cases "cmp_value a b") (auto simp: cmp_def less_json_def)

text \<open>C29: the comparison of JSON documents is a total order (antisymmetric under reversal, equal only on
  equal documents, transitive), and it compares numbers by their exact mathematical value across integers and
  floats, an integer coming before the float of the same value.\<close>

theorem json_order_laws:
  "cmp_value b a = reverse_ord (cmp_value a b) \<and> (cmp_value a b = Equal \<longleftrightarrow> a = b) \<and>
   (cmp_value a b = Less \<longrightarrow> cmp_value b c = Less \<longrightarrow> cmp_value a c = Less) \<and>
   cmp_value (JNumber m) (JNumber n) =
     then_ord (cmp (num_val m) (num_val n)) (cmp (is_float (json_number_view m)) (is_float (json_number_view n)))"
proof (intro conjI impI)
  show "cmp_value b a = reverse_ord (cmp_value a b)" by (rule cmp_value_reverse)
  show "cmp_value a b = Equal \<longleftrightarrow> a = b" by (rule cmp_value_Equal)
  show "cmp_value a c = Less" if "cmp_value a b = Less" "cmp_value b c = Less" using that by (rule cmp_value_trans)
qed (simp add: cmp_number_key)

theorem json_order_laws_witness:
  "cmp_value (JNumber (NegInt 0)) (JArray []) = Less"
proof -
  have "cmp_value (JNumber (NegInt 0)) (JNumber (FloatNum 0)) = Less"
    by (simp add: cmp_number_key then_ord_def cmp_def)
  moreover have "cmp_value (JNumber (FloatNum 0)) (JArray []) = Less" by simp
  ultimately show ?thesis
    using json_order_laws [of "JNumber (FloatNum 0)" "JNumber (NegInt 0)" "JArray []"] by blast
qed

end
