(* ===== verification/Values.thy ===== *)
theory Values
  imports Json_Value Encoding "HOL-Library.Product_Lexorder" "HOL-Library.Option_ord"
begin

text \<open>
  The values of \<^verbatim>\<open>wasm-dbms-api/src/dbms/value.rs\<close> with their derived order, the kinds of
  \<^verbatim>\<open>types.rs\<close>, column and index definitions, and the query errors. \<open>'d\<close> stands for the decimals of the
  crate \<^verbatim>\<open>rust_decimal\<close>, of which the code uses equality and order.
\<close>

section \<open>Values\<close>

text \<open>
  Integers carry their numeric value; \<open>value_wf\<close> bounds them to the width of their variant. The cached
  \<^verbatim>\<open>display\<close> text of a custom value takes part neither in its equality nor in its order nor in its
  encoding, and is left out.
\<close>

datatype 'd dbms_value =
    Blob "byte list"
  | Boolean bool
  | Date nat nat nat
  | DateTime nat nat nat nat nat nat nat int
  | Decimal 'd
  | Int8 int
  | Int16 int
  | Int32 int
  | Int64 int
  | Json json
  | Null
  | Text string
  | Uint8 nat
  | Uint16 nat
  | Uint32 nat
  | Uint64 nat
  | Uuid "byte list"
  | Custom string "byte list"

definition is_null :: "'d dbms_value \<Rightarrow> bool" where
  "is_null v \<longleftrightarrow> v = Null"

definition sint_range :: "nat \<Rightarrow> int \<Rightarrow> bool" where
  "sint_range w i \<longleftrightarrow> - (2 ^ (w - 1)) \<le> i \<and> i < 2 ^ (w - 1)"

fun value_wf :: "'d dbms_value \<Rightarrow> bool" where
  "value_wf (Date y m d) \<longleftrightarrow> y < 2 ^ 16 \<and> m < 2 ^ 8 \<and> d < 2 ^ 8"
| "value_wf (DateTime y mo d h mi s us tz) \<longleftrightarrow>
     y < 2 ^ 16 \<and> mo < 2 ^ 8 \<and> d < 2 ^ 8 \<and> h < 2 ^ 8 \<and> mi < 2 ^ 8 \<and> s < 2 ^ 8 \<and> us < 2 ^ 32 \<and> sint_range 16 tz"
| "value_wf (Int8 i) \<longleftrightarrow> sint_range 8 i"
| "value_wf (Int16 i) \<longleftrightarrow> sint_range 16 i"
| "value_wf (Int32 i) \<longleftrightarrow> sint_range 32 i"
| "value_wf (Int64 i) \<longleftrightarrow> sint_range 64 i"
| "value_wf (Uint8 n) \<longleftrightarrow> n < 2 ^ 8"
| "value_wf (Uint16 n) \<longleftrightarrow> n < 2 ^ 16"
| "value_wf (Uint32 n) \<longleftrightarrow> n < 2 ^ 32"
| "value_wf (Uint64 n) \<longleftrightarrow> n < 2 ^ 64"
| "value_wf (Uuid bs) \<longleftrightarrow> length bs = 16"
| "value_wf _ \<longleftrightarrow> True"

subsection \<open>The derived order\<close>

text \<open>
  \<^verbatim>\<open>derive(PartialOrd, Ord)\<close>: the position of the variant, then the fields from left to right. The key
  puts the fields of every variant in one product of ordered types.
\<close>

primrec variant :: "'d dbms_value \<Rightarrow> nat" where
  "variant (Blob _) = 0"
| "variant (Boolean _) = 1"
| "variant (Date _ _ _) = 2"
| "variant (DateTime _ _ _ _ _ _ _ _) = 3"
| "variant (Decimal _) = 4"
| "variant (Int8 _) = 5"
| "variant (Int16 _) = 6"
| "variant (Int32 _) = 7"
| "variant (Int64 _) = 8"
| "variant (Json _) = 9"
| "variant Null = 10"
| "variant (Text _) = 11"
| "variant (Uint8 _) = 12"
| "variant (Uint16 _) = 13"
| "variant (Uint32 _) = 14"
| "variant (Uint64 _) = 15"
| "variant (Uuid _) = 16"
| "variant (Custom _ _) = 17"

fun int_fields :: "'d dbms_value \<Rightarrow> int list" where
  "int_fields (Boolean b) = [of_bool b]"
| "int_fields (Date y m d) = [int y, int m, int d]"
| "int_fields (DateTime y mo d h mi s us tz) = [int y, int mo, int d, int h, int mi, int s, int us, tz]"
| "int_fields (Int8 i) = [i]"
| "int_fields (Int16 i) = [i]"
| "int_fields (Int32 i) = [i]"
| "int_fields (Int64 i) = [i]"
| "int_fields (Uint8 n) = [int n]"
| "int_fields (Uint16 n) = [int n]"
| "int_fields (Uint32 n) = [int n]"
| "int_fields (Uint64 n) = [int n]"
| "int_fields _ = []"

fun text_field :: "'d dbms_value \<Rightarrow> string" where
  "text_field (Text s) = s"
| "text_field (Custom tag bs) = tag"
| "text_field _ = []"

fun bytes_field :: "'d dbms_value \<Rightarrow> byte list" where
  "bytes_field (Blob bs) = bs"
| "bytes_field (Uuid bs) = bs"
| "bytes_field (Custom tag bs) = bs"
| "bytes_field _ = []"

fun dec_field :: "'d dbms_value \<Rightarrow> 'd option" where
  "dec_field (Decimal d) = Some d"
| "dec_field _ = None"

fun json_field :: "'d dbms_value \<Rightarrow> json option" where
  "json_field (Json j) = Some j"
| "json_field _ = None"

definition value_key :: "'d dbms_value \<Rightarrow> nat \<times> int list \<times> string \<times> byte list \<times> 'd option \<times> json option" where
  "value_key v = (variant v, int_fields v, text_field v, bytes_field v, dec_field v, json_field v)"

lemma value_key_inj: "value_key v = value_key w \<longleftrightarrow> v = w"
  by (cases v; cases w) (auto simp: value_key_def)

instantiation dbms_value :: (linorder) linorder
begin

definition less_eq_dbms_value :: "'a dbms_value \<Rightarrow> 'a dbms_value \<Rightarrow> bool" where
  "v \<le> w \<longleftrightarrow> value_key v \<le> value_key w"

definition less_dbms_value :: "'a dbms_value \<Rightarrow> 'a dbms_value \<Rightarrow> bool" where
  "v < w \<longleftrightarrow> value_key v < value_key w"

instance
proof
  fix u v w :: "'a dbms_value"
  show "u < v \<longleftrightarrow> u \<le> v \<and> \<not> v \<le> u" by (auto simp: less_eq_dbms_value_def less_dbms_value_def)
  show "u \<le> u" by (simp add: less_eq_dbms_value_def)
  show "u \<le> v \<or> v \<le> u" by (auto simp: less_eq_dbms_value_def)
  show "u = v" if "u \<le> v" "v \<le> u"
    using that by (auto simp: less_eq_dbms_value_def value_key_inj [symmetric])
  show "u \<le> w" if "u \<le> v" "v \<le> w" using that by (auto simp: less_eq_dbms_value_def)
qed

end

lemma value_less_variant: "variant v < variant w \<Longrightarrow> v < w"
  by (simp add: less_dbms_value_def value_key_def less_prod_def)

lemma value_le_variant: "v \<le> w \<Longrightarrow> variant v \<le> variant w"
  by (auto simp: less_eq_dbms_value_def value_key_def less_eq_prod_def)

text \<open>Values of one variant compare by their content.\<close>

lemma value_order_simps [simp]:
  "(Text s :: 'd :: linorder dbms_value) \<le> Text t \<longleftrightarrow> s \<le> t"
  "(Int8 i :: 'd dbms_value) \<le> Int8 j \<longleftrightarrow> i \<le> j" "(Int16 i :: 'd dbms_value) \<le> Int16 j \<longleftrightarrow> i \<le> j"
  "(Int32 i :: 'd dbms_value) \<le> Int32 j \<longleftrightarrow> i \<le> j" "(Int64 i :: 'd dbms_value) \<le> Int64 j \<longleftrightarrow> i \<le> j"
  "(Uint8 n :: 'd dbms_value) \<le> Uint8 m \<longleftrightarrow> n \<le> m" "(Uint16 n :: 'd dbms_value) \<le> Uint16 m \<longleftrightarrow> n \<le> m"
  "(Uint32 n :: 'd dbms_value) \<le> Uint32 m \<longleftrightarrow> n \<le> m" "(Uint64 n :: 'd dbms_value) \<le> Uint64 m \<longleftrightarrow> n \<le> m"
  "(Decimal d :: 'd dbms_value) \<le> Decimal e \<longleftrightarrow> d \<le> e" "(Json x :: 'd dbms_value) \<le> Json y \<longleftrightarrow> x \<le> y"
  by (auto simp: less_eq_dbms_value_def value_key_def less_eq_prod_def)

section \<open>Kinds and definitions\<close>

datatype wire_size = WFixed nat | LengthPrefixed

datatype data_type_kind =
    KBlob | KBoolean | KDate | KDateTime | KDecimal | KInt8 | KInt16 | KInt32 | KInt64 | KJson
  | KText | KUint8 | KUint16 | KUint32 | KUint64 | KUuid | KCustom string wire_size

text \<open>\<open>has_kind k v\<close>: \<open>v\<close> is a value the column type \<open>k\<close> produces (null apart).\<close>

primrec has_kind :: "data_type_kind \<Rightarrow> 'd dbms_value \<Rightarrow> bool" where
  "has_kind k Null \<longleftrightarrow> False"
| "has_kind k (Blob _) \<longleftrightarrow> k = KBlob"
| "has_kind k (Boolean _) \<longleftrightarrow> k = KBoolean"
| "has_kind k (Date _ _ _) \<longleftrightarrow> k = KDate"
| "has_kind k (DateTime _ _ _ _ _ _ _ _) \<longleftrightarrow> k = KDateTime"
| "has_kind k (Decimal _) \<longleftrightarrow> k = KDecimal"
| "has_kind k (Int8 _) \<longleftrightarrow> k = KInt8"
| "has_kind k (Int16 _) \<longleftrightarrow> k = KInt16"
| "has_kind k (Int32 _) \<longleftrightarrow> k = KInt32"
| "has_kind k (Int64 _) \<longleftrightarrow> k = KInt64"
| "has_kind k (Json _) \<longleftrightarrow> k = KJson"
| "has_kind k (Text _) \<longleftrightarrow> k = KText"
| "has_kind k (Uint8 _) \<longleftrightarrow> k = KUint8"
| "has_kind k (Uint16 _) \<longleftrightarrow> k = KUint16"
| "has_kind k (Uint32 _) \<longleftrightarrow> k = KUint32"
| "has_kind k (Uint64 _) \<longleftrightarrow> k = KUint64"
| "has_kind k (Uuid _) \<longleftrightarrow> k = KUuid"
| "has_kind k (Custom tag _) \<longleftrightarrow> (case k of KCustom t _ \<Rightarrow> t = tag | _ \<Rightarrow> False)"

record foreign_key_def =
  fk_local_column :: string
  fk_foreign_table :: string
  fk_foreign_column :: string

text \<open>
  The default is a function pointer in the source; the model keeps the value it returns.
\<close>

record 'd column_def =
  cd_name :: string
  cd_data_type :: data_type_kind
  cd_auto_increment :: bool
  cd_nullable :: bool
  cd_primary_key :: bool
  cd_unique :: bool
  cd_foreign_key :: "foreign_key_def option"
  cd_default :: "'d dbms_value option"
  cd_renamed_from :: "string list"

type_synonym 'd row = "('d column_def \<times> 'd dbms_value) list"

text \<open>\<^verbatim>\<open>IndexDef\<close>: the columns of an index, in order.\<close>

type_synonym index_def = "string list"

section \<open>Query errors\<close>

datatype 'd query_error =
    PrimaryKeyConflict
  | UniqueConstraintViolation string
  | BrokenForeignKeyReference string "'d dbms_value"
  | ForeignKeyConstraintViolation string string
  | UnknownColumn string
  | MissingNonNullableField string
  | TransactionNotFound
  | InvalidQuery string
  | JoinInsideTypedSelect
  | AggregateClauseInSelect
  | QConstraintViolation string
  | QMemoryError memory_error
  | TableNotFound string
  | RecordNotFound
  | SerializationError string
  | Internal string

type_synonym ('a, 'd) query_result = "('a, 'd query_error) outcome"

text \<open>A text between single quotes, as the messages print names.\<close>

definition quoted :: "string \<Rightarrow> string" where
  "quoted s = CHR 0x27 # s @ [CHR 0x27]"

section \<open>Rows\<close>

text \<open>The names of a row's columns are distinct, and each value has the kind of its column.\<close>

definition row_names :: "'d row \<Rightarrow> string list" where
  "row_names row = map (\<lambda>(c, v). cd_name c) row"

definition row_wf :: "'d row \<Rightarrow> bool" where
  "row_wf row \<longleftrightarrow> distinct (row_names row) \<and>
     (\<forall>(c, v) \<in> set row. v = Null \<and> cd_nullable c \<or> has_kind (cd_data_type c) v)"

definition row_get :: "'d row \<Rightarrow> string \<Rightarrow> 'd dbms_value option" where
  "row_get row name = map_option snd (find (\<lambda>(c, v). cd_name c = name) row)"

lemma row_get_Nil [simp]: "row_get [] name = None"
  by (simp add: row_get_def)

lemma row_get_Cons [simp]:
  "row_get ((c, v) # row) name = (if cd_name c = name then Some v else row_get row name)"
  by (simp add: row_get_def)

lemma row_get_Some_mem: "row_get row name = Some v \<Longrightarrow> \<exists>c. (c, v) \<in> set row \<and> cd_name c = name"
  by (induction row) (auto split: if_splits)

lemma row_get_distinct:
  "distinct (row_names row) \<Longrightarrow> (c, v) \<in> set row \<Longrightarrow> row_get row (cd_name c) = Some v"
  by (induction row) (force simp: row_names_def)+

lemma row_get_None_iff: "row_get row name = None \<longleftrightarrow> name \<notin> set (row_names row)"
proof (induction row)
  case (Cons cv row)
  then show ?case by (cases cv) (auto simp: row_names_def)
qed (simp add: row_names_def)

text \<open>The test \<open>row.iter().any(|(c, v)| c.name == name && p(v))\<close> of the filters.\<close>

definition row_any :: "string \<Rightarrow> ('d dbms_value \<Rightarrow> bool) \<Rightarrow> 'd row \<Rightarrow> bool" where
  "row_any name pred row \<longleftrightarrow> list_ex (\<lambda>(c, v). cd_name c = name \<and> pred v) row"

lemma row_any_get:
  "distinct (row_names row) \<Longrightarrow> row_any name pred row \<longleftrightarrow> (\<exists>v. row_get row name = Some v \<and> pred v)"
proof (induction row)
  case (Cons cv row)
  obtain c v where cv: "cv = (c, v)" by (cases cv)
  have "row_get row name = None" if "cd_name c = name"
    using that Cons.prems cv by (auto simp: row_get_None_iff row_names_def)
  then show ?case using Cons cv by (auto simp: row_any_def row_names_def)
qed (simp add: row_any_def)

end
