(* ===== verification/Like.thy ===== *)
theory Like
  imports Values "HOL-Library.While_Combinator"
begin

text \<open>
  \<^verbatim>\<open>wasm-dbms-api/src/dbms/query/filter/like.rs\<close>: parsing a LIKE pattern and the two-pointer matcher with
  its single backtrack point, against the meaning of a pattern as a relation between tokens and
  characters.
\<close>

section \<open>Characters of a string\<close>

text \<open>The length of a character is that of the sequence its first byte announces.\<close>

definition len_utf8 :: "char \<Rightarrow> nat" where
  "len_utf8 c = (let b = of_char c :: nat in if b < 128 then 1 else if b < 224 then 2 else if b < 240 then 3 else 4)"

lemma len_utf8_pos [simp]: "0 < len_utf8 c" "len_utf8 c \<noteq> 0" "Suc 0 \<le> len_utf8 c"
  by (auto simp: len_utf8_def Let_def)

text \<open>\<^verbatim>\<open>str::chars\<close>, each character as its bytes.\<close>

function str_chars :: "string \<Rightarrow> string list" where
  "str_chars [] = []"
| "str_chars (c # cs) = take (len_utf8 c) (c # cs) # str_chars (drop (len_utf8 c) (c # cs))"
  by pat_completeness auto

termination
  by (relation "measure length") (auto simp del: drop_Suc_Cons)

declare str_chars.simps(2) [simp del]

text \<open>No sequence is cut off at the end; every \<^verbatim>\<open>String\<close> satisfies this.\<close>

definition str_ok :: "string \<Rightarrow> bool" where
  "str_ok s \<longleftrightarrow> (\<forall>c \<in> set (str_chars s). length c = len_utf8 (hd c))"

lemma concat_str_chars [simp]: "concat (str_chars s) = s"
  by (induction s rule: str_chars.induct) (simp_all add: str_chars.simps(2))

lemma str_chars_empty [simp]: "str_chars s = [] \<longleftrightarrow> s = []" "[] = str_chars s \<longleftrightarrow> s = []"
  by (cases s; simp add: str_chars.simps(2))+

lemma str_ok_Nil [simp]: "str_ok []"
  by (simp add: str_ok_def)

lemma str_ok_Cons: "str_ok (c # cs) \<longleftrightarrow> len_utf8 c \<le> Suc (length cs) \<and> str_ok (drop (len_utf8 c) (c # cs))"
proof -
  have "hd (take (len_utf8 c) (c # cs)) = c" by (cases "len_utf8 c") auto
  then show ?thesis
    by (auto simp: str_ok_def str_chars.simps(2) min_def simp del: drop_Suc_Cons take_Suc_Cons split: if_splits)
qed

section \<open>Patterns\<close>

datatype pattern_token = Literal string | WildcardSingle | WildcardMulti

definition flush_literal :: "string \<Rightarrow> pattern_token list" where
  "flush_literal lit = (if lit = [] then [] else [Literal lit])"

definition pattern_step :: "pattern_token list \<times> string \<times> bool \<Rightarrow> string \<Rightarrow> pattern_token list \<times> string \<times> bool" where
  "pattern_step = (\<lambda>(tokens, lit, escape) c.
     if c = ''_'' \<and> \<not> escape then (tokens @ flush_literal lit @ [WildcardSingle], [], escape)
     else if c = ''%'' \<and> \<not> escape then (tokens @ flush_literal lit @ [WildcardMulti], [], escape)
     else if c = [CHR 0x5C] \<and> \<not> escape then (tokens, lit, True)
     else (tokens, lit @ c, False))"

definition like_parse :: "string \<Rightarrow> (pattern_token list, 'd) query_result" where
  "like_parse s =
     (let (tokens, lit, escape) = foldl pattern_step ([], [], False) (str_chars s)
      in if escape then Err (InvalidQuery ''LIKE pattern ends with a dangling escape character'')
         else Ok (tokens @ flush_literal lit))"

section \<open>The matcher\<close>

text \<open>
  The local variables of \<^verbatim>\<open>Like::matches\<close>; \<open>lk_ret\<close> is the value of a \<^verbatim>\<open>return\<close> inside the loop.
\<close>

record like_state =
  lk_ti :: nat
  lk_ii :: nat
  lk_star_ti :: "nat option"
  lk_star_ii :: nat
  lk_ret :: "bool option"

text \<open>Extending the last \<^verbatim>\<open>%\<close> by one character.\<close>

definition like_backtrack :: "string \<Rightarrow> nat \<Rightarrow> like_state \<Rightarrow> like_state" where
  "like_backtrack input s_ti st =
     (case drop (lk_star_ii st) input of
        c # _ \<Rightarrow> let j = lk_star_ii st + len_utf8 c in st\<lparr>lk_star_ii := j, lk_ii := j, lk_ti := s_ti\<rparr>
      | [] \<Rightarrow> st\<lparr>lk_ret := Some False\<rparr>)"

definition like_mismatch :: "string \<Rightarrow> like_state \<Rightarrow> like_state" where
  "like_mismatch input st =
     (case lk_star_ti st of
        Some s_ti \<Rightarrow> like_backtrack input s_ti st
      | None \<Rightarrow> st\<lparr>lk_ret := Some False\<rparr>)"

definition like_step :: "pattern_token list \<Rightarrow> string \<Rightarrow> like_state \<Rightarrow> like_state" where
  "like_step tokens input st =
     (let ti = lk_ti st; ii = lk_ii st in
      if ti < length tokens then
        (case tokens ! ti of
           Literal s \<Rightarrow>
             if take (length s) (drop ii input) = s then st\<lparr>lk_ii := ii + length s, lk_ti := ti + 1\<rparr>
             else like_mismatch input st
         | WildcardSingle \<Rightarrow> st\<lparr>lk_ii := ii + len_utf8 (input ! ii), lk_ti := ti + 1\<rparr>
         | WildcardMulti \<Rightarrow> st\<lparr>lk_star_ti := Some (ti + 1), lk_star_ii := ii, lk_ti := ti + 1\<rparr>)
      else
        (case lk_star_ti st of
           Some s_ti \<Rightarrow>
             if s_ti \<ge> length tokens then st\<lparr>lk_ret := Some True\<rparr> else like_backtrack input s_ti st
         | None \<Rightarrow> st\<lparr>lk_ret := Some False\<rparr>))"

definition like_init :: like_state where
  "like_init = \<lparr>lk_ti = 0, lk_ii = 0, lk_star_ti = None, lk_star_ii = 0, lk_ret = None\<rparr>"

definition like_matches :: "pattern_token list \<Rightarrow> string \<Rightarrow> bool option" where
  "like_matches tokens input =
     map_option (\<lambda>st. case lk_ret st of
           Some r \<Rightarrow> r
         | None \<Rightarrow> list_all (\<lambda>t. t = WildcardMulti) (drop (lk_ti st) tokens))
       (while_option (\<lambda>st. lk_ret st = None \<and> lk_ii st < length input) (like_step tokens input) like_init)"

section \<open>What a pattern means\<close>

fun like_spec :: "pattern_token list \<Rightarrow> string list \<Rightarrow> bool" where
  "like_spec [] cs \<longleftrightarrow> cs = []"
| "like_spec (Literal l # ts) cs \<longleftrightarrow>
     take (length (str_chars l)) cs = str_chars l \<and> like_spec ts (drop (length (str_chars l)) cs)"
| "like_spec (WildcardSingle # ts) cs \<longleftrightarrow> cs \<noteq> [] \<and> like_spec ts (tl cs)"
| "like_spec (WildcardMulti # ts) cs \<longleftrightarrow> (\<exists>k \<in> {0..length cs}. like_spec ts (drop k cs))"

definition pattern_ok :: "pattern_token list \<Rightarrow> bool" where
  "pattern_ok tokens \<longleftrightarrow> (\<forall>l. Literal l \<in> set tokens \<longrightarrow> l \<noteq> [] \<and> str_ok l)"

subsection \<open>Bytes and characters\<close>

text \<open>A position of the input that starts its \<open>i\<close>-th character.\<close>

definition byte_pos :: "string list \<Rightarrow> nat \<Rightarrow> nat" where
  "byte_pos cs i = length (concat (take i cs))"

lemma str_chars_append: "str_ok s \<Longrightarrow> str_chars (s @ t) = str_chars s @ str_chars t"
proof (induction s rule: str_chars.induct)
  case (2 c cs)
  let ?n = "len_utf8 c"
  have n: "?n \<le> length (c # cs)" and ok: "str_ok (drop ?n (c # cs))" using 2 by (auto simp: str_ok_Cons)
  have "str_chars ((c # cs) @ t) = take ?n ((c # cs) @ t) # str_chars (drop ?n ((c # cs) @ t))"
    by (simp only: append_Cons str_chars.simps(2))
  also have "\<dots> = take ?n (c # cs) # str_chars (drop ?n (c # cs) @ t)"
    using n by (simp del: drop_Suc_Cons take_Suc_Cons append_Cons)
  also have "\<dots> = take ?n (c # cs) # str_chars (drop ?n (c # cs)) @ str_chars t"
    using 2(1) [OF ok] by simp
  finally show ?case by (simp only: str_chars.simps(2) append_Cons)
qed simp

lemma str_ok_append: "str_ok s \<Longrightarrow> str_ok (s @ t) \<longleftrightarrow> str_ok t"
  by (auto simp: str_ok_def str_chars_append)

lemma chars_drop:
  assumes "str_ok s"
  shows "str_chars (drop (byte_pos (str_chars s) i) s) = drop i (str_chars s)"
    and "str_ok (drop (byte_pos (str_chars s) i) s)"
proof (induction i)
  case 0
  { case 1 show ?case by (simp add: byte_pos_def) }
  { case 2 show ?case using assms by (simp add: byte_pos_def) }
next
  case (Suc i)
  let ?cs = "str_chars s" and ?r = "drop (byte_pos (str_chars s) i) s"
  have main: "str_chars (drop (byte_pos ?cs (Suc i)) s) = drop (Suc i) ?cs \<and> str_ok (drop (byte_pos ?cs (Suc i)) s)"
  proof (cases "i < length ?cs")
    case False
    then have "take (Suc i) ?cs = ?cs" "take i ?cs = ?cs" by auto
    then show ?thesis using Suc False by (simp add: byte_pos_def)
  next
    case True
    then have r: "str_chars ?r = ?cs ! i # drop (Suc i) ?cs"
      using Suc(1) by (simp add: Cons_nth_drop_Suc)
    then obtain c r' where cr: "?r = c # r'" by (cases ?r) auto
    have hd: "?cs ! i = take (len_utf8 c) ?r" "drop (Suc i) ?cs = str_chars (drop (len_utf8 c) ?r)"
      using r unfolding cr by (simp_all add: str_chars.simps(2) del: drop_Suc_Cons take_Suc_Cons)
    have ok: "len_utf8 c \<le> length ?r" "str_ok (drop (len_utf8 c) ?r)"
      using Suc(2) unfolding cr by (auto simp: str_ok_Cons simp del: drop_Suc_Cons)
    have "byte_pos ?cs (Suc i) = byte_pos ?cs i + len_utf8 c"
      using True hd(1) ok(1) by (simp add: byte_pos_def take_Suc_conv_app_nth)
    then have "drop (byte_pos ?cs (Suc i)) s = drop (len_utf8 c) ?r" by (simp add: add.commute)
    then show ?thesis using hd(2) ok(2) by simp
  qed
  { case 1 show ?case using main by simp }
  { case 2 show ?case using main by simp }
qed

lemma byte_pos_Suc:
  assumes "str_ok s" and "i < length (str_chars s)"
  shows "byte_pos (str_chars s) i < length s"
    and "byte_pos (str_chars s) (Suc i) = byte_pos (str_chars s) i + len_utf8 (s ! byte_pos (str_chars s) i)"
proof -
  let ?cs = "str_chars s" and ?r = "drop (byte_pos (str_chars s) i) s"
  have r: "str_chars ?r = ?cs ! i # drop (Suc i) ?cs"
    using chars_drop(1) [OF assms(1)] assms(2) by (simp add: Cons_nth_drop_Suc)
  then obtain c r' where cr: "?r = c # r'" by (cases ?r) auto
  then show lt: "byte_pos ?cs i < length s" by (metis drop_all linorder_not_less list.distinct(1))
  have c: "s ! byte_pos ?cs i = c" using cr lt by (simp add: Cons_nth_drop_Suc [symmetric])
  have "?cs ! i = take (len_utf8 c) ?r" "len_utf8 c \<le> length ?r"
    using r chars_drop(2) [OF assms(1), of i] unfolding cr
    by (simp_all add: str_chars.simps(2) str_ok_Cons del: drop_Suc_Cons take_Suc_Cons)
  then show "byte_pos ?cs (Suc i) = byte_pos ?cs i + len_utf8 (s ! byte_pos ?cs i)"
    using assms(2) c by (simp add: byte_pos_def take_Suc_conv_app_nth)
qed

text \<open>Comparing bytes at the start of a character compares characters.\<close>

lemma starts_with_chars:
  assumes "str_ok l" and "str_ok s"
  shows "take (length l) s = l \<longleftrightarrow> take (length (str_chars l)) (str_chars s) = str_chars l"
proof
  assume "take (length l) s = l"
  then have "str_chars s = str_chars l @ str_chars (drop (length l) s)"
    using str_chars_append [OF assms(1)] by (metis append_take_drop_id)
  then show "take (length (str_chars l)) (str_chars s) = str_chars l" by simp
next
  assume "take (length (str_chars l)) (str_chars s) = str_chars l"
  then have "str_chars s = str_chars l @ drop (length (str_chars l)) (str_chars s)"
    by (metis append_take_drop_id)
  then have "s = l @ concat (drop (length (str_chars l)) (str_chars s))"
    by (metis concat_append concat_str_chars)
  then show "take (length l) s = l" by (metis append_eq_conv_conj)
qed

subsection \<open>The backtrack point\<close>

text \<open>Tokens without \<^verbatim>\<open>%\<close> take a fixed number of characters.\<close>

fun token_len :: "pattern_token \<Rightarrow> nat" where
  "token_len (Literal l) = length (str_chars l)"
| "token_len WildcardSingle = 1"
| "token_len WildcardMulti = 0"

definition seg_len :: "pattern_token list \<Rightarrow> nat" where
  "seg_len ts = sum_list (map token_len ts)"

lemma seg_len_simps [simp]:
  "seg_len [] = 0" "seg_len (t # ts) = token_len t + seg_len ts" "seg_len (ts @ us) = seg_len ts + seg_len us"
  by (simp_all add: seg_len_def)

lemma like_spec_segment:
  "WildcardMulti \<notin> set seg \<Longrightarrow> like_spec (seg @ ts) cs \<Longrightarrow>
     seg_len seg \<le> length cs \<and> like_spec ts (drop (seg_len seg) cs)"
proof (induction seg arbitrary: cs)
  case (Cons t seg)
  show ?case
  proof (cases t)
    case (Literal l)
    let ?k = "length (str_chars l)"
    have "take ?k cs = str_chars l" "like_spec (seg @ ts) (drop ?k cs)" using Cons.prems Literal by auto
    moreover have "?k \<le> length cs" using arg_cong [OF calculation(1), of length] by simp
    ultimately show ?thesis using Cons.IH [of "drop ?k cs"] Cons.prems Literal by (auto simp: add.commute)
  next
    case WildcardSingle
    then have "cs \<noteq> []" "like_spec (seg @ ts) (tl cs)" using Cons.prems by auto
    then show ?thesis using Cons.IH [of "tl cs"] Cons.prems WildcardSingle
      by (cases cs) auto
  next
    case WildcardMulti
    then show ?thesis using Cons.prems by simp
  qed
qed simp

lemma like_spec_Nil:
  "\<forall>l. Literal l \<in> set ts \<longrightarrow> l \<noteq> [] \<Longrightarrow> like_spec ts [] \<longleftrightarrow> list_all (\<lambda>t. t = WildcardMulti) ts"
proof (induction ts)
  case (Cons t ts)
  then show ?case by (cases t) auto
qed simp

text \<open>The match can still be found by starting again behind the last \<^verbatim>\<open>%\<close>, \<open>k\<close> characters later.\<close>

definition like_later :: "pattern_token list \<Rightarrow> string list \<Rightarrow> nat \<Rightarrow> nat \<Rightarrow> bool" where
  "like_later tokens cs t j \<longleftrightarrow> (\<exists>k > 0. j + k \<le> length cs \<and> like_spec (drop t tokens) (drop (j + k) cs))"

lemma like_later_step:
  "j < length cs \<Longrightarrow> like_later tokens cs t j \<longleftrightarrow>
     like_spec (drop t tokens) (drop (Suc j) cs) \<or> like_later tokens cs t (Suc j)"
proof -
  assume j: "j < length cs"
  have "like_spec (drop t tokens) (drop (Suc j) cs) \<or> like_later tokens cs t (Suc j)" if l: "like_later tokens cs t j"
  proof -
    obtain k where k: "0 < k" "j + k \<le> length cs" "like_spec (drop t tokens) (drop (j + k) cs)"
      using l by (auto simp: like_later_def)
    then show ?thesis by (cases "k = 1") (auto simp: like_later_def intro!: exI [of _ "k - 1"])
  qed
  moreover have "like_later tokens cs t j"
    if "like_spec (drop t tokens) (drop (Suc j) cs) \<or> like_later tokens cs t (Suc j)"
    using that
  proof
    assume "like_spec (drop t tokens) (drop (Suc j) cs)"
    then show ?thesis using j unfolding like_later_def by (intro exI [of _ 1]) simp
  next
    assume "like_later tokens cs t (Suc j)"
    then obtain k where "0 < k" "Suc j + k \<le> length cs" "like_spec (drop t tokens) (drop (Suc j + k) cs)"
      by (auto simp: like_later_def)
    then show ?thesis unfolding like_later_def by (intro exI [of _ "Suc k"]) simp
  qed
  ultimately show ?thesis by blast
qed

text \<open>
  The loop invariant: the cursors stand at characters, the tokens behind the last \<^verbatim>\<open>%\<close> have been matched
  up to the cursor, and the answer is what the rest of the pattern or a later start gives.
\<close>

definition star_inv :: "pattern_token list \<Rightarrow> string list \<Rightarrow> like_state \<Rightarrow> nat \<Rightarrow> bool" where
  "star_inv tokens cs st i \<longleftrightarrow>
     (case lk_star_ti st of
        None \<Rightarrow> like_spec tokens cs = like_spec (drop (lk_ti st) tokens) (drop i cs)
      | Some t \<Rightarrow> (\<exists>j seg. lk_star_ii st = byte_pos cs j \<and> drop t tokens = seg @ drop (lk_ti st) tokens \<and>
          t \<le> lk_ti st \<and> WildcardMulti \<notin> set seg \<and> i = j + seg_len seg \<and>
          like_spec tokens cs = (like_spec (drop (lk_ti st) tokens) (drop i cs) \<or> like_later tokens cs t j)))"

definition like_inv :: "pattern_token list \<Rightarrow> string \<Rightarrow> like_state \<Rightarrow> bool" where
  "like_inv tokens input st \<longleftrightarrow>
     (let cs = str_chars input in
      case lk_ret st of
        Some r \<Rightarrow> r = like_spec tokens cs
      | None \<Rightarrow> lk_ti st \<le> length tokens \<and>
          (\<exists>i \<le> length cs. lk_ii st = byte_pos cs i \<and> star_inv tokens cs st i))"

lemma byte_pos_end: "byte_pos (str_chars s) (length (str_chars s)) = length s"
  by (simp add: byte_pos_def)

lemma byte_pos_less:
  assumes "str_ok s" and "i \<le> length (str_chars s)"
  shows "byte_pos (str_chars s) i < length s \<longleftrightarrow> i < length (str_chars s)"
  using byte_pos_Suc(1) [OF assms(1), of i] assms(2) byte_pos_end [of s]
  by (metis le_eq_less_or_eq less_irrefl)

lemma byte_pos_add:
  "byte_pos cs (i + k) = byte_pos cs i + length (concat (take k (drop i cs)))"
  by (simp add: byte_pos_def take_add)

lemma like_backtrack_inv:
  assumes ok: "str_ok input" and c: "cs = str_chars input"
    and st: "lk_ret st = None" "lk_star_ti st = Some t" "lk_star_ii st = byte_pos cs j"
    and t: "t \<le> length tokens" and goal: "like_spec tokens cs = like_later tokens cs t j"
  shows "like_inv tokens input (like_backtrack input t st)"
proof (cases "j < length cs")
  case True
  then have d: "drop (byte_pos cs j) input = input ! byte_pos cs j # drop (Suc (byte_pos cs j)) input"
    using byte_pos_Suc(1) [OF ok] c by (simp add: Cons_nth_drop_Suc)
  have p: "byte_pos cs j + len_utf8 (input ! byte_pos cs j) = byte_pos cs (Suc j)"
    using byte_pos_Suc(2) [OF ok] True c by simp
  have b: "like_backtrack input t st =
      st\<lparr>lk_star_ii := byte_pos cs (Suc j), lk_ii := byte_pos cs (Suc j), lk_ti := t\<rparr>"
    using st(3) d p by (simp add: like_backtrack_def Let_def)
  have "star_inv tokens cs (like_backtrack input t st) (Suc j)"
    unfolding b star_inv_def using st(2) goal like_later_step [OF True, of tokens t]
    by (auto intro!: exI [of _ "Suc j"] exI [of _ "[]"])
  then show ?thesis
    using st(1) t True c unfolding b by (auto simp: like_inv_def Let_def intro!: exI [of _ "Suc j"])
next
  case False
  then have "byte_pos cs j \<ge> length input"
    using byte_pos_end [of input] c by (simp add: byte_pos_def)
  then have "like_backtrack input t st = st\<lparr>lk_ret := Some False\<rparr>"
    using st(3) by (simp add: like_backtrack_def)
  moreover have "\<not> like_later tokens cs t j" using False by (auto simp: like_later_def)
  ultimately show ?thesis using goal c by (simp add: like_inv_def)
qed

text \<open>A running state stands at a character.\<close>

lemma like_invE:
  assumes "like_inv tokens input st" and "lk_ret st = None" and "str_ok input" and "lk_ii st < length input"
  obtains i where "i < length (str_chars input)" and "lk_ii st = byte_pos (str_chars input) i"
    and "lk_ti st \<le> length tokens" and "star_inv tokens (str_chars input) st i"
proof -
  obtain i where i: "i \<le> length (str_chars input)" "lk_ii st = byte_pos (str_chars input) i"
    "lk_ti st \<le> length tokens" "star_inv tokens (str_chars input) st i"
    using assms(1,2) by (auto simp: like_inv_def Let_def)
  then have "i < length (str_chars input)" using byte_pos_less [OF assms(3)] assms(4) by simp
  then show thesis using that i by blast
qed

lemma like_mismatch_inv:
  assumes ok: "str_ok input" and run: "lk_ret st = None" and ti: "lk_ti st \<le> length tokens"
    and star: "star_inv tokens (str_chars input) st i"
    and dead: "\<not> like_spec (drop (lk_ti st) tokens) (drop i (str_chars input))"
  shows "like_inv tokens input (like_mismatch input st)"
proof (cases "lk_star_ti st")
  case None
  then show ?thesis using star dead by (simp add: like_mismatch_def like_inv_def star_inv_def)
next
  case (Some t)
  then obtain j where "lk_star_ii st = byte_pos (str_chars input) j" "t \<le> length tokens"
    "like_spec tokens (str_chars input) = like_later tokens (str_chars input) t j"
    using star dead ti by (auto simp: star_inv_def)
  then show ?thesis
    using like_backtrack_inv [OF ok refl run Some] Some by (simp add: like_mismatch_def)
qed

text \<open>Consuming the token under the cursor with the characters it needs.\<close>

lemma like_advance_inv:
  assumes run: "lk_ret st = None" and star: "star_inv tokens (str_chars input) st i"
    and ti: "lk_ti st < length tokens" "tokens ! lk_ti st \<noteq> WildcardMulti"
    and n: "n = token_len (tokens ! lk_ti st)" "i + n \<le> length (str_chars input)"
    and ii: "ii' = byte_pos (str_chars input) (i + n)"
    and eq: "like_spec (drop (lk_ti st) tokens) (drop i (str_chars input)) =
         like_spec (drop (Suc (lk_ti st)) tokens) (drop (i + n) (str_chars input))"
  shows "like_inv tokens input (st\<lparr>lk_ii := ii', lk_ti := lk_ti st + 1\<rparr>)"
proof -
  let ?cs = "str_chars input" and ?st = "st\<lparr>lk_ii := ii', lk_ti := lk_ti st + 1\<rparr>"
  have tok: "drop (lk_ti st) tokens = tokens ! lk_ti st # drop (Suc (lk_ti st)) tokens"
    using ti(1) by (simp add: Cons_nth_drop_Suc)
  have "star_inv tokens ?cs ?st (i + n)"
  proof (cases "lk_star_ti st")
    case None
    then show ?thesis using star eq by (simp add: star_inv_def)
  next
    case (Some t)
    then obtain j seg where j: "lk_star_ii st = byte_pos ?cs j"
      "drop t tokens = seg @ drop (lk_ti st) tokens" "t \<le> lk_ti st" "WildcardMulti \<notin> set seg" "i = j + seg_len seg"
      "like_spec tokens ?cs = (like_spec (drop (lk_ti st) tokens) (drop i ?cs) \<or> like_later tokens ?cs t j)"
      using star by (auto simp: star_inv_def)
    have "\<exists>j seg. lk_star_ii st = byte_pos ?cs j \<and> drop t tokens = seg @ drop (Suc (lk_ti st)) tokens \<and>
        t \<le> Suc (lk_ti st) \<and> WildcardMulti \<notin> set seg \<and> i + n = j + seg_len seg \<and>
        like_spec tokens ?cs = (like_spec (drop (Suc (lk_ti st)) tokens) (drop (i + n) ?cs) \<or> like_later tokens ?cs t j)"
      using j tok ti(2) n(1) eq by (intro exI [of _ j] exI [of _ "seg @ [tokens ! lk_ti st]"]) auto
    then show ?thesis using Some by (simp add: star_inv_def)
  qed
  then show ?thesis using run ti(1) n(2) ii by (auto simp: like_inv_def Let_def)
qed

lemma like_multi_inv:
  assumes run: "lk_ret st = None" and star: "star_inv tokens (str_chars input) st i"
    and ti: "lk_ti st < length tokens" "tokens ! lk_ti st = WildcardMulti"
    and ii: "lk_ii st = byte_pos (str_chars input) i" "i \<le> length (str_chars input)"
  shows "like_inv tokens input (st\<lparr>lk_star_ti := Some (lk_ti st + 1), lk_star_ii := lk_ii st, lk_ti := lk_ti st + 1\<rparr>)"
proof -
  let ?cs = "str_chars input" and ?rest = "drop (Suc (lk_ti st)) tokens"
  have tok: "drop (lk_ti st) tokens = WildcardMulti # ?rest"
    using ti by (simp add: Cons_nth_drop_Suc [symmetric])
  have here: "like_spec (WildcardMulti # ?rest) (drop i ?cs) \<longleftrightarrow>
      like_spec ?rest (drop i ?cs) \<or> like_later tokens ?cs (Suc (lk_ti st)) i"
  proof
    assume "like_spec (WildcardMulti # ?rest) (drop i ?cs)"
    then obtain k where "k \<le> length ?cs - i" "like_spec ?rest (drop (k + i) ?cs)" by auto
    then show "like_spec ?rest (drop i ?cs) \<or> like_later tokens ?cs (Suc (lk_ti st)) i"
      using ii(2) by (cases "k = 0") (auto simp: like_later_def add.commute intro!: exI [of _ k])
  next
    assume "like_spec ?rest (drop i ?cs) \<or> like_later tokens ?cs (Suc (lk_ti st)) i"
    then obtain k where "i + k \<le> length ?cs" "like_spec ?rest (drop (i + k) ?cs)"
      using ii(2) by (auto simp: like_later_def intro: that [of 0])
    then show "like_spec (WildcardMulti # ?rest) (drop i ?cs)"
      by (auto simp: add.commute intro!: bexI [of _ k])
  qed
  have goal: "like_spec tokens ?cs = like_spec (WildcardMulti # ?rest) (drop i ?cs)"
  proof (cases "lk_star_ti st")
    case None
    then show ?thesis using star tok by (simp add: star_inv_def)
  next
    case (Some t)
    then obtain j seg where j: "drop t tokens = seg @ WildcardMulti # ?rest" "WildcardMulti \<notin> set seg"
      "i = j + seg_len seg"
      "like_spec tokens ?cs = (like_spec (WildcardMulti # ?rest) (drop i ?cs) \<or> like_later tokens ?cs t j)"
      using star tok by (auto simp: star_inv_def)
    have "like_spec (WildcardMulti # ?rest) (drop i ?cs)" if l: "like_later tokens ?cs t j"
    proof -
      obtain k where k: "j + k \<le> length ?cs" "like_spec (seg @ WildcardMulti # ?rest) (drop (j + k) ?cs)"
        using l j(1) by (auto simp: like_later_def)
      then have "seg_len seg \<le> length ?cs - (j + k)" "like_spec (WildcardMulti # ?rest) (drop (seg_len seg + (j + k)) ?cs)"
        using like_spec_segment [OF j(2) k(2)] by auto
      then obtain n where "n \<le> length ?cs - (seg_len seg + (j + k))"
        "like_spec ?rest (drop (n + (seg_len seg + (j + k))) ?cs)" by auto
      then show ?thesis using j(3) k(1) \<open>seg_len seg \<le> _\<close>
        by (auto simp: add_ac intro!: bexI [of _ "n + k"])
    qed
    then show ?thesis using j(4) by blast
  qed
  have "star_inv tokens ?cs (st\<lparr>lk_star_ti := Some (lk_ti st + 1), lk_star_ii := lk_ii st, lk_ti := lk_ti st + 1\<rparr>) i"
    unfolding star_inv_def using ii(1) goal here by (auto intro!: exI [of _ i] exI [of _ "[]"])
  then show ?thesis using run ti(1) ii by (auto simp: like_inv_def Let_def)
qed

lemma like_step_inv:
  assumes ok: "str_ok input" and pat: "pattern_ok tokens"
    and inv: "like_inv tokens input st" and run: "lk_ret st = None" "lk_ii st < length input"
  shows "like_inv tokens input (like_step tokens input st)"
proof -
  let ?cs = "str_chars input" and ?ti = "lk_ti st"
  obtain i where i: "i < length ?cs" "lk_ii st = byte_pos ?cs i" "?ti \<le> length tokens" "star_inv tokens ?cs st i"
    using like_invE [OF inv run(1) ok run(2)] by blast
  show ?thesis
  proof (cases "?ti < length tokens")
    case True
    then have tok: "drop ?ti tokens = tokens ! ?ti # drop (Suc ?ti) tokens" by (simp add: Cons_nth_drop_Suc)
    show ?thesis
    proof (cases "tokens ! ?ti")
      case (Literal l)
      let ?k = "length (str_chars l)"
      have l: "str_ok l" using pat True Literal nth_mem [of ?ti tokens] by (auto simp: pattern_ok_def)
      have sw: "take (length l) (drop (lk_ii st) input) = l \<longleftrightarrow> take ?k (drop i ?cs) = str_chars l"
        using starts_with_chars [OF l chars_drop(2) [OF ok]] chars_drop(1) [OF ok] i(2) by simp
      show ?thesis
      proof (cases "take (length l) (drop (lk_ii st) input) = l")
        case m: True
        then have t: "take ?k (drop i ?cs) = str_chars l" using sw by simp
        have "length (take ?k (drop i ?cs)) = ?k" using t by simp
        then have "i + ?k \<le> length ?cs" using i(1) by (simp only: length_take length_drop)
        moreover have "lk_ii st + length l = byte_pos ?cs (i + ?k)" using t i(2) by (simp add: byte_pos_add)
        ultimately have "like_inv tokens input (st\<lparr>lk_ii := lk_ii st + length l, lk_ti := ?ti + 1\<rparr>)"
          using True Literal t tok by (intro like_advance_inv [OF run(1) i(4), of ?k]) (auto simp: add.commute)
        then show ?thesis using True Literal m by (simp add: like_step_def Let_def)
      next
        case False
        then have "like_inv tokens input (like_mismatch input st)"
          using sw tok Literal by (intro like_mismatch_inv [OF ok run(1) i(3,4)]) simp
        then show ?thesis using True Literal False by (simp add: like_step_def Let_def)
      qed
    next
      case WildcardSingle
      have "like_inv tokens input (st\<lparr>lk_ii := lk_ii st + len_utf8 (input ! lk_ii st), lk_ti := ?ti + 1\<rparr>)"
        using True WildcardSingle tok i(1,2) byte_pos_Suc(2) [OF ok i(1)]
        by (intro like_advance_inv [OF run(1) i(4), of 1]) (auto simp: drop_Suc tl_drop)
      then show ?thesis using True WildcardSingle by (simp add: like_step_def Let_def)
    next
      case WildcardMulti
      then show ?thesis
        using like_multi_inv [OF run(1) i(4) True WildcardMulti i(2)] i(1) True by (simp add: like_step_def Let_def)
    qed
  next
    case False
    then have d: "drop ?ti tokens = []" "\<not> like_spec (drop ?ti tokens) (drop i ?cs)" using i(1) by auto
    show ?thesis
    proof (cases "lk_star_ti st")
      case None
      then show ?thesis
        using False like_mismatch_inv [OF ok run(1) i(3,4) d(2)] by (simp add: like_step_def like_mismatch_def Let_def)
    next
      case (Some t)
      show ?thesis
      proof (cases "t \<ge> length tokens")
        case True
        obtain j seg where j: "seg = []" "i = j" "like_spec tokens ?cs = like_later tokens ?cs t j"
          using i(4) Some True d by (auto simp: star_inv_def)
        have "like_later tokens ?cs t j"
          using True i(1) j(2) by (auto simp: like_later_def intro!: exI [of _ "length ?cs - j"])
        then show ?thesis using False Some True j(3) by (simp add: like_step_def like_inv_def Let_def)
      next
        case t: False
        then show ?thesis
          using False Some like_mismatch_inv [OF ok run(1) i(3,4) d(2)] by (simp add: like_step_def like_mismatch_def Let_def)
      qed
    qed
  qed
qed

text \<open>
  Each step finds a further \<^verbatim>\<open>%\<close>, or moves the backtrack point, or moves the token cursor, or returns.
\<close>

definition like_measure :: "pattern_token list \<Rightarrow> string \<Rightarrow> (like_state \<times> like_state) set" where
  "like_measure tokens input = measures
     [\<lambda>st. if lk_ret st = None then 1 else 0,
      \<lambda>st. case lk_star_ti st of None \<Rightarrow> length tokens + 1 | Some t \<Rightarrow> length tokens - t,
      \<lambda>st. length input - lk_star_ii st,
      \<lambda>st. length tokens - lk_ti st]"

lemma like_backtrack_measure:
  assumes "lk_ret st = None" and "lk_star_ti st = Some t"
  shows "(like_backtrack input t st, st) \<in> like_measure tokens input"
proof (cases "drop (lk_star_ii st) input")
  case Nil
  then show ?thesis using assms by (simp add: like_backtrack_def like_measure_def)
next
  case (Cons c cs)
  then have "lk_star_ii st < length input" by (metis drop_all linorder_not_less list.distinct(1))
  moreover have "0 < len_utf8 c" by simp
  ultimately have "length input - (lk_star_ii st + len_utf8 c) < length input - lk_star_ii st" by linarith
  then show ?thesis using assms Cons by (simp add: like_backtrack_def like_measure_def Let_def)
qed

lemma like_step_measure:
  assumes inv: "like_inv tokens input st" and run: "lk_ret st = None"
  shows "(like_step tokens input st, st) \<in> like_measure tokens input"
proof -
  have star: "case lk_star_ti st of None \<Rightarrow> True | Some t \<Rightarrow> t \<le> lk_ti st"
    using inv run by (auto simp: like_inv_def star_inv_def Let_def split: option.splits)
  have mm: "(like_mismatch input st, st) \<in> like_measure tokens input"
    using run like_backtrack_measure [of st]
    by (cases "lk_star_ti st") (auto simp: like_mismatch_def like_measure_def)
  show ?thesis
  proof (cases "lk_ti st < length tokens")
    case True
    then show ?thesis
    proof (cases "tokens ! lk_ti st")
      case WildcardMulti
      then show ?thesis using True run star
        by (cases "lk_star_ti st") (auto simp: like_step_def like_measure_def Let_def)
    qed (use run mm in \<open>auto simp: like_step_def like_measure_def Let_def\<close>)
  next
    case False
    then have "like_step tokens input st = like_mismatch input st \<or>
        (\<exists>r. like_step tokens input st = st\<lparr>lk_ret := Some r\<rparr>)"
      by (auto simp: like_step_def like_mismatch_def Let_def split: option.split)
    then show ?thesis using mm run by (auto simp: like_measure_def)
  qed
qed

lemma like_run:
  assumes ok: "str_ok input" and pat: "pattern_ok tokens"
  obtains st where "while_option (\<lambda>st. lk_ret st = None \<and> lk_ii st < length input) (like_step tokens input) like_init = Some st"
    and "like_inv tokens input st" and "lk_ret st = None \<Longrightarrow> length input \<le> lk_ii st"
proof -
  let ?b = "\<lambda>st. lk_ret st = None \<and> lk_ii st < length input"
  have "star_inv tokens (str_chars input) like_init 0" by (simp add: like_init_def star_inv_def)
  then have init: "like_inv tokens input like_init"
    unfolding like_inv_def Let_def by (auto simp: like_init_def byte_pos_def intro!: exI [of _ 0])
  have step: "like_inv tokens input (like_step tokens input st)" if "like_inv tokens input st" "?b st" for st
    using like_step_inv [OF ok pat that(1)] that(2) by simp
  have "wf {(t, s). (like_inv tokens input s \<and> ?b s) \<and> t = like_step tokens input s}"
  proof (rule wf_subset)
    show "wf (like_measure tokens input)" by (simp add: like_measure_def)
    show "{(t, s). (like_inv tokens input s \<and> ?b s) \<and> t = like_step tokens input s} \<subseteq> like_measure tokens input"
    proof
      fix p assume "p \<in> {(t, s). (like_inv tokens input s \<and> ?b s) \<and> t = like_step tokens input s}"
      then show "p \<in> like_measure tokens input" using like_step_measure by (cases p) simp
    qed
  qed
  then have "\<exists>st. while_option ?b (like_step tokens input) like_init = Some st"
    by (rule wf_while_option_Some [where P = "like_inv tokens input"]) (use step init in simp_all)
  then obtain st where st: "while_option ?b (like_step tokens input) like_init = Some st"
    by (elim exE)
  have "like_inv tokens input st"
    by (rule while_option_rule [where P = "like_inv tokens input", OF _ st init]) (use step in simp)
  moreover have "length input \<le> lk_ii st" if "lk_ret st = None"
    using while_option_stop [OF st] that by auto
  ultimately show thesis by (rule that [OF st])
qed

lemma like_matches_spec:
  assumes ok: "str_ok input" and pat: "pattern_ok tokens"
  shows "like_matches tokens input = Some (like_spec tokens (str_chars input))"
proof -
  let ?cs = "str_chars input"
  obtain st where st: "while_option (\<lambda>st. lk_ret st = None \<and> lk_ii st < length input) (like_step tokens input) like_init = Some st"
    "like_inv tokens input st" "lk_ret st = None \<Longrightarrow> length input \<le> lk_ii st"
    using like_run [OF ok pat] by blast
  have "(case lk_ret st of Some r \<Rightarrow> r | None \<Rightarrow> list_all (\<lambda>t. t = WildcardMulti) (drop (lk_ti st) tokens))
      = like_spec tokens ?cs"
  proof (cases "lk_ret st")
    case None
    then obtain i where i: "i \<le> length ?cs" "lk_ii st = byte_pos ?cs i" "star_inv tokens ?cs st i"
      using st(2) by (auto simp: like_inv_def Let_def)
    then have il: "i = length ?cs" using byte_pos_less [OF ok i(1)] st(3) [OF None] by auto
    have "\<forall>l. Literal l \<in> set (drop (lk_ti st) tokens) \<longrightarrow> l \<noteq> []"
      using pat by (auto simp: pattern_ok_def dest: in_set_dropD)
    then have cur: "like_spec (drop (lk_ti st) tokens) (drop i ?cs) \<longleftrightarrow>
        list_all (\<lambda>t. t = WildcardMulti) (drop (lk_ti st) tokens)"
      using like_spec_Nil il by simp
    show ?thesis
    proof (cases "lk_star_ti st")
      case None
      then show ?thesis using i(3) cur \<open>lk_ret st = None\<close> by (simp add: star_inv_def)
    next
      case (Some t)
      then obtain j seg where j: "drop t tokens = seg @ drop (lk_ti st) tokens" "WildcardMulti \<notin> set seg"
        "i = j + seg_len seg"
        "like_spec tokens ?cs = (like_spec (drop (lk_ti st) tokens) (drop i ?cs) \<or> like_later tokens ?cs t j)"
        using i(3) by (auto simp: star_inv_def)
      have "\<not> like_later tokens ?cs t j"
        using like_spec_segment [OF j(2)] j(1,3) il by (fastforce simp: like_later_def)
      then show ?thesis using j(4) cur \<open>lk_ret st = None\<close> by simp
    qed
  next
    case (Some r)
    then show ?thesis using st(2) by (simp add: like_inv_def)
  qed
  then show ?thesis using st(1) by (simp add: like_matches_def)
qed

section \<open>Parsing\<close>

text \<open>A single complete character.\<close>

definition is_char :: "string \<Rightarrow> bool" where
  "is_char c \<longleftrightarrow> c \<noteq> [] \<and> length c = len_utf8 (hd c)"

lemma str_chars_nonempty: "[] \<notin> set (str_chars s)"
proof (induction s rule: str_chars.induct)
  case (2 x xs)
  have "take (len_utf8 x) (x # xs) \<noteq> []" by (simp del: take_Suc_Cons)
  then show ?case using 2 unfolding str_chars.simps(2) by simp
qed simp

lemma str_ok_chars: "str_ok s \<Longrightarrow> c \<in> set (str_chars s) \<Longrightarrow> is_char c"
  using str_chars_nonempty [of s] by (auto simp: str_ok_def is_char_def)

lemma is_char_ok:
  assumes "is_char c"
  shows "str_ok c" and "str_chars c = [c]"
proof -
  obtain x xs where c: "c = x # xs" "length (x # xs) = len_utf8 x"
    using assms by (cases c) (auto simp: is_char_def)
  then have "take (len_utf8 x) c = c" "drop (len_utf8 x) c = []" by auto
  then show "str_chars c = [c]" unfolding c(1) by (simp add: str_chars.simps(2) del: drop_Suc_Cons take_Suc_Cons)
  then show "str_ok c" using assms by (simp add: str_ok_def is_char_def)
qed

lemma str_chars_concat: "\<forall>c \<in> set cs. is_char c \<Longrightarrow> str_chars (concat cs) = cs \<and> str_ok (concat cs)"
proof (induction cs)
  case (Cons c cs)
  then show ?case using is_char_ok [of c] by (simp add: str_chars_append str_ok_append)
qed simp

lemma pattern_ok_simps [simp]:
  "pattern_ok []" "pattern_ok (ts @ us) \<longleftrightarrow> pattern_ok ts \<and> pattern_ok us"
  "pattern_ok (flush_literal lit) \<longleftrightarrow> str_ok lit" "pattern_ok [WildcardSingle]" "pattern_ok [WildcardMulti]"
  by (auto simp: pattern_ok_def flush_literal_def)

lemma pattern_step_run:
  "pattern_step (ts, lit, escape) c =
    (if c = ''_'' \<and> \<not> escape then (ts @ flush_literal lit @ [WildcardSingle], [], False)
     else if c = ''%'' \<and> \<not> escape then (ts @ flush_literal lit @ [WildcardMulti], [], False)
     else if c = [CHR 0x5C] \<and> \<not> escape then (ts, lit, True)
     else (ts, lit @ c, False))"
  by (simp add: pattern_step_def)

lemma pattern_fold_ok:
  assumes "\<forall>c \<in> set cs. is_char c" and "pattern_ok ts" and "str_ok lit"
    and "foldl pattern_step (ts, lit, escape) cs = (ts', lit', escape')"
  shows "pattern_ok ts' \<and> str_ok lit'"
  using assms
proof (induction cs arbitrary: ts lit escape)
  case (Cons c cs)
  have "str_ok (lit @ c)" using Cons.prems is_char_ok by (simp add: str_ok_append)
  moreover obtain ts1 lit1 escape1 where st: "pattern_step (ts, lit, escape) c = (ts1, lit1, escape1)"
    by (metis prod.exhaust)
  ultimately have "pattern_ok ts1 \<and> str_ok lit1"
    using Cons.prems(2,3) by (auto simp: pattern_step_run split: if_splits)
  then show ?case using Cons.prems Cons.IH [of ts1 lit1 escape1] st by simp
qed simp

lemma like_parse_ok:
  assumes "str_ok p" and "like_parse p = (Ok tokens :: (_, 'd) query_result)"
  shows "pattern_ok tokens"
proof -
  obtain ts lit escape where f: "foldl pattern_step ([], [], False) (str_chars p) = (ts, lit, escape)"
    by (metis prod.exhaust)
  then have "pattern_ok ts \<and> str_ok lit"
    using pattern_fold_ok [of "str_chars p" "[]" "[]"] str_ok_chars [OF assms(1)] by simp
  then show ?thesis using assms(2) f by (auto simp: like_parse_def split: if_splits)
qed

text \<open>Writing a backslash before every special character, as the documentation of \<^verbatim>\<open>parse\<close> says.\<close>

definition escape_char :: "string \<Rightarrow> string" where
  "escape_char c = (if c \<in> {''_'', ''%'', [CHR 0x5C]} then CHR 0x5C # c else c)"

definition like_escape :: "string \<Rightarrow> string" where
  "like_escape s = concat (map escape_char (str_chars s))"

lemma backslash_char: "is_char [CHR 0x5C]"
  by (simp add: is_char_def len_utf8_def)

lemma like_escape_chars:
  assumes "str_ok s"
  shows "str_chars (like_escape s) =
    concat (map (\<lambda>c. if c \<in> {''_'', ''%'', [CHR 0x5C]} then [[CHR 0x5C], c] else [c]) (str_chars s))"
proof -
  let ?f = "\<lambda>c. if c \<in> {''_'', ''%'', [CHR 0x5C]} then [[CHR 0x5C], c] else [c]"
  have "concat (concat (map ?f cs)) = concat (map escape_char cs)" for cs :: "string list"
    by (induction cs) (auto simp: escape_char_def)
  moreover have "\<forall>c \<in> set (concat (map ?f (str_chars s))). is_char c"
    using str_ok_chars [OF assms] backslash_char by (auto split: if_splits)
  ultimately show ?thesis
    using str_chars_concat [of "concat (map ?f (str_chars s))"] by (simp only: like_escape_def)
qed

lemma pattern_fold_escape:
  "foldl pattern_step (ts, lit, False)
     (concat (map (\<lambda>c. if c \<in> {''_'', ''%'', [CHR 0x5C]} then [[CHR 0x5C], c] else [c]) cs))
   = (ts, lit @ concat cs, False)"
  by (induction cs arbitrary: lit) (auto simp: pattern_step_run)

lemma like_parse_escape:
  assumes "str_ok s"
  shows "like_parse (like_escape s) = Ok (flush_literal s)"
  using pattern_fold_escape [of "[]" "[]" "str_chars s"] like_escape_chars [OF assms]
  by (simp add: like_parse_def)

section \<open>Properties\<close>

text \<open>C23: the backtracking matcher decides the meaning of the pattern. For every pattern that parses and
  every input the loop ends, never slices inside a character, and answers whether the characters of the
  input can be divided among the tokens: a literal takes its characters, \<^verbatim>\<open>_\<close> takes one, \<^verbatim>\<open>%\<close> any number.\<close>

theorem like_matches_correct:
  assumes "str_ok pattern" and "like_parse pattern = (Ok tokens :: (pattern_token list, 'd) query_result)"
    and "str_ok input"
  shows "like_matches tokens input = Some (like_spec tokens (str_chars input))"
  using like_matches_spec [OF assms(3) like_parse_ok [OF assms(1,2)]] .

theorem like_matches_correct_witness:
  "like_matches [WildcardMulti, Literal ''ab'', WildcardSingle] ''aab1'' =
     Some (like_spec [WildcardMulti, Literal ''ab'', WildcardSingle] (str_chars ''aab1''))"
proof -
  have len: "len_utf8 (CHR ''a'') = 1" "len_utf8 (CHR ''b'') = 1" "len_utf8 (CHR ''1'') = 1"
    "len_utf8 (CHR ''%'') = 1" "len_utf8 (CHR ''_'') = 1"
    by (simp_all add: len_utf8_def)
  have chars: "str_chars ''aab1'' = [''a'', ''a'', ''b'', ''1'']" "str_chars ''%ab_'' = [''%'', ''a'', ''b'', ''_'']"
    by (simp_all add: str_chars.simps(2) len)
  have "str_ok ''aab1''" "str_ok ''%ab_''" unfolding str_ok_def chars by (simp_all add: len)
  moreover have "like_parse ''%ab_'' = (Ok [WildcardMulti, Literal ''ab'', WildcardSingle] :: (_, unit) query_result)"
    unfolding like_parse_def chars by (simp add: pattern_step_def flush_literal_def)
  ultimately show ?thesis using like_matches_correct [of "''%ab_''"] by blast
qed

text \<open>C28: escaping turns any text into a pattern that matches that text and nothing else.\<close>

theorem escaped_pattern_is_literal:
  assumes "str_ok s" and "str_ok input"
  shows "\<exists>tokens. like_parse (like_escape s) = (Ok tokens :: (pattern_token list, 'd) query_result) \<and>
    like_matches tokens input = Some (input = s)"
proof -
  have ok: "pattern_ok (flush_literal s)" using assms(1) by simp
  have "like_spec (flush_literal s) (str_chars input) \<longleftrightarrow> input = s"
  proof (cases "s = []")
    case False
    have "take (length (str_chars s)) (str_chars input) = str_chars s \<and> length (str_chars input) \<le> length (str_chars s)
        \<longleftrightarrow> str_chars input = str_chars s" by auto
    also have "\<dots> \<longleftrightarrow> input = s" by (metis concat_str_chars)
    finally show ?thesis using False by (simp add: flush_literal_def)
  qed (simp add: flush_literal_def)
  then show ?thesis using like_parse_escape [OF assms(1)] like_matches_spec [OF assms(2) ok] by auto
qed

theorem escaped_pattern_is_literal_witness:
  "\<exists>tokens. like_parse (like_escape ''5%'') = (Ok tokens :: (pattern_token list, unit) query_result) \<and>
    like_matches tokens ''50'' = Some False"
proof -
  have "str_ok ''5%''" "str_ok ''50''"
    by (simp_all add: str_ok_def str_chars.simps(2) len_utf8_def)
  then show ?thesis using escaped_pattern_is_literal [of "''5%''" "''50''"] by simp
qed

end
