(* ===== verification/Json_Filter.thy ===== *)
theory Json_Filter
  imports Like
begin

text \<open>
  \<^verbatim>\<open>query/filter/json_filter.rs\<close> with \<^verbatim>\<open>path.rs\<close>, \<^verbatim>\<open>extract.rs\<close> and \<^verbatim>\<open>contains.rs\<close>: paths into a JSON document,
  extraction, structural containment and the comparison of extracted values.
\<close>

section \<open>The crates used\<close>

text \<open>
  \<^verbatim>\<open>Decimal::from\<close> of an integer and \<^verbatim>\<open>Decimal::try_from\<close> of a float, both of \<^verbatim>\<open>rust_decimal\<close>, and the
  largest \<^verbatim>\<open>usize\<close> of the target.
\<close>

record 'd host =
  dec_of_int :: "int \<Rightarrow> 'd"
  dec_try_from :: "rat \<Rightarrow> 'd option"
  usize_max :: nat

section \<open>Paths\<close>

datatype path_segment = Key string | Index nat

definition is_digit :: "char \<Rightarrow> bool" where
  "is_digit c \<longleftrightarrow> CHR ''0'' \<le> c \<and> c \<le> CHR ''9''"

definition digits_val :: "string \<Rightarrow> nat" where
  "digits_val s = foldl (\<lambda>n c. 10 * n + (of_char c - 48)) 0 s"

text \<open>\<^verbatim>\<open>str::parse::<usize>\<close>: an optional plus sign, then digits whose value fits.\<close>

definition parse_usize :: "nat \<Rightarrow> string \<Rightarrow> nat option" where
  "parse_usize mx s =
     (let ds = (case s of c # cs \<Rightarrow> if c = CHR ''+'' then cs else s | [] \<Rightarrow> [])
      in if ds \<noteq> [] \<and> list_all is_digit ds \<and> digits_val ds \<le> mx then Some (digits_val ds) else None)"

definition flush_key :: "string \<Rightarrow> path_segment list" where
  "flush_key k = (if k = [] then [] else [Key k])"

text \<open>
  The loop of \<^verbatim>\<open>parse_path\<close>. The delimiters are single bytes that occur in no longer character, so the
  loop over characters is one over bytes.
\<close>

function parse_path_loop ::
  "nat \<Rightarrow> string \<Rightarrow> path_segment list \<Rightarrow> string \<Rightarrow> (path_segment list, 'd) query_result" where
  "parse_path_loop mx [] segments current_key =
     (let segs = segments @ flush_key current_key
      in if segs = [] then Err (InvalidQuery ''Empty JSON path'') else Ok segs)"
| "parse_path_loop mx (ch # rest) segments current_key =
     (if ch = CHR ''.'' then
        if current_key = [] \<and> segments = [] then Err (InvalidQuery (''JSON path cannot start with '' @ quoted ''.''))
        else if rest = [] then Err (InvalidQuery (''JSON path cannot end with '' @ quoted ''.''))
        else if hd rest = CHR ''.'' then Err (InvalidQuery (''JSON path cannot have consecutive '' @ quoted ''.''))
        else parse_path_loop mx rest (segments @ flush_key current_key) []
      else if ch = CHR ''['' then
        (let index_str = takeWhile (\<lambda>c. c \<noteq> CHR '']'') rest;
             after = dropWhile (\<lambda>c. c \<noteq> CHR '']'') rest in
         if after = [] then Err (InvalidQuery ''Unclosed bracket in JSON path'')
         else if index_str = [] then Err (InvalidQuery ''Empty brackets in JSON path'')
         else if hd index_str = CHR ''-'' then Err (InvalidQuery ''Negative array index in JSON path'')
         else case parse_usize mx index_str of
             None \<Rightarrow> Err (InvalidQuery (''Invalid array index '' @ quoted index_str @ '' in JSON path''))
           | Some index \<Rightarrow> parse_path_loop mx (tl after) (segments @ flush_key current_key @ [Index index]) [])
      else if ch = CHR '']'' then Err (InvalidQuery (''Unexpected '' @ quoted '']'' @ '' in JSON path''))
      else parse_path_loop mx rest segments (current_key @ [ch]))"
  by pat_completeness auto

termination
proof (relation "measure (\<lambda>(mx, s, segs, k). length s)", goal_cases)
  case (3 mx ch rest segs k index_str after index)
  have "length (dropWhile (\<lambda>c. c \<noteq> CHR '']'') rest) \<le> length rest" by (rule length_dropWhile_le)
  then show ?case using 3 by simp
qed simp_all

definition parse_path :: "nat \<Rightarrow> string \<Rightarrow> (path_segment list, 'd) query_result" where
  "parse_path mx path =
     (if path = [] then Err (InvalidQuery ''Empty JSON path'') else parse_path_loop mx path [] [])"

section \<open>Extraction\<close>

fun walk_path :: "path_segment list \<Rightarrow> json \<Rightarrow> json option" where
  "walk_path [] j = Some j"
| "walk_path (Key k # segs) (JObject es) = Option.bind (map_of es k) (walk_path segs)"
| "walk_path (Index i # segs) (JArray xs) = (if i < length xs then walk_path segs (xs ! i) else None)"
| "walk_path _ _ = None"

fun json_value_to_dbms_value :: "'d host \<Rightarrow> json \<Rightarrow> 'd dbms_value" where
  "json_value_to_dbms_value H JNull = Null"
| "json_value_to_dbms_value H (JBool b) = Boolean b"
| "json_value_to_dbms_value H (JNumber n) =
     (case json_number_view n of
        JInt i \<Rightarrow> if i < 2 ^ 63 then Int64 i else Decimal (dec_of_int H i)
      | JFloat f \<Rightarrow> (case dec_try_from H f of Some d \<Rightarrow> Decimal d | None \<Rightarrow> Json (JNumber n)))"
| "json_value_to_dbms_value H (JString s) = Text s"
| "json_value_to_dbms_value H (JArray xs) = Json (JArray xs)"
| "json_value_to_dbms_value H (JObject es) = Json (JObject es)"

definition extract_at_path :: "'d host \<Rightarrow> json \<Rightarrow> path_segment list \<Rightarrow> 'd dbms_value option" where
  "extract_at_path H j segments = map_option (json_value_to_dbms_value H) (walk_path segments j)"

section \<open>Containment\<close>

fun is_compound :: "json \<Rightarrow> bool" where
  "is_compound (JArray _) \<longleftrightarrow> True"
| "is_compound (JObject _) \<longleftrightarrow> True"
| "is_compound _ \<longleftrightarrow> False"

lemma size_map_of: "map_of es k = Some v \<Longrightarrow> size v < size (JObject es)"
  by (induction es) (auto split: if_splits)

lemma size_elem: "x \<in> set xs \<Longrightarrow> size x < size (JArray xs)"
  by (induction xs) auto

function json_contains :: "json \<Rightarrow> json \<Rightarrow> bool" where
  "json_contains (JObject h) needle =
     (case needle of
        JObject n \<Rightarrow> list_all (\<lambda>(k, nv). case map_of h k of Some hv \<Rightarrow> json_contains hv nv | None \<Rightarrow> False) n
      | _ \<Rightarrow> False)"
| "json_contains (JArray h) needle =
     (case needle of
        JArray n \<Rightarrow> list_all (\<lambda>ne. list_ex (\<lambda>he. json_contains he ne) h) n
      | _ \<Rightarrow> \<not> is_compound needle \<and> list_ex (\<lambda>he. json_contains he needle) h)"
| "json_contains JNull needle = (needle = JNull)"
| "json_contains (JBool b) needle = (needle = JBool b)"
| "json_contains (JNumber m) needle = (needle = JNumber m)"
| "json_contains (JString s) needle = (needle = JString s)"
  by pat_completeness auto

termination
  by (relation "measure (\<lambda>(h, n). size h)") (auto dest: size_map_of size_elem)

section \<open>Comparison\<close>

datatype 'd json_cmp =
    JEq "'d dbms_value" | JNe "'d dbms_value" | JGt "'d dbms_value" | JLt "'d dbms_value" | JGe "'d dbms_value" | JLe "'d dbms_value"
  | JIn "'d dbms_value list" | JIsNull | JNotNull

fun numeric_magnitude :: "'d host \<Rightarrow> 'd dbms_value \<Rightarrow> 'd option" where
  "numeric_magnitude H (Decimal d) = Some d"
| "numeric_magnitude H (Int8 i) = Some (dec_of_int H i)"
| "numeric_magnitude H (Int16 i) = Some (dec_of_int H i)"
| "numeric_magnitude H (Int32 i) = Some (dec_of_int H i)"
| "numeric_magnitude H (Int64 i) = Some (dec_of_int H i)"
| "numeric_magnitude H (Uint8 n) = Some (dec_of_int H (int n))"
| "numeric_magnitude H (Uint16 n) = Some (dec_of_int H (int n))"
| "numeric_magnitude H (Uint32 n) = Some (dec_of_int H (int n))"
| "numeric_magnitude H (Uint64 n) = Some (dec_of_int H (int n))"
| "numeric_magnitude H _ = None"

definition compare_values :: "'d :: linorder host \<Rightarrow> 'd dbms_value \<Rightarrow> 'd dbms_value \<Rightarrow> ordering" where
  "compare_values H left right =
     (case (numeric_magnitude H left, numeric_magnitude H right) of
        (Some l, Some r) \<Rightarrow> cmp l r
      | _ \<Rightarrow> cmp left right)"

fun json_cmp_matches :: "'d :: linorder host \<Rightarrow> 'd json_cmp \<Rightarrow> 'd dbms_value option \<Rightarrow> bool" where
  "json_cmp_matches H JIsNull None \<longleftrightarrow> True"
| "json_cmp_matches H c None \<longleftrightarrow> False"
| "json_cmp_matches H JIsNull (Some v) \<longleftrightarrow> is_null v"
| "json_cmp_matches H JNotNull (Some v) \<longleftrightarrow> \<not> is_null v"
| "json_cmp_matches H (JEq t) (Some v) \<longleftrightarrow> compare_values H v t = Equal"
| "json_cmp_matches H (JNe t) (Some v) \<longleftrightarrow> compare_values H v t \<noteq> Equal"
| "json_cmp_matches H (JGt t) (Some v) \<longleftrightarrow> compare_values H v t = Greater"
| "json_cmp_matches H (JLt t) (Some v) \<longleftrightarrow> compare_values H v t = Less"
| "json_cmp_matches H (JGe t) (Some v) \<longleftrightarrow> compare_values H v t \<noteq> Less"
| "json_cmp_matches H (JLe t) (Some v) \<longleftrightarrow> compare_values H v t \<noteq> Greater"
| "json_cmp_matches H (JIn ts) (Some v) \<longleftrightarrow> list_ex (\<lambda>t. compare_values H v t = Equal) ts"

datatype 'd json_filter = Contains json | Extract string "'d json_cmp" | HasKey string

primrec json_filter_matches :: "'d :: linorder host \<Rightarrow> 'd json_filter \<Rightarrow> json \<Rightarrow> (bool, 'd) query_result" where
  "json_filter_matches H (Contains pattern) j = Ok (json_contains j pattern)"
| "json_filter_matches H (Extract path c) j =
     bind_outcome (parse_path (usize_max H) path) (\<lambda>segments. Ok (json_cmp_matches H c (extract_at_path H j segments)))"
| "json_filter_matches H (HasKey path) j =
     bind_outcome (parse_path (usize_max H) path) (\<lambda>segments. Ok (extract_at_path H j segments \<noteq> None))"

primrec json_filter_validate :: "'d host \<Rightarrow> 'd json_filter \<Rightarrow> (unit, 'd) query_result" where
  "json_filter_validate H (Contains _) = Ok ()"
| "json_filter_validate H (Extract path _) = map_outcome (\<lambda>_. ()) (parse_path (usize_max H) path)"
| "json_filter_validate H (HasKey path) = map_outcome (\<lambda>_. ()) (parse_path (usize_max H) path)"

section \<open>Paths and their text\<close>

fun show_nat :: "nat \<Rightarrow> string" where
  "show_nat n = (if n < 10 then [char_of (48 + n)] else show_nat (n div 10) @ [char_of (48 + n mod 10)])"

declare show_nat.simps [simp del]

fun print_tail :: "path_segment list \<Rightarrow> string" where
  "print_tail [] = []"
| "print_tail (Key k # segs) = CHR ''.'' # k @ print_tail segs"
| "print_tail (Index i # segs) = CHR ''['' # show_nat i @ CHR '']'' # print_tail segs"

fun print_path :: "path_segment list \<Rightarrow> string" where
  "print_path (Key k # segs) = k @ print_tail segs"
| "print_path segs = print_tail segs"

definition plain_key :: "string \<Rightarrow> bool" where
  "plain_key k \<longleftrightarrow> k \<noteq> [] \<and> set k \<inter> {CHR ''.'', CHR ''['', CHR '']''} = {}"

fun segment_ok :: "nat \<Rightarrow> path_segment \<Rightarrow> bool" where
  "segment_ok mx (Key k) \<longleftrightarrow> plain_key k"
| "segment_ok mx (Index i) \<longleftrightarrow> i \<le> mx"

lemma digit_char: "d < 10 \<Longrightarrow> is_digit (char_of (48 + d)) \<and> (of_char (char_of (48 + d) :: char) :: nat) = 48 + d"
  by (simp add: is_digit_def less_eq_char_def)

lemma show_nat_ok: "show_nat n \<noteq> [] \<and> list_all is_digit (show_nat n) \<and> digits_val (show_nat n) = n"
proof (induction n rule: show_nat.induct)
  case (1 n)
  show ?case
  proof (cases "n < 10")
    case True
    then show ?thesis using digit_char [of n] by (simp add: show_nat.simps digits_val_def)
  next
    case False
    have "n mod 10 < 10" by simp
    then show ?thesis using 1 False digit_char [of "n mod 10"] by (simp add: show_nat.simps [of n] digits_val_def)
  qed
qed

lemma digit_not_special: "is_digit c \<Longrightarrow> c \<notin> {CHR ''+'', CHR ''-'', CHR '']''}"
  by (auto simp: is_digit_def less_eq_char_def)

lemma parse_usize_show: "i \<le> mx \<Longrightarrow> parse_usize mx (show_nat i) = Some i"
  using show_nat_ok [of i] by (cases "show_nat i") (auto simp: parse_usize_def dest: digit_not_special)

lemma parse_path_key:
  "set k \<inter> {CHR ''.'', CHR ''['', CHR '']''} = {} \<Longrightarrow>
     parse_path_loop mx (k @ rest) segs cur = parse_path_loop mx rest segs (cur @ k)"
  by (induction k arbitrary: cur) auto

lemma takeWhile_show: "takeWhile (\<lambda>c. c \<noteq> CHR '']'') (show_nat i @ CHR '']'' # rest) = show_nat i"
  and dropWhile_show: "dropWhile (\<lambda>c. c \<noteq> CHR '']'') (show_nat i @ CHR '']'' # rest) = CHR '']'' # rest"
proof -
  have "\<forall>c \<in> set (show_nat i). c \<noteq> CHR '']''" using show_nat_ok [of i] digit_not_special by (auto simp: list_all_iff)
  then show "takeWhile (\<lambda>c. c \<noteq> CHR '']'') (show_nat i @ CHR '']'' # rest) = show_nat i"
    "dropWhile (\<lambda>c. c \<noteq> CHR '']'') (show_nat i @ CHR '']'' # rest) = CHR '']'' # rest"
    by (simp_all add: takeWhile_append2 dropWhile_append2)
qed

lemma parse_path_index:
  assumes "i \<le> mx"
  shows "parse_path_loop mx (CHR ''['' # show_nat i @ CHR '']'' # rest) segs cur =
     parse_path_loop mx rest (segs @ flush_key cur @ [Index i]) []"
proof -
  obtain c cs where c: "show_nat i = c # cs" "is_digit c" using show_nat_ok [of i] by (cases "show_nat i") auto
  then have "hd (show_nat i) \<noteq> CHR ''-''" using digit_not_special [of c] by auto
  then show ?thesis
    using c(1) takeWhile_show [of i rest] dropWhile_show [of i rest] parse_usize_show [OF assms]
    by (simp add: Let_def)
qed

lemma parse_print_tail:
  "\<forall>sg \<in> set segs. segment_ok mx sg \<Longrightarrow> acc \<noteq> [] \<or> cur \<noteq> [] \<Longrightarrow>
     parse_path_loop mx (print_tail segs) acc cur = (Ok (acc @ flush_key cur @ segs) :: (_, 'd) query_result)"
proof (induction segs arbitrary: acc cur)
  case Nil
  then show ?case by (auto simp: flush_key_def)
next
  case (Cons sg segs)
  show ?case
  proof (cases sg)
    case (Key k)
    then have k: "plain_key k" using Cons.prems by simp
    then have "k @ print_tail segs \<noteq> []" "hd (k @ print_tail segs) \<noteq> CHR ''.''"
      by (auto simp: plain_key_def neq_Nil_conv)
    then have "parse_path_loop mx (print_tail (sg # segs)) acc cur =
        (parse_path_loop mx (k @ print_tail segs) (acc @ flush_key cur) [] :: (_, 'd) query_result)"
      using Cons.prems(2) Key by (auto simp: flush_key_def)
    also have "\<dots> = parse_path_loop mx (print_tail segs) (acc @ flush_key cur) k"
      using k parse_path_key [of k mx "print_tail segs" "acc @ flush_key cur" "[]"] by (simp add: plain_key_def)
    also have "\<dots> = Ok ((acc @ flush_key cur) @ flush_key k @ segs)"
      using k Cons.prems(1) by (intro Cons.IH) (auto simp: plain_key_def)
    finally show ?thesis using Key k by (simp add: flush_key_def plain_key_def)
  next
    case (Index i)
    then have "i \<le> mx" using Cons.prems(1) by simp
    then have "parse_path_loop mx (print_tail (sg # segs)) acc cur =
        (parse_path_loop mx (print_tail segs) (acc @ flush_key cur @ [Index i]) [] :: (_, 'd) query_result)"
      unfolding Index print_tail.simps by (rule parse_path_index)
    also have "\<dots> = Ok ((acc @ flush_key cur @ [Index i]) @ flush_key [] @ segs)"
      using Cons.prems(1) by (intro Cons.IH) auto
    finally show ?thesis using Index by (simp add: flush_key_def)
  qed
qed

text \<open>C27: printing a JSON path and parsing the text gives the path back, for every non-empty path whose keys
  are non-empty and contain no delimiter and whose indices fit \<^verbatim>\<open>usize\<close>.\<close>

theorem parse_print_path:
  assumes "segs \<noteq> []" and "\<forall>sg \<in> set segs. segment_ok mx sg"
  shows "parse_path mx (print_path segs) = (Ok segs :: (path_segment list, 'd) query_result)"
proof (cases "hd segs")
  case (Key k)
  then obtain rest where s: "segs = Key k # rest" using assms(1) by (cases segs) auto
  then have k: "plain_key k" using assms(2) by simp
  then have "parse_path mx (print_path segs) = (parse_path_loop mx (print_tail rest) [] k :: (_, 'd) query_result)"
    using parse_path_key [of k mx "print_tail rest" "[]" "[]"] s by (auto simp: parse_path_def plain_key_def)
  also have "\<dots> = Ok ([] @ flush_key k @ rest)"
    using assms(2) s k by (intro parse_print_tail) (auto simp: plain_key_def)
  finally show ?thesis using s k by (simp add: flush_key_def plain_key_def)
next
  case (Index i)
  then obtain rest where s: "segs = Index i # rest" using assms(1) by (cases segs) auto
  have "parse_path mx (print_path segs) = (parse_path_loop mx (print_tail rest) [Index i] [] :: (_, 'd) query_result)"
    using s assms(2) parse_path_index [of i mx "print_tail rest" "[]" "[]"] by (simp add: parse_path_def flush_key_def)
  also have "\<dots> = Ok ([Index i] @ flush_key [] @ rest)"
    using assms(2) s by (intro parse_print_tail) auto
  finally show ?thesis using s by (simp add: flush_key_def)
qed

theorem parse_print_path_witness:
  "parse_path 65535 (print_path [Key ''items'', Index 12, Key ''name'']) =
     (Ok [Key ''items'', Index 12, Key ''name''] :: (path_segment list, unit) query_result)"
  by (rule parse_print_path) (auto simp: plain_key_def)

section \<open>Containment laws\<close>

text \<open>The keys of every object are distinct, as in a map.\<close>

fun json_wf :: "json \<Rightarrow> bool" where
  "json_wf (JArray xs) \<longleftrightarrow> list_all json_wf xs"
| "json_wf (JObject es) \<longleftrightarrow> distinct (map fst es) \<and> list_all (\<lambda>(k, v). json_wf v) es"
| "json_wf _ \<longleftrightarrow> True"

lemma json_contains_refl: "json_wf j \<Longrightarrow> json_contains j j"
proof (induction j rule: json_wf.induct)
  case (1 xs)
  then show ?case by (auto simp: list_all_iff list_ex_iff)
next
  case (2 es)
  have "json_contains w v" if "(k, v) \<in> set es" "map_of es k = Some w" for k v w
  proof -
    have "w = v" using that 2(2) by (simp add: map_of_eq_Some_iff)
    moreover have "json_wf v" using 2(2) that(1) by (auto simp: list_all_iff)
    ultimately show ?thesis using 2(1) [OF that(1)] by simp
  qed
  moreover have "map_of es k \<noteq> None" if "(k, v) \<in> set es" for k v
    using that by (simp add: map_of_eq_None_iff image_iff) force
  ultimately show ?case by (auto simp: list_all_iff split: option.splits)
qed auto

end
