(* ===== verification/Query_Filter.thy ===== *)
theory Query_Filter
  imports Json_Filter
begin

text \<open>
  \<^verbatim>\<open>wasm-dbms-api/src/dbms/query/filter.rs\<close>: the filters, their evaluation on a row and on the row groups of
  a join, and their validation against table schemas.
\<close>

section \<open>Filters\<close>

datatype 'd query_filter =
    FEq string "'d dbms_value"
  | FNe string "'d dbms_value"
  | FGt string "'d dbms_value"
  | FLt string "'d dbms_value"
  | FGe string "'d dbms_value"
  | FIn string "'d dbms_value list"
  | FJson string "'d json_filter"
  | FLe string "'d dbms_value"
  | FLike string string
  | FNotNull string
  | FIsNull string
  | FAnd "'d query_filter" "'d query_filter"
  | FOr "'d query_filter" "'d query_filter"
  | FNot "'d query_filter"

abbreviation find_column :: "string \<Rightarrow> 'd row \<Rightarrow> 'd dbms_value option" where
  "find_column field row \<equiv> row_get row field"

definition matches_json ::
  "'d :: linorder host \<Rightarrow> string \<Rightarrow> 'd json_filter \<Rightarrow> 'd dbms_value option \<Rightarrow> (bool, 'd) query_result" where
  "matches_json H field jf v =
     (case v of
        Some (Json j) \<Rightarrow> json_filter_matches H jf j
      | Some Null \<Rightarrow> map_outcome (\<lambda>_. False) (json_filter_validate H jf)
      | _ \<Rightarrow> Err (InvalidQuery (''Column '' @ quoted field @ '' is not a Json type'')))"

text \<open>
  The error of \<^verbatim>\<open>Like::parse\<close> is wrapped into a message that prints it; \<open>like_matches\<close> always has a value
  on strings, see \<open>like_matches_spec\<close>.
\<close>

definition like_error :: "string \<Rightarrow> 'd query_error" where
  "like_error pattern = InvalidQuery (''Invalid LIKE pattern '' @ pattern @ '': '' @
     ''Invalid query: LIKE pattern ends with a dangling escape character'')"

definition parse_like_or_error :: "string \<Rightarrow> (pattern_token list, 'd) query_result" where
  "parse_like_or_error pattern =
     (case like_parse pattern :: (pattern_token list, 'd) query_result of
        Ok tokens \<Rightarrow> Ok tokens | Err _ \<Rightarrow> Err (like_error pattern) | Panic \<Rightarrow> Panic)"

definition matches_like :: "string \<Rightarrow> 'd dbms_value \<Rightarrow> (bool, 'd) query_result" where
  "matches_like pattern v =
     (case v of
        Text text \<Rightarrow> bind_outcome (parse_like_or_error pattern) (\<lambda>tokens.
          case like_matches tokens text of Some b \<Rightarrow> Ok b | None \<Rightarrow> Panic)
      | Null \<Rightarrow> bind_outcome (parse_like_or_error pattern) (\<lambda>tokens. Ok False)
      | _ \<Rightarrow> Err (InvalidQuery ''LIKE operator can only be applied to Text values''))"

text \<open>\<open>l? && r?\<close> and \<open>l? || r?\<close>.\<close>

definition and_then :: "(bool, 'e) outcome \<Rightarrow> (bool, 'e) outcome \<Rightarrow> (bool, 'e) outcome" where
  "and_then l r = bind_outcome l (\<lambda>b. if b then r else Ok False)"

definition or_else :: "(bool, 'e) outcome \<Rightarrow> (bool, 'e) outcome \<Rightarrow> (bool, 'e) outcome" where
  "or_else l r = bind_outcome l (\<lambda>b. if b then Ok True else r)"

primrec matches :: "'d :: linorder host \<Rightarrow> 'd query_filter \<Rightarrow> 'd row \<Rightarrow> (bool, 'd) query_result" where
  "matches H (FEq field v) row = Ok (row_any field (\<lambda>x. x = v) row)"
| "matches H (FNe field v) row = Ok (row_any field (\<lambda>x. x \<noteq> v) row)"
| "matches H (FGt field v) row = Ok (row_any field (\<lambda>x. x > v) row)"
| "matches H (FLt field v) row = Ok (row_any field (\<lambda>x. x < v) row)"
| "matches H (FGe field v) row = Ok (row_any field (\<lambda>x. x \<ge> v) row)"
| "matches H (FLe field v) row = Ok (row_any field (\<lambda>x. x \<le> v) row)"
| "matches H (FIn field vs) row = Ok (row_any field (\<lambda>x. x \<in> set vs) row)"
| "matches H (FJson field jf) row = matches_json H field jf (find_column field row)"
| "matches H (FLike field pattern) row =
     (case find_column field row of None \<Rightarrow> Ok False | Some v \<Rightarrow> matches_like pattern v)"
| "matches H (FNotNull field) row = Ok (row_any field (\<lambda>x. \<not> is_null x) row)"
| "matches H (FIsNull field) row = Ok (row_any field is_null row)"
| "matches H (FAnd l r) row = and_then (matches H l row) (matches H r row)"
| "matches H (FOr l r) row = or_else (matches H l row) (matches H r row)"
| "matches H (FNot f) row = map_outcome Not (matches H f row)"

section \<open>Joined rows\<close>

text \<open>\<^verbatim>\<open>str::split_once('.')\<close>.\<close>

definition split_once_dot :: "string \<Rightarrow> (string \<times> string) option" where
  "split_once_dot s =
     (case dropWhile (\<lambda>c. c \<noteq> CHR ''.'') s of
        [] \<Rightarrow> None
      | _ # rest \<Rightarrow> Some (takeWhile (\<lambda>c. c \<noteq> CHR ''.'') s, rest))"

definition not_in_scope :: "string \<Rightarrow> 'd query_error" where
  "not_in_scope table = InvalidQuery (''Table '' @ quoted table @ '' not in query scope'')"

definition ambiguous_column :: "string \<Rightarrow> 'd query_error" where
  "ambiguous_column field = InvalidQuery (''Ambiguous column '' @ quoted field @
     '': exists in multiple joined tables, qualify with table name'')"

definition resolve_joined_column ::
  "string \<Rightarrow> (string \<times> 'd row) list \<Rightarrow> ('d dbms_value option, 'd) query_result" where
  "resolve_joined_column field groups =
     (case split_once_dot field of
        Some (table, column) \<Rightarrow>
          (case find (\<lambda>(t, _). t = table) groups of
             None \<Rightarrow> Err (not_in_scope table)
           | Some (_, row) \<Rightarrow> Ok (row_get row column))
      | None \<Rightarrow>
          (case concat (map (\<lambda>(_, row). map snd (filter (\<lambda>(c, v). cd_name c = field) row)) groups) of
             [] \<Rightarrow> Ok None
           | [v] \<Rightarrow> Ok (Some v)
           | _ \<Rightarrow> Err (ambiguous_column field)))"

definition joined_test ::
  "string \<Rightarrow> ('d dbms_value \<Rightarrow> bool) \<Rightarrow> (string \<times> 'd row) list \<Rightarrow> (bool, 'd) query_result" where
  "joined_test field pred groups =
     map_outcome (\<lambda>v. case v of None \<Rightarrow> False | Some x \<Rightarrow> pred x) (resolve_joined_column field groups)"

primrec matches_joined_row ::
  "'d :: linorder host \<Rightarrow> 'd query_filter \<Rightarrow> (string \<times> 'd row) list \<Rightarrow> (bool, 'd) query_result" where
  "matches_joined_row H (FEq field v) groups = joined_test field (\<lambda>x. x = v) groups"
| "matches_joined_row H (FNe field v) groups = joined_test field (\<lambda>x. x \<noteq> v) groups"
| "matches_joined_row H (FGt field v) groups = joined_test field (\<lambda>x. x > v) groups"
| "matches_joined_row H (FLt field v) groups = joined_test field (\<lambda>x. x < v) groups"
| "matches_joined_row H (FGe field v) groups = joined_test field (\<lambda>x. x \<ge> v) groups"
| "matches_joined_row H (FLe field v) groups = joined_test field (\<lambda>x. x \<le> v) groups"
| "matches_joined_row H (FIn field vs) groups = joined_test field (\<lambda>x. x \<in> set vs) groups"
| "matches_joined_row H (FJson field jf) groups =
     bind_outcome (resolve_joined_column field groups) (matches_json H field jf)"
| "matches_joined_row H (FLike field pattern) groups =
     bind_outcome (resolve_joined_column field groups) (\<lambda>v.
       case v of None \<Rightarrow> Ok False | Some x \<Rightarrow> matches_like pattern x)"
| "matches_joined_row H (FNotNull field) groups = joined_test field (\<lambda>x. \<not> is_null x) groups"
| "matches_joined_row H (FIsNull field) groups = joined_test field is_null groups"
| "matches_joined_row H (FAnd l r) groups = and_then (matches_joined_row H l groups) (matches_joined_row H r groups)"
| "matches_joined_row H (FOr l r) groups = or_else (matches_joined_row H l groups) (matches_joined_row H r groups)"
| "matches_joined_row H (FNot f) groups = map_outcome Not (matches_joined_row H f groups)"

section \<open>Validation\<close>

definition resolve_joined_column_def ::
  "string \<Rightarrow> (string \<times> 'd column_def list) list \<Rightarrow> ('d column_def option, 'd) query_result" where
  "resolve_joined_column_def field groups =
     (case split_once_dot field of
        Some (table, column) \<Rightarrow>
          (case find (\<lambda>(t, _). t = table) groups of
             None \<Rightarrow> Err (not_in_scope table)
           | Some (_, cols) \<Rightarrow> Ok (find (\<lambda>c. cd_name c = column) cols))
      | None \<Rightarrow>
          (case filter (\<lambda>c. cd_name c = field) (concat (map snd groups)) of
             [] \<Rightarrow> Ok None
           | [c] \<Rightarrow> Ok (Some c)
           | _ \<Rightarrow> Err (ambiguous_column field)))"

definition validate_field :: "string \<Rightarrow> (string \<times> 'd column_def list) list \<Rightarrow> (unit, 'd) query_result" where
  "validate_field field groups = map_outcome (\<lambda>_. ()) (resolve_joined_column_def field groups)"

primrec validate_joined :: "'d query_filter \<Rightarrow> (string \<times> 'd column_def list) list \<Rightarrow> (unit, 'd) query_result" where
  "validate_joined (FEq field _) groups = validate_field field groups"
| "validate_joined (FNe field _) groups = validate_field field groups"
| "validate_joined (FGt field _) groups = validate_field field groups"
| "validate_joined (FLt field _) groups = validate_field field groups"
| "validate_joined (FGe field _) groups = validate_field field groups"
| "validate_joined (FIn field _) groups = validate_field field groups"
| "validate_joined (FLe field _) groups = validate_field field groups"
| "validate_joined (FNotNull field) groups = validate_field field groups"
| "validate_joined (FIsNull field) groups = validate_field field groups"
| "validate_joined (FJson field _) groups =
     bind_outcome (resolve_joined_column_def field groups) (\<lambda>column.
       if (case column of Some c \<Rightarrow> cd_data_type c = KJson | None \<Rightarrow> False) then Ok ()
       else Err (InvalidQuery (''Column '' @ quoted field @ '' is not a Json type'')))"
| "validate_joined (FLike field pattern) groups =
     bind_outcome (resolve_joined_column_def field groups) (\<lambda>column.
       case column of
         Some c \<Rightarrow>
           if cd_data_type c = KText then map_outcome (\<lambda>_. ()) (parse_like_or_error pattern)
           else Err (InvalidQuery ''LIKE operator can only be applied to Text values'')
       | None \<Rightarrow> Ok ())"
| "validate_joined (FAnd l r) groups = bind_outcome (validate_joined l groups) (\<lambda>_. validate_joined r groups)"
| "validate_joined (FOr l r) groups = bind_outcome (validate_joined l groups) (\<lambda>_. validate_joined r groups)"
| "validate_joined (FNot f) groups = validate_joined f groups"

section \<open>Evaluation and validation\<close>

text \<open>\<^verbatim>\<open>collect_filter_columns\<close> of \<^verbatim>\<open>access_planner.rs\<close>.\<close>

primrec filter_columns :: "'d query_filter \<Rightarrow> string set" where
  "filter_columns (FEq c _) = {c}"
| "filter_columns (FNe c _) = {c}"
| "filter_columns (FGt c _) = {c}"
| "filter_columns (FLt c _) = {c}"
| "filter_columns (FGe c _) = {c}"
| "filter_columns (FIn c _) = {c}"
| "filter_columns (FJson c _) = {c}"
| "filter_columns (FLe c _) = {c}"
| "filter_columns (FLike c _) = {c}"
| "filter_columns (FNotNull c) = {c}"
| "filter_columns (FIsNull c) = {c}"
| "filter_columns (FAnd l r) = filter_columns l \<union> filter_columns r"
| "filter_columns (FOr l r) = filter_columns l \<union> filter_columns r"
| "filter_columns (FNot f) = filter_columns f"

primrec has_json :: "'d query_filter \<Rightarrow> bool" where
  "has_json (FEq _ _) \<longleftrightarrow> False"
| "has_json (FNe _ _) \<longleftrightarrow> False"
| "has_json (FGt _ _) \<longleftrightarrow> False"
| "has_json (FLt _ _) \<longleftrightarrow> False"
| "has_json (FGe _ _) \<longleftrightarrow> False"
| "has_json (FIn _ _) \<longleftrightarrow> False"
| "has_json (FJson _ _) \<longleftrightarrow> True"
| "has_json (FLe _ _) \<longleftrightarrow> False"
| "has_json (FLike _ _) \<longleftrightarrow> False"
| "has_json (FNotNull _) \<longleftrightarrow> False"
| "has_json (FIsNull _) \<longleftrightarrow> False"
| "has_json (FAnd l r) \<longleftrightarrow> has_json l \<or> has_json r"
| "has_json (FOr l r) \<longleftrightarrow> has_json l \<or> has_json r"
| "has_json (FNot f) \<longleftrightarrow> has_json f"

lemma and_then_simps [simp]:
  "and_then (Ok True) r = r" "and_then (Ok False) r = Ok False"
  "and_then (Err e) r = Err e" "and_then Panic r = Panic"
  by (simp_all add: and_then_def)

lemma or_else_simps [simp]:
  "or_else (Ok True) r = Ok True" "or_else (Ok False) r = r"
  "or_else (Err e) r = Err e" "or_else Panic r = Panic"
  by (simp_all add: or_else_def)

lemma split_once_dot_None: "CHR ''.'' \<notin> set s \<Longrightarrow> split_once_dot s = None"
proof -
  assume "CHR ''.'' \<notin> set s"
  then have d: "dropWhile (\<lambda>c. c \<noteq> CHR ''.'') s = []" by (auto simp: dropWhile_eq_Nil_conv)
  show ?thesis by (simp only: split_once_dot_def d list.case)
qed

lemma filter_by_name:
  "distinct (row_names row) \<Longrightarrow>
     map snd (filter (\<lambda>(c, v). cd_name c = field) row) = (case row_get row field of None \<Rightarrow> [] | Some v \<Rightarrow> [v])"
proof (induction row)
  case (Cons cv row)
  obtain c v where cv: "cv = (c, v)" by (cases cv)
  have "row_get row field = None" if "cd_name c = field"
    using that Cons.prems cv by (auto simp: row_get_None_iff row_names_def)
  then show ?case using Cons cv by (auto simp: row_names_def)
qed simp

lemma resolve_single:
  assumes "distinct (row_names row)" and "CHR ''.'' \<notin> set field"
  shows "resolve_joined_column field [(t, row)] = Ok (row_get row field)"
  using assms by (simp add: resolve_joined_column_def split_once_dot_None filter_by_name split: option.split)

text \<open>C25: evaluating a filter on the joined row of a single table is evaluating it on that table's row, for
  filters whose columns are written without a table name.\<close>

theorem matches_joined_single:
  assumes "distinct (row_names row)" and "\<forall>c \<in> filter_columns f. CHR ''.'' \<notin> set c"
  shows "matches_joined_row H f [(t, row)] = matches H f row"
  using assms(2)
proof (induction f)
qed (simp_all add: joined_test_def resolve_single [OF assms(1)] row_any_get [OF assms(1)] split: option.split)

definition sample_column :: "string \<Rightarrow> data_type_kind \<Rightarrow> 'd column_def" where
  "sample_column name k = \<lparr>cd_name = name, cd_data_type = k, cd_auto_increment = False, cd_nullable = True,
     cd_primary_key = (name = ''id''), cd_unique = False, cd_foreign_key = None, cd_default = None, cd_renamed_from = []\<rparr>"

definition sample_host :: "int host" where
  "sample_host = \<lparr>dec_of_int = (\<lambda>i. i), dec_try_from = (\<lambda>r. if r = of_int \<lfloor>r\<rfloor> then Some \<lfloor>r\<rfloor> else None), usize_max = 2 ^ 32 - 1\<rparr>"

theorem matches_joined_single_witness:
  "matches_joined_row sample_host (FGe ''age'' (Int32 18)) [(''users'', [(sample_column ''age'' KInt32, Int32 20)])] = Ok True"
proof -
  have "matches sample_host (FGe ''age'' (Int32 18)) [(sample_column ''age'' KInt32, Int32 20)] = Ok True"
    by (simp add: row_any_def sample_column_def)
  moreover have "matches_joined_row sample_host (FGe ''age'' (Int32 18)) [(''users'', [(sample_column ''age'' KInt32, Int32 20)])] =
      matches sample_host (FGe ''age'' (Int32 18)) [(sample_column ''age'' KInt32, Int32 20)]"
    by (rule matches_joined_single) (simp_all add: row_names_def)
  ultimately show ?thesis by simp
qed

text \<open>The columns of the tables a joined row comes from.\<close>

definition schema_of :: "(string \<times> 'd row) list \<Rightarrow> (string \<times> 'd column_def list) list" where
  "schema_of groups = map (\<lambda>(t, row). (t, map fst row)) groups"

definition texts_ok :: "'d row \<Rightarrow> bool" where
  "texts_ok row \<longleftrightarrow> (\<forall>(c, v) \<in> set row. \<forall>s. v = Text s \<longrightarrow> str_ok s)"

lemma find_fst: "find (\<lambda>c. cd_name c = n) (map fst row) = map_option fst (find (\<lambda>(c, v). cd_name c = n) row)"
  by (induction row) auto

lemma filter_fst: "filter (\<lambda>c. cd_name c = n) (map fst row) = map fst (filter (\<lambda>(c, v). cd_name c = n) row)"
  by (induction row) auto

lemma find_group:
  "find (\<lambda>(t, _). t = table) (schema_of groups) = map_option (\<lambda>(t, row). (t, map fst row)) (find (\<lambda>(t, _). t = table) groups)"
  by (induction groups) (auto simp: schema_of_def)

lemma resolve_by_schema:
  "(case resolve_joined_column_def field (schema_of groups) of
      Ok (Some c) \<Rightarrow> \<exists>t row v. resolve_joined_column field groups = Ok (Some v) \<and> (t, row) \<in> set groups \<and> (c, v) \<in> set row
    | Ok None \<Rightarrow> resolve_joined_column field groups = Ok None
    | Err e \<Rightarrow> resolve_joined_column field groups = Err e
    | Panic \<Rightarrow> False)"
proof (cases "split_once_dot field")
  case None
  define found where "found = concat (map (\<lambda>(t, row). filter (\<lambda>(c, v). cd_name c = field) row) groups)"
  have defs: "filter (\<lambda>c. cd_name c = field) (concat (map snd (schema_of groups))) = map fst found"
    unfolding found_def by (induction groups) (auto simp: schema_of_def filter_fst)
  have vals: "concat (map (\<lambda>(t, row). map snd (filter (\<lambda>(c, v). cd_name c = field) row)) groups) = map snd found"
    unfolding found_def by (induction groups) auto
  have mem: "\<exists>t row. (t, row) \<in> set groups \<and> cv \<in> set row" if "cv \<in> set found" for cv
    using that by (auto simp: found_def)
  have unf: "resolve_joined_column_def field (schema_of groups) =
      (case map fst found of [] \<Rightarrow> Ok None | [c] \<Rightarrow> Ok (Some c) | _ \<Rightarrow> Err (ambiguous_column field))"
    "resolve_joined_column field groups =
      (case map snd found of [] \<Rightarrow> Ok None | [v] \<Rightarrow> Ok (Some v) | _ \<Rightarrow> Err (ambiguous_column field))"
    unfolding resolve_joined_column_def_def resolve_joined_column_def defs vals None by simp_all
  consider "found = []" | cv where "found = [cv]" | x y zs where "found = x # y # zs"
    by (metis neq_Nil_conv)
  then show ?thesis
  proof cases
    case (2 cv)
    have "cv \<in> set found" using 2 by simp
    from mem [OF this] obtain t row where tr: "(t, row) \<in> set groups" "cv \<in> set row" by blast
    obtain c v where cv: "cv = (c, v)" by (cases cv)
    show ?thesis using tr cv 2 unf by auto
  qed (simp_all add: unf)
next
  case (Some tc)
  obtain table column where tc: "tc = (table, column)" by (cases tc)
  show ?thesis
  proof (cases "find (\<lambda>(t, _). t = table) groups")
    case None
    then show ?thesis using Some tc by (simp add: resolve_joined_column_def_def resolve_joined_column_def find_group)
  next
    case f: (Some g)
    obtain t row where g: "g = (t, row)" by (cases g)
    have mem: "(t, row) \<in> set groups" using f g by (auto dest: find_SomeD)
    show ?thesis
    proof (cases "find (\<lambda>(c, v). cd_name c = column) row")
      case None
      then show ?thesis using Some tc f g
        by (simp add: resolve_joined_column_def_def resolve_joined_column_def find_group find_fst row_get_def)
    next
      case (Some cv)
      obtain c v where cv: "cv = (c, v)" by (cases cv)
      have "(c, v) \<in> set row" using Some cv by (auto dest: find_SomeD)
      moreover have "resolve_joined_column_def field (schema_of groups) = Ok (Some c)"
        using \<open>split_once_dot field = Some tc\<close> tc f g Some cv
        by (simp add: resolve_joined_column_def_def find_group find_fst del: find.simps)
      moreover have "resolve_joined_column field groups = Ok (Some v)"
        using \<open>split_once_dot field = Some tc\<close> tc f g Some cv
        by (simp add: resolve_joined_column_def row_get_def del: find.simps)
      ultimately show ?thesis using mem by auto
    qed
  qed
qed

text \<open>A Text column of a well-formed row holds a text or null.\<close>

lemma like_on_text_column:
  assumes "row_wf row" and "texts_ok row" and "(c, v) \<in> set row" and "cd_data_type c = KText"
    and "map_outcome (\<lambda>_. ()) (parse_like_or_error pattern :: (pattern_token list, 'd) query_result) = Ok ()"
    and "str_ok pattern"
  shows "\<exists>b. matches_like pattern v = (Ok b :: (bool, 'd) query_result)"
proof -
  obtain tokens where t: "like_parse pattern = (Ok tokens :: (_, 'd) query_result)"
    using assms(5) by (cases "like_parse pattern :: (pattern_token list, 'd) query_result") (auto simp: parse_like_or_error_def)
  have "v = Null \<or> has_kind KText v" using assms(1,3,4) by (auto simp: row_wf_def)
  then consider "v = Null" | tx where "v = Text tx" by (cases v) auto
  then show ?thesis
  proof cases
    case (2 tx)
    then have "str_ok tx" using assms(2,3) by (auto simp: texts_ok_def)
    then show ?thesis using t 2 like_matches_spec [OF _ like_parse_ok [OF assms(6) t]]
      by (simp add: matches_like_def parse_like_or_error_def)
  qed (use t in \<open>auto simp: matches_like_def parse_like_or_error_def\<close>)
qed

lemma bind_Ok_iff: "bind_outcome r f = Ok x \<longleftrightarrow> (\<exists>y. r = Ok y \<and> f y = Ok x)"
  by (cases r) auto

lemma validate_field_Ok: "validate_field field groups = Ok () \<longleftrightarrow> (\<exists>c. resolve_joined_column_def field groups = Ok c)"
  by (cases "resolve_joined_column_def field groups") (auto simp: validate_field_def)

lemma joined_test_total:
  assumes "validate_field field (schema_of groups) = Ok ()"
  shows "\<exists>b. joined_test field pred groups = Ok b"
proof -
  obtain c where "resolve_joined_column_def field (schema_of groups) = Ok c" using assms by (auto simp: validate_field_Ok)
  then show ?thesis using resolve_by_schema [of field groups] by (cases c) (auto simp: joined_test_def)
qed

primrec patterns_ok :: "'d query_filter \<Rightarrow> bool" where
  "patterns_ok (FEq _ _) \<longleftrightarrow> True"
| "patterns_ok (FNe _ _) \<longleftrightarrow> True"
| "patterns_ok (FGt _ _) \<longleftrightarrow> True"
| "patterns_ok (FLt _ _) \<longleftrightarrow> True"
| "patterns_ok (FGe _ _) \<longleftrightarrow> True"
| "patterns_ok (FIn _ _) \<longleftrightarrow> True"
| "patterns_ok (FJson _ _) \<longleftrightarrow> True"
| "patterns_ok (FLe _ _) \<longleftrightarrow> True"
| "patterns_ok (FLike _ p) \<longleftrightarrow> str_ok p"
| "patterns_ok (FNotNull _) \<longleftrightarrow> True"
| "patterns_ok (FIsNull _) \<longleftrightarrow> True"
| "patterns_ok (FAnd l r) \<longleftrightarrow> patterns_ok l \<and> patterns_ok r"
| "patterns_ok (FOr l r) \<longleftrightarrow> patterns_ok l \<and> patterns_ok r"
| "patterns_ok (FNot f) \<longleftrightarrow> patterns_ok f"

text \<open>C26: a filter without JSON predicates that passes validation against the schemas of a join evaluates
  without an error on every joined row of these tables.\<close>

theorem validated_filter_evaluates:
  assumes "validate_joined f (schema_of groups) = Ok ()" and "\<not> has_json f" and "patterns_ok f"
    and "\<forall>(t, row) \<in> set groups. row_wf row \<and> texts_ok row"
  shows "\<exists>b. matches_joined_row H f groups = Ok b"
  using assms(1-3)
proof (induction f)
  case (FLike field pattern)
  obtain c where c: "resolve_joined_column_def field (schema_of groups) = Ok c"
    using FLike by (auto simp: bind_Ok_iff)
  show ?case
  proof (cases c)
    case None
    then show ?thesis using c resolve_by_schema [of field groups] by auto
  next
    case (Some cd)
    then obtain t row v where r: "resolve_joined_column field groups = Ok (Some v)" "(t, row) \<in> set groups" "(cd, v) \<in> set row"
      using c resolve_by_schema [of field groups] by auto
    have "cd_data_type cd = KText"
      "map_outcome (\<lambda>_. ()) (parse_like_or_error pattern :: (pattern_token list, 'a) query_result) = Ok ()"
      using FLike c Some by (auto split: if_splits)
    then show ?thesis
      using like_on_text_column [of row cd v pattern] assms(4) r FLike(3) by auto
  qed
next
  case (FAnd l r)
  then obtain b where "matches_joined_row H l groups = Ok b" by (auto simp: bind_Ok_iff)
  then show ?case using FAnd by (cases b) (auto simp: bind_Ok_iff)
next
  case (FOr l r)
  then obtain b where "matches_joined_row H l groups = Ok b" by (auto simp: bind_Ok_iff)
  then show ?case using FOr by (cases b) (auto simp: bind_Ok_iff)
next
  case (FNot f)
  then show ?case by auto
qed (auto intro: joined_test_total)

theorem validated_filter_evaluates_witness:
  "\<exists>b. matches_joined_row sample_host (FOr (FIsNull ''users.age'') (FLike ''name'' ''a%''))
     [(''users'', [(sample_column ''age'' KInt32, Int32 20), (sample_column ''name'' KText, Text ''ann'')])] = Ok b"
proof (rule validated_filter_evaluates)
  have ok: "str_ok ''a%''" "str_ok ''ann''" and chars: "str_chars ''a%'' = [''a'', ''%'']"
    by (simp_all add: str_ok_def str_chars.simps(2) len_utf8_def)
  have like: "parse_like_or_error ''a%'' = (Ok [Literal ''a'', WildcardMulti] :: (_, int) query_result)"
    by (simp add: parse_like_or_error_def like_parse_def chars pattern_step_def flush_literal_def)
  show "validate_joined (FOr (FIsNull ''users.age'') (FLike ''name'' ''a%''))
     (schema_of [(''users'', [(sample_column ''age'' KInt32, Int32 20 :: int dbms_value), (sample_column ''name'' KText, Text ''ann'')])]) = Ok ()"
    by (simp add: schema_of_def validate_field_def resolve_joined_column_def_def split_once_dot_def sample_column_def like)
  show "patterns_ok (FOr (FIsNull ''users.age'') (FLike ''name'' ''a%''))" using ok by simp
  show "\<forall>(t, row) \<in> set [(''users'', [(sample_column ''age'' KInt32, Int32 20 :: int dbms_value), (sample_column ''name'' KText, Text ''ann'')])].
      row_wf row \<and> texts_ok row"
    using ok by (simp add: row_wf_def texts_ok_def row_names_def sample_column_def)
qed simp

end
