(* ===== verification/Index_Scan.thy ===== *)
theory Index_Scan
  imports Query_Filter Records
begin

text \<open>
  \<^verbatim>\<open>wasm-dbms/src/database/index_reader.rs\<close>: key ranges of an index, the rows they stand for, and the
  reader that collects their entries. The reader works on the entries of each index in key order, as
  the B-tree of \<^verbatim>\<open>index_tree.rs\<close> yields them.
\<close>

section \<open>Ranges of keys\<close>

datatype 'v bound = Included 'v | Excluded 'v | Unbounded

primrec above :: "'v :: linorder bound \<Rightarrow> 'v \<Rightarrow> bool" where
  "above (Included l) v \<longleftrightarrow> l \<le> v"
| "above (Excluded l) v \<longleftrightarrow> l < v"
| "above Unbounded v \<longleftrightarrow> True"

primrec below :: "'v :: linorder bound \<Rightarrow> 'v \<Rightarrow> bool" where
  "below (Included u) v \<longleftrightarrow> v \<le> u"
| "below (Excluded u) v \<longleftrightarrow> v < u"
| "below Unbounded v \<longleftrightarrow> True"

record 'd index_scan =
  sc_columns :: "string list"
  sc_prefix :: "'d dbms_value list"
  sc_lower :: "'d dbms_value bound"
  sc_upper :: "'d dbms_value bound"

definition scan_range :: "string list \<Rightarrow> 'd dbms_value list \<Rightarrow> 'd dbms_value bound \<Rightarrow> 'd dbms_value bound \<Rightarrow> 'd index_scan" where
  "scan_range columns pre lower upper = \<lparr>sc_columns = columns, sc_prefix = pre, sc_lower = lower, sc_upper = upper\<rparr>"

definition scan_prefix :: "string list \<Rightarrow> 'd dbms_value list \<Rightarrow> 'd index_scan" where
  "scan_prefix columns pre = scan_range columns pre Unbounded Unbounded"

definition is_exact :: "'d index_scan \<Rightarrow> bool" where
  "is_exact scan \<longleftrightarrow> length (sc_prefix scan) \<ge> length (sc_columns scan)"

text \<open>
  The row's dbms_value of the index column at a position. Rust indexes the array of columns, which panics
  past its end; scans whose prefix is no longer than the index never get there.
\<close>

definition scan_value :: "'d index_scan \<Rightarrow> 'd row \<Rightarrow> nat \<Rightarrow> 'd dbms_value option" where
  "scan_value scan row i =
     (if i < length (sc_columns scan) then row_get row (sc_columns scan ! i) else None)"

definition scan_matches_row :: "'d :: linorder index_scan \<Rightarrow> 'd row \<Rightarrow> bool" where
  "scan_matches_row scan row \<longleftrightarrow>
     list_all (\<lambda>(i, expected). scan_value scan row i = Some expected)
       (enumerate 0 (sc_prefix scan)) \<and>
     (is_exact scan \<or>
      (case scan_value scan row (length (sc_prefix scan)) of
         Some v \<Rightarrow> above (sc_lower scan) v \<and> below (sc_upper scan) v
       | None \<Rightarrow> False))"

definition constrained_columns :: "'d index_scan \<Rightarrow> string list" where
  "constrained_columns scan =
     (let has_range = \<not> (sc_lower scan = Unbounded \<and> sc_upper scan = Unbounded);
          depth = min (length (sc_prefix scan) + (if has_range then 1 else 0)) (length (sc_columns scan))
      in take depth (sc_columns scan))"

definition seek_key :: "'d index_scan \<Rightarrow> 'd dbms_value list" where
  "seek_key scan = sc_prefix scan @
     (case sc_lower scan of Included v \<Rightarrow> [v] | Excluded v \<Rightarrow> [v] | Unbounded \<Rightarrow> [])"

section \<open>Reading an index\<close>

text \<open>The entries of an index, in key order.\<close>

type_synonym 'd index_entries = "('d dbms_value list \<times> record_address) list"

text \<open>The persistent indexes of a table, by their columns.\<close>

type_synonym 'd index_store = "string list \<rightharpoonup> 'd index_entries"

definition index_of :: "'d index_store \<Rightarrow> string list \<Rightarrow> 'd index_entries memory_result" where
  "index_of store columns = (case store columns of Some es \<Rightarrow> Ok es | None \<Rightarrow> Err (IndexNotFound columns))"

definition exact_addresses :: "'d index_entries \<Rightarrow> 'd dbms_value list \<Rightarrow> record_address list" where
  "exact_addresses es key = map snd (filter (\<lambda>(k, _). k = key) es)"

text \<open>The loop of \<^verbatim>\<open>for_each_entry\<close> over the walker, up to where it breaks off.\<close>

fun walk_entries :: "'d :: linorder index_scan \<Rightarrow> 'd index_entries \<Rightarrow> 'd index_entries" where
  "walk_entries scan [] = []"
| "walk_entries scan ((key, address) # rest) =
     (let depth = length (sc_prefix scan) in
      if length key \<le> depth \<or> take depth key \<noteq> sc_prefix scan then []
      else if \<not> above (sc_lower scan) (key ! depth) then walk_entries scan rest
      else if \<not> below (sc_upper scan) (key ! depth) then []
      else (key, address) # walk_entries scan rest)"

definition range_scan :: "'d :: linorder index_entries \<Rightarrow> 'd dbms_value list \<Rightarrow> 'd index_entries" where
  "range_scan es start = dropWhile (\<lambda>(k, _). k < start) es"

definition scan_entries :: "'d :: linorder index_scan \<Rightarrow> 'd index_entries \<Rightarrow> 'd index_entries" where
  "scan_entries scan es =
     (if is_exact scan then map (\<lambda>a. (sc_prefix scan, a)) (exact_addresses es (sc_prefix scan))
      else walk_entries scan (range_scan es (seek_key scan)))"

text \<open>\<^verbatim>\<open>IndexReader::addresses\<close>: nothing when there are more than \<open>limit\<close> entries.\<close>

definition addresses :: "'d :: linorder index_store \<Rightarrow> 'd index_scan \<Rightarrow> nat \<Rightarrow> record_address list option memory_result" where
  "addresses store scan limit =
     map_outcome (\<lambda>es. let found = map snd (scan_entries scan es) in
        if length found > limit then None else Some found) (index_of store (sc_columns scan))"

section \<open>The entries a scan visits\<close>

definition entry_in_scan :: "'d :: linorder index_scan \<Rightarrow> 'd dbms_value list \<Rightarrow> bool" where
  "entry_in_scan scan key \<longleftrightarrow>
     (if is_exact scan then key = sc_prefix scan
      else length (sc_prefix scan) < length key \<and> take (length (sc_prefix scan)) key = sc_prefix scan \<and>
        above (sc_lower scan) (key ! length (sc_prefix scan)) \<and>
        below (sc_upper scan) (key ! length (sc_prefix scan)))"

text \<open>Keys between a prefix and one of its extensions extend the prefix.\<close>

lemma prefix_between:
  "p \<le> k \<Longrightarrow> k \<le> p @ zs \<Longrightarrow> take (length p) k = (p :: 'v :: linorder list)"
proof (induction p arbitrary: k)
  case (Cons a p)
  then show ?case by (cases k) auto
qed simp

lemma le_append [simp]: "p \<le> p @ (zs :: 'v :: linorder list)"
  by (induction p) auto

lemma append_le_append [simp]: "p @ xs \<le> p @ ys \<longleftrightarrow> xs \<le> (ys :: 'v :: linorder list)"
  by (induction p) auto

lemma append_less_append [simp]: "p @ xs < p @ ys \<longleftrightarrow> xs < (ys :: 'v :: linorder list)"
  by (induction p) auto

lemma split_at: "i < length k \<Longrightarrow> k = take i k @ k ! i # drop (Suc i) k"
  by (rule id_take_nth_drop)

lemma prefix_key:
  assumes "length p < length k" "take (length p) k = p"
  obtains z zs where "k = p @ z # zs" "k ! length p = z"
proof -
  have "k = p @ k ! length p # drop (Suc (length p)) k"
    using id_take_nth_drop [OF assms(1)] assms(2) by simp
  then show thesis using that by blast
qed

text \<open>After a key that leaves the prefix or passes the upper bound, no key is in the scan.\<close>

lemma out_of_prefix:
  assumes "p \<le> k" "take (length p) k \<noteq> p" "k \<le> k'"
  shows "take (length p) (k' :: 'v :: linorder list) \<noteq> p"
proof
  assume "take (length p) k' = p"
  then have "k' = p @ drop (length p) k'" by (metis append_take_drop_id)
  then have "take (length p) k = p" using prefix_between assms(1,3) by metis
  then show False using assms(2) by simp
qed

lemma component_mono:
  assumes "length p < length k" "take (length p) k = p" "length p < length k'" "take (length p) k' = p" "k \<le> k'"
  shows "k ! length p \<le> (k' ! length p :: 'v :: linorder)"
proof -
  obtain z zs where k: "k = p @ z # zs" using assms(1,2) by (rule prefix_key)
  obtain z' zs' where k': "k' = p @ z' # zs'" using assms(3,4) by (rule prefix_key)
  show ?thesis using assms(5) k k' by auto
qed

lemma below_mono: "below b y \<Longrightarrow> x \<le> y \<Longrightarrow> below b x"
  by (cases b) auto

lemma walk_entries_filter:
  assumes "\<not> is_exact scan" "sorted (map fst es)"
    and "\<forall>(k, a) \<in> set es. sc_prefix scan \<le> k \<and> length (sc_prefix scan) < length k"
  shows "walk_entries scan es = filter (\<lambda>(k, a). entry_in_scan scan k) es"
  using assms(2,3)
proof (induction es)
  case (Cons e es)
  obtain key a where e: "e = (key, a)" by (cases e)
  let ?p = "sc_prefix scan" and ?n = "length (sc_prefix scan)"
  have le: "key \<le> k" if "(k, b) \<in> set es" for k b
    using Cons.prems(1) that e by force
  have ih: "walk_entries scan es = filter (\<lambda>(k, a). entry_in_scan scan k) es"
    using Cons by simp
  have long: "?n < length k" if "(k, b) \<in> set (e # es)" for k b
    using Cons.prems(2) that by blast
  have p: "?p \<le> key" using Cons.prems(2) e by simp
  show ?case
  proof (cases "take ?n key = ?p")
    case False
    have "\<not> entry_in_scan scan k" if "(k, b) \<in> set (e # es)" for k b
      using that False out_of_prefix [OF p False le] assms(1) e by (auto simp: entry_in_scan_def)
    then have "filter (\<lambda>(k, a). entry_in_scan scan k) (e # es) = []"
      by (auto simp: filter_empty_conv)
    then show ?thesis using False e by simp
  next
    case True
    have none: "filter (\<lambda>(k, a). entry_in_scan scan k) (e # es) = []" if "\<not> below (sc_upper scan) (key ! ?n)"
    proof -
      have "\<not> entry_in_scan scan k" if k: "(k, b) \<in> set (e # es)" for k b
      proof
        assume in_scan: "entry_in_scan scan k"
        have "key \<le> k" using k e le by auto
        then have "key ! ?n \<le> k ! ?n"
          using component_mono [of ?p key k] True long k e in_scan assms(1) by (auto simp: entry_in_scan_def)
        then show False using in_scan assms(1) \<open>\<not> below (sc_upper scan) (key ! ?n)\<close> below_mono
          by (auto simp: entry_in_scan_def)
      qed
      then show ?thesis by (auto simp: filter_empty_conv)
    qed
    have "\<not> length key \<le> ?n" using long e by (force simp: not_le)
    then show ?thesis
      using e True ih none assms(1) by (auto simp: entry_in_scan_def Let_def)
  qed
qed simp

text \<open>The keys before the start of the range are not in the scan.\<close>

lemma seek_key_below:
  assumes "\<not> is_exact scan" "entry_in_scan scan k"
  shows "seek_key scan \<le> k"
proof -
  have "length (sc_prefix scan) < length k" "take (length (sc_prefix scan)) k = sc_prefix scan"
    and lower: "above (sc_lower scan) (k ! length (sc_prefix scan))"
    using assms by (auto simp: entry_in_scan_def)
  then obtain z zs where "k = sc_prefix scan @ z # zs" "k ! length (sc_prefix scan) = z" by (auto elim: prefix_key)
  then show ?thesis using lower by (cases "sc_lower scan") (auto simp: seek_key_def)
qed

lemma sorted_dropWhile_less:
  "sorted (map fst es) \<Longrightarrow> dropWhile (\<lambda>(k, a). k < s) es = filter (\<lambda>(k, a). s \<le> (k :: 'v :: linorder)) es"
proof (induction es)
  case (Cons e es)
  have "s \<le> fst x" if "s \<le> fst e" "x \<in> set es" for x
    using that Cons.prems by (auto intro: order_trans)
  then have "filter (\<lambda>x. s \<le> fst x) es = es" if "s \<le> fst e"
    using that by (auto simp: filter_id_conv split_beta)
  then show ?case using Cons by (auto simp: split_beta)
qed simp

lemma prefix_le_seek_key: "sc_prefix scan \<le> seek_key (scan :: 'd :: linorder index_scan)"
  by (simp add: seek_key_def)

lemma scan_entries_filter:
  assumes "sorted (map fst es)" "\<forall>(k, a) \<in> set es. length k = length (sc_columns scan)"
  shows "scan_entries scan es = filter (\<lambda>(k, a). entry_in_scan scan k) es"
proof (cases "is_exact scan")
  case True
  then show ?thesis
    by (induction es) (auto simp: scan_entries_def exact_addresses_def entry_in_scan_def)
next
  case False
  let ?es = "range_scan es (seek_key scan)"
  have es: "?es = filter (\<lambda>(k, a). seek_key scan \<le> k) es"
    using assms(1) by (simp add: range_scan_def sorted_dropWhile_less)
  have "sorted (map fst ?es)" using assms(1) es by (simp add: sorted_filter)
  moreover have "\<forall>(k, a) \<in> set ?es. sc_prefix scan \<le> k \<and> length (sc_prefix scan) < length k"
    using False assms(2) prefix_le_seek_key [of scan] by (auto simp: es is_exact_def intro: order_trans)
  ultimately have "walk_entries scan ?es = filter (\<lambda>(k, a). entry_in_scan scan k) ?es"
    using False by (rule walk_entries_filter [rotated -2])
  also have "\<dots> = filter (\<lambda>(k, a). entry_in_scan scan k) es"
    using seek_key_below [OF False] by (auto simp: es intro: filter_cong)
  finally show ?thesis using False by (simp add: scan_entries_def)
qed

end
