(* ===== verification/Access_Planner.thy ===== *)
theory Access_Planner
  imports Index_Scan "HOL-Library.AList"
begin

text \<open>
  \<^verbatim>\<open>wasm-dbms/src/database/access_planner.rs\<close>: access paths over the declared indexes of a table, and the
  planner that derives one from a filter. Main result: a row that matches the filter belongs to the
  planned path, so reading the path and checking the filter again loses no row.
\<close>

section \<open>Access paths\<close>

definition MAX_ALTERNATIVES :: nat where
  "MAX_ALTERNATIVES = 64"

datatype 'd access_path =
    AEmpty
  | AScan "'d index_scan"
  | AUnion "'d access_path list"
  | AIntersection "'d access_path list"

fun path_matches_row :: "'d :: linorder access_path \<Rightarrow> 'd row \<Rightarrow> bool" where
  "path_matches_row AEmpty row \<longleftrightarrow> False"
| "path_matches_row (AScan scan) row \<longleftrightarrow> scan_matches_row scan row"
| "path_matches_row (AUnion paths) row \<longleftrightarrow> (\<exists>path \<in> set paths. path_matches_row path row)"
| "path_matches_row (AIntersection paths) row \<longleftrightarrow> (\<forall>path \<in> set paths. path_matches_row path row)"

fun collect_constrained_columns :: "'d access_path \<Rightarrow> string set" where
  "collect_constrained_columns AEmpty = {}"
| "collect_constrained_columns (AScan scan) = set (constrained_columns scan)"
| "collect_constrained_columns (AUnion paths) = \<Union> (set (map collect_constrained_columns paths))"
| "collect_constrained_columns (AIntersection paths) = \<Union> (set (map collect_constrained_columns paths))"

fun scan_count :: "'d access_path \<Rightarrow> nat" where
  "scan_count AEmpty = 0"
| "scan_count (AScan scan) = 1"
| "scan_count (AUnion paths) = sum_list (map scan_count paths)"
| "scan_count (AIntersection paths) = sum_list (map scan_count paths)"

definition from_scans :: "'d index_scan list \<Rightarrow> 'd access_path" where
  "from_scans scans = (case scans of [] \<Rightarrow> AEmpty | [scan] \<Rightarrow> AScan scan | _ \<Rightarrow> AUnion (map AScan scans))"

section \<open>Filters as conjunctions and disjunctions\<close>

fun flatten_and :: "'d query_filter \<Rightarrow> 'd query_filter list" where
  "flatten_and (FAnd l r) = flatten_and l @ flatten_and r"
| "flatten_and f = [f]"

fun flatten_or :: "'d query_filter \<Rightarrow> 'd query_filter list" where
  "flatten_or (FOr l r) = flatten_or l @ flatten_or r"
| "flatten_or f = [f]"

fun is_fallible :: "'d query_filter \<Rightarrow> bool" where
  "is_fallible (FLike _ _) \<longleftrightarrow> True"
| "is_fallible (FJson _ _) \<longleftrightarrow> True"
| "is_fallible (FAnd l r) \<longleftrightarrow> is_fallible l \<or> is_fallible r"
| "is_fallible (FOr l r) \<longleftrightarrow> is_fallible l \<or> is_fallible r"
| "is_fallible (FNot f) \<longleftrightarrow> is_fallible f"
| "is_fallible _ \<longleftrightarrow> False"

section \<open>Constraints on one column\<close>

record 'd column_constraint =
  cc_eq :: "'d dbms_value option"
  cc_in_list :: "'d dbms_value list option"
  cc_not_null :: bool
  cc_lower :: "'d dbms_value bound"
  cc_upper :: "'d dbms_value bound"

definition cc_default :: "'d column_constraint" where
  "cc_default = \<lparr>cc_eq = None, cc_in_list = None, cc_not_null = False, cc_lower = Unbounded, cc_upper = Unbounded\<rparr>"

datatype 'd constraint_update =
  UEq "'d dbms_value" | UIn "'d dbms_value list" | UNotNull | ULower "'d dbms_value bound" | UUpper "'d dbms_value bound"

fun bound_value :: "'v bound \<Rightarrow> 'v option" where
  "bound_value (Included v) = Some v"
| "bound_value (Excluded v) = Some v"
| "bound_value Unbounded = None"

definition stricter :: "'v :: linorder bound \<Rightarrow> 'v bound \<Rightarrow> ordering \<Rightarrow> 'v bound" where
  "stricter cur new tighter =
     (case (bound_value cur, bound_value new) of
        (None, _) \<Rightarrow> new
      | (_, None) \<Rightarrow> cur
      | (Some c, Some n) \<Rightarrow>
          let ord = cmp c n in
          if ord = tighter then cur
          else if ord = reverse_ord tighter then new
          else if (case cur of Excluded _ \<Rightarrow> True | _ \<Rightarrow> False) then cur
          else new)"

fun is_empty_interval :: "'v :: linorder bound \<Rightarrow> 'v bound \<Rightarrow> bool" where
  "is_empty_interval (Included l) (Included u) \<longleftrightarrow> l > u"
| "is_empty_interval (Included l) (Excluded u) \<longleftrightarrow> l \<ge> u"
| "is_empty_interval (Excluded l) (Included u) \<longleftrightarrow> l \<ge> u"
| "is_empty_interval (Excluded l) (Excluded u) \<longleftrightarrow> l \<ge> u"
| "is_empty_interval _ _ \<longleftrightarrow> False"

text \<open>
  The list of an \<^verbatim>\<open>IN\<close> update is sorted and without duplicates, so the binary search in it is
  membership.
\<close>

definition cc_apply :: "'d :: linorder column_constraint \<Rightarrow> 'd constraint_update \<Rightarrow> 'd column_constraint option" where
  "cc_apply c u =
     (case u of
        UEq v \<Rightarrow>
          if (case cc_eq c of Some e \<Rightarrow> e \<noteq> v | None \<Rightarrow> False) then None else Some (c\<lparr>cc_eq := Some v\<rparr>)
      | UIn vs \<Rightarrow>
          (let vs' = remdups_adj (sort vs) in
           Some (c\<lparr>cc_in_list := Some (case cc_in_list c of
             Some old \<Rightarrow> filter (\<lambda>v. v \<in> set vs') old | None \<Rightarrow> vs')\<rparr>))
      | UNotNull \<Rightarrow> Some (c\<lparr>cc_not_null := True\<rparr>)
      | ULower b \<Rightarrow> Some (c\<lparr>cc_lower := stricter (cc_lower c) b Greater\<rparr>)
      | UUpper b \<Rightarrow> Some (c\<lparr>cc_upper := stricter (cc_upper c) b Less\<rparr>))"

definition admits :: "'d :: linorder column_constraint \<Rightarrow> 'd dbms_value \<Rightarrow> bool" where
  "admits c v \<longleftrightarrow> above (cc_lower c) v \<and> below (cc_upper c) v"

definition cc_normalize_list :: "'d :: linorder column_constraint \<Rightarrow> 'd column_constraint option" where
  "cc_normalize_list c =
     (case cc_in_list c of
        None \<Rightarrow> Some c
      | Some l \<Rightarrow>
          let l' = filter (\<lambda>v. \<not> (cc_not_null c \<and> is_null v)) (filter (admits c) l);
              c' = c\<lparr>cc_in_list := None\<rparr> in
          case cc_eq c of
            Some e \<Rightarrow> if e \<notin> set l' then None else Some c'
          | None \<Rightarrow>
              if l' = [] then None
              else if length l' = 1 then Some (c'\<lparr>cc_eq := Some (hd l')\<rparr>)
              else Some (c'\<lparr>cc_in_list := Some l'\<rparr>))"

definition cc_normalize :: "'d :: linorder column_constraint \<Rightarrow> 'd column_constraint option" where
  "cc_normalize c0 =
     Option.bind (cc_normalize_list c0) (\<lambda>c.
       case cc_eq c of
         Some e \<Rightarrow>
           if \<not> admits c e \<or> cc_not_null c \<and> is_null e then None
           else Some (c\<lparr>cc_lower := Unbounded, cc_upper := Unbounded\<rparr>)
       | None \<Rightarrow> if is_empty_interval (cc_lower c) (cc_upper c) then None else Some c)"

primrec not_null_bounds :: "data_type_kind \<Rightarrow> ('d dbms_value bound \<times> 'd dbms_value bound) option" where
  "not_null_bounds KBlob = Some (Unbounded, Excluded Null)"
| "not_null_bounds KBoolean = Some (Unbounded, Excluded Null)"
| "not_null_bounds KDate = Some (Unbounded, Excluded Null)"
| "not_null_bounds KDateTime = Some (Unbounded, Excluded Null)"
| "not_null_bounds KDecimal = Some (Unbounded, Excluded Null)"
| "not_null_bounds KInt8 = Some (Unbounded, Excluded Null)"
| "not_null_bounds KInt16 = Some (Unbounded, Excluded Null)"
| "not_null_bounds KInt32 = Some (Unbounded, Excluded Null)"
| "not_null_bounds KInt64 = Some (Unbounded, Excluded Null)"
| "not_null_bounds KJson = Some (Unbounded, Excluded Null)"
| "not_null_bounds KText = Some (Included (Text []), Unbounded)"
| "not_null_bounds KUint8 = Some (Included (Uint8 0), Unbounded)"
| "not_null_bounds KUint16 = Some (Included (Uint16 0), Unbounded)"
| "not_null_bounds KUint32 = Some (Included (Uint32 0), Unbounded)"
| "not_null_bounds KUint64 = Some (Included (Uint64 0), Unbounded)"
| "not_null_bounds KUuid = None"
| "not_null_bounds (KCustom _ _) = None"

definition range_bounds ::
  "'d column_constraint \<Rightarrow> 'd column_def option \<Rightarrow> ('d dbms_value bound \<times> 'd dbms_value bound \<times> bool) option" where
  "range_bounds c column =
     (if \<not> (cc_lower c = Unbounded \<and> cc_upper c = Unbounded) then Some (cc_lower c, cc_upper c, False)
      else if \<not> cc_not_null c then None
      else case column of
          None \<Rightarrow> None
        | Some cd \<Rightarrow>
            if \<not> cd_nullable cd then None
            else map_option (\<lambda>(l, u). (l, u, True)) (not_null_bounds (cd_data_type cd)))"

section \<open>Constraints of a conjunction\<close>

text \<open>
  The \<^verbatim>\<open>BTreeMap\<close> from column names is an association list; nothing depends on the order of its keys.
\<close>

type_synonym 'd column_constraints = "(string \<times> 'd column_constraint) list"

fun conjunct_update :: "'d query_filter \<Rightarrow> (string \<times> 'd constraint_update) option" where
  "conjunct_update (FEq c v) = Some (c, UEq v)"
| "conjunct_update (FIsNull c) = Some (c, UEq Null)"
| "conjunct_update (FNotNull c) = Some (c, UNotNull)"
| "conjunct_update (FIn c vs) = Some (c, UIn vs)"
| "conjunct_update (FGe c v) = Some (c, ULower (Included v))"
| "conjunct_update (FGt c v) = Some (c, ULower (Excluded v))"
| "conjunct_update (FLe c v) = Some (c, UUpper (Included v))"
| "conjunct_update (FLt c v) = Some (c, UUpper (Excluded v))"
| "conjunct_update _ = None"

fun collect_updates ::
  "'d :: linorder query_filter list \<Rightarrow> 'd column_constraints \<Rightarrow> 'd column_constraints option" where
  "collect_updates [] cs = Some cs"
| "collect_updates (cj # cjs) cs =
     (case conjunct_update cj of
        None \<Rightarrow> collect_updates cjs cs
      | Some (column, u) \<Rightarrow>
          (case cc_apply (case map_of cs column of Some c \<Rightarrow> c | None \<Rightarrow> cc_default) u of
             None \<Rightarrow> None
           | Some c \<Rightarrow> collect_updates cjs (AList.update column c cs)))"

fun normalize_all :: "'d :: linorder column_constraints \<Rightarrow> 'd column_constraints option" where
  "normalize_all [] = Some []"
| "normalize_all ((column, c) # cs) =
     (case cc_normalize c of
        None \<Rightarrow> None
      | Some c' \<Rightarrow> map_option ((#) (column, c')) (normalize_all cs))"

definition collect_constraints :: "'d :: linorder query_filter list \<Rightarrow> 'd column_constraints option" where
  "collect_constraints cjs = Option.bind (collect_updates cjs []) normalize_all"

section \<open>Candidates\<close>

datatype rank = UniqueExact | CompositeExact | RPrefix | RRange | RUnion | RNotNull

primrec rank_ord :: "rank \<Rightarrow> nat" where
  "rank_ord UniqueExact = 0"
| "rank_ord CompositeExact = 1"
| "rank_ord RPrefix = 2"
| "rank_ord RRange = 3"
| "rank_ord RUnion = 4"
| "rank_ord RNotNull = 5"

record 'd candidate =
  ca_rank :: rank
  ca_position :: nat
  ca_columns :: "string list"
  ca_path :: "'d access_path"

definition candidate_key :: "'d candidate \<Rightarrow> nat \<times> int \<times> nat" where
  "candidate_key c = (rank_ord (ca_rank c), - int (length (ca_columns c)), ca_position c)"

definition find_column_def :: "string \<Rightarrow> 'd column_def list \<Rightarrow> 'd column_def option" where
  "find_column_def name columns = find (\<lambda>c. cd_name c = name) columns"

definition is_unique :: "string \<Rightarrow> 'd column_def list \<Rightarrow> bool" where
  "is_unique name columns =
     (case find_column_def name columns of Some c \<Rightarrow> cd_primary_key c \<or> cd_unique c | None \<Rightarrow> False)"

text \<open>The loop of \<^verbatim>\<open>index_candidate\<close>: equality prefixes, the number of columns used, and the range.\<close>

fun candidate_loop ::
  "'d column_constraints \<Rightarrow> 'd column_def list \<Rightarrow> string list \<Rightarrow> 'd dbms_value list list \<Rightarrow> string list \<Rightarrow>
   'd dbms_value list list \<times> string list \<times> ('d dbms_value bound \<times> 'd dbms_value bound \<times> bool) option" where
  "candidate_loop cs columns [] prefixes used = (prefixes, used, None)"
| "candidate_loop cs columns (column # rest) prefixes used =
     (case map_of cs column of
        None \<Rightarrow> (prefixes, used, None)
      | Some c \<Rightarrow>
          (case cc_eq c of
             Some v \<Rightarrow> candidate_loop cs columns rest (map (\<lambda>p. p @ [v]) prefixes) (used @ [column])
           | None \<Rightarrow>
               (case cc_in_list c of
                  Some vs \<Rightarrow>
                    if length prefixes * length vs > MAX_ALTERNATIVES then (prefixes, used, None)
                    else candidate_loop cs columns rest
                      (concat (map (\<lambda>p. map (\<lambda>v. p @ [v]) vs) prefixes)) (used @ [column])
                | None \<Rightarrow>
                    (case range_bounds c (find_column_def column columns) of
                       Some b \<Rightarrow> (prefixes, used @ [column], Some b)
                     | None \<Rightarrow> (prefixes, used, None)))))"

definition candidate_rank :: "index_def \<Rightarrow> 'd column_def list \<Rightarrow> nat \<Rightarrow> ('d dbms_value bound \<times> 'd dbms_value bound \<times> bool) option \<Rightarrow> rank" where
  "candidate_rank index columns depth bounds =
     (let exact = bounds = None \<and> depth = length index in
      if exact \<and> length index > 1 then CompositeExact
      else if exact \<and> is_unique (hd index) columns then UniqueExact
      else if depth > 1 \<or> bounds = None then RPrefix
      else if (case bounds of Some (_, _, from_not_null) \<Rightarrow> from_not_null | None \<Rightarrow> False) then RNotNull
      else RRange)"

definition index_candidate ::
  "index_def \<Rightarrow> nat \<Rightarrow> 'd column_constraints \<Rightarrow> 'd column_def list \<Rightarrow> 'd candidate option" where
  "index_candidate index pos cs columns =
     (case candidate_loop cs columns index [[]] [] of (prefixes, used, bounds) \<Rightarrow>
        if used = [] then None
        else Some \<lparr>ca_rank = candidate_rank index columns (length used) bounds, ca_position = pos, ca_columns = used,
          ca_path = from_scans (map (\<lambda>p. case bounds of
            Some (lower, upper, _) \<Rightarrow> scan_range index p lower upper
          | None \<Rightarrow> scan_prefix index p) prefixes)\<rparr>)"

fun is_or :: "'d query_filter \<Rightarrow> bool" where
  "is_or (FOr _ _) \<longleftrightarrow> True"
| "is_or _ \<longleftrightarrow> False"

text \<open>
  \<^verbatim>\<open>or_candidate\<close>, given the plans of the conjunct's branches (\<open>None\<close> when the conjunct is no
  \<^verbatim>\<open>OR\<close>); a branch without a plan ends the loop over the branches.
\<close>

fun branch_paths :: "'d access_path option list \<Rightarrow> 'd access_path list option" where
  "branch_paths [] = Some []"
| "branch_paths (None # _) = None"
| "branch_paths (Some path # rest) =
     map_option (\<lambda>paths. if path = AEmpty then paths else path # paths) (branch_paths rest)"

definition or_candidate :: "'d access_path option list option \<Rightarrow> nat \<Rightarrow> 'd candidate option" where
  "or_candidate branches pos =
     Option.bind branches (\<lambda>bs. Option.bind (branch_paths bs) (\<lambda>paths.
       let path = (case paths of [] \<Rightarrow> AEmpty | [p] \<Rightarrow> p | _ \<Rightarrow> AUnion paths) in
       if scan_count path > MAX_ALTERNATIVES then None
       else Some \<lparr>ca_rank = RUnion, ca_position = pos, ca_columns = [], ca_path = path\<rparr>))"

fun merge_members :: "string set \<Rightarrow> 'd candidate list \<Rightarrow> 'd access_path list" where
  "merge_members covered [] = []"
| "merge_members covered (c # cs) =
     (if ca_columns c \<noteq> [] \<and> set (ca_columns c) \<subseteq> covered then merge_members covered cs
      else ca_path c # merge_members (covered \<union> set (ca_columns c)) cs)"

definition candidates_of ::
  "'d column_constraints \<Rightarrow> 'd access_path option list option list \<Rightarrow> index_def list \<Rightarrow> 'd column_def list \<Rightarrow> 'd candidate list" where
  "candidates_of cs ors indexes columns =
     List.map_filter (\<lambda>(i, index). index_candidate index i cs columns) (enumerate 0 indexes) @
     List.map_filter (\<lambda>(i, branches). or_candidate branches (length indexes + i)) (enumerate 0 ors)"

definition plan_conjunction ::
  "'d :: linorder query_filter list \<Rightarrow> 'd access_path option list option list \<Rightarrow> index_def list \<Rightarrow> 'd column_def list \<Rightarrow>
   'd access_path option" where
  "plan_conjunction cjs ors indexes columns =
     (case collect_constraints cjs of
        None \<Rightarrow> Some AEmpty
      | Some cs \<Rightarrow>
          let candidates = sort_key candidate_key (candidates_of cs ors indexes columns) in
          if \<exists>c \<in> set candidates. ca_path c = AEmpty then Some AEmpty
          else case candidates of
              [] \<Rightarrow> None
            | first # _ \<Rightarrow>
                if ca_rank first = UniqueExact \<or> ca_rank first = CompositeExact then Some (ca_path first)
                else case merge_members {} candidates of
                    [m] \<Rightarrow> Some m
                  | members \<Rightarrow> Some (AIntersection members))"

lemma flatten_and_size: "c \<in> set (flatten_and f) \<Longrightarrow> size c \<le> size f"
  by (induction f rule: flatten_and.induct) auto

lemma flatten_or_size: "b \<in> set (flatten_or f) \<Longrightarrow> size b \<le> size f"
  by (induction f rule: flatten_or.induct) auto

lemma flatten_or_less: "is_or f \<Longrightarrow> b \<in> set (flatten_or f) \<Longrightarrow> size b < size f"
  by (cases f) (auto dest: flatten_or_size)

function plan_filter ::
  "index_def list \<Rightarrow> 'd :: linorder column_def list \<Rightarrow> 'd query_filter \<Rightarrow> 'd access_path option" where
  "plan_filter indexes columns f =
     plan_conjunction (flatten_and f)
       (map (\<lambda>c. if is_or c then Some (map (plan_filter indexes columns) (flatten_or c)) else None) (flatten_and f))
       indexes columns"
  by pat_completeness auto
termination
proof (relation "measure (\<lambda>(_, _, f). size f)", goal_cases)
  case (2 indexes columns f c b)
  then have "size b < size c" "size c \<le> size f" by (auto dest: flatten_and_size flatten_or_less)
  then show ?case by simp
qed simp

declare plan_filter.simps [simp del]

section \<open>The path holds every matching row\<close>

subsection \<open>Constraints\<close>

text \<open>\<open>cc_sat c v\<close>: the value \<open>v\<close> satisfies the constraint \<open>c\<close>.\<close>

definition cc_sat :: "'d :: linorder column_constraint \<Rightarrow> 'd dbms_value \<Rightarrow> bool" where
  "cc_sat c v \<longleftrightarrow> (\<forall>e. cc_eq c = Some e \<longrightarrow> v = e) \<and> (\<forall>l. cc_in_list c = Some l \<longrightarrow> v \<in> set l) \<and>
     (cc_not_null c \<longrightarrow> \<not> is_null v) \<and> admits c v"

primrec update_sat :: "'d :: linorder constraint_update \<Rightarrow> 'd dbms_value \<Rightarrow> bool" where
  "update_sat (UEq e) v \<longleftrightarrow> v = e"
| "update_sat (UIn vs) v \<longleftrightarrow> v \<in> set vs"
| "update_sat UNotNull v \<longleftrightarrow> \<not> is_null v"
| "update_sat (ULower b) v \<longleftrightarrow> above b v"
| "update_sat (UUpper b) v \<longleftrightarrow> below b v"

lemma above_stricter: "above (stricter a b Greater) v \<longleftrightarrow> above a v \<and> above b v"
  by (cases a; cases b) (auto simp: stricter_def Let_def)

lemma below_stricter: "below (stricter a b Less) v \<longleftrightarrow> below a v \<and> below b v"
  by (cases a; cases b) (auto simp: stricter_def Let_def)

text \<open>\<open>apply\<close> narrows a constraint to exactly the values that also satisfy the update.\<close>

lemma cc_apply_sat:
  "cc_sat c v \<and> update_sat u v \<longleftrightarrow> (\<exists>c'. cc_apply c u = Some c' \<and> cc_sat c' v)"
  by (cases u) (auto simp: cc_apply_def cc_sat_def admits_def above_stricter below_stricter Let_def split: option.splits)

lemma empty_interval: "above l v \<Longrightarrow> below u v \<Longrightarrow> \<not> is_empty_interval l u"
  by (cases l; cases u) auto

lemma cc_normalize_list_sat:
  assumes "cc_sat c v"
  shows "\<exists>c'. cc_normalize_list c = Some c' \<and> cc_sat c' v"
proof (cases "cc_in_list c")
  case (Some l)
  define l' where "l' = filter (\<lambda>v. \<not> (cc_not_null c \<and> is_null v)) (filter (admits c) l)"
  have "v \<in> set l'" using assms Some by (auto simp: l'_def cc_sat_def)
  moreover have "v = hd l'" if "length l' = 1" using that \<open>v \<in> set l'\<close> by (cases l') auto
  moreover have "cc_normalize_list c =
      (case cc_eq c of
         Some e \<Rightarrow> if e \<notin> set l' then None else Some (c\<lparr>cc_in_list := None\<rparr>)
       | None \<Rightarrow> if l' = [] then None
           else if length l' = 1 then Some (c\<lparr>cc_in_list := None, cc_eq := Some (hd l')\<rparr>)
           else Some (c\<lparr>cc_in_list := Some l'\<rparr>))"
    by (simp add: cc_normalize_list_def Some l'_def Let_def del: filter_filter cong: option.case_cong)
  ultimately show ?thesis using assms by (auto simp: cc_sat_def admits_def split: option.split)
qed (use assms in \<open>simp add: cc_normalize_list_def\<close>)

lemma cc_normalize_sat:
  assumes "cc_sat c v"
  shows "\<exists>c'. cc_normalize c = Some c' \<and> cc_sat c' v"
proof -
  obtain c1 where c1: "cc_normalize_list c = Some c1" "cc_sat c1 v" using cc_normalize_list_sat [OF assms] by blast
  then show ?thesis
    using empty_interval by (auto simp: cc_normalize_def cc_sat_def admits_def split: option.split)
qed

text \<open>Constraints a row satisfies.\<close>

definition cs_sat :: "'d :: linorder column_constraints \<Rightarrow> 'd row \<Rightarrow> bool" where
  "cs_sat cs row \<longleftrightarrow> (\<forall>(column, c) \<in> set cs. \<exists>v. row_get row column = Some v \<and> cc_sat c v)"

lemma cs_sat_map_of: "cs_sat cs row \<Longrightarrow> map_of cs column = Some c \<Longrightarrow> \<exists>v. row_get row column = Some v \<and> cc_sat c v"
  by (force simp: cs_sat_def dest: map_of_SomeD)

lemma cs_sat_update: "cs_sat cs row \<Longrightarrow> row_get row column = Some v \<Longrightarrow> cc_sat c v \<Longrightarrow> cs_sat (AList.update column c cs) row"
  by (induction cs) (auto simp: cs_sat_def)

lemma cc_sat_default: "cc_sat cc_default v"
  by (simp add: cc_sat_def cc_default_def admits_def)

lemma matches_update_sat:
  assumes "distinct (row_names row)" "matches H cj row = Ok True" "conjunct_update cj = Some (column, u)"
  shows "\<exists>v. row_get row column = Some v \<and> update_sat u v"
  using assms by (cases cj) (auto simp: row_any_get is_null_def)

lemma collect_updates_sat:
  assumes "distinct (row_names row)" "\<forall>cj \<in> set cjs. matches H cj row = Ok True" "cs_sat cs row"
  shows "\<exists>cs'. collect_updates cjs cs = Some cs' \<and> cs_sat cs' row"
  using assms(2,3)
proof (induction cjs arbitrary: cs)
  case (Cons cj cjs)
  show ?case
  proof (cases "conjunct_update cj")
    case (Some cu)
    obtain column u where cu: "cu = (column, u)" by (cases cu)
    obtain v where v: "row_get row column = Some v" "update_sat u v"
      using matches_update_sat [OF assms(1)] Cons.prems Some cu by force
    let ?c = "case map_of cs column of Some c \<Rightarrow> c | None \<Rightarrow> cc_default"
    have "cc_sat ?c v" using cs_sat_map_of [OF Cons.prems(2), of column] v(1) cc_sat_default
      by (auto split: option.split)
    then obtain c' where c': "cc_apply ?c u = Some c'" "cc_sat c' v" using v(2) cc_apply_sat by blast
    then show ?thesis using Cons.IH [of "AList.update column c' cs"] Cons.prems cs_sat_update [OF Cons.prems(2) v(1) c'(2)] Some cu by auto
  qed (use Cons in auto)
qed simp

lemma normalize_all_sat: "cs_sat cs row \<Longrightarrow> \<exists>cs'. normalize_all cs = Some cs' \<and> cs_sat cs' row"
proof (induction cs)
  case (Cons x cs)
  obtain column c where x: "x = (column, c)" by (cases x)
  obtain v where v: "row_get row column = Some v" "cc_sat c v" using Cons.prems x by (auto simp: cs_sat_def)
  obtain c' where "cc_normalize c = Some c'" "cc_sat c' v" using cc_normalize_sat [OF v(2)] by blast
  moreover obtain cs' where "normalize_all cs = Some cs'" "cs_sat cs' row" using Cons by (auto simp: cs_sat_def)
  ultimately show ?case using v(1) x by (auto simp: cs_sat_def)
qed (simp add: cs_sat_def)

lemma collect_constraints_sat:
  assumes "distinct (row_names row)" "\<forall>cj \<in> set cjs. matches H cj row = Ok True"
  shows "\<exists>cs. collect_constraints cjs = Some cs \<and> cs_sat cs row"
  using collect_updates_sat [OF assms, of "[]"] normalize_all_sat
  by (fastforce simp: collect_constraints_def cs_sat_def)

subsection \<open>Candidates\<close>

text \<open>The bounds of \<open>range_bounds\<close> hold every value the constraint admits.\<close>

lemma not_null_bounds_hold:
  assumes "not_null_bounds k = Some (l, u)" "has_kind k v"
  shows "above l v \<and> below u v"
proof -
  have "v < Null" if "variant v < 10" using that by (intro value_less_variant) simp
  then show ?thesis using assms by (cases k; cases v) auto
qed

lemma find_column_def_row:
  assumes "row_wf row" "row_get row column = Some v" "find_column_def column (map fst row) = Some cd"
  shows "v = Null \<and> cd_nullable cd \<or> has_kind (cd_data_type cd) v"
proof -
  obtain x where x: "find (\<lambda>(c, v). cd_name c = column) row = Some x" "fst x = cd"
    using assms(3) by (auto simp: find_column_def_def find_fst)
  then have "x \<in> set row" "snd x = v" using assms(2) by (auto simp: row_get_def dest: find_SomeD)
  then have "(cd, v) \<in> set row" using x(2) by (cases x) auto
  then show ?thesis using assms(1,2) by (auto simp: row_wf_def)
qed

lemma range_bounds_hold:
  assumes "row_wf row" "row_get row column = Some v" "cc_sat c v"
    and "range_bounds c (find_column_def column (map fst row)) = Some (l, u, nn)"
  shows "above l v \<and> below u v"
proof (cases "cc_lower c = Unbounded \<and> cc_upper c = Unbounded")
  case True
  then obtain cd where cd: "cc_not_null c" "find_column_def column (map fst row) = Some cd"
    "not_null_bounds (cd_data_type cd) = Some (l, u)"
    using assms(4) by (auto simp: range_bounds_def split: if_splits option.splits)
  then have "has_kind (cd_data_type cd) v"
    using find_column_def_row [OF assms(1,2)] assms(3) by (auto simp: cc_sat_def is_null_def)
  then show ?thesis using cd(3) not_null_bounds_hold by blast
qed (use assms in \<open>auto simp: range_bounds_def cc_sat_def admits_def\<close>)

text \<open>
  The loop over the index columns keeps a prefix that the row has, and ends in a range the row is in.
\<close>

definition loop_covers :: "'d :: linorder row \<Rightarrow> string list \<Rightarrow>
    'd dbms_value list list \<times> string list \<times> ('d dbms_value bound \<times> 'd dbms_value bound \<times> bool) option \<Rightarrow> bool" where
  "loop_covers row index st \<longleftrightarrow> (case st of (prefixes, used, bounds) \<Rightarrow>
     \<exists>p \<in> set prefixes. map Some p = map (row_get row) (take (length p) index) \<and>
       (case bounds of
          None \<Rightarrow> True
        | Some (l, u, _) \<Rightarrow> length p < length index \<and>
            (\<exists>v. row_get row (index ! length p) = Some v \<and> above l v \<and> below u v)))"

lemma candidate_loop_covers:
  assumes "row_wf row" "cs_sat cs row"
    and "\<exists>p \<in> set prefixes. map Some p = map (row_get row) index0"
  shows "loop_covers row (index0 @ index) (candidate_loop cs (map fst row) index prefixes used)"
  using assms(3)
proof (induction index arbitrary: index0 prefixes used)
  case Nil
  then obtain p where p: "p \<in> set prefixes" "map Some p = map (row_get row) index0" by blast
  moreover have "length p = length index0" using p(2) map_eq_imp_length_eq by blast
  ultimately show ?case by (auto simp: loop_covers_def intro!: bexI [of _ p])
next
  case (Cons column rest)
  then obtain p where p: "p \<in> set prefixes" "map Some p = map (row_get row) index0" by blast
  have len: "length p = length index0" using p(2) map_eq_imp_length_eq by blast
  have stop: "loop_covers row (index0 @ column # rest) (prefixes, used, None)"
    using p len by (auto simp: loop_covers_def intro!: bexI [of _ p])
  show ?case
  proof (cases "map_of cs column")
    case None
    then show ?thesis using stop by simp
  next
    case (Some c)
    then obtain v where v: "row_get row column = Some v" "cc_sat c v" using cs_sat_map_of [OF assms(2)] by blast
    have pv: "map Some (p @ [v]) = map (row_get row) (index0 @ [column])" using p(2) v(1) by simp
    have step: "loop_covers row (index0 @ column # rest) (candidate_loop cs (map fst row) rest ps (used @ [column]))"
      if "p @ [v] \<in> set ps" for ps
      using Cons.IH [of ps "index0 @ [column]" "used @ [column]"] that pv by fastforce
    have range: "loop_covers row (index0 @ column # rest) (prefixes, used @ [column], Some b)"
      if "range_bounds c (find_column_def column (map fst row)) = Some b" for b
    proof -
      obtain l u nn where b: "b = (l, u, nn)" by (cases b)
      have "above l v \<and> below u v" using range_bounds_hold [OF assms(1) v] that b by blast
      then show ?thesis using p v(1) len b by (auto simp: loop_covers_def nth_append intro!: bexI [of _ p])
    qed
    show ?thesis
      using Some v(2) p(1) stop range by (auto simp: cc_sat_def intro!: step bexI [of _ p] split: option.split)
  qed
qed

lemma from_scans_matches: "path_matches_row (from_scans scans) row \<longleftrightarrow> (\<exists>scan \<in> set scans. scan_matches_row scan row)"
  by (auto simp: from_scans_def split: list.split)

lemma prefix_matches:
  assumes "map Some p = map (row_get row) (take (length p) index)"
  shows "list_all (\<lambda>(i, expected). scan_value (scan_range index p l u) row i = Some expected) (enumerate 0 p)"
proof -
  have len: "length p \<le> length index" using map_eq_imp_length_eq [OF assms] by simp
  have "row_get row (index ! i) = Some (p ! i)" if "i < length p" for i
    using arg_cong [OF assms, of "\<lambda>xs. xs ! i"] that len by simp
  then show ?thesis using len
    by (auto simp: list_all_iff in_set_enumerate_eq scan_value_def scan_range_def)
qed

lemma index_candidate_covers:
  assumes "row_wf row" "cs_sat cs row" "set index \<subseteq> set (row_names row)"
    and "index_candidate index pos cs (map fst row) = Some c"
  shows "path_matches_row (ca_path c) row"
proof -
  obtain prefixes used bounds where loop: "candidate_loop cs (map fst row) index [[]] [] = (prefixes, used, bounds)"
    by (metis prod_cases3)
  have "loop_covers row index (candidate_loop cs (map fst row) index [[]] [])"
    using candidate_loop_covers [OF assms(1,2), of "[[]]" "[]" index "[]"] by simp
  then obtain p where p: "p \<in> set prefixes" "map Some p = map (row_get row) (take (length p) index)"
    and b: "case bounds of None \<Rightarrow> True | Some (l, u, _) \<Rightarrow> length p < length index \<and>
       (\<exists>v. row_get row (index ! length p) = Some v \<and> above l v \<and> below u v)"
    using loop by (auto simp: loop_covers_def)
  have get: "\<exists>v. row_get row (index ! length p) = Some v" if "length p < length index"
    using assms(3) nth_mem [OF that] row_get_None_iff [of row "index ! length p"] by (cases "row_get row (index ! length p)") auto
  let ?scan = "\<lambda>p. case bounds of Some (lower, upper, _) \<Rightarrow> scan_range index p lower upper | None \<Rightarrow> scan_prefix index p"
  have "scan_matches_row (?scan p) row"
  proof (cases bounds)
    case None
    then show ?thesis using prefix_matches [OF p(2)] get
      by (auto simp: scan_matches_row_def scan_prefix_def is_exact_def scan_value_def scan_range_def)
  next
    case (Some lu)
    then show ?thesis using prefix_matches [OF p(2)] b
      by (auto simp: scan_matches_row_def is_exact_def scan_value_def scan_range_def split: prod.splits)
  qed
  moreover have "ca_path c = from_scans (map ?scan prefixes)"
    using assms(4) loop by (auto simp: index_candidate_def split: if_splits)
  ultimately show ?thesis using p(1) by (auto simp: from_scans_matches)
qed

lemma branch_paths_covers:
  "branch_paths bs = Some paths \<Longrightarrow> Some path \<in> set bs \<Longrightarrow> path_matches_row path row \<Longrightarrow> \<exists>q \<in> set paths. path_matches_row q row"
  by (induction bs arbitrary: paths rule: branch_paths.induct) auto

lemma branch_paths_all: "branch_paths bs = Some paths \<Longrightarrow> b \<in> set bs \<Longrightarrow> \<exists>path. b = Some path"
  by (induction bs arbitrary: paths rule: branch_paths.induct) auto

lemma or_candidate_covers:
  assumes "or_candidate (Some bs) pos = Some c" "b \<in> set bs" "\<forall>path. b = Some path \<longrightarrow> path_matches_row path row"
  shows "path_matches_row (ca_path c) row"
proof -
  obtain paths where paths: "branch_paths bs = Some paths"
    and c: "ca_path c = (case paths of [] \<Rightarrow> AEmpty | [p] \<Rightarrow> p | _ \<Rightarrow> AUnion paths)"
    using assms(1) by (auto simp: or_candidate_def Let_def bind_eq_Some_conv split: if_splits)
  obtain path where path: "b = Some path" using branch_paths_all [OF paths assms(2)] by blast
  obtain q where q: "q \<in> set paths" "path_matches_row q row"
    using branch_paths_covers [OF paths] assms(2,3) path by blast
  show ?thesis
  proof (cases "\<exists>x. paths = [x]")
    case False
    then have "ca_path c = AUnion paths" using c q(1) by (auto split: list.split)
    then show ?thesis using q by auto
  qed (use c q in auto)
qed

lemma merge_members_sub: "set (merge_members covered cs) \<subseteq> ca_path ` set cs"
  by (induction covered cs rule: merge_members.induct) auto

lemma candidates_of_cases:
  assumes "c \<in> set (candidates_of cs ors indexes columns)"
  obtains i index where "index \<in> set indexes" "index_candidate index i cs columns = Some c"
  | i bs where "Some bs \<in> set ors" "or_candidate (Some bs) i = Some c"
proof -
  consider i where "i < length indexes" "index_candidate (indexes ! i) i cs columns = Some c"
    | i where "i < length ors" "or_candidate (ors ! i) (length indexes + i) = Some c"
    using assms by (auto simp: candidates_of_def map_filter_def in_set_enumerate_eq)
  then show thesis
  proof cases
    case (2 i)
    then obtain bs where "ors ! i = Some bs" by (cases "ors ! i") (auto simp: or_candidate_def)
    then show thesis using 2 that(2) nth_mem by metis
  qed (use that(1) nth_mem in blast)
qed

lemma plan_conjunction_cases:
  assumes "collect_constraints cjs = Some cs" "plan_conjunction cjs ors indexes columns = Some path"
    and "\<not> (\<exists>c \<in> set (sort_key candidate_key (candidates_of cs ors indexes columns)). ca_path c = AEmpty)"
  shows "path \<in> ca_path ` set (sort_key candidate_key (candidates_of cs ors indexes columns)) \<or>
    [path] = merge_members {} (sort_key candidate_key (candidates_of cs ors indexes columns)) \<or>
    path = AIntersection (merge_members {} (sort_key candidate_key (candidates_of cs ors indexes columns)))"
proof -
  define cands where "cands = sort_key candidate_key (candidates_of cs ors indexes columns)"
  have p: "(case cands of [] \<Rightarrow> None
      | first # _ \<Rightarrow>
          if ca_rank first = UniqueExact \<or> ca_rank first = CompositeExact then Some (ca_path first)
          else case merge_members {} cands of [m] \<Rightarrow> Some m | members \<Rightarrow> Some (AIntersection members)) = Some path"
    using assms unfolding plan_conjunction_def cands_def [symmetric] by (simp add: Let_def cands_def [symmetric])
  obtain first rest where f: "cands = first # rest" using p by (cases cands) auto
  show ?thesis
    using p unfolding cands_def [symmetric] f
    by (auto simp del: merge_members.simps split: if_splits list.splits)
qed

text \<open>A plan of candidates that all hold the row holds the row.\<close>

lemma plan_conjunction_covers:
  assumes "collect_constraints cjs = Some cs" "\<forall>c \<in> set (candidates_of cs ors indexes columns). path_matches_row (ca_path c) row"
    and "plan_conjunction cjs ors indexes columns = Some path"
  shows "path_matches_row path row"
proof -
  let ?cands = "sort_key candidate_key (candidates_of cs ors indexes columns)"
  have all: "\<forall>c \<in> set ?cands. path_matches_row (ca_path c) row" using assms(2) by simp
  then have no_empty: "\<not> (\<exists>c \<in> set ?cands. ca_path c = AEmpty)" by fastforce
  have members: "path_matches_row q row" if "q \<in> set (merge_members {} ?cands)" for q
    using all merge_members_sub [of "{}" ?cands] that by auto
  show ?thesis
    using plan_conjunction_cases [OF assms(1,3) no_empty]
  proof (elim disjE)
    assume "[path] = merge_members {} ?cands"
    then show ?thesis using members by (metis list.set_intros(1))
  qed (use all members in auto)
qed

lemma flatten_and_matches:
  "matches H f row = Ok True \<Longrightarrow> c \<in> set (flatten_and f) \<Longrightarrow> matches H c row = Ok True"
proof (induction f rule: flatten_and.induct)
  case (1 l r)
  then have "matches H l row = Ok True \<and> matches H r row = Ok True"
    by (cases "matches H l row") (auto simp: and_then_def split: if_splits)
  then show ?case using 1 by auto
qed auto

lemma flatten_or_matches:
  "matches H f row = Ok True \<Longrightarrow> \<exists>b \<in> set (flatten_or f). matches H b row = Ok True"
proof (induction f rule: flatten_or.induct)
  case (1 l r)
  then have "matches H l row = Ok True \<or> matches H r row = Ok True"
    by (cases "matches H l row") (auto simp: or_else_def split: if_splits)
  then show ?case using 1 by auto
qed auto

lemma plan_filter_covers:
  assumes "row_wf row" "\<forall>index \<in> set indexes. set index \<subseteq> set (row_names row)"
  shows "matches H f row = Ok True \<Longrightarrow> plan_filter indexes (map fst row) f = Some path \<Longrightarrow> path_matches_row path row"
proof (induction f arbitrary: path rule: measure_induct_rule [of size])
  case (less f)
  let ?ors = "map (\<lambda>c. if is_or c then Some (map (plan_filter indexes (map fst row)) (flatten_or c)) else None) (flatten_and f)"
  have cjs: "\<forall>c \<in> set (flatten_and f). matches H c row = Ok True" using flatten_and_matches less.prems(1) by blast
  then obtain cs where cs: "collect_constraints (flatten_and f) = Some cs" "cs_sat cs row"
    using collect_constraints_sat assms(1) unfolding row_wf_def by blast
  have "path_matches_row (ca_path cand) row" if cand: "cand \<in> set (candidates_of cs ?ors indexes (map fst row))" for cand
  proof -
    show ?thesis
      using cand
    proof (cases rule: candidates_of_cases)
      case (1 i index)
      then show ?thesis using index_candidate_covers assms cs(2) by blast
    next
      case (2 i bs)
      then obtain c where c: "c \<in> set (flatten_and f)" "is_or c"
        and bs: "bs = map (plan_filter indexes (map fst row)) (flatten_or c)"
        by (auto split: if_splits)
      obtain b where b: "b \<in> set (flatten_or c)" "matches H b row = Ok True"
        using flatten_or_matches cjs c(1) by blast
      have "size b < size f" using flatten_or_less [OF c(2) b(1)] flatten_and_size [OF c(1)] by simp
      then have "\<forall>path. plan_filter indexes (map fst row) b = Some path \<longrightarrow> path_matches_row path row"
        using less.IH b(2) by blast
      then show ?thesis using or_candidate_covers [OF 2(2)] b(1) bs by auto
    qed
  qed
  then show ?case
    using plan_conjunction_covers [OF cs(1)] less.prems(2) by (simp only: plan_filter.simps [of indexes "map fst row" f]) blast
qed

text \<open>C21: every well-formed row of the table that matches the filter belongs to the access path the
  planner chose for it, whatever the declared indexes: reading the path and checking the filter
  again on each row loses no matching row.\<close>

theorem plan_filter_keeps_matching_rows:
  assumes "row_wf row" and "\<forall>index \<in> set indexes. set index \<subseteq> set (row_names row)"
    and "matches H f row = Ok True" and "plan_filter indexes (map fst row) f = Some path"
  shows "path_matches_row path row"
  using plan_filter_covers assms by blast

definition sample_row :: "int row" where
  "sample_row = [(sample_column ''id'' KUint32, Uint32 7), (sample_column ''age'' KInt32, Int32 20)]"

definition sample_filter :: "int query_filter" where
  "sample_filter = FAnd (FGe ''age'' (Int32 18)) (FOr (FEq ''id'' (Uint32 7)) (FIn ''id'' [Uint32 9, Uint32 8]))"

definition sample_path :: "int access_path" where
  "sample_path = AIntersection
     [AScan (scan_range [''age''] [] (Included (Int32 18)) Unbounded),
      AUnion [AScan (scan_prefix [''id''] [Uint32 7]),
        AUnion [AScan (scan_prefix [''id''] [Uint32 8]), AScan (scan_prefix [''id''] [Uint32 9])]]]"

lemma sample_plan: "plan_filter [[''id''], [''age'']] (map fst sample_row) sample_filter = Some sample_path"
  by code_simp

theorem plan_filter_keeps_matching_rows_witness:
  "path_matches_row sample_path sample_row"
  by (rule plan_filter_keeps_matching_rows [OF _ _ _ sample_plan, where H = sample_host])
    (simp_all add: sample_row_def sample_filter_def row_wf_def row_names_def sample_column_def row_any_def)

subsection \<open>The number of ranges a plan reads\<close>

lemma candidate_loop_length:
  "length prefixes \<le> MAX_ALTERNATIVES \<Longrightarrow> length (fst (candidate_loop cs columns index prefixes used)) \<le> MAX_ALTERNATIVES"
proof (induction index arbitrary: prefixes used)
  case (Cons column index)
  have "length (concat (map (\<lambda>p. map (\<lambda>v. p @ [v]) vs) prefixes)) = length prefixes * length vs" for vs :: "'a dbms_value list"
    by (induction prefixes) auto
  then show ?case using Cons by (auto split: option.split)
qed simp

lemma from_scans_count: "scan_count (from_scans scans) = length scans"
  by (auto simp: from_scans_def comp_def sum_list_triv split: list.split)

lemma index_candidate_count: "index_candidate index i cs columns = Some c \<Longrightarrow> scan_count (ca_path c) \<le> MAX_ALTERNATIVES"
  using candidate_loop_length [of "[[]]" cs columns index "[]"]
  by (auto simp: index_candidate_def from_scans_count MAX_ALTERNATIVES_def split: prod.splits if_splits)

lemma or_candidate_count: "or_candidate bs i = Some c \<Longrightarrow> scan_count (ca_path c) \<le> MAX_ALTERNATIVES"
  by (auto simp: or_candidate_def Let_def bind_eq_Some_conv split: if_splits)

lemma candidates_of_count:
  "c \<in> set (candidates_of cs ors indexes columns) \<Longrightarrow> scan_count (ca_path c) \<le> MAX_ALTERNATIVES"
  by (erule candidates_of_cases) (blast intro: index_candidate_count or_candidate_count)+

lemma merge_members_length: "length (merge_members covered cs) \<le> length cs"
  by (induction covered cs rule: merge_members.induct) auto

lemma map_filter_length: "length (List.map_filter g xs) \<le> length xs"
  by (induction xs) (auto simp: map_filter_def intro: le_SucI)

lemma candidates_of_length: "length (candidates_of cs ors indexes columns) \<le> length indexes + length ors"
  using map_filter_length [of "\<lambda>(i, index). index_candidate index i cs columns" "enumerate 0 indexes"]
    map_filter_length [of "\<lambda>(i, branches). or_candidate branches (length indexes + i)" "enumerate 0 ors"]
  by (simp add: candidates_of_def)

lemma sum_list_bound: "\<forall>x \<in> set xs. f x \<le> (m :: nat) \<Longrightarrow> sum_list (map f xs) \<le> m * length xs"
  by (induction xs) auto

text \<open>A plan reads at most 64 index ranges for each declared index and each conjunct of the filter,
  however long its lists and however many branches its disjunctions have.\<close>

theorem plan_filter_scan_count:
  assumes "plan_filter indexes columns f = Some path"
  shows "scan_count path \<le> MAX_ALTERNATIVES * (length indexes + length (flatten_and f))"
proof -
  let ?ors = "map (\<lambda>c. if is_or c then Some (map (plan_filter indexes columns) (flatten_or c)) else None) (flatten_and f)"
  have plan: "plan_conjunction (flatten_and f) ?ors indexes columns = Some path"
    using assms by (simp only: plan_filter.simps [of indexes columns f])
  show ?thesis
  proof (cases "path = AEmpty")
    case False
    then obtain cs where cs: "collect_constraints (flatten_and f) = Some cs"
      using plan by (cases "collect_constraints (flatten_and f)") (auto simp: plan_conjunction_def)
    define cands where "cands = sort_key candidate_key (candidates_of cs ?ors indexes columns)"
    have no_empty: "\<not> (\<exists>c \<in> set cands. ca_path c = AEmpty)"
      using plan cs False unfolding plan_conjunction_def cands_def [symmetric]
      by (simp add: Let_def cands_def [symmetric] split: if_splits)
    have each: "\<forall>c \<in> set cands. scan_count (ca_path c) \<le> MAX_ALTERNATIVES"
      using candidates_of_count unfolding cands_def set_sort by blast
    have members: "\<forall>q \<in> set (merge_members {} cands). scan_count q \<le> MAX_ALTERNATIVES"
      using merge_members_sub [of "{}" cands] each by blast
    have one: "scan_count path \<le> MAX_ALTERNATIVES * length cands" if "scan_count path \<le> MAX_ALTERNATIVES" "cands \<noteq> []"
      using that by (cases cands) auto
    have "scan_count path \<le> MAX_ALTERNATIVES * length cands"
      using plan_conjunction_cases [OF cs plan no_empty [unfolded cands_def]] unfolding cands_def [symmetric]
    proof (elim disjE)
      assume "path \<in> ca_path ` set cands"
      then show ?thesis using each by (intro one) auto
    next
      assume m: "[path] = merge_members {} cands"
      then have "path \<in> set (merge_members {} cands)" by (metis list.set_intros(1))
      moreover have "cands \<noteq> []" using m by auto
      ultimately show ?thesis using members by (intro one) auto
    next
      assume "path = AIntersection (merge_members {} cands)"
      then have "scan_count path \<le> MAX_ALTERNATIVES * length (merge_members {} cands)"
        using sum_list_bound [OF members] by simp
      also have "\<dots> \<le> MAX_ALTERNATIVES * length cands" using merge_members_length by (rule mult_le_mono2)
      finally show ?thesis .
    qed
    also have "\<dots> \<le> MAX_ALTERNATIVES * (length indexes + length (flatten_and f))"
      using candidates_of_length [of cs ?ors indexes columns] by (intro mult_le_mono2) (simp add: cands_def)
    finally show ?thesis .
  qed simp
qed

theorem plan_filter_scan_count_witness:
  "scan_count sample_path \<le> 64 * (2 + 2)"
  using plan_filter_scan_count [OF sample_plan] by (simp add: sample_filter_def MAX_ALTERNATIVES_def)

subsection \<open>The columns a path depends on\<close>

lemma scan_matches_agree:
  assumes "row_names r1 = row_names r2" "\<forall>c \<in> set (constrained_columns scan). row_get r1 c = row_get r2 c"
  shows "scan_matches_row scan r1 = scan_matches_row scan r2"
proof -
  let ?n = "length (sc_prefix scan)"
  have same: "scan_value scan r1 i = scan_value scan r2 i" if "i < length (constrained_columns scan)" for i
  proof -
    have "constrained_columns scan ! i = sc_columns scan ! i" and "i < length (sc_columns scan)"
      using that by (auto simp: constrained_columns_def Let_def split: if_splits)
    then show ?thesis using assms(2) nth_mem [OF that] by (simp add: scan_value_def)
  qed
  have prefix: "scan_value scan r1 i = scan_value scan r2 i" if "i < ?n" for i
    using same [of i] that by (cases "i < length (sc_columns scan)") (auto simp: constrained_columns_def Let_def scan_value_def)
  have some: "(scan_value scan r1 i = None) = (scan_value scan r2 i = None)" for i
    using assms(1) by (simp add: scan_value_def row_get_None_iff)
  have next_col: "scan_value scan r1 ?n = scan_value scan r2 ?n" if "\<not> (sc_lower scan = Unbounded \<and> sc_upper scan = Unbounded)"
    using same [of ?n] that by (cases "?n < length (sc_columns scan)") (auto simp: constrained_columns_def Let_def scan_value_def)
  have "list_all (\<lambda>(i, e). scan_value scan r1 i = Some e) (enumerate 0 (sc_prefix scan)) =
      list_all (\<lambda>(i, e). scan_value scan r2 i = Some e) (enumerate 0 (sc_prefix scan))"
    using prefix by (auto simp: list_all_iff in_set_enumerate_eq)
  then show ?thesis using next_col some [of ?n]
    by (cases "sc_lower scan = Unbounded \<and> sc_upper scan = Unbounded")
       (auto simp: scan_matches_row_def split: option.split)
qed

lemma path_matches_agree:
  assumes "row_names r1 = row_names r2" and "\<forall>c \<in> collect_constrained_columns path. row_get r1 c = row_get r2 c"
  shows "path_matches_row path r1 = path_matches_row path r2"
  using assms(2) by (induction path) (auto simp: scan_matches_agree [OF assms(1)])

text \<open>C24: two rows of a table that agree on the columns \<open>collect_constrained_columns\<close> reports are both in the path or
  both outside: a change to any other column cannot move a row into the path.\<close>

theorem constrained_columns_decide:
  assumes "row_names r1 = row_names r2" and "\<forall>c \<in> collect_constrained_columns path. row_get r1 c = row_get r2 c"
  shows "path_matches_row path r1 = path_matches_row path r2"
  using assms by (rule path_matches_agree)

theorem constrained_columns_decide_witness:
  "path_matches_row (AScan (scan_prefix [''id''] [Uint32 7])) sample_row =
   path_matches_row (AScan (scan_prefix [''id''] [Uint32 7]))
     ([(sample_column ''id'' KUint32, Uint32 7), (sample_column ''age'' KInt32, Int32 (- 1))] :: int row)"
  by (rule constrained_columns_decide)
    (simp_all add: sample_row_def row_names_def sample_column_def constrained_columns_def scan_prefix_def scan_range_def)

end
