(* ===== verification/Filter_Analyzer.thy ===== *)
theory Filter_Analyzer
  imports Access_Planner
begin

text \<open>
  \<^verbatim>\<open>wasm-dbms/src/database/filter_analyzer.rs\<close>: the single-column plan with the filter that remains to be
  evaluated, used for filters whose evaluation may fail. Main result: on the rows of the plan the
  remaining filter gives exactly the outcome of the whole filter, errors included, and no other row
  matches.
\<close>

section \<open>Plans\<close>

datatype 'd index_plan =
    PEq string "'d dbms_value"
  | PRange string "'d dbms_value option" "'d dbms_value option"
  | PIn string "'d dbms_value list"

primrec plan_column :: "'d index_plan \<Rightarrow> string" where
  "plan_column (PEq c _) = c"
| "plan_column (PRange c _ _) = c"
| "plan_column (PIn c _) = c"

record 'd analyzed_filter =
  af_plan :: "'d index_plan"
  af_remaining :: "'d query_filter option"

definition resolve_column :: "string \<Rightarrow> string list \<Rightarrow> string option" where
  "resolve_column column indexed = find (\<lambda>c. c = column) indexed"

definition combine_filters :: "'d query_filter option \<Rightarrow> 'd query_filter option \<Rightarrow> 'd query_filter option" where
  "combine_filters l r =
     (case (l, r) of
        (Some f, Some g) \<Rightarrow> Some (FAnd f g)
      | (Some f, None) \<Rightarrow> Some f
      | (None, Some g) \<Rightarrow> Some g
      | (None, None) \<Rightarrow> None)"

definition stricter_bound :: "'v option \<Rightarrow> 'v option \<Rightarrow> ('v \<Rightarrow> 'v \<Rightarrow> 'v) \<Rightarrow> 'v option" where
  "stricter_bound l r pick =
     (case (l, r) of
        (Some a, Some b) \<Rightarrow> Some (pick a b)
      | (Some a, None) \<Rightarrow> Some a
      | (None, b) \<Rightarrow> b)"

definition analyzed :: "string \<Rightarrow> string list \<Rightarrow> (string \<Rightarrow> 'd index_plan) \<Rightarrow> 'd query_filter option \<Rightarrow> 'd analyzed_filter option" where
  "analyzed column indexed mk rem = map_option (\<lambda>c. \<lparr>af_plan = mk c, af_remaining = rem\<rparr>) (resolve_column column indexed)"

text \<open>\<^verbatim>\<open>analyze_and\<close>, given the analyses of the two sides.\<close>

definition analyze_and ::
  "'d :: linorder query_filter \<Rightarrow> 'd query_filter \<Rightarrow> 'd analyzed_filter option \<Rightarrow> 'd analyzed_filter option \<Rightarrow> 'd analyzed_filter option" where
  "analyze_and left right la ra =
     (case (la, ra) of
        (Some l, Some r) \<Rightarrow>
          (case (af_plan l, af_plan r) of
             (PRange lc ls le, PRange rc rs re) \<Rightarrow>
               if lc = rc then
                 Some \<lparr>af_plan = PRange lc (stricter_bound ls rs max) (stricter_bound le re min),
                   af_remaining = combine_filters (af_remaining l) (af_remaining r)\<rparr>
               else Some \<lparr>af_plan = af_plan l, af_remaining =
                   combine_filters (combine_filters (af_remaining l) (Some right)) (af_remaining r)\<rparr>
           | _ \<Rightarrow> Some \<lparr>af_plan = af_plan l, af_remaining =
                   combine_filters (combine_filters (af_remaining l) (Some right)) (af_remaining r)\<rparr>)
      | (Some l, None) \<Rightarrow> Some \<lparr>af_plan = af_plan l, af_remaining = combine_filters (af_remaining l) (Some right)\<rparr>
      | (None, Some r) \<Rightarrow> Some \<lparr>af_plan = af_plan r, af_remaining = combine_filters (Some left) (af_remaining r)\<rparr>
      | (None, None) \<Rightarrow> None)"

fun analyze_inner :: "'d :: linorder query_filter \<Rightarrow> string list \<Rightarrow> 'd analyzed_filter option" where
  "analyze_inner (FEq c v) indexed = analyzed c indexed (\<lambda>c. PEq c v) None"
| "analyze_inner (FGe c v) indexed = analyzed c indexed (\<lambda>c. PRange c (Some v) None) None"
| "analyze_inner (FLe c v) indexed = analyzed c indexed (\<lambda>c. PRange c None (Some v)) None"
| "analyze_inner (FGt c v) indexed = analyzed c indexed (\<lambda>c. PRange c (Some v) None) (Some (FGt c v))"
| "analyze_inner (FLt c v) indexed = analyzed c indexed (\<lambda>c. PRange c None (Some v)) (Some (FLt c v))"
| "analyze_inner (FIn c vs) indexed = analyzed c indexed (\<lambda>c. PIn c vs) None"
| "analyze_inner (FAnd l r) indexed = analyze_and l r (analyze_inner l indexed) (analyze_inner r indexed)"
| "analyze_inner _ indexed = None"

definition analyze_filter :: "'d :: linorder query_filter \<Rightarrow> index_def list \<Rightarrow> 'd analyzed_filter option" where
  "analyze_filter f indexes = analyze_inner f (map hd (filter (\<lambda>index. length index = 1) indexes))"

section \<open>The remaining filter is exact on the plan\<close>

primrec plan_holds :: "'d :: linorder index_plan \<Rightarrow> 'd row \<Rightarrow> bool" where
  "plan_holds (PEq c v) row \<longleftrightarrow> row_get row c = Some v"
| "plan_holds (PRange c l u) row \<longleftrightarrow>
     (case row_get row c of
        None \<Rightarrow> False
      | Some v \<Rightarrow> (\<forall>x. l = Some x \<longrightarrow> x \<le> v) \<and> (\<forall>x. u = Some x \<longrightarrow> v \<le> x))"
| "plan_holds (PIn c vs) row \<longleftrightarrow> (case row_get row c of None \<Rightarrow> False | Some v \<Rightarrow> v \<in> set vs)"

definition residual :: "'d :: linorder host \<Rightarrow> 'd query_filter option \<Rightarrow> 'd row \<Rightarrow> (bool, 'd) query_result" where
  "residual H rem row = (case rem of None \<Rightarrow> Ok True | Some f \<Rightarrow> matches H f row)"

definition analysis_exact :: "'d :: linorder host \<Rightarrow> 'd query_filter \<Rightarrow> 'd row \<Rightarrow> 'd analyzed_filter \<Rightarrow> bool" where
  "analysis_exact H f row a \<longleftrightarrow>
     (if plan_holds (af_plan a) row then residual H (af_remaining a) row = matches H f row
      else matches H f row \<noteq> Ok True)"

lemma resolve_column_Some [simp]: "resolve_column c indexed = Some d \<longleftrightarrow> d = c \<and> c \<in> set indexed"
  by (induction indexed) (auto simp: resolve_column_def)

lemma residual_simps [simp]: "residual H None row = Ok True" "residual H (Some f) row = matches H f row"
  by (simp_all add: residual_def)

lemma and_then_True [simp]: "and_then l r = Ok True \<longleftrightarrow> l = Ok True \<and> r = Ok True"
  by (cases l) (auto simp: and_then_def)

lemma and_then_assoc: "and_then (and_then a b) c = and_then a (and_then b c)"
  by (cases a) (auto simp: and_then_def)

lemma and_then_absorb: "(b = Ok True \<Longrightarrow> c = Ok True) \<Longrightarrow> and_then b c = b"
  by (cases b) (auto simp: and_then_def)

lemma and_then_Ok_True [simp]: "and_then x (Ok True) = x"
  by (rule and_then_absorb) simp

lemma residual_combine: "residual H (combine_filters l r) row = and_then (residual H l row) (residual H r row)"
  by (cases l; cases r) (simp_all add: combine_filters_def)

lemma range_both:
  "plan_holds (PRange c (stricter_bound ls rs max) (stricter_bound le re min)) row \<longleftrightarrow>
     plan_holds (PRange c ls le) row \<and> plan_holds (PRange c rs re) row"
  by (cases ls; cases rs; cases le; cases re) (auto simp: stricter_bound_def split: option.splits)

lemma analyze_and_exact:
  assumes "\<And>a. la = Some a \<Longrightarrow> analysis_exact H l row a" and "\<And>a. ra = Some a \<Longrightarrow> analysis_exact H r row a"
    and "analyze_and l r la ra = Some a"
  shows "analysis_exact H (FAnd l r) row a"
proof (cases la)
  case None
  then obtain x where "ra = Some x" using assms(3) by (cases ra) (auto simp: analyze_and_def)
  then show ?thesis using assms None
    by (auto simp: analyze_and_def analysis_exact_def residual_combine split: if_splits)
next
  case (Some x)
  note x = this
  show ?thesis
  proof (cases ra)
    case None
    then show ?thesis using assms x
      by (auto simp: analyze_and_def analysis_exact_def residual_combine split: if_splits)
  next
    case (Some y)
    have exact: "analysis_exact H l row x" "analysis_exact H r row y" using assms(1,2) x Some by auto
    show ?thesis
    proof (cases "\<exists>c ls le rs re. af_plan x = PRange c ls le \<and> af_plan y = PRange c rs re")
      case True
      then obtain c ls le rs re where p: "af_plan x = PRange c ls le" "af_plan y = PRange c rs re" by blast
      have a: "a = \<lparr>af_plan = PRange c (stricter_bound ls rs max) (stricter_bound le re min),
          af_remaining = combine_filters (af_remaining x) (af_remaining y)\<rparr>"
        using assms(3) x Some p by (simp add: analyze_and_def)
      show ?thesis using exact unfolding analysis_exact_def a
        by (auto simp: p range_both residual_combine simp del: plan_holds.simps split: if_splits)
    next
      case False
      then have a: "a = \<lparr>af_plan = af_plan x, af_remaining =
          combine_filters (combine_filters (af_remaining x) (Some r)) (af_remaining y)\<rparr>"
        using assms(3) x Some by (auto simp: analyze_and_def split: index_plan.splits if_splits)
      have "and_then (matches H r row) (residual H (af_remaining y) row) = matches H r row"
        using exact(2) by (intro and_then_absorb) (auto simp: analysis_exact_def split: if_splits)
      then show ?thesis using exact(1) unfolding analysis_exact_def a
        by (auto simp: residual_combine and_then_assoc split: if_splits)
    qed
  qed
qed

lemma analyze_inner_exact:
  assumes "distinct (row_names row)"
  shows "analyze_inner f indexed = Some a \<Longrightarrow> analysis_exact H f row a"
proof (induction f indexed arbitrary: a rule: analyze_inner.induct)
  case (7 l r indexed)
  then show ?case using analyze_and_exact [of "analyze_inner l indexed" H l row "analyze_inner r indexed" r a] by simp
qed (auto simp: analyzed_def analysis_exact_def row_any_get [OF assms] less_imp_le split: option.splits if_splits)

text \<open>C22: the single-column analysis is exact. On a row that the plan selects, the remaining filter has the
  outcome of the whole filter, error for error; a row that it does not select never matches.\<close>

theorem analyze_filter_exact:
  assumes "distinct (row_names row)" and "analyze_filter f indexes = Some a"
  shows "(plan_holds (af_plan a) row \<longrightarrow> residual H (af_remaining a) row = matches H f row) \<and>
    (matches H f row = Ok True \<longrightarrow> plan_holds (af_plan a) row)"
proof -
  have "analysis_exact H f row a" using analyze_inner_exact [OF assms(1)] assms(2) by (simp add: analyze_filter_def)
  then show ?thesis by (auto simp: analysis_exact_def split: if_splits)
qed

definition sample_like :: "int query_filter" where
  "sample_like = FAnd (FGt ''id'' (Uint32 5)) (FLike ''name'' ''a%'')"

theorem analyze_filter_exact_witness:
  "matches sample_host sample_like [(sample_column ''id'' KUint32, Uint32 6), (sample_column ''name'' KText, Int32 0)] =
   residual sample_host (Some sample_like) [(sample_column ''id'' KUint32, Uint32 6), (sample_column ''name'' KText, Int32 0)]"
proof -
  have a: "analyze_filter sample_like [[''id'', ''name''], [''id'']] =
      Some \<lparr>af_plan = PRange ''id'' (Some (Uint32 5)) None, af_remaining = Some sample_like\<rparr>"
    by code_simp
  show ?thesis
    using analyze_filter_exact [OF _ a, of "[(sample_column ''id'' KUint32, Uint32 6), (sample_column ''name'' KText, Int32 0)]" sample_host]
    by (simp add: row_names_def sample_column_def)
qed

end
