(* ===== verification/Plan_Executor.thy ===== *)
theory Plan_Executor
  imports Filter_Analyzer
begin

text \<open>
  \<^verbatim>\<open>wasm-dbms/src/database/plan_executor.rs\<close>: the choice between the two planners, and the turning of an
  access path into record addresses under a budget. The locale \<open>indexed_table\<close> states what the indexes
  of a table promise; main result: selecting through the plan returns exactly the rows a full scan returns.
\<close>

section \<open>Planning\<close>

definition SCAN_BUDGET :: nat where "SCAN_BUDGET = 4096"
definition TOTAL_BUDGET :: nat where "TOTAL_BUDGET = 16384"
definition SMALL_CANDIDATE_SET :: nat where "SMALL_CANDIDATE_SET = 8"

record 'd planned_access =
  pa_path :: "'d access_path"
  pa_verify :: "'d query_filter option"

definition bound_of :: "'v option \<Rightarrow> 'v bound" where
  "bound_of v = (case v of None \<Rightarrow> Unbounded | Some x \<Rightarrow> Included x)"

definition legacy_path :: "'d :: linorder index_plan \<Rightarrow> index_def list \<Rightarrow> 'd access_path option" where
  "legacy_path plan indexes =
     map_option (\<lambda>columns.
       case plan of
         PEq _ v \<Rightarrow> AScan (scan_prefix columns [v])
       | PRange _ start stop \<Rightarrow> AScan (scan_range columns [] (bound_of start) (bound_of stop))
       | PIn _ vs \<Rightarrow> AUnion (map (\<lambda>v. AScan (scan_prefix columns [v])) (remdups_adj (sort vs))))
       (find (\<lambda>columns. columns = [plan_column plan]) indexes)"

definition plan_access ::
  "'d :: linorder query_filter \<Rightarrow> index_def list \<Rightarrow> 'd column_def list \<Rightarrow> 'd planned_access option" where
  "plan_access f indexes columns =
     (if is_fallible f then
        Option.bind (analyze_filter f indexes) (\<lambda>a.
          map_option (\<lambda>path. \<lparr>pa_path = path, pa_verify = af_remaining a\<rparr>) (legacy_path (af_plan a) indexes))
      else map_option (\<lambda>path. \<lparr>pa_path = path, pa_verify = Some f\<rparr>) (plan_filter indexes columns f))"

section \<open>Execution\<close>

record budget =
  bu_per_scan :: nat
  bu_remaining :: nat
  bu_entries_read :: nat

definition budget_new :: "nat \<Rightarrow> nat \<Rightarrow> budget" where
  "budget_new per_scan all = \<lparr>bu_per_scan = per_scan, bu_remaining = all, bu_entries_read = 0\<rparr>"

definition default_limits :: budget where
  "default_limits = budget_new SCAN_BUDGET TOTAL_BUDGET"

text \<open>Record addresses order by page, then offset.\<close>

definition ra_key :: "record_address \<Rightarrow> nat \<times> nat" where
  "ra_key a = (ra_page a, ra_offset a)"

definition sort_dedup :: "record_address list \<Rightarrow> record_address list" where
  "sort_dedup as = remdups_adj (sort_key ra_key as)"

fun intersect_sorted :: "record_address list \<Rightarrow> record_address list \<Rightarrow> record_address list" where
  "intersect_sorted (x # xs) (y # ys) =
     (case cmp (ra_key x) (ra_key y) of
        Less \<Rightarrow> intersect_sorted xs (y # ys)
      | Greater \<Rightarrow> intersect_sorted (x # xs) ys
      | Equal \<Rightarrow> x # intersect_sorted xs ys)"
| "intersect_sorted _ _ = []"

definition materialize_scan ::
  "'d :: linorder index_store \<Rightarrow> 'd index_scan \<Rightarrow> (budget, record_address list option, memory_error) prog" where
  "materialize_scan store scan b =
     (let limit = min (bu_per_scan b) (bu_remaining b) in
      case addresses store scan limit of
        Ok (Some as) \<Rightarrow>
          (Ok (Some (sort_dedup as)),
           b\<lparr>bu_remaining := bu_remaining b - length as, bu_entries_read := bu_entries_read b + length as\<rparr>)
      | Ok None \<Rightarrow>
          (Ok None, b\<lparr>bu_remaining := bu_remaining b - limit, bu_entries_read := bu_entries_read b + limit + 1\<rparr>)
      | Err e \<Rightarrow> (Err e, b)
      | Panic \<Rightarrow> (Panic, b))"

fun materialize ::
  "'d :: linorder index_store \<Rightarrow> 'd access_path \<Rightarrow> (budget, record_address list option, memory_error) prog"
and union_loop ::
  "'d index_store \<Rightarrow> 'd access_path list \<Rightarrow> record_address list \<Rightarrow> (budget, record_address list option, memory_error) prog"
and intersection_loop ::
  "'d index_store \<Rightarrow> 'd access_path list \<Rightarrow> record_address list option \<Rightarrow> (budget, record_address list option, memory_error) prog" where
  "materialize store AEmpty b = (Ok (Some []), b)"
| "materialize store (AScan scan) b = materialize_scan store scan b"
| "materialize store (AUnion paths) b = union_loop store paths [] b"
| "materialize store (AIntersection paths) b = intersection_loop store paths None b"
| "union_loop store [] found b = (Ok (Some (sort_dedup found)), b)"
| "union_loop store (path # paths) found b =
     (case materialize store path b of
        (Ok (Some as), b') \<Rightarrow> union_loop store paths (found @ as) b'
      | (r, b') \<Rightarrow> (r, b'))"
| "intersection_loop store [] current b = (Ok current, b)"
| "intersection_loop store (path # paths) current b =
     (if (case current of Some cur \<Rightarrow> length cur \<le> SMALL_CANDIDATE_SET | None \<Rightarrow> False) then (Ok current, b)
      else case materialize store path b of
          (Ok None, b') \<Rightarrow> intersection_loop store paths current b'
        | (Ok (Some as), b') \<Rightarrow>
            intersection_loop store paths
              (Some (case current of Some cur \<Rightarrow> intersect_sorted cur as | None \<Rightarrow> as)) b'
        | (r, b') \<Rightarrow> (r, b'))"

section \<open>Sorted address lists\<close>

definition sorted_addrs :: "record_address list \<Rightarrow> bool" where
  "sorted_addrs as \<longleftrightarrow> sorted (map ra_key as) \<and> distinct as"

lemma ra_key_inj [simp]: "ra_key a = ra_key b \<longleftrightarrow> a = b"
  by (cases a; cases b) (simp add: ra_key_def)

lemma ra_key_cmp: "ra_key a < ra_key b \<longleftrightarrow> ra_cmp a b < 0"
  by (auto simp: ra_key_def ra_cmp_less less_prod_def)

lemma sorted_remdups_adj_key: "sorted (map ra_key as) \<Longrightarrow> sorted (map ra_key (remdups_adj as)) \<and> distinct (remdups_adj as)"
proof (induction as rule: remdups_adj.induct)
  case (3 x y xs)
  have "ra_key x < ra_key a" if "x \<noteq> y" "a \<in> set (y # xs)" for a
  proof -
    have "ra_key x \<le> ra_key y" "ra_key y \<le> ra_key a" using 3(3) that by auto
    then show ?thesis using that(1) by (metis le_less less_le_trans ra_key_inj)
  qed
  then show ?case using 3 by (auto simp: less_imp_le)
qed auto

lemma sort_dedup_sorted: "sorted_addrs (sort_dedup as)"
  using sorted_remdups_adj_key [of "sort_key ra_key as"] by (simp add: sorted_addrs_def sort_dedup_def)

lemma sort_dedup_set [simp]: "set (sort_dedup as) = set as"
  by (simp add: sort_dedup_def)

lemma sorted_addrs_Cons: "sorted_addrs (x # xs) \<longleftrightarrow> sorted_addrs xs \<and> (\<forall>a \<in> set xs. ra_key x < ra_key a)"
  by (auto simp: sorted_addrs_def less_le)

lemma intersect_sorted_correct:
  "sorted_addrs as \<Longrightarrow> sorted_addrs bs \<Longrightarrow>
     set (intersect_sorted as bs) = set as \<inter> set bs \<and> sorted_addrs (intersect_sorted as bs)"
proof (induction as bs rule: intersect_sorted.induct)
  case (1 x xs y ys)
  show ?case
  proof (cases "cmp (ra_key x) (ra_key y)")
    case Less
    have step: "intersect_sorted (x # xs) (y # ys) = intersect_sorted xs (y # ys)" by (simp add: Less)
    have "x \<notin> set (y # ys)" using Less 1(5) by (auto simp: sorted_addrs_Cons)
    then show ?thesis unfolding step using 1(1) [OF Less] 1(4,5) by (auto simp: sorted_addrs_Cons)
  next
    case Greater
    have step: "intersect_sorted (x # xs) (y # ys) = intersect_sorted (x # xs) ys" by (simp add: Greater)
    have "y \<notin> set (x # xs)" using Greater 1(4) by (auto simp: sorted_addrs_Cons)
    then show ?thesis unfolding step using 1(3) [OF Greater] 1(4,5) by (auto simp: sorted_addrs_Cons)
  next
    case Equal
    have step: "intersect_sorted (x # xs) (y # ys) = x # intersect_sorted xs ys" by (simp add: Equal)
    have "x = y" using Equal by simp
    then show ?thesis unfolding step using 1(2) [OF Equal] 1(4,5) by (auto simp: sorted_addrs_Cons)
  qed
qed (auto simp: sorted_addrs_def)

lemma intersect_sorted_sub: "set (intersect_sorted as bs) \<subseteq> set bs"
  by (induction as bs rule: intersect_sorted.induct) (auto split: ordering.splits)

section \<open>The indexes of a table\<close>

text \<open>\<^verbatim>\<open>index_key\<close> of \<^verbatim>\<open>database.rs\<close>: the values of the index columns, null for a missing one.\<close>

definition index_key :: "string list \<Rightarrow> 'd row \<Rightarrow> 'd dbms_value list" where
  "index_key columns row = map (\<lambda>c. case row_get row c of Some v \<Rightarrow> v | None \<Rightarrow> Null) columns"

text \<open>\<open>index_for columns tbl es\<close>: the entries \<open>es\<close> are those of the rows of \<open>tbl\<close>, in key order.\<close>

definition index_for :: "string list \<Rightarrow> (record_address \<times> 'd :: linorder row) list \<Rightarrow> 'd index_entries \<Rightarrow> bool" where
  "index_for columns tbl es \<longleftrightarrow> sorted (map fst es) \<and> mset es = mset (map (\<lambda>(a, row). (index_key columns row, a)) tbl)"

lemma scan_value_key:
  assumes "set (sc_columns scan) \<subseteq> set (row_names row)" "i < length (sc_columns scan)"
  shows "scan_value scan row i = Some (index_key (sc_columns scan) row ! i)"
proof -
  have "sc_columns scan ! i \<in> set (row_names row)" using assms nth_mem by blast
  then show ?thesis using row_get_None_iff [of row "sc_columns scan ! i"] assms(2)
    by (cases "row_get row (sc_columns scan ! i)") (auto simp: scan_value_def index_key_def)
qed

lemma length_index_key [simp]: "length (index_key columns row) = length columns"
  by (simp add: index_key_def)

text \<open>A row is in a scan when its key is.\<close>

lemma scan_matches_row_key:
  assumes cols: "set (sc_columns scan) \<subseteq> set (row_names row)"
  shows "scan_matches_row scan row \<longleftrightarrow> entry_in_scan scan (index_key (sc_columns scan) row)"
proof -
  let ?p = "sc_prefix scan" and ?k = "index_key (sc_columns scan) row"
  have out: "scan_value scan row i = None" if "length (sc_columns scan) \<le> i" for i
    using that by (simp add: scan_value_def)
  have "list_all (\<lambda>(i, e). scan_value scan row i = Some e) (enumerate 0 ?p) \<longleftrightarrow>
      (\<forall>i < length ?p. scan_value scan row i = Some (?p ! i))"
    by (auto simp: list_all_iff in_set_enumerate_eq)
  also have "\<dots> \<longleftrightarrow> length ?p \<le> length (sc_columns scan) \<and> take (length ?p) ?k = ?p"
  proof (cases "length ?p \<le> length (sc_columns scan)")
    case True
    then show ?thesis using scan_value_key [OF cols] by (auto simp: list_eq_iff_nth_eq)
  next
    case False
    then show ?thesis using out [of "length (sc_columns scan)"] by (auto simp: not_le intro!: exI [of _ "length (sc_columns scan)"])
  qed
  finally have pre: "list_all (\<lambda>(i, e). scan_value scan row i = Some e) (enumerate 0 ?p) \<longleftrightarrow>
      length ?p \<le> length (sc_columns scan) \<and> take (length ?p) ?k = ?p" .
  show ?thesis
  proof (cases "is_exact scan")
    case True
    then have "length ?p \<le> length (sc_columns scan) \<and> take (length ?p) ?k = ?p \<longleftrightarrow> ?k = ?p"
      using length_index_key [of "sc_columns scan" row] unfolding is_exact_def by (metis order_refl take_all)
    then show ?thesis using True unfolding scan_matches_row_def entry_in_scan_def pre by simp
  next
    case False
    then show ?thesis unfolding scan_matches_row_def entry_in_scan_def pre
      using scan_value_key [OF cols, of "length ?p"] by (auto simp: is_exact_def not_le)
  qed
qed

fun path_over :: "index_def list \<Rightarrow> 'd access_path \<Rightarrow> bool" where
  "path_over indexes AEmpty \<longleftrightarrow> True"
| "path_over indexes (AScan scan) \<longleftrightarrow> sc_columns scan \<in> set indexes"
| "path_over indexes (AUnion paths) \<longleftrightarrow> (\<forall>p \<in> set paths. path_over indexes p)"
| "path_over indexes (AIntersection paths) \<longleftrightarrow> (\<forall>p \<in> set paths. path_over indexes p)"

fun has_intersection :: "'d access_path \<Rightarrow> bool" where
  "has_intersection (AIntersection paths) \<longleftrightarrow> True"
| "has_intersection (AUnion paths) \<longleftrightarrow> (\<exists>p \<in> set paths. has_intersection p)"
| "has_intersection _ \<longleftrightarrow> False"

text \<open>
  The contract of the persistent indexes: every declared index holds one entry per row, in key order.
\<close>

definition has_columns :: "index_def list \<Rightarrow> 'd row \<Rightarrow> bool" where
  "has_columns indexes row \<longleftrightarrow> (\<forall>index \<in> set indexes. set index \<subseteq> set (row_names row))"

locale indexed_table =
  fixes store :: "'d :: linorder index_store"
    and tbl :: "(record_address \<times> 'd row) list"
    and indexes :: "index_def list"
  assumes index_entries: "index \<in> set indexes \<Longrightarrow> \<exists>es. store index = Some es \<and> index_for index tbl es"
begin

definition rows_in :: "'d access_path \<Rightarrow> record_address set" where
  "rows_in path = {a. \<exists>row. (a, row) \<in> set tbl \<and> path_matches_row path row}"

text \<open>A scan reads the addresses of exactly its rows.\<close>

lemma addresses_exact:
  assumes cols: "\<forall>(a, row) \<in> set tbl. has_columns indexes row" and "sc_columns scan \<in> set indexes"
  obtains found where "set found = rows_in (AScan scan)"
    and "addresses store scan limit = Ok (if length found > limit then None else Some found)"
proof -
  obtain es where es: "store (sc_columns scan) = Some es" "index_for (sc_columns scan) tbl es"
    using index_entries [OF assms(2)] by blast
  have set_es: "set es = (\<lambda>(a, row). (index_key (sc_columns scan) row, a)) ` set tbl"
    using mset_eq_setD [of es "map (\<lambda>(a, row). (index_key (sc_columns scan) row, a)) tbl"] es(2) by (simp add: index_for_def)
  have filt: "scan_entries scan es = filter (\<lambda>(k, a). entry_in_scan scan k) es"
    using es(2) by (intro scan_entries_filter) (auto simp: index_for_def set_es)
  have match: "entry_in_scan scan (index_key (sc_columns scan) row) = scan_matches_row scan row" if "(a, row) \<in> set tbl" for a row
    using scan_matches_row_key cols assms(2) that unfolding has_columns_def by fast
  have "set (map snd (scan_entries scan es)) = rows_in (AScan scan)"
    unfolding filt by (auto simp: rows_in_def set_es match) (force simp: match)
  moreover have "addresses store scan limit =
      Ok (if length (map snd (scan_entries scan es)) > limit then None else Some (map snd (scan_entries scan es)))"
    using es(1) by (simp add: addresses_def index_of_def Let_def)
  ultimately show thesis by (rule that)
qed

definition covers :: "'d access_path \<Rightarrow> record_address list \<Rightarrow> bool" where
  "covers path as \<longleftrightarrow> sorted_addrs as \<and> rows_in path \<subseteq> set as \<and> (\<not> has_intersection path \<longrightarrow> set as = rows_in path)"

lemma materialize_scan_covers:
  assumes "\<forall>(a, row) \<in> set tbl. has_columns indexes row" "sc_columns scan \<in> set indexes"
  shows "\<exists>res. fst (materialize_scan store scan b) = Ok res \<and> (\<forall>as. res = Some as \<longrightarrow> covers (AScan scan) as)"
proof -
  obtain found where found: "set found = rows_in (AScan scan)"
    "addresses store scan (min (bu_per_scan b) (bu_remaining b)) =
       Ok (if length found > min (bu_per_scan b) (bu_remaining b) then None else Some found)"
    using addresses_exact [OF assms] by blast
  show ?thesis using found(1) sort_dedup_sorted
    by (auto simp: materialize_scan_def found(2) Let_def covers_def)
qed

lemma materialize_covers_loops:
  assumes cols: "\<forall>(a, row) \<in> set tbl. has_columns indexes row"
  shows "st = store \<Longrightarrow> path_over indexes path \<Longrightarrow>
      \<exists>res. fst (materialize st path b) = Ok res \<and> (\<forall>as. res = Some as \<longrightarrow> covers path as)"
    and "st = store \<Longrightarrow> \<forall>p \<in> set paths. path_over indexes p \<Longrightarrow>
      \<exists>res. fst (union_loop st paths found b) = Ok res \<and> (\<forall>as. res = Some as \<longrightarrow>
        sorted_addrs as \<and> set found \<union> rows_in (AUnion paths) \<subseteq> set as \<and>
        (\<not> has_intersection (AUnion paths) \<longrightarrow> set as = set found \<union> rows_in (AUnion paths)))"
    and "st = store \<Longrightarrow> \<forall>p \<in> set paths. path_over indexes p \<Longrightarrow> \<forall>c. current = Some c \<longrightarrow> sorted_addrs c \<Longrightarrow>
      \<exists>res. fst (intersection_loop st paths current b) = Ok res \<and> (\<forall>as. res = Some as \<longrightarrow>
        sorted_addrs as \<and> (\<forall>a \<in> rows_in (AIntersection paths). (\<forall>c. current = Some c \<longrightarrow> a \<in> set c) \<longrightarrow> a \<in> set as))"
proof (induction st path b and st paths found b and st paths current b rule: materialize_union_loop_intersection_loop.induct)
  case (1 store b)
  then show ?case by (auto simp: covers_def rows_in_def sorted_addrs_def)
next
  case (2 store scan b)
  then show ?case using materialize_scan_covers [OF cols] by simp
next
  case (3 st paths b)
  then show ?case by (auto simp: covers_def)
next
  case (4 st paths b)
  then show ?case by (auto simp: covers_def)
next
  case (5 st found b)
  then show ?case using sort_dedup_sorted by (auto simp: rows_in_def)
next
  case (6 st path paths found b)
  obtain res b' where m: "materialize st path b = (Ok res, b')" and res: "\<forall>as. res = Some as \<longrightarrow> covers path as"
    using 6(1,3,4) by (cases "materialize st path b") auto
  show ?case
  proof (cases res)
    case (Some as)
    have inner: "\<exists>res. fst (union_loop st paths (found @ as) b') = Ok res \<and> (\<forall>ds. res = Some ds \<longrightarrow>
        sorted_addrs ds \<and> set (found @ as) \<union> rows_in (AUnion paths) \<subseteq> set ds \<and>
        (\<not> has_intersection (AUnion paths) \<longrightarrow> set ds = set (found @ as) \<union> rows_in (AUnion paths)))"
      using 6(2) [OF m [symmetric] refl Some] 6(3,4) by simp
    have rows: "rows_in (AUnion (path # paths)) = rows_in path \<union> rows_in (AUnion paths)" by (auto simp: rows_in_def)
    have cov: "sorted_addrs as" "rows_in path \<subseteq> set as" "\<not> has_intersection path \<longrightarrow> set as = rows_in path"
      using res Some by (auto simp: covers_def)
    obtain ds where ds: "fst (union_loop st paths (found @ as) b') = Ok ds" "\<forall>d. ds = Some d \<longrightarrow>
        sorted_addrs d \<and> set (found @ as) \<union> rows_in (AUnion paths) \<subseteq> set d \<and>
        (\<not> has_intersection (AUnion paths) \<longrightarrow> set d = set (found @ as) \<union> rows_in (AUnion paths))"
      using inner by blast
    show ?thesis
    proof (intro exI conjI allI impI)
      show "fst (union_loop st (path # paths) found b) = Ok ds" using ds(1) m Some by simp
    qed (use ds(2) cov in \<open>auto simp: rows dest: subsetD\<close>)
  qed (use m in auto)
next
  case (7 st current b)
  then show ?case by (auto simp: rows_in_def)
next
  case (8 st path paths current b)
  show ?case
  proof (cases "case current of Some c \<Rightarrow> length c \<le> SMALL_CANDIDATE_SET | None \<Rightarrow> False")
    case True
    then show ?thesis using 8(6) by (auto split: option.splits)
  next
    case False
    obtain res b' where m: "materialize st path b = (Ok res, b')" and res: "\<forall>as. res = Some as \<longrightarrow> covers path as"
      using 8(1) [OF False] 8(4,5) by (cases "materialize st path b") auto
    have rows: "rows_in (AIntersection (path # paths)) \<subseteq> rows_in path" 
      "rows_in (AIntersection (path # paths)) \<subseteq> rows_in (AIntersection paths)"
      by (auto simp: rows_in_def)
    show ?thesis
    proof (cases res)
      case None
      then show ?thesis using 8(2) [OF False m [symmetric] refl None] 8(4,5,6) False m rows(2) by auto blast
    next
      case (Some as)
      let ?cur = "case current of Some c \<Rightarrow> intersect_sorted c as | None \<Rightarrow> as"
      have cov: "sorted_addrs as" "rows_in path \<subseteq> set as" using res Some by (auto simp: covers_def)
      have cur: "sorted_addrs ?cur" "\<forall>a \<in> rows_in path. (\<forall>c. current = Some c \<longrightarrow> a \<in> set c) \<longrightarrow> a \<in> set ?cur"
        using intersect_sorted_correct [OF _ cov(1)] cov 8(6) by (auto split: option.split)
      obtain ds where ds: "fst (intersection_loop st paths (Some ?cur) b') = Ok ds" "\<forall>d. ds = Some d \<longrightarrow>
          sorted_addrs d \<and> (\<forall>a \<in> rows_in (AIntersection paths). a \<in> set ?cur \<longrightarrow> a \<in> set d)"
        using 8(3) [OF False m [symmetric] refl Some] 8(4,5) cur(1) by auto
      show ?thesis
      proof (intro exI conjI allI impI)
        show "fst (intersection_loop st (path # paths) current b) = Ok ds" using ds(1) m Some False by simp
      qed (use ds(2) cur rows in \<open>auto dest: subsetD\<close>)
    qed
  qed
qed

text \<open>Every address read is the address of a row.\<close>

lemma materialize_addresses:
  assumes cols: "\<forall>(a, row) \<in> set tbl. has_columns indexes row"
  shows "st = store \<Longrightarrow> path_over indexes path \<Longrightarrow>
      (\<And>as. fst (materialize st path b) = Ok (Some as) \<Longrightarrow> set as \<subseteq> fst ` set tbl)"
    and "st = store \<Longrightarrow> \<forall>p \<in> set paths. path_over indexes p \<Longrightarrow> set found \<subseteq> fst ` set tbl \<Longrightarrow>
      (\<And>as. fst (union_loop st paths found b) = Ok (Some as) \<Longrightarrow> set as \<subseteq> fst ` set tbl)"
    and "st = store \<Longrightarrow> \<forall>p \<in> set paths. path_over indexes p \<Longrightarrow> (\<And>c. current = Some c \<Longrightarrow> set c \<subseteq> fst ` set tbl) \<Longrightarrow>
      (\<And>as. fst (intersection_loop st paths current b) = Ok (Some as) \<Longrightarrow> set as \<subseteq> fst ` set tbl)"
proof (induction st path b and st paths found b and st paths current b rule: materialize_union_loop_intersection_loop.induct)
  case (2 st scan b)
  then have "covers (AScan scan) as" using materialize_scan_covers [OF cols, of scan b] by auto
  then have "set as = rows_in (AScan scan)" by (simp add: covers_def)
  then show ?case by (force simp: rows_in_def)
next
  case (6 st path paths found b)
  obtain r b' where m: "materialize st path b = (r, b')" by (cases "materialize st path b")
  then obtain bs where bs: "r = Ok (Some bs)" using 6(6) by (cases r) (auto split: option.splits)
  have "set bs \<subseteq> fst ` set tbl" using 6(1) [OF 6(3) _, of bs] 6(4) m bs by simp
  then show ?case using 6(2) [OF m [symmetric] bs refl 6(3), of as] 6(4,5,6) m bs by simp
next
  case (8 st path paths current b)
  show ?case
  proof (cases "case current of Some c \<Rightarrow> length c \<le> SMALL_CANDIDATE_SET | None \<Rightarrow> False")
    case True
    then show ?thesis using 8(6,7) by simp
  next
    case False
    obtain r b' where m: "materialize st path b = (r, b')" by (cases "materialize st path b")
    then consider "r = Ok None" | bs where "r = Ok (Some bs)" using 8(7) False by (cases r) (auto split: option.splits)
    then show ?thesis
    proof cases
      case 1
      then show ?thesis using 8(2) [OF False m [symmetric] 1 refl 8(4), of as] 8(5,6,7) m False by simp
    next
      case (2 bs)
      have "set bs \<subseteq> fst ` set tbl" using 8(1) [OF False 8(4) _, of bs] 8(5) m 2 by simp
      then have "set (case current of Some c \<Rightarrow> intersect_sorted c bs | None \<Rightarrow> bs) \<subseteq> fst ` set tbl"
        using subset_trans [OF intersect_sorted_sub] by (cases current) simp_all
      then show ?thesis using 8(3) [OF False m [symmetric] 2 refl 8(4), of as] 8(5,7) m 2 False by simp
    qed
  qed
qed auto

end

section \<open>Planned paths read declared indexes\<close>

lemma from_scans_over: "path_over indexes (from_scans scans) \<longleftrightarrow> (\<forall>s \<in> set scans. sc_columns s \<in> set indexes)"
  by (auto simp: from_scans_def split: list.split)

lemma index_candidate_over:
  "index \<in> set indexes \<Longrightarrow> index_candidate index i cs columns = Some c \<Longrightarrow> path_over indexes (ca_path c)"
  by (auto simp: index_candidate_def from_scans_over scan_range_def scan_prefix_def split: prod.splits if_splits option.splits)

lemma branch_paths_sub: "branch_paths bs = Some paths \<Longrightarrow> p \<in> set paths \<Longrightarrow> Some p \<in> set bs"
  by (induction bs arbitrary: paths rule: branch_paths.induct) (auto split: if_splits)

lemma or_candidate_over:
  assumes "or_candidate (Some bs) i = Some c" "\<forall>p. Some p \<in> set bs \<longrightarrow> path_over indexes p"
  shows "path_over indexes (ca_path c)"
proof -
  obtain paths where "branch_paths bs = Some paths"
    and c: "ca_path c = (case paths of [] \<Rightarrow> AEmpty | [p] \<Rightarrow> p | _ \<Rightarrow> AUnion paths)"
    using assms(1) by (auto simp: or_candidate_def Let_def bind_eq_Some_conv split: if_splits)
  then have "\<forall>p \<in> set paths. path_over indexes p" using assms(2) branch_paths_sub by blast
  then show ?thesis using c by (auto split: list.splits)
qed

lemma plan_conjunction_over:
  assumes "plan_conjunction cjs ors indexes columns = Some path"
    and "\<And>cs c. c \<in> set (candidates_of cs ors indexes columns) \<Longrightarrow> path_over indexes (ca_path c)"
  shows "path_over indexes path"
proof (cases "path = AEmpty")
  case False
  then obtain cs where cs: "collect_constraints cjs = Some cs"
    using assms(1) by (cases "collect_constraints cjs") (auto simp: plan_conjunction_def)
  let ?cands = "sort_key candidate_key (candidates_of cs ors indexes columns)"
  have "\<not> (\<exists>c \<in> set ?cands. ca_path c = AEmpty)"
    using assms(1) cs False unfolding plan_conjunction_def by (simp add: Let_def split: if_splits)
  note path = plan_conjunction_cases [OF cs assms(1) this]
  have "\<forall>c \<in> set ?cands. path_over indexes (ca_path c)" using assms(2) by simp
  moreover have "\<forall>q \<in> set (merge_members {} ?cands). path_over indexes q"
    using merge_members_sub [of "{}" ?cands] calculation by fastforce
  ultimately show ?thesis using path by (elim disjE) (auto, metis list.set_intros(1))
qed simp

lemma plan_filter_over: "plan_filter indexes columns f = Some path \<Longrightarrow> path_over indexes path"
proof (induction f arbitrary: path rule: measure_induct_rule [of size])
  case (less f)
  let ?ors = "map (\<lambda>c. if is_or c then Some (map (plan_filter indexes columns) (flatten_or c)) else None) (flatten_and f)"
  have plan: "plan_conjunction (flatten_and f) ?ors indexes columns = Some path"
    using less.prems by (simp only: plan_filter.simps [of indexes columns f])
  show ?case
  proof (rule plan_conjunction_over [OF plan])
    fix cs c
    assume "c \<in> set (candidates_of cs ?ors indexes columns)"
    then show "path_over indexes (ca_path c)"
    proof (cases rule: candidates_of_cases)
      case (2 i bs)
      then obtain d where d: "d \<in> set (flatten_and f)" "is_or d" "bs = map (plan_filter indexes columns) (flatten_or d)"
        by (auto split: if_splits)
      have "path_over indexes p" if p: "Some p \<in> set bs" for p
      proof -
        obtain b where b: "b \<in> set (flatten_or d)" "plan_filter indexes columns b = Some p" using d(3) p by auto
        have "size b < size f" using flatten_or_less [OF d(2) b(1)] flatten_and_size [OF d(1)] by simp
        then show ?thesis using less.IH b(2) by blast
      qed
      then show ?thesis using or_candidate_over [OF 2(2)] by blast
    qed (blast intro: index_candidate_over)
  qed
qed

lemma legacy_path_spec:
  assumes "legacy_path plan indexes = Some path"
  shows "path_over indexes path \<and> \<not> has_intersection path"
    and "plan_column plan \<in> set (row_names row) \<Longrightarrow> path_matches_row path row \<longleftrightarrow> plan_holds plan row"
proof -
  have find: "find (\<lambda>columns. columns = [plan_column plan]) indexes = Some [plan_column plan]"
    using assms by (cases "find (\<lambda>columns. columns = [plan_column plan]) indexes") (auto simp: legacy_path_def dest: find_SomeD)
  then have mem: "[plan_column plan] \<in> set indexes" by (auto dest: find_SomeD)
  show "path_over indexes path \<and> \<not> has_intersection path"
    using assms find mem by (cases plan) (auto simp: legacy_path_def scan_prefix_def scan_range_def)
  show "path_matches_row path row \<longleftrightarrow> plan_holds plan row" if col: "plan_column plan \<in> set (row_names row)"
  proof -
    obtain v where "row_get row (plan_column plan) = Some v"
      using col row_get_None_iff [of row] by (cases "row_get row (plan_column plan)") auto
    then show ?thesis using assms find
      by (cases plan) (auto simp: legacy_path_def scan_matches_row_def scan_prefix_def scan_range_def is_exact_def
        scan_value_def bound_of_def split: option.splits)
  qed
qed

lemma plan_access_over:
  assumes "plan_access f indexes columns = Some pa"
  shows "path_over indexes (pa_path pa)" and "is_fallible f \<Longrightarrow> \<not> has_intersection (pa_path pa)"
  using assms legacy_path_spec(1) plan_filter_over
  by (fastforce simp: plan_access_def bind_eq_Some_conv split: if_splits)+

text \<open>The plan selects every matching row, and on its rows the verification has the outcome of the filter.\<close>

lemma plan_access_correct:
  assumes "plan_access f indexes (map fst row) = Some pa" "row_wf row" "has_columns indexes row"
  shows "matches H f row = Ok True \<longrightarrow> path_matches_row (pa_path pa) row"
    and "path_matches_row (pa_path pa) row \<or> \<not> is_fallible f \<longrightarrow> residual H (pa_verify pa) row = matches H f row"
proof -
  have "(matches H f row = Ok True \<longrightarrow> path_matches_row (pa_path pa) row) \<and>
      (path_matches_row (pa_path pa) row \<or> \<not> is_fallible f \<longrightarrow> residual H (pa_verify pa) row = matches H f row)"
  proof (cases "is_fallible f")
    case True
    then obtain a path where a: "analyze_filter f indexes = Some a" "legacy_path (af_plan a) indexes = Some path"
      "pa = \<lparr>pa_path = path, pa_verify = af_remaining a\<rparr>"
      using assms(1) by (auto simp: plan_access_def bind_eq_Some_conv)
    have "[plan_column (af_plan a)] \<in> set indexes"
      using a(2) by (auto simp: legacy_path_def dest: find_SomeD)
    then have col: "plan_column (af_plan a) \<in> set (row_names row)" using assms(3) unfolding has_columns_def by force
    have "analysis_exact H f row a"
      using analyze_inner_exact a(1) assms(2) by (fastforce simp: analyze_filter_def row_wf_def)
    then show ?thesis using legacy_path_spec [OF a(2)] col True a(3)
      by (auto simp: analysis_exact_def split: if_splits)
  next
    case False
    then obtain path where p: "plan_filter indexes (map fst row) f = Some path" "pa = \<lparr>pa_path = path, pa_verify = Some f\<rparr>"
      using assms(1) by (auto simp: plan_access_def)
    then show ?thesis using plan_filter_covers [OF assms(2)] assms(3) by (auto simp: has_columns_def)
  qed
  then show "matches H f row = Ok True \<longrightarrow> path_matches_row (pa_path pa) row"
    "path_matches_row (pa_path pa) row \<or> \<not> is_fallible f \<longrightarrow> residual H (pa_verify pa) row = matches H f row"
    by blast+
qed

section \<open>The budget\<close>

lemma length_sort_dedup: "length (sort_dedup as) \<le> length as"
  using remdups_adj_length [of "sort_key ra_key as"] by (simp add: sort_dedup_def)

lemma length_intersect_sorted: "length (intersect_sorted as bs) \<le> length as"
  by (induction as bs rule: intersect_sorted.induct) (auto split: ordering.split)

lemma materialize_scan_budget:
  "materialize_scan store scan b = (r, b') \<Longrightarrow> bu_remaining b' \<le> bu_remaining b \<and>
     (\<forall>as. r = Ok (Some as) \<longrightarrow> sorted_addrs as \<and> length as + bu_remaining b' \<le> bu_remaining b \<and> length as \<le> bu_per_scan b)"
proof (cases "addresses store scan (min (bu_per_scan b) (bu_remaining b))")
  case (Ok res)
  assume run: "materialize_scan store scan b = (r, b')"
  show ?thesis
  proof (cases res)
    case (Some as)
    have "length as \<le> min (bu_per_scan b) (bu_remaining b)"
      using Ok Some by (cases "index_of store (sc_columns scan)") (auto simp: addresses_def Let_def split: if_splits)
    moreover have "length (sort_dedup as) \<le> length as" by (rule length_sort_dedup)
    moreover have "r = Ok (Some (sort_dedup as))" "bu_remaining b' = bu_remaining b - length as"
      using run Ok Some by (auto simp: materialize_scan_def)
    ultimately show ?thesis using sort_dedup_sorted [of as] by auto
  qed (use run Ok in \<open>auto simp: materialize_scan_def Let_def\<close>)
qed (auto simp: materialize_scan_def Let_def)

lemma materialize_budget:
  shows "materialize store path b = (r, b') \<Longrightarrow> bu_remaining b' \<le> bu_remaining b \<and>
      (\<forall>as. r = Ok (Some as) \<longrightarrow> sorted_addrs as \<and> length as + bu_remaining b' \<le> bu_remaining b)"
    and "union_loop store paths found b = (r, b') \<Longrightarrow> bu_remaining b' \<le> bu_remaining b \<and>
      (\<forall>as. r = Ok (Some as) \<longrightarrow> sorted_addrs as \<and> length as + bu_remaining b' \<le> length found + bu_remaining b)"
    and "intersection_loop store paths current b = (r, b') \<Longrightarrow> (\<forall>c. current = Some c \<longrightarrow> sorted_addrs c) \<Longrightarrow> bu_remaining b' \<le> bu_remaining b \<and>
      (\<forall>as. r = Ok (Some as) \<longrightarrow> sorted_addrs as \<and>
         length as + bu_remaining b' \<le> (case current of None \<Rightarrow> 0 | Some c \<Rightarrow> length c) + bu_remaining b)"
proof (induction store path b and store paths found b and store paths current b arbitrary: r b' and r b' and r b'
    rule: materialize_union_loop_intersection_loop.induct)
  case (2 store scan b)
  then show ?case using materialize_scan_budget [of store scan b r b'] by auto
next
  case (5 store found b)
  then show ?case using sort_dedup_sorted length_sort_dedup [of found] by auto
next
  case (6 store path paths found b)
  then show ?case by (fastforce split: prod.splits outcome.splits option.splits)
next
  case (8 store path paths current b)
  show ?case
  proof (cases "case current of Some cur \<Rightarrow> length cur \<le> SMALL_CANDIDATE_SET | None \<Rightarrow> False")
    case True
    then show ?thesis using "8.prems" by (auto split: option.splits)
  next
    case False
    obtain r1 b1 where m: "materialize store path b = (r1, b1)" by (cases "materialize store path b")
    note one = "8.IH"(1) [OF False m]
    show ?thesis
    proof (cases r1)
      case (Ok res)
      show ?thesis
      proof (cases res)
        case None
        then show ?thesis using "8.prems" "8.IH"(2) [OF False m [symmetric]] one False m Ok by (fastforce split: option.splits)
      next
        case (Some as)
        let ?cur = "case current of Some cur \<Rightarrow> intersect_sorted cur as | None \<Rightarrow> as"
        have s: "sorted_addrs as" "length as + bu_remaining b1 \<le> bu_remaining b" "bu_remaining b1 \<le> bu_remaining b" using one Ok Some by auto
        have "sorted_addrs ?cur" using s(1) "8.prems"(2) intersect_sorted_correct by (auto split: option.split)
        moreover have "length ?cur + bu_remaining b1 \<le> (case current of None \<Rightarrow> 0 | Some c \<Rightarrow> length c) + bu_remaining b"
          using s(2,3) add_mono [OF length_intersect_sorted s(3)] by (auto split: option.split)
        moreover have "intersection_loop store paths (Some ?cur) b1 = (r, b')" using "8.prems"(1) False m Ok Some by simp
        ultimately show ?thesis using "8.IH"(3) [OF False m [symmetric] Ok Some] s(3) by fastforce
      qed
    next
      case (Err e)
      then show ?thesis using "8.prems"(1) False m one by auto
    next
      case Panic
      then show ?thesis using "8.prems"(1) False m one by auto
    qed
  qed
qed (auto simp: sorted_addrs_def)

text \<open>Under the default budget a path gives at most 16384 candidate addresses, in order and each once, and a
  path of one range at most 4096.\<close>

theorem materialize_candidates_bounded:
  assumes "materialize store path default_limits = (Ok (Some as), b)"
  shows "sorted (map ra_key as) \<and> distinct as \<and> length as \<le> 16384 \<and> (\<forall>scan. path = AScan scan \<longrightarrow> length as \<le> 4096)"
  using materialize_budget(1) [OF assms] materialize_scan_budget [of store _ default_limits "Ok (Some as)" b] assms
  by (auto simp: default_limits_def budget_new_def TOTAL_BUDGET_def SCAN_BUDGET_def sorted_addrs_def)

section \<open>Selecting through an index\<close>

text \<open>Building the indexes of a table from its rows, one entry at a time.\<close>

definition insert_entry :: "'d :: linorder dbms_value list \<Rightarrow> record_address \<Rightarrow> 'd index_entries \<Rightarrow> 'd index_entries" where
  "insert_entry key address es = insort_key fst (key, address) es"

definition build_index :: "string list \<Rightarrow> (record_address \<times> 'd :: linorder row) list \<Rightarrow> 'd index_entries" where
  "build_index columns tbl = foldr (\<lambda>(a, row). insert_entry (index_key columns row) a) tbl []"

definition build_store :: "index_def list \<Rightarrow> (record_address \<times> 'd :: linorder row) list \<Rightarrow> 'd index_store" where
  "build_store indexes tbl columns = (if columns \<in> set indexes then Some (build_index columns tbl) else None)"

lemma build_index_for: "index_for columns tbl (build_index columns tbl)"
proof (induction tbl)
  case (Cons x tbl)
  obtain a row where x: "x = (a, row)" by (cases x)
  have step: "build_index columns (x # tbl) = insert_entry (index_key columns row) a (build_index columns tbl)"
    by (simp add: build_index_def x)
  show ?case using Cons unfolding step index_for_def by (simp add: insert_entry_def sorted_insort_key x)
qed (simp add: build_index_def index_for_def)

interpretation built: indexed_table "build_store indexes tbl" tbl indexes for indexes tbl
  by unfold_locales (auto simp: build_store_def build_index_for)

definition table_ok :: "'d column_def list \<Rightarrow> index_def list \<Rightarrow> (record_address \<times> 'd row) list \<Rightarrow> bool" where
  "table_ok columns indexes tbl \<longleftrightarrow> distinct (map fst tbl) \<and>
     (\<forall>(a, row) \<in> set tbl. row_wf row \<and> map fst row = columns \<and> has_columns indexes row)"

lemma planned_rows:
  assumes "indexed_table store tbl indexes" and "table_ok columns indexes tbl"
    and "plan_access f indexes columns = Some pa"
  shows "\<exists>res. fst (materialize store (pa_path pa) b) = Ok res \<and> (\<forall>as. res = Some as \<longrightarrow>
      sorted (map ra_key as) \<and> distinct as \<and>
      (\<forall>(a, row) \<in> set tbl. a \<in> set as \<longrightarrow> residual H (pa_verify pa) row = matches H f row) \<and>
      filter (\<lambda>(a, row). a \<in> set as \<and> residual H (pa_verify pa) row = Ok True) tbl =
      filter (\<lambda>(a, row). matches H f row = Ok True) tbl)"
proof -
  have cols: "\<forall>(a, row) \<in> set tbl. has_columns indexes row" using assms(2) by (auto simp: table_ok_def)
  have plan: "plan_access f indexes (map fst row) = Some pa \<and> row_wf row \<and> has_columns indexes row" if "(a, row) \<in> set tbl" for a row
    using that assms(2,3) by (auto simp: table_ok_def)
  obtain res where res: "fst (materialize store (pa_path pa) b) = Ok res"
    and cov: "\<forall>as. res = Some as \<longrightarrow> indexed_table.covers tbl (pa_path pa) as"
    using indexed_table.materialize_covers_loops(1) [OF assms(1) cols refl plan_access_over(1) [OF assms(3)]] by blast
  have "(\<forall>(a, row) \<in> set tbl. a \<in> set as \<longrightarrow> residual H (pa_verify pa) row = matches H f row) \<and>
      (\<forall>(a, row) \<in> set tbl. matches H f row = Ok True \<longrightarrow> a \<in> set as)" if as: "res = Some as" for as
  proof -
    have c: "indexed_table.covers tbl (pa_path pa) as" using cov as by blast
    have sup: "a \<in> set as" if "(a, row) \<in> set tbl" "path_matches_row (pa_path pa) row" for a row
      using c that by (auto simp: indexed_table.covers_def [OF assms(1)] indexed_table.rows_in_def [OF assms(1)])
    have sub: "path_matches_row (pa_path pa) row" if a: "(a, row) \<in> set tbl" "a \<in> set as" "is_fallible f" for a row
    proof -
      obtain row' where "(a, row') \<in> set tbl" "path_matches_row (pa_path pa) row'"
        using c a plan_access_over(2) [OF assms(3) a(3)]
        by (auto simp: indexed_table.covers_def [OF assms(1)] indexed_table.rows_in_def [OF assms(1)])
      moreover have "row' = row" using calculation(1) a(1) assms(2) by (auto simp: table_ok_def dest: eq_key_imp_eq_value)
      ultimately show ?thesis by simp
    qed
    show ?thesis using plan_access_correct plan sup sub by fast
  qed
  moreover have "sorted_addrs as" if "res = Some as" for as
    using cov that by (auto simp: indexed_table.covers_def [OF assms(1)])
  ultimately show ?thesis using res by (intro exI [of _ res]) (fastforce simp: sorted_addrs_def intro!: filter_cong)
qed

text \<open>C20: on a table whose indexes hold one entry per row, reading the planned access path never fails, and
  when it stays within the budget, keeping the rows whose address was read and on which the verification
  filter holds gives exactly the rows of a full scan that match the filter, in both planners; on every
  row read, the verification filter has the outcome of the whole filter, so no error is hidden or made up.\<close>

theorem indexed_select_is_full_scan:
  assumes "indexed_table store tbl indexes" and "table_ok columns indexes tbl"
    and "plan_access f indexes columns = Some pa"
  shows "\<exists>res. fst (materialize store (pa_path pa) b) = Ok res \<and> (\<forall>as. res = Some as \<longrightarrow>
      sorted (map ra_key as) \<and> distinct as \<and>
      (\<forall>(a, row) \<in> set tbl. a \<in> set as \<longrightarrow> residual H (pa_verify pa) row = matches H f row) \<and>
      filter (\<lambda>(a, row). a \<in> set as \<and> residual H (pa_verify pa) row = Ok True) tbl =
      filter (\<lambda>(a, row). matches H f row = Ok True) tbl)"
  using assms by (rule planned_rows)

definition sample_table :: "(record_address \<times> int row) list" where
  "sample_table =
     [(\<lparr>ra_page = 3, ra_offset = 0\<rparr>, [(sample_column ''id'' KUint32, Uint32 7), (sample_column ''age'' KInt32, Int32 20)]),
      (\<lparr>ra_page = 3, ra_offset = 32\<rparr>, [(sample_column ''id'' KUint32, Uint32 8), (sample_column ''age'' KInt32, Int32 15)])]"

theorem indexed_select_is_full_scan_witness:
  "\<exists>res. fst (materialize (build_store [[''id''], [''age'']] sample_table) sample_path default_limits) = Ok res \<and>
     (\<forall>as. res = Some as \<longrightarrow> sorted (map ra_key as) \<and> distinct as \<and>
      (\<forall>(a, row) \<in> set sample_table. a \<in> set as \<longrightarrow>
         residual sample_host (Some sample_filter) row = matches sample_host sample_filter row) \<and>
      filter (\<lambda>(a, row). a \<in> set as \<and> residual sample_host (Some sample_filter) row = Ok True) sample_table =
      filter (\<lambda>(a, row). matches sample_host sample_filter row = Ok True) sample_table)"
proof -
  have "plan_access sample_filter [[''id''], [''age'']] (map fst sample_row) = Some \<lparr>pa_path = sample_path, pa_verify = Some sample_filter\<rparr>"
    using sample_plan by (simp add: plan_access_def sample_filter_def)
  moreover have "table_ok (map fst sample_row) [[''id''], [''age'']] sample_table"
    by (simp add: table_ok_def sample_table_def sample_row_def row_wf_def has_columns_def row_names_def sample_column_def)
  ultimately show ?thesis
    using indexed_select_is_full_scan [OF built.indexed_table_axioms, of _ "[[''id''], [''age'']]" sample_table
      sample_filter _ default_limits sample_host] by fastforce
qed

lemma length_build_index [simp]: "length (build_index columns tbl) = length tbl"
  by (induction tbl) (auto simp: build_index_def insert_entry_def)

theorem materialize_candidates_bounded_witness:
  "\<exists>as b. materialize (build_store [[''id''], [''age'']] sample_table) (AScan (scan_prefix [''age''] [Int32 15])) default_limits = (Ok (Some as), b) \<and>
     sorted (map ra_key as) \<and> distinct as \<and> length as \<le> 4096"
proof -
  let ?store = "build_store [[''id''], [''age'']] sample_table" and ?scan = "scan_prefix [''age''] [Int32 15]"
  have "?store [''age''] = Some (build_index [''age''] sample_table)" by (simp add: build_store_def)
  moreover have "length (scan_entries ?scan (build_index [''age''] sample_table)) \<le> length sample_table"
    using length_filter_le [of "\<lambda>(k, _). k = [Int32 15]" "build_index [''age''] sample_table"]
    by (simp add: scan_entries_def is_exact_def scan_prefix_def scan_range_def exact_addresses_def)
  ultimately obtain as b where m: "materialize ?store (AScan ?scan) default_limits = (Ok (Some as), b)"
    by (simp add: materialize_scan_def addresses_def index_of_def scan_prefix_def scan_range_def default_limits_def budget_new_def SCAN_BUDGET_def TOTAL_BUDGET_def sample_table_def)
  then show ?thesis using materialize_candidates_bounded [OF m] by blast
qed

end
