(* ===== verification/Overlay.thy ===== *)
theory Overlay
  imports Query_Filter
begin

text \<open>
  \<^verbatim>\<open>wasm-dbms/src/transaction/overlay.rs\<close>, \<^verbatim>\<open>overlay/table.rs\<close>, \<^verbatim>\<open>overlay/table/index.rs\<close> and \<^verbatim>\<open>overlay/reader.rs\<close>:
  the uncommitted changes of a transaction and the reader that merges them with the stored rows. Main
  result: the merged rows are those of executing the operations one after the other.
\<close>

section \<open>Operations on a table\<close>

datatype 'd operation =
    OInsert "'d dbms_value" "'d row"
  | OUpdate "'d dbms_value" "(string \<times> 'd dbms_value) list"
  | ODelete "'d dbms_value"

primrec primary_key_value :: "'d operation \<Rightarrow> 'd dbms_value" where
  "primary_key_value (OInsert pk _) = pk"
| "primary_key_value (OUpdate pk _) = pk"
| "primary_key_value (ODelete pk) = pk"

definition row_pk :: "'d row \<Rightarrow> 'd dbms_value option" where
  "row_pk row = map_option snd (find (\<lambda>(c, v). cd_primary_key c) row)"

fun set_column :: "string \<Rightarrow> 'd dbms_value \<Rightarrow> 'd row \<Rightarrow> 'd row" where
  "set_column name v [] = []"
| "set_column name v ((c, x) # row) = (if cd_name c = name then (c, v) # row else (c, x) # set_column name v row)"

definition apply_update :: "'d row \<Rightarrow> (string \<times> 'd dbms_value) list \<Rightarrow> 'd row" where
  "apply_update row updates = fold (\<lambda>(name, v) row. set_column name v row) updates row"

text \<open>The loop of \<^verbatim>\<open>replay\<close>, with the primary key it follows.\<close>

fun replay_from :: "'d dbms_value \<Rightarrow> 'd row \<Rightarrow> 'd operation list \<Rightarrow> 'd row option" where
  "replay_from pk row [] = Some row"
| "replay_from pk row (op # ops) =
     (if primary_key_value op \<noteq> pk then replay_from pk row ops
      else case op of
          OUpdate _ updates \<Rightarrow>
            (let row' = apply_update row updates;
                 pk' = (case find (\<lambda>(name, _). list_ex (\<lambda>(c, _). cd_primary_key c \<and> cd_name c = name) row') updates of
                          Some (_, v) \<Rightarrow> v | None \<Rightarrow> pk)
             in replay_from pk' row' ops)
        | _ \<Rightarrow> None)"

definition replay_row :: "'d row \<Rightarrow> 'd operation list \<Rightarrow> 'd row option" where
  "replay_row row ops = Option.bind (row_pk row) (\<lambda>pk. replay_from pk row ops)"

fun inserted_rows :: "'d operation list \<Rightarrow> 'd row list" where
  "inserted_rows [] = []"
| "inserted_rows (op # ops) =
     (case op of
        OInsert _ rec \<Rightarrow> (case replay_row rec ops of Some row \<Rightarrow> row # inserted_rows ops | None \<Rightarrow> inserted_rows ops)
      | _ \<Rightarrow> inserted_rows ops)"

section \<open>The index overlay\<close>

text \<open>
  The maps from key values to sets of primary keys; a missing entry is the empty set, which no
  operation below tells apart from an entry with an empty set. The range lookups
  (\<^verbatim>\<open>added_pks_in_range\<close>, \<^verbatim>\<open>removed_pks_in_range\<close>), which nothing calls, are left out.
\<close>

record 'd index_column_overlay =
  io_added :: "'d dbms_value list \<Rightarrow> 'd dbms_value set"
  io_removed :: "'d dbms_value list \<Rightarrow> 'd dbms_value set"

definition io_empty :: "'d index_column_overlay" where
  "io_empty = \<lparr>io_added = (\<lambda>_. {}), io_removed = (\<lambda>_. {})\<rparr>"

definition io_insert :: "'d dbms_value list \<Rightarrow> 'd dbms_value \<Rightarrow> 'd index_column_overlay \<Rightarrow> 'd index_column_overlay" where
  "io_insert values pk co =
     co\<lparr>io_removed := (io_removed co)(values := io_removed co values - {pk}),
       io_added := (io_added co)(values := insert pk (io_added co values))\<rparr>"

definition io_delete :: "'d dbms_value list \<Rightarrow> 'd dbms_value \<Rightarrow> 'd index_column_overlay \<Rightarrow> 'd index_column_overlay" where
  "io_delete values pk co =
     (if pk \<in> io_added co values then co\<lparr>io_added := (io_added co)(values := io_added co values - {pk})\<rparr>
      else co\<lparr>io_removed := (io_removed co)(values := insert pk (io_removed co values))\<rparr>)"

type_synonym 'd index_overlay = "string list \<Rightarrow> 'd index_column_overlay"

definition ix_insert :: "string list \<Rightarrow> 'd dbms_value list \<Rightarrow> 'd dbms_value \<Rightarrow> 'd index_overlay \<Rightarrow> 'd index_overlay" where
  "ix_insert columns values pk ix = ix(columns := io_insert values pk (ix columns))"

definition ix_delete :: "string list \<Rightarrow> 'd dbms_value list \<Rightarrow> 'd dbms_value \<Rightarrow> 'd index_overlay \<Rightarrow> 'd index_overlay" where
  "ix_delete columns values pk ix = ix(columns := io_delete values pk (ix columns))"

definition ix_update :: "string list \<Rightarrow> 'd dbms_value list \<Rightarrow> 'd dbms_value list \<Rightarrow> 'd dbms_value \<Rightarrow> 'd index_overlay \<Rightarrow> 'd index_overlay" where
  "ix_update columns old new pk ix = ix(columns := io_insert new pk (io_delete old pk (ix columns)))"

definition added_pks :: "'d index_overlay \<Rightarrow> string list \<Rightarrow> 'd dbms_value list \<Rightarrow> 'd dbms_value set" where
  "added_pks ix columns values = io_added (ix columns) values"

definition removed_pks :: "'d index_overlay \<Rightarrow> string list \<Rightarrow> 'd dbms_value list \<Rightarrow> 'd dbms_value set" where
  "removed_pks ix columns values = io_removed (ix columns) values"

section \<open>The table overlay\<close>

record 'd table_overlay =
  to_operations :: "'d operation list"
  to_index_overlay :: "'d index_overlay"
  to_indexes :: "index_def list"

definition to_new :: "index_def list \<Rightarrow> 'd table_overlay" where
  "to_new indexes = \<lparr>to_operations = [], to_index_overlay = (\<lambda>_. io_empty), to_indexes = indexes\<rparr>"

definition extract_indexed_values :: "string list \<Rightarrow> 'd row \<Rightarrow> 'd dbms_value list" where
  "extract_indexed_values columns row = map (\<lambda>c. case row_get row c of Some v \<Rightarrow> v | None \<Rightarrow> Null) columns"

definition compute_updated_indexed_values ::
  "string list \<Rightarrow> 'd row \<Rightarrow> (string \<times> 'd dbms_value) list \<Rightarrow> 'd dbms_value list" where
  "compute_updated_indexed_values columns row updates =
     map (\<lambda>c. case map_of updates c of
        Some v \<Rightarrow> v
      | None \<Rightarrow> (case row_get row c of Some v \<Rightarrow> v | None \<Rightarrow> Null)) columns"

definition to_insert :: "'d dbms_value \<Rightarrow> 'd row \<Rightarrow> 'd table_overlay \<Rightarrow> 'd table_overlay" where
  "to_insert pk rec ov =
     ov\<lparr>to_index_overlay := fold (\<lambda>columns. ix_insert columns (extract_indexed_values columns rec) pk)
          (to_indexes ov) (to_index_overlay ov),
        to_operations := to_operations ov @ [OInsert pk rec]\<rparr>"

definition to_update :: "'d dbms_value \<Rightarrow> (string \<times> 'd dbms_value) list \<Rightarrow> 'd row \<Rightarrow> 'd table_overlay \<Rightarrow> 'd table_overlay" where
  "to_update pk updates current_row ov =
     ov\<lparr>to_index_overlay := fold (\<lambda>columns ix.
          if list_ex (\<lambda>c. list_ex (\<lambda>(name, _). name = c) updates) columns
          then ix_update columns (extract_indexed_values columns current_row)
            (compute_updated_indexed_values columns current_row updates) pk ix
          else ix) (to_indexes ov) (to_index_overlay ov),
        to_operations := to_operations ov @ [OUpdate pk updates]\<rparr>"

definition to_delete :: "'d dbms_value \<Rightarrow> 'd row \<Rightarrow> 'd table_overlay \<Rightarrow> 'd table_overlay" where
  "to_delete pk current_row ov =
     ov\<lparr>to_index_overlay := fold (\<lambda>columns. ix_delete columns (extract_indexed_values columns current_row) pk)
          (to_indexes ov) (to_index_overlay ov),
        to_operations := to_operations ov @ [ODelete pk]\<rparr>"

definition iter_inserted :: "'d table_overlay \<Rightarrow> 'd row list" where
  "iter_inserted ov = inserted_rows (to_operations ov)"

definition patch_row :: "'d table_overlay \<Rightarrow> 'd row \<Rightarrow> 'd row option" where
  "patch_row ov row = replay_row row (to_operations ov)"

definition updated_pks :: "'d table_overlay \<Rightarrow> string set \<Rightarrow> 'd dbms_value list" where
  "updated_pks ov columns =
     rev (remdups (rev (List.map_filter (\<lambda>op.
       case op of
         OUpdate pk updates \<Rightarrow> if list_ex (\<lambda>(c, _). c \<in> columns) updates then Some pk else None
       | _ \<Rightarrow> None) (to_operations ov))))"

section \<open>The database overlay\<close>

text \<open>What the overlay uses of a table schema.\<close>

record 'd table_info =
  ti_name :: string
  ti_primary_key :: string
  ti_indexes :: "index_def list"
  ti_columns :: "'d column_def list"

type_synonym 'd database_overlay = "string \<rightharpoonup> 'd table_overlay"

text \<open>\<^verbatim>\<open>tables.entry(name).or_insert_with(..)\<close>\<close>

definition overlay_of :: "'d table_info \<Rightarrow> 'd database_overlay \<Rightarrow> 'd table_overlay" where
  "overlay_of T db = (case db (ti_name T) of Some ov \<Rightarrow> ov | None \<Rightarrow> to_new (ti_indexes T))"

definition overlay_primary_key :: "string \<Rightarrow> 'd row \<Rightarrow> ('d dbms_value, 'd) query_result" where
  "overlay_primary_key pk values =
     (case row_get values pk of Some v \<Rightarrow> Ok v | None \<Rightarrow> Err (MissingNonNullableField pk))"

definition overlay_insert :: "'d table_info \<Rightarrow> 'd row \<Rightarrow> ('d database_overlay, unit, 'd query_error) prog" where
  "overlay_insert T values db =
     (case overlay_primary_key (ti_primary_key T) values of
        Ok pk \<Rightarrow> (Ok (), db(ti_name T \<mapsto> to_insert pk values (overlay_of T db)))
      | Err e \<Rightarrow> (Err e, db)
      | Panic \<Rightarrow> (Panic, db))"

definition overlay_update ::
  "'d table_info \<Rightarrow> 'd dbms_value \<Rightarrow> (string \<times> 'd dbms_value) list \<Rightarrow> 'd row \<Rightarrow> 'd database_overlay \<Rightarrow> 'd database_overlay" where
  "overlay_update T pk updates current_row db = db(ti_name T \<mapsto> to_update pk updates current_row (overlay_of T db))"

definition overlay_delete :: "'d table_info \<Rightarrow> 'd dbms_value \<Rightarrow> 'd row \<Rightarrow> 'd database_overlay \<Rightarrow> 'd database_overlay" where
  "overlay_delete T pk current_row db = db(ti_name T \<mapsto> to_delete pk current_row (overlay_of T db))"

section \<open>The overlay reader\<close>

text \<open>\<open>or_base\<close> holds the rows the table reader has not returned yet.\<close>

record 'd overlay_reader =
  or_inserted :: "'d row list"
  or_cursor :: nat
  or_overlay :: "'d table_overlay"
  or_base :: "'d row list"

definition or_new :: "'d table_overlay \<Rightarrow> 'd row list \<Rightarrow> 'd overlay_reader" where
  "or_new ov base = \<lparr>or_inserted = iter_inserted ov, or_cursor = 0, or_overlay = ov, or_base = base\<rparr>"

fun next_base_row :: "'d table_overlay \<Rightarrow> 'd row list \<Rightarrow> 'd row option \<times> 'd row list" where
  "next_base_row ov [] = (None, [])"
| "next_base_row ov (row # base) =
     (case patch_row ov row of Some patched \<Rightarrow> (Some patched, base) | None \<Rightarrow> next_base_row ov base)"

definition next_overlay_row :: "'d overlay_reader \<Rightarrow> 'd row option \<times> 'd overlay_reader" where
  "next_overlay_row r =
     (if or_cursor r < length (or_inserted r) then (Some (or_inserted r ! or_cursor r), r\<lparr>or_cursor := or_cursor r + 1\<rparr>)
      else (None, r))"

definition or_try_next :: "'d overlay_reader \<Rightarrow> 'd row option \<times> 'd overlay_reader" where
  "or_try_next r =
     (case next_base_row (or_overlay r) (or_base r) of
        (Some row, base) \<Rightarrow> (Some row, r\<lparr>or_base := base\<rparr>)
      | (None, base) \<Rightarrow> next_overlay_row (r\<lparr>or_base := base\<rparr>))"

definition overlay_rd :: "'d table_info \<Rightarrow> 'd row list \<Rightarrow> 'd database_overlay \<Rightarrow> 'd overlay_reader \<times> 'd database_overlay" where
  "overlay_rd T base db = (or_new (overlay_of T db) base, db(ti_name T \<mapsto> overlay_of T db))"

text \<open>The loop \<^verbatim>\<open>while let Some(row) = reader.try_next()?\<close> of the callers, at most \<open>n\<close> times.\<close>

fun or_rows :: "nat \<Rightarrow> 'd overlay_reader \<Rightarrow> 'd row list option" where
  "or_rows 0 r = None"
| "or_rows (Suc n) r =
     (case or_try_next r of
        (None, _) \<Rightarrow> Some []
      | (Some row, r') \<Rightarrow> map_option ((#) row) (or_rows n r'))"

section \<open>Sequential execution\<close>

text \<open>What one operation does to one row, and to a table of rows.\<close>

definition step_row :: "'d operation \<Rightarrow> 'd row \<Rightarrow> 'd row option" where
  "step_row op row =
     (if row_pk row \<noteq> Some (primary_key_value op) then Some row
      else case op of OUpdate _ updates \<Rightarrow> Some (apply_update row updates) | _ \<Rightarrow> None)"

definition exec_op :: "'d operation \<Rightarrow> 'd row list \<Rightarrow> 'd row list" where
  "exec_op op rows = List.map_filter (step_row op) rows @ (case op of OInsert _ rec \<Rightarrow> [rec] | _ \<Rightarrow> [])"

text \<open>Rows with distinct column names and one primary-key column; updates name each column once.\<close>

definition keyed_row :: "'d row \<Rightarrow> bool" where
  "keyed_row row \<longleftrightarrow> distinct (row_names row) \<and> (\<exists>c v. filter (\<lambda>(c, v). cd_primary_key c) row = [(c, v)])"

primrec op_ok :: "'d operation \<Rightarrow> bool" where
  "op_ok (OInsert pk rec) \<longleftrightarrow> keyed_row rec \<and> row_pk rec = Some pk"
| "op_ok (OUpdate pk updates) \<longleftrightarrow> distinct (map fst updates)"
| "op_ok (ODelete pk) \<longleftrightarrow> True"

lemma map_fst_set_column [simp]: "map fst (set_column name v row) = map fst row"
  by (induction name v row rule: set_column.induct) auto

lemma map_fst_apply_update [simp]: "map fst (apply_update row updates) = map fst row"
  unfolding apply_update_def by (induction updates arbitrary: row) auto

lemma row_names_fst: "row_names row = map cd_name (map fst row)"
  by (simp add: row_names_def comp_def split_beta)

lemma row_names_apply_update [simp]: "row_names (apply_update row updates) = row_names row"
  by (simp only: row_names_fst map_fst_apply_update)

lemma row_get_set_column: "row_get (set_column name v row) c = (if c = name \<and> name \<in> set (row_names row) then Some v else row_get row c)"
  by (induction name v row rule: set_column.induct) (auto simp: row_names_def)

lemma row_get_apply_update:
  "distinct (map fst updates) \<Longrightarrow> row_get (apply_update row updates) c =
     (case map_of updates c of Some v \<Rightarrow> if c \<in> set (row_names row) then Some v else row_get row c | None \<Rightarrow> row_get row c)"
proof (induction updates arbitrary: row)
  case (Cons x updates)
  obtain name v where x: "x = (name, v)" by (cases x)
  have step: "apply_update row (x # updates) = apply_update (set_column name v row) updates"
    by (simp add: apply_update_def x)
  have "map_of updates name = None" using Cons.prems x by (auto simp: map_of_eq_None_iff)
  moreover have "row_names (set_column name v row) = row_names row" by (simp add: row_names_fst)
  ultimately show ?case unfolding step using Cons by (auto simp: x row_get_set_column split: option.split)
qed (simp add: apply_update_def)

text \<open>The primary key of a row is its value in the primary-key column.\<close>

lemma keyed_row_pk:
  assumes "keyed_row row"
  obtains c where "c \<in> set (map fst row)" "cd_primary_key c" "row_pk row = row_get row (cd_name c)"
    "row_pk row \<noteq> None" "\<And>d. d \<in> set (map fst row) \<Longrightarrow> cd_primary_key d \<Longrightarrow> d = c"
proof -
  obtain c v where f: "filter (\<lambda>(c, v). cd_primary_key c) row = [(c, v)]" and d: "distinct (row_names row)"
    using assms by (auto simp: keyed_row_def)
  have "(c, v) \<in> set (filter (\<lambda>(c, v). cd_primary_key c) row)" unfolding f by simp
  then have mem: "(c, v) \<in> set row" "cd_primary_key c" by simp_all
  have only: "d = c \<and> w = v" if "(d, w) \<in> set row" "cd_primary_key d" for d w
  proof -
    have "(d, w) \<in> set (filter (\<lambda>(c, v). cd_primary_key c) row)" using that by simp
    then show ?thesis unfolding f by simp
  qed
  have "find (\<lambda>(c, v). cd_primary_key c) row = Some (c, v)"
  proof (cases "find (\<lambda>(c, v). cd_primary_key c) row")
    case None
    then show ?thesis using mem by (auto simp: find_None_iff)
  next
    case (Some x)
    obtain d w where x: "x = (d, w)" by (cases x)
    then have "(d, w) \<in> set row" "cd_primary_key d" using find_SomeD [OF Some] by simp_all
    then have "d = c \<and> w = v" by (rule only)
    then show ?thesis using Some x by simp
  qed
  then have pk: "row_pk row = Some v" by (simp add: row_pk_def)
  show thesis
  proof (rule that [of c])
    show "c \<in> set (map fst row)" using mem(1) by force
    show "row_pk row = row_get row (cd_name c)" using pk row_get_distinct [OF d mem(1)] by simp
    show "d = c" if "d \<in> set (map fst row)" "cd_primary_key d" for d
    proof -
      obtain w where "(d, w) \<in> set row" using \<open>d \<in> set (map fst row)\<close> by auto
      then show ?thesis using only that(2) by blast
    qed
  qed (simp_all add: mem pk)
qed

lemma keyed_row_fst: "map fst row = map fst row' \<Longrightarrow> keyed_row row \<Longrightarrow> keyed_row row'"
proof -
  assume f: "map fst row = map fst row'" and k: "keyed_row row"
  have m: "map fst (filter (\<lambda>(c, v). cd_primary_key c) r) = filter cd_primary_key (map fst r)" for r :: "'a row"
    by (induction r) auto
  have "length (filter (\<lambda>(c, v). cd_primary_key c) r) = length (filter cd_primary_key (map fst r))" for r :: "'a row"
    by (simp flip: m)
  then have "length (filter (\<lambda>(c, v). cd_primary_key c) row') = 1"
    using k f by (metis keyed_row_def length_Cons list.size(3) One_nat_def)
  moreover have "distinct (row_names row')" using k f by (simp add: keyed_row_def row_names_fst)
  ultimately show ?thesis by (auto simp: keyed_row_def length_Suc_conv)
qed

lemma keyed_apply_update: "keyed_row row \<Longrightarrow> keyed_row (apply_update row updates)"
  by (rule keyed_row_fst [of row]) simp_all

text \<open>The key the replay follows is the key of the row it has reached.\<close>

lemma tracked_key:
  assumes "keyed_row row" "row_pk row = Some pk" "distinct (map fst updates)"
  shows "row_pk (apply_update row updates) =
    Some (case find (\<lambda>(name, _). list_ex (\<lambda>(c, _). cd_primary_key c \<and> cd_name c = name) (apply_update row updates)) updates of
            Some (_, v) \<Rightarrow> v | None \<Rightarrow> pk)"
proof -
  let ?row = "apply_update row updates"
  obtain c where c: "c \<in> set (map fst ?row)" "cd_primary_key c" "row_pk ?row = row_get ?row (cd_name c)"
    "\<And>d. d \<in> set (map fst ?row) \<Longrightarrow> cd_primary_key d \<Longrightarrow> d = c"
    by (rule keyed_row_pk [OF keyed_apply_update [OF assms(1), of updates]]) blast
  have old: "row_get row (cd_name c) = Some pk"
  proof (rule keyed_row_pk [OF assms(1)])
    fix d assume "d \<in> set (map fst row)" "cd_primary_key d" "row_pk row = row_get row (cd_name d)"
    then show ?thesis using c(4) [of d] assms(2) by simp
  qed
  have names: "list_ex (\<lambda>(d, _). cd_primary_key d \<and> cd_name d = name) ?row \<longleftrightarrow> name = cd_name c" for name
  proof -
    have "list_ex (\<lambda>(d, _). cd_primary_key d \<and> cd_name d = name) ?row \<longleftrightarrow>
        (\<exists>d \<in> set (map fst ?row). cd_primary_key d \<and> cd_name d = name)"
      unfolding list_ex_iff set_map by (auto simp: split_beta)
    also have "\<dots> \<longleftrightarrow> name = cd_name c" using c(1,2,4) by blast
    finally show ?thesis .
  qed
  have find: "find (\<lambda>(name, _). name = cd_name c) updates = map_option (Pair (cd_name c)) (map_of updates (cd_name c))"
    by (induction updates) auto
  have "cd_name c \<in> set (row_names row)" using old row_get_None_iff [of row "cd_name c"] by auto
  then show ?thesis
    unfolding names find c(3) row_get_apply_update [OF assms(3)] old by (simp split: option.split)
qed

lemma replay_from_step:
  assumes "keyed_row row" "row_pk row = Some pk" "op_ok op"
  shows "replay_from pk row (op # ops) = Option.bind (step_row op row) (\<lambda>r. replay_row r ops)"
proof (cases "primary_key_value op = pk")
  case True
  show ?thesis
  proof (cases op)
    case (OUpdate p updates)
    then have "distinct (map fst updates)" using assms(3) by simp
    note tracked = tracked_key [OF assms(1,2) this]
    show ?thesis using True OUpdate assms(2) tracked by (simp add: step_row_def replay_row_def Let_def)
  qed (use True assms(2) in \<open>simp_all add: step_row_def\<close>)
qed (use assms(2) in \<open>simp add: step_row_def replay_row_def\<close>)

lemma replay_row_step:
  assumes "keyed_row row" "op_ok op"
  shows "replay_row row (op # ops) = Option.bind (step_row op row) (\<lambda>r. replay_row r ops)"
proof -
  obtain pk where pk: "row_pk row = Some pk" using keyed_row_pk [OF assms(1)] by (metis option.exhaust)
  then show ?thesis using replay_from_step [OF assms(1) pk assms(2)] by (simp add: replay_row_def)
qed

lemma keyed_exec: "\<forall>row \<in> set rows. keyed_row row \<Longrightarrow> op_ok op \<Longrightarrow> \<forall>row \<in> set (exec_op op rows). keyed_row row"
  by (cases op) (auto simp: exec_op_def map_filter_def step_row_def keyed_apply_update split: if_splits)

text \<open>Stored rows patched by the operations, then the rows inserted by them.\<close>

definition merged_rows :: "'d row list \<Rightarrow> 'd operation list \<Rightarrow> 'd row list" where
  "merged_rows base ops = List.map_filter (\<lambda>row. replay_row row ops) base @ inserted_rows ops"

lemma map_filter_bind: "List.map_filter (\<lambda>x. Option.bind (f x) g) xs = List.map_filter g (List.map_filter f xs)"
  by (induction xs) (auto simp: map_filter_simps split: option.split)

lemma map_filter_append: "List.map_filter f (xs @ ys) = List.map_filter f xs @ List.map_filter f ys"
  by (simp add: map_filter_def)

lemma map_filter_cong: "(\<And>x. x \<in> set xs \<Longrightarrow> f x = g x) \<Longrightarrow> List.map_filter f xs = List.map_filter g xs"
  by (induction xs) (auto simp: map_filter_simps split: option.split)

lemma merged_rows_step:
  assumes "\<forall>row \<in> set base. keyed_row row" "op_ok op"
  shows "merged_rows base (op # ops) = merged_rows (exec_op op base) ops"
proof -
  have "List.map_filter (\<lambda>row. replay_row row (op # ops)) base =
      List.map_filter (\<lambda>r. replay_row r ops) (List.map_filter (step_row op) base)"
    unfolding map_filter_bind [symmetric] using assms by (intro map_filter_cong) (simp add: replay_row_step)
  then show ?thesis
    by (cases op) (auto simp: merged_rows_def exec_op_def map_filter_append map_filter_simps split: option.split)
qed

lemma merged_rows_exec:
  "\<forall>row \<in> set base. keyed_row row \<Longrightarrow> \<forall>op \<in> set ops. op_ok op \<Longrightarrow> merged_rows base ops = fold exec_op ops base"
proof (induction ops arbitrary: base)
  case Nil
  have "replay_row row [] = Some row" if "row \<in> set base" for row
  proof -
    have "keyed_row row" using Nil that by blast
    then have "row_pk row \<noteq> None" by (rule keyed_row_pk)
    then show ?thesis by (auto simp: replay_row_def)
  qed
  then have "List.map_filter (\<lambda>row. replay_row row []) base = base"
    by (induction base) (simp_all add: map_filter_simps)
  then show ?case by (simp add: merged_rows_def)
next
  case (Cons op ops)
  have "merged_rows base (op # ops) = merged_rows (exec_op op base) ops"
    using Cons.prems by (intro merged_rows_step) auto
  also have "\<dots> = fold exec_op ops (exec_op op base)"
    using Cons.prems by (intro Cons.IH keyed_exec) auto
  finally show ?case by simp
qed

section \<open>The reader returns the merged rows\<close>

lemma next_base_row_spec:
  "case next_base_row ov base of
     (Some row, rest) \<Rightarrow> List.map_filter (patch_row ov) base = row # List.map_filter (patch_row ov) rest \<and> length rest < length base
   | (None, rest) \<Rightarrow> List.map_filter (patch_row ov) base = [] \<and> rest = []"
  by (induction base) (auto simp: map_filter_simps split: option.splits prod.splits)

lemma or_rows_spec:
  "length (or_base r) + (length (or_inserted r) - or_cursor r) < n \<Longrightarrow>
     or_rows n r = Some (List.map_filter (patch_row (or_overlay r)) (or_base r) @ drop (or_cursor r) (or_inserted r))"
proof (induction n arbitrary: r)
  case (Suc n)
  obtain next_row rest where nb: "next_base_row (or_overlay r) (or_base r) = (next_row, rest)" by fastforce
  show ?case
  proof (cases next_row)
    case None
    then have none: "List.map_filter (patch_row (or_overlay r)) (or_base r) = []" "rest = []"
      using nb next_base_row_spec [of "or_overlay r" "or_base r"] by simp_all
    show ?thesis
    proof (cases "or_cursor r < length (or_inserted r)")
      case True
      let ?r = "r\<lparr>or_base := [], or_cursor := Suc (or_cursor r)\<rparr>"
      have "or_rows n ?r = Some (drop (Suc (or_cursor r)) (or_inserted r))"
        using Suc.IH [of ?r] Suc.prems True by (simp add: map_filter_simps)
      then show ?thesis using True nb None none
        by (simp add: or_try_next_def next_overlay_row_def Cons_nth_drop_Suc)
    next
      case False
      then show ?thesis using nb None none by (simp add: or_try_next_def next_overlay_row_def)
    qed
  next
    case (Some row)
    then have s: "List.map_filter (patch_row (or_overlay r)) (or_base r) = row # List.map_filter (patch_row (or_overlay r)) rest"
      "length rest < length (or_base r)"
      using nb next_base_row_spec [of "or_overlay r" "or_base r"] by simp_all
    have "or_rows n (r\<lparr>or_base := rest\<rparr>) =
        Some (List.map_filter (patch_row (or_overlay r)) rest @ drop (or_cursor r) (or_inserted r))"
      using Suc.IH [of "r\<lparr>or_base := rest\<rparr>"] Suc.prems s(2) by simp
    then show ?thesis using nb Some s(1) by (simp add: or_try_next_def)
  qed
qed simp

lemma length_inserted_rows: "length (inserted_rows ops) \<le> length ops"
  by (induction ops) (auto split: operation.split option.split)

lemma or_rows_exec:
  assumes "\<forall>row \<in> set base. keyed_row row" and "\<forall>op \<in> set (to_operations ov). op_ok op"
  shows "or_rows (Suc (length base + length (to_operations ov))) (or_new ov base) =
    Some (fold exec_op (to_operations ov) base)"
proof -
  have "or_rows (Suc (length base + length (to_operations ov))) (or_new ov base) = Some (merged_rows base (to_operations ov))"
    using or_rows_spec [of "or_new ov base"] length_inserted_rows [of "to_operations ov"]
    by (simp add: or_new_def iter_inserted_def merged_rows_def patch_row_def [abs_def] del: or_rows.simps)
  then show ?thesis using merged_rows_exec [OF assms] by simp
qed

text \<open>C31: reading a table through the overlay returns, after finitely many calls, exactly the rows that
  executing the transaction's operations one after the other on the stored rows gives: an update
  follows its row across changes of the primary key, a reinsert of a deleted key gives one new
  row, and a row deleted or superseded is not returned.\<close>

theorem overlay_reader_refines:
  assumes "\<forall>row \<in> set base. keyed_row row" and "\<forall>op \<in> set (to_operations ov). op_ok op"
  shows "or_rows (Suc (length base + length (to_operations ov))) (or_new ov base) =
    Some (fold exec_op (to_operations ov) base)"
  using assms by (rule or_rows_exec)

definition sample_user :: "nat \<Rightarrow> int \<Rightarrow> int row" where
  "sample_user n age = [(sample_column ''id'' KUint32, Uint32 n), (sample_column ''age'' KInt32, Int32 age)]"

definition sample_changes :: "int table_overlay" where
  "sample_changes = to_insert (Uint32 4) (sample_user 4 30)
     (to_delete (Uint32 3) (sample_user 3 20)
     (to_update (Uint32 4) [(''id'', Uint32 3)] (sample_user 4 20) (to_new [[''id'']])))"

lemma keyed_sample_user: "keyed_row (sample_user n age)" "row_pk (sample_user n age) = Some (Uint32 n)"
  by (simp_all add: keyed_row_def sample_user_def sample_column_def row_names_def row_pk_def)

theorem overlay_reader_refines_witness:
  "or_rows 6 (or_new sample_changes [sample_user 4 20, sample_user 2 25]) = Some [sample_user 2 25, sample_user 4 30]"
proof -
  have ops: "to_operations sample_changes =
      [OUpdate (Uint32 4) [(''id'', Uint32 3)], ODelete (Uint32 3), OInsert (Uint32 4) (sample_user 4 30)]"
    by (simp add: sample_changes_def to_insert_def to_delete_def to_update_def to_new_def)
  have upd: "apply_update (sample_user 4 20) [(''id'', Uint32 3)] = sample_user 3 20"
    by (simp add: apply_update_def sample_user_def sample_column_def)
  have run: "fold exec_op (to_operations sample_changes) [sample_user 4 20, sample_user 2 25] = [sample_user 2 25, sample_user 4 30]"
    by (simp add: ops exec_op_def step_row_def keyed_sample_user upd map_filter_simps)
  have "or_rows (Suc (length [sample_user 4 20, sample_user 2 25] + length (to_operations sample_changes)))
      (or_new sample_changes [sample_user 4 20, sample_user 2 25]) = Some [sample_user 2 25, sample_user 4 30]"
    unfolding run [symmetric] by (rule overlay_reader_refines) (simp_all add: ops keyed_sample_user)
  then show ?thesis by (simp add: ops numeral_eq_Suc)
qed

section \<open>Primary keys stay unique\<close>

text \<open>
  The checks of \<^verbatim>\<open>integrity\<close> before an operation is staged: an inserted key is new, and an update
  that changes the key moves it to a free one.
\<close>

primrec op_allowed :: "'d operation \<Rightarrow> 'd row list \<Rightarrow> bool" where
  "op_allowed (OInsert pk rec) rows \<longleftrightarrow> Some pk \<notin> row_pk ` set rows"
| "op_allowed (OUpdate pk updates) rows \<longleftrightarrow>
     (\<forall>row \<in> set rows. row_pk row = Some pk \<longrightarrow>
        row_pk (apply_update row updates) = Some pk \<or> row_pk (apply_update row updates) \<notin> row_pk ` set rows)"
| "op_allowed (ODelete pk) rows \<longleftrightarrow> True"

fun ops_allowed :: "'d operation list \<Rightarrow> 'd row list \<Rightarrow> bool" where
  "ops_allowed [] rows \<longleftrightarrow> True"
| "ops_allowed (op # ops) rows \<longleftrightarrow> op_allowed op rows \<and> ops_allowed ops (exec_op op rows)"

lemma map_filter_sub: "distinct (map f xs) \<Longrightarrow> (\<And>x y. g x = Some y \<Longrightarrow> f y = f x) \<Longrightarrow> distinct (map f (List.map_filter g xs)) \<and>
    set (map f (List.map_filter g xs)) \<subseteq> set (map f xs)"
  by (induction xs) (auto simp: map_filter_simps split: option.split)

lemma step_update: "List.map_filter (step_row (OUpdate pk updates)) rows =
    map (\<lambda>row. if row_pk row = Some pk then apply_update row updates else row) rows"
  by (induction rows) (auto simp: map_filter_simps step_row_def)

lemma distinct_update:
  assumes "distinct (map row_pk rows)" "op_allowed (OUpdate pk updates) rows"
  shows "distinct (map row_pk (map (\<lambda>row. if row_pk row = Some pk then apply_update row updates else row) rows))"
proof -
  let ?f = "\<lambda>row. row_pk (if row_pk row = Some pk then apply_update row updates else row)"
  have inj: "inj_on row_pk (set rows)" "distinct rows" using assms(1) by (simp_all add: distinct_map)
  have "inj_on ?f (set rows)"
  proof (rule inj_onI)
    fix x y assume xy: "x \<in> set rows" "y \<in> set rows" "?f x = ?f y"
    show "x = y"
    proof (cases "row_pk x = row_pk y")
      case True
      then show ?thesis using inj(1) xy by (auto dest: inj_onD)
    next
      case False
      then show ?thesis using xy assms(2) by (auto split: if_splits) (metis imageI)+
    qed
  qed
  then show ?thesis using inj(2) by (simp add: distinct_map comp_def)
qed

lemma exec_op_unique:
  assumes "distinct (map row_pk rows)" "op_allowed op rows" "op_ok op"
  shows "distinct (map row_pk (exec_op op rows))"
proof (cases op)
  case (OInsert pk rec)
  have "row_pk y = row_pk x" if "step_row op x = Some y" for x y
    using that OInsert by (auto simp: step_row_def split: if_splits)
  then have "distinct (map row_pk (List.map_filter (step_row op) rows))"
    "set (map row_pk (List.map_filter (step_row op) rows)) \<subseteq> set (map row_pk rows)"
    using map_filter_sub [OF assms(1)] by blast+
  then show ?thesis using OInsert assms(2,3) by (auto simp: exec_op_def)
next
  case (OUpdate pk updates)
  then show ?thesis using distinct_update assms by (simp add: exec_op_def step_update del: map_map)
next
  case (ODelete pk)
  have "row_pk y = row_pk x" if "step_row op x = Some y" for x y
    using that ODelete by (auto simp: step_row_def split: if_splits)
  then show ?thesis using map_filter_sub [OF assms(1)] ODelete by (simp add: exec_op_def)
qed

lemma exec_ops_unique:
  "distinct (map row_pk rows) \<Longrightarrow> ops_allowed ops rows \<Longrightarrow> \<forall>op \<in> set ops. op_ok op \<Longrightarrow>
     distinct (map row_pk (fold exec_op ops rows))"
  by (induction ops arbitrary: rows) (auto intro: exec_op_unique)

section \<open>A delete the index overlay forgets\<close>

text \<open>C35: a row is stored under value \<open>v\<close> of an indexed column; updating the column to the same value and
  then deleting the row leaves both sets of the index overlay empty, so the stored entry of the
  deleted row is not excluded, whereas the delete alone marks it as removed.\<close>

theorem index_overlay_forgets_delete:
  assumes "row_get row col = Some v"
  shows "removed_pks (to_index_overlay (to_delete pk row (to_new [[col]]))) [col] [v] = {pk} \<and>
    removed_pks (to_index_overlay (to_delete pk row (to_update pk [(col, v)] row (to_new [[col]])))) [col] [v] = {} \<and>
    added_pks (to_index_overlay (to_delete pk row (to_update pk [(col, v)] row (to_new [[col]])))) [col] [v] = {}"
  using assms by (simp add: to_delete_def to_update_def to_new_def removed_pks_def added_pks_def ix_delete_def ix_update_def
    io_delete_def io_insert_def io_empty_def extract_indexed_values_def compute_updated_indexed_values_def)

theorem index_overlay_forgets_delete_witness:
  "removed_pks (to_index_overlay (to_delete (Uint32 1) (sample_user 1 20)
     (to_update (Uint32 1) [(''age'', Int32 20)] (sample_user 1 20) (to_new [[''age'']])))) [''age''] [Int32 20] = {}"
  using index_overlay_forgets_delete [of "sample_user 1 20" "''age''" "Int32 20"]
  by (simp add: sample_user_def sample_column_def)

end
