(* ===== verification/Transactions.thy ===== *)
theory Transactions
  imports Overlay
begin

text \<open>
  \<^verbatim>\<open>wasm-dbms/src/transaction.rs\<close> and \<^verbatim>\<open>transaction/session.rs\<close>: the operations a transaction stages, the
  filters that pin them to the captured row versions, and the open transactions of a context.
\<close>

section \<open>Staged operations\<close>

datatype delete_behavior = Restrict | Cascade

datatype 'd transaction_op =
    TInsert string "'d row"
  | TDelete string delete_behavior "'d query_filter list"
  | TUpdate string "'d row" "'d query_filter list"

record 'd transaction =
  tx_operations :: "'d transaction_op list"
  tx_overlay :: "'d database_overlay"

definition tx_default :: "'d transaction" where
  "tx_default = \<lparr>tx_operations = [], tx_overlay = Map.empty\<rparr>"

definition captured_row_filter :: "'d table_info \<Rightarrow> 'd dbms_value \<Rightarrow> 'd row \<Rightarrow> 'd query_filter" where
  "captured_row_filter T pk row =
     fold (\<lambda>(c, v) f. FAnd f (FEq (cd_name c) v)) (filter (\<lambda>(c, v). cd_name c \<noteq> ti_primary_key T) row)
       (FEq (ti_primary_key T) pk)"

definition tx_insert :: "'d table_info \<Rightarrow> 'd row \<Rightarrow> ('d transaction, unit, 'd query_error) prog" where
  "tx_insert T values tx =
     (case overlay_insert T values (tx_overlay tx) of
        (Ok _, db) \<Rightarrow> (Ok (), tx\<lparr>tx_overlay := db, tx_operations := tx_operations tx @ [TInsert (ti_name T) values]\<rparr>)
      | (Err e, db) \<Rightarrow> (Err e, tx\<lparr>tx_overlay := db\<rparr>)
      | (Panic, db) \<Rightarrow> (Panic, tx\<lparr>tx_overlay := db\<rparr>))"

text \<open>\<open>patch\<close> holds the columns the patch sets, with their values.\<close>

definition tx_update :: "'d table_info \<Rightarrow> 'd row \<Rightarrow> ('d dbms_value \<times> 'd row) list \<Rightarrow> 'd transaction \<Rightarrow> 'd transaction" where
  "tx_update T patch rows tx =
     tx\<lparr>tx_overlay := fold (\<lambda>(pk, row). overlay_update T pk (map (\<lambda>(c, v). (cd_name c, v)) patch) row) rows (tx_overlay tx),
        tx_operations := tx_operations tx @
          [TUpdate (ti_name T) patch (map (\<lambda>(pk, row). captured_row_filter T pk row) rows)]\<rparr>"

definition tx_delete :: "'d table_info \<Rightarrow> delete_behavior \<Rightarrow> ('d dbms_value \<times> 'd row) list \<Rightarrow> 'd transaction \<Rightarrow> 'd transaction" where
  "tx_delete T behaviour rows tx =
     tx\<lparr>tx_overlay := fold (\<lambda>(pk, row). overlay_delete T pk row) rows (tx_overlay tx),
        tx_operations := tx_operations tx @
          [TDelete (ti_name T) behaviour (map (\<lambda>(pk, row). captured_row_filter T pk row) rows)]\<rparr>"

section \<open>Sessions\<close>

text \<open>Transaction ids are \<^verbatim>\<open>u64\<close>; the counter wraps around.\<close>

record 'd session =
  se_transactions :: "nat \<rightharpoonup> 'd transaction"
  se_next :: nat

definition se_default :: "'d session" where
  "se_default = \<lparr>se_transactions = Map.empty, se_next = 0\<rparr>"

definition begin_transaction :: "'d session \<Rightarrow> nat \<times> 'd session" where
  "begin_transaction s =
     (se_next s, s\<lparr>se_next := (se_next s + 1) mod 2 ^ 64, se_transactions := (se_transactions s)(se_next s \<mapsto> tx_default)\<rparr>)"

definition has_transaction :: "nat \<Rightarrow> 'd session \<Rightarrow> bool" where
  "has_transaction i s \<longleftrightarrow> se_transactions s i \<noteq> None"

definition get_transaction :: "nat \<Rightarrow> 'd session \<Rightarrow> ('d transaction, 'd) query_result" where
  "get_transaction i s = (case se_transactions s i of Some tx \<Rightarrow> Ok tx | None \<Rightarrow> Err TransactionNotFound)"

definition take_transaction :: "nat \<Rightarrow> ('d session, 'd transaction, 'd query_error) prog" where
  "take_transaction i s =
     (case se_transactions s i of
        Some tx \<Rightarrow> (Ok tx, s\<lparr>se_transactions := (se_transactions s)(i := None)\<rparr>)
      | None \<Rightarrow> (Err TransactionNotFound, s))"

definition close_transaction :: "nat \<Rightarrow> 'd session \<Rightarrow> 'd session" where
  "close_transaction i s = s\<lparr>se_transactions := (se_transactions s)(i := None)\<rparr>"

text \<open>\<^verbatim>\<open>get_transaction_mut\<close>: a change of an open transaction in place.\<close>

definition modify_transaction ::
  "nat \<Rightarrow> ('d transaction, 'a, 'd query_error) prog \<Rightarrow> ('d session, 'a, 'd query_error) prog" where
  "modify_transaction i p s =
     (case se_transactions s i of
        Some tx \<Rightarrow> (case p tx of (r, tx') \<Rightarrow> (r, s\<lparr>se_transactions := (se_transactions s)(i \<mapsto> tx')\<rparr>))
      | None \<Rightarrow> (Err TransactionNotFound, s))"

section \<open>A captured row is matched by itself only\<close>

lemma matches_captured:
  assumes "distinct (row_names row)"
  shows "matches H (fold (\<lambda>(c, v) f. FAnd f (FEq (cd_name c) v)) cvs f) row =
    and_then (matches H f row) (Ok (\<forall>(c, v) \<in> set cvs. row_get row (cd_name c) = Some v))"
proof (induction cvs arbitrary: f)
  case Nil
  then show ?case by (cases "matches H f row") (auto simp: and_then_def)
next
  case (Cons x cvs)
  obtain c v where x: "x = (c, v)" by (cases x)
  have "(\<exists>w. row_get row (cd_name c) = Some w \<and> w = v) \<longleftrightarrow> row_get row (cd_name c) = Some v" by simp
  then show ?case
    using Cons [of "FAnd f (FEq (cd_name c) v)"] x
    by (cases "matches H f row") (auto simp: and_then_def row_any_get [OF assms])
qed

lemma row_eq_by_get:
  assumes "map fst row = map fst row'" "distinct (row_names row)" "\<forall>(c, v) \<in> set row. row_get row' (cd_name c) = Some v"
  shows "row' = row"
proof -
  have d: "distinct (row_names row')" using assms(1,2) by (simp add: row_names_fst)
  have len: "length row' = length row" using assms(1) by (metis length_map)
  show ?thesis
  proof (rule nth_equalityI [OF len])
    fix i assume i: "i < length row'"
    obtain c v where cv: "row ! i = (c, v)" by (cases "row ! i")
    obtain c' v' where cv': "row' ! i = (c', v')" by (cases "row' ! i")
    have "c' = c" using assms(1) i len cv cv' by (metis fst_conv nth_map)
    moreover have "(c', v') \<in> set row'" "(c, v) \<in> set row" using i len cv cv' nth_mem by metis+
    ultimately have "v' = v" using assms(3) row_get_distinct [OF d] by fastforce
    then show "row' ! i = row ! i" using cv cv' \<open>c' = c\<close> by simp
  qed
qed

lemma captured_row_filter_matches:
  assumes "distinct (row_names row)" "map fst row' = map fst row" "row_get row (ti_primary_key T) = Some pk"
  shows "matches H (captured_row_filter T pk row) row' = Ok (row' = row)"
proof -
  have d: "distinct (row_names row')" using assms(1,2) by (simp add: row_names_fst)
  let ?rest = "filter (\<lambda>(c, v). cd_name c \<noteq> ti_primary_key T) row"
  have "(row_get row' (ti_primary_key T) = Some pk \<and> (\<forall>(c, v) \<in> set ?rest. row_get row' (cd_name c) = Some v)) \<longleftrightarrow>
      (\<forall>(c, v) \<in> set row. row_get row' (cd_name c) = Some v)"
  proof (intro iffI)
    assume l: "row_get row' (ti_primary_key T) = Some pk \<and> (\<forall>(c, v) \<in> set ?rest. row_get row' (cd_name c) = Some v)"
    show "\<forall>(c, v) \<in> set row. row_get row' (cd_name c) = Some v"
      using l row_get_distinct [OF assms(1)] assms(3) by fastforce
  next
    assume r: "\<forall>(c, v) \<in> set row. row_get row' (cd_name c) = Some v"
    then show "row_get row' (ti_primary_key T) = Some pk \<and> (\<forall>(c, v) \<in> set ?rest. row_get row' (cd_name c) = Some v)"
      using row_get_Some_mem [OF assms(3)] by auto
  qed
  also have "\<dots> \<longleftrightarrow> row' = row"
    using row_eq_by_get [of row row'] assms(1,2) row_get_distinct [OF assms(1)] by auto
  finally show ?thesis
    by (auto simp: captured_row_filter_def matches_captured [OF d] row_any_get [OF d] and_then_def)
qed

text \<open>C32: the filter a transaction records for a captured row version matches, among the rows of the table,
  exactly that version: any row that differs in some column is not touched by the commit.\<close>

theorem captured_row_filter_exact:
  assumes "distinct (row_names row)" and "map fst row' = map fst row" and "row_get row (ti_primary_key T) = Some pk"
  shows "matches H (captured_row_filter T pk row) row' = Ok (row' = row)"
  using assms by (rule captured_row_filter_matches)

definition sample_info :: "int table_info" where
  "sample_info = \<lparr>ti_name = ''users'', ti_primary_key = ''id'', ti_indexes = [[''id''], [''age'']],
     ti_columns = [sample_column ''id'' KUint32, sample_column ''age'' KInt32]\<rparr>"

theorem captured_row_filter_exact_witness:
  "matches sample_host (captured_row_filter sample_info (Uint32 4) (sample_user 4 20)) (sample_user 4 21) = Ok False"
proof -
  have ne: "sample_user 4 21 \<noteq> sample_user 4 20" by (simp add: sample_user_def)
  have "matches sample_host (captured_row_filter sample_info (Uint32 4) (sample_user 4 20)) (sample_user 4 21) =
      Ok (sample_user 4 21 = sample_user 4 20)"
    by (rule captured_row_filter_exact) (simp_all add: sample_user_def sample_column_def sample_info_def row_names_def)
  then show ?thesis using ne by simp
qed

section \<open>The overlay records what was staged\<close>

text \<open>The operations of one table's overlay, as staged.\<close>

definition ops_of :: "'d transaction \<Rightarrow> string \<Rightarrow> 'd operation list" where
  "ops_of tx table = (case tx_overlay tx table of Some ov \<Rightarrow> to_operations ov | None \<Rightarrow> [])"

lemma overlay_of_ops: "to_operations (overlay_of T (tx_overlay tx)) = ops_of tx (ti_name T)"
  by (simp add: overlay_of_def ops_of_def to_new_def split: option.split)

lemma fold_overlay_update:
  "(case fold (\<lambda>(pk, row). overlay_update T pk updates row) rows db table of Some ov \<Rightarrow> to_operations ov | None \<Rightarrow> []) =
   (case db table of Some ov \<Rightarrow> to_operations ov | None \<Rightarrow> []) @
   (if table = ti_name T then map (\<lambda>(pk, row). OUpdate pk updates) rows else [])"
  by (induction rows arbitrary: db)
    (auto simp: overlay_update_def to_update_def overlay_of_def to_new_def split: option.split)

lemma fold_overlay_delete:
  "(case fold (\<lambda>(pk, row). overlay_delete T pk row) rows db table of Some ov \<Rightarrow> to_operations ov | None \<Rightarrow> []) =
   (case db table of Some ov \<Rightarrow> to_operations ov | None \<Rightarrow> []) @
   (if table = ti_name T then map (\<lambda>(pk, row). ODelete pk) rows else [])"
  by (induction rows arbitrary: db)
    (auto simp: overlay_delete_def to_delete_def overlay_of_def to_new_def split: option.split)

lemma ops_of_update: "ops_of (tx_update T patch rows tx) table = ops_of tx table @
    (if table = ti_name T then map (\<lambda>(pk, row). OUpdate pk (map (\<lambda>(c, v). (cd_name c, v)) patch)) rows else [])"
  by (simp add: ops_of_def tx_update_def fold_overlay_update)

lemma ops_of_delete: "ops_of (tx_delete T behaviour rows tx) table = ops_of tx table @
    (if table = ti_name T then map (\<lambda>(pk, row). ODelete pk) rows else [])"
  by (simp add: ops_of_def tx_delete_def fold_overlay_delete)

lemma ops_of_insert:
  assumes "tx_insert T values tx = (Ok (), tx')"
  shows "\<exists>pk. row_get values (ti_primary_key T) = Some pk \<and>
    ops_of tx' table = ops_of tx table @ (if table = ti_name T then [OInsert pk values] else [])"
proof (cases "row_get values (ti_primary_key T)")
  case None
  then show ?thesis using assms by (simp add: tx_insert_def overlay_insert_def overlay_primary_key_def)
next
  case (Some pk)
  then have "tx_overlay tx' = (tx_overlay tx)(ti_name T \<mapsto> to_insert pk values (overlay_of T (tx_overlay tx)))"
    using assms by (auto simp: tx_insert_def overlay_insert_def overlay_primary_key_def)
  then show ?thesis using Some by (simp add: ops_of_def to_insert_def overlay_of_def to_new_def split: option.split)
qed

section \<open>Sessions never reuse an open id\<close>

text \<open>The sessions reachable with \<open>n\<close> transactions begun.\<close>

inductive session_run :: "nat \<Rightarrow> 'd session \<Rightarrow> bool" where
  start: "session_run 0 se_default"
| begin_tx: "session_run n s \<Longrightarrow> session_run (Suc n) (snd (begin_transaction s))"
| take_tx: "session_run n s \<Longrightarrow> session_run n (snd (take_transaction i s))"
| close_tx: "session_run n s \<Longrightarrow> session_run n (close_transaction i s)"
| modify_tx: "session_run n s \<Longrightarrow> session_run n (snd (modify_transaction i (p :: ('d transaction, unit, 'd query_error) prog) s))"

lemma session_run_inv:
  "session_run n s \<Longrightarrow> n \<le> 2 ^ 64 \<Longrightarrow> se_next s = n mod 2 ^ 64 \<and> (\<forall>i. se_transactions s i \<noteq> None \<longrightarrow> i < n)"
proof (induction rule: session_run.induct)
  case (begin_tx n s)
  then have "se_next s = n" "n < 2 ^ 64" by simp_all
  then show ?case using begin_tx by (auto simp: begin_transaction_def less_Suc_eq)
qed (auto simp: se_default_def take_transaction_def close_transaction_def modify_transaction_def split: option.splits prod.splits if_splits)

text \<open>C34: while fewer than \<open>2\<^sup>6\<^sup>4\<close> transactions were begun, whatever was committed, closed or changed in between, a
  new transaction gets an id that no open transaction has, starts empty and leaves every other transaction
  as it was; taking it removes it, and taking it again is the error \<^verbatim>\<open>TransactionNotFound\<close>.\<close>

theorem begin_transaction_fresh:
  assumes "session_run n s" and "n < 2 ^ 64" and "begin_transaction s = (i, s')"
  shows "\<not> has_transaction i s \<and> get_transaction i s' = Ok tx_default \<and>
    (\<forall>j. j \<noteq> i \<longrightarrow> get_transaction j s' = get_transaction j s) \<and>
    fst (take_transaction i s') = Ok tx_default \<and>
    fst (take_transaction i (snd (take_transaction i s'))) = Err TransactionNotFound"
proof -
  have "se_next s = n" "se_transactions s n = None"
    using session_run_inv [OF assms(1)] assms(2) by force+
  then show ?thesis using assms(3)
    by (auto simp: begin_transaction_def has_transaction_def get_transaction_def take_transaction_def)
qed

theorem begin_transaction_fresh_witness:
  "\<not> has_transaction 1 (snd (begin_transaction (se_default :: int session)))"
proof -
  have run: "session_run 1 (snd (begin_transaction (se_default :: int session)))"
    using session_run.begin_tx [OF session_run.start] by simp
  have "begin_transaction (snd (begin_transaction (se_default :: int session))) =
      (1, snd (begin_transaction (snd (begin_transaction se_default))))"
    by (simp add: begin_transaction_def se_default_def)
  from begin_transaction_fresh [OF run _ this] show ?thesis by simp
qed

end
