(* ===== verification/Index_Select.thy ===== *)
theory Index_Select
  imports Plan_Executor Transactions
begin

text \<open>
  The selection of rows through an index in \<^verbatim>\<open>wasm-dbms/src/database.rs\<close>: candidates of the access path plus
  the stored rows the transaction updated, patched with the transaction's changes and verified. Main
  result: inside a transaction too, exactly the matching visible rows are returned, each once.
\<close>

section \<open>Errors of the engine\<close>

text \<open>The payload of the errors that no operation here inspects is kept as a message.\<close>

datatype 'd dbms_error =
    DMemory memory_error
  | DMigration string
  | DQuery "'d query_error"
  | DSanitize string
  | DTable string
  | DTransaction string
  | DValidation string

type_synonym ('a, 'd) dbms_result = "('a, 'd dbms_error) outcome"

primrec map_err :: "('e \<Rightarrow> 'f) \<Rightarrow> ('a, 'e) outcome \<Rightarrow> ('a, 'f) outcome" where
  "map_err g (Ok x) = Ok x"
| "map_err g (Err e) = Err (g e)"
| "map_err g Panic = Panic"

primrec sequence :: "('a, 'e) outcome list \<Rightarrow> ('a list, 'e) outcome" where
  "sequence [] = Ok []"
| "sequence (x # xs) = bind_outcome x (\<lambda>a. map_outcome ((#) a) (sequence xs))"

section \<open>Selecting through an index\<close>

definition record_matches_filter :: "'d :: linorder host \<Rightarrow> 'd row \<Rightarrow> 'd query_filter \<Rightarrow> (bool, 'd) dbms_result" where
  "record_matches_filter H row f = map_err DQuery (matches H f row)"

definition row_primary_key :: "'d table_info \<Rightarrow> 'd row \<Rightarrow> 'd dbms_value" where
  "row_primary_key T row = (case row_get row (ti_primary_key T) of Some v \<Rightarrow> v | None \<Rightarrow> Null)"

definition patch_and_filter ::
  "'d :: linorder host \<Rightarrow> 'd table_overlay option \<Rightarrow> 'd row \<Rightarrow> 'd query_filter option \<Rightarrow> ('d row option, 'd) dbms_result" where
  "patch_and_filter H changes row f =
     (case (case changes of Some ov \<Rightarrow> patch_row ov row | None \<Rightarrow> Some row) of
        None \<Rightarrow> Ok None
      | Some row' \<Rightarrow>
          (case f of
             None \<Rightarrow> Ok (Some row')
           | Some f \<Rightarrow> map_outcome (\<lambda>b. if b then Some row' else None) (record_matches_filter H row' f)))"

definition reader_exact :: "'d index_store \<Rightarrow> string list \<Rightarrow> 'd dbms_value list \<Rightarrow> record_address list memory_result" where
  "reader_exact store columns key = map_outcome (\<lambda>es. exact_addresses es key) (index_of store columns)"

definition candidate_addresses ::
  "'d :: linorder table_info \<Rightarrow> 'd index_store \<Rightarrow> 'd access_path \<Rightarrow> 'd table_overlay option \<Rightarrow>
   (record_address list option, 'd) dbms_result" where
  "candidate_addresses T store path changes =
     bind_outcome (map_err DMemory (fst (materialize store path default_limits))) (\<lambda>found.
       case found of
         None \<Rightarrow> Ok None
       | Some as \<Rightarrow>
           (case changes of
              None \<Rightarrow> Ok (Some as)
            | Some ov \<Rightarrow>
                map_outcome (\<lambda>more. Some (sort_dedup (as @ concat more)))
                  (map_err DMemory (sequence (map (\<lambda>pk. reader_exact store [ti_primary_key T] [pk])
                    (updated_pks ov ({ti_primary_key T} \<union> collect_constrained_columns path)))))))"

text \<open>The checks of a candidate row: the visible key for the legacy plan, then the filter to verify.\<close>

definition keep_row :: "'d :: linorder host \<Rightarrow> bool \<Rightarrow> 'd planned_access \<Rightarrow> 'd row \<Rightarrow> (bool, 'd) dbms_result" where
  "keep_row H legacy planned row =
     (if legacy \<and> \<not> path_matches_row (pa_path planned) row then Ok False
      else case pa_verify planned of None \<Rightarrow> Ok True | Some f \<Rightarrow> record_matches_filter H row f)"

fun stored_loop ::
  "'d :: linorder host \<Rightarrow> 'd table_info \<Rightarrow> (record_address \<Rightarrow> 'd row memory_result) \<Rightarrow> 'd table_overlay option \<Rightarrow> bool \<Rightarrow>
   'd planned_access \<Rightarrow> record_address list \<Rightarrow> 'd dbms_value set \<Rightarrow> ('d row list \<times> 'd dbms_value set, 'd) dbms_result" where
  "stored_loop H T read_row changes legacy planned [] seen = Ok ([], seen)"
| "stored_loop H T read_row changes legacy planned (a # as) seen =
     bind_outcome (map_err DMemory (read_row a)) (\<lambda>stored.
     bind_outcome (patch_and_filter H changes stored None) (\<lambda>patched.
       case patched of
         None \<Rightarrow> stored_loop H T read_row changes legacy planned as seen
       | Some row \<Rightarrow>
           bind_outcome (keep_row H legacy planned row) (\<lambda>keep.
             if \<not> keep then stored_loop H T read_row changes legacy planned as seen
             else if changes = None then
               map_outcome (\<lambda>(rows, s). (row # rows, s)) (stored_loop H T read_row changes legacy planned as seen)
             else if row_primary_key T row \<in> seen then stored_loop H T read_row changes legacy planned as seen
             else map_outcome (\<lambda>(rows, s). (row # rows, s))
               (stored_loop H T read_row changes legacy planned as (insert (row_primary_key T row) seen)))))"

fun inserted_loop ::
  "'d :: linorder host \<Rightarrow> 'd table_info \<Rightarrow> bool \<Rightarrow> 'd planned_access \<Rightarrow> 'd row list \<Rightarrow> 'd dbms_value set \<Rightarrow> ('d row list, 'd) dbms_result" where
  "inserted_loop H T legacy planned [] seen = Ok []"
| "inserted_loop H T legacy planned (row # rows) seen =
     bind_outcome (keep_row H legacy planned row) (\<lambda>keep.
       if \<not> keep \<or> row_primary_key T row \<in> seen then inserted_loop H T legacy planned rows seen
       else map_outcome ((#) row) (inserted_loop H T legacy planned rows (insert (row_primary_key T row) seen)))"

definition try_index_select ::
  "'d :: linorder host \<Rightarrow> 'd table_info \<Rightarrow> 'd index_store \<Rightarrow> (record_address \<Rightarrow> 'd row memory_result) \<Rightarrow>
   'd table_overlay option \<Rightarrow> 'd query_filter option \<Rightarrow> ('d row list option, 'd) dbms_result" where
  "try_index_select H T store read_row changes qfilter =
     (case qfilter of
        None \<Rightarrow> Ok None
      | Some f \<Rightarrow>
          (case plan_access f (ti_indexes T) (ti_columns T) of
             None \<Rightarrow> Ok None
           | Some planned \<Rightarrow>
               bind_outcome (candidate_addresses T store (pa_path planned) changes) (\<lambda>found.
                 case found of
                   None \<Rightarrow> Ok None
                 | Some as \<Rightarrow>
                     bind_outcome (stored_loop H T read_row changes (is_fallible f) planned as {}) (\<lambda>(rows, seen).
                       case changes of
                         None \<Rightarrow> Ok (Some rows)
                       | Some ov \<Rightarrow>
                           map_outcome (\<lambda>more. Some (rows @ more))
                             (inserted_loop H T (is_fallible f) planned (iter_inserted ov) seen)))))"

section \<open>The rows a transaction sees\<close>

definition ops_in :: "'d table_overlay option \<Rightarrow> 'd operation list" where
  "ops_in changes = (case changes of Some ov \<Rightarrow> to_operations ov | None \<Rightarrow> [])"

definition visible_rows :: "'d table_overlay option \<Rightarrow> 'd row list \<Rightarrow> 'd row list" where
  "visible_rows changes base = fold exec_op (ops_in changes) base"

text \<open>
  The hypotheses of the selection: a table of keyed rows at distinct addresses, an index on the
  primary key, and a transaction whose operations were allowed when they were staged.
\<close>

definition key_column :: "'d table_info \<Rightarrow> bool" where
  "key_column T \<longleftrightarrow> distinct (map cd_name (ti_columns T)) \<and>
     (\<exists>c. filter cd_primary_key (ti_columns T) = [c] \<and> cd_name c = ti_primary_key T) \<and>
     [ti_primary_key T] \<in> set (ti_indexes T) \<and>
     (\<forall>index \<in> set (ti_indexes T). set index \<subseteq> set (map cd_name (ti_columns T)))"

definition changes_ok :: "'d table_info \<Rightarrow> 'd table_overlay option \<Rightarrow> 'd row list \<Rightarrow> bool" where
  "changes_ok T changes base \<longleftrightarrow> list_all op_ok (ops_in changes) \<and> ops_allowed (ops_in changes) base \<and>
     distinct (map row_pk base) \<and> (\<forall>row \<in> set (visible_rows changes base). row_wf row \<and> map fst row = ti_columns T)"

section \<open>Which stored rows an update may have moved\<close>

lemma set_map_filter: "y \<in> set (List.map_filter f xs) \<longleftrightarrow> (\<exists>x \<in> set xs. f x = Some y)"
  by (induction xs) (auto simp: map_filter_simps split: option.split)

lemma distinct_map_filter_sub:
  assumes "distinct ys" "set ys \<subseteq> set xs" "distinct (map f (List.map_filter q xs))"
  shows "distinct (map f (List.map_filter q ys))"
proof -
  let ?g = "f \<circ> (the \<circ> q)" and ?S = "\<lambda>zs. set (filter (\<lambda>x. q x \<noteq> None) zs)"
  have "inj_on ?g (?S xs)" using assms(3) by (simp add: map_filter_def distinct_map del: set_filter)
  moreover have "?S ys \<subseteq> ?S xs" using assms(2) by auto
  ultimately have "inj_on ?g (?S ys)" by (rule inj_on_subset)
  then show ?thesis using assms(1) by (simp add: map_filter_def distinct_map del: set_filter)
qed

lemma distinct_map_filterI: "distinct (map f xs) \<Longrightarrow> distinct (map f (filter P xs))"
  by (induction xs) auto

lemma list_ex_columns: "list_ex (\<lambda>(c, _). c \<in> columns) updates \<longleftrightarrow> fst ` set updates \<inter> columns \<noteq> {}"
  by (induction updates) auto

lemma updated_pks_iff:
  "pk \<in> set (updated_pks ov columns) \<longleftrightarrow>
     (\<exists>updates. OUpdate pk updates \<in> set (to_operations ov) \<and> fst ` set updates \<inter> columns \<noteq> {})"
proof -
  let ?f = "\<lambda>op. case op of OUpdate p updates \<Rightarrow> if list_ex (\<lambda>(c, _). c \<in> columns) updates then Some p else None | _ \<Rightarrow> None"
  have op: "?f op = Some pk \<longleftrightarrow> (\<exists>updates. op = OUpdate pk updates \<and> fst ` set updates \<inter> columns \<noteq> {})" for op
    unfolding list_ex_columns by (cases op) simp_all
  have "pk \<in> set (updated_pks ov columns) \<longleftrightarrow> (\<exists>op \<in> set (to_operations ov). ?f op = Some pk)"
    by (simp only: updated_pks_def set_rev set_remdups set_map_filter)
  then show ?thesis unfolding op by blast
qed

text \<open>A row none of whose updates touches \<open>columns\<close>, the key column among them, keeps its values there.\<close>

lemma apply_update_outside:
  assumes "distinct (map fst updates)" "fst ` set updates \<inter> columns = {}" "c \<in> columns"
  shows "row_get (apply_update row updates) c = row_get row c"
proof -
  have "map_of updates c = None" using assms(2,3) by (auto simp: map_of_eq_None_iff)
  then show ?thesis by (simp add: row_get_apply_update [OF assms(1)])
qed

lemma row_pk_columns:
  assumes "keyed_row row" "c \<in> set (map fst row)" "cd_primary_key c"
  shows "row_pk row = row_get row (cd_name c)"
  using assms(1)
proof (rule keyed_row_pk)
  fix d assume d: "row_pk row = row_get row (cd_name d)" "\<And>e. e \<in> set (map fst row) \<Longrightarrow> cd_primary_key e \<Longrightarrow> e = d"
  then show ?thesis using assms(2,3) by blast
qed

lemma replay_agrees:
  assumes "\<And>updates. OUpdate pk updates \<in> set ops \<Longrightarrow> fst ` set updates \<inter> columns = {}"
    and "\<forall>op \<in> set ops. op_ok op" "keyed_row row" "row_pk row = Some pk"
    and key: "k \<in> set (map fst row)" "cd_primary_key k" "cd_name k \<in> columns"
    and "replay_row row ops = Some row'"
  shows "map fst row' = map fst row \<and> (\<forall>c \<in> columns. row_get row' c = row_get row c)"
  using assms(1-4,8) key(1)
proof (induction ops arbitrary: row)
  case Nil
  then show ?case by (simp add: replay_row_def)
next
  case (Cons op ops)
  have "op_ok op" using Cons.prems(2) by simp
  note step = replay_row_step [OF Cons.prems(3) this, of ops]
  obtain r where r: "step_row op row = Some r" "replay_row r ops = Some row'"
    using Cons.prems(5) unfolding step by (auto simp: bind_eq_Some_conv)
  show ?case
  proof (cases "r = row")
    case True
    then show ?thesis using Cons.IH [OF _ _ Cons.prems(3,4)] r(2) Cons.prems(1,2,6) by simp
  next
    case False
    then obtain updates where op: "op = OUpdate pk updates" "r = apply_update row updates"
      using r(1) Cons.prems(4) by (cases op) (auto simp: step_row_def split: if_splits)
    have d: "distinct (map fst updates)" using Cons.prems(2) op by simp
    have out: "fst ` set updates \<inter> columns = {}" using Cons.prems(1) [of updates] op by simp
    note same = apply_update_outside [OF d out]
    have k: "k \<in> set (map fst r)" using Cons.prems(6) op by (metis map_fst_apply_update)
    have keyed: "keyed_row r" using keyed_apply_update Cons.prems(3) op by blast
    have "row_pk r = Some pk"
      using row_pk_columns [OF keyed k key(2)] row_pk_columns [OF Cons.prems(3,6) key(2)] same [OF key(3)] op(2) Cons.prems(4) by simp
    then have "map fst row' = map fst r \<and> (\<forall>c \<in> columns. row_get row' c = row_get r c)"
      using Cons.IH [of r] Cons.prems(1,2) keyed r(2) k by simp
    then show ?thesis using same op(2) by simp
  qed
qed

section \<open>The contract of a stored table\<close>

lemma key_column_member:
  assumes "key_column T"
  obtains k where "k \<in> set (ti_columns T)" "cd_primary_key k" "cd_name k = ti_primary_key T"
proof -
  obtain k where k: "filter cd_primary_key (ti_columns T) = [k]" "cd_name k = ti_primary_key T"
    using assms by (auto simp: key_column_def)
  have "k \<in> set (filter cd_primary_key (ti_columns T))" unfolding k(1) by simp
  then show thesis using that k(2) by auto
qed

lemma keyed_of_columns:
  assumes "key_column T" "map fst row = ti_columns T"
  shows "keyed_row row" "row_pk row = Some (row_primary_key T row)" "row_get row (ti_primary_key T) = row_pk row"
proof -
  obtain k where k: "filter cd_primary_key (map fst row) = [k]" "cd_name k = ti_primary_key T"
    using assms by (auto simp: key_column_def)
  have "map fst (filter (\<lambda>(c, v). cd_primary_key c) r) = filter cd_primary_key (map fst r)" for r :: "'a row"
    by (induction r) auto
  then have "map fst (filter (\<lambda>(c, v). cd_primary_key c) row) = [k]" using k(1) by metis
  then have "\<exists>c v. filter (\<lambda>(c, v). cd_primary_key c) row = [(c, v)]" by (auto simp: map_eq_Cons_conv)
  then show keyed: "keyed_row row" using assms by (simp add: keyed_row_def key_column_def row_names_fst)
  obtain m where m: "m \<in> set (ti_columns T)" "cd_primary_key m" "cd_name m = ti_primary_key T"
    using assms(1) by (rule key_column_member)
  have pk: "row_pk row = row_get row (ti_primary_key T)"
    using row_pk_columns [OF keyed, of m] m assms(2) by simp
  have "row_pk row \<noteq> None" using keyed by (rule keyed_row_pk)
  then show "row_pk row = Some (row_primary_key T row)" using pk by (auto simp: row_primary_key_def)
  show "row_get row (ti_primary_key T) = row_pk row" using pk by simp
qed

text \<open>A row an update moved into the path has its key among the updated ones.\<close>

lemma moved_row_updated:
  assumes key: "key_column T" and row: "map fst row = ti_columns T" "row_pk row = Some pk"
    and ops: "list_all op_ok (to_operations ov)" and run: "replay_row row (to_operations ov) = Some row'"
    and moved: "\<not> path_matches_row path row" "path_matches_row path row'"
  shows "pk \<in> set (updated_pks ov ({ti_primary_key T} \<union> collect_constrained_columns path))"
proof (rule ccontr)
  let ?cols = "{ti_primary_key T} \<union> collect_constrained_columns path"
  assume out: "pk \<notin> set (updated_pks ov ?cols)"
  obtain k where k: "k \<in> set (ti_columns T)" "cd_primary_key k" "cd_name k = ti_primary_key T"
    using key by (rule key_column_member)
  have untouched: "fst ` set updates \<inter> ?cols = {}" if "OUpdate pk updates \<in> set (to_operations ov)" for updates
    using out that unfolding updated_pks_iff by blast
  have "\<forall>op \<in> set (to_operations ov). op_ok op" using ops by (simp add: list_all_iff)
  moreover have "k \<in> set (map fst row)" "cd_name k \<in> ?cols" using k row(1) by simp_all
  ultimately have agree: "map fst row' = map fst row \<and> (\<forall>c \<in> ?cols. row_get row' c = row_get row c)"
    using replay_agrees [where columns = ?cols, OF untouched _ keyed_of_columns(1) [OF key row(1)] row(2) _ k(2) _ run] by blast
  have "path_matches_row path row' = path_matches_row path row"
    by (rule path_matches_agree) (use agree in \<open>simp_all add: row_names_fst\<close>)
  then show False using moved by simp
qed

text \<open>Keeping the rows a fallible check accepts.\<close>

fun keep_all :: "('a \<Rightarrow> (bool, 'e) outcome) \<Rightarrow> 'a list \<Rightarrow> ('a list, 'e) outcome" where
  "keep_all check [] = Ok []"
| "keep_all check (x # xs) = bind_outcome (check x) (\<lambda>keep. map_outcome (\<lambda>ys. if keep then x # ys else ys) (keep_all check xs))"

lemma keep_all_spec:
  "case keep_all check xs of
     Ok ys \<Rightarrow> ys = filter (\<lambda>x. check x = Ok True) xs
   | Err e \<Rightarrow> \<exists>x \<in> set xs. check x = Err e
   | Panic \<Rightarrow> \<exists>x \<in> set xs. check x = Panic"
proof (induction xs)
  case (Cons x xs)
  then show ?case by (cases "check x"; cases "keep_all check xs") auto
qed simp

lemma keep_all_append:
  "keep_all check (xs @ ys) = bind_outcome (keep_all check xs) (\<lambda>as. map_outcome ((@) as) (keep_all check ys))"
proof (induction xs)
  case Nil
  show ?case by (cases "keep_all check ys") auto
next
  case (Cons x xs)
  then show ?case by (cases "check x"; cases "keep_all check xs"; cases "keep_all check ys") auto
qed

lemma inserted_loop_keep:
  "distinct (map (row_primary_key T) rows) \<Longrightarrow> row_primary_key T ` set rows \<inter> seen = {} \<Longrightarrow>
     inserted_loop H T legacy planned rows seen = keep_all (keep_row H legacy planned) rows"
proof (induction rows arbitrary: seen)
  case (Cons row rows)
  have "inserted_loop H T legacy planned rows seen = keep_all (keep_row H legacy planned) rows"
    "inserted_loop H T legacy planned rows (insert (row_primary_key T row) seen) = keep_all (keep_row H legacy planned) rows"
    using Cons.prems by (auto intro!: Cons.IH) (metis imageI)
  then show ?case using Cons.prems
    by (cases "keep_row H legacy planned row"; cases "keep_all (keep_row H legacy planned) rows") auto
qed simp

lemma stored_loop_keep:
  assumes "\<And>a. a \<in> set as \<Longrightarrow> \<exists>stored. read_row a = Ok stored \<and> patch_and_filter H changes stored None = Ok (p a)"
    and "distinct (map (row_primary_key T) (List.map_filter p as))"
    and "row_primary_key T ` set (List.map_filter p as) \<inter> seen = {}"
  shows "\<exists>more. set more \<subseteq> set (List.map_filter p as) \<and> stored_loop H T read_row changes legacy planned as seen =
    map_outcome (\<lambda>rows. (rows, row_primary_key T ` set more \<union> seen)) (keep_all (keep_row H legacy planned) (List.map_filter p as))"
  using assms
proof (induction as arbitrary: seen)
  case Nil
  show ?case by (intro exI [of _ "[]"]) (simp add: map_filter_simps)
next
  case (Cons a as)
  obtain stored where s: "read_row a = Ok stored" "patch_and_filter H changes stored None = Ok (p a)"
    using Cons.prems(1) [of a] by auto
  show ?case
  proof (cases "p a")
    case None
    then have "List.map_filter p (a # as) = List.map_filter p as"
      "stored_loop H T read_row changes legacy planned (a # as) seen = stored_loop H T read_row changes legacy planned as seen"
      using s by (simp_all add: map_filter_simps)
    then show ?thesis using Cons.IH [of seen] Cons.prems by simp
  next
    case (Some row)
    let ?rest = "stored_loop H T read_row changes legacy planned as"
    let ?keep = "keep_all (keep_row H legacy planned) (List.map_filter p as)"
    let ?pk = "row_primary_key T row"
    have new: "?pk \<notin> seen" and others: "?pk \<notin> row_primary_key T ` set (List.map_filter p as)"
      and d: "distinct (map (row_primary_key T) (List.map_filter p as))"
      and fresh: "row_primary_key T ` set (List.map_filter p as) \<inter> seen = {}"
      using Cons.prems(2,3) Some by (auto simp: map_filter_simps)
    have IH: "\<exists>more. set more \<subseteq> set (List.map_filter p as) \<and>
        ?rest s = map_outcome (\<lambda>rows. (rows, row_primary_key T ` set more \<union> s)) ?keep"
      if "row_primary_key T ` set (List.map_filter p as) \<inter> s = {}" for s
      by (rule Cons.IH [OF Cons.prems(1) d that]) simp
    obtain more where more: "set more \<subseteq> set (List.map_filter p as)"
        "?rest seen = map_outcome (\<lambda>rows. (rows, row_primary_key T ` set more \<union> seen)) ?keep"
      using IH [OF fresh] by (elim exE conjE)
    have fresh': "row_primary_key T ` set (List.map_filter p as) \<inter> insert ?pk seen = {}" using others fresh by simp
    obtain more' where more': "set more' \<subseteq> set (List.map_filter p as)"
        "?rest (insert ?pk seen) = map_outcome (\<lambda>rows. (rows, row_primary_key T ` set more' \<union> insert ?pk seen)) ?keep"
      using IH [OF fresh'] by (elim exE conjE)
    have rows: "List.map_filter p (a # as) = row # List.map_filter p as" using Some by (simp add: map_filter_simps)
    have step: "stored_loop H T read_row changes legacy planned (a # as) seen =
        bind_outcome (keep_row H legacy planned row) (\<lambda>keep.
          if \<not> keep then ?rest seen
          else map_outcome (\<lambda>(rows, s). (row # rows, s)) (?rest (if changes = None then seen else insert ?pk seen)))"
      using s Some new by (simp cong: if_cong)
    let ?more = "if keep_row H legacy planned row = Ok True \<and> changes \<noteq> None then row # more' else more"
    have "set ?more \<subseteq> set (row # List.map_filter p as)" using more(1) more'(1) by auto
    moreover have "stored_loop H T read_row changes legacy planned (a # as) seen =
        map_outcome (\<lambda>rows. (rows, row_primary_key T ` set ?more \<union> seen)) (keep_all (keep_row H legacy planned) (row # List.map_filter p as))"
      unfolding step using more(2) more'(2) by (cases "keep_row H legacy planned row"; cases ?keep; cases changes) simp_all
    ultimately show ?thesis unfolding rows by blast
  qed
qed

text \<open>The indexes of the table hold its rows, and reading the address of a row returns it.\<close>

locale stored_table = indexed_table store tbl "ti_indexes T"
  for T :: "'d :: linorder table_info" and store :: "'d index_store" and tbl :: "(record_address \<times> 'd row) list" +
  fixes read_row :: "record_address \<Rightarrow> 'd row memory_result"
  assumes read_stored: "distinct (map fst tbl) \<Longrightarrow> (a, row) \<in> set tbl \<Longrightarrow> read_row a = Ok row"
begin

lemma sequence_Ok: "(\<And>x. x \<in> set xs \<Longrightarrow> f x = Ok (g x)) \<Longrightarrow> sequence (map f xs) = Ok (map g xs)"
  by (induction xs) auto

lemma exact_set:
  assumes "index \<in> set (ti_indexes T)"
  shows "\<exists>as. reader_exact store index key = Ok as \<and> set as = {a. \<exists>row. (a, row) \<in> set tbl \<and> index_key index row = key}"
proof -
  obtain es where es: "store index = Some es" "index_for index tbl es" using index_entries [OF assms] by blast
  have "set es = (\<lambda>(a, row). (index_key index row, a)) ` set tbl"
    using mset_eq_setD [of es "map (\<lambda>(a, row). (index_key index row, a)) tbl"] es(2) by (simp add: index_for_def)
  then show ?thesis using es(1) by (force simp: reader_exact_def index_of_def exact_addresses_def)
qed

text \<open>
  The candidates are addresses of rows, and among them is every row that is in the path after the
  transaction's changes.
\<close>

lemma candidate_addresses_spec:
  assumes ok: "table_ok (ti_columns T) (ti_indexes T) tbl" and key: "key_column T"
    and changes: "changes_ok T changes (map snd tbl)" and over: "path_over (ti_indexes T) path"
  shows "\<exists>found. candidate_addresses T store path changes = Ok found \<and> (\<forall>as. found = Some as \<longrightarrow>
    distinct as \<and> set as \<subseteq> fst ` set tbl \<and>
    (\<forall>(a, row) \<in> set tbl. \<forall>row'. replay_row row (ops_in changes) = Some row' \<longrightarrow> path_matches_row path row' \<longrightarrow> a \<in> set as))"
proof -
  have cols: "\<forall>(a, row) \<in> set tbl. has_columns (ti_indexes T) row" using ok by (auto simp: table_ok_def)
  obtain res where res: "fst (materialize store path default_limits) = Ok res" "\<forall>as. res = Some as \<longrightarrow> covers path as"
    using materialize_covers_loops(1) [OF cols refl over] by blast
  show ?thesis
  proof (cases res)
    case None
    then show ?thesis using res(1) by (simp add: candidate_addresses_def)
  next
    case (Some as)
    have as: "covers path as" "set as \<subseteq> fst ` set tbl"
      using res Some materialize_addresses(1) [OF cols refl over] by auto
    show ?thesis
    proof (cases changes)
      case None
      have "a \<in> set as" if "(a, row) \<in> set tbl" "replay_row row [] = Some row'" "path_matches_row path row'" for a row row'
      proof -
        have "row' = row" using that(2) by (auto simp: replay_row_def bind_eq_Some_conv)
        then show ?thesis using as(1) that(1,3) by (auto simp: covers_def rows_in_def)
      qed
      then show ?thesis using res(1) Some None as by (auto simp: candidate_addresses_def covers_def sorted_addrs_def ops_in_def)
    next
      case ch: (Some ov)
      let ?cols = "{ti_primary_key T} \<union> collect_constrained_columns path"
      have pk_index: "[ti_primary_key T] \<in> set (ti_indexes T)" using key by (simp add: key_column_def)
      define rows_at where "rows_at pk = (SOME as. reader_exact store [ti_primary_key T] [pk] = Ok as \<and>
          set as = {a. \<exists>row. (a, row) \<in> set tbl \<and> index_key [ti_primary_key T] row = [pk]})" for pk
      have rows_at: "reader_exact store [ti_primary_key T] [pk] = Ok (rows_at pk)"
        "set (rows_at pk) = {a. \<exists>row. (a, row) \<in> set tbl \<and> index_key [ti_primary_key T] row = [pk]}" for pk
        using someI_ex [OF exact_set [OF pk_index, of "[pk]"]] unfolding rows_at_def by blast+
      let ?all = "as @ concat (map rows_at (updated_pks ov ?cols))"
      have run: "candidate_addresses T store path changes = Ok (Some (sort_dedup ?all))"
        using res(1) Some ch rows_at(1) by (simp add: candidate_addresses_def sequence_Ok)
      have all: "a \<in> set ?all" if a: "(a, row) \<in> set tbl" and r: "replay_row row (ops_in changes) = Some row'"
        and p: "path_matches_row path row'" for a row row'
      proof (cases "path_matches_row path row")
        case True
        then show ?thesis using as(1) a by (auto simp: covers_def rows_in_def)
      next
        case False
        have row: "map fst row = ti_columns T" using ok a by (auto simp: table_ok_def)
        note keyed = keyed_of_columns [OF key row]
        have "row_primary_key T row \<in> set (updated_pks ov ?cols)"
          using moved_row_updated [OF key row keyed(2) _ _ False p] changes r ch by (simp add: changes_ok_def ops_in_def)
        moreover have "index_key [ti_primary_key T] row = [row_primary_key T row]"
          using keyed(2,3) by (simp add: index_key_def)
        then have "a \<in> set (rows_at (row_primary_key T row))" unfolding rows_at(2) using a by blast
        ultimately show ?thesis by auto
      qed
      have sub: "set ?all \<subseteq> fst ` set tbl"
      proof
        fix a assume "a \<in> set ?all"
        then consider "a \<in> set as" | pk where "a \<in> set (rows_at pk)" by auto
        then show "a \<in> fst ` set tbl" using as(2) by cases (force simp: rows_at(2))+
      qed
      have "distinct (sort_dedup ?all)" "set (sort_dedup ?all) = set ?all"
        using sort_dedup_sorted [of ?all] by (simp_all add: sorted_addrs_def)
      then show ?thesis using run all sub by blast
    qed
  qed
qed

text \<open>The row at an address as the transaction sees it.\<close>

definition seen_at :: "'d table_overlay option \<Rightarrow> record_address \<Rightarrow> 'd row option" where
  "seen_at changes a = Option.bind (map_of tbl a) (\<lambda>row. replay_row row (ops_in changes))"

lemma seen_at_table: "distinct (map fst tbl) \<Longrightarrow>
    List.map_filter (\<lambda>row. replay_row row (ops_in changes)) (map snd tbl) = List.map_filter (seen_at changes) (map fst tbl)"
proof -
  assume d: "distinct (map fst tbl)"
  have "List.map_filter (seen_at changes) (map fst tbl) = List.map_filter (\<lambda>x. seen_at changes (fst x)) tbl"
    by (simp add: map_filter_def filter_map comp_def)
  also have "\<dots> = List.map_filter (\<lambda>x. replay_row (snd x) (ops_in changes)) tbl"
    using d by (intro map_filter_cong) (auto simp: seen_at_def)
  also have "\<dots> = List.map_filter (\<lambda>row. replay_row row (ops_in changes)) (map snd tbl)"
    by (simp add: map_filter_def filter_map comp_def)
  finally show ?thesis by simp
qed

lemma visible_split:
  assumes ok: "table_ok (ti_columns T) (ti_indexes T) tbl" and key: "key_column T" and changes: "changes_ok T changes (map snd tbl)"
  shows "visible_rows changes (map snd tbl) = List.map_filter (seen_at changes) (map fst tbl) @ inserted_rows (ops_in changes)"
proof -
  have "\<forall>row \<in> set (map snd tbl). keyed_row row"
    using keyed_of_columns(1) [OF key] ok by (auto simp: table_ok_def)
  moreover have "\<forall>op \<in> set (ops_in changes). op_ok op" using changes by (simp add: changes_ok_def list_all_iff)
  ultimately have "visible_rows changes (map snd tbl) = merged_rows (map snd tbl) (ops_in changes)"
    unfolding visible_rows_def by (rule merged_rows_exec [symmetric])
  then show ?thesis using seen_at_table ok by (simp add: merged_rows_def table_ok_def)
qed

lemma visible_distinct:
  assumes "key_column T" "changes_ok T changes base"
  shows "distinct (map (row_primary_key T) (visible_rows changes base))" "distinct (map row_pk (visible_rows changes base))"
proof -
  let ?rows = "visible_rows changes base"
  show d: "distinct (map row_pk ?rows)"
    using assms(2) exec_ops_unique [of base "ops_in changes"] by (simp add: visible_rows_def changes_ok_def list_all_iff)
  have "map row_pk ?rows = map Some (map (row_primary_key T) ?rows)"
    using keyed_of_columns(2) [OF assms(1)] assms(2) by (simp add: changes_ok_def)
  then show "distinct (map (row_primary_key T) ?rows)" using d by (simp add: distinct_map del: map_map)
qed

text \<open>On a visible row, the checks of a candidate have the outcome of the filter, except that a row off the
  path is skipped.\<close>

lemma keep_row_outcome:
  assumes "plan_access f (ti_indexes T) (ti_columns T) = Some planned" "key_column T"
    and "map fst row = ti_columns T" "row_wf row"
  shows "keep_row H (is_fallible f) planned row =
      (if is_fallible f \<and> \<not> path_matches_row (pa_path planned) row then Ok False else map_err DQuery (matches H f row))"
    and "matches H f row = Ok True \<Longrightarrow> path_matches_row (pa_path planned) row"
proof -
  have "has_columns (ti_indexes T) row" using assms(2,3) by (simp add: key_column_def has_columns_def row_names_fst)
  note plan = plan_access_correct [OF assms(1) [folded assms(3)] assms(4) this, of H]
  have "keep_row H False planned row = map_err DQuery (residual H (pa_verify planned) row)"
    by (simp add: keep_row_def residual_def record_matches_filter_def split: option.split)
  then show "keep_row H (is_fallible f) planned row =
      (if is_fallible f \<and> \<not> path_matches_row (pa_path planned) row then Ok False else map_err DQuery (matches H f row))"
    using plan(2) by (auto simp: keep_row_def)
  show "path_matches_row (pa_path planned) row" if "matches H f row = Ok True" using plan(1) that by blast
qed

lemma seen_at_stored:
  assumes ok: "table_ok (ti_columns T) (ti_indexes T) tbl" and key: "key_column T" and a: "a \<in> fst ` set tbl"
  shows "\<exists>stored. read_row a = Ok stored \<and> patch_and_filter H changes stored None = Ok (seen_at changes a)"
proof -
  obtain row where row: "(a, row) \<in> set tbl" using a by auto
  have d: "distinct (map fst tbl)" and cols: "map fst row = ti_columns T" using ok row by (auto simp: table_ok_def)
  have "row_pk row \<noteq> None" using keyed_of_columns(2) [OF key cols] by simp
  then have "replay_row row [] = Some row" by (auto simp: replay_row_def)
  then have "patch_and_filter H changes row None = Ok (seen_at changes a)"
    using d row by (cases changes) (auto simp: patch_and_filter_def patch_row_def seen_at_def ops_in_def split: option.split)
  then show ?thesis using read_stored [OF d row] by blast
qed

text \<open>The rows of the two loops are the checked candidates and inserted rows.\<close>

lemma loops_keep:
  assumes ok: "table_ok (ti_columns T) (ti_indexes T) tbl" and key: "key_column T"
    and changes: "changes_ok T changes (map snd tbl)" and as: "distinct as" "set as \<subseteq> fst ` set tbl"
  shows "bind_outcome (stored_loop H T read_row changes legacy planned as {}) (\<lambda>(rows, seen).
      case changes of None \<Rightarrow> Ok (Some rows)
      | Some ov \<Rightarrow> map_outcome (\<lambda>more. Some (rows @ more)) (inserted_loop H T legacy planned (iter_inserted ov) seen)) =
    map_outcome Some (keep_all (keep_row H legacy planned) (List.map_filter (seen_at changes) as @ inserted_rows (ops_in changes)))"
    and "distinct (map row_pk (List.map_filter (seen_at changes) as @ inserted_rows (ops_in changes)))"
proof -
  let ?stored = "List.map_filter (seen_at changes) as" and ?ins = "inserted_rows (ops_in changes)"
  let ?check = "keep_row H legacy planned"
  note split = visible_split [OF ok key changes]
  have d: "distinct (map f (List.map_filter (seen_at changes) (map fst tbl) @ ?ins)) \<Longrightarrow> distinct (map f (?stored @ ?ins))"
    for f :: "'d row \<Rightarrow> 'k"
  proof -
    assume all: "distinct (map f (List.map_filter (seen_at changes) (map fst tbl) @ ?ins))"
    have "distinct (map f ?stored)"
      by (rule distinct_map_filter_sub [OF as(1), of "map fst tbl"]) (use as(2) all in simp_all)
    moreover have "set ?stored \<subseteq> set (List.map_filter (seen_at changes) (map fst tbl))"
    proof
      fix row assume "row \<in> set ?stored"
      then obtain a where "a \<in> set (map fst tbl)" "seen_at changes a = Some row" 
        using as(2) unfolding set_map_filter set_map by blast
      then show "row \<in> set (List.map_filter (seen_at changes) (map fst tbl))" unfolding set_map_filter by blast
    qed
    then have "f ` set ?stored \<subseteq> f ` set (List.map_filter (seen_at changes) (map fst tbl))" by (rule image_mono)
    ultimately show ?thesis using all by (simp add: disjoint_iff subset_iff)
  qed
  show "distinct (map row_pk (?stored @ ?ins))"
    using d [of row_pk] visible_distinct(2) [OF key changes] unfolding split .
  have pks: "distinct (map (row_primary_key T) (?stored @ ?ins))"
    using d [of "row_primary_key T"] visible_distinct(1) [OF key changes] unfolding split .
  obtain more where more: "set more \<subseteq> set ?stored" "stored_loop H T read_row changes legacy planned as {} =
      map_outcome (\<lambda>rows. (rows, row_primary_key T ` set more)) (keep_all ?check ?stored)"
  proof -
    have read: "\<exists>stored. read_row a = Ok stored \<and> patch_and_filter H changes stored None = Ok (seen_at changes a)" if "a \<in> set as" for a
      using seen_at_stored [OF ok key] as(2) that by blast
    have "\<exists>more. set more \<subseteq> set ?stored \<and> stored_loop H T read_row changes legacy planned as {} =
        map_outcome (\<lambda>rows. (rows, row_primary_key T ` set more \<union> {})) (keep_all ?check ?stored)"
      by (rule stored_loop_keep) (use read pks in simp_all)
    then show thesis using that by (elim exE conjE) simp
  qed
  have ins: "inserted_loop H T legacy planned ?ins (row_primary_key T ` set more) = keep_all ?check ?ins"
    using pks more(1) by (intro inserted_loop_keep) auto
  show "bind_outcome (stored_loop H T read_row changes legacy planned as {}) (\<lambda>(rows, seen).
      case changes of None \<Rightarrow> Ok (Some rows)
      | Some ov \<Rightarrow> map_outcome (\<lambda>more. Some (rows @ more)) (inserted_loop H T legacy planned (iter_inserted ov) seen)) =
    map_outcome Some (keep_all ?check (?stored @ ?ins))"
  proof (cases changes)
    case None
    then show ?thesis using more(2) by (cases "keep_all ?check ?stored") (simp_all add: ops_in_def)
  next
    case (Some ov)
    then have "?ins = iter_inserted ov" by (simp add: ops_in_def iter_inserted_def)
    then show ?thesis using more(2) ins Some
      by (cases "keep_all ?check ?stored"; cases "keep_all ?check ?ins") (simp_all add: keep_all_append)
  qed
qed

lemma select_spec:
  assumes ok: "table_ok (ti_columns T) (ti_indexes T) tbl" and key: "key_column T"
    and changes: "changes_ok T changes (map snd tbl)"
  shows "case try_index_select H T store read_row changes (Some f) of
      Ok None \<Rightarrow> True
    | Ok (Some rows) \<Rightarrow> distinct (map row_pk rows) \<and> set rows = {row \<in> set (visible_rows changes (map snd tbl)). matches H f row = Ok True}
    | Err e \<Rightarrow> \<exists>row \<in> set (visible_rows changes (map snd tbl)). \<exists>q. matches H f row = Err q \<and> e = DQuery q
    | Panic \<Rightarrow> \<exists>row \<in> set (visible_rows changes (map snd tbl)). matches H f row = Panic"
proof (cases "plan_access f (ti_indexes T) (ti_columns T)")
  case None
  then show ?thesis by (simp add: try_index_select_def)
next
  case (Some planned)
  let ?visible = "visible_rows changes (map snd tbl)" and ?check = "keep_row H (is_fallible f) planned"
  obtain found where found: "candidate_addresses T store (pa_path planned) changes = Ok found"
    and cands: "\<And>as. found = Some as \<Longrightarrow> distinct as \<and> set as \<subseteq> fst ` set tbl \<and>
      (\<forall>(a, row) \<in> set tbl. \<forall>row'. replay_row row (ops_in changes) = Some row' \<longrightarrow> path_matches_row (pa_path planned) row' \<longrightarrow> a \<in> set as)"
    using candidate_addresses_spec [OF ok key changes plan_access_over(1) [OF Some]] by blast
  show ?thesis
  proof (cases found)
    case None
    then show ?thesis using Some found by (simp add: try_index_select_def)
  next
    case as: (Some as)
    let ?rows = "List.map_filter (seen_at changes) as @ inserted_rows (ops_in changes)"
    note loops = loops_keep(1) [OF ok key changes, of as H "is_fallible f" planned] loops_keep(2) [OF ok key changes, of as]
    have run: "try_index_select H T store read_row changes (Some f) = map_outcome Some (keep_all ?check ?rows)"
      using loops(1) cands [OF as] Some found as by (simp add: try_index_select_def)
    have sub: "set ?rows \<subseteq> set ?visible"
      using cands [OF as] unfolding visible_split [OF ok key changes] by (force simp: set_map_filter)
    have check: "?check row = (if is_fallible f \<and> \<not> path_matches_row (pa_path planned) row then Ok False else map_err DQuery (matches H f row))"
      and path: "matches H f row = Ok True \<Longrightarrow> path_matches_row (pa_path planned) row" if "row \<in> set ?visible" for row
      using keep_row_outcome [OF Some key, of row H] that changes by (auto simp: changes_ok_def)
    have kept: "?check row = Ok True \<longleftrightarrow> matches H f row = Ok True" if "row \<in> set ?visible" for row
      using check [OF that] path [OF that] by (cases "matches H f row") auto
    have all: "row \<in> set ?rows" if v: "row \<in> set ?visible" "matches H f row = Ok True" for row
    proof (cases "row \<in> set (inserted_rows (ops_in changes))")
      case False
      then obtain x where x: "x \<in> set tbl" "seen_at changes (fst x) = Some row"
        using v(1) unfolding visible_split [OF ok key changes] by (auto simp: set_map_filter)
      have "map_of tbl (fst x) = Some (snd x)" by (rule map_of_is_SomeI) (use ok x(1) in \<open>simp_all add: table_ok_def\<close>)
      then have "replay_row (snd x) (ops_in changes) = Some row" using x(2) by (simp add: seen_at_def)
      then have "fst x \<in> set as" using cands [OF as] path [OF v] x(1) by fastforce
      then show ?thesis using x(2) by (auto simp: set_map_filter)
    qed simp
    show ?thesis
    proof (cases "keep_all ?check ?rows")
      case (Ok rows)
      then have rows: "rows = filter (\<lambda>row. ?check row = Ok True) ?rows" using keep_all_spec [of ?check ?rows] by simp
      have "distinct (map row_pk rows)" unfolding rows using loops(2) cands [OF as] by (blast intro: distinct_map_filterI)
      moreover have "set rows = {row \<in> set ?visible. matches H f row = Ok True}" unfolding rows using sub all kept by auto
      ultimately show ?thesis using run Ok by simp
    next
      case (Err e)
      then obtain row where row: "row \<in> set ?rows" "?check row = Err e" using keep_all_spec [of ?check ?rows] by auto
      then have "row \<in> set ?visible" using sub by blast
      moreover have "\<exists>q. matches H f row = Err q \<and> e = DQuery q"
        using check [OF calculation] row(2) by (cases "matches H f row") (auto split: if_splits)
      ultimately show ?thesis using run Err by auto
    next
      case Panic
      then obtain row where row: "row \<in> set ?rows" "?check row = Panic" using keep_all_spec [of ?check ?rows] by auto
      then have "row \<in> set ?visible" using sub by blast
      moreover have "matches H f row = Panic"
        using check [OF calculation] row(2) by (cases "matches H f row") (auto split: if_splits)
      ultimately show ?thesis using run Panic by auto
    qed
  qed
qed

end

section \<open>The selection on a table and its indexes\<close>

text \<open>Reading a record of the table at an address; any other address is an error of the memory.\<close>

definition stored_row :: "(record_address \<times> 'd row) list \<Rightarrow> record_address \<Rightarrow> 'd row memory_result" where
  "stored_row tbl a = (case map_of tbl a of Some row \<Rightarrow> Ok row | None \<Rightarrow> Err OutOfBounds)"

interpretation built: stored_table T "build_store (ti_indexes T) tbl" tbl "stored_row tbl" for T tbl
  by unfold_locales (auto simp: stored_row_def build_store_def build_index_for)

text \<open>C30: inside and outside a transaction, selecting through an index returns each row that the transaction
  sees and that matches the filter exactly once, and no other row: rows its updates moved into or
  out of the predicate, rows it deleted and rows it inserted included. It falls back to a scan, or
  fails with the error that the filter gives on a row the transaction sees.\<close>

theorem index_select_returns_visible_matches:
  assumes "table_ok (ti_columns T) (ti_indexes T) tbl" and "key_column T" and "changes_ok T changes (map snd tbl)"
  shows "case try_index_select H T (build_store (ti_indexes T) tbl) (stored_row tbl) changes (Some f) of
      Ok None \<Rightarrow> True
    | Ok (Some rows) \<Rightarrow> distinct (map row_pk rows) \<and> set rows = {row \<in> set (visible_rows changes (map snd tbl)). matches H f row = Ok True}
    | Err e \<Rightarrow> \<exists>row \<in> set (visible_rows changes (map snd tbl)). \<exists>q. matches H f row = Err q \<and> e = DQuery q
    | Panic \<Rightarrow> \<exists>row \<in> set (visible_rows changes (map snd tbl)). matches H f row = Panic"
  using assms by (rule built.select_spec)

definition sample_overlay :: "int table_overlay" where
  "sample_overlay = to_delete (Uint32 7) (sample_user 7 20) (to_insert (Uint32 9) (sample_user 9 40)
     (to_update (Uint32 8) [(''age'', Int32 30)] (sample_user 8 15) (to_new [[''id''], [''age'']])))"

lemma sample_visible: "visible_rows (Some sample_overlay) (map snd sample_table) = [sample_user 8 30, sample_user 9 40]"
  and sample_changes_ok: "changes_ok sample_info (Some sample_overlay) (map snd sample_table)"
  and sample_table_ok: "table_ok (ti_columns sample_info) (ti_indexes sample_info) sample_table"
  and sample_key_column: "key_column sample_info"
proof -
  have rows: "map snd sample_table = [sample_user 7 20, sample_user 8 15]"
    by (simp add: sample_table_def sample_user_def)
  have ops: "ops_in (Some sample_overlay) = [OUpdate (Uint32 8) [(''age'', Int32 30)], OInsert (Uint32 9) (sample_user 9 40), ODelete (Uint32 7)]"
    by (simp add: ops_in_def sample_overlay_def to_insert_def to_delete_def to_update_def to_new_def)
  have upd: "apply_update (sample_user 8 15) [(''age'', Int32 30)] = sample_user 8 30"
    by (simp add: apply_update_def sample_user_def sample_column_def)
  show visible: "visible_rows (Some sample_overlay) (map snd sample_table) = [sample_user 8 30, sample_user 9 40]"
    unfolding rows visible_rows_def ops
    by (simp add: exec_op_def step_row_def keyed_sample_user upd map_filter_simps)
  have wf: "row_wf (sample_user n age)" "map fst (sample_user n age) = ti_columns sample_info" for n age
    by (simp_all add: sample_user_def row_wf_def sample_column_def sample_info_def row_names_def)
  show "changes_ok sample_info (Some sample_overlay) (map snd sample_table)"
    unfolding changes_ok_def visible unfolding ops rows
    by (simp add: keyed_sample_user wf exec_op_def step_row_def upd map_filter_simps)
  show "table_ok (ti_columns sample_info) (ti_indexes sample_info) sample_table"
    by (simp add: table_ok_def sample_table_def sample_info_def row_wf_def has_columns_def row_names_def sample_column_def)
  show "key_column sample_info" by (simp add: key_column_def sample_info_def sample_column_def)
qed

lemma sample_matches: "matches sample_host sample_filter (sample_user 8 30) = Ok True" "matches sample_host sample_filter (sample_user 9 40) = Ok True"
  by (simp_all add: sample_filter_def sample_user_def sample_column_def row_any_def)

theorem index_select_returns_visible_matches_witness:
  "case try_index_select sample_host sample_info (build_store [[''id''], [''age'']] sample_table) (stored_row sample_table)
      (Some sample_overlay) (Some sample_filter) of
     Ok (Some rows) \<Rightarrow> set rows = {sample_user 8 30, sample_user 9 40}
   | Ok None \<Rightarrow> True
   | _ \<Rightarrow> False"
proof -
  have matching: "{row \<in> set [sample_user 8 30, sample_user 9 40]. matches sample_host sample_filter row = Ok True} =
      {sample_user 8 30, sample_user 9 40}" using sample_matches by auto
  have indexes: "ti_indexes sample_info = [[''id''], [''age'']]" by (simp add: sample_info_def)
  show ?thesis
    using index_select_returns_visible_matches [OF sample_table_ok sample_key_column sample_changes_ok, of sample_host sample_filter,
        unfolded sample_visible matching indexes] sample_matches
    by (auto split: outcome.splits option.splits)
qed

end
