(* ===== verification/Queries.thy ===== *)
theory Queries
  imports Query_Filter
begin

text \<open>
  Queries and their builder: \<^verbatim>\<open>wasm-dbms-api/src/dbms/query.rs\<close>, \<^verbatim>\<open>query/join.rs\<close> and \<^verbatim>\<open>query/builder.rs\<close>.
\<close>

section \<open>Queries\<close>

datatype select_spec = SelectAll | SelectColumns "string list"

datatype order_direction = Ascending | Descending

datatype join_type = Inner | Left | Right | Full

record join =
  j_type :: join_type
  j_table :: string
  j_left_column :: string
  j_right_column :: string

record 'd query =
  q_columns :: select_spec
  q_distinct_by :: "string list"
  q_eager_relations :: "string list"
  q_filter :: "'d query_filter option"
  q_group_by :: "string list"
  q_having :: "'d query_filter option"
  q_joins :: "join list"
  q_limit :: "nat option"
  q_offset :: "nat option"
  q_order_by :: "(string \<times> order_direction) list"

definition default_query :: "'d query" where
  "default_query = \<lparr>q_columns = SelectAll, q_distinct_by = [], q_eager_relations = [], q_filter = None, q_group_by = [],
     q_having = None, q_joins = [], q_limit = None, q_offset = None, q_order_by = []\<rparr>"

definition all_selected :: "'d query \<Rightarrow> bool" where
  "all_selected q \<longleftrightarrow> q_columns q = SelectAll"

definition query_columns :: "'d column_def list \<Rightarrow> 'd query \<Rightarrow> string list" where
  "query_columns columns q = (case q_columns q of SelectAll \<Rightarrow> map cd_name columns | SelectColumns cols \<Rightarrow> cols)"

definition has_joins :: "'d query \<Rightarrow> bool" where
  "has_joins q \<longleftrightarrow> q_joins q \<noteq> []"

definition raw_columns :: "'d query \<Rightarrow> string list" where
  "raw_columns q = (case q_columns q of SelectAll \<Rightarrow> [] | SelectColumns cols \<Rightarrow> cols)"

section \<open>The builder\<close>

definition qb_field :: "string \<Rightarrow> 'd query \<Rightarrow> 'd query" where
  "qb_field field q =
     (case q_columns q of
        SelectAll \<Rightarrow> q\<lparr>q_columns := SelectColumns [field]\<rparr>
      | SelectColumns cols \<Rightarrow> if field \<in> set cols then q else q\<lparr>q_columns := SelectColumns (cols @ [field])\<rparr>)"

definition qb_fields :: "string list \<Rightarrow> 'd query \<Rightarrow> 'd query" where
  "qb_fields names q = fold qb_field names q"

definition qb_all :: "'d query \<Rightarrow> 'd query" where
  "qb_all q = q\<lparr>q_columns := SelectAll\<rparr>"

definition qb_with :: "string \<Rightarrow> 'd query \<Rightarrow> 'd query" where
  "qb_with relation q =
     (if relation \<in> set (q_eager_relations q) then q else q\<lparr>q_eager_relations := q_eager_relations q @ [relation]\<rparr>)"

definition qb_join :: "join_type \<Rightarrow> string \<Rightarrow> string \<Rightarrow> string \<Rightarrow> 'd query \<Rightarrow> 'd query" where
  "qb_join jt table left_col right_col q =
     q\<lparr>q_joins := q_joins q @ [\<lparr>j_type = jt, j_table = table, j_left_column = left_col, j_right_column = right_col\<rparr>]\<rparr>"

definition qb_inner_join :: "string \<Rightarrow> string \<Rightarrow> string \<Rightarrow> 'd query \<Rightarrow> 'd query" where
  "qb_inner_join = qb_join Inner"

definition qb_left_join :: "string \<Rightarrow> string \<Rightarrow> string \<Rightarrow> 'd query \<Rightarrow> 'd query" where
  "qb_left_join = qb_join Left"

definition qb_right_join :: "string \<Rightarrow> string \<Rightarrow> string \<Rightarrow> 'd query \<Rightarrow> 'd query" where
  "qb_right_join = qb_join Right"

definition qb_full_join :: "string \<Rightarrow> string \<Rightarrow> string \<Rightarrow> 'd query \<Rightarrow> 'd query" where
  "qb_full_join = qb_join Full"

definition qb_distinct :: "string list \<Rightarrow> 'd query \<Rightarrow> 'd query" where
  "qb_distinct names q = q\<lparr>q_distinct_by := names\<rparr>"

definition qb_group_by :: "string list \<Rightarrow> 'd query \<Rightarrow> 'd query" where
  "qb_group_by names q = q\<lparr>q_group_by := names\<rparr>"

definition qb_having :: "'d query_filter \<Rightarrow> 'd query \<Rightarrow> 'd query" where
  "qb_having f q = q\<lparr>q_having := Some f\<rparr>"

definition qb_order_by_asc :: "string \<Rightarrow> 'd query \<Rightarrow> 'd query" where
  "qb_order_by_asc field q = q\<lparr>q_order_by := q_order_by q @ [(field, Ascending)]\<rparr>"

definition qb_order_by_desc :: "string \<Rightarrow> 'd query \<Rightarrow> 'd query" where
  "qb_order_by_desc field q = q\<lparr>q_order_by := q_order_by q @ [(field, Descending)]\<rparr>"

definition qb_limit :: "nat \<Rightarrow> 'd query \<Rightarrow> 'd query" where
  "qb_limit n q = q\<lparr>q_limit := Some n\<rparr>"

definition qb_offset :: "nat \<Rightarrow> 'd query \<Rightarrow> 'd query" where
  "qb_offset n q = q\<lparr>q_offset := Some n\<rparr>"

definition qb_filter :: "'d query_filter option \<Rightarrow> 'd query \<Rightarrow> 'd query" where
  "qb_filter f q = q\<lparr>q_filter := f\<rparr>"

definition qb_and_where :: "'d query_filter \<Rightarrow> 'd query \<Rightarrow> 'd query" where
  "qb_and_where f q = q\<lparr>q_filter := (case q_filter q of Some g \<Rightarrow> Some (FAnd g f) | None \<Rightarrow> Some f)\<rparr>"

definition qb_or_where :: "'d query_filter \<Rightarrow> 'd query \<Rightarrow> 'd query" where
  "qb_or_where f q = q\<lparr>q_filter := (case q_filter q of Some g \<Rightarrow> Some (FOr g f) | None \<Rightarrow> Some f)\<rparr>"

section \<open>What a built query selects\<close>

text \<open>The fields a query selects are the added ones, each once, in the order of their first addition.\<close>

lemma qb_fields_columns:
  "q_columns q = SelectColumns cols \<Longrightarrow> q_columns (qb_fields names q) = SelectColumns (fold (\<lambda>x xs. if x \<in> set xs then xs else xs @ [x]) names cols)"
  unfolding qb_fields_def by (induction names arbitrary: q cols) (auto simp: qb_field_def)

lemma fold_add_distinct:
  "distinct cols \<Longrightarrow> distinct (fold (\<lambda>x xs. if x \<in> set xs then xs else xs @ [x]) names cols) \<and>
     set (fold (\<lambda>x xs. if x \<in> set xs then xs else xs @ [x]) names cols) = set cols \<union> set names"
  by (induction names arbitrary: cols) auto

end
