(* ===== verification/Stable_Sort.thy ===== *)
theory Stable_Sort
  imports Json_Value
begin

text \<open>
  The stable sort of the standard library, \<^verbatim>\<open>slice::sort_by\<close>, for a comparison function: what it returns
  is determined by being sorted and keeping the order of equal elements, and sorting by one key after
  the other from the last to the first is sorting by all of them in order.
\<close>

fun insert_by :: "('a \<Rightarrow> 'a \<Rightarrow> ordering) \<Rightarrow> 'a \<Rightarrow> 'a list \<Rightarrow> 'a list" where
  "insert_by c x [] = [x]"
| "insert_by c x (y # ys) = (if c x y = Greater then y # insert_by c x ys else x # y # ys)"

definition sort_by :: "('a \<Rightarrow> 'a \<Rightarrow> ordering) \<Rightarrow> 'a list \<Rightarrow> 'a list" where
  "sort_by c xs = foldr (insert_by c) xs []"

definition total_cmp :: "('a \<Rightarrow> 'a \<Rightarrow> ordering) \<Rightarrow> bool" where
  "total_cmp c \<longleftrightarrow> (\<forall>a b. c b a = reverse_ord (c a b)) \<and>
     (\<forall>a b d. c a b \<noteq> Greater \<longrightarrow> c b d \<noteq> Greater \<longrightarrow> c a d \<noteq> Greater)"

definition sorted_by :: "('a \<Rightarrow> 'a \<Rightarrow> ordering) \<Rightarrow> 'a list \<Rightarrow> bool" where
  "sorted_by c xs \<longleftrightarrow> sorted_wrt (\<lambda>a b. c a b \<noteq> Greater) xs"

definition lex_cmp :: "('a \<Rightarrow> 'a \<Rightarrow> ordering) \<Rightarrow> ('a \<Rightarrow> 'a \<Rightarrow> ordering) \<Rightarrow> 'a \<Rightarrow> 'a \<Rightarrow> ordering" where
  "lex_cmp c d a b = then_ord (c a b) (d a b)"

lemma total_cmp_refl: "total_cmp c \<Longrightarrow> c a a = Equal"
proof -
  assume "total_cmp c"
  then have "c a a = reverse_ord (c a a)" unfolding total_cmp_def by blast
  then show ?thesis by (cases "c a a") simp_all
qed

lemma total_cmp_reverse: "total_cmp c \<Longrightarrow> c b a = reverse_ord (c a b)"
  unfolding total_cmp_def by blast

lemma total_cmp_trans: "total_cmp c \<Longrightarrow> c a b \<noteq> Greater \<Longrightarrow> c b d \<noteq> Greater \<Longrightarrow> c a d \<noteq> Greater"
  unfolding total_cmp_def by blast

lemma total_cmp_equal: "total_cmp c \<Longrightarrow> c a b = Equal \<Longrightarrow> c a d = c b d"
proof -
  assume c: "total_cmp c" and ab: "c a b = Equal"
  have ba: "c b a = Equal" using total_cmp_reverse [OF c, of b a] ab by simp
  have le: "c a d \<noteq> Greater \<longleftrightarrow> c b d \<noteq> Greater"
    using total_cmp_trans [OF c, of a b d] total_cmp_trans [OF c, of b a d] ab ba by auto
  have ge: "c d a \<noteq> Greater \<longleftrightarrow> c d b \<noteq> Greater"
    using total_cmp_trans [OF c, of d a b] total_cmp_trans [OF c, of d b a] ab ba by auto
  have "c d a = reverse_ord (c a d)" "c d b = reverse_ord (c b d)" using total_cmp_reverse [OF c] by blast+
  then show ?thesis using le ge by (cases "c a d"; cases "c b d") simp_all
qed

lemma mset_insert_by [simp]: "mset (insert_by c x ys) = add_mset x (mset ys)"
  by (induction ys) auto

lemma mset_sort_by [simp]: "mset (sort_by c xs) = mset xs"
  unfolding sort_by_def by (induction xs) auto

lemma set_sort_by [simp]: "set (sort_by c xs) = set xs"
  using mset_sort_by by (rule mset_eq_setD)

lemma set_insert_by [simp]: "set (insert_by c x ys) = insert x (set ys)"
  using mset_insert_by [of c x ys] by (metis set_mset_add_mset_insert set_mset_mset)

lemma sorted_insert_by:
  assumes "total_cmp c" "sorted_by c ys"
  shows "sorted_by c (insert_by c x ys)"
  using assms(2)
proof (induction ys)
  case (Cons y ys)
  show ?case
  proof (cases "c x y = Greater")
    case True
    then have "c y x \<noteq> Greater" using total_cmp_reverse [OF assms(1), of y x] by simp
    then show ?thesis using True Cons by (auto simp: sorted_by_def)
  next
    case False
    then show ?thesis using Cons.prems total_cmp_trans [OF assms(1)] by (fastforce simp: sorted_by_def)
  qed
qed (simp add: sorted_by_def)

lemma sorted_sort_by: "total_cmp c \<Longrightarrow> sorted_by c (sort_by c xs)"
  unfolding sort_by_def by (induction xs) (auto simp: sorted_by_def intro: sorted_insert_by [unfolded sorted_by_def])

lemma stable_insert_by:
  assumes "total_cmp c"
  shows "filter (\<lambda>b. c a b = Equal) (insert_by c x ys) = filter (\<lambda>b. c a b = Equal) (x # ys)"
proof (induction ys)
  case (Cons y ys)
  have "\<not> (c a x = Equal \<and> c a y = Equal)" if "c x y = Greater"
  proof
    assume e: "c a x = Equal \<and> c a y = Equal"
    then have "c a y = c x y" using total_cmp_equal [OF assms, of a x y] by simp
    then show False using e that by simp
  qed
  then show ?case using Cons by auto
qed simp

lemma stable_sort_by: "total_cmp c \<Longrightarrow> filter (\<lambda>b. c a b = Equal) (sort_by c xs) = filter (\<lambda>b. c a b = Equal) xs"
  unfolding sort_by_def by (induction xs) (auto simp: stable_insert_by)

lemma stable_sorted_unique:
  assumes "total_cmp c"
  shows "sorted_by c ys \<Longrightarrow> sorted_by c zs \<Longrightarrow>
    (\<And>a. filter (\<lambda>b. c a b = Equal) ys = filter (\<lambda>b. c a b = Equal) zs) \<Longrightarrow> ys = zs"
proof (induction ys arbitrary: zs)
  case Nil
  show ?case
  proof (cases zs)
    case (Cons z zs')
    then show ?thesis using Nil(3) [of z] total_cmp_refl [OF assms, of z] by simp
  qed simp
next
  case (Cons y ys)
  note refl = total_cmp_refl [OF assms]
  have "y \<in> set (filter (\<lambda>b. c y b = Equal) (y # ys))" using refl [of y] by simp
  then have "y \<in> set (filter (\<lambda>b. c y b = Equal) zs)" unfolding Cons.prems(3) .
  then have yz: "y \<in> set zs" by simp
  then obtain z zs' where zs: "zs = z # zs'" by (cases zs) auto
  have "z \<in> set (filter (\<lambda>b. c z b = Equal) zs)" using refl [of z] zs by simp
  then have "z \<in> set (filter (\<lambda>b. c z b = Equal) (y # ys))" unfolding Cons.prems(3) .
  then have zy: "z \<in> set (y # ys)" by (auto split: if_splits)
  have "c y z \<noteq> Greater" using Cons.prems(1) zy refl [of y] by (auto simp: sorted_by_def)
  moreover have "c z y \<noteq> Greater" using Cons.prems(2) yz zs refl [of z] by (auto simp: sorted_by_def)
  ultimately have "c y z = Equal" using total_cmp_reverse [OF assms, of z y] by (cases "c y z") auto
  then have "y = z" using Cons.prems(3) [of y] refl [of y] zs by simp
  moreover have "ys = zs'"
  proof (rule Cons.IH)
    show "sorted_by c ys" "sorted_by c zs'" using Cons.prems(1,2) zs by (auto simp: sorted_by_def)
    show "filter (\<lambda>b. c a b = Equal) ys = filter (\<lambda>b. c a b = Equal) zs'" for a
      using Cons.prems(3) [of a] unfolding zs \<open>y = z\<close> by (cases "c a z = Equal") simp_all
  qed
  ultimately show ?case using zs by simp
qed

lemma total_lex_cmp:
  assumes "total_cmp c" "total_cmp d"
  shows "total_cmp (lex_cmp c d)"
  unfolding total_cmp_def
proof (intro conjI allI impI)
  fix a b e
  show "lex_cmp c d b a = reverse_ord (lex_cmp c d a b)"
    using total_cmp_reverse [OF assms(1), of b a] total_cmp_reverse [OF assms(2), of b a]
    by (cases "c a b") (simp_all add: lex_cmp_def then_ord_def)
  assume ab: "lex_cmp c d a b \<noteq> Greater" and be: "lex_cmp c d b e \<noteq> Greater"
  then have le: "c a b \<noteq> Greater" "c b e \<noteq> Greater" by (auto simp: lex_cmp_def then_ord_def split: if_splits)
  show "lex_cmp c d a e \<noteq> Greater"
  proof (cases "c a b = Equal")
    case True
    then have "c a e = c b e" by (rule total_cmp_equal [OF assms(1)])
    then show ?thesis using ab be True total_cmp_trans [OF assms(2), of a b e]
      by (auto simp: lex_cmp_def then_ord_def split: if_splits)
  next
    case False
    have "c a e \<noteq> Equal"
    proof
      assume "c a e = Equal"
      then have "c a b = c e b" by (rule total_cmp_equal [OF assms(1)])
      then show False using le False total_cmp_reverse [OF assms(1), of e b] by (cases "c b e"; cases "c a b") auto
    qed
    moreover have "c a e \<noteq> Greater" using total_cmp_trans [OF assms(1) le] .
    ultimately show ?thesis by (simp add: lex_cmp_def)
  qed
qed

lemma sorted_by_lex:
  assumes "total_cmp c"
  shows "sorted_by c xs \<Longrightarrow> (\<And>a. sorted_by d (filter (\<lambda>b. c a b = Equal) xs)) \<Longrightarrow> sorted_by (lex_cmp c d) xs"
proof (induction xs)
  case (Cons x xs)
  have "lex_cmp c d x b \<noteq> Greater" if "b \<in> set xs" for b
    using Cons.prems(1) Cons.prems(2) [of x] that total_cmp_refl [OF assms, of x]
    by (auto simp: sorted_by_def lex_cmp_def then_ord_def)
  moreover have "sorted_by (lex_cmp c d) xs"
  proof (rule Cons.IH)
    show "sorted_by c xs" using Cons.prems(1) by (simp add: sorted_by_def)
    show "sorted_by d (filter (\<lambda>b. c a b = Equal) xs)" for a
      using Cons.prems(2) [of a] by (auto simp: sorted_by_def split: if_splits)
  qed
  ultimately show ?case by (simp add: sorted_by_def)
qed (simp add: sorted_by_def)

text \<open>Sorting by the second key and then by the first is sorting by both.\<close>

lemma sort_by_sort_by:
  assumes "total_cmp c" "total_cmp d"
  shows "sort_by c (sort_by d xs) = sort_by (lex_cmp c d) xs"
proof (rule stable_sorted_unique [OF total_lex_cmp [OF assms]])
  have "sorted_by d (filter (\<lambda>b. c a b = Equal) (sort_by c (sort_by d xs)))" for a
    using sorted_sort_by [OF assms(2), of xs] by (simp add: stable_sort_by [OF assms(1)] sorted_by_def sorted_wrt_filter)
  then show "sorted_by (lex_cmp c d) (sort_by c (sort_by d xs))"
    by (rule sorted_by_lex [OF assms(1) sorted_sort_by [OF assms(1)]])
  show "sorted_by (lex_cmp c d) (sort_by (lex_cmp c d) xs)" by (rule sorted_sort_by [OF total_lex_cmp [OF assms]])
next
  fix a
  have both: "filter (\<lambda>b. lex_cmp c d a b = Equal) ys = filter (\<lambda>b. d a b = Equal) (filter (\<lambda>b. c a b = Equal) ys)" for ys
    by (auto simp: lex_cmp_def then_ord_def intro!: filter_cong)
  have swap: "filter (\<lambda>b. d a b = Equal) (filter (\<lambda>b. c a b = Equal) ys) = filter (\<lambda>b. c a b = Equal) (filter (\<lambda>b. d a b = Equal) ys)" for ys
    by (auto simp: conj_commute)
  show "filter (\<lambda>b. lex_cmp c d a b = Equal) (sort_by c (sort_by d xs)) =
      filter (\<lambda>b. lex_cmp c d a b = Equal) (sort_by (lex_cmp c d) xs)"
    unfolding stable_sort_by [OF total_lex_cmp [OF assms]]
    unfolding both stable_sort_by [OF assms(1)] by (simp only: swap stable_sort_by [OF assms(2)])
qed

end
