(* ===== verification/Select.thy ===== *)
theory Select
  imports Index_Select Queries Stable_Sort
begin

text \<open>
  The select pipeline of \<^verbatim>\<open>wasm-dbms/src/database.rs\<close>: covering index scans, the choice between index and
  scan, deduplication, eager relations, column selection, ordering and pagination. Main result: a select
  returns what the pipeline gives on the matching rows the transaction sees, whichever way they were read.
\<close>

section \<open>Records of a result\<close>

datatype values_source = This | Foreign (vs_table: string) (vs_column: string)

type_synonym 'd table_columns = "(values_source \<times> 'd row) list"

definition this_columns :: "'d table_columns \<Rightarrow> 'd row option" where
  "this_columns rec = map_option snd (find (\<lambda>(src, _). src = This) rec)"

definition flatten_table_columns :: "'d table_columns list \<Rightarrow> 'd row list" where
  "flatten_table_columns rows = map (\<lambda>row. concat (map snd (filter (\<lambda>(src, _). src = This) row))) rows"

section \<open>Distinct, column selection, ordering\<close>

definition this_value :: "'d table_columns \<Rightarrow> string \<Rightarrow> 'd dbms_value option" where
  "this_value rec column = Option.bind (this_columns rec) (\<lambda>cols. row_get cols column)"

definition distinct_key :: "string list \<Rightarrow> 'd table_columns \<Rightarrow> 'd dbms_value list" where
  "distinct_key distinct_by rec = map (\<lambda>col. case this_value rec col of Some v \<Rightarrow> v | None \<Rightarrow> Null) distinct_by"

fun retain_new :: "('a \<Rightarrow> 'k) \<Rightarrow> 'k set \<Rightarrow> 'a list \<Rightarrow> 'a list" where
  "retain_new key seen [] = []"
| "retain_new key seen (x # xs) =
     (if key x \<in> seen then retain_new key seen xs else x # retain_new key (insert (key x) seen) xs)"

definition apply_distinct :: "string list \<Rightarrow> 'd table_columns list \<Rightarrow> 'd table_columns list" where
  "apply_distinct distinct_by results =
     (if distinct_by = [] then results else retain_new (distinct_key distinct_by) {} results)"

definition apply_column_selection ::
  "'d column_def list \<Rightarrow> 'd query \<Rightarrow> 'd table_columns list \<Rightarrow> 'd table_columns list" where
  "apply_column_selection columns q results =
     (if all_selected q then results
      else map (map (\<lambda>(src, cols).
        (src, if src = This then filter (\<lambda>(c, _). cd_name c \<in> set (query_columns columns q)) cols else cols))) results)"

definition sort_values_with_direction ::
  "'d :: linorder dbms_value option \<Rightarrow> 'd dbms_value option \<Rightarrow> order_direction \<Rightarrow> ordering" where
  "sort_values_with_direction a b direction =
     (case (a, b) of
        (Some x, Some y) \<Rightarrow> (case direction of Ascending \<Rightarrow> cmp x y | Descending \<Rightarrow> cmp y x)
      | (Some _, None) \<Rightarrow> Greater
      | (None, Some _) \<Rightarrow> Less
      | (None, None) \<Rightarrow> Equal)"

definition sort_query_results ::
  "string \<Rightarrow> order_direction \<Rightarrow> 'd :: linorder table_columns list \<Rightarrow> 'd table_columns list" where
  "sort_query_results column direction results =
     sort_by (\<lambda>a b. sort_values_with_direction (this_value a column) (this_value b column) direction) results"

section \<open>Eager relations\<close>

text \<open>
  The batch fetch of the generated foreign fetcher is a parameter, and so is the order in which a hash
  set yields its elements.
\<close>

type_synonym 'd batch = "'d dbms_value \<rightharpoonup> 'd row"
type_synonym 'd fetcher = "string \<Rightarrow> string \<Rightarrow> 'd dbms_value list \<Rightarrow> ('d batch, 'd) dbms_result"

fun add_fk_value :: "string \<Rightarrow> 'd dbms_value \<Rightarrow> (string \<times> 'd dbms_value set) list \<Rightarrow> (string \<times> 'd dbms_value set) list" where
  "add_fk_value column v [] = [(column, {v})]"
| "add_fk_value column v ((c, vs) # rest) =
     (if c = column then (c, insert v vs) # rest else (c, vs) # add_fk_value column v rest)"

fun fk_of_columns :: "string \<Rightarrow> 'd row \<Rightarrow> bool \<times> (string \<times> 'd dbms_value set) list \<Rightarrow> bool \<times> (string \<times> 'd dbms_value set) list" where
  "fk_of_columns relation [] acc = acc"
| "fk_of_columns relation ((c, v) # cols) (found, fks) =
     (case cd_foreign_key c of
        None \<Rightarrow> fk_of_columns relation cols (found, fks)
      | Some fk \<Rightarrow>
          if fk_foreign_table fk \<noteq> relation then fk_of_columns relation cols (found, fks)
          else if v = Null then fk_of_columns relation cols (True, fks)
          else fk_of_columns relation cols (True, add_fk_value (fk_local_column fk) v fks))"

definition no_foreign_key :: "string \<Rightarrow> string \<Rightarrow> string" where
  "no_foreign_key relation table =
     ''Cannot load relation '' @ quoted relation @ '' for table '' @ quoted table @ '': no foreign key found''"

fun collect_fk_loop ::
  "string \<Rightarrow> string \<Rightarrow> 'd table_columns list \<Rightarrow> (string \<times> 'd dbms_value set) list \<Rightarrow> ((string \<times> 'd dbms_value set) list, 'd) dbms_result" where
  "collect_fk_loop table relation [] fks = Ok fks"
| "collect_fk_loop table relation (rec # results) fks =
     (case this_columns rec of
        None \<Rightarrow> collect_fk_loop table relation results fks
      | Some cols \<Rightarrow>
          (case fk_of_columns relation cols (False, fks) of (found, fks') \<Rightarrow>
             if found then collect_fk_loop table relation results fks'
             else Err (DQuery (InvalidQuery (no_foreign_key relation table)))))"

definition collect_fk_values ::
  "('d dbms_value set \<Rightarrow> 'd dbms_value list) \<Rightarrow> string \<Rightarrow> 'd table_columns list \<Rightarrow> string \<Rightarrow>
   ((string \<times> 'd dbms_value list) list, 'd) dbms_result" where
  "collect_fk_values hash_iter table results relation =
     map_outcome (map (\<lambda>(c, vs). (c, hash_iter vs))) (collect_fk_loop table relation results [])"

definition verify_fk_batch :: "'d batch \<Rightarrow> 'd dbms_value list \<Rightarrow> string \<Rightarrow> (unit, 'd) dbms_result" where
  "verify_fk_batch batch pk_values relation =
     (case find (\<lambda>v. batch v = None) pk_values of
        Some missing \<Rightarrow> Err (DQuery (BrokenForeignKeyReference relation missing))
      | None \<Rightarrow> Ok ())"

definition fk_value_of :: "string \<Rightarrow> string \<Rightarrow> 'd row \<Rightarrow> 'd dbms_value option" where
  "fk_value_of relation local_column cols =
     map_option snd (find (\<lambda>(c, _).
       case cd_foreign_key c of
         Some fk \<Rightarrow> fk_foreign_table fk = relation \<and> fk_local_column fk = local_column
       | None \<Rightarrow> False) cols)"

definition attach_foreign_data :: "'d batch \<Rightarrow> string \<Rightarrow> string \<Rightarrow> 'd table_columns list \<Rightarrow> 'd table_columns list" where
  "attach_foreign_data batch relation local_column results = map (\<lambda>rec.
     case Option.bind (Option.bind (this_columns rec) (fk_value_of relation local_column)) batch of
       Some foreign_values \<Rightarrow> rec @ [(Foreign relation local_column, foreign_values)]
     | None \<Rightarrow> rec) results"

fun load_fk_columns ::
  "'d fetcher \<Rightarrow> string \<Rightarrow> (string \<times> 'd dbms_value list) list \<Rightarrow> 'd table_columns list \<Rightarrow> ('d table_columns list, 'd) dbms_result" where
  "load_fk_columns fetch_batch relation [] results = Ok results"
| "load_fk_columns fetch_batch relation ((local_column, pk_values) # fks) results =
     bind_outcome (fetch_batch relation local_column pk_values) (\<lambda>batch.
     bind_outcome (verify_fk_batch batch pk_values relation) (\<lambda>_.
       load_fk_columns fetch_batch relation fks (attach_foreign_data batch relation local_column results)))"

fun batch_load_eager_relations ::
  "('d dbms_value set \<Rightarrow> 'd dbms_value list) \<Rightarrow> 'd fetcher \<Rightarrow> string \<Rightarrow> string list \<Rightarrow> 'd table_columns list \<Rightarrow> ('d table_columns list, 'd) dbms_result" where
  "batch_load_eager_relations hash_iter fetch_batch table [] results = Ok results"
| "batch_load_eager_relations hash_iter fetch_batch table (relation # relations) results =
     bind_outcome (collect_fk_values hash_iter table results relation) (\<lambda>fks.
     bind_outcome (load_fk_columns fetch_batch relation fks results)
       (batch_load_eager_relations hash_iter fetch_batch table relations))"

section \<open>Reading from an index alone\<close>

definition covers_columns :: "string set \<Rightarrow> string list \<Rightarrow> bool" where
  "covers_columns needed columns \<longleftrightarrow> needed \<subseteq> set columns"

definition needed_columns :: "'d column_def list \<Rightarrow> 'd query \<Rightarrow> string set" where
  "needed_columns columns q =
     set (query_columns columns q) \<union> fst ` set (q_order_by q) \<union> set (q_distinct_by q) \<union>
     (case q_filter q of Some f \<Rightarrow> filter_columns f | None \<Rightarrow> {})"

definition covering_scan :: "'d :: linorder table_info \<Rightarrow> 'd query \<Rightarrow> 'd index_scan option" where
  "covering_scan T q =
     (case q_filter q of
        Some f \<Rightarrow> (case plan_filter (ti_indexes T) (ti_columns T) f of Some (AScan scan) \<Rightarrow> Some scan | _ \<Rightarrow> None)
      | None \<Rightarrow> map_option (\<lambda>index. scan_prefix index []) (find (covers_columns (needed_columns (ti_columns T) q)) (ti_indexes T)))"

definition position_of :: "string list \<Rightarrow> string \<Rightarrow> nat option" where
  "position_of names name = (if name \<in> set names then Some (length (takeWhile (\<lambda>n. n \<noteq> name) names)) else None)"

definition key_layout :: "'d column_def list \<Rightarrow> string list \<Rightarrow> (nat \<times> 'd column_def) list" where
  "key_layout columns scan_columns =
     List.map_filter (\<lambda>c. map_option (\<lambda>i. (i, c)) (position_of scan_columns (cd_name c))) columns"

definition key_row :: "(nat \<times> 'd column_def) list \<Rightarrow> 'd dbms_value list \<Rightarrow> ('d row, 'd) dbms_result" where
  "key_row layout key =
     (if \<forall>(i, c) \<in> set layout. i < length key then Ok (map (\<lambda>(i, c). (c, key ! i)) layout) else Panic)"

text \<open>The visits of the entries: rows are pushed until \<open>stop_after\<close> of them are there.\<close>

fun covering_loop ::
  "'d :: linorder host \<Rightarrow> (nat \<times> 'd column_def) list \<Rightarrow> 'd query_filter option \<Rightarrow> nat option \<Rightarrow> 'd index_entries \<Rightarrow>
   'd row list \<Rightarrow> ('d row list, 'd) dbms_result" where
  "covering_loop H layout f stop_after [] rows = Ok rows"
| "covering_loop H layout f stop_after ((key, a) # es) rows =
     bind_outcome (key_row layout key) (\<lambda>row.
     bind_outcome (case f of Some g \<Rightarrow> record_matches_filter H row g | None \<Rightarrow> Ok True) (\<lambda>keep.
       if \<not> keep then covering_loop H layout f stop_after es rows
       else if (case stop_after of Some n \<Rightarrow> n \<le> length (rows @ [row]) | None \<Rightarrow> False) then Ok (rows @ [row])
       else covering_loop H layout f stop_after es (rows @ [row])))"

definition stop_after :: "'d :: linorder host \<Rightarrow> 'd query \<Rightarrow> nat option" where
  "stop_after H q =
     (if q_order_by q = [] \<and> q_distinct_by q = []
      then map_option (\<lambda>limit. min (usize_max H) ((case q_offset q of Some n \<Rightarrow> n | None \<Rightarrow> 0) + limit)) (q_limit q)
      else None)"

definition try_covering_select ::
  "'d :: linorder host \<Rightarrow> 'd table_info \<Rightarrow> 'd index_store \<Rightarrow> bool \<Rightarrow> 'd query \<Rightarrow> ('d row list option, 'd) dbms_result" where
  "try_covering_select H T store in_tx q =
     (if in_tx \<or> q_eager_relations q \<noteq> [] then Ok None
      else if (case q_filter q of Some f \<Rightarrow> is_fallible f | None \<Rightarrow> False) then Ok None
      else case covering_scan T q of
          None \<Rightarrow> Ok None
        | Some scan \<Rightarrow>
            if \<not> covers_columns (needed_columns (ti_columns T) q) (sc_columns scan) then Ok None
            else if q_limit q = Some 0 then Ok (Some [])
            else bind_outcome (map_err DMemory (index_of store (sc_columns scan))) (\<lambda>es.
                map_outcome Some (covering_loop H (key_layout (ti_columns T) (sc_columns scan)) (q_filter q) (stop_after H q)
                  (scan_entries scan es) [])))"

section \<open>The pipeline\<close>

definition reject_aggregate_clauses :: "'d query \<Rightarrow> (unit, 'd) dbms_result" where
  "reject_aggregate_clauses q =
     (if q_group_by q \<noteq> [] \<or> q_having q \<noteq> None then Err (DQuery AggregateClauseInSelect) else Ok ())"

definition defer_pagination :: "'d query \<Rightarrow> bool" where
  "defer_pagination q \<longleftrightarrow> q_order_by q \<noteq> [] \<or> q_distinct_by q \<noteq> []"

definition limit_reached :: "'d query \<Rightarrow> 'a list \<Rightarrow> bool" where
  "limit_reached q results \<longleftrightarrow> \<not> defer_pagination q \<and> (case q_limit q of Some limit \<Rightarrow> limit \<le> length results | None \<Rightarrow> False)"

fun push_loop :: "'d query \<Rightarrow> 'd row list \<Rightarrow> nat \<Rightarrow> 'd table_columns list \<Rightarrow> 'd table_columns list" where
  "push_loop q [] cnt results = results"
| "push_loop q (row # rows) cnt results =
     (if \<not> defer_pagination q \<and> (case q_offset q of Some offset \<Rightarrow> cnt + 1 \<le> offset | None \<Rightarrow> False)
      then push_loop q rows (cnt + 1) results
      else if limit_reached q results then results
      else if limit_reached q (results @ [[(This, row)]]) then results @ [[(This, row)]]
      else push_loop q rows (cnt + 1) (results @ [[(This, row)]]))"

fun scan_loop ::
  "'d :: linorder host \<Rightarrow> 'd query \<Rightarrow> 'd row list \<Rightarrow> nat \<Rightarrow> 'd table_columns list \<Rightarrow> ('d table_columns list, 'd) dbms_result" where
  "scan_loop H q [] cnt results = Ok results"
| "scan_loop H q (row # rows) cnt results =
     bind_outcome (case q_filter q of Some f \<Rightarrow> record_matches_filter H row f | None \<Rightarrow> Ok True) (\<lambda>keep.
       if \<not> keep then scan_loop H q rows cnt results
       else if \<not> defer_pagination q \<and> (case q_offset q of Some offset \<Rightarrow> cnt + 1 \<le> offset | None \<Rightarrow> False)
       then scan_loop H q rows (cnt + 1) results
       else if limit_reached q results then Ok results
       else if limit_reached q (results @ [[(This, row)]]) then Ok (results @ [[(This, row)]])
       else scan_loop H q rows (cnt + 1) (results @ [[(This, row)]]))"

definition paginate :: "'d query \<Rightarrow> 'a list \<Rightarrow> 'a list" where
  "paginate q results =
     (let offset = (case q_offset q of Some n \<Rightarrow> n | None \<Rightarrow> 0);
          rest = (if offset > 0 then if offset \<ge> length results then [] else drop offset results else results)
      in case q_limit q of Some limit \<Rightarrow> take limit rest | None \<Rightarrow> rest)"

text \<open>
  What a loaded table gives: its indexes, the record at an address, and the rows its reader returns.
\<close>

record 'd table_access =
  ta_indexes :: "'d index_store"
  ta_read :: "record_address \<Rightarrow> 'd row memory_result"
  ta_rows :: "'d row list"

definition overlay_rows :: "'d table_info \<Rightarrow> 'd database_overlay \<Rightarrow> 'd row list \<Rightarrow> 'd row list" where
  "overlay_rows T db base =
     the (or_rows (Suc (length base + length (to_operations (overlay_of T db)))) (fst (overlay_rd T base db)))"

definition select_columns ::
  "'d :: linorder host \<Rightarrow> ('d dbms_value set \<Rightarrow> 'd dbms_value list) \<Rightarrow> 'd fetcher \<Rightarrow> 'd table_info \<Rightarrow> ('d table_access, 'd) dbms_result \<Rightarrow>
   ('d database_overlay, 'd) dbms_result option \<Rightarrow> 'd query \<Rightarrow> ('d table_columns list, 'd) dbms_result" where
  "select_columns H hash_iter fetch_batch T loaded tx q =
     bind_outcome (reject_aggregate_clauses q) (\<lambda>_.
     bind_outcome loaded (\<lambda>tbl.
     bind_outcome (case tx of Some ov \<Rightarrow> ov | None \<Rightarrow> Ok Map.empty) (\<lambda>overlay.
     bind_outcome (try_covering_select H T (ta_indexes tbl) (tx \<noteq> None) q) (\<lambda>covered.
     bind_outcome (case covered of
         Some rows \<Rightarrow> Ok (Some rows)
       | None \<Rightarrow> try_index_select H T (ta_indexes tbl) (ta_read tbl) (overlay (ti_name T)) (q_filter q)) (\<lambda>indexed.
     bind_outcome (case indexed of
         Some rows \<Rightarrow> Ok (push_loop q rows 0 [])
       | None \<Rightarrow> scan_loop H q (overlay_rows T overlay (ta_rows tbl)) 0 []) (\<lambda>results.
     map_outcome (\<lambda>results.
         let sorted = fold (\<lambda>(column, direction). sort_query_results column direction) (rev (q_order_by q))
               (apply_column_selection (ti_columns T) q results)
         in if defer_pagination q then paginate q sorted else sorted)
       (batch_load_eager_relations hash_iter fetch_batch (ti_name T) (q_eager_relations q)
         (apply_distinct (q_distinct_by q) results))))))))"

definition select_typed ::
  "'d :: linorder host \<Rightarrow> ('d dbms_value set \<Rightarrow> 'd dbms_value list) \<Rightarrow> 'd fetcher \<Rightarrow> 'd table_info \<Rightarrow> ('d table_access, 'd) dbms_result \<Rightarrow>
   ('d database_overlay, 'd) dbms_result option \<Rightarrow> (unit, 'd) dbms_result \<Rightarrow> 'd query \<Rightarrow> ('d table_columns list, 'd) dbms_result" where
  "select_typed H hash_iter fetch_batch T loaded tx drift q =
     bind_outcome drift (\<lambda>_.
       if q_joins q \<noteq> [] then Err (DQuery JoinInsideTypedSelect) else select_columns H hash_iter fetch_batch T loaded tx q)"

section \<open>Ordering by several keys\<close>

definition key_cmp :: "string \<Rightarrow> order_direction \<Rightarrow> 'd :: linorder table_columns \<Rightarrow> 'd table_columns \<Rightarrow> ordering" where
  "key_cmp column direction a b = sort_values_with_direction (this_value a column) (this_value b column) direction"

fun order_cmp :: "(string \<times> order_direction) list \<Rightarrow> 'd :: linorder table_columns \<Rightarrow> 'd table_columns \<Rightarrow> ordering" where
  "order_cmp [] = (\<lambda>a b. Equal)"
| "order_cmp ((column, direction) # keys) = lex_cmp (key_cmp column direction) (order_cmp keys)"

lemma sort_values_total:
  fixes a b c :: "'d :: linorder dbms_value option"
  shows "sort_values_with_direction b a direction = reverse_ord (sort_values_with_direction a b direction)"
    and "sort_values_with_direction a b direction \<noteq> Greater \<Longrightarrow> sort_values_with_direction b c direction \<noteq> Greater \<Longrightarrow>
      sort_values_with_direction a c direction \<noteq> Greater"
  by (cases direction; cases a; cases b; cases c; simp add: sort_values_with_direction_def)+

lemma total_key_cmp: "total_cmp (key_cmp column direction)"
  unfolding total_cmp_def key_cmp_def using sort_values_total by blast

lemma total_order_cmp: "total_cmp (order_cmp keys)"
proof (induction keys)
  case Nil
  show ?case by (simp add: total_cmp_def)
next
  case (Cons k keys)
  obtain column direction where k: "k = (column, direction)" by (cases k)
  show ?case unfolding k order_cmp.simps by (rule total_lex_cmp [OF total_key_cmp Cons.IH])
qed

lemma sort_by_equal: "sort_by (\<lambda>a b. Equal) xs = xs"
proof (induction xs)
  case (Cons x xs)
  then show ?case by (cases xs) (simp_all add: sort_by_def)
qed (simp add: sort_by_def)

lemma sort_by_all_equal:
  assumes "\<And>a b. a \<in> set xs \<Longrightarrow> b \<in> set xs \<Longrightarrow> c a b = Equal"
  shows "sort_by c xs = xs"
  using assms
proof (induction xs)
  case (Cons x xs)
  have "sort_by c (x # xs) = insert_by c x (sort_by c xs)" by (simp add: sort_by_def)
  also have "\<dots> = insert_by c x xs" using Cons by simp
  also have "\<dots> = x # xs" using Cons.prems by (cases xs) simp_all
  finally show ?case .
qed (simp add: sort_by_def)

text \<open>Sorting by one key after the other, from the last to the first, orders by all keys lexicographically.\<close>

lemma sort_keys: "fold (\<lambda>(column, direction). sort_query_results column direction) (rev keys) xs = sort_by (order_cmp keys) xs"
proof (induction keys)
  case (Cons k keys)
  obtain column direction where k: "k = (column, direction)" by (cases k)
  have "sort_query_results column direction ys = sort_by (key_cmp column direction) ys" for ys :: "'a table_columns list"
    by (simp add: sort_query_results_def key_cmp_def [abs_def])
  then show ?case using Cons sort_by_sort_by [OF total_key_cmp total_order_cmp] by (simp add: k)
qed (simp add: sort_by_equal)

section \<open>Pagination\<close>

definition page :: "'d query \<Rightarrow> 'a list \<Rightarrow> 'a list" where
  "page q xs = (let rest = drop (case q_offset q of Some n \<Rightarrow> n | None \<Rightarrow> 0) xs in case q_limit q of Some n \<Rightarrow> take n rest | None \<Rightarrow> rest)"

lemma paginate_page: "paginate q xs = page q xs"
  by (simp add: paginate_def page_def Let_def split: option.split)

lemma page_map: "page q (map f xs) = map f (page q xs)"
  by (simp add: page_def Let_def drop_map take_map split: option.split)

lemma push_loop_deferred: "defer_pagination q \<Longrightarrow> push_loop q rows cnt results = results @ map (\<lambda>row. [(This, row)]) rows"
  by (induction rows arbitrary: cnt results) (simp_all add: limit_reached_def)

lemma push_loop_from:
  assumes "\<not> defer_pagination q" and "q_limit q = None \<or> (\<exists>n. q_limit q = Some n \<and> (length results < n \<or> n = 0 \<and> results = []))"
  shows "push_loop q rows cnt results = results @ map (\<lambda>row. [(This, row)])
     (let rest = drop ((case q_offset q of Some n \<Rightarrow> n | None \<Rightarrow> 0) - cnt) rows in
      case q_limit q of Some n \<Rightarrow> take (n - length results) rest | None \<Rightarrow> rest)"
  using assms(2)
proof (induction rows arbitrary: cnt results)
  case Nil
  show ?case by (simp add: Let_def split: option.split)
next
  case (Cons row rows)
  let ?offset = "case q_offset q of Some n \<Rightarrow> n | None \<Rightarrow> 0"
  show ?case
  proof (cases "cnt < ?offset")
    case True
    then have "push_loop q (row # rows) cnt results = push_loop q rows (cnt + 1) results"
      using assms(1) by (simp split: option.splits)
    moreover have "?offset - cnt = Suc (?offset - (cnt + 1))" using True by simp
    ultimately show ?thesis using Cons by (simp add: Let_def)
  next
    case False
    then have skip: "push_loop q (row # rows) cnt results =
        (if limit_reached q results then results
         else if limit_reached q (results @ [[(This, row)]]) then results @ [[(This, row)]]
         else push_loop q rows (cnt + 1) (results @ [[(This, row)]]))"
      by (simp split: option.splits)
    show ?thesis
    proof (cases "q_limit q")
      case None
      then show ?thesis unfolding skip using Cons.IH [of "results @ [[(This, row)]]" "cnt + 1"] False
        by (simp add: limit_reached_def Let_def)
    next
      case (Some n)
      consider "n = 0" | "length results < n" "n = Suc (length results)" | "Suc (length results) < n"
        using Cons.prems Some by fastforce
      then show ?thesis
      proof cases
        case 1
        then show ?thesis unfolding skip using Some Cons.prems False assms(1) by (simp add: limit_reached_def Let_def)
      next
        case 2
        then show ?thesis unfolding skip using Some False assms(1) by (simp add: limit_reached_def Let_def)
      next
        case 3
        then have "push_loop q (row # rows) cnt results = push_loop q rows (cnt + 1) (results @ [[(This, row)]])"
          unfolding skip using Some by (simp add: limit_reached_def)
        moreover have "n - length results = Suc (n - Suc (length results))" using 3 by simp
        ultimately show ?thesis using Cons.IH [of "results @ [[(This, row)]]" "cnt + 1"] 3 Some False
          by (simp add: Let_def)
      qed
    qed
  qed
qed

lemma push_loop_page:
  "push_loop q rows 0 [] = map (\<lambda>row. [(This, row)]) (if defer_pagination q then rows else page q rows)"
proof (cases "defer_pagination q")
  case False
  then show ?thesis using push_loop_from [OF False, of "[]" rows 0] by (cases "q_limit q") (auto simp: page_def Let_def)
qed (simp add: push_loop_deferred)

text \<open>The sequential scan pushes the matching rows.\<close>

definition row_keep :: "'d :: linorder host \<Rightarrow> 'd query_filter option \<Rightarrow> 'd row \<Rightarrow> (bool, 'd) query_result" where
  "row_keep H f row = (case f of Some g \<Rightarrow> matches H g row | None \<Rightarrow> Ok True)"

lemma row_keep_err: "(case f of Some g \<Rightarrow> record_matches_filter H row g | None \<Rightarrow> Ok True) = map_err DQuery (row_keep H f row)"
  by (simp add: row_keep_def record_matches_filter_def split: option.split)

lemma scan_loop_push:
  "case scan_loop H q rows cnt results of
     Ok rs \<Rightarrow> rs = push_loop q (filter (\<lambda>row. row_keep H (q_filter q) row = Ok True) rows) cnt results
   | Err e \<Rightarrow> \<exists>row \<in> set rows. \<exists>e'. row_keep H (q_filter q) row = Err e' \<and> e = DQuery e'
   | Panic \<Rightarrow> \<exists>row \<in> set rows. row_keep H (q_filter q) row = Panic"
proof (induction rows arbitrary: cnt results)
  case (Cons row rows)
  show ?case
  proof (cases "row_keep H (q_filter q) row")
    case (Ok b)
    show ?thesis unfolding scan_loop.simps row_keep_err Ok
      using Cons.IH [of cnt results] Cons.IH [of "cnt + 1" results] Cons.IH [of "cnt + 1" "results @ [[(This, row)]]"] Ok
      by (cases b) (auto split: outcome.splits)
  qed (simp_all add: row_keep_err)
qed simp

section \<open>The rows a covering index gives\<close>

definition project :: "string set \<Rightarrow> 'd row \<Rightarrow> 'd row" where
  "project names row = filter (\<lambda>(c, _). cd_name c \<in> names) row"

lemma row_get_project: "name \<in> names \<Longrightarrow> row_get (project names row) name = row_get row name"
  unfolding project_def by (induction row) auto

lemma row_any_project: "name \<in> names \<Longrightarrow> row_any name pred (project names row) = row_any name pred row"
  unfolding project_def row_any_def by (induction row) auto

lemma matches_project: "filter_columns f \<subseteq> names \<Longrightarrow> matches H f (project names row) = matches H f row"
  by (induction f) (simp_all add: row_any_project row_get_project)

lemma position_of_nth: "name \<in> set names \<Longrightarrow> \<exists>i < length names. position_of names name = Some i \<and> names ! i = name"
  by (induction names) (auto simp: position_of_def)

text \<open>The values of an index key, laid out in the order of the table, are the row restricted to the index.\<close>

lemma key_row_project:
  assumes "distinct (row_names row)"
  shows "key_row (key_layout (map fst row) columns) (index_key columns row) = Ok (project (set columns) row)"
proof -
  have part: "key_row (key_layout (map fst part) columns) (index_key columns row) = Ok (project (set columns) part)"
    if "\<forall>(c, v) \<in> set part. row_get row (cd_name c) = Some v" for part
    using that
  proof (induction part)
    case Nil
    show ?case by (simp add: key_row_def key_layout_def map_filter_simps project_def)
  next
    case (Cons x part)
    obtain c v where x: "x = (c, v)" by (cases x)
    have ih: "\<forall>(i, d) \<in> set (key_layout (map fst part) columns). i < length (index_key columns row)"
      "map (\<lambda>(i, d). (d, index_key columns row ! i)) (key_layout (map fst part) columns) = project (set columns) part"
      using Cons by (auto simp: key_row_def split: if_splits)
    show ?case
    proof (cases "cd_name c \<in> set columns")
      case True
      then obtain i where i: "i < length columns" "position_of columns (cd_name c) = Some i" "columns ! i = cd_name c"
        using position_of_nth by blast
      have "key_layout (map fst (x # part)) columns = (i, c) # key_layout (map fst part) columns"
        using i(2) by (simp add: key_layout_def map_filter_simps x)
      moreover have "index_key columns row ! i = v" "i < length (index_key columns row)"
        using i(1,3) Cons.prems x by (simp_all add: index_key_def)
      moreover have "project (set columns) (x # part) = (c, v) # project (set columns) part"
        using True by (simp add: project_def x)
      ultimately show ?thesis using ih unfolding key_row_def by simp
    next
      case False
      then have "key_layout (map fst (x # part)) columns = key_layout (map fst part) columns"
        "project (set columns) (x # part) = project (set columns) part"
        by (simp_all add: key_layout_def map_filter_simps position_of_def project_def x)
      then show ?thesis using ih unfolding key_row_def by simp
    qed
  qed
  show ?thesis by (rule part) (use row_get_distinct [OF assms] in auto)
qed

lemma covering_loop_rows:
  assumes "\<forall>(key, a) \<in> set es. key_row layout key = Ok (row_of key)"
    and "case stop of Some n \<Rightarrow> length rows < n | None \<Rightarrow> True"
  shows "case covering_loop H layout f stop es rows of
      Ok rs \<Rightarrow> rs = rows @ (case stop of
          Some n \<Rightarrow> take (n - length rows) (filter (\<lambda>row. row_keep H f row = Ok True) (map (row_of \<circ> fst) es))
        | None \<Rightarrow> filter (\<lambda>row. row_keep H f row = Ok True) (map (row_of \<circ> fst) es))
    | Err e \<Rightarrow> \<exists>row \<in> set (map (row_of \<circ> fst) es). \<exists>e'. row_keep H f row = Err e' \<and> e = DQuery e'
    | Panic \<Rightarrow> \<exists>row \<in> set (map (row_of \<circ> fst) es). row_keep H f row = Panic"
  using assms
proof (induction es arbitrary: rows)
  case Nil
  show ?case by (simp split: option.split)
next
  case (Cons x es)
  obtain key a where x: "x = (key, a)" by (cases x)
  let ?row = "row_of key" and ?new = "filter (\<lambda>row. row_keep H f row = Ok True) (map (row_of \<circ> fst) es)"
  have row: "key_row layout key = Ok ?row" and rest: "\<forall>(key, a) \<in> set es. key_row layout key = Ok (row_of key)"
    using Cons.prems(1) x by simp_all
  have step: "covering_loop H layout f stop (x # es) rows = bind_outcome (map_err DQuery (row_keep H f ?row)) (\<lambda>keep.
      if \<not> keep then covering_loop H layout f stop es rows
      else if (case stop of Some n \<Rightarrow> n \<le> length (rows @ [?row]) | None \<Rightarrow> False) then Ok (rows @ [?row])
      else covering_loop H layout f stop es (rows @ [?row]))"
    unfolding x covering_loop.simps row by (simp add: row_keep_err)
  show ?case
  proof (cases "row_keep H f ?row")
    case (Ok b)
    show ?thesis
    proof (cases b)
      case False
      have run: "covering_loop H layout f stop (x # es) rows = covering_loop H layout f stop es rows"
        unfolding step using Ok False by simp
      show ?thesis unfolding run using Cons.IH [OF rest Cons.prems(2)] Ok False x
        by (cases stop; cases "covering_loop H layout f stop es rows") auto
    next
      case True
      show ?thesis
      proof (cases "case stop of Some n \<Rightarrow> n \<le> length (rows @ [?row]) | None \<Rightarrow> False")
        case stopped: True
        then obtain n where n: "stop = Some n" "n - length rows = 1"
          using Cons.prems(2) by (auto split: option.splits)
        have "covering_loop H layout f stop (x # es) rows = Ok (rows @ [?row])"
          unfolding step using Ok True stopped by simp
        then show ?thesis using Ok True x n by simp
      next
        case False
        then have run: "covering_loop H layout f stop (x # es) rows = covering_loop H layout f stop es (rows @ [?row])"
          unfolding step using Ok True by simp
        have more: "case stop of Some n \<Rightarrow> length (rows @ [?row]) < n | None \<Rightarrow> True" using False by (auto split: option.splits)
        have "n - length rows = Suc (n - length (rows @ [?row]))" if "stop = Some n" for n using more that by simp
        then show ?thesis unfolding run using Cons.IH [OF rest more] Ok True x
          by (auto split: outcome.splits option.splits)
      qed
    qed
  next
    case (Err e)
    then show ?thesis unfolding step using x by simp
  next
    case Panic
    then show ?thesis unfolding step using x by simp
  qed
qed

lemma row_keep_project:
  "(case f of Some g \<Rightarrow> filter_columns g \<subseteq> names | None \<Rightarrow> True) \<Longrightarrow> row_keep H f (project names row) = row_keep H f row"
  by (simp add: row_keep_def matches_project split: option.splits)

lemma page_take:
  assumes "q_limit q = Some limit" "length xs \<le> most"
  shows "page q (take (min most ((case q_offset q of Some n \<Rightarrow> n | None \<Rightarrow> 0) + limit)) xs) = page q xs"
proof (cases "(case q_offset q of Some n \<Rightarrow> n | None \<Rightarrow> 0) + limit \<le> most")
  case True
  then show ?thesis using assms(1) by (simp add: page_def Let_def min_absorb2 drop_take)
next
  case False
  then show ?thesis using assms(2) by (simp add: min_absorb1)
qed

text \<open>A scan that covers the query selects every row that passes the filter.\<close>

lemma covering_scan_selects:
  assumes "covering_scan T q = Some scan" "\<not> (case q_filter q of Some f \<Rightarrow> is_fallible f | None \<Rightarrow> False)"
  shows "sc_columns scan \<in> set (ti_indexes T)"
    and "map fst row = ti_columns T \<Longrightarrow> row_wf row \<Longrightarrow> has_columns (ti_indexes T) row \<Longrightarrow> row_keep H (q_filter q) row = Ok True \<Longrightarrow>
      entry_in_scan scan (index_key (sc_columns scan) row)"
proof -
  have "sc_columns scan \<in> set (ti_indexes T) \<and> (map fst row = ti_columns T \<longrightarrow> row_wf row \<longrightarrow> has_columns (ti_indexes T) row \<longrightarrow>
      row_keep H (q_filter q) row = Ok True \<longrightarrow> entry_in_scan scan (index_key (sc_columns scan) row))"
  proof (cases "q_filter q")
    case None
    then obtain index where index: "scan = scan_prefix index []" "index \<in> set (ti_indexes T)"
      using assms(1) by (auto simp: covering_scan_def find_Some_iff)
    have "entry_in_scan scan (index_key index row)"
      unfolding index(1) by (cases index) (simp_all add: entry_in_scan_def is_exact_def scan_prefix_def scan_range_def index_key_def)
    then show ?thesis using index by (simp add: scan_prefix_def scan_range_def)
  next
    case (Some f)
    then have plan: "plan_access f (ti_indexes T) (ti_columns T) = Some \<lparr>pa_path = AScan scan, pa_verify = Some f\<rparr>"
      using assms by (auto simp: covering_scan_def plan_access_def split: option.splits access_path.splits)
    have over: "sc_columns scan \<in> set (ti_indexes T)" using plan_access_over(1) [OF plan] by simp
    moreover have "entry_in_scan scan (index_key (sc_columns scan) row)"
      if row: "map fst row = ti_columns T" "row_wf row" "has_columns (ti_indexes T) row" "row_keep H (q_filter q) row = Ok True"
    proof -
      have "scan_matches_row scan row"
        using plan_access_correct(1) [OF plan [folded row(1)] row(2,3), of H] row(4) Some by (simp add: row_keep_def)
      then show ?thesis using scan_matches_row_key [of scan row] row(3) over by (auto simp: has_columns_def)
    qed
    ultimately show ?thesis by blast
  qed
  then show "sc_columns scan \<in> set (ti_indexes T)"
    and "map fst row = ti_columns T \<Longrightarrow> row_wf row \<Longrightarrow> has_columns (ti_indexes T) row \<Longrightarrow> row_keep H (q_filter q) row = Ok True \<Longrightarrow>
      entry_in_scan scan (index_key (sc_columns scan) row)" by blast+
qed

section \<open>The pipeline on a list of rows\<close>

text \<open>
  The meaning of a query without relations on the rows that pass its filter: the first row of every
  distinct key, its selected columns, the order by all keys, and the page.
\<close>

definition query_results :: "'d :: linorder column_def list \<Rightarrow> 'd query \<Rightarrow> 'd row list \<Rightarrow> 'd table_columns list" where
  "query_results columns q rows =
     page q (sort_by (order_cmp (q_order_by q)) (apply_column_selection columns q
       (apply_distinct (q_distinct_by q) (map (\<lambda>row. [(This, row)]) rows))))"

definition finish :: "'d :: linorder column_def list \<Rightarrow> 'd query \<Rightarrow> 'd table_columns list \<Rightarrow> 'd table_columns list" where
  "finish columns q results =
     (let sorted = fold (\<lambda>(column, direction). sort_query_results column direction) (rev (q_order_by q))
        (apply_column_selection columns q (apply_distinct (q_distinct_by q) results))
      in if defer_pagination q then paginate q sorted else sorted)"

lemma finish_results:
  "finish columns q (map (\<lambda>row. [(This, row)]) (if defer_pagination q then rows else page q rows)) = query_results columns q rows"
proof (cases "defer_pagination q")
  case True
  then show ?thesis by (simp add: finish_def query_results_def sort_keys paginate_page)
next
  case False
  then have "q_order_by q = []" "q_distinct_by q = []" by (simp_all add: defer_pagination_def)
  then show ?thesis using False
    by (simp add: finish_def query_results_def apply_distinct_def sort_by_equal apply_column_selection_def page_map)
qed

lemma query_results_page:
  "q_limit q = Some 0 \<Longrightarrow> query_results columns q rows = []"
  "\<not> defer_pagination q \<Longrightarrow> page q rows = page q rows' \<Longrightarrow> query_results columns q rows = query_results columns q rows'"
  using finish_results [of columns q rows] finish_results [of columns q rows']
  by (simp_all add: query_results_def page_def)

lemma this_value_row [simp]: "this_value [(This, row)] column = row_get row column"
  by (simp add: this_value_def this_columns_def)

text \<open>Restricting the rows to columns that include the query's changes nothing.\<close>

lemma selection_project:
  assumes "set (query_columns (map fst row) q) \<subseteq> names"
  shows "apply_column_selection (map fst row) q [[(This, project names row)]] = apply_column_selection (map fst row) q [[(This, row)]]"
proof (cases "all_selected q")
  case True
  then have "\<forall>(c, v) \<in> set row. cd_name c \<in> names" using assms by (auto simp: all_selected_def query_columns_def)
  then have "project names row = row" by (auto simp: project_def intro!: filter_True)
  then show ?thesis by simp
next
  case False
  then show ?thesis using assms by (auto simp: apply_column_selection_def project_def intro!: filter_cong)
qed

lemma distinct_project:
  assumes "set names' \<subseteq> names"
  shows "retain_new (distinct_key names') seen (map (\<lambda>row. [(This, project names row)]) rows) =
    map (\<lambda>row. [(This, project names row)]) (retain_new (\<lambda>row. distinct_key names' [(This, row)]) seen rows)"
    "retain_new (distinct_key names') seen (map (\<lambda>row. [(This, row)]) rows) =
    map (\<lambda>row. [(This, row)]) (retain_new (\<lambda>row. distinct_key names' [(This, row)]) seen rows)"
proof -
  have "distinct_key names' [(This, project names row)] = distinct_key names' [(This, row)]" for row :: "'a row"
    using assms by (auto simp: distinct_key_def row_get_project subset_iff intro!: map_cong)
  then show "retain_new (distinct_key names') seen (map (\<lambda>row. [(This, project names row)]) rows) =
    map (\<lambda>row. [(This, project names row)]) (retain_new (\<lambda>row. distinct_key names' [(This, row)]) seen rows)"
    by (induction rows arbitrary: seen) simp_all
  show "retain_new (distinct_key names') seen (map (\<lambda>row. [(This, row)]) rows) =
    map (\<lambda>row. [(This, row)]) (retain_new (\<lambda>row. distinct_key names' [(This, row)]) seen rows)"
    by (induction rows arbitrary: seen) simp_all
qed

lemma selection_map: "apply_column_selection columns q (map f xs) = concat (map (\<lambda>x. apply_column_selection columns q [f x]) xs)"
  by (induction xs) (auto simp: apply_column_selection_def)

lemma set_retain_new: "set (retain_new key seen xs) \<subseteq> set xs"
  by (induction xs arbitrary: seen) auto

lemma query_results_project:
  assumes "needed_columns columns q \<subseteq> names" and "\<forall>row \<in> set rows. map fst row = columns"
  shows "query_results columns q (map (project names) rows) = query_results columns q rows"
proof -
  have sel: "apply_column_selection columns q (map (\<lambda>row. [(This, project names row)]) rs) =
      apply_column_selection columns q (map (\<lambda>row. [(This, row)]) rs)" if "set rs \<subseteq> set rows" for rs
    unfolding selection_map [of _ _ _ rs]
  proof (intro arg_cong [where f = concat] map_cong refl)
    fix row assume "row \<in> set rs"
    then have "map fst row = columns" using assms(2) that by blast
    then show "apply_column_selection columns q [[(This, project names row)]] = apply_column_selection columns q [[(This, row)]]"
      using selection_project [of row q names] assms(1) by (simp add: needed_columns_def)
  qed
  show ?thesis
  proof (cases "q_distinct_by q = []")
    case True
    then show ?thesis using sel [of rows] by (simp add: query_results_def apply_distinct_def comp_def)
  next
    case False
    have "set (q_distinct_by q) \<subseteq> names" using assms(1) by (auto simp: needed_columns_def)
    note d = distinct_project [OF this]
    show ?thesis using False by (simp add: query_results_def apply_distinct_def comp_def d sel [OF set_retain_new])
  qed
qed

lemma mset_of_keys:
  assumes "distinct (map f xs)" "distinct (map f ys)" "set xs = {y \<in> set ys. P y}"
  shows "mset xs = mset (filter P ys)"
proof -
  have "distinct xs" "distinct (filter P ys)" using assms(1,2) by (simp_all add: distinct_map)
  then show ?thesis using set_eq_iff_mset_eq_distinct [of xs "filter P ys"] assms(3) by simp
qed

context stored_table
begin

text \<open>The rows of the entries of an index, in key order.\<close>

lemma index_rows:
  assumes ok: "table_ok (ti_columns T) (ti_indexes T) tbl" and "columns \<in> set (ti_indexes T)"
  obtains es where "index_of store columns = Ok es" "sorted (map fst es)"
    and "\<forall>(k, a) \<in> set es. (a, the (map_of tbl a)) \<in> set tbl \<and> k = index_key columns (the (map_of tbl a))"
    and "mset (map (\<lambda>(k, a). the (map_of tbl a)) es) = mset (map snd tbl)"
proof -
  obtain es where es: "store columns = Some es" "index_for columns tbl es" using index_entries [OF assms(2)] by blast
  have d: "distinct (map fst tbl)" using ok by (simp add: table_ok_def)
  have m: "mset es = mset (map (\<lambda>(a, row). (index_key columns row, a)) tbl)" using es(2) by (simp add: index_for_def)
  have row: "map_of tbl a = Some row" if "(a, row) \<in> set tbl" for a row using d that by simp
  have "\<forall>(k, a) \<in> set es. (a, the (map_of tbl a)) \<in> set tbl \<and> k = index_key columns (the (map_of tbl a))"
    unfolding mset_eq_setD [OF m] using row by auto
  moreover have "mset (map (\<lambda>(k, a). the (map_of tbl a)) es) = mset (map snd tbl)"
  proof -
    have "mset (map (\<lambda>(k, a). the (map_of tbl a)) es) = mset (map ((\<lambda>(k, a). the (map_of tbl a)) \<circ> (\<lambda>(a, row). (index_key columns row, a))) tbl)"
      unfolding mset_map m by (simp add: multiset.map_comp)
    also have "map ((\<lambda>(k, a). the (map_of tbl a)) \<circ> (\<lambda>(a, row). (index_key columns row, a))) tbl = map snd tbl"
      using row by auto
    finally show ?thesis .
  qed
  ultimately show thesis using that [of es] es by (simp add: index_of_def index_for_def)
qed

lemma covering_entries:
  assumes ok: "table_ok (ti_columns T) (ti_indexes T) tbl"
    and scan: "covering_scan T q = Some scan" "\<not> (case q_filter q of Some f \<Rightarrow> is_fallible f | None \<Rightarrow> False)"
    and needed: "needed_columns (ti_columns T) q \<subseteq> set (sc_columns scan)"
  obtains es row_of found where "index_of store (sc_columns scan) = Ok es"
    and "\<forall>(k, a) \<in> set (scan_entries scan es). key_row (key_layout (ti_columns T) (sc_columns scan)) k = Ok (row_of k)"
    and "filter (\<lambda>row. row_keep H (q_filter q) row = Ok True) (map (row_of \<circ> fst) (scan_entries scan es)) =
      map (project (set (sc_columns scan))) found"
    and "mset found = mset (filter (\<lambda>row. row_keep H (q_filter q) row = Ok True) (map snd tbl))"
    and "\<And>row. row \<in> set (map (row_of \<circ> fst) (scan_entries scan es)) \<Longrightarrow>
      \<exists>r \<in> set (map snd tbl). row_keep H (q_filter q) r = row_keep H (q_filter q) row"
proof -
  let ?keep = "\<lambda>row. row_keep H (q_filter q) row" and ?cols = "sc_columns scan" and ?names = "set (sc_columns scan)"
  obtain es where es: "index_of store ?cols = Ok es" "sorted (map fst es)"
    "\<forall>(k, a) \<in> set es. (a, the (map_of tbl a)) \<in> set tbl \<and> k = index_key ?cols (the (map_of tbl a))"
    "mset (map (\<lambda>(k, a). the (map_of tbl a)) es) = mset (map snd tbl)"
    by (rule index_rows [OF ok covering_scan_selects(1) [OF scan]])
  define row where "row = (\<lambda>e :: 'd dbms_value list \<times> record_address. the (map_of tbl (snd e)))"
  let ?layout = "key_layout (ti_columns T) ?cols"
  define row_of where "row_of = (\<lambda>k. case key_row ?layout k of Ok row \<Rightarrow> row | _ \<Rightarrow> [])"
  have rows: "(snd e, row e) \<in> set tbl" "fst e = index_key ?cols (row e)" if "e \<in> set es" for e
    using es(3) that by (auto simp: split_beta row_def)
  have wf: "map fst (row e) = ti_columns T" "row_wf (row e)" "has_columns (ti_indexes T) (row e)" if "e \<in> set es" for e
    using rows(1) [OF that] ok by (auto simp: table_ok_def)
  have "key_row ?layout (fst e) = Ok (project ?names (row e))" if "e \<in> set es" for e
    using key_row_project [of "row e" ?cols] wf [OF that] rows(2) [OF that] by (simp add: row_wf_def)
  then have keyrow: "key_row ?layout (fst e) = Ok (row_of (fst e))" "row_of (fst e) = project ?names (row e)" if "e \<in> set es" for e
    using that by (simp_all add: row_of_def)
  have "length (fst e) = length (sc_columns scan)" if "e \<in> set es" for e using rows(2) [OF that] by simp
  then have "\<forall>(k, a) \<in> set es. length k = length (sc_columns scan)" by fastforce
  then have entries: "scan_entries scan es = filter (\<lambda>(k, a). entry_in_scan scan k) es"
    by (rule scan_entries_filter [OF es(2)])
  have sub: "set (scan_entries scan es) \<subseteq> set es" unfolding entries by auto
  have fcols: "case q_filter q of Some g \<Rightarrow> filter_columns g \<subseteq> ?names | None \<Rightarrow> True"
    using needed by (auto simp: needed_columns_def split: option.splits)
  note keep_project = row_keep_project [OF fcols]
  have projected: "map (row_of \<circ> fst) (scan_entries scan es) = map (project ?names) (map row (scan_entries scan es))"
    using sub keyrow(2) by auto
  have "filter (\<lambda>e. ?keep (row e) = Ok True) (scan_entries scan es) = filter (\<lambda>e. ?keep (row e) = Ok True) es"
    unfolding entries filter_filter
  proof (intro filter_cong refl)
    fix e assume e: "e \<in> set es"
    show "((case e of (k, a) \<Rightarrow> entry_in_scan scan k) \<and> ?keep (row e) = Ok True) = (?keep (row e) = Ok True)"
      using covering_scan_selects(2) [OF scan wf [OF e]] rows(2) [OF e] by (auto simp: split_beta)
  qed
  then have new: "filter (\<lambda>row. ?keep row = Ok True) (map (row_of \<circ> fst) (scan_entries scan es)) =
      map (project ?names) (filter (\<lambda>row. ?keep row = Ok True) (map row es))"
    unfolding projected filter_map by (simp add: comp_def keep_project)
  have "mset (map row es) = mset (map snd tbl)" using es(4) by (simp add: row_def split_beta')
  then have perm: "mset (filter (\<lambda>row. ?keep row = Ok True) (map row es)) = mset (filter (\<lambda>row. ?keep row = Ok True) (map snd tbl))"
    unfolding mset_filter by simp
  have table: "\<exists>r \<in> set (map snd tbl). ?keep r = ?keep x" if x: "x \<in> set (map (row_of \<circ> fst) (scan_entries scan es))" for x
  proof -
    obtain e where e: "e \<in> set es" "x = project ?names (row e)" using x sub unfolding projected by auto
    have "row e \<in> set (map snd tbl)" using rows(1) [OF e(1)] by force
    then show ?thesis using e(2) keep_project by metis
  qed
  have "\<forall>(k, a) \<in> set (scan_entries scan es). key_row ?layout k = Ok (row_of k)" using sub keyrow(1) by fastforce
  then show thesis using that es(1) new perm table by blast
qed

text \<open>
  A covering read gives the rows that pass the filter, restricted to the columns of an index that has
  every column of the query; when it stops early, the pages of the result do not change.
\<close>

lemma covering_spec:
  assumes ok: "table_ok (ti_columns T) (ti_indexes T) tbl" and len: "length tbl < usize_max H"
  shows "case try_covering_select H T store in_tx q of
      Ok None \<Rightarrow> True
    | Ok (Some rows) \<Rightarrow> \<not> in_tx \<and> (\<exists>found names. needed_columns (ti_columns T) q \<subseteq> names \<and>
        mset found = mset (filter (\<lambda>row. row_keep H (q_filter q) row = Ok True) (map snd tbl)) \<and>
        (q_limit q = Some 0 \<and> rows = [] \<or> defer_pagination q \<and> rows = map (project names) found \<or>
         \<not> defer_pagination q \<and> page q rows = page q (map (project names) found)))
    | Err e \<Rightarrow> \<exists>row \<in> set (map snd tbl). \<exists>e'. row_keep H (q_filter q) row = Err e' \<and> e = DQuery e'
    | Panic \<Rightarrow> \<exists>row \<in> set (map snd tbl). row_keep H (q_filter q) row = Panic"
proof (cases "try_covering_select H T store in_tx q = Ok None")
  case False
  obtain scan where tx: "\<not> in_tx" "q_eager_relations q = []"
    and scan: "covering_scan T q = Some scan" "\<not> (case q_filter q of Some f \<Rightarrow> is_fallible f | None \<Rightarrow> False)"
    and needed: "needed_columns (ti_columns T) q \<subseteq> set (sc_columns scan)"
    using False by (auto simp: try_covering_select_def covers_columns_def split: if_splits option.splits)
  obtain es row_of found where es: "index_of store (sc_columns scan) = Ok es"
    and kr: "\<forall>(k, a) \<in> set (scan_entries scan es). key_row (key_layout (ti_columns T) (sc_columns scan)) k = Ok (row_of k)"
    and new: "filter (\<lambda>row. row_keep H (q_filter q) row = Ok True) (map (row_of \<circ> fst) (scan_entries scan es)) =
      map (project (set (sc_columns scan))) found"
    and perm: "mset found = mset (filter (\<lambda>row. row_keep H (q_filter q) row = Ok True) (map snd tbl))"
    and table: "\<And>row. row \<in> set (map (row_of \<circ> fst) (scan_entries scan es)) \<Longrightarrow>
      \<exists>r \<in> set (map snd tbl). row_keep H (q_filter q) r = row_keep H (q_filter q) row"
    by (rule covering_entries [OF ok scan needed, of H]) blast
  let ?loop = "covering_loop H (key_layout (ti_columns T) (sc_columns scan)) (q_filter q) (stop_after H q) (scan_entries scan es) []"
  have run: "try_covering_select H T store in_tx q = (if q_limit q = Some 0 then Ok (Some []) else map_outcome Some ?loop)"
    using tx scan needed es by (simp add: try_covering_select_def covers_columns_def)
  show ?thesis
  proof (cases "q_limit q = Some 0")
    case True
    then show ?thesis unfolding run using tx(1) needed perm by auto
  next
    case limit: False
    have stop: "case stop_after H q of Some n \<Rightarrow> length ([] :: 'd row list) < n | None \<Rightarrow> True"
      using limit len by (auto simp: stop_after_def split: option.splits if_splits)
    note loop = covering_loop_rows [OF kr stop, of H "q_filter q", unfolded new]
    show ?thesis
    proof (cases ?loop)
      case (Ok rs)
      have "length found = length (filter (\<lambda>row. row_keep H (q_filter q) row = Ok True) (map snd tbl))"
        using perm by (rule mset_eq_length)
      also have "\<dots> \<le> length (map snd tbl)" by (rule length_filter_le)
      finally have most: "length (map (project (set (sc_columns scan))) found) \<le> usize_max H" using len by simp
      have rs: "rs = (case stop_after H q of Some n \<Rightarrow> take n (map (project (set (sc_columns scan))) found)
          | None \<Rightarrow> map (project (set (sc_columns scan))) found)"
        using loop Ok by (cases "stop_after H q") simp_all
      have "if defer_pagination q then rs = map (project (set (sc_columns scan))) found
          else page q rs = page q (map (project (set (sc_columns scan))) found)"
      proof (cases "defer_pagination q")
        case True
        then have "stop_after H q = None" by (auto simp: stop_after_def defer_pagination_def)
        then show ?thesis using rs True by simp
      next
        case False
        then show ?thesis using rs page_take [OF _ most]
          by (cases "q_limit q") (simp_all add: stop_after_def defer_pagination_def)
      qed
      then show ?thesis using run limit Ok tx(1) needed perm by (auto split: if_splits)
    next
      case (Err e)
      then obtain row e' where r: "row \<in> set (map (row_of \<circ> fst) (scan_entries scan es))" "row_keep H (q_filter q) row = Err e'" "e = DQuery e'"
        using loop by auto
      then show ?thesis using run limit Err table [OF r(1)] by auto
    next
      case Panic
      then obtain row where r: "row \<in> set (map (row_of \<circ> fst) (scan_entries scan es))" "row_keep H (q_filter q) row = Panic"
        using loop by auto
      then show ?thesis using run limit Panic table [OF r(1)] by auto
    qed
  qed
qed simp

lemma rows_read:
  assumes ok: "table_ok (ti_columns T) (ti_indexes T) tbl" and key: "key_column T" and len: "length tbl < usize_max H"
    and changes: "changes_ok T changes (map snd tbl)" and tx: "\<not> in_tx \<longrightarrow> changes = None"
    and visible: "visible = visible_rows changes (map snd tbl)"
  shows "case bind_outcome (try_covering_select H T store in_tx q) (\<lambda>covered.
        bind_outcome (case covered of Some rows \<Rightarrow> Ok (Some rows) | None \<Rightarrow> try_index_select H T store read_row changes (q_filter q)) (\<lambda>indexed.
        case indexed of Some rows \<Rightarrow> Ok (push_loop q rows 0 []) | None \<Rightarrow> scan_loop H q visible 0 [])) of
      Ok results \<Rightarrow> \<exists>rows. mset rows = mset (filter (\<lambda>row. row_keep H (q_filter q) row = Ok True) visible) \<and>
        finish (ti_columns T) q results = query_results (ti_columns T) q rows
    | Err e \<Rightarrow> \<exists>row \<in> set visible. \<exists>e'. row_keep H (q_filter q) row = Err e' \<and> e = DQuery e'
    | Panic \<Rightarrow> \<exists>row \<in> set visible. row_keep H (q_filter q) row = Panic"
proof -
  let ?keep = "\<lambda>row. row_keep H (q_filter q) row"
  note cover = covering_spec [OF ok len, of in_tx q]
  have base: "visible = map snd tbl" if "\<not> in_tx" using tx that visible by (simp add: visible_rows_def ops_in_def)
  have pushed: "finish (ti_columns T) q (push_loop q rows 0 []) = query_results (ti_columns T) q rows" for rows
    unfolding push_loop_page by (rule finish_results)
  show ?thesis
  proof (cases "try_covering_select H T store in_tx q")
    case (Ok covered)
    show ?thesis
    proof (cases covered)
      case (Some rows)
      then obtain found names where f: "\<not> in_tx" "needed_columns (ti_columns T) q \<subseteq> names"
        "mset found = mset (filter (\<lambda>row. ?keep row = Ok True) (map snd tbl))"
        "q_limit q = Some 0 \<and> rows = [] \<or> defer_pagination q \<and> rows = map (project names) found \<or>
         \<not> defer_pagination q \<and> page q rows = page q (map (project names) found)"
        using cover Ok by auto
      have "set found \<subseteq> set (map snd tbl)" using mset_eq_setD [OF f(3)] by auto
      then have cols: "\<forall>row \<in> set found. map fst row = ti_columns T" using ok by (fastforce simp: table_ok_def)
      have "query_results (ti_columns T) q rows = query_results (ti_columns T) q (map (project names) found)"
        using f(4)
      proof (elim disjE conjE)
        assume "q_limit q = Some 0"
        then show ?thesis by (simp add: query_results_page(1))
      next
        assume "\<not> defer_pagination q" "page q rows = page q (map (project names) found)"
        then show ?thesis by (rule query_results_page(2))
      qed simp
      then have "finish (ti_columns T) q (push_loop q rows 0 []) = query_results (ti_columns T) q found"
        unfolding pushed using query_results_project [OF f(2) cols] by simp
      then show ?thesis using Ok Some f(3) base [OF f(1)] by auto
    next
      case None
      have scan: ?thesis if "try_index_select H T store read_row changes (q_filter q) = Ok None"
      proof (cases "scan_loop H q visible 0 []")
        case loop: (Ok results)
        then have "results = push_loop q (filter (\<lambda>row. ?keep row = Ok True) visible) 0 []" using scan_loop_push [where H = H and q = q and rows = visible and cnt = 0 and results = "[]"] by simp
        then show ?thesis using Ok None that loop pushed
          by (auto intro!: exI [of _ "filter (\<lambda>row. ?keep row = Ok True) visible"])
      qed (use Ok None that scan_loop_push [where H = H and q = q and rows = visible and cnt = 0 and results = "[]"] in simp_all)
      show ?thesis
      proof (cases "q_filter q")
        case filter: None
        show ?thesis by (rule scan) (simp add: try_index_select_def filter)
      next
        case (Some f)
        note sel = select_spec [OF ok key changes, of H f, folded visible]
        have keep: "?keep row = matches H f row" for row by (simp add: row_keep_def Some)
        show ?thesis
        proof (cases "try_index_select H T store read_row changes (Some f)")
          case run: (Ok found)
          show ?thesis
          proof (cases found)
            case none: None
            show ?thesis by (rule scan) (simp add: Some run none)
          next
            case rows: (Some rows)
            then have r: "distinct (map row_pk rows)" "set rows = {row \<in> set visible. matches H f row = Ok True}" using sel run by simp_all
            have "distinct (map row_pk visible)" using visible_distinct(2) [OF key changes] visible by simp
            then have "mset rows = mset (filter (\<lambda>row. ?keep row = Ok True) visible)"
              by (rule mset_of_keys [OF r(1)]) (simp add: r(2) keep)
            then show ?thesis using Ok None Some run rows pushed [of rows] by auto
          qed
        next
          case (Err e)
          then show ?thesis using sel Ok None Some keep by auto
        next
          case Panic
          then show ?thesis using sel Ok None Some keep by auto
        qed
      qed
    qed
  next
    case (Err e)
    then have "\<not> in_tx" by (auto simp: try_covering_select_def split: if_splits)
    then show ?thesis using cover Err base by auto
  next
    case Panic
    then have "\<not> in_tx" by (auto simp: try_covering_select_def split: if_splits)
    then show ?thesis using cover Panic base by auto
  qed
qed

end

section \<open>Select on a table and its indexes\<close>

lemma bind_outcome_assoc: "bind_outcome (bind_outcome r f) g = bind_outcome r (\<lambda>x. bind_outcome (f x) g)"
  by (cases r) simp_all

lemma map_outcome_bind: "map_outcome g r = bind_outcome r (\<lambda>x. Ok (g x))"
  by (cases r) simp_all

lemma overlay_rows_visible:
  assumes "table_ok (ti_columns T) (ti_indexes T) tbl" "key_column T" "changes_ok T (db (ti_name T)) (map snd tbl)"
  shows "overlay_rows T db (map snd tbl) = visible_rows (db (ti_name T)) (map snd tbl)"
proof -
  have ops: "to_operations (overlay_of T db) = ops_in (db (ti_name T))"
    by (simp add: overlay_of_def ops_in_def to_new_def split: option.split)
  have "\<forall>row \<in> set (map snd tbl). keyed_row row" using keyed_of_columns(1) [OF assms(2)] assms(1) by (auto simp: table_ok_def)
  moreover have "\<forall>op \<in> set (to_operations (overlay_of T db)). op_ok op" using assms(3) by (simp add: ops changes_ok_def list_all_iff)
  ultimately show ?thesis using or_rows_exec [of "map snd tbl" "overlay_of T db"]
    by (simp add: overlay_rows_def overlay_rd_def visible_rows_def ops del: or_rows.simps)
qed

context stored_table
begin

text \<open>The pipeline with the reading of the rows and what follows it set apart.\<close>

lemma select_run:
  assumes "table_ok (ti_columns T) (ti_indexes T) tbl" and "key_column T"
    and "changes_ok T (Option.bind tx (\<lambda>db. db (ti_name T))) (map snd tbl)" and "q_eager_relations q = []"
    and "visible = visible_rows (Option.bind tx (\<lambda>db. db (ti_name T))) (map snd tbl)" and "q_group_by q = []" "q_having q = None"
  shows "select_columns H hash_iter fetch_batch T (Ok \<lparr>ta_indexes = store, ta_read = read_row, ta_rows = map snd tbl\<rparr>) (map_option Ok tx) q =
    map_outcome (finish (ti_columns T) q) (bind_outcome (try_covering_select H T store (tx \<noteq> None) q) (\<lambda>covered.
      bind_outcome (case covered of Some rows \<Rightarrow> Ok (Some rows)
        | None \<Rightarrow> try_index_select H T store read_row (Option.bind tx (\<lambda>db. db (ti_name T))) (q_filter q)) (\<lambda>indexed.
      case indexed of Some rows \<Rightarrow> Ok (push_loop q rows 0 []) | None \<Rightarrow> scan_loop H q visible 0 [])))"
proof -
  define db where "db = (case tx of Some db \<Rightarrow> db | None \<Rightarrow> Map.empty)"
  have changes: "Option.bind tx (\<lambda>db. db (ti_name T)) = db (ti_name T)" by (simp add: db_def split: option.split)
  have rows: "overlay_rows T db (map snd tbl) = visible"
    using overlay_rows_visible [OF assms(1,2), of db] assms(3,5) by (simp add: changes)
  have tx: "(case map_option Ok tx of Some ov \<Rightarrow> ov | None \<Rightarrow> Ok Map.empty) = Ok db" "(map_option Ok tx \<noteq> None) = (tx \<noteq> None)"
    by (simp_all add: db_def split: option.split)
  have agg: "reject_aggregate_clauses q = Ok ()" using assms(6,7) by (simp add: reject_aggregate_clauses_def)
  show ?thesis
    unfolding select_columns_def agg tx finish_def assms(4) bind_outcome.simps table_access.select_convs rows
      batch_load_eager_relations.simps map_outcome.simps changes
    by (simp add: bind_outcome_assoc map_outcome_bind)
qed

lemma select_store_spec:
  assumes "table_ok (ti_columns T) (ti_indexes T) tbl" and "key_column T" and "length tbl < usize_max H"
    and "changes_ok T (Option.bind tx (\<lambda>db. db (ti_name T))) (map snd tbl)" and "q_eager_relations q = []"
    and "visible = visible_rows (Option.bind tx (\<lambda>db. db (ti_name T))) (map snd tbl)"
  shows "case select_columns H hash_iter fetch_batch T (Ok \<lparr>ta_indexes = store, ta_read = read_row, ta_rows = map snd tbl\<rparr>) (map_option Ok tx) q of
      Ok results \<Rightarrow> q_group_by q = [] \<and> q_having q = None \<and>
        (\<exists>rows. mset rows = mset (filter (\<lambda>row. row_keep H (q_filter q) row = Ok True) visible) \<and>
          results = query_results (ti_columns T) q rows)
    | Err e \<Rightarrow> e = DQuery AggregateClauseInSelect \<and> (q_group_by q \<noteq> [] \<or> q_having q \<noteq> None) \<or>
        (\<exists>row \<in> set visible. \<exists>e'. row_keep H (q_filter q) row = Err e' \<and> e = DQuery e')
    | Panic \<Rightarrow> \<exists>row \<in> set visible. row_keep H (q_filter q) row = Panic"
proof (cases "q_group_by q \<noteq> [] \<or> q_having q \<noteq> None")
  case True
  then show ?thesis by (auto simp: select_columns_def reject_aggregate_clauses_def)
next
  case False
  let ?changes = "Option.bind tx (\<lambda>db. db (ti_name T))"
  define got where "got = bind_outcome (try_covering_select H T store (tx \<noteq> None) q) (\<lambda>covered.
      bind_outcome (case covered of Some rows \<Rightarrow> Ok (Some rows) | None \<Rightarrow> try_index_select H T store read_row ?changes (q_filter q)) (\<lambda>indexed.
      case indexed of Some rows \<Rightarrow> Ok (push_loop q rows 0 []) | None \<Rightarrow> scan_loop H q visible 0 []))"
  have run: "select_columns H hash_iter fetch_batch T (Ok \<lparr>ta_indexes = store, ta_read = read_row, ta_rows = map snd tbl\<rparr>) (map_option Ok tx) q =
      map_outcome (finish (ti_columns T) q) got"
    unfolding got_def by (rule select_run) (use assms False in auto)
  have "case got of
      Ok results \<Rightarrow> \<exists>rows. mset rows = mset (filter (\<lambda>row. row_keep H (q_filter q) row = Ok True) visible) \<and>
        finish (ti_columns T) q results = query_results (ti_columns T) q rows
    | Err e \<Rightarrow> \<exists>row \<in> set visible. \<exists>e'. row_keep H (q_filter q) row = Err e' \<and> e = DQuery e'
    | Panic \<Rightarrow> \<exists>row \<in> set visible. row_keep H (q_filter q) row = Panic"
    unfolding got_def using assms(1,2,3,4,6) by (intro rows_read) auto
  then show ?thesis unfolding run using False by (cases got) auto
qed

end

definition loaded_table :: "'d :: linorder table_info \<Rightarrow> (record_address \<times> 'd row) list \<Rightarrow> 'd table_access" where
  "loaded_table T tbl = \<lparr>ta_indexes = build_store (ti_indexes T) tbl, ta_read = stored_row tbl, ta_rows = map snd tbl\<rparr>"

lemma select_columns_spec:
  assumes "table_ok (ti_columns T) (ti_indexes T) tbl" and "key_column T" and "length tbl < usize_max H"
    and "changes_ok T (Option.bind tx (\<lambda>db. db (ti_name T))) (map snd tbl)" and "q_eager_relations q = []"
    and "visible = visible_rows (Option.bind tx (\<lambda>db. db (ti_name T))) (map snd tbl)"
  shows "case select_columns H hash_iter fetch_batch T (Ok (loaded_table T tbl)) (map_option Ok tx) q of
      Ok results \<Rightarrow> q_group_by q = [] \<and> q_having q = None \<and>
        (\<exists>rows. mset rows = mset (filter (\<lambda>row. row_keep H (q_filter q) row = Ok True) visible) \<and>
          results = query_results (ti_columns T) q rows)
    | Err e \<Rightarrow> e = DQuery AggregateClauseInSelect \<and> (q_group_by q \<noteq> [] \<or> q_having q \<noteq> None) \<or>
        (\<exists>row \<in> set visible. \<exists>e'. row_keep H (q_filter q) row = Err e' \<and> e = DQuery e')
    | Panic \<Rightarrow> \<exists>row \<in> set visible. row_keep H (q_filter q) row = Panic"
  using built.select_store_spec [OF assms] unfolding loaded_table_def .

text \<open>C36: a select without eager relations returns the result of its query on the rows the transaction sees: of the
  rows that pass the filter, in some order, the first of every distinct key, its selected columns, ordered
  by all keys and cut to the page. Whether the rows come from an index alone, through an index or from a
  scan changes nothing but the order before \<open>ORDER BY\<close>, and reading stops early only when the page is
  full. It fails only for an aggregate clause or with the error that the filter gives on a visible row.\<close>

theorem select_correct:
  assumes "table_ok (ti_columns T) (ti_indexes T) tbl" and "key_column T" and "length tbl < usize_max H"
    and "changes_ok T (Option.bind tx (\<lambda>db. db (ti_name T))) (map snd tbl)" and "q_eager_relations q = []"
    and "visible = visible_rows (Option.bind tx (\<lambda>db. db (ti_name T))) (map snd tbl)"
  shows "case select_columns H hash_iter fetch_batch T (Ok (loaded_table T tbl)) (map_option Ok tx) q of
      Ok results \<Rightarrow> q_group_by q = [] \<and> q_having q = None \<and>
        (\<exists>rows. mset rows = mset (filter (\<lambda>row. row_keep H (q_filter q) row = Ok True) visible) \<and>
          results = query_results (ti_columns T) q rows)
    | Err e \<Rightarrow> e = DQuery AggregateClauseInSelect \<and> (q_group_by q \<noteq> [] \<or> q_having q \<noteq> None) \<or>
        (\<exists>row \<in> set visible. \<exists>e'. row_keep H (q_filter q) row = Err e' \<and> e = DQuery e')
    | Panic \<Rightarrow> \<exists>row \<in> set visible. row_keep H (q_filter q) row = Panic"
  using assms by (rule select_columns_spec)

definition sample_query :: "int query" where
  "sample_query = qb_limit 1 (qb_order_by_desc ''age'' (qb_filter (Some sample_filter) default_query))"

theorem select_correct_witness:
  "case select_columns sample_host (\<lambda>s. []) (\<lambda>r c vs. Ok Map.empty) sample_info (Ok (loaded_table sample_info sample_table))
      (Some (Ok [''users'' \<mapsto> sample_overlay])) sample_query of
     Ok results \<Rightarrow> (\<exists>rows. mset rows = {#sample_user 8 30, sample_user 9 40#} \<and> results = query_results (ti_columns sample_info) sample_query rows)
   | _ \<Rightarrow> False"
proof -
  have q: "q_filter sample_query = Some sample_filter" "q_group_by sample_query = []" "q_having sample_query = None" "q_eager_relations sample_query = []"
    by (simp_all add: sample_query_def qb_limit_def qb_order_by_desc_def qb_filter_def default_query_def)
  have tx: "Option.bind (Some [''users'' \<mapsto> sample_overlay]) (\<lambda>db. db (ti_name sample_info)) = Some sample_overlay"
    by (simp add: sample_info_def)
  have few: "length sample_table < usize_max sample_host" by (simp add: sample_table_def sample_host_def)
  have keep: "row_keep sample_host (Some sample_filter) (sample_user 8 30) = Ok True" "row_keep sample_host (Some sample_filter) (sample_user 9 40) = Ok True"
    using sample_matches by (simp_all add: row_keep_def)
  show ?thesis
    using select_correct [of sample_info sample_table sample_host "Some [''users'' \<mapsto> sample_overlay]" sample_query, unfolded tx,
        OF sample_table_ok sample_key_column few sample_changes_ok q(4) refl, of "\<lambda>s. []" "\<lambda>r c vs. Ok Map.empty",
        unfolded sample_visible q] keep
    by (auto split: outcome.splits)
qed

section \<open>The order of the result\<close>

text \<open>
  The order a query asks for: the first key on which two records differ decides, ascending or
  descending; every record has a value under every key.
\<close>

fun in_order :: "(string \<times> order_direction) list \<Rightarrow> 'd :: linorder table_columns \<Rightarrow> 'd table_columns \<Rightarrow> bool" where
  "in_order [] a b \<longleftrightarrow> True"
| "in_order ((column, direction) # keys) a b \<longleftrightarrow>
     (\<exists>x y. this_value a column = Some x \<and> this_value b column = Some y \<and>
        ((if direction = Ascending then x < y else y < x) \<or> x = y \<and> in_order keys a b))"

lemma order_cmp_in_order:
  assumes "\<forall>column \<in> fst ` set keys. this_value a column \<noteq> None \<and> this_value b column \<noteq> None" and "order_cmp keys a b \<noteq> Greater"
  shows "in_order keys a b"
  using assms
proof (induction keys)
  case (Cons k keys)
  obtain column direction where k: "k = (column, direction)" by (cases k)
  obtain x y where v: "this_value a column = Some x" "this_value b column = Some y" using Cons.prems(1) k by auto
  have c: "key_cmp column direction a b = (if direction = Ascending then cmp x y else cmp y x)"
    by (cases direction) (simp_all add: key_cmp_def sort_values_with_direction_def v)
  have "cmp x y = Less \<longleftrightarrow> x < y" "cmp x y = Greater \<longleftrightarrow> y < x" "cmp y x = Less \<longleftrightarrow> y < x" "cmp y x = Greater \<longleftrightarrow> x < y"
    "cmp x y = Equal \<longleftrightarrow> x = y" "cmp y x = Equal \<longleftrightarrow> y = x" by simp_all
  then show ?case using Cons c v unfolding k
    by (cases "cmp x y"; cases "cmp y x"; cases "direction = Ascending") (auto simp: lex_cmp_def)
qed simp

lemma sorted_wrt_page: "sorted_wrt P xs \<Longrightarrow> sorted_wrt P (page q xs)"
  by (simp add: page_def Let_def sorted_wrt_drop sorted_wrt_take split: option.split)

lemma set_page: "set (page q xs) \<subseteq> set xs"
  by (auto simp: page_def Let_def dest!: in_set_takeD in_set_dropD split: option.splits)

text \<open>The columns that are selected have a value in every record.\<close>

lemma selected_value:
  assumes "rec \<in> set (apply_column_selection columns q (apply_distinct names (map (\<lambda>row. [(This, row)]) rows)))"
    and "\<forall>row \<in> set rows. map fst row = columns" and "column \<in> set (query_columns columns q)" "column \<in> cd_name ` set columns"
  shows "this_value rec column \<noteq> None"
proof -
  have "set (apply_distinct names (map (\<lambda>row. [(This, row)]) rows)) \<subseteq> (\<lambda>row. [(This, row)]) ` set rows"
    using set_retain_new [of "distinct_key names" "{}" "map (\<lambda>row. [(This, row)]) rows"] by (auto simp: apply_distinct_def)
  then obtain row where row: "row \<in> set rows"
    "rec = [(This, row)] \<or> rec = [(This, filter (\<lambda>(c, _). cd_name c \<in> set (query_columns columns q)) row)]"
    using assms(1) by (auto simp: apply_column_selection_def split: if_splits)
  have "column \<in> set (row_names row)" using row(1) assms(2,4) by (auto simp: row_names_fst)
  then have "column \<in> set (row_names row)" "column \<in> set (row_names (filter (\<lambda>(c, _). cd_name c \<in> set (query_columns columns q)) row))"
    using assms(3) by (auto simp: row_names_def)
  then show ?thesis using row(2) by (elim disjE) (simp_all add: row_get_None_iff)
qed

lemma query_results_ordered:
  assumes "\<forall>row \<in> set rows. map fst row = columns" and "fst ` set (q_order_by q) \<subseteq> set (query_columns columns q) \<inter> cd_name ` set columns"
  shows "sorted_wrt (in_order (q_order_by q)) (query_results columns q rows)"
proof -
  let ?sel = "apply_column_selection columns q (apply_distinct (q_distinct_by q) (map (\<lambda>row. [(This, row)]) rows))"
  let ?sorted = "sort_by (order_cmp (q_order_by q)) ?sel"
  have mem: "set ?sorted = set ?sel" using mset_sort_by [of "order_cmp (q_order_by q)" ?sel] by (rule mset_eq_setD)
  have "sorted_wrt (\<lambda>a b. order_cmp (q_order_by q) a b \<noteq> Greater) ?sorted"
    using sorted_sort_by [OF total_order_cmp, of "q_order_by q" ?sel] by (simp add: sorted_by_def)
  then have "sorted_wrt (in_order (q_order_by q)) ?sorted"
  proof (rule sorted_wrt_mono_rel [rotated])
    fix a b assume ab: "a \<in> set ?sorted" "b \<in> set ?sorted" "order_cmp (q_order_by q) a b \<noteq> Greater"
    have "this_value r column \<noteq> None" if "r \<in> set ?sel" "column \<in> fst ` set (q_order_by q)" for r column
      using selected_value [OF that(1) assms(1)] assms(2) that(2) by blast
    then show "in_order (q_order_by q) a b" using ab unfolding mem by (intro order_cmp_in_order) simp_all
  qed
  then show ?thesis unfolding query_results_def by (rule sorted_wrt_page)
qed

text \<open>C37: the records a select returns are in the order it asks for: whenever the columns of \<open>ORDER BY\<close> are among the selected
  ones, every record comes before those that follow it on the first key in which they differ, ascending or
  descending as that key says, whichever way the rows were read.\<close>

theorem select_ordered:
  assumes "table_ok (ti_columns T) (ti_indexes T) tbl" and "key_column T" and "length tbl < usize_max H"
    and "changes_ok T (Option.bind tx (\<lambda>db. db (ti_name T))) (map snd tbl)" and "q_eager_relations q = []"
    and "fst ` set (q_order_by q) \<subseteq> set (query_columns (ti_columns T) q) \<inter> cd_name ` set (ti_columns T)"
    and "select_columns H hash_iter fetch_batch T (Ok (loaded_table T tbl)) (map_option Ok tx) q = Ok results"
  shows "sorted_wrt (in_order (q_order_by q)) results"
proof -
  let ?visible = "visible_rows (Option.bind tx (\<lambda>db. db (ti_name T))) (map snd tbl)"
  obtain rows where r: "mset rows = mset (filter (\<lambda>row. row_keep H (q_filter q) row = Ok True) ?visible)" "results = query_results (ti_columns T) q rows"
    using select_columns_spec [OF assms(1-5) refl, of hash_iter fetch_batch] assms(7) by auto
  have "set rows \<subseteq> set ?visible" using mset_eq_setD [OF r(1)] by auto
  then have "\<forall>row \<in> set rows. map fst row = ti_columns T" using assms(4) by (auto simp: changes_ok_def)
  then show ?thesis unfolding r(2) using assms(6) by (rule query_results_ordered)
qed

definition sample_ordered :: "int query" where
  "sample_ordered = qb_order_by_desc ''age'' default_query"

theorem select_ordered_witness:
  "\<exists>results. select_columns sample_host (\<lambda>s. []) (\<lambda>r c vs. Ok Map.empty) sample_info (Ok (loaded_table sample_info sample_table))
      (Some (Ok [''users'' \<mapsto> sample_overlay])) sample_ordered = Ok results \<and> sorted_wrt (in_order [(''age'', Descending)]) results"
proof -
  let ?tx = "Some [''users'' \<mapsto> sample_overlay]"
  have q: "q_filter sample_ordered = None" "q_group_by sample_ordered = []" "q_having sample_ordered = None" "q_eager_relations sample_ordered = []"
    "q_order_by sample_ordered = [(''age'', Descending)]" "q_columns sample_ordered = SelectAll"
    by (simp_all add: sample_ordered_def qb_order_by_desc_def default_query_def)
  have tx: "Option.bind ?tx (\<lambda>db. db (ti_name sample_info)) = Some sample_overlay" by (simp add: sample_info_def)
  have few: "length sample_table < usize_max sample_host" by (simp add: sample_table_def sample_host_def)
  have cols: "fst ` set (q_order_by sample_ordered) \<subseteq> set (query_columns (ti_columns sample_info) sample_ordered) \<inter> cd_name ` set (ti_columns sample_info)"
    by (simp add: q(5) query_columns_def q(6)) (simp add: sample_info_def sample_column_def)
  have changes: "changes_ok sample_info (Option.bind ?tx (\<lambda>db. db (ti_name sample_info))) (map snd sample_table)"
    unfolding tx by (rule sample_changes_ok)
  note hyps = sample_table_ok sample_key_column few changes q(4)
  let ?run = "select_columns sample_host (\<lambda>s. []) (\<lambda>r c vs. Ok Map.empty) sample_info (Ok (loaded_table sample_info sample_table)) (map_option Ok ?tx) sample_ordered"
  obtain results where r: "?run = Ok results"
    using select_columns_spec [OF hyps refl, of "\<lambda>s. []" "\<lambda>r c vs. Ok Map.empty"] q by (cases ?run) (auto simp: row_keep_def)
  then show ?thesis using select_ordered [OF hyps cols r] q(5) by simp
qed

section \<open>Ordering by a column that is not selected\<close>

lemma find_map_pair: "find (\<lambda>(src, _). src = This) (map (\<lambda>(src, cols). (src, g src cols)) rec) =
    map_option (\<lambda>(src, cols). (src, g src cols)) (find (\<lambda>(src, _). src = This) rec)"
  by (induction rec) auto

lemma query_results_unselected:
  assumes "\<not> all_selected q" and "fst ` set (q_order_by q) \<inter> set (query_columns columns q) = {}"
  shows "query_results columns q rows = query_results columns (q\<lparr>q_order_by := []\<rparr>) rows"
proof -
  let ?selected = "apply_column_selection columns q (apply_distinct (q_distinct_by q) (map (\<lambda>row. [(This, row)]) rows))"
  have none: "this_value rec column = None" if r: "rec \<in> set ?selected" "column \<notin> set (query_columns columns q)" for rec column
  proof -
    have "row_get (filter (\<lambda>(c, _). cd_name c \<in> set (query_columns columns q)) cols) column = None" for cols :: "'a row"
      using r(2) by (auto simp: row_get_None_iff row_names_def)
    moreover obtain g where "rec = map (\<lambda>(src, cols).
        (src, if src = This then filter (\<lambda>(c, _). cd_name c \<in> set (query_columns columns q)) cols else cols)) g"
      using r(1) assms(1) by (auto simp: apply_column_selection_def)
    moreover have "fst x = This" if "find (\<lambda>(src, _). src = This) g = Some x" for x
      using that by (auto simp: find_Some_iff split_beta)
    ultimately show ?thesis
      by (cases "find (\<lambda>(src, _). src = This) g") (auto simp: this_value_def this_columns_def find_map_pair)
  qed
  have "order_cmp keys a b = Equal" if "fst ` set keys \<inter> set (query_columns columns q) = {}" "a \<in> set ?selected" "b \<in> set ?selected" for keys a b
    using that(1)
  proof (induction keys)
    case (Cons k keys)
    then have "this_value a (fst k) = None" "this_value b (fst k) = None" using none that(2,3) by auto
    then show ?case using Cons by (cases k) (simp add: lex_cmp_def key_cmp_def sort_values_with_direction_def)
  qed simp
  then have "sort_by (order_cmp (q_order_by q)) ?selected = ?selected" using assms(2) by (intro sort_by_all_equal) blast
  moreover have "sort_by (order_cmp []) ?selected = ?selected" by (simp add: sort_by_equal)
  moreover have qc: "q_columns (q\<lparr>q_order_by := []\<rparr>) = q_columns q" by simp
  moreover have "apply_column_selection columns (q\<lparr>q_order_by := []\<rparr>) = apply_column_selection columns q"
    "page (q\<lparr>q_order_by := []\<rparr>) xs = page q xs" for xs :: "'a table_columns list"
    unfolding apply_column_selection_def [abs_def] all_selected_def query_columns_def qc by (simp_all add: page_def)
  ultimately show ?thesis by (simp add: query_results_def)
qed

context stored_table
begin

text \<open>Without a covering scan the rows that are read depend on the filter only.\<close>

lemma select_not_covered:
  assumes "table_ok (ti_columns T) (ti_indexes T) tbl" and "key_column T"
    and "changes_ok T (Option.bind tx (\<lambda>db. db (ti_name T))) (map snd tbl)" and "q_eager_relations q = []"
    and "visible = visible_rows (Option.bind tx (\<lambda>db. db (ti_name T))) (map snd tbl)" and "q_group_by q = []" "q_having q = None"
    and "try_covering_select H T store (tx \<noteq> None) q = Ok None" and "\<forall>row \<in> set visible. \<exists>b. row_keep H (q_filter q) row = Ok b"
  shows "select_columns H hash_iter fetch_batch T (Ok \<lparr>ta_indexes = store, ta_read = read_row, ta_rows = map snd tbl\<rparr>) (map_option Ok tx) q =
    Ok (query_results (ti_columns T) q (case try_index_select H T store read_row (Option.bind tx (\<lambda>db. db (ti_name T))) (q_filter q) of
      Ok (Some rows) \<Rightarrow> rows | _ \<Rightarrow> filter (\<lambda>row. row_keep H (q_filter q) row = Ok True) visible))"
proof -
  let ?read = "try_index_select H T store read_row (Option.bind tx (\<lambda>db. db (ti_name T))) (q_filter q)"
  have pushed: "finish (ti_columns T) q (push_loop q rows 0 []) = query_results (ti_columns T) q rows" for rows
    unfolding push_loop_page by (rule finish_results)
  have scan: "scan_loop H q visible 0 [] = Ok (push_loop q (filter (\<lambda>row. row_keep H (q_filter q) row = Ok True) visible) 0 [])"
    using scan_loop_push [where H = H and q = q and rows = visible and cnt = 0 and results = "[]"] assms(9)
    by (cases "scan_loop H q visible 0 []") (fastforce simp del: scan_loop.simps)+
  have "\<exists>res. ?read = Ok res"
  proof (cases "q_filter q")
    case (Some f)
    then show ?thesis using select_spec [OF assms(1-3), of H f, folded assms(5)] assms(9) by (cases ?read) (auto simp: row_keep_def)
  qed (simp add: try_index_select_def)
  then show ?thesis using select_run [OF assms(1-7), of H hash_iter fetch_batch] assms(8) scan pushed by (auto split: option.split)
qed

end

text \<open>The columns that are not selected are dropped before the records are ordered. Where no covering scan of an index answers
  the query, as in every transaction, an \<open>ORDER BY\<close> over columns that are not selected therefore has no
  effect at all: the select returns the records of the same query without it, in the same order and cut to
  the same page.\<close>

theorem order_by_unselected_ignored:
  assumes "table_ok (ti_columns T) (ti_indexes T) tbl" and "key_column T"
    and "changes_ok T (Option.bind tx (\<lambda>db. db (ti_name T))) (map snd tbl)" and "q_eager_relations q = []"
    and "visible = visible_rows (Option.bind tx (\<lambda>db. db (ti_name T))) (map snd tbl)" and "q_group_by q = []" and "q_having q = None"
    and "\<forall>row \<in> set visible. \<exists>b. row_keep H (q_filter q) row = Ok b"
    and "\<not> all_selected q" and "fst ` set (q_order_by q) \<inter> set (query_columns (ti_columns T) q) = {}"
    and "try_covering_select H T (build_store (ti_indexes T) tbl) (tx \<noteq> None) q = Ok None"
    and "try_covering_select H T (build_store (ti_indexes T) tbl) (tx \<noteq> None) (q\<lparr>q_order_by := []\<rparr>) = Ok None"
  shows "\<exists>results. select_columns H hash_iter fetch_batch T (Ok (loaded_table T tbl)) (map_option Ok tx) q = Ok results \<and>
    select_columns H hash_iter fetch_batch T (Ok (loaded_table T tbl)) (map_option Ok tx) (q\<lparr>q_order_by := []\<rparr>) = Ok results"
proof -
  let ?q = "q\<lparr>q_order_by := []\<rparr>" and ?access = "Ok \<lparr>ta_indexes = build_store (ti_indexes T) tbl, ta_read = stored_row tbl, ta_rows = map snd tbl\<rparr>"
  have q: "q_filter ?q = q_filter q" "q_eager_relations ?q = []" "q_group_by ?q = []" "q_having ?q = None" using assms(4,6,7) by simp_all
  have "select_columns H hash_iter fetch_batch T ?access (map_option Ok tx) ?q = select_columns H hash_iter fetch_batch T ?access (map_option Ok tx) q"
    unfolding built.select_not_covered [OF assms(1-7,11,8)] built.select_not_covered [OF assms(1-3) q(2) assms(5) q(3,4) assms(12) assms(8) [folded q(1)]]
      q(1) query_results_unselected [OF assms(9,10)] ..
  then show ?thesis using built.select_not_covered [OF assms(1-7,11,8), of hash_iter fetch_batch] by (simp add: loaded_table_def)
qed

theorem order_by_unselected_ignored_witness:
  "\<exists>results. select_columns sample_host (\<lambda>s. []) (\<lambda>r c vs. Ok Map.empty) sample_info (Ok (loaded_table sample_info sample_table))
      (Some (Ok [''users'' \<mapsto> sample_overlay])) (qb_field ''id'' sample_ordered) = Ok results \<and>
    select_columns sample_host (\<lambda>s. []) (\<lambda>r c vs. Ok Map.empty) sample_info (Ok (loaded_table sample_info sample_table))
      (Some (Ok [''users'' \<mapsto> sample_overlay])) ((qb_field ''id'' sample_ordered)\<lparr>q_order_by := []\<rparr>) = Ok results"
proof -
  let ?tx = "Some [''users'' \<mapsto> sample_overlay]" and ?q = "qb_field ''id'' sample_ordered"
  have q: "q_filter ?q = None" "q_group_by ?q = []" "q_having ?q = None" "q_eager_relations ?q = []" "\<not> all_selected ?q"
    "fst ` set (q_order_by ?q) \<inter> set (query_columns (ti_columns sample_info) ?q) = {}"
    by (simp_all add: sample_ordered_def qb_field_def qb_order_by_desc_def default_query_def all_selected_def query_columns_def)
  have tx: "Option.bind ?tx (\<lambda>db. db (ti_name sample_info)) = Some sample_overlay" by (simp add: sample_info_def)
  have changes: "changes_ok sample_info (Option.bind ?tx (\<lambda>db. db (ti_name sample_info))) (map snd sample_table)"
    unfolding tx by (rule sample_changes_ok)
  note hyps = sample_table_ok sample_key_column changes q(4)
  have cov: "try_covering_select sample_host sample_info store (?tx \<noteq> None) q = Ok None" for store q by (simp add: try_covering_select_def)
  show ?thesis
    using order_by_unselected_ignored [OF hyps refl q(2,3) _ q(5,6) cov cov, of "\<lambda>s. []" "\<lambda>r c vs. Ok Map.empty"] q(1)
    by (auto simp: row_keep_def)
qed

end
