(* ===== verification/Join.thy ===== *)
theory Join
  imports Select
begin

text \<open>
  The join engine, \<^verbatim>\<open>wasm-dbms/src/join.rs\<close>, and its result set, \<^verbatim>\<open>wasm-dbms-api/src/dbms/query/join_result.rs\<close>.
  Main results: a hash join is a nested-loop join, and a join query over tables of which only the rows
  that can match are loaded returns what joining the whole tables gives.
\<close>

section \<open>The sides of a join\<close>

record 'd join_side =
  js_table :: string
  js_columns :: "'d column_def list"
  js_rows :: "'d row list"
  js_null_row :: "'d row"

type_synonym row_ref = "nat option list"
type_synonym key_position = "nat \<times> nat"

definition js_new :: "string \<Rightarrow> 'd column_def list \<Rightarrow> 'd row list \<Rightarrow> 'd join_side" where
  "js_new table columns rows =
     \<lparr>js_table = table, js_columns = columns, js_rows = rows, js_null_row = map (\<lambda>c. (c, Null)) columns\<rparr>"

definition js_row :: "'d join_side \<Rightarrow> nat option \<Rightarrow> 'd row" where
  "js_row side index = (case index of Some i \<Rightarrow> js_rows side ! i | None \<Rightarrow> js_null_row side)"

definition column_position :: "'d join_side \<Rightarrow> string \<Rightarrow> nat option" where
  "column_position side column = position (\<lambda>c. cd_name c = column) (js_columns side)"

section \<open>The hash join\<close>

definition value_at :: "'d row \<Rightarrow> nat \<Rightarrow> 'd dbms_value" where
  "value_at row i = snd (row ! i)"

definition left_value :: "'d join_side list \<Rightarrow> key_position option \<Rightarrow> row_ref \<Rightarrow> 'd dbms_value option" where
  "left_value sides left_key row =
     Option.bind left_key (\<lambda>(side_index, column_index).
       map_option (\<lambda>i. value_at (js_rows (sides ! side_index) ! i) column_index) (row ! side_index))"

text \<open>The hash table; a key without rows has no entry.\<close>

fun build_table :: "nat \<Rightarrow> nat \<Rightarrow> 'd row list \<Rightarrow> ('d dbms_value \<Rightarrow> nat list) \<Rightarrow> 'd dbms_value \<Rightarrow> nat list" where
  "build_table column_index i [] build = build"
| "build_table column_index i (row # rows) build =
     build_table column_index (Suc i) rows
       (if is_null (value_at row column_index) then build
        else build(value_at row column_index := build (value_at row column_index) @ [i]))"

fun probe_loop ::
  "(row_ref \<Rightarrow> nat list) \<Rightarrow> bool \<Rightarrow> row_ref list \<Rightarrow> row_ref list \<Rightarrow> bool list \<Rightarrow> row_ref list \<times> bool list" where
  "probe_loop matching keep_unmatched_left [] results right_matched = (results, right_matched)"
| "probe_loop matching keep_unmatched_left (row # rows) results right_matched =
     (if matching row \<noteq> [] then
        probe_loop matching keep_unmatched_left rows (results @ map (\<lambda>i. row @ [Some i]) (matching row))
          (fold (\<lambda>i ms. ms[i := True]) (matching row) right_matched)
      else probe_loop matching keep_unmatched_left rows
        (if keep_unmatched_left then results @ [row @ [None]] else results) right_matched)"

definition hash_join ::
  "'d join_side list \<Rightarrow> row_ref list \<Rightarrow> key_position option \<Rightarrow> 'd join_side \<Rightarrow> string \<Rightarrow> bool \<Rightarrow> bool \<Rightarrow> row_ref list" where
  "hash_join sides rows left_key right_side right_col keep_unmatched_left keep_unmatched_right =
     (let build = (case column_position right_side right_col of
                     Some c \<Rightarrow> build_table c 0 (js_rows right_side) (\<lambda>_. [])
                   | None \<Rightarrow> (\<lambda>_. []));
          matching = (\<lambda>row. case left_value sides left_key row of
                        Some v \<Rightarrow> if is_null v then [] else build v
                      | None \<Rightarrow> []);
          (results, right_matched) =
            probe_loop matching keep_unmatched_left rows [] (replicate (length (js_rows right_side)) False)
      in results @ (if keep_unmatched_right
           then map (\<lambda>i. replicate (length sides) None @ [Some i]) (filter (\<lambda>i. \<not> right_matched ! i) [0..<length right_matched])
           else []))"

section \<open>Loading the right rows\<close>

text \<open>
  What the engine uses of the generated database schema: the columns and indexes of a table, and the
  rows a query on one table returns.
\<close>

record 'd database_schema =
  ds_table_columns :: "string \<Rightarrow> ('d column_def list, 'd) dbms_result"
  ds_table_indexes :: "string \<Rightarrow> (index_def list, 'd) dbms_result"
  ds_select :: "string \<Rightarrow> 'd query \<Rightarrow> ('d row list, 'd) dbms_result"

definition resolve_column_ref :: "string \<Rightarrow> string \<Rightarrow> string \<times> string" where
  "resolve_column_ref field default_table =
     (case split_once_dot field of Some (table, column) \<Rightarrow> (table, column) | None \<Rightarrow> (default_table, field))"

definition is_indexed_column :: "'d database_schema \<Rightarrow> string \<Rightarrow> string \<Rightarrow> bool" where
  "is_indexed_column S table column =
     (case ds_table_indexes S table of
        Ok indexes \<Rightarrow> list_ex (\<lambda>index. case index of c # _ \<Rightarrow> c = column | [] \<Rightarrow> False) indexes
      | _ \<Rightarrow> False)"

definition should_push_down_join_keys :: "'d database_schema \<Rightarrow> string \<Rightarrow> string \<Rightarrow> nat \<Rightarrow> bool" where
  "should_push_down_join_keys S table column key_count \<longleftrightarrow>
     key_count \<le> MAX_ALTERNATIVES \<and> is_indexed_column S table column"

definition all_rows :: "'d query" where
  "all_rows = qb_all default_query"

definition unique_join_values :: "'d join_side list \<Rightarrow> row_ref list \<Rightarrow> key_position \<Rightarrow> 'd dbms_value list" where
  "unique_join_values sides rows key =
     retain_new id {} (filter (\<lambda>v. \<not> is_null v) (List.map_filter (left_value sides (Some key)) rows))"

definition load_join_right_rows ::
  "'d database_schema \<Rightarrow> 'd join_side list \<Rightarrow> row_ref list \<Rightarrow> key_position option \<Rightarrow> string \<Rightarrow> string \<Rightarrow> bool \<Rightarrow>
   ('d row list, 'd) dbms_result" where
  "load_join_right_rows S sides rows left_key right_table right_col keep_unmatched_right =
     (if keep_unmatched_right then ds_select S right_table all_rows
      else case left_key of
          None \<Rightarrow> Ok []
        | Some key \<Rightarrow>
            (let keys = unique_join_values sides rows key in
             if keys = [] then Ok []
             else if \<not> should_push_down_join_keys S right_table right_col (length keys)
             then ds_select S right_table (qb_filter (Some (FNe right_col Null)) all_rows)
             else ds_select S right_table (qb_filter (Some (FIn right_col keys)) all_rows)))"

section \<open>Filtering, ordering and materialising joined rows\<close>

definition row_groups :: "'d join_side list \<Rightarrow> row_ref \<Rightarrow> (string \<times> 'd row) list" where
  "row_groups sides row = map (\<lambda>(side, index). (js_table side, js_row side index)) (zip sides row)"

definition joined_value :: "string option \<Rightarrow> string \<Rightarrow> (string \<times> 'd row) list \<Rightarrow> 'd dbms_value option" where
  "joined_value table column groups =
     (case List.map_filter (\<lambda>(t, row). row_get row column)
        (filter (\<lambda>(t, row). case table of Some name \<Rightarrow> t = name | None \<Rightarrow> True) groups) of
        v # _ \<Rightarrow> Some v | [] \<Rightarrow> None)"

definition find_value :: "'d join_side list \<Rightarrow> string option \<Rightarrow> string \<Rightarrow> row_ref \<Rightarrow> 'd dbms_value option" where
  "find_value sides table column row = joined_value table column (row_groups sides row)"

definition sort_column :: "string \<Rightarrow> string option \<times> string" where
  "sort_column column = (case split_once_dot column of Some (table, col) \<Rightarrow> (Some table, col) | None \<Rightarrow> (None, column))"

definition sort_joined_rows ::
  "'d :: linorder join_side list \<Rightarrow> string \<Rightarrow> order_direction \<Rightarrow> row_ref list \<Rightarrow> row_ref list" where
  "sort_joined_rows sides column direction rows =
     (case sort_column column of (table, col) \<Rightarrow>
        sort_by (\<lambda>a b. sort_values_with_direction (find_value sides table col a) (find_value sides table col b) direction) rows)"

text \<open>\<^verbatim>\<open>strip_prefix\<close> of the table and then of the dot.\<close>

definition qualified_name :: "string \<Rightarrow> string \<Rightarrow> string \<Rightarrow> bool" where
  "qualified_name table column field \<longleftrightarrow> field = table @ ''.'' @ column"

definition selected_columns :: "'d query \<Rightarrow> 'd join_side \<Rightarrow> bool list" where
  "selected_columns q side =
     map (\<lambda>c. all_selected q \<or>
       list_ex (\<lambda>field. field = cd_name c \<or> qualified_name (js_table side) (cd_name c) field) (raw_columns q)) (js_columns side)"

definition materialize_row :: "'d join_side list \<Rightarrow> bool list list \<Rightarrow> row_ref \<Rightarrow> 'd dbms_value list" where
  "materialize_row sides selected row =
     concat (map (\<lambda>((side, mask), index). map (\<lambda>((_, v), _). v) (filter snd (zip (js_row side index) mask)))
       (zip (zip sides selected) row))"

record join_column =
  jc_table :: "string option"
  jc_name :: string
  jc_data_type :: data_type_kind
  jc_nullable :: bool
  jc_primary_key :: bool
  jc_foreign_key :: "foreign_key_def option"

definition join_column_of :: "'d column_def \<Rightarrow> join_column" where
  "join_column_of c = \<lparr>jc_table = None, jc_name = cd_name c, jc_data_type = cd_data_type c, jc_nullable = cd_nullable c,
     jc_primary_key = cd_primary_key c, jc_foreign_key = cd_foreign_key c\<rparr>"

record 'd join_result_set =
  jr_columns :: "join_column list"
  jr_rows :: "'d dbms_value list list"

definition result_columns :: "'d join_side list \<Rightarrow> bool list list \<Rightarrow> join_column list" where
  "result_columns sides selected =
     concat (map (\<lambda>(side, mask). map (\<lambda>(c, _). (join_column_of c)\<lparr>jc_table := Some (js_table side)\<rparr>)
       (filter snd (zip (js_columns side) mask))) (zip sides selected))"

definition column_index :: "join_column list \<Rightarrow> string \<Rightarrow> nat option" where
  "column_index columns column =
     (case split_once_dot column of
        Some (table, name) \<Rightarrow> position (\<lambda>c. jc_table c = Some table \<and> jc_name c = name) columns
      | None \<Rightarrow> position (\<lambda>c. jc_name c = column) columns)"

definition jr_get :: "'d join_result_set \<Rightarrow> nat \<Rightarrow> string \<Rightarrow> 'd dbms_value option" where
  "jr_get res r column =
     (if r < length (jr_rows res) then
        Option.bind (column_index (jr_columns res) column) (\<lambda>i.
          if i < length (jr_rows res ! r) then Some (jr_rows res ! r ! i) else None)
      else None)"

section \<open>The join query\<close>

fun load_columns :: "'d database_schema \<Rightarrow> string list \<Rightarrow> ((string \<times> 'd column_def list) list, 'd) dbms_result" where
  "load_columns S [] = Ok []"
| "load_columns S (table # tables) =
     bind_outcome (ds_table_columns S table) (\<lambda>columns. map_outcome ((#) (table, columns)) (load_columns S tables))"

definition join_flags :: "join_type \<Rightarrow> bool \<times> bool" where
  "join_flags jt = (case jt of Inner \<Rightarrow> (False, False) | Left \<Rightarrow> (True, False) | Right \<Rightarrow> (False, True) | Full \<Rightarrow> (True, True))"

definition left_key_of :: "'d join_side list \<Rightarrow> string \<Rightarrow> string \<Rightarrow> key_position option" where
  "left_key_of sides left_table left_col =
     Option.bind (position (\<lambda>side. js_table side = left_table) sides) (\<lambda>side_index.
       map_option (\<lambda>column_index. (side_index, column_index)) (column_position (sides ! side_index) left_col))"

fun join_loop ::
  "'d database_schema \<Rightarrow> string \<Rightarrow> (join \<times> 'd column_def list) list \<Rightarrow> 'd join_side list \<Rightarrow> row_ref list \<Rightarrow>
   ('d join_side list \<times> row_ref list, 'd) dbms_result" where
  "join_loop S from_table [] sides rows = Ok (sides, rows)"
| "join_loop S from_table ((j, right_columns) # joins) sides rows =
     (let (left_table, left_col) = resolve_column_ref (j_left_column j) from_table;
          (_, right_col) = resolve_column_ref (j_right_column j) (j_table j);
          (keep_unmatched_left, keep_unmatched_right) = join_flags (j_type j);
          left_key = left_key_of sides left_table left_col
      in bind_outcome (load_join_right_rows S sides rows left_key (j_table j) right_col keep_unmatched_right) (\<lambda>right_rows.
           let right_side = js_new (j_table j) right_columns right_rows
           in join_loop S from_table joins (sides @ [right_side])
                (hash_join sides rows left_key right_side right_col keep_unmatched_left keep_unmatched_right)))"

fun filter_joined ::
  "'d :: linorder host \<Rightarrow> 'd query_filter \<Rightarrow> 'd join_side list \<Rightarrow> row_ref list \<Rightarrow> (row_ref list, 'd) dbms_result" where
  "filter_joined H f sides [] = Ok []"
| "filter_joined H f sides (row # rows) =
     bind_outcome (map_err DQuery (matches_joined_row H f (row_groups sides row))) (\<lambda>keep.
       map_outcome (\<lambda>rest. if keep then row # rest else rest) (filter_joined H f sides rows))"

definition join_select ::
  "'d :: linorder host \<Rightarrow> 'd database_schema \<Rightarrow> string \<Rightarrow> 'd query \<Rightarrow> ('d join_result_set, 'd) dbms_result" where
  "join_select H S from_table q =
     bind_outcome (load_columns S (from_table # map j_table (q_joins q))) (\<lambda>table_columns.
     bind_outcome (case q_filter q of Some f \<Rightarrow> map_err DQuery (validate_joined f table_columns) | None \<Rightarrow> Ok ()) (\<lambda>_.
     bind_outcome (ds_select S from_table all_rows) (\<lambda>from_rows.
     bind_outcome (join_loop S from_table (zip (q_joins q) (map snd (tl table_columns)))
         [js_new from_table (snd (hd table_columns)) from_rows] (map (\<lambda>i. [Some i]) [0..<length from_rows])) (\<lambda>(sides, rows).
     map_outcome (\<lambda>rows.
         let sorted = fold (\<lambda>(column, direction). sort_joined_rows sides column direction) (rev (q_order_by q)) rows;
             selected = map (selected_columns q) sides
         in \<lparr>jr_columns = result_columns sides selected,
              jr_rows = map (materialize_row sides selected) (paginate q sorted)\<rparr>)
       (case q_filter q of Some f \<Rightarrow> filter_joined H f sides rows | None \<Rightarrow> Ok rows)))))"

definition select_join ::
  "'d :: linorder host \<Rightarrow> 'd database_schema \<Rightarrow> string \<Rightarrow> 'd query \<Rightarrow> ('d join_result_set, 'd) dbms_result" where
  "select_join H S table q = bind_outcome (reject_aggregate_clauses q) (\<lambda>_. join_select H S table q)"

section \<open>A hash join is a nested-loop join\<close>

text \<open>The condition of the join between a joined row and a row of the right table.\<close>

definition joins_on :: "key_position option \<Rightarrow> nat option \<Rightarrow> (string \<times> 'd row) list \<Rightarrow> 'd row \<Rightarrow> bool" where
  "joins_on left_key right_pos groups row =
     (case (left_key, right_pos) of
        (Some (s, c), Some r) \<Rightarrow> \<not> is_null (value_at (snd (groups ! s)) c) \<and> value_at row r = value_at (snd (groups ! s)) c
      | _ \<Rightarrow> False)"

definition nested_join ::
  "(string \<times> 'd row) list \<Rightarrow> (string \<times> 'd row) \<Rightarrow> ((string \<times> 'd row) list \<Rightarrow> 'd row \<Rightarrow> bool) \<Rightarrow> bool \<Rightarrow> bool \<Rightarrow>
   (string \<times> 'd row) list list \<Rightarrow> 'd row list \<Rightarrow> (string \<times> 'd row) list list" where
  "nested_join nulls right_null cond keep_left keep_right lefts rights =
     concat (map (\<lambda>g. if list_ex (cond g) rights then map (\<lambda>r. g @ [(fst right_null, r)]) (filter (cond g) rights)
       else if keep_left then [g @ [right_null]] else []) lefts) @
     (if keep_right then map (\<lambda>r. nulls @ [(fst right_null, r)]) (filter (\<lambda>r. \<forall>g \<in> set lefts. \<not> cond g r) rights) else [])"

definition ref_ok :: "'d join_side list \<Rightarrow> row_ref \<Rightarrow> bool" where
  "ref_ok sides row \<longleftrightarrow> length row = length sides \<and>
     (\<forall>i < length sides. \<forall>k. row ! i = Some k \<longrightarrow> k < length (js_rows (sides ! i)))"

definition side_ok :: "'d join_side \<Rightarrow> bool" where
  "side_ok side \<longleftrightarrow> js_null_row side = map (\<lambda>c. (c, Null)) (js_columns side) \<and>
     (\<forall>row \<in> set (js_rows side). map fst row = js_columns side)"

definition key_ok :: "'d join_side list \<Rightarrow> key_position option \<Rightarrow> bool" where
  "key_ok sides left_key \<longleftrightarrow> (\<forall>s c. left_key = Some (s, c) \<longrightarrow> s < length sides \<and> c < length (js_columns (sides ! s)))"

lemma left_key_ok: "key_ok sides (left_key_of sides table col)"
  by (auto simp: key_ok_def left_key_of_def bind_eq_Some_conv column_position_def position_Some)

lemma build_table_rows:
  "\<not> is_null v \<Longrightarrow> build_table c i rows build v = build v @ map ((+) i) (filter (\<lambda>j. value_at (rows ! j) c = v) [0..<length rows])"
proof (induction rows arbitrary: i build)
  case (Cons row rows)
  have upt: "[0..<length (row # rows)] = 0 # map Suc [0..<length rows]"
    by (simp add: map_Suc_upt upt_conv_Cons del: upt_Suc)
  have "map ((+) i) (filter (\<lambda>j. value_at ((row # rows) ! j) c = v) [0..<length (row # rows)]) =
      (if value_at row c = v then [i] else []) @ map ((+) (Suc i)) (filter (\<lambda>j. value_at (rows ! j) c = v) [0..<length rows])"
    unfolding upt by (simp add: filter_map comp_def)
  then show ?case using Cons by auto
qed simp

lemma mark_all:
  "length (fold (\<lambda>i ms. ms[i := True]) ks ms) = length ms"
  "j < length ms \<Longrightarrow> fold (\<lambda>i ms. ms[i := True]) ks ms ! j \<longleftrightarrow> ms ! j \<or> j \<in> set ks"
proof (induction ks arbitrary: ms)
  case (Cons k ks)
  {
    case 2
    then have "ms[k := True] ! j \<longleftrightarrow> ms ! j \<or> j = k" by (cases "j = k") simp_all
    then show ?case using Cons.IH(2) [of "ms[k := True]"] 2 by auto
  }
qed simp_all

lemma probe_loop_spec:
  "fst (probe_loop matching keep rows results matched) = results @ concat (map (\<lambda>row.
      if matching row \<noteq> [] then map (\<lambda>i. row @ [Some i]) (matching row) else if keep then [row @ [None]] else []) rows)"
  "length (snd (probe_loop matching keep rows results matched)) = length matched"
  "j < length matched \<Longrightarrow> snd (probe_loop matching keep rows results matched) ! j \<longleftrightarrow>
     matched ! j \<or> (\<exists>row \<in> set rows. j \<in> set (matching row))"
proof (induction rows arbitrary: results matched)
  case (Cons row rows)
  {
    case 1
    show ?case using Cons.IH(1) by simp
  next
    case 2
    show ?case using Cons.IH(2) by (simp add: mark_all)
  next
    case 3
    then show ?case using Cons.IH(3) by (auto simp: mark_all)
  }
qed simp_all

lemma row_groups_nth:
  "length row = length sides \<Longrightarrow> i < length sides \<Longrightarrow> row_groups sides row ! i = (js_table (sides ! i), js_row (sides ! i) (row ! i))"
  by (simp add: row_groups_def)

lemma row_groups_snoc: "length row = length sides \<Longrightarrow>
    row_groups (sides @ [side]) (row @ [index]) = row_groups sides row @ [(js_table side, js_row side index)]"
  by (simp add: row_groups_def)

text \<open>The rows found in the hash table are those the condition selects.\<close>

lemma hash_matching:
  assumes "ref_ok sides row" "key_ok sides left_key" "\<forall>side \<in> set sides. side_ok side"
  shows "(case left_value sides left_key row of
      Some v \<Rightarrow> if is_null v then [] else
        (case right_pos of Some c \<Rightarrow> build_table c 0 rights (\<lambda>_. []) | None \<Rightarrow> (\<lambda>_. [])) v
    | None \<Rightarrow> []) =
    filter (\<lambda>j. joins_on left_key right_pos (row_groups sides row) (rights ! j)) [0..<length rights]"
proof (cases left_key)
  case None
  then show ?thesis by (simp add: left_value_def joins_on_def)
next
  case (Some key)
  obtain s c where key: "left_key = Some (s, c)" "s < length sides" "c < length (js_columns (sides ! s))"
    using assms(2) Some by (cases key) (auto simp: key_ok_def)
  have len: "length row = length sides" using assms(1) by (simp add: ref_ok_def)
  have group: "snd (row_groups sides row ! s) = js_row (sides ! s) (row ! s)" using row_groups_nth [OF len key(2)] by simp
  show ?thesis
  proof (cases "row ! s")
    case none: None
    have "js_null_row (sides ! s) = map (\<lambda>c. (c, Null)) (js_columns (sides ! s))"
      using assms(3) key(2) by (simp add: side_ok_def)
    then have "value_at (js_row (sides ! s) (row ! s)) c = Null" using key(3) none by (simp add: js_row_def value_at_def)
    then show ?thesis using key(1) none group by (simp add: left_value_def joins_on_def is_null_def split: option.split)
  next
    case (Some k)
    then have v: "left_value sides left_key row = Some (value_at (js_row (sides ! s) (row ! s)) c)"
      using key(1) by (simp add: left_value_def js_row_def)
    have zero: "map ((+) (0 :: nat)) ks = ks" for ks by (simp add: map_idI)
    show ?thesis
      unfolding v using key(1) group build_table_rows [of "value_at (js_row (sides ! s) (row ! s)) c" _ 0 rights "\<lambda>_. []", unfolded zero]
      by (cases "is_null (value_at (js_row (sides ! s) (row ! s)) c)") (simp_all add: joins_on_def split: option.split)
  qed
qed

lemma filter_indices: "map (\<lambda>j. f (xs ! j)) (filter (\<lambda>j. P (xs ! j)) [0..<length xs]) = map f (filter P xs)"
proof -
  have "filter P xs = filter P (map ((!) xs) [0..<length xs])" by (simp add: map_nth)
  then show ?thesis by (simp only: filter_map map_map comp_def)
qed

lemma filter_indices_Nil: "filter (\<lambda>j. P (xs ! j)) [0..<length xs] = [] \<longleftrightarrow> \<not> list_ex P xs"
  unfolding filter_empty_conv list_ex_iff by (auto simp: all_set_conv_all_nth)

text \<open>The joined rows of one left row.\<close>

lemma hash_join_left:
  assumes "length row = length sides" and match: "ks = filter (\<lambda>j. cond (js_rows side ! j)) [0..<length (js_rows side)]"
  shows "map (row_groups (sides @ [side])) (if ks \<noteq> [] then map (\<lambda>i. row @ [Some i]) ks else if keep_left then [row @ [None]] else []) =
      (if list_ex cond (js_rows side) then map (\<lambda>r. row_groups sides row @ [(js_table side, r)]) (filter cond (js_rows side))
       else if keep_left then [row_groups sides row @ [(js_table side, js_null_row side)]] else [])"
proof (cases "ks = []")
  case True
  then show ?thesis using filter_indices_Nil [of cond "js_rows side"] assms by (simp add: row_groups_snoc js_row_def)
next
  case False
  have "map (row_groups (sides @ [side])) (map (\<lambda>i. row @ [Some i]) ks) =
      map (\<lambda>r. row_groups sides row @ [(js_table side, r)]) (filter cond (js_rows side))"
    unfolding match filter_indices [of "\<lambda>r. row_groups sides row @ [(js_table side, r)]", symmetric]
    using assms(1) by (simp add: row_groups_snoc js_row_def)
  then show ?thesis using False filter_indices_Nil [of cond "js_rows side"] match by simp
qed

lemma ref_ok_snoc: "ref_ok sides row \<Longrightarrow> (\<And>k. index = Some k \<Longrightarrow> k < length (js_rows side)) \<Longrightarrow> ref_ok (sides @ [side]) (row @ [index])"
  by (auto simp: ref_ok_def nth_append less_Suc_eq)

lemma ref_ok_nulls: "ref_ok sides (replicate (length sides) None)"
  by (simp add: ref_ok_def)

lemma row_groups_nulls: "row_groups sides (replicate (length sides) None) = map (\<lambda>s. (js_table s, js_null_row s)) sides"
  unfolding row_groups_def zip_replicate2 by (simp add: js_row_def comp_def)

definition hash_matches :: "'d join_side list \<Rightarrow> key_position option \<Rightarrow> 'd join_side \<Rightarrow> string \<Rightarrow> row_ref \<Rightarrow> nat list" where
  "hash_matches sides left_key side right_col row = (case left_value sides left_key row of
      Some v \<Rightarrow> if is_null v then [] else
        (case column_position side right_col of Some c \<Rightarrow> build_table c 0 (js_rows side) (\<lambda>_. []) | None \<Rightarrow> (\<lambda>_. [])) v
    | None \<Rightarrow> [])"

lemma hash_join_parts:
  "hash_join sides rows left_key side right_col keep_left keep_right =
     concat (map (\<lambda>row. if hash_matches sides left_key side right_col row \<noteq> []
         then map (\<lambda>i. row @ [Some i]) (hash_matches sides left_key side right_col row)
         else if keep_left then [row @ [None]] else []) rows) @
     (if keep_right then map (\<lambda>i. replicate (length sides) None @ [Some i])
        (filter (\<lambda>i. \<forall>row \<in> set rows. i \<notin> set (hash_matches sides left_key side right_col row)) [0..<length (js_rows side)]) else [])"
proof -
  let ?m = "hash_matches sides left_key side right_col"
  let ?probe = "probe_loop ?m keep_left rows [] (replicate (length (js_rows side)) False)"
  have len: "length (snd ?probe) = length (js_rows side)" unfolding probe_loop_spec(2) by simp
  have run: "hash_join sides rows left_key side right_col keep_left keep_right = fst ?probe @ (if keep_right
      then map (\<lambda>i. replicate (length sides) None @ [Some i]) (filter (\<lambda>i. \<not> snd ?probe ! i) [0..<length (snd ?probe)]) else [])"
    unfolding hash_join_def Let_def hash_matches_def [abs_def] by (simp only: split_beta)
  have "filter (\<lambda>i. \<not> snd ?probe ! i) [0..<length (js_rows side)] =
      filter (\<lambda>i. \<forall>row \<in> set rows. i \<notin> set (?m row)) [0..<length (js_rows side)]"
    using probe_loop_spec(3) [of _ "replicate (length (js_rows side)) False" ?m keep_left rows "[]"] by (intro filter_cong refl) simp
  then show ?thesis unfolding run len probe_loop_spec(1) by simp
qed

lemma hash_join_nested:
  assumes rows: "\<forall>row \<in> set rows. ref_ok sides row" and key: "key_ok sides left_key" and sides: "\<forall>side \<in> set sides. side_ok side"
  shows "map (row_groups (sides @ [side])) (hash_join sides rows left_key side right_col keep_left keep_right) =
    nested_join (map (\<lambda>s. (js_table s, js_null_row s)) sides) (js_table side, js_null_row side)
      (joins_on left_key (column_position side right_col)) keep_left keep_right (map (row_groups sides) rows) (js_rows side)"
    and "\<forall>row \<in> set (hash_join sides rows left_key side right_col keep_left keep_right). ref_ok (sides @ [side]) row"
proof -
  let ?cond = "joins_on left_key (column_position side right_col)" and ?m = "hash_matches sides left_key side right_col"
  have match: "?m row = filter (\<lambda>j. ?cond (row_groups sides row) (js_rows side ! j)) [0..<length (js_rows side)]" if "row \<in> set rows" for row
    unfolding hash_matches_def using hash_matching [OF _ key sides] rows that by blast
  have len: "length row = length sides" if "row \<in> set rows" for row using rows that by (simp add: ref_ok_def)
  have left: "map (row_groups (sides @ [side])) (concat (map (\<lambda>row. if ?m row \<noteq> [] then map (\<lambda>i. row @ [Some i]) (?m row)
        else if keep_left then [row @ [None]] else []) rows)) =
      concat (map (\<lambda>g. if list_ex (?cond g) (js_rows side) then map (\<lambda>r. g @ [(js_table side, r)]) (filter (?cond g) (js_rows side))
        else if keep_left then [g @ [(js_table side, js_null_row side)]] else []) (map (row_groups sides) rows))"
    unfolding map_concat map_map comp_def
    by (intro arg_cong [where f = concat] map_cong refl hash_join_left len match)
  have "filter (\<lambda>i. \<forall>row \<in> set rows. i \<notin> set (?m row)) [0..<length (js_rows side)] =
      filter (\<lambda>i. \<forall>g \<in> set (map (row_groups sides) rows). \<not> ?cond g (js_rows side ! i)) [0..<length (js_rows side)]"
    using match by (intro filter_cong refl) simp
  then have right: "map (row_groups (sides @ [side])) (map (\<lambda>i. replicate (length sides) None @ [Some i])
        (filter (\<lambda>i. \<forall>row \<in> set rows. i \<notin> set (?m row)) [0..<length (js_rows side)])) =
      map (\<lambda>r. map (\<lambda>s. (js_table s, js_null_row s)) sides @ [(js_table side, r)])
        (filter (\<lambda>r. \<forall>g \<in> set (map (row_groups sides) rows). \<not> ?cond g r) (js_rows side))"
    unfolding filter_indices [of "\<lambda>r. map (\<lambda>s. (js_table s, js_null_row s)) sides @ [(js_table side, r)]", symmetric]
    by (simp add: row_groups_snoc row_groups_nulls js_row_def del: set_map)
  show "map (row_groups (sides @ [side])) (hash_join sides rows left_key side right_col keep_left keep_right) =
    nested_join (map (\<lambda>s. (js_table s, js_null_row s)) sides) (js_table side, js_null_row side)
      (joins_on left_key (column_position side right_col)) keep_left keep_right (map (row_groups sides) rows) (js_rows side)"
    unfolding hash_join_parts nested_join_def map_append left if_distrib [of "map (row_groups (sides @ [side]))"] right fst_conv
    by (simp only: list.map)
  have "ref_ok (sides @ [side]) (row @ [index])" if "row \<in> set rows" "index = None \<or> index \<in> Some ` set (?m row)" for row index
    using rows that match by (intro ref_ok_snoc) auto
  then show "\<forall>row \<in> set (hash_join sides rows left_key side right_col keep_left keep_right). ref_ok (sides @ [side]) row"
    unfolding hash_join_parts by (auto intro: ref_ok_snoc [OF ref_ok_nulls] split: if_splits)
qed

section \<open>Joining whole tables\<close>

text \<open>The joined rows of a query, each with its table names, from all rows of every table.\<close>

type_synonym 'd table_schema = "(string \<times> 'd column_def list) list"

definition null_group :: "string \<times> 'd column_def list \<Rightarrow> string \<times> 'd row" where
  "null_group side = (fst side, map (\<lambda>c. (c, Null)) (snd side))"

definition left_key_in :: "'d table_schema \<Rightarrow> string \<Rightarrow> string \<Rightarrow> key_position option" where
  "left_key_in schema left_table left_col =
     Option.bind (position (\<lambda>(t, _). t = left_table) schema) (\<lambda>s.
       map_option (\<lambda>c. (s, c)) (position (\<lambda>c. cd_name c = left_col) (snd (schema ! s))))"

fun join_spec ::
  "(string \<Rightarrow> 'd row list) \<Rightarrow> string \<Rightarrow> (join \<times> 'd column_def list) list \<Rightarrow> 'd table_schema \<Rightarrow> (string \<times> 'd row) list list \<Rightarrow>
   (string \<times> 'd row) list list" where
  "join_spec tables from_table [] schema lefts = lefts"
| "join_spec tables from_table ((j, columns) # joins) schema lefts =
     (let left_ref = resolve_column_ref (j_left_column j) from_table;
          right_col = snd (resolve_column_ref (j_right_column j) (j_table j));
          keep = join_flags (j_type j)
      in join_spec tables from_table joins (schema @ [(j_table j, columns)])
           (nested_join (map null_group schema) (null_group (j_table j, columns))
             (joins_on (left_key_in schema (fst left_ref) (snd left_ref)) (position (\<lambda>c. cd_name c = right_col) columns))
             (fst keep) (snd keep) lefts (tables (j_table j))))"

lemma position_map: "position P (map f xs) = position (P \<circ> f) xs"
  by (induction xs) simp_all

lemma position_cong: "(\<And>x. x \<in> set xs \<Longrightarrow> P x = Q x) \<Longrightarrow> position P xs = position Q xs"
  by (induction xs) simp_all

lemma left_key_schema: "left_key_of sides t c = left_key_in (map (\<lambda>s. (js_table s, js_columns s)) sides) t c"
proof -
  have "position (\<lambda>(t', _). t' = t) (map (\<lambda>s. (js_table s, js_columns s)) sides) = position (\<lambda>side. js_table side = t) sides"
    by (simp add: position_map comp_def)
  then show ?thesis
  proof (cases "position (\<lambda>side. js_table side = t) sides")
    case (Some s)
    then have "s < length sides" unfolding position_Some by blast
    then show ?thesis using Some \<open>position _ (map _ _) = _\<close> by (simp add: left_key_of_def left_key_in_def column_position_def)
  qed (simp add: left_key_of_def left_key_in_def)
qed

lemma nested_join_mset:
  assumes "mset L = mset L'" "mset R = mset R'"
  shows "mset (nested_join nulls n cond kl kr L R) = mset (nested_join nulls n cond kl kr L' R')"
proof -
  have sets: "set L = set L'" "set R = set R'" using assms by (auto dest: mset_eq_setD)
  have rows: "mset (filter P R) = mset (filter P R')" for P using assms(2) by simp
  have ex: "list_ex P R = list_ex P R'" for P using sets(2) by (simp add: list_ex_iff)
  let ?f = "\<lambda>R g. if list_ex (cond g) R then map (\<lambda>r. g @ [(fst n, r)]) (filter (cond g) R) else if kl then [g @ [n]] else []"
  have "mset (?f R g) = mset (?f R' g)" for g using rows [of "cond g"] ex [of "cond g"] by simp
  then have "mset (concat (map (?f R) L)) = mset (concat (map (?f R') L'))"
    using assms(1) by (simp add: mset_concat sum_mset_sum_list [symmetric] multiset.map_comp comp_def del: mset_filter)
  moreover have "mset (map (\<lambda>r. nulls @ [(fst n, r)]) (filter (\<lambda>r. \<forall>g \<in> set L. \<not> cond g r) R)) =
      mset (map (\<lambda>r. nulls @ [(fst n, r)]) (filter (\<lambda>r. \<forall>g \<in> set L'. \<not> cond g r) R'))"
    unfolding sets(1) mset_map rows ..
  ultimately show ?thesis unfolding nested_join_def by simp
qed

lemma nested_join_restrict:
  assumes "\<And>g r. g \<in> set L \<Longrightarrow> r \<in> set R \<Longrightarrow> cond g r \<Longrightarrow> P r"
  shows "nested_join nulls n cond kl False L (filter P R) = nested_join nulls n cond kl False L R"
proof -
  have "filter (cond g) (filter P R) = filter (cond g) R" "list_ex (cond g) (filter P R) = list_ex (cond g) R" if "g \<in> set L" for g
    using assms [OF that] by (auto intro!: filter_cong simp: list_ex_iff)
  then show ?thesis unfolding nested_join_def by (intro arg_cong2 [where f = append] arg_cong [where f = concat] map_cong refl) simp_all
qed

section \<open>The answer of a join query\<close>

text \<open>Ordering, page and selected columns, on joined rows with their table names.\<close>

definition joined_key_cmp :: "string \<Rightarrow> order_direction \<Rightarrow> (string \<times> 'd :: linorder row) list \<Rightarrow> (string \<times> 'd row) list \<Rightarrow> ordering" where
  "joined_key_cmp column direction a b =
     sort_values_with_direction (joined_value (fst (sort_column column)) (snd (sort_column column)) a)
       (joined_value (fst (sort_column column)) (snd (sort_column column)) b) direction"

fun joined_order :: "(string \<times> order_direction) list \<Rightarrow> (string \<times> 'd :: linorder row) list \<Rightarrow> (string \<times> 'd row) list \<Rightarrow> ordering" where
  "joined_order [] = (\<lambda>a b. Equal)"
| "joined_order ((column, direction) # keys) = lex_cmp (joined_key_cmp column direction) (joined_order keys)"

definition column_mask :: "'d query \<Rightarrow> string \<times> 'd column_def list \<Rightarrow> bool list" where
  "column_mask q side = map (\<lambda>c. all_selected q \<or>
     list_ex (\<lambda>field. field = cd_name c \<or> qualified_name (fst side) (cd_name c) field) (raw_columns q)) (snd side)"

definition group_values :: "bool list list \<Rightarrow> (string \<times> 'd row) list \<Rightarrow> 'd dbms_value list" where
  "group_values masks groups = concat (map (\<lambda>((_, row), mask). map (\<lambda>((_, v), _). v) (filter snd (zip row mask))) (zip groups masks))"

definition join_answer :: "'d :: linorder query \<Rightarrow> 'd table_schema \<Rightarrow> (string \<times> 'd row) list list \<Rightarrow> 'd join_result_set" where
  "join_answer q schema groups =
     \<lparr>jr_columns = concat (map (\<lambda>(side, mask). map (\<lambda>(c, _). (join_column_of c)\<lparr>jc_table := Some (fst side)\<rparr>) (filter snd (zip (snd side) mask)))
        (zip schema (map (column_mask q) schema))),
      jr_rows = map (group_values (map (column_mask q) schema)) (page q (sort_by (joined_order (q_order_by q)) groups))\<rparr>"

lemma sort_by_map: "map g (sort_by (\<lambda>a b. c (g a) (g b)) xs) = sort_by c (map g xs)"
proof -
  have "map g (insert_by (\<lambda>a b. c (g a) (g b)) x ys) = insert_by c (g x) (map g ys)" for x ys
    by (induction ys) simp_all
  then show ?thesis unfolding sort_by_def by (induction xs) simp_all
qed

lemma total_joined_key: "total_cmp (joined_key_cmp column direction)"
  unfolding total_cmp_def joined_key_cmp_def using sort_values_total by blast

lemma total_joined_order: "total_cmp (joined_order keys)"
proof (induction keys)
  case Nil
  show ?case by (simp add: total_cmp_def)
next
  case (Cons k keys)
  obtain column direction where k: "k = (column, direction)" by (cases k)
  show ?case unfolding k joined_order.simps by (rule total_lex_cmp [OF total_joined_key Cons.IH])
qed

lemma sort_joined_groups:
  "map (row_groups sides) (fold (\<lambda>(column, direction). sort_joined_rows sides column direction) (rev keys) rows) =
   sort_by (joined_order keys) (map (row_groups sides) rows)"
proof (induction keys)
  case (Cons k keys)
  obtain column direction where k: "k = (column, direction)" by (cases k)
  have "map (row_groups sides) (sort_joined_rows sides column direction ys) = sort_by (joined_key_cmp column direction) (map (row_groups sides) ys)" for ys
    using sort_by_map [of "row_groups sides" "joined_key_cmp column direction" ys]
    by (simp add: sort_joined_rows_def find_value_def joined_key_cmp_def split_beta)
  then show ?case using Cons sort_by_sort_by [OF total_joined_key total_joined_order] by (simp add: k)
qed (simp add: sort_by_equal)

lemma materialize_groups:
  assumes "length row = length sides"
  shows "materialize_row sides masks row = group_values masks (row_groups sides row)"
proof -
  have "zip (row_groups sides row) masks = map (\<lambda>((side, mask), index). ((js_table side, js_row side index), mask)) (zip (zip sides masks) row)"
    using assms unfolding row_groups_def
  proof (induction sides row arbitrary: masks rule: list_induct2')
    case (4 side sides index row)
    then show ?case by (cases masks) simp_all
  qed simp_all
  then show ?thesis unfolding materialize_row_def group_values_def by (simp add: comp_def split_beta')
qed

lemma sort_joined_mset: "mset (fold (\<lambda>(column, direction). sort_joined_rows sides column direction) keys rows) = mset rows"
  by (induction keys arbitrary: rows) (auto simp: sort_joined_rows_def split_beta)

lemma filter_joined_keep: "filter_joined H f sides rows = keep_all (\<lambda>row. map_err DQuery (matches_joined_row H f (row_groups sides row))) rows"
  by (induction rows) simp_all

lemma load_columns_Ok:
  "load_columns S names = Ok schema \<Longrightarrow> map fst schema = names \<and> (\<forall>(t, columns) \<in> set schema. ds_table_columns S t = Ok columns)"
proof (induction names arbitrary: schema)
  case (Cons t names)
  then show ?case by (cases "ds_table_columns S t"; cases "load_columns S names") auto
qed simp

section \<open>The contract of the schema\<close>

text \<open>
  What the engine relies on: selecting from a table returns its rows that pass the filter, in some
  order, and a row has the columns of its table.
\<close>

locale join_schema =
  fixes S :: "'d :: linorder database_schema" and H :: "'d host" and tables :: "string \<Rightarrow> 'd row list" and ready :: bool
  assumes table_rows: "ready \<Longrightarrow> ds_table_columns S t = Ok columns \<Longrightarrow> row \<in> set (tables t) \<Longrightarrow> map fst row = columns"
    and select_rows: "ready \<Longrightarrow> ds_table_columns S t = Ok columns \<Longrightarrow>
      f = None \<or> (\<exists>c. f = Some (FNe c Null)) \<or> (\<exists>c vs. f = Some (FIn c vs)) \<Longrightarrow>
      \<exists>rows. ds_select S t (qb_filter f all_rows) = Ok rows \<and>
        mset rows = mset (filter (\<lambda>row. row_keep H f row = Ok True) (tables t))"
begin

lemma select_all: "ready \<Longrightarrow> ds_table_columns S t = Ok columns \<Longrightarrow> \<exists>rows. ds_select S t all_rows = Ok rows \<and> mset rows = mset (tables t)"
  using select_rows [of t columns None] by (simp add: qb_filter_def all_rows_def qb_all_def default_query_def row_keep_def)

lemma key_value_any:
  assumes "position (\<lambda>c. cd_name c = name) columns = Some p" "map fst row = columns" "pred (value_at row p)"
  shows "row_any name pred row"
proof -
  have "p < length row" "cd_name (fst (row ! p)) = name" using assms(1,2) by (auto simp: position_Some)
  then show ?thesis using assms(3) unfolding row_any_def list_ex_iff value_at_def
    by (intro bexI [of _ "row ! p"]) (auto simp: split_beta)
qed

lemma set_retain_id: "set (retain_new id seen xs) = set xs - seen"
  by (induction xs arbitrary: seen) auto

text \<open>The rows that are loaded suffice for the join.\<close>

lemma load_rows_suffice:
  assumes "ready" and cols: "ds_table_columns S t = Ok columns" and rows: "\<forall>row \<in> set rows. ref_ok sides row"
    and key: "key_ok sides left_key" and sides: "\<forall>side \<in> set sides. side_ok side"
    and pos: "right_pos = position (\<lambda>c. cd_name c = right_col) columns"
  shows "\<exists>loaded. load_join_right_rows S sides rows left_key t right_col keep_right = Ok loaded \<and>
    set loaded \<subseteq> set (tables t) \<and>
    mset (nested_join nulls n (joins_on left_key right_pos) keep_left keep_right (map (row_groups sides) rows) loaded) =
    mset (nested_join nulls n (joins_on left_key right_pos) keep_left keep_right (map (row_groups sides) rows) (tables t))"
proof -
  let ?L = "map (row_groups sides) rows" and ?cond = "joins_on left_key right_pos"
  have filtered: ?thesis if load: "load_join_right_rows S sides rows left_key t right_col keep_right = Ok loaded"
    and m: "mset loaded = mset (filter P (tables t))" and keep: "keep_right = False"
    and P: "\<And>g r. g \<in> set ?L \<Longrightarrow> r \<in> set (tables t) \<Longrightarrow> ?cond g r \<Longrightarrow> P r" for loaded P
  proof -
    have "mset (nested_join nulls n ?cond keep_left False ?L loaded) = mset (nested_join nulls n ?cond keep_left False ?L (filter P (tables t)))"
      by (rule nested_join_mset [OF refl m])
    also have "nested_join nulls n ?cond keep_left False ?L (filter P (tables t)) = nested_join nulls n ?cond keep_left False ?L (tables t)"
      by (rule nested_join_restrict) (rule P)
    finally show ?thesis using load keep mset_eq_setD [OF m] by auto
  qed
  have left: "left_value sides left_key row = Some (value_at (snd (row_groups sides row ! s)) c)"
    if "row \<in> set rows" "left_key = Some (s, c)" "\<not> is_null (value_at (snd (row_groups sides row ! s)) c)" for row s c
  proof -
    have ok: "ref_ok sides row" "s < length sides" "c < length (js_columns (sides ! s))" "side_ok (sides ! s)"
      using rows key sides that by (auto simp: key_ok_def)
    have group: "snd (row_groups sides row ! s) = js_row (sides ! s) (row ! s)"
      using row_groups_nth [of row sides s] ok by (simp add: ref_ok_def)
    show ?thesis
    proof (cases "row ! s")
      case None
      then have "value_at (js_row (sides ! s) (row ! s)) c = Null" using ok by (simp add: js_row_def side_ok_def value_at_def)
      then show ?thesis using that(3) group by (simp add: is_null_def)
    qed (use that group in \<open>simp add: left_value_def js_row_def\<close>)
  qed
  show ?thesis
  proof (cases "keep_right \<or> left_key = None")
    case True
    then consider "keep_right" | "\<not> keep_right" "left_key = None" by blast
    then show ?thesis
    proof cases
      case 1
      obtain loaded where "ds_select S t all_rows = Ok loaded" "mset loaded = mset (tables t)" using select_all [OF assms(1) cols] by blast
      then show ?thesis using 1 nested_join_mset [OF refl, of loaded "tables t"] by (auto simp: load_join_right_rows_def dest: mset_eq_setD)
    next
      case 2
      show ?thesis
        by (rule filtered [of "[]" "\<lambda>_. False"]) (use 2 in \<open>auto simp: load_join_right_rows_def joins_on_def\<close>)
    qed
  next
    case False
    then obtain s c where lk: "left_key = Some (s, c)" "keep_right = False" by auto
    let ?keys = "unique_join_values sides rows (s, c)"
    have joined: "value_at r p \<in> set ?keys \<and> \<not> is_null (value_at r p)"
      if "row \<in> set rows" "?cond (row_groups sides row) r" "right_pos = Some p" for row r p
      using left [OF that(1) lk(1)] that lk(1)
      by (auto simp: joins_on_def unique_join_values_def set_retain_id set_map_filter)
    have no_pos: "\<not> ?cond g r" if "right_pos = None" for g r using that by (simp add: joins_on_def split: option.split)
    have any: "row_any right_col pred r" if h: "g \<in> set ?L" "r \<in> set (tables t)" "?cond g r"
      "\<And>v. v \<in> set ?keys \<Longrightarrow> \<not> is_null v \<Longrightarrow> pred v" for g r pred
    proof -
      obtain p where p: "right_pos = Some p" using no_pos h(3) by (cases right_pos) auto
      obtain row where row: "row \<in> set rows" "g = row_groups sides row" using h(1) by auto
      have "pred (value_at r p)" using joined [OF row(1) _ p] h(3,4) row(2) by blast
      then show ?thesis using key_value_any [of right_col columns p r pred] p pos table_rows [OF assms(1) cols h(2)] by simp
    qed
    consider "?keys = []" | "?keys \<noteq> []" "should_push_down_join_keys S t right_col (length ?keys)"
      | "?keys \<noteq> []" "\<not> should_push_down_join_keys S t right_col (length ?keys)" by blast
    then show ?thesis
    proof cases
      case 1
      show ?thesis
      proof (rule filtered [of "[]" "\<lambda>_. False"])
        show "False" if "g \<in> set ?L" "r \<in> set (tables t)" "?cond g r" for g r
          using any [OF that, of "\<lambda>_. False"] 1 by (simp add: row_any_def list_ex_iff split_beta)
      qed (use 1 lk in \<open>simp_all add: load_join_right_rows_def\<close>)
    next
      case 2
      obtain loaded where l: "ds_select S t (qb_filter (Some (FIn right_col ?keys)) all_rows) = Ok loaded"
        "mset loaded = mset (filter (\<lambda>row. row_keep H (Some (FIn right_col ?keys)) row = Ok True) (tables t))"
        using select_rows [OF assms(1) cols, of "Some (FIn right_col ?keys)"] by auto
      show ?thesis
        by (rule filtered [OF _ l(2) lk(2)]) (use 2 lk l(1) any [of _ _ "\<lambda>x. x \<in> set ?keys"] in \<open>auto simp: load_join_right_rows_def Let_def row_keep_def\<close>)
    next
      case 3
      obtain loaded where l: "ds_select S t (qb_filter (Some (FNe right_col Null)) all_rows) = Ok loaded"
        "mset loaded = mset (filter (\<lambda>row. row_keep H (Some (FNe right_col Null)) row = Ok True) (tables t))"
        using select_rows [OF assms(1) cols, of "Some (FNe right_col Null)"] by auto
      show ?thesis
        by (rule filtered [OF _ l(2) lk(2)]) (use 3 lk l(1) any [of _ _ "\<lambda>x. x \<noteq> Null"] in \<open>auto simp: load_join_right_rows_def Let_def row_keep_def is_null_def\<close>)
    qed
  qed
qed

lemma join_loop_spec:
  assumes "ready" and "\<forall>(j, columns) \<in> set joins. ds_table_columns S (j_table j) = Ok columns"
    and "\<forall>row \<in> set rows. ref_ok sides row" and "\<forall>side \<in> set sides. side_ok side"
    and "schema = map (\<lambda>s. (js_table s, js_columns s)) sides" and "mset (map (row_groups sides) rows) = mset lefts"
  shows "\<exists>sides' rows'. join_loop S from_table joins sides rows = Ok (sides', rows') \<and> (\<forall>row \<in> set rows'. ref_ok sides' row) \<and>
    (\<forall>side \<in> set sides'. side_ok side) \<and>
    map (\<lambda>s. (js_table s, js_columns s)) sides' = schema @ map (\<lambda>(j, columns). (j_table j, columns)) joins \<and>
    mset (map (row_groups sides') rows') = mset (join_spec tables from_table joins schema lefts)"
  using assms(2-)
proof (induction joins arbitrary: sides rows schema lefts)
  case Nil
  then show ?case by simp
next
  case (Cons x joins)
  obtain j columns where x: "x = (j, columns)" by (cases x)
  define left_ref right_col keep where "left_ref = resolve_column_ref (j_left_column j) from_table"
    and "right_col = snd (resolve_column_ref (j_right_column j) (j_table j))" and "keep = join_flags (j_type j)"
  define left_key where "left_key = left_key_of sides (fst left_ref) (snd left_ref)"
  have cols: "ds_table_columns S (j_table j) = Ok columns" using Cons.prems(1) x by simp
  have key: "key_ok sides left_key" unfolding left_key_def by (rule left_key_ok)
  have nulls: "map null_group schema = map (\<lambda>s. (js_table s, js_null_row s)) sides"
    using Cons.prems(3,4) by (simp add: null_group_def side_ok_def)
  obtain loaded where loaded: "load_join_right_rows S sides rows left_key (j_table j) right_col (snd keep) = Ok loaded"
    "set loaded \<subseteq> set (tables (j_table j))"
    and suffice: "mset (nested_join (map null_group schema) (null_group (j_table j, columns))
        (joins_on left_key (position (\<lambda>c. cd_name c = right_col) columns)) (fst keep) (snd keep) (map (row_groups sides) rows) loaded) =
      mset (nested_join (map null_group schema) (null_group (j_table j, columns))
        (joins_on left_key (position (\<lambda>c. cd_name c = right_col) columns)) (fst keep) (snd keep) (map (row_groups sides) rows) (tables (j_table j)))"
    using load_rows_suffice [OF assms(1) cols Cons.prems(2) key Cons.prems(3) refl] by blast
  define side where "side = js_new (j_table j) columns loaded"
  have side: "js_table side = j_table j" "js_columns side = columns" "js_rows side = loaded"
    "(js_table side, js_null_row side) = null_group (j_table j, columns)" "side_ok side"
    using loaded(2) table_rows [OF assms(1) cols] by (auto simp: side_def js_new_def null_group_def side_ok_def)
  let ?rows = "hash_join sides rows left_key side right_col (fst keep) (snd keep)"
  define lefts' where "lefts' = nested_join (map null_group schema) (null_group (j_table j, columns))
      (joins_on (left_key_in schema (fst left_ref) (snd left_ref)) (position (\<lambda>c. cd_name c = right_col) columns))
      (fst keep) (snd keep) lefts (tables (j_table j))"
  have lk: "left_key_in schema (fst left_ref) (snd left_ref) = left_key"
    unfolding left_key_def left_key_schema Cons.prems(4) ..
  have hj: "map (row_groups (sides @ [side])) ?rows = nested_join (map null_group schema) (null_group (j_table j, columns))
      (joins_on left_key (position (\<lambda>c. cd_name c = right_col) columns)) (fst keep) (snd keep) (map (row_groups sides) rows) loaded"
    unfolding hash_join_nested(1) [OF Cons.prems(2) key Cons.prems(3)] nulls side(4) unfolding side(2,3) column_position_def ..
  have m: "mset (map (row_groups (sides @ [side])) ?rows) = mset lefts'"
    unfolding hj suffice lefts'_def lk by (rule nested_join_mset [OF Cons.prems(5) refl])
  have run: "join_loop S from_table (x # joins) sides rows = join_loop S from_table joins (sides @ [side]) ?rows"
    using loaded(1) by (simp add: x left_ref_def right_col_def keep_def left_key_def side_def Let_def split_beta)
  have spec: "join_spec tables from_table (x # joins) schema lefts = join_spec tables from_table joins (schema @ [(j_table j, columns)]) lefts'"
    by (simp add: x lefts'_def left_ref_def right_col_def keep_def Let_def)
  have "\<exists>sides' rows'. join_loop S from_table joins (sides @ [side]) ?rows = Ok (sides', rows') \<and> (\<forall>row \<in> set rows'. ref_ok sides' row) \<and>
    (\<forall>side \<in> set sides'. side_ok side) \<and>
    map (\<lambda>s. (js_table s, js_columns s)) sides' = (schema @ [(j_table j, columns)]) @ map (\<lambda>(j, columns). (j_table j, columns)) joins \<and>
    mset (map (row_groups sides') rows') = mset (join_spec tables from_table joins (schema @ [(j_table j, columns)]) lefts')"
    by (rule Cons.IH [OF _ hash_join_nested(2) [OF Cons.prems(2) key Cons.prems(3)] _ _ m])
      (use Cons.prems(1,3,4) side in auto)
  then show ?case unfolding run spec by (simp add: x)
qed

lemma answer_of_refs:
  assumes "\<forall>row \<in> set rows. ref_ok sides row" and "map (\<lambda>s. (js_table s, js_columns s)) sides = schema"
  shows "(let sorted = fold (\<lambda>(column, direction). sort_joined_rows sides column direction) (rev (q_order_by q)) rows;
      selected = map (selected_columns q) sides
    in \<lparr>jr_columns = result_columns sides selected, jr_rows = map (materialize_row sides selected) (paginate q sorted)\<rparr>) =
    join_answer q schema (map (row_groups sides) rows)"
proof -
  let ?sorted = "fold (\<lambda>(column, direction). sort_joined_rows sides column direction) (rev (q_order_by q)) rows"
  have masks: "map (selected_columns q) sides = map (column_mask q) schema"
    by (simp add: assms(2) [symmetric] selected_columns_def column_mask_def)
  have cols: "result_columns sides ms = concat (map (\<lambda>(side, mask). map (\<lambda>(c, _). (join_column_of c)\<lparr>jc_table := Some (fst side)\<rparr>)
      (filter snd (zip (snd side) mask))) (zip schema ms))" for ms
    by (simp add: result_columns_def assms(2) [symmetric] zip_map1 comp_def split_beta')
  have "mset ?sorted = mset rows" by (rule sort_joined_mset)
  then have refs: "\<forall>row \<in> set (page q ?sorted). length row = length sides"
    using assms(1) mset_eq_setD [of ?sorted rows] set_page [of q ?sorted] by (auto simp: ref_ok_def)
  have "map (materialize_row sides ms) (page q ?sorted) = map (group_values ms) (page q (map (row_groups sides) ?sorted))" for ms
    unfolding page_map using refs by (simp add: materialize_groups)
  then show ?thesis unfolding Let_def join_answer_def masks cols paginate_page sort_joined_groups by simp
qed

lemma join_select_spec:
  assumes "ready" and load: "load_columns S (from_table # map j_table (q_joins q)) = Ok schema"
  defines "joined \<equiv> join_spec tables from_table (zip (q_joins q) (map snd (tl schema))) [hd schema] (map (\<lambda>row. [(from_table, row)]) (tables from_table))"
  shows "case join_select H S from_table q of
      Ok answer \<Rightarrow> \<exists>groups. mset groups = mset (filter (\<lambda>g. case q_filter q of Some f \<Rightarrow> matches_joined_row H f g = Ok True | None \<Rightarrow> True) joined) \<and>
        answer = join_answer q schema groups
    | Err e \<Rightarrow> \<exists>f. q_filter q = Some f \<and> (\<exists>e'. e = DQuery e' \<and>
        (validate_joined f schema = Err e' \<or> (\<exists>g \<in> set joined. matches_joined_row H f g = Err e')))
    | Panic \<Rightarrow> \<exists>f. q_filter q = Some f \<and> (validate_joined f schema = Panic \<or> (\<exists>g \<in> set joined. matches_joined_row H f g = Panic))"
proof -
  have names: "map fst schema = from_table # map j_table (q_joins q)"
    and tcols: "\<forall>(t, columns) \<in> set schema. ds_table_columns S t = Ok columns"
    using load_columns_Ok [OF load] by blast+
  obtain columns rest where schema: "schema = (from_table, columns) # rest" "map fst rest = map j_table (q_joins q)"
    using names by (cases schema) (auto simp: prod_eq_iff)
  let ?joins = "zip (q_joins q) (map snd (tl schema))"
  have joins: "map (\<lambda>(j, columns). (j_table j, columns)) ?joins = rest"
  proof -
    have "map (\<lambda>(j, columns). (j_table j, columns)) ?joins = zip (map fst rest) (map snd rest)"
      unfolding schema(2) by (simp add: schema(1) zip_map1 split_beta)
    then show ?thesis by (simp add: zip_map_fst_snd)
  qed
  have jcols: "\<forall>(j, columns) \<in> set ?joins. ds_table_columns S (j_table j) = Ok columns"
  proof -
    have "(j_table j, columns) \<in> set rest" if "(j, columns) \<in> set ?joins" for j columns
      unfolding joins [symmetric] using that by force
    then show ?thesis using tcols schema(1) by fastforce
  qed
  have cols: "ds_table_columns S from_table = Ok columns" using tcols schema(1) by simp
  obtain from_rows where from_rows: "ds_select S from_table all_rows = Ok from_rows" "mset from_rows = mset (tables from_table)"
    using select_all [OF assms(1) cols] by blast
  let ?side = "js_new from_table columns from_rows" and ?refs = "map (\<lambda>i. [Some i]) [0..<length from_rows]"
  have side: "\<forall>side \<in> set [?side]. side_ok side"
    using table_rows [OF assms(1) cols] mset_eq_setD [OF from_rows(2)] by (auto simp: side_ok_def js_new_def)
  have refs: "\<forall>row \<in> set ?refs. ref_ok [?side] row" by (auto simp: ref_ok_def js_new_def)
  have "map (row_groups [?side]) ?refs = map (\<lambda>row. [(from_table, row)]) from_rows"
    by (rule nth_equalityI) (simp_all add: row_groups_def js_new_def js_row_def)
  then have m: "mset (map (row_groups [?side]) ?refs) = mset (map (\<lambda>row. [(from_table, row)]) (tables from_table))"
    using from_rows(2) by simp
  obtain sides rows where run: "join_loop S from_table ?joins [?side] ?refs = Ok (sides, rows)"
    and ok: "\<forall>row \<in> set rows. ref_ok sides row" and sch: "map (\<lambda>s. (js_table s, js_columns s)) sides = schema"
    and jm: "mset (map (row_groups sides) rows) = mset joined"
    using join_loop_spec [OF assms(1) jcols refs side _ m, of "[hd schema]" from_table] joins schema(1)
    by (auto simp: joined_def js_new_def)
  have js: "set (map (row_groups sides) rows) = set joined" using jm by (rule mset_eq_setD)
  have sel: "join_select H S from_table q = bind_outcome (case q_filter q of Some f \<Rightarrow> map_err DQuery (validate_joined f schema) | None \<Rightarrow> Ok ()) (\<lambda>_.
      map_outcome (\<lambda>rows. let sorted = fold (\<lambda>(column, direction). sort_joined_rows sides column direction) (rev (q_order_by q)) rows;
             selected = map (selected_columns q) sides
         in \<lparr>jr_columns = result_columns sides selected, jr_rows = map (materialize_row sides selected) (paginate q sorted)\<rparr>)
       (case q_filter q of Some f \<Rightarrow> filter_joined H f sides rows | None \<Rightarrow> Ok rows))"
    unfolding join_select_def load bind_outcome.simps from_rows(1) using run schema(1) by simp
  show ?thesis
  proof (cases "q_filter q")
    case None
    then show ?thesis unfolding sel using answer_of_refs [OF ok sch, of q] jm
      by (auto intro!: exI [of _ "map (row_groups sides) rows"])
  next
    case (Some f)
    let ?check = "\<lambda>row. map_err DQuery (matches_joined_row H f (row_groups sides row))"
    have check: "?check row = Ok True \<longleftrightarrow> matches_joined_row H f (row_groups sides row) = Ok True" for row
      by (cases "matches_joined_row H f (row_groups sides row)") simp_all
    show ?thesis
    proof (cases "validate_joined f schema")
      case valid: (Ok u)
      have run: "join_select H S from_table q = map_outcome (\<lambda>rows. let sorted = fold (\<lambda>(column, direction). sort_joined_rows sides column direction) (rev (q_order_by q)) rows;
             selected = map (selected_columns q) sides
         in \<lparr>jr_columns = result_columns sides selected, jr_rows = map (materialize_row sides selected) (paginate q sorted)\<rparr>) (keep_all ?check rows)"
        unfolding sel using Some valid by (simp add: filter_joined_keep)
      show ?thesis
      proof (cases "keep_all ?check rows")
        case (Ok kept)
        then have kept: "kept = filter (\<lambda>row. ?check row = Ok True) rows" using keep_all_spec [of ?check rows] by simp
        then have "\<forall>row \<in> set kept. ref_ok sides row" using ok by simp
        moreover have "mset (map (row_groups sides) kept) = mset (filter (\<lambda>g. matches_joined_row H f g = Ok True) (map (row_groups sides) rows))"
          unfolding kept check filter_map comp_def ..
        then have "mset (map (row_groups sides) kept) = mset (filter (\<lambda>g. matches_joined_row H f g = Ok True) joined)"
          unfolding mset_filter jm .
        ultimately show ?thesis unfolding run Ok using answer_of_refs [OF _ sch, of kept q] Some
          by (auto intro!: exI [of _ "map (row_groups sides) kept"])
      next
        case (Err e)
        then obtain row where row: "row \<in> set rows" "?check row = Err e" using keep_all_spec [of ?check rows] by auto
        then obtain e' where "matches_joined_row H f (row_groups sides row) = Err e'" "e = DQuery e'"
          by (cases "matches_joined_row H f (row_groups sides row)") auto
        then show ?thesis unfolding run Err using Some row(1) js by auto
      next
        case Panic
        then obtain row where row: "row \<in> set rows" "?check row = Panic" using keep_all_spec [of ?check rows] by auto
        then have "matches_joined_row H f (row_groups sides row) = Panic"
          by (cases "matches_joined_row H f (row_groups sides row)") auto
        then show ?thesis unfolding run Panic using Some row(1) js by auto
      qed
    qed (simp_all add: sel Some)
  qed
qed

end

section \<open>A database of loaded tables\<close>

text \<open>
  The schema of a list of tables, with the select pipeline of each: what the generated
  \<^verbatim>\<open>DatabaseSchema\<close> dispatches to outside a transaction.
\<close>

type_synonym 'd database = "('d table_info \<times> (record_address \<times> 'd row) list) list"

definition find_table :: "'d database \<Rightarrow> string \<Rightarrow> ('d table_info \<times> (record_address \<times> 'd row) list) option" where
  "find_table db name = find (\<lambda>(T, _). ti_name T = name) db"

definition schema_of_tables :: "'d :: linorder host \<Rightarrow> ('d dbms_value set \<Rightarrow> 'd dbms_value list) \<Rightarrow> 'd fetcher \<Rightarrow> 'd database \<Rightarrow> 'd database_schema" where
  "schema_of_tables H hash_iter fetch_batch db =
     \<lparr>ds_table_columns = (\<lambda>name. case find_table db name of Some (T, _) \<Rightarrow> Ok (ti_columns T) | None \<Rightarrow> Err (DQuery (TableNotFound name))),
      ds_table_indexes = (\<lambda>name. case find_table db name of Some (T, _) \<Rightarrow> Ok (ti_indexes T) | None \<Rightarrow> Err (DQuery (TableNotFound name))),
      ds_select = (\<lambda>name q. case find_table db name of
          Some (T, tbl) \<Rightarrow> map_outcome flatten_table_columns (select_columns H hash_iter fetch_batch T (Ok (loaded_table T tbl)) None q)
        | None \<Rightarrow> Err (DQuery (TableNotFound name)))\<rparr>"

definition table_rows_of :: "'d database \<Rightarrow> string \<Rightarrow> 'd row list" where
  "table_rows_of db name = (case find_table db name of Some (_, tbl) \<Rightarrow> map snd tbl | None \<Rightarrow> [])"

definition database_ok :: "'d :: linorder host \<Rightarrow> 'd database \<Rightarrow> bool" where
  "database_ok H db \<longleftrightarrow> (\<forall>(T, tbl) \<in> set db. table_ok (ti_columns T) (ti_indexes T) tbl \<and> key_column T \<and>
     changes_ok T None (map snd tbl) \<and> length tbl < usize_max H)"

lemma find_table_Some: "find_table db name = Some (T, tbl) \<Longrightarrow> (T, tbl) \<in> set db"
  unfolding find_table_def by (auto simp: find_Some_iff) (metis nth_mem)

lemma query_results_all:
  "query_results columns (qb_filter f all_rows) rows = map (\<lambda>row. [(This, row)]) rows"
  by (simp add: query_results_def qb_filter_def all_rows_def qb_all_def default_query_def page_def apply_column_selection_def
    all_selected_def apply_distinct_def sort_by_equal)

lemma flatten_this: "flatten_table_columns (map (\<lambda>row. [(This, row)]) rows) = rows"
  by (simp add: flatten_table_columns_def comp_def)

lemma database_select:
  assumes "database_ok H db" and "find_table db t = Some (T, tbl)"
    and "f = None \<or> (\<exists>c. f = Some (FNe c Null)) \<or> (\<exists>c vs. f = Some (FIn c vs))"
  shows "\<exists>rows. map_outcome flatten_table_columns (select_columns H hash_iter fetch_batch T (Ok (loaded_table T tbl)) None (qb_filter f all_rows)) = Ok rows \<and>
    mset rows = mset (filter (\<lambda>row. row_keep H f row = Ok True) (map snd tbl))"
proof -
  let ?q = "qb_filter f all_rows :: 'a query"
  have db: "table_ok (ti_columns T) (ti_indexes T) tbl" "key_column T" "length tbl < usize_max H" "changes_ok T None (map snd tbl)"
    using assms(1) find_table_Some [OF assms(2)] by (auto simp: database_ok_def)
  have q: "q_filter ?q = f" "q_eager_relations ?q = []" "q_group_by ?q = []" "q_having ?q = None"
    by (simp_all add: qb_filter_def all_rows_def qb_all_def default_query_def)
  have total: "\<exists>b. row_keep H f row = Ok b" for row using assms(3) by (auto simp: row_keep_def)
  have vis: "visible_rows None (map snd tbl) = map snd tbl" by (simp add: visible_rows_def ops_in_def)
  have "changes_ok T (Option.bind None (\<lambda>db. db (ti_name T))) (map snd tbl)" using db(4) by simp
  note spec = select_columns_spec [OF db(1-3) this q(2) refl, of hash_iter fetch_batch, unfolded q option.map bind.simps vis]
  show ?thesis
  proof (cases "select_columns H hash_iter fetch_batch T (Ok (loaded_table T tbl)) None ?q")
    case (Ok results)
    then obtain rows where r: "mset rows = mset (filter (\<lambda>row. row_keep H f row = Ok True) (map snd tbl))" "results = map (\<lambda>row. [(This, row)]) rows"
      using spec by (auto simp: query_results_all)
    then show ?thesis using Ok flatten_this [of rows] by auto
  next
    case (Err e)
    then show ?thesis using spec total by auto (metis outcome.distinct(1))
  next
    case Panic
    then show ?thesis using spec total by auto (metis outcome.distinct(3))
  qed
qed

interpretation loaded: join_schema "schema_of_tables H hash_iter fetch_batch db" H "table_rows_of db" "database_ok H db"
  for H hash_iter fetch_batch db
proof
  fix t columns row
  assume db: "database_ok H db" "ds_table_columns (schema_of_tables H hash_iter fetch_batch db) t = Ok columns"
  then obtain T tbl where T: "find_table db t = Some (T, tbl)" "columns = ti_columns T"
    by (auto simp: schema_of_tables_def split: option.splits)
  show "map fst row = columns" if "row \<in> set (table_rows_of db t)"
    using that T db(1) find_table_Some [OF T(1)] by (fastforce simp: table_rows_of_def database_ok_def table_ok_def)
  show "\<exists>rows. ds_select (schema_of_tables H hash_iter fetch_batch db) t (qb_filter f all_rows) = Ok rows \<and>
      mset rows = mset (filter (\<lambda>row. row_keep H f row = Ok True) (table_rows_of db t))"
    if "f = None \<or> (\<exists>c. f = Some (FNe c Null)) \<or> (\<exists>c vs. f = Some (FIn c vs))" for f
    using database_select [OF db(1) T(1) that] T(1) by (simp add: schema_of_tables_def table_rows_of_def)
qed

text \<open>C40: the hash join gives the rows of a nested-loop join of the accumulated rows with all right rows, in the same
  order: matches in the order of the left and then the right rows, unmatched left rows padded with
  null values where they occur, unmatched right rows last, and null keys never match.\<close>

theorem hash_join_is_nested_loop:
  assumes "\<forall>row \<in> set rows. ref_ok sides row" and "key_ok sides left_key" and "\<forall>side \<in> set sides. side_ok side"
  shows "map (row_groups (sides @ [side])) (hash_join sides rows left_key side right_col keep_left keep_right) =
    nested_join (map (\<lambda>s. (js_table s, js_null_row s)) sides) (js_table side, js_null_row side)
      (joins_on left_key (column_position side right_col)) keep_left keep_right (map (row_groups sides) rows) (js_rows side)"
  using assms by (rule hash_join_nested)

lemma sample_nested_join:
  "nested_join [(a, map (\<lambda>c. (c, Null)) (ti_columns sample_info))] (b, map (\<lambda>c. (c, Null)) (ti_columns sample_info))
     (joins_on (Some (0, 0)) (Some 0)) True True [[(a, sample_user 7 20)], [(a, sample_user 8 15)]] [sample_user 8 30, sample_user 9 40] =
   [[(a, sample_user 7 20), (b, map (\<lambda>c. (c, Null)) (ti_columns sample_info))],
    [(a, sample_user 8 15), (b, sample_user 8 30)],
    [(a, map (\<lambda>c. (c, Null)) (ti_columns sample_info)), (b, sample_user 9 40)]]"
proof -
  have v: "value_at (sample_user n age) 0 = Uint32 n" for n age by (simp add: value_at_def sample_user_def)
  show ?thesis by (simp add: nested_join_def joins_on_def v is_null_def)
qed

definition sample_side :: "string \<Rightarrow> int row list \<Rightarrow> int join_side" where
  "sample_side name rows = js_new name (ti_columns sample_info) rows"

theorem hash_join_is_nested_loop_witness:
  "map (row_groups [sample_side ''a'' [sample_user 7 20, sample_user 8 15], sample_side ''b'' [sample_user 8 30, sample_user 9 40]])
     (hash_join [sample_side ''a'' [sample_user 7 20, sample_user 8 15]] [[Some 0], [Some 1]] (Some (0, 0))
       (sample_side ''b'' [sample_user 8 30, sample_user 9 40]) ''id'' True True) =
   [[(''a'', sample_user 7 20), (''b'', map (\<lambda>c. (c, Null)) (ti_columns sample_info))],
    [(''a'', sample_user 8 15), (''b'', sample_user 8 30)],
    [(''a'', map (\<lambda>c. (c, Null)) (ti_columns sample_info)), (''b'', sample_user 9 40)]]"
proof -
  let ?a = "sample_side ''a'' [sample_user 7 20, sample_user 8 15]" and ?b = "sample_side ''b'' [sample_user 8 30, sample_user 9 40]"
  have cols: "map fst (sample_user n age) = ti_columns sample_info" for n age by (simp add: sample_user_def sample_info_def)
  have pos: "column_position ?b ''id'' = Some 0"
    by (simp add: column_position_def sample_side_def js_new_def sample_info_def sample_column_def)
  have ok: "\<forall>row \<in> set [[Some 0], [Some 1]]. ref_ok [?a] row" "key_ok [?a] (Some (0, 0))" "\<forall>side \<in> set [?a]. side_ok side"
    by (auto simp: ref_ok_def key_ok_def side_ok_def sample_side_def js_new_def cols sample_info_def)
  show ?thesis
    using hash_join_is_nested_loop [OF ok, of ?b "''id''" True True] sample_nested_join [of "''a''" "''b''"]
    by (simp add: pos row_groups_def js_row_def) (simp add: sample_side_def js_new_def)
qed

text \<open>The rows a join query works on, from the whole tables.\<close>

definition join_rows :: "(string \<Rightarrow> 'd row list) \<Rightarrow> string \<Rightarrow> 'd query \<Rightarrow> 'd table_schema \<Rightarrow> (string \<times> 'd row) list list" where
  "join_rows tables from_table q schema =
     join_spec tables from_table (zip (q_joins q) (map snd (tl schema))) [hd schema] (map (\<lambda>row. [(from_table, row)]) (tables from_table))"

text \<open>C39: a join query answers from the nested-loop join of the whole tables, left to right: the joined rows that
  pass the filter, in some order, ordered by all keys, cut to the page and reduced to the selected columns.
  Loading only the right rows whose key can match, through an index or not, loses no row. It fails only
  when the filter does not validate against the tables or gives an error on a joined row.\<close>

theorem join_select_correct:
  assumes "database_ok H db"
    and "load_columns (schema_of_tables H hash_iter fetch_batch db) (from_table # map j_table (q_joins q)) = Ok schema"
  shows "case join_select H (schema_of_tables H hash_iter fetch_batch db) from_table q of
      Ok answer \<Rightarrow> \<exists>groups. mset groups = mset (filter (\<lambda>g. case q_filter q of Some f \<Rightarrow> matches_joined_row H f g = Ok True | None \<Rightarrow> True)
          (join_rows (table_rows_of db) from_table q schema)) \<and> answer = join_answer q schema groups
    | Err e \<Rightarrow> \<exists>f. q_filter q = Some f \<and> (\<exists>e'. e = DQuery e' \<and> (validate_joined f schema = Err e' \<or>
        (\<exists>g \<in> set (join_rows (table_rows_of db) from_table q schema). matches_joined_row H f g = Err e')))
    | Panic \<Rightarrow> \<exists>f. q_filter q = Some f \<and> (validate_joined f schema = Panic \<or>
        (\<exists>g \<in> set (join_rows (table_rows_of db) from_table q schema). matches_joined_row H f g = Panic))"
  using loaded.join_select_spec [OF assms] unfolding join_rows_def .

definition sample_database :: "int database" where
  "sample_database = [(sample_info, sample_table),
     (sample_info\<lparr>ti_name := ''posts''\<rparr>, [(\<lparr>ra_page = 4, ra_offset = 0\<rparr>, sample_user 8 30), (\<lparr>ra_page = 4, ra_offset = 32\<rparr>, sample_user 9 40)])]"

definition sample_join :: "int query" where
  "sample_join = qb_full_join ''posts'' ''id'' ''id'' default_query"

lemma sample_database_ok: "database_ok sample_host sample_database"
proof -
  have cols: "ti_columns sample_info = [sample_column ''id'' KUint32, sample_column ''age'' KInt32]" by (simp add: sample_info_def)
  have wf: "row_wf (sample_user n age)" "map fst (sample_user n age) = ti_columns sample_info" "has_columns (ti_indexes sample_info) (sample_user n age)" for n age
    by (simp_all add: sample_user_def row_wf_def sample_column_def sample_info_def row_names_def has_columns_def)
  have st: "sample_table = [(\<lparr>ra_page = 3, ra_offset = 0\<rparr>, sample_user 7 20), (\<lparr>ra_page = 3, ra_offset = 32\<rparr>, sample_user 8 15)]"
    by (simp add: sample_table_def sample_user_def)
  have ok: "changes_ok T None rows \<longleftrightarrow> distinct (map row_pk rows) \<and> (\<forall>row \<in> set rows. row_wf row \<and> map fst row = ti_columns T)" for T and rows :: "int row list"
    by (simp add: changes_ok_def ops_in_def visible_rows_def)
  have key: "key_column (sample_info\<lparr>ti_name := name\<rparr>)" for name
    using sample_key_column by (simp add: key_column_def)
  show ?thesis
    unfolding database_ok_def sample_database_def st
    by (simp add: ok wf keyed_sample_user table_ok_def key sample_key_column sample_host_def)
qed

theorem join_select_correct_witness:
  "case join_select sample_host (schema_of_tables sample_host (\<lambda>s. []) (\<lambda>r c vs. Ok Map.empty) sample_database) ''users'' sample_join of
     Ok answer \<Rightarrow> (\<exists>groups. mset groups = mset
         [[(''users'', sample_user 7 20), (''posts'', map (\<lambda>c. (c, Null)) (ti_columns sample_info))],
          [(''users'', sample_user 8 15), (''posts'', sample_user 8 30)],
          [(''users'', map (\<lambda>c. (c, Null)) (ti_columns sample_info)), (''posts'', sample_user 9 40)]] \<and>
       answer = join_answer sample_join [(''users'', ti_columns sample_info), (''posts'', ti_columns sample_info)] groups)
   | _ \<Rightarrow> False"
proof -
  let ?schema = "[(''users'', ti_columns sample_info), (''posts'', ti_columns sample_info)]"
  have q: "q_filter sample_join = None" "q_joins sample_join = [\<lparr>j_type = Full, j_table = ''posts'', j_left_column = ''id'', j_right_column = ''id''\<rparr>]"
    by (simp_all add: sample_join_def qb_full_join_def qb_join_def default_query_def)
  have find: "find_table sample_database ''users'' = Some (sample_info, sample_table)"
    "\<exists>T tbl. find_table sample_database ''posts'' = Some (T, tbl) \<and> ti_columns T = ti_columns sample_info \<and> map snd tbl = [sample_user 8 30, sample_user 9 40]"
    by (simp_all add: find_table_def sample_database_def sample_info_def)
  then have load: "load_columns (schema_of_tables sample_host (\<lambda>s. []) (\<lambda>r c vs. Ok Map.empty) sample_database) (''users'' # map j_table (q_joins sample_join)) = Ok ?schema"
    by (auto simp: q schema_of_tables_def)
  have rows: "map snd sample_table = [sample_user 7 20, sample_user 8 15]" by (simp add: sample_table_def sample_user_def)
  have dot: "split_once_dot ''id'' = None" by (simp add: split_once_dot_def)
  have pos: "position (\<lambda>c. cd_name c = ''id'') (ti_columns sample_info) = Some 0" by (simp add: sample_info_def sample_column_def)
  have joined: "join_rows (table_rows_of sample_database) ''users'' sample_join ?schema =
      [[(''users'', sample_user 7 20), (''posts'', map (\<lambda>c. (c, Null)) (ti_columns sample_info))],
       [(''users'', sample_user 8 15), (''posts'', sample_user 8 30)],
       [(''users'', map (\<lambda>c. (c, Null)) (ti_columns sample_info)), (''posts'', sample_user 9 40)]]"
    using find sample_nested_join [of "''users''" "''posts''"]
    by (auto simp: join_rows_def q table_rows_of_def rows resolve_column_ref_def dot join_flags_def left_key_in_def null_group_def pos Let_def)
  show ?thesis
    using join_select_correct [OF sample_database_ok load, unfolded joined q] by (auto split: outcome.splits)
qed

end
