(* ===== verification/Mutations.thy ===== *)
theory Mutations
  imports Join
begin

text \<open>
  The write path of \<^verbatim>\<open>wasm-dbms/src/database.rs\<close> outside a transaction, on the rows and index entries of each
  table: the records an operation works on, the foreign keys that reference a record
  (\<^verbatim>\<open>referenced_tables.rs\<close>), the upkeep of the indexes, and deletion with its cascade. Main results: a
  cascade terminates and removes exactly the rows that reference a removed row, directly or not, and
  no deletion leaves a dangling reference.
\<close>

section \<open>State\<close>

text \<open>
  The stored state of a table: its rows by address, in scan order, and the entries of its indexes in key
  order. The operations of the table registry and of the index ledger are used through their contracts;
  those of the registry are proved on the bytes in the theory of the table registry.
\<close>

record 'd table_state =
  ts_info :: "'d table_info"
  ts_rows :: "(record_address \<times> 'd row) list"
  ts_index :: "'d index_store"

type_synonym 'd db_state = "'d table_state list"

text \<open>The host, the parameters of the select pipeline, and whether the stored schema has drifted.\<close>

record 'd engine =
  en_host :: "'d host"
  en_hash_iter :: "'d dbms_value set \<Rightarrow> 'd dbms_value list"
  en_fetch_batch :: "'d fetcher"
  en_drift :: bool

abbreviation ts_name :: "'d table_state \<Rightarrow> string" where
  "ts_name s \<equiv> ti_name (ts_info s)"

definition table_of :: "'d db_state \<Rightarrow> string \<Rightarrow> ('d table_state, 'd) dbms_result" where
  "table_of db name = (case find (\<lambda>s. ts_name s = name) db of Some s \<Rightarrow> Ok s | None \<Rightarrow> Err (DQuery (TableNotFound name)))"

definition put_table :: "'d table_state \<Rightarrow> 'd db_state \<Rightarrow> 'd db_state" where
  "put_table t db = map (\<lambda>s. if ts_name s = ts_name t then t else s) db"

definition ensure_no_drift :: "'d engine \<Rightarrow> (unit, 'd) dbms_result" where
  "ensure_no_drift E = (if en_drift E then Err (DMigration ''SchemaDrift'') else Ok ())"

text \<open>The generated dispatch of a select to its table.\<close>

definition access_of :: "'d table_state \<Rightarrow> 'd table_access" where
  "access_of s = \<lparr>ta_indexes = ts_index s, ta_read = stored_row (ts_rows s), ta_rows = map snd (ts_rows s)\<rparr>"

definition schema_select :: "'d :: linorder engine \<Rightarrow> 'd db_state \<Rightarrow> string \<Rightarrow> 'd query \<Rightarrow> ('d row list, 'd) dbms_result" where
  "schema_select E db name q =
     bind_outcome (table_of db name) (\<lambda>s.
       map_outcome flatten_table_columns
         (select_columns (en_host E) (en_hash_iter E) (en_fetch_batch E) (ts_info s) (Ok (access_of s)) None q))"

section \<open>The index ledger\<close>

definition ledger_insert ::
  "string list \<Rightarrow> 'd :: linorder dbms_value list \<Rightarrow> record_address \<Rightarrow> 'd index_store \<Rightarrow> 'd index_store memory_result" where
  "ledger_insert columns key a store = map_outcome (\<lambda>es. store(columns \<mapsto> insert_entry key a es)) (index_of store columns)"

definition ledger_delete ::
  "string list \<Rightarrow> 'd dbms_value list \<Rightarrow> record_address \<Rightarrow> 'd index_store \<Rightarrow> 'd index_store memory_result" where
  "ledger_delete columns key a store =
     bind_outcome (index_of store columns) (\<lambda>es.
       if (key, a) \<in> set es then Ok (store(columns \<mapsto> remove1 (key, a) es)) else Err EntryNotFound)"

definition ledger_update ::
  "string list \<Rightarrow> 'd :: linorder dbms_value list \<Rightarrow> record_address \<Rightarrow> record_address \<Rightarrow> 'd index_store \<Rightarrow> 'd index_store memory_result" where
  "ledger_update columns key old new store = bind_outcome (ledger_delete columns key old store) (ledger_insert columns key new)"

primrec fold_outcome :: "('a \<Rightarrow> 's \<Rightarrow> ('s, 'e) outcome) \<Rightarrow> 'a list \<Rightarrow> 's \<Rightarrow> ('s, 'e) outcome" where
  "fold_outcome step [] s = Ok s"
| "fold_outcome step (x # xs) s = bind_outcome (step x s) (fold_outcome step xs)"

definition insert_index ::
  "'d :: linorder table_info \<Rightarrow> record_address \<Rightarrow> 'd row \<Rightarrow> 'd index_store \<Rightarrow> 'd index_store memory_result" where
  "insert_index T a row store = fold_outcome (\<lambda>columns. ledger_insert columns (index_key columns row) a) (ti_indexes T) store"

definition delete_index :: "'d table_info \<Rightarrow> record_address \<Rightarrow> 'd row \<Rightarrow> 'd index_store \<Rightarrow> 'd index_store memory_result" where
  "delete_index T a row store = fold_outcome (\<lambda>columns. ledger_delete columns (index_key columns row) a) (ti_indexes T) store"

definition update_index ::
  "'d :: linorder table_info \<Rightarrow> record_address \<Rightarrow> record_address \<Rightarrow> 'd row \<Rightarrow> 'd row \<Rightarrow> 'd index_store \<Rightarrow> 'd index_store memory_result" where
  "update_index T old new old_row new_row store =
     fold_outcome (\<lambda>columns store.
         if index_key columns old_row = index_key columns new_row
         then ledger_update columns (index_key columns new_row) old new store
         else bind_outcome (ledger_delete columns (index_key columns old_row) old store) (ledger_insert columns (index_key columns new_row) new))
       (ti_indexes T) store"

section \<open>The records an operation works on\<close>

fun verified_records ::
  "'d :: linorder host \<Rightarrow> (record_address \<Rightarrow> 'd row memory_result) \<Rightarrow> 'd query_filter option \<Rightarrow> record_address list \<Rightarrow>
   ((record_address \<times> 'd row) list, 'd) dbms_result" where
  "verified_records H read_row verify [] = Ok []"
| "verified_records H read_row verify (a # as) =
     bind_outcome (map_err DMemory (read_row a)) (\<lambda>row.
     bind_outcome (case verify of Some f \<Rightarrow> record_matches_filter H row f | None \<Rightarrow> Ok True) (\<lambda>keep.
       map_outcome (\<lambda>records. if keep then (a, row) # records else records) (verified_records H read_row verify as)))"

fun scanned_records ::
  "'d :: linorder host \<Rightarrow> 'd query_filter option \<Rightarrow> (record_address \<times> 'd row) list \<Rightarrow> ((record_address \<times> 'd row) list, 'd) dbms_result" where
  "scanned_records H f [] = Ok []"
| "scanned_records H f ((a, row) # rows) =
     bind_outcome (case f of Some g \<Rightarrow> record_matches_filter H row g | None \<Rightarrow> Ok True) (\<lambda>keep.
       map_outcome (\<lambda>records. if keep then (a, row) # records else records) (scanned_records H f rows))"

definition collect_matching_records ::
  "'d :: linorder host \<Rightarrow> 'd table_state \<Rightarrow> 'd query_filter option \<Rightarrow> ((record_address \<times> 'd row) list, 'd) dbms_result" where
  "collect_matching_records H s f =
     (case Option.bind f (\<lambda>g. plan_access g (ti_indexes (ts_info s)) (ti_columns (ts_info s))) of
        None \<Rightarrow> scanned_records H f (ts_rows s)
      | Some planned \<Rightarrow>
          bind_outcome (candidate_addresses (ts_info s) (ts_index s) (pa_path planned) None) (\<lambda>found.
            case found of
              Some as \<Rightarrow> verified_records H (stored_row (ts_rows s)) (pa_verify planned) as
            | None \<Rightarrow> scanned_records H f (ts_rows s)))"

section \<open>References between tables\<close>

definition get_referenced_tables :: "string \<Rightarrow> (string \<times> 'd column_def list) list \<Rightarrow> (string \<times> string list) list" where
  "get_referenced_tables target tables =
     List.map_filter (\<lambda>(table, columns).
       let fk_columns = map fk_local_column (filter (\<lambda>fk. fk_foreign_table fk = target) (List.map_filter cd_foreign_key columns))
       in if fk_columns = [] then None else Some (table, fk_columns)) tables"

definition referenced_tables :: "'d db_state \<Rightarrow> string \<Rightarrow> (string \<times> string list) list" where
  "referenced_tables db target = get_referenced_tables target (map (\<lambda>s. (ts_name s, ti_columns (ts_info s))) db)"

definition referenced_column :: "'d db_state \<Rightarrow> string \<Rightarrow> string \<Rightarrow> (string, 'd) dbms_result" where
  "referenced_column db table column =
     bind_outcome (table_of db table) (\<lambda>s.
       case Option.bind (find (\<lambda>c. cd_name c = column) (ti_columns (ts_info s))) cd_foreign_key of
         Some fk \<Rightarrow> Ok (fk_foreign_column fk)
       | None \<Rightarrow> Err (DQuery (UnknownColumn column)))"

definition referencing_columns :: "'d db_state \<Rightarrow> string \<Rightarrow> 'd row \<Rightarrow> ((string \<times> string \<times> 'd dbms_value) list, 'd) dbms_result" where
  "referencing_columns db name row =
     sequence (map (\<lambda>(table, column).
         bind_outcome (referenced_column db table column) (\<lambda>referenced.
           case row_get row referenced of
             Some v \<Rightarrow> Ok (table, column, v)
           | None \<Rightarrow> Err (DQuery (UnknownColumn referenced))))
       (concat (map (\<lambda>(table, columns). map (Pair table) columns) (referenced_tables db name))))"

fun any_reference :: "'d :: linorder engine \<Rightarrow> 'd db_state \<Rightarrow> (string \<times> string \<times> 'd dbms_value) list \<Rightarrow> (bool, 'd) dbms_result" where
  "any_reference E db [] = Ok False"
| "any_reference E db ((table, column, v) # refs) =
     bind_outcome (schema_select E db table (qb_filter (Some (FEq column v)) (qb_field column default_query))) (\<lambda>rows.
       if rows \<noteq> [] then Ok True else any_reference E db refs)"

definition has_foreign_key_references :: "'d :: linorder engine \<Rightarrow> 'd db_state \<Rightarrow> string \<Rightarrow> 'd row \<Rightarrow> (bool, 'd) dbms_result" where
  "has_foreign_key_references E db name row = bind_outcome (referencing_columns db name row) (any_reference E db)"

section \<open>Deletion\<close>

text \<open>
  A cascade calls the deletion of the referencing tables again, without a bound in the code. The model
  counts down the depth of these calls; \<open>None\<close> stands for a computation that has not returned within
  that depth. Every error ends the outermost call, whose journal then restores the state, so that
  only successful results carry a state.
\<close>

type_synonym ('a, 'd) run = "('a, 'd) dbms_result option"

definition bind_run :: "('a, 'd) run \<Rightarrow> ('a \<Rightarrow> ('b, 'd) run) \<Rightarrow> ('b, 'd) run" where
  "bind_run r f = (case r of None \<Rightarrow> None | Some (Ok x) \<Rightarrow> f x | Some (Err e) \<Rightarrow> Some (Err e) | Some Panic \<Rightarrow> Some Panic)"

fun cascade_loop ::
  "('d db_state \<Rightarrow> string \<Rightarrow> 'd query_filter \<Rightarrow> ('d db_state \<times> nat, 'd) run) \<Rightarrow> (string \<times> string \<times> 'd dbms_value) list \<Rightarrow>
   'd db_state \<Rightarrow> nat \<Rightarrow> ('d db_state \<times> nat, 'd) run" where
  "cascade_loop del [] db n = Some (Ok (db, n))"
| "cascade_loop del ((table, column, v) # refs) db n =
     bind_run (del db table (FEq column v)) (\<lambda>(db', k). cascade_loop del refs db' (n + k))"

definition delete_foreign_keys_cascade ::
  "('d db_state \<Rightarrow> string \<Rightarrow> 'd query_filter \<Rightarrow> ('d db_state \<times> nat, 'd) run) \<Rightarrow> 'd db_state \<Rightarrow> string \<Rightarrow> 'd row \<Rightarrow>
   ('d db_state \<times> nat, 'd) run" where
  "delete_foreign_keys_cascade del db name row = bind_run (Some (referencing_columns db name row)) (\<lambda>refs. cascade_loop del refs db 0)"

text \<open>The removal of one record from the table and from its indexes.\<close>

definition remove_record :: "'d db_state \<Rightarrow> string \<Rightarrow> record_address \<Rightarrow> 'd row \<Rightarrow> ('d db_state, 'd) dbms_result" where
  "remove_record db name a row =
     bind_outcome (table_of db name) (\<lambda>s.
       map_outcome (\<lambda>store. put_table (s\<lparr>ts_rows := filter (\<lambda>(x, _). x \<noteq> a) (ts_rows s), ts_index := store\<rparr>) db)
         (map_err DMemory (delete_index (ts_info s) a row (ts_index s))))"

fun delete_loop ::
  "('d db_state \<Rightarrow> string \<Rightarrow> 'd query_filter \<Rightarrow> ('d db_state \<times> nat, 'd) run) \<Rightarrow> 'd :: linorder engine \<Rightarrow> delete_behavior \<Rightarrow>
   'd table_info \<Rightarrow> (record_address \<times> 'd row) list \<Rightarrow> 'd db_state \<Rightarrow> nat \<Rightarrow> ('d db_state \<times> nat, 'd) run" where
  "delete_loop del E behaviour T [] db n = Some (Ok (db, n))"
| "delete_loop del E behaviour T ((a, row) # records) db n =
     bind_run (case behaviour of
         Cascade \<Rightarrow> delete_foreign_keys_cascade del db (ti_name T) row
       | Restrict \<Rightarrow> Some (bind_outcome (has_foreign_key_references E db (ti_name T) row) (\<lambda>used.
           if used then Err (DQuery (ForeignKeyConstraintViolation (ti_name T) (ti_primary_key T))) else Ok (db, 0)))) (\<lambda>(db', k).
     bind_run (Some (remove_record db' (ti_name T) a row)) (\<lambda>db''.
       delete_loop del E behaviour T records db'' (n + k)))"

fun delete_records ::
  "nat \<Rightarrow> 'd :: linorder engine \<Rightarrow> delete_behavior \<Rightarrow> 'd db_state \<Rightarrow> string \<Rightarrow> 'd query_filter option \<Rightarrow> ('d db_state \<times> nat, 'd) run" where
  "delete_records 0 E behaviour db name f = None"
| "delete_records (Suc depth) E behaviour db name f =
     bind_run (Some (bind_outcome (table_of db name) (\<lambda>s. bind_outcome (ensure_no_drift E) (\<lambda>_.
         map_outcome (Pair s) (collect_matching_records (en_host E) s f))))) (\<lambda>(s, records).
       delete_loop (\<lambda>db table g. delete_records depth E Cascade db table (Some g)) E behaviour (ts_info s) records db (length records))"

section \<open>The indexes follow the rows\<close>

lemma fold_columns:
  assumes "\<And>c store es. c \<in> set cs \<Longrightarrow> store c = Some es \<Longrightarrow> P c es \<Longrightarrow> \<exists>es'. step c store = Ok (store(c \<mapsto> es')) \<and> Q c es'"
    and "\<forall>c \<in> set cs. \<exists>es. store c = Some es \<and> P c es" and "distinct cs"
  shows "\<exists>store'. fold_outcome step cs store = Ok store' \<and> (\<forall>c \<in> set cs. \<exists>es. store' c = Some es \<and> Q c es) \<and>
    (\<forall>c. c \<notin> set cs \<longrightarrow> store' c = store c)"
  using assms
proof (induction cs arbitrary: store)
  case (Cons c cs)
  obtain es where es: "store c = Some es" "P c es" using Cons.prems(2) by auto
  have "\<exists>es'. step c store = Ok (store(c \<mapsto> es')) \<and> Q c es'"
    using es by (intro Cons.prems(1) [where store = store and es = es]) simp_all
  then obtain es' where es': "step c store = Ok (store(c \<mapsto> es'))" "Q c es'" by (elim exE conjE)
  have "\<exists>store'. fold_outcome step cs (store(c \<mapsto> es')) = Ok store' \<and> (\<forall>c \<in> set cs. \<exists>es. store' c = Some es \<and> Q c es) \<and>
      (\<forall>d. d \<notin> set cs \<longrightarrow> store' d = (store(c \<mapsto> es')) d)"
  proof (rule Cons.IH)
    show "\<exists>es'. step d st = Ok (st(d \<mapsto> es')) \<and> Q d es'" if "d \<in> set cs" "st d = Some es" "P d es" for d st es
      by (rule Cons.prems(1) [where c = d and store = st and es = es]) (use that in simp_all)
    show "\<forall>d \<in> set cs. \<exists>es. (store(c \<mapsto> es')) d = Some es \<and> P d es" using Cons.prems(2,3) by auto
    show "distinct cs" using Cons.prems(3) by simp
  qed
  then obtain store' where s: "fold_outcome step cs (store(c \<mapsto> es')) = Ok store'"
    "\<forall>c \<in> set cs. \<exists>es. store' c = Some es \<and> Q c es" "\<forall>d. d \<notin> set cs \<longrightarrow> store' d = (store(c \<mapsto> es')) d"
    by (elim exE conjE)
  have "store' c = Some es'" using s(3) Cons.prems(3) by simp
  then show ?case using es' s by (intro exI [of _ store']) auto
qed simp

lemma index_for_remove:
  assumes "index_for columns rows es" and "(a, row) \<in> set rows" and "distinct (map fst rows)"
  shows "(index_key columns row, a) \<in> set es"
    and "index_for columns (filter (\<lambda>(x, _). x \<noteq> a) rows) (remove1 (index_key columns row, a) es)"
proof -
  let ?entry = "\<lambda>(a, row). (index_key columns row, a)"
  have m: "mset es = mset (map ?entry rows)" using assms(1) by (simp add: index_for_def)
  show "(index_key columns row, a) \<in> set es" using mset_eq_setD [OF m] assms(2) by force
  obtain xs ys where rows: "rows = xs @ (a, row) # ys" using split_list [OF assms(2)] by blast
  have out: "a \<notin> fst ` set xs" "a \<notin> fst ` set ys" using assms(3) by (auto simp: rows)
  have "filter (\<lambda>(x, _). x \<noteq> a) zs = zs" if "a \<notin> fst ` set zs" for zs :: "(record_address \<times> 'a row) list"
    using that by (force simp: filter_id_conv)
  then have "filter (\<lambda>(x, _). x \<noteq> a) rows = xs @ ys" using out by (simp add: rows)
  then show "index_for columns (filter (\<lambda>(x, _). x \<noteq> a) rows) (remove1 (index_key columns row, a) es)"
    using assms(1) by (simp add: index_for_def rows sorted_map_remove1)
qed

lemma index_for_insert: "index_for columns rows es \<Longrightarrow> index_for columns (rows @ [(a, row)]) (insert_entry (index_key columns row) a es)"
  by (simp add: index_for_def insert_entry_def sorted_insort_key)

lemma delete_index_follows:
  assumes "indexed_table store rows (ti_indexes T)" and "distinct (ti_indexes T)" and "(a, row) \<in> set rows" and "distinct (map fst rows)"
  shows "\<exists>store'. delete_index T a row store = Ok store' \<and> indexed_table store' (filter (\<lambda>(x, _). x \<noteq> a) rows) (ti_indexes T)"
proof -
  have "\<exists>es'. ledger_delete c (index_key c row) a st = Ok (st(c \<mapsto> es')) \<and> index_for c (filter (\<lambda>(x, _). x \<noteq> a) rows) es'"
    if "st c = Some es" "index_for c rows es" for c and st :: "'a index_store" and es
    using that index_for_remove [OF that(2) assms(3,4)]
    by (intro exI [of _ "remove1 (index_key c row, a) es"]) (simp add: ledger_delete_def index_of_def)
  moreover have "\<forall>c \<in> set (ti_indexes T). \<exists>es. store c = Some es \<and> index_for c rows es"
    using assms(1) by (simp add: indexed_table_def)
  ultimately show ?thesis
    using fold_columns [of "ti_indexes T" "\<lambda>c. index_for c rows" "\<lambda>c. ledger_delete c (index_key c row) a"
      "\<lambda>c. index_for c (filter (\<lambda>(x, _). x \<noteq> a) rows)" store] assms(2)
    unfolding delete_index_def indexed_table_def by blast
qed

section \<open>Collecting records\<close>

definition row_matches :: "'d :: linorder host \<Rightarrow> 'd query_filter option \<Rightarrow> record_address \<times> 'd row \<Rightarrow> bool" where
  "row_matches H f = (\<lambda>(a, row). row_keep H f row = Ok True)"

lemma row_matches_pair [simp]: "row_matches H f (a, row) \<longleftrightarrow> row_keep H f row = Ok True"
  by (simp add: row_matches_def)

lemma scanned_keep: "scanned_records H f rows = keep_all (\<lambda>(a, row). map_err DQuery (row_keep H f row)) rows"
  by (induction H f rows rule: scanned_records.induct) (simp_all add: row_keep_err)

lemma verified_keep:
  assumes "\<forall>(a, row) \<in> set rows. read_row a = Ok row"
  shows "verified_records H read_row verify (map fst rows) = keep_all (\<lambda>(a, row). map_err DQuery (row_keep H verify row)) rows"
  using assms by (induction rows) (auto simp: row_keep_err cong: if_cong)

lemma residual_keep: "residual H f row = row_keep H f row"
  by (simp add: residual_def row_keep_def)

definition table_state_ok :: "'d :: linorder host \<Rightarrow> 'd table_state \<Rightarrow> bool" where
  "table_state_ok H s \<longleftrightarrow> table_ok (ti_columns (ts_info s)) (ti_indexes (ts_info s)) (ts_rows s) \<and> key_column (ts_info s) \<and>
     distinct (map (row_pk \<circ> snd) (ts_rows s)) \<and> length (ts_rows s) < usize_max H \<and> distinct (ti_indexes (ts_info s)) \<and>
     indexed_table (ts_index s) (ts_rows s) (ti_indexes (ts_info s))"

lemma table_state_okD:
  assumes "table_state_ok H s"
  shows "table_ok (ti_columns (ts_info s)) (ti_indexes (ts_info s)) (ts_rows s)" "key_column (ts_info s)"
    "distinct (map row_pk (map snd (ts_rows s)))" "length (ts_rows s) < usize_max H" "distinct (ti_indexes (ts_info s))"
    "indexed_table (ts_index s) (ts_rows s) (ti_indexes (ts_info s))" "distinct (map fst (ts_rows s))"
    "changes_ok (ts_info s) None (map snd (ts_rows s))"
    "stored_table (ts_info s) (ts_index s) (ts_rows s) (stored_row (ts_rows s))"
proof -
  show ok: "table_ok (ti_columns (ts_info s)) (ti_indexes (ts_info s)) (ts_rows s)" "key_column (ts_info s)"
    "distinct (map row_pk (map snd (ts_rows s)))" "length (ts_rows s) < usize_max H" "distinct (ti_indexes (ts_info s))"
    "indexed_table (ts_index s) (ts_rows s) (ti_indexes (ts_info s))"
    using assms by (simp_all add: table_state_ok_def)
  show "distinct (map fst (ts_rows s))" using ok(1) by (simp add: table_ok_def)
  show "changes_ok (ts_info s) None (map snd (ts_rows s))"
    using ok(1,3) by (auto simp: changes_ok_def ops_in_def visible_rows_def table_ok_def)
  show "stored_table (ts_info s) (ts_index s) (ts_rows s) (stored_row (ts_rows s))"
    using ok(6) by (intro stored_table.intro stored_table_axioms.intro) (simp_all add: stored_row_def)
qed

lemma collect_matching_records_spec:
  assumes ok: "table_state_ok H s" and f: "\<forall>(a, row) \<in> set (ts_rows s). \<exists>b. row_keep H f row = Ok b"
  shows "\<exists>records. collect_matching_records H s f = Ok records \<and> distinct records \<and>
    set records = {r \<in> set (ts_rows s). row_matches H f r}"
proof -
  note ok = table_state_okD [OF ok]
  have all: "\<exists>ys. keep_all (\<lambda>(a, row). map_err DQuery (row_keep H g row)) rows = Ok ys \<and>
      ys = filter (row_matches H g) rows" if "\<forall>(a, row) \<in> set rows. \<exists>b. row_keep H g row = Ok b" for g rows
    using that
  proof (induction rows)
    case (Cons x rows)
    then show ?case by (cases x) auto
  qed simp
  have d: "distinct (ts_rows s)" using ok(7) by (simp add: distinct_map)
  have scan: "\<exists>records. scanned_records H f (ts_rows s) = Ok records \<and> distinct records \<and> set records = {r \<in> set (ts_rows s). row_matches H f r}"
    using all [OF f] d by (auto simp: scanned_keep)
  show ?thesis
  proof (cases "Option.bind f (\<lambda>g. plan_access g (ti_indexes (ts_info s)) (ti_columns (ts_info s)))")
    case None
    then show ?thesis using scan by (simp add: collect_matching_records_def)
  next
    case (Some pa)
    then obtain g where g: "f = Some g" "plan_access g (ti_indexes (ts_info s)) (ti_columns (ts_info s)) = Some pa" by (cases f) auto
    obtain res where res: "fst (materialize (ts_index s) (pa_path pa) default_limits) = Ok res"
      "\<forall>as. res = Some as \<longrightarrow> sorted (map ra_key as) \<and> distinct as \<and>
        (\<forall>(a, row) \<in> set (ts_rows s). a \<in> set as \<longrightarrow> residual H (pa_verify pa) row = matches H g row) \<and>
        filter (\<lambda>(a, row). a \<in> set as \<and> residual H (pa_verify pa) row = Ok True) (ts_rows s) =
        filter (\<lambda>(a, row). matches H g row = Ok True) (ts_rows s)"
      using planned_rows [OF ok(6,1) g(2), of default_limits H] by blast
    have cand: "candidate_addresses (ts_info s) (ts_index s) (pa_path pa) None = Ok res"
      using res(1) by (simp add: candidate_addresses_def split: option.split)
    show ?thesis
    proof (cases res)
      case None
      then show ?thesis using scan Some cand by (simp add: collect_matching_records_def)
    next
      case (Some as)
      note r = res(2) [rule_format, OF Some]
      have sub: "set as \<subseteq> fst ` set (ts_rows s)"
        using stored_table.candidate_addresses_spec [OF ok(9,1,2,8) plan_access_over(1) [OF g(2)]] cand Some by auto
      define rows where "rows = map (\<lambda>a. (a, the (map_of (ts_rows s) a))) as"
      have in_rows: "x \<in> set rows \<longleftrightarrow> x \<in> set (ts_rows s) \<and> fst x \<in> set as" for x
      proof -
        have "map_of (ts_rows s) a = Some (the (map_of (ts_rows s) a))" if "a \<in> set as" for a
          using sub that by (metis map_of_eq_None_iff option.collapse subsetD)
        then show ?thesis using map_of_eq_Some_iff [OF ok(7)] by (cases x) (force simp: rows_def)
      qed
      have "map fst rows = as" by (simp add: rows_def comp_def)
      have dr: "distinct rows" using r by (auto simp: rows_def distinct_map intro: inj_onI)
      have keep: "row_keep H (pa_verify pa) row = row_keep H f row" if "(a, row) \<in> set rows" for a row
        using that r in_rows by (fastforce simp: residual_keep [symmetric] g(1) residual_def)
      have "\<forall>(a, row) \<in> set rows. \<exists>b. row_keep H (pa_verify pa) row = Ok b" using f keep in_rows by fastforce
      moreover have "verified_records H (stored_row (ts_rows s)) (pa_verify pa) as = keep_all (\<lambda>(a, row). map_err DQuery (row_keep H (pa_verify pa) row)) rows"
        using verified_keep [of rows "stored_row (ts_rows s)" H "pa_verify pa"] in_rows ok(7) \<open>map fst rows = as\<close> by (force simp: stored_row_def)
      ultimately have run: "verified_records H (stored_row (ts_rows s)) (pa_verify pa) as = Ok (filter (row_matches H (pa_verify pa)) rows)"
        using all by simp
      have "set (filter (row_matches H (pa_verify pa)) rows) = {r \<in> set (ts_rows s). row_matches H f r}"
      proof (intro set_eqI, clarsimp, goal_cases)
        case (1 a row)
        have "(a \<in> set as \<and> residual H (pa_verify pa) row = Ok True) \<longleftrightarrow> matches H g row = Ok True" if "(a, row) \<in> set (ts_rows s)"
        proof -
          have "(a, row) \<in> set (filter (\<lambda>(a, row). a \<in> set as \<and> residual H (pa_verify pa) row = Ok True) (ts_rows s)) \<longleftrightarrow>
            (a, row) \<in> set (filter (\<lambda>(a, row). matches H g row = Ok True) (ts_rows s))" using r by simp
          then show ?thesis using that by simp
        qed
        then show ?case using in_rows by (auto simp: residual_keep [symmetric] g(1) residual_def)
      qed
      then show ?thesis using run dr cand Some \<open>Option.bind f _ = Some pa\<close>
        by (auto simp: collect_matching_records_def)
    qed
  qed
qed

section \<open>The rows of a database and their references\<close>

type_synonym row_id = "string \<times> record_address"

definition db_rows :: "'d db_state \<Rightarrow> (row_id \<times> 'd row) set" where
  "db_rows db = {((ts_name s, a), row) |s a row. s \<in> set db \<and> (a, row) \<in> set (ts_rows s)}"

definition foreign_keys :: "'d db_state \<Rightarrow> (string \<times> 'd column_def \<times> foreign_key_def) set" where
  "foreign_keys db = {(ts_name s, c, fk) |s c fk. s \<in> set db \<and> c \<in> set (ti_columns (ts_info s)) \<and> cd_foreign_key c = Some fk}"

text \<open>
  From a row to the rows that reference it: the values of the foreign key and of the referenced column are
  equal and not null, since a null foreign key references no record. The lookups of the code compare the
  values only: \<open>fk_matches\<close> is what they find.
\<close>

definition references :: "'d db_state \<Rightarrow> (row_id \<times> row_id) set" where
  "references db = {(p, k). \<exists>prow krow c fk v. (p, prow) \<in> db_rows db \<and> (k, krow) \<in> db_rows db \<and> (fst k, c, fk) \<in> foreign_keys db \<and>
     fk_foreign_table fk = fst p \<and> row_get prow (fk_foreign_column fk) = Some v \<and> row_get krow (cd_name c) = Some v \<and> v \<noteq> Null}"

definition fk_matches :: "'d db_state \<Rightarrow> (row_id \<times> row_id) set" where
  "fk_matches db = {(p, k). \<exists>prow krow c fk v. (p, prow) \<in> db_rows db \<and> (k, krow) \<in> db_rows db \<and> (fst k, c, fk) \<in> foreign_keys db \<and>
     fk_foreign_table fk = fst p \<and> row_get prow (fk_foreign_column fk) = Some v \<and> row_get krow (cd_name c) = Some v}"

text \<open>The rows \<open>S\<close> with everything that references them, directly or not; and what a cascade from \<open>S\<close> reaches.\<close>

definition doomed :: "'d db_state \<Rightarrow> row_id set \<Rightarrow> row_id set" where
  "doomed db S = (references db)\<^sup>* `` S"

definition cascaded :: "'d db_state \<Rightarrow> row_id set \<Rightarrow> row_id set" where
  "cascaded db S = (fk_matches db)\<^sup>* `` S"

definition matching_rows :: "'d :: linorder host \<Rightarrow> 'd db_state \<Rightarrow> string \<Rightarrow> 'd query_filter option \<Rightarrow> row_id set" where
  "matching_rows H db name f = {(name, a) |a row. ((name, a), row) \<in> db_rows db \<and> row_keep H f row = Ok True}"

text \<open>The database \<open>db'\<close> has the tables of \<open>db\<close> without the rows \<open>D\<close>, in the same order.\<close>

definition pruned :: "row_id set \<Rightarrow> 'd db_state \<Rightarrow> 'd db_state \<Rightarrow> bool" where
  "pruned D db db' \<longleftrightarrow> map (\<lambda>s. (ts_info s, ts_rows s)) db' =
     map (\<lambda>s. (ts_info s, filter (\<lambda>(a, _). (ts_name s, a) \<notin> D) (ts_rows s))) db"

definition state_ok :: "'d :: linorder host \<Rightarrow> 'd db_state \<Rightarrow> bool" where
  "state_ok H db \<longleftrightarrow> distinct (map ts_name db) \<and> (\<forall>s \<in> set db. table_state_ok H s)"

text \<open>
  Every foreign key names its own column and an existing column of an existing table; and the references
  between tables, a table to itself included, form no cycle.
\<close>

definition references_ok :: "'d db_state \<Rightarrow> bool" where
  "references_ok db \<longleftrightarrow> (\<forall>(t, c, fk) \<in> foreign_keys db. fk_local_column fk = cd_name c \<and>
     (\<exists>s \<in> set db. ts_name s = fk_foreign_table fk \<and> fk_foreign_column fk \<in> cd_name ` set (ti_columns (ts_info s))))"

definition acyclic_references :: "(string \<Rightarrow> nat) \<Rightarrow> 'd db_state \<Rightarrow> bool" where
  "acyclic_references rank db \<longleftrightarrow> (\<forall>(t, c, fk) \<in> foreign_keys db. rank t < rank (fk_foreign_table fk))"

lemma closure_outside:
  assumes "R `` D \<subseteq> D"
  shows "(R \<inter> (- D) \<times> (- D))\<^sup>* `` (S - D) = R\<^sup>* `` S - D"
proof -
  have "y \<in> (R \<inter> (- D) \<times> (- D))\<^sup>* `` (S - D)" if "(x, y) \<in> R\<^sup>*" "x \<in> S" "y \<notin> D" for x y
  proof -
    have "x \<notin> D \<and> (x, y) \<in> (R \<inter> (- D) \<times> (- D))\<^sup>*" using that(1,3)
    proof (induction rule: converse_rtrancl_induct)
      case (step u w)
      then have "u \<notin> D" using assms by blast
      then show ?case using step by (auto intro: converse_rtrancl_into_rtrancl)
    qed simp
    then show ?thesis using that(2) by blast
  qed
  moreover have "y \<in> R\<^sup>* `` S - D" if "(x, y) \<in> (R \<inter> (- D) \<times> (- D))\<^sup>*" "x \<in> S - D" for x y
  proof -
    have "(x, y) \<in> R\<^sup>*" using that(1) rtrancl_mono [of "R \<inter> (- D) \<times> (- D)" R] by blast
    moreover have "y \<notin> D" using that by (induction rule: rtrancl_induct) auto
    ultimately show ?thesis using that(2) by blast
  qed
  ultimately show ?thesis by blast
qed

lemma pruned_infos: "pruned D db db' \<Longrightarrow> map ts_info db' = map ts_info db"
  unfolding pruned_def by (drule arg_cong [of _ _ "map fst"]) (simp add: comp_def)

lemma pruned_rows:
  assumes "pruned D db db'"
  shows "db_rows db' = {x \<in> db_rows db. fst x \<notin> D}"
proof -
  have rows: "db_rows d = (\<Union>(T, rs) \<in> set (map (\<lambda>s. (ts_info s, ts_rows s)) d). {((ti_name T, a), row) |a row. (a, row) \<in> set rs})"
    for d :: "'a db_state" by (auto simp: db_rows_def)
  show ?thesis unfolding rows [of db'] assms [unfolded pruned_def] by (auto simp: db_rows_def)
qed

lemma pruned_trans:
  assumes "pruned D db db'" and "pruned D' db' db''"
  shows "pruned (D \<union> D') db db''"
proof -
  have "map (\<lambda>s. (ts_info s, filter (\<lambda>(a, _). (ts_name s, a) \<notin> D') (ts_rows s))) db' =
      map (\<lambda>(T, rs). (T, filter (\<lambda>(a, _). (ti_name T, a) \<notin> D') rs)) (map (\<lambda>s. (ts_info s, ts_rows s)) db')" by simp
  also have "\<dots> = map (\<lambda>s. (ts_info s, filter (\<lambda>(a, _). (ts_name s, a) \<notin> D \<union> D') (ts_rows s))) db"
    unfolding assms(1) [unfolded pruned_def] by (auto intro!: filter_cong)
  finally show ?thesis using assms(2) unfolding pruned_def by simp
qed

lemma pruned_empty: "pruned {} db db"
  by (simp add: pruned_def case_prod_beta)

lemma foreign_keys_infos:
  assumes "map ts_info db' = map ts_info db"
  shows "foreign_keys db' = foreign_keys db"
proof -
  have fk: "foreign_keys d = (\<Union>T \<in> ts_info ` set d. {(ti_name T, c, fk) |c fk. c \<in> set (ti_columns T) \<and> cd_foreign_key c = Some fk})"
    for d :: "'a db_state" by (auto simp: foreign_keys_def)
  have infos: "ts_info ` set db' = ts_info ` set db" using arg_cong [OF assms, of set] by simp
  show ?thesis unfolding fk infos ..
qed

lemma schema_infos:
  assumes "map ts_info db' = map ts_info db"
  shows "references_ok db' = references_ok db" "acyclic_references rank db' = acyclic_references rank db"
proof -
  have ex: "(\<exists>s \<in> set d. ts_name s = t \<and> c \<in> cd_name ` set (ti_columns (ts_info s))) \<longleftrightarrow>
      (\<exists>T \<in> ts_info ` set d. ti_name T = t \<and> c \<in> cd_name ` set (ti_columns T))" for d :: "'a db_state" and t c by simp
  have "ts_info ` set db' = ts_info ` set db" using arg_cong [OF assms, of set] by simp
  then show "references_ok db' = references_ok db" unfolding references_ok_def foreign_keys_infos [OF assms] ex by simp
  show "acyclic_references rank db' = acyclic_references rank db" unfolding acyclic_references_def foreign_keys_infos [OF assms] ..
qed

lemma fk_matches_pruned:
  assumes "pruned D db db'"
  shows "fk_matches db' = fk_matches db \<inter> (- D) \<times> (- D)"
  unfolding fk_matches_def pruned_rows [OF assms] foreign_keys_infos [OF pruned_infos [OF assms]]
  by (intro set_eqI iffI; clarsimp) blast+

lemma cascaded_closed: "fk_matches db `` cascaded db S \<subseteq> cascaded db S"
  by (auto simp: cascaded_def intro: rtrancl_into_rtrancl)

lemma cascaded_pruned:
  assumes "pruned (cascaded db S) db db'"
  shows "cascaded db' (S' - cascaded db S) = cascaded db S' - cascaded db S"
  unfolding cascaded_def [of db'] fk_matches_pruned [OF assms] closure_outside [OF cascaded_closed] by (simp add: cascaded_def)

lemma cascaded_Un: "cascaded db (S \<union> S') = cascaded db S \<union> cascaded db S'"
  by (auto simp: cascaded_def)

lemma cascaded_rows: "S \<subseteq> fst ` db_rows db \<Longrightarrow> cascaded db S \<subseteq> fst ` db_rows db"
proof -
  assume S: "S \<subseteq> fst ` db_rows db"
  have "y \<in> fst ` db_rows db" if "(x, y) \<in> (fk_matches db)\<^sup>*" "x \<in> S" for x y
    using that by (induction rule: rtrancl_induct) (use S in \<open>force simp: fk_matches_def\<close>)+
  then show ?thesis by (auto simp: cascaded_def)
qed

lemma finite_rows: "finite (db_rows db)"
proof -
  have "db_rows db = (\<Union>s \<in> set db. (\<lambda>(a, row). ((ts_name s, a), row)) ` set (ts_rows s))" by (auto simp: db_rows_def)
  then show ?thesis by simp
qed

lemma finite_cascaded: "S \<subseteq> fst ` db_rows db \<Longrightarrow> finite (cascaded db S)"
  by (rule finite_subset [OF cascaded_rows]) (simp_all add: finite_rows)

lemma cascaded_step:
  "cascaded db {p} = insert p (cascaded db (fk_matches db `` {p}))"
  by (auto simp: cascaded_def elim: converse_rtranclE intro: converse_rtrancl_into_rtrancl)

lemma cascaded_rank:
  assumes "acyclic_references rank db" and "y \<in> cascaded db {p}"
  shows "y = p \<or> rank (fst y) < rank (fst p)"
proof -
  have step: "rank (fst k) < rank (fst q)" if "(q, k) \<in> fk_matches db" for q k
    using that assms(1) by (fastforce simp: fk_matches_def acyclic_references_def)
  have "(p, y) \<in> (fk_matches db)\<^sup>*" using assms(2) by (simp add: cascaded_def)
  then show ?thesis by (induction rule: rtrancl_induct) (use step in fastforce)+
qed

section \<open>Deleting one record\<close>

lemma find_key: "distinct (map f xs) \<Longrightarrow> x \<in> set xs \<Longrightarrow> find (\<lambda>y. f y = f x) xs = Some x"
  by (induction xs) force+

lemma table_of_member: "distinct (map ts_name db) \<Longrightarrow> s \<in> set db \<Longrightarrow> table_of db (ts_name s) = Ok s"
  by (simp add: table_of_def find_key [where f = ts_name])

lemma table_of_Ok: "table_of db name = Ok s \<Longrightarrow> s \<in> set db \<and> ts_name s = name"
  by (auto simp: table_of_def find_Some_iff split: option.splits)

lemma table_rows_of_state: "distinct (map ts_name db) \<Longrightarrow> s \<in> set db \<Longrightarrow> ((ts_name s, a), row) \<in> db_rows db \<longleftrightarrow> (a, row) \<in> set (ts_rows s)"
  by (auto simp: db_rows_def distinct_map inj_on_def)

lemma table_ok_filter: "table_ok columns indexes rows \<Longrightarrow> table_ok columns indexes (filter P rows)"
  by (auto simp: table_ok_def distinct_map_filterI)

lemma remove_record_spec:
  assumes ok: "state_ok H db" and s: "s \<in> set db" and r: "(a, row) \<in> set (ts_rows s)"
  shows "\<exists>db'. remove_record db (ts_name s) a row = Ok db' \<and> pruned {(ts_name s, a)} db db' \<and> state_ok H db'"
proof -
  have d: "distinct (map ts_name db)" and all: "\<forall>x \<in> set db. table_state_ok H x" using ok by (auto simp: state_ok_def)
  note tok = table_state_okD [OF all [rule_format, OF s]]
  obtain store where store: "delete_index (ts_info s) a row (ts_index s) = Ok store"
    "indexed_table store (filter (\<lambda>(x, _). x \<noteq> a) (ts_rows s)) (ti_indexes (ts_info s))"
    using delete_index_follows [OF tok(6,5) r tok(7)] by blast
  define t where "t = s\<lparr>ts_rows := filter (\<lambda>(x, _). x \<noteq> a) (ts_rows s), ts_index := store\<rparr>"
  have t: "ts_info t = ts_info s" "ts_rows t = filter (\<lambda>(x, _). x \<noteq> a) (ts_rows s)" "ts_index t = store" by (simp_all add: t_def)
  have run: "remove_record db (ts_name s) a row = Ok (put_table t db)"
    using table_of_member [OF d s] store(1) by (simp add: remove_record_def t_def)
  have same: "x = s" if "x \<in> set db" "ts_name x = ts_name s" for x using d s that by (metis distinct_map inj_onD)
  have "table_state_ok H t"
    using tok(1-5) store(2) table_ok_filter [OF tok(1)] le_less_trans [OF length_filter_le tok(4)]
    by (simp add: table_state_ok_def t distinct_map_filterI comp_def)
  then have "state_ok H (put_table t db)"
    using d all by (auto simp: state_ok_def put_table_def t comp_def if_distrib cong: if_cong intro: distinct_map [THEN iffD2])
  moreover have "pruned {(ts_name s, a)} db (put_table t db)"
    unfolding pruned_def put_table_def map_map comp_def
  proof (intro map_cong refl)
    fix x assume x: "x \<in> set db"
    show "(ts_info (if ts_name x = ts_name t then t else x), ts_rows (if ts_name x = ts_name t then t else x)) =
        (ts_info x, filter (\<lambda>(b, _). (ts_name x, b) \<notin> {(ts_name s, a)}) (ts_rows x))"
      using same [OF x] by (auto simp: t case_prod_beta)
  qed
  ultimately show ?thesis using run by blast
qed

section \<open>Which records reference a record\<close>

lemma sequence_all:
  assumes "\<forall>x \<in> set xs. \<exists>y. f x = Ok y"
  shows "\<exists>ys. sequence (map f xs) = Ok ys \<and> set ys = {y. \<exists>x \<in> set xs. f x = Ok y}"
  using assms
proof (induction xs)
  case (Cons x xs)
  then obtain y ys where "f x = Ok y" "sequence (map f xs) = Ok ys" "set ys = {y. \<exists>x \<in> set xs. f x = Ok y}" by auto
  then show ?case by (auto intro!: exI [of _ "y # ys"])
qed simp

lemma get_referenced_pairs:
  "set (concat (map (\<lambda>(table, columns). map (Pair table) columns) (get_referenced_tables name tables))) =
    (\<Union>(t, columns) \<in> set tables. {(t, fk_local_column fk) |c fk. c \<in> set columns \<and> cd_foreign_key c = Some fk \<and> fk_foreign_table fk = name})"
proof (induction tables)
  case (Cons x tables)
  obtain t columns where x: "x = (t, columns)" by (cases x)
  let ?fks = "map fk_local_column (filter (\<lambda>fk. fk_foreign_table fk = name) (List.map_filter cd_foreign_key columns))"
  have "get_referenced_tables name (x # tables) = (if ?fks = [] then [] else [(t, ?fks)]) @ get_referenced_tables name tables"
    by (simp add: get_referenced_tables_def x Let_def map_filter_simps)
  then have "set (concat (map (\<lambda>(table, columns). map (Pair table) columns) (get_referenced_tables name (x # tables)))) =
      Pair t ` set ?fks \<union> set (concat (map (\<lambda>(table, columns). map (Pair table) columns) (get_referenced_tables name tables)))"
    by (cases "?fks = []") (simp_all add: image_image)
  also have "Pair t ` set ?fks = {(t, fk_local_column fk) |c fk. c \<in> set columns \<and> cd_foreign_key c = Some fk \<and> fk_foreign_table fk = name}"
    by (auto simp: set_map_filter)
  finally show ?case unfolding Cons.IH x by simp
qed (simp add: get_referenced_tables_def map_filter_simps)

lemma referenced_pairs:
  assumes "references_ok db"
  shows "set (concat (map (\<lambda>(table, columns). map (Pair table) columns) (referenced_tables db name))) =
    {(t, cd_name c) |t c fk. (t, c, fk) \<in> foreign_keys db \<and> fk_foreign_table fk = name}"
proof -
  have fk: "fk_local_column fk = cd_name c" if "(t, c, fk) \<in> foreign_keys db" for t c fk
    using assms that by (auto simp: references_ok_def)
  define K where "K = {k \<in> foreign_keys db. fk_foreign_table (snd (snd k)) = name}"
  have "set (concat (map (\<lambda>(table, columns). map (Pair table) columns) (referenced_tables db name))) =
      (\<lambda>(t, c, fk). (t, fk_local_column fk)) ` K"
    unfolding referenced_tables_def get_referenced_pairs foreign_keys_def K_def by force
  also have "\<dots> = (\<lambda>(t, c, fk). (t, cd_name c)) ` K" by (intro image_cong) (auto simp: K_def fk)
  also have "\<dots> = {(t, cd_name c) |t c fk. (t, c, fk) \<in> foreign_keys db \<and> fk_foreign_table fk = name}"
    by (force simp: K_def)
  finally show ?thesis .
qed

lemma column_get:
  assumes "table_ok columns indexes rows" and "(a, row) \<in> set rows" and "c \<in> cd_name ` set columns"
  shows "\<exists>v. row_get row c = Some v"
proof -
  have "map fst row = columns" using assms(1,2) by (auto simp: table_ok_def)
  then have "c \<in> set (row_names row)" using assms(3) by (force simp: row_names_def)
  then show ?thesis using row_get_None_iff [of row c] by auto
qed

lemma referenced_column_spec:
  assumes "state_ok H db" and "(t, c, fk) \<in> foreign_keys db"
  shows "referenced_column db t (cd_name c) = Ok (fk_foreign_column fk)"
proof -
  obtain s where s: "s \<in> set db" "ts_name s = t" "c \<in> set (ti_columns (ts_info s))" "cd_foreign_key c = Some fk"
    using assms(2) by (auto simp: foreign_keys_def)
  have "distinct (map cd_name (ti_columns (ts_info s)))" using assms(1) s(1) table_state_okD(2) by (auto simp: state_ok_def key_column_def)
  then have "find (\<lambda>d. cd_name d = cd_name c) (ti_columns (ts_info s)) = Some c"
    using s(3) by (rule find_key)
  moreover have "table_of db t = Ok s" using table_of_member s(1,2) assms(1) by (auto simp: state_ok_def)
  ultimately show ?thesis by (simp add: referenced_column_def s(4))
qed

lemma referencing_columns_spec:
  assumes ok: "state_ok H db" and refs: "references_ok db" and s: "s \<in> set db" and r: "(a, row) \<in> set (ts_rows s)"
  shows "\<exists>rs. referencing_columns db (ts_name s) row = Ok rs \<and>
    set rs = {(t, cd_name c, v) |t c fk v. (t, c, fk) \<in> foreign_keys db \<and> fk_foreign_table fk = ts_name s \<and> row_get row (fk_foreign_column fk) = Some v}"
proof -
  let ?f = "\<lambda>(table, column). bind_outcome (referenced_column db table column) (\<lambda>referenced.
           case row_get row referenced of Some v \<Rightarrow> Ok (table, column, v) | None \<Rightarrow> Err (DQuery (UnknownColumn referenced)))"
  have tok: "table_ok (ti_columns (ts_info s)) (ti_indexes (ts_info s)) (ts_rows s)"
    using ok s table_state_okD(1) by (auto simp: state_ok_def)
  have one: "\<exists>v. row_get row (fk_foreign_column fk) = Some v \<and> ?f (t, cd_name c) = Ok (t, cd_name c, v)"
    if k: "(t, c, fk) \<in> foreign_keys db" "fk_foreign_table fk = ts_name s" for t c fk
  proof -
    obtain s' where "s' \<in> set db" "ts_name s' = ts_name s" "fk_foreign_column fk \<in> cd_name ` set (ti_columns (ts_info s'))"
      using refs k by (fastforce simp: references_ok_def)
    moreover have "s' = s" using calculation(1,2) s ok unfolding state_ok_def by (metis distinct_map inj_onD)
    ultimately obtain v where "row_get row (fk_foreign_column fk) = Some v" using column_get [OF tok r] by blast
    then show ?thesis using referenced_column_spec [OF ok k(1)] by simp
  qed
  have "\<forall>x \<in> {(t, cd_name c) |t c fk. (t, c, fk) \<in> foreign_keys db \<and> fk_foreign_table fk = ts_name s}. \<exists>y. ?f x = Ok y"
    using one by blast
  then obtain rs where rs: "referencing_columns db (ts_name s) row = Ok rs"
    "set rs = {y. \<exists>x \<in> {(t, cd_name c) |t c fk. (t, c, fk) \<in> foreign_keys db \<and> fk_foreign_table fk = ts_name s}. ?f x = Ok y}"
    using sequence_all [where f = ?f and xs = "concat (map (\<lambda>(table, columns). map (Pair table) columns) (referenced_tables db (ts_name s)))"]
    unfolding referencing_columns_def referenced_pairs [OF refs] by blast
  have "set rs = {(t, cd_name c, v) |t c fk v. (t, c, fk) \<in> foreign_keys db \<and> fk_foreign_table fk = ts_name s \<and> row_get row (fk_foreign_column fk) = Some v}"
    unfolding rs(2) using one by fastforce
  then show ?thesis using rs(1) by blast
qed

section \<open>The cascade\<close>

text \<open>What a deletion of rows promises: it returns, and removes the rows and all that reference them.\<close>

definition removes :: "'d :: linorder host \<Rightarrow> 'd db_state \<Rightarrow> row_id set \<Rightarrow> nat \<Rightarrow> ('d db_state \<times> nat, 'd) run \<Rightarrow> bool" where
  "removes H db S n r \<longleftrightarrow> (\<exists>db'. r = Some (Ok (db', n + card (cascaded db S))) \<and> pruned (cascaded db S) db db' \<and> state_ok H db')"

definition deletes_exactly ::
  "'d :: linorder host \<Rightarrow> (string \<Rightarrow> nat) \<Rightarrow> nat \<Rightarrow> ('d db_state \<Rightarrow> string \<Rightarrow> 'd query_filter \<Rightarrow> ('d db_state \<times> nat, 'd) run) \<Rightarrow> bool" where
  "deletes_exactly H rank k del \<longleftrightarrow> (\<forall>db t c v. state_ok H db \<longrightarrow> references_ok db \<longrightarrow> acyclic_references rank db \<longrightarrow>
     t \<in> ts_name ` set db \<longrightarrow> rank t < k \<longrightarrow> removes H db (matching_rows H db t (Some (FEq c v))) 0 (del db t (FEq c v)))"

lemma matching_rows_sub: "matching_rows H db t f \<subseteq> fst ` db_rows db"
  by (force simp: matching_rows_def)

lemma matching_rows_pruned: "pruned D db db' \<Longrightarrow> matching_rows H db' t f = matching_rows H db t f - D"
  by (auto simp: matching_rows_def pruned_rows)

lemma names_infos: "map ts_info db' = map ts_info db \<Longrightarrow> ts_name ` set db' = ts_name ` set db"
  by (drule arg_cong [of _ _ "\<lambda>xs. ti_name ` set xs"]) (simp add: image_image)

lemma removes_then:
  assumes first: "pruned (cascaded db S) db db'" and S: "S \<subseteq> fst ` db_rows db" "S' \<subseteq> fst ` db_rows db"
    and rest: "removes H db' (S' - cascaded db S) (n + card (cascaded db S)) r"
  shows "removes H db (S \<union> S') n r"
proof -
  have d: "cascaded db' (S' - cascaded db S) = cascaded db S' - cascaded db S" by (rule cascaded_pruned [OF first])
  obtain db'' where r: "r = Some (Ok (db'', n + card (cascaded db S) + card (cascaded db S' - cascaded db S)))"
    "pruned (cascaded db S' - cascaded db S) db' db''" "state_ok H db''"
    using rest unfolding removes_def d by (elim exE conjE)
  have "card (cascaded db S) + card (cascaded db S' - cascaded db S) = card (cascaded db (S \<union> S'))"
    unfolding cascaded_Un using card_Un_disjoint [of "cascaded db S" "cascaded db S' - cascaded db S"] finite_cascaded [OF S(1)] finite_cascaded [OF S(2)] by auto
  moreover have "pruned (cascaded db (S \<union> S')) db db''" using pruned_trans [OF first r(2)] by (simp add: cascaded_Un)
  ultimately show ?thesis using r(1,3) by (simp add: removes_def)
qed

lemma cascade_loop_spec:
  assumes del: "deletes_exactly H rank k del"
    and "state_ok H db" "references_ok db" "acyclic_references rank db"
    and "\<forall>(t, c, v) \<in> set refs. t \<in> ts_name ` set db \<and> rank t < k"
  shows "removes H db (\<Union>(t, c, v) \<in> set refs. matching_rows H db t (Some (FEq c v))) n (cascade_loop del refs db n)"
  using assms(2-)
proof (induction refs arbitrary: db n)
  case Nil
  then show ?case by (simp add: removes_def cascaded_def pruned_empty)
next
  case (Cons x refs)
  obtain t c v where x: "x = (t, c, v)" by (cases x)
  let ?S = "matching_rows H db t (Some (FEq c v))" and ?M = "\<lambda>db. \<Union>(t, c, v) \<in> set refs. matching_rows H db t (Some (FEq c v))"
  have "removes H db ?S 0 (del db t (FEq c v))" using del Cons.prems by (auto simp: deletes_exactly_def x)
  then obtain db' where r: "del db t (FEq c v) = Some (Ok (db', card (cascaded db ?S)))" "pruned (cascaded db ?S) db db'" "state_ok H db'"
    unfolding removes_def by auto
  note infos = pruned_infos [OF r(2)]
  have "removes H db' (?M db') (n + card (cascaded db ?S)) (cascade_loop del refs db' (n + card (cascaded db ?S)))"
    using Cons.prems by (intro Cons.IH r(3)) (auto simp: schema_infos [OF infos] names_infos [OF infos])
  moreover have "?M db' = ?M db - cascaded db ?S" by (auto simp: matching_rows_pruned [OF r(2)])
  ultimately have "removes H db (?S \<union> ?M db) n (cascade_loop del refs db' (n + card (cascaded db ?S)))"
    using matching_rows_sub [of H db] by (intro removes_then [OF r(2)]) fastforce+
  then show ?case by (simp add: x r(1) bind_run_def)
qed

lemma matching_eq:
  assumes "state_ok H db" and "t \<in> ts_name ` set db"
  shows "matching_rows H db t (Some (FEq c v)) = {k. fst k = t \<and> (\<exists>row. (k, row) \<in> db_rows db \<and> row_get row c = Some v)}"
proof -
  have "row_wf row" if "(k, row) \<in> db_rows db" for k row
    using that assms(1) table_state_okD(1) by (fastforce simp: db_rows_def state_ok_def table_ok_def)
  then have "row_keep H (Some (FEq c v)) row = Ok True \<longleftrightarrow> row_get row c = Some v" if "(k, row) \<in> db_rows db" for k row
    using that row_any_get [of row c "\<lambda>x. x = v"] by (auto simp: row_keep_def row_wf_def)
  then show ?thesis unfolding matching_rows_def by force
qed

lemma foreign_key_table: "(t, c, fk) \<in> foreign_keys db \<Longrightarrow> t \<in> ts_name ` set db"
  by (auto simp: foreign_keys_def)

lemma referencing_rows:
  assumes ok: "state_ok H db" and s: "s \<in> set db" and r: "(a, row) \<in> set (ts_rows s)"
    and rs: "set rs = {(t, cd_name c, v) |t c fk v. (t, c, fk) \<in> foreign_keys db \<and> fk_foreign_table fk = ts_name s \<and> row_get row (fk_foreign_column fk) = Some v}"
  shows "(\<Union>(t, c, v) \<in> set rs. matching_rows H db t (Some (FEq c v))) = fk_matches db `` {(ts_name s, a)}"
proof -
  have d: "distinct (map ts_name db)" using ok by (simp add: state_ok_def)
  have dr: "distinct (map fst (ts_rows s))" using ok s table_state_okD(7) by (auto simp: state_ok_def)
  have row: "((ts_name s, a), x) \<in> db_rows db \<longleftrightarrow> x = row" for x
    unfolding table_rows_of_state [OF d s] using r dr by (auto dest: eq_key_imp_eq_value)
  have own: "matching_rows H db t (Some (FEq c v)) = {k. fst k = t \<and> (\<exists>krow. (k, krow) \<in> db_rows db \<and> row_get krow c = Some v)}"
    if "(t, c, v) \<in> set rs" for t c v
  proof (rule matching_eq [OF ok])
    show "t \<in> ts_name ` set db" using that foreign_key_table unfolding rs by blast
  qed
  show ?thesis
  proof (intro set_eqI iffI)
    fix k assume "k \<in> fk_matches db `` {(ts_name s, a)}"
    then obtain krow c fk v where k: "(k, krow) \<in> db_rows db" "(fst k, c, fk) \<in> foreign_keys db" "fk_foreign_table fk = ts_name s"
      "row_get row (fk_foreign_column fk) = Some v" "row_get krow (cd_name c) = Some v"
      unfolding fk_matches_def using row by auto
    then have t: "(fst k, cd_name c, v) \<in> set rs" unfolding rs by blast
    then show "k \<in> (\<Union>(t, c, v) \<in> set rs. matching_rows H db t (Some (FEq c v)))" using k(1,5) own [OF t] by force
  next
    fix k assume "k \<in> (\<Union>(t, c, v) \<in> set rs. matching_rows H db t (Some (FEq c v)))"
    then obtain t c v where t: "(t, c, v) \<in> set rs" "k \<in> matching_rows H db t (Some (FEq c v))" by auto
    then obtain krow where k: "fst k = t" "(k, krow) \<in> db_rows db" "row_get krow c = Some v" unfolding own [OF t(1)] by auto
    obtain d fk where "(t, d, fk) \<in> foreign_keys db" "c = cd_name d" "fk_foreign_table fk = ts_name s" "row_get row (fk_foreign_column fk) = Some v"
      using t(1) unfolding rs by auto
    then show "k \<in> fk_matches db `` {(ts_name s, a)}" unfolding fk_matches_def using k row by auto
  qed
qed

lemma cascaded_none: "fk_matches db `` {p} = {} \<Longrightarrow> cascaded db {p} = {p}"
  using cascaded_step [of db p] by (simp add: cascaded_def)

lemma cascade_below:
  assumes ac: "acyclic_references rank db" and q: "q \<in> cascaded db (fk_matches db `` {p})"
  shows "rank (fst q) < rank (fst p)"
proof -
  obtain k where k: "(p, k) \<in> fk_matches db" "q \<in> cascaded db {k}" using q unfolding cascaded_def by blast
  have "rank (fst k) < rank (fst p)" using k(1) ac by (fastforce simp: fk_matches_def acyclic_references_def)
  then show ?thesis using cascaded_rank [OF ac k(2)] by auto
qed

lemma remove_after_cascade:
  assumes ok: "state_ok H db" and ac: "acyclic_references rank db" and s: "s \<in> set db" and r: "(a, row) \<in> set (ts_rows s)"
    and first: "pruned (cascaded db (fk_matches db `` {(ts_name s, a)})) db db'" "state_ok H db'"
  shows "\<exists>db''. remove_record db' (ts_name s) a row = Ok db'' \<and> pruned (cascaded db {(ts_name s, a)}) db db'' \<and> state_ok H db''"
proof -
  let ?p = "(ts_name s, a)" and ?D = "cascaded db (fk_matches db `` {(ts_name s, a)})"
  have p: "?p \<notin> ?D" using cascade_below [OF ac, of ?p ?p] by blast
  have d: "distinct (map ts_name db)" "distinct (map ts_name db')" using ok first(2) by (simp_all add: state_ok_def)
  have "(?p, row) \<in> db_rows db'" using p r table_rows_of_state [OF d(1) s] by (simp add: pruned_rows [OF first(1)])
  then obtain t where t: "t \<in> set db'" "ts_name t = ts_name s" "(a, row) \<in> set (ts_rows t)" by (auto simp: db_rows_def)
  obtain db'' where r: "remove_record db' (ts_name s) a row = Ok db''" "pruned {?p} db' db''" "state_ok H db''"
    using remove_record_spec [OF first(2) t(1,3)] by (auto simp: t(2))
  have "pruned (cascaded db {?p}) db db''" using pruned_trans [OF first(1) r(2)] cascaded_step [of db ?p] by simp
  then show ?thesis using r by blast
qed

lemma records_remain:
  assumes d: "distinct (map ts_name db)" "distinct (map ts_name db')" and pr: "pruned D db db'"
    and s: "s \<in> set db" "ts_info s = T" "set records \<subseteq> set (ts_rows s)" and out: "\<And>q. q \<in> Pair (ti_name T) ` fst ` set records \<Longrightarrow> q \<notin> D"
  shows "\<exists>t \<in> set db'. ts_info t = T \<and> set records \<subseteq> set (ts_rows t)"
proof -
  obtain t where t: "t \<in> set db'" "ts_info t = T"
    using arg_cong [OF pruned_infos [OF pr], of set] s(1,2) by (metis (no_types, lifting) imageE image_eqI list.set_map)
  have "(b, brow) \<in> set (ts_rows t)" if b: "(b, brow) \<in> set records" for b brow
  proof -
    have "((ti_name T, b), brow) \<in> db_rows db" using b s table_rows_of_state [OF d(1) s(1)] by (auto simp: s(2))
    moreover have "(ti_name T, b) \<notin> D" using b out by force
    ultimately have "((ti_name T, b), brow) \<in> db_rows db'" by (simp add: pruned_rows [OF pr])
    then show ?thesis using table_rows_of_state [OF d(2) t(1)] by (simp add: t(2))
  qed
  then show ?thesis using t by auto
qed

lemma delete_loop_cascade:
  assumes del: "deletes_exactly H rank (rank (ti_name T)) del"
    and "state_ok H db" "references_ok db" "acyclic_references rank db"
    and "\<exists>s \<in> set db. ts_info s = T \<and> set records \<subseteq> set (ts_rows s)" and "distinct (map fst records)"
  shows "\<exists>db'. delete_loop del E Cascade T records db n = Some (Ok (db', n + card (cascaded db (Pair (ti_name T) ` fst ` set records)) - length records)) \<and>
    pruned (cascaded db (Pair (ti_name T) ` fst ` set records)) db db' \<and> state_ok H db'"
  using assms(2-)
proof (induction records arbitrary: db n)
  case Nil
  then show ?case by (simp add: cascaded_def pruned_empty)
next
  case (Cons x records)
  obtain a row where x: "x = (a, row)" by (cases x)
  obtain s where s: "s \<in> set db" "ts_info s = T" "(a, row) \<in> set (ts_rows s)" "set records \<subseteq> set (ts_rows s)"
    using Cons.prems(4) by (auto simp: x)
  let ?p = "(ti_name T, a)" and ?S = "fk_matches db `` {(ti_name T, a)}"
  obtain rs where rs: "referencing_columns db (ti_name T) row = Ok rs"
    "set rs = {(t, cd_name c, v) |t c fk v. (t, c, fk) \<in> foreign_keys db \<and> fk_foreign_table fk = ts_name s \<and> row_get row (fk_foreign_column fk) = Some v}"
    using referencing_columns_spec [OF Cons.prems(1,2) s(1,3)] s(2) by auto
  have "\<forall>(t, c, v) \<in> set rs. t \<in> ts_name ` set db \<and> rank t < rank (ti_name T)"
    unfolding rs(2) using Cons.prems(3) foreign_key_table s(2) by (fastforce simp: acyclic_references_def)
  then have "removes H db ?S 0 (cascade_loop del rs db 0)"
    using cascade_loop_spec [OF del Cons.prems(1-3), of rs 0] referencing_rows [OF Cons.prems(1) s(1,3) rs(2)] s(2) by simp
  then obtain db' where c: "cascade_loop del rs db 0 = Some (Ok (db', card (cascaded db ?S)))" "pruned (cascaded db ?S) db db'" "state_ok H db'"
    unfolding removes_def by auto
  obtain db'' where r: "remove_record db' (ti_name T) a row = Ok db''" "pruned (cascaded db {?p}) db db''" "state_ok H db''"
    using remove_after_cascade [OF Cons.prems(1,3) s(1,3)] c(2,3) s(2) by auto
  let ?rest = "Pair (ti_name T) ` fst ` set records"
  have d: "distinct (map ts_name db)" "distinct (map ts_name db'')" using Cons.prems(1) r(3) by (simp_all add: state_ok_def)
  have notin: "q \<notin> cascaded db {?p}" if "q \<in> ?rest" for q
    using that Cons.prems(5) cascaded_rank [OF Cons.prems(3), of q ?p] by (force simp: x)
  have sub: "{?p} \<subseteq> fst ` db_rows db" "?rest \<subseteq> fst ` db_rows db"
    using s unfolding db_rows_def by force+
  have "\<exists>s \<in> set db''. ts_info s = T \<and> set records \<subseteq> set (ts_rows s)"
    by (rule records_remain [OF d r(2) s(1,2,4) notin])
  then obtain fin where fin: "delete_loop del E Cascade T records db'' (n + card (cascaded db ?S)) =
      Some (Ok (fin, n + card (cascaded db ?S) + card (cascaded db'' ?rest) - length records))" "pruned (cascaded db'' ?rest) db'' fin" "state_ok H fin"
    using Cons.IH [OF r(3), of "n + card (cascaded db ?S)"] Cons.prems(2,3,5) by (auto simp: schema_infos [OF pruned_infos [OF r(2)]])
  have rest: "cascaded db'' ?rest = cascaded db ?rest - cascaded db {?p}"
    using cascaded_pruned [OF r(2), of ?rest] notin by (simp add: Diff_triv disjoint_iff)
  have len: "length records \<le> card (cascaded db'' ?rest)"
  proof -
    have "?rest = Pair (ti_name T) ` set (map fst records)" by simp
    then have "card ?rest = card (set (map fst records))" by (metis card_image inj_onI prod.inject)
    also have "\<dots> = length records" using distinct_card [of "map fst records"] Cons.prems(5) by simp
    finally have "card ?rest = length records" .
    moreover have "?rest \<subseteq> cascaded db'' ?rest" by (auto simp: cascaded_def)
    moreover have "finite (cascaded db'' ?rest)" unfolding rest using finite_cascaded [OF sub(2)] by blast
    ultimately show ?thesis by (metis card_mono)
  qed
  have p: "card (cascaded db {?p}) = Suc (card (cascaded db ?S))"
  proof -
    have "?S \<subseteq> fst ` db_rows db" by (force simp: fk_matches_def)
    moreover have "?p \<notin> cascaded db ?S" using cascade_below [OF Cons.prems(3), of ?p ?p] by blast
    ultimately show ?thesis using finite_cascaded [of ?S db] by (simp add: cascaded_step [of db ?p])
  qed
  have "card (cascaded db ({?p} \<union> ?rest)) = card (cascaded db {?p}) + card (cascaded db'' ?rest)"
    unfolding cascaded_Un rest using card_Un_disjoint [of "cascaded db {?p}" "cascaded db ?rest - cascaded db {?p}"]
      finite_cascaded [OF sub(1)] finite_cascaded [OF sub(2)] by auto
  moreover have "pruned (cascaded db ({?p} \<union> ?rest)) db fin"
    unfolding cascaded_Un using pruned_trans [OF r(2) fin(2)] unfolding rest by simp
  moreover have "Pair (ti_name T) ` fst ` set (x # records) = {?p} \<union> ?rest" by (simp add: x)
  ultimately show ?case
    using c r fin len p rs(1) by (simp add: x bind_run_def delete_foreign_keys_cascade_def)
qed

lemma delete_records_cascade:
  assumes "\<not> en_drift E" and "state_ok (en_host E) db" and "references_ok db" and "acyclic_references rank db"
    and "name \<in> ts_name ` set db" and "rank name < depth"
    and "\<forall>a row. ((name, a), row) \<in> db_rows db \<longrightarrow> (\<exists>b. row_keep (en_host E) f row = Ok b)"
  shows "removes (en_host E) db (matching_rows (en_host E) db name f) 0 (delete_records depth E Cascade db name f)"
  using assms(2-)
proof (induction depth arbitrary: db name f)
  case (Suc depth)
  let ?H = "en_host E" and ?M = "matching_rows (en_host E) db name f"
  obtain s where s: "s \<in> set db" "ts_name s = name" using Suc.prems(4) by auto
  have d: "distinct (map ts_name db)" and ok: "table_state_ok ?H s" using Suc.prems(1) s(1) by (auto simp: state_ok_def)
  have rows: "((name, a), row) \<in> db_rows db \<longleftrightarrow> (a, row) \<in> set (ts_rows s)" for a row
    using table_rows_of_state [OF d s(1)] s(2) by simp
  obtain records where rec: "collect_matching_records ?H s f = Ok records" "distinct records"
    "set records = {r \<in> set (ts_rows s). row_matches ?H f r}"
    using collect_matching_records_spec [OF ok, of f] Suc.prems(6) rows by auto
  have M: "Pair name ` fst ` set records = ?M" unfolding matching_rows_def rec(3) rows by force
  have dist: "distinct (map fst records)"
    using rec(2,3) table_state_okD(7) [OF ok] by (auto simp: distinct_map inj_on_def)
  have "deletes_exactly ?H rank (rank name) (\<lambda>db table g. delete_records depth E Cascade db table (Some g))"
    unfolding deletes_exactly_def
  proof (intro allI impI Suc.IH)
    fix db :: "'a db_state" and t c v row
    show "\<exists>b. row_keep ?H (Some (FEq c v)) row = Ok b" by (simp add: row_keep_def)
  qed (use Suc.prems(5) in auto)
  then obtain db' where run: "delete_loop (\<lambda>db table g. delete_records depth E Cascade db table (Some g)) E Cascade (ts_info s) records db (length records) =
      Some (Ok (db', length records + card (cascaded db ?M) - length records))" "pruned (cascaded db ?M) db db'" "state_ok ?H db'"
    using delete_loop_cascade [where H = ?H and rank = rank and T = "ts_info s" and records = records and db = db and n = "length records"
        and del = "\<lambda>db table g. delete_records depth E Cascade db table (Some g)" and E = E] Suc.prems(1-3) s rec(3) dist M by auto
  have "table_of db name = Ok s" using table_of_member [OF d s(1)] s(2) by simp
  then show ?case using run rec(1) assms(1) by (simp add: removes_def bind_run_def ensure_no_drift_def)
qed simp

section \<open>Restricted deletion\<close>

lemma query_results_length:
  assumes "q_limit q = None" "q_offset q = None" "q_distinct_by q = []"
  shows "length (query_results columns q rows) = length rows"
proof -
  have "length (sort_by c xs) = length xs" for c and xs :: "'a table_columns list" using mset_sort_by [of c xs] by (rule mset_eq_length)
  then show ?thesis using assms by (simp add: query_results_def page_def apply_distinct_def apply_column_selection_def)
qed

lemma schema_select_eq:
  assumes ok: "state_ok (en_host E) db" and t: "t \<in> ts_name ` set db"
  shows "\<exists>rows. schema_select E db t (qb_filter (Some (FEq c v)) (qb_field c default_query)) = Ok rows \<and>
    (rows = [] \<longleftrightarrow> matching_rows (en_host E) db t (Some (FEq c v)) = {})"
proof -
  let ?H = "en_host E" and ?q = "qb_filter (Some (FEq c v)) (qb_field c default_query) :: 'a query"
  obtain s where s: "s \<in> set db" "ts_name s = t" using t by auto
  have d: "distinct (map ts_name db)" and tok: "table_state_ok ?H s" using ok s(1) by (auto simp: state_ok_def)
  note tok = table_state_okD [OF tok]
  have q: "q_filter ?q = Some (FEq c v)" "q_eager_relations ?q = []" "q_group_by ?q = []" "q_having ?q = None"
    "q_limit ?q = None" "q_offset ?q = None" "q_distinct_by ?q = []"
    by (simp_all add: qb_filter_def qb_field_def default_query_def split: select_spec.split)
  have vis: "visible_rows None (map snd (ts_rows s)) = map snd (ts_rows s)" by (simp add: visible_rows_def ops_in_def)
  have "changes_ok (ts_info s) (Option.bind None (\<lambda>db. db (ts_name s))) (map snd (ts_rows s))" using tok(8) by simp
  note spec = stored_table.select_store_spec [OF tok(9,1,2,4) this q(2) refl, of "en_hash_iter E" "en_fetch_batch E", unfolded q option.map bind.simps vis]
  have total: "row_keep ?H (Some (FEq c v)) row \<noteq> Err e" "row_keep ?H (Some (FEq c v)) row \<noteq> Panic" for row e by (simp_all add: row_keep_def)
  obtain rows where rows: "mset rows = mset (filter (\<lambda>row. row_keep ?H (Some (FEq c v)) row = Ok True) (map snd (ts_rows s)))"
    "select_columns ?H (en_hash_iter E) (en_fetch_batch E) (ts_info s) (Ok (access_of s)) None ?q = Ok (query_results (ti_columns (ts_info s)) ?q rows)"
  proof (cases "select_columns ?H (en_hash_iter E) (en_fetch_batch E) (ts_info s) (Ok (access_of s)) None ?q")
    case (Ok results)
    then obtain rows where "mset rows = mset (filter (\<lambda>row. row_keep ?H (Some (FEq c v)) row = Ok True) (map snd (ts_rows s)))"
      "results = query_results (ti_columns (ts_info s)) ?q rows"
      using spec unfolding access_of_def by (simp only: outcome.case) (elim conjE exE)
    then show thesis using that Ok by simp
  next
    case (Err e)
    then show thesis using spec total unfolding access_of_def by simp
  next
    case Panic
    then show thesis using spec total unfolding access_of_def by simp
  qed
  let ?out = "flatten_table_columns (query_results (ti_columns (ts_info s)) ?q rows)"
  have run: "schema_select E db t ?q = Ok ?out"
    using rows(2) table_of_member [OF d s(1)] s(2) by (simp add: schema_select_def)
  have "length ?out = length rows" using query_results_length [OF q(5-7)] by (simp add: flatten_table_columns_def)
  then have "?out = [] \<longleftrightarrow> set rows = {}" by (metis length_0_conv set_empty)
  also have "set rows = {row \<in> snd ` set (ts_rows s). row_keep ?H (Some (FEq c v)) row = Ok True}" using mset_eq_setD [OF rows(1)] by simp
  also have "\<dots> = {} \<longleftrightarrow> matching_rows ?H db t (Some (FEq c v)) = {}"
    using table_rows_of_state [OF d s(1)] by (auto simp: matching_rows_def s(2))
  finally show ?thesis using run by blast
qed

lemma any_reference_spec:
  assumes ok: "state_ok (en_host E) db" and "\<forall>(t, c, v) \<in> set refs. t \<in> ts_name ` set db"
  shows "any_reference E db refs = Ok ((\<Union>(t, c, v) \<in> set refs. matching_rows (en_host E) db t (Some (FEq c v))) \<noteq> {})"
  using assms(2)
proof (induction refs)
  case (Cons x refs)
  obtain t c v where x: "x = (t, c, v)" by (cases x)
  obtain rows where "schema_select E db t (qb_filter (Some (FEq c v)) (qb_field c default_query)) = Ok rows"
    "rows = [] \<longleftrightarrow> matching_rows (en_host E) db t (Some (FEq c v)) = {}"
    using schema_select_eq [OF ok, of t c v] Cons.prems unfolding x by fastforce
  then show ?case using Cons by (auto simp: x)
qed simp

lemma has_foreign_key_references_spec:
  assumes "state_ok (en_host E) db" and "references_ok db" and "s \<in> set db" and "(a, row) \<in> set (ts_rows s)"
  shows "has_foreign_key_references E db (ts_name s) row = Ok (fk_matches db `` {(ts_name s, a)} \<noteq> {})"
proof -
  obtain rs where rs: "referencing_columns db (ts_name s) row = Ok rs"
    "set rs = {(t, cd_name c, v) |t c fk v. (t, c, fk) \<in> foreign_keys db \<and> fk_foreign_table fk = ts_name s \<and> row_get row (fk_foreign_column fk) = Some v}"
    using referencing_columns_spec [OF assms] by auto
  have "\<forall>(t, c, v) \<in> set rs. t \<in> ts_name ` set db" unfolding rs(2) using foreign_key_table by blast
  then show ?thesis
    using any_reference_spec [OF assms(1), of rs] rs(1) unfolding referencing_rows [OF assms(1,3,4) rs(2)] by (simp add: has_foreign_key_references_def)
qed

lemma delete_loop_restrict:
  assumes "state_ok (en_host E) db" "references_ok db" "acyclic_references rank db"
    and "\<exists>s \<in> set db. ts_info s = T \<and> set records \<subseteq> set (ts_rows s)" and "distinct (map fst records)"
  shows "if fk_matches db `` (Pair (ti_name T) ` fst ` set records) = {}
    then \<exists>db'. delete_loop del E Restrict T records db n = Some (Ok (db', n)) \<and>
      pruned (Pair (ti_name T) ` fst ` set records) db db' \<and> state_ok (en_host E) db'
    else delete_loop del E Restrict T records db n = Some (Err (DQuery (ForeignKeyConstraintViolation (ti_name T) (ti_primary_key T))))"
  using assms
proof (induction records arbitrary: db n)
  case Nil
  then show ?case by (simp add: pruned_empty)
next
  case (Cons x records)
  obtain a row where x: "x = (a, row)" by (cases x)
  obtain s where s: "s \<in> set db" "ts_info s = T" "(a, row) \<in> set (ts_rows s)" "set records \<subseteq> set (ts_rows s)"
    using Cons.prems(4) by (auto simp: x)
  let ?p = "(ti_name T, a)" and ?rest = "Pair (ti_name T) ` fst ` set records"
  have has: "has_foreign_key_references E db (ti_name T) row = Ok (fk_matches db `` {?p} \<noteq> {})"
    using has_foreign_key_references_spec [OF Cons.prems(1,2) s(1,3)] s(2) by simp
  have all: "fk_matches db `` (Pair (ti_name T) ` fst ` set (x # records)) = fk_matches db `` {?p} \<union> fk_matches db `` ?rest" by (auto simp: x)
  show ?case
  proof (cases "fk_matches db `` {?p} = {}")
    case False
    then show ?thesis unfolding all using has by (simp add: x bind_run_def)
  next
    case True
    obtain db' where r: "remove_record db (ti_name T) a row = Ok db'" "pruned {?p} db db'" "state_ok (en_host E) db'"
      using remove_record_spec [OF Cons.prems(1) s(1,3)] s(2) by auto
    have d: "distinct (map ts_name db)" "distinct (map ts_name db')" using Cons.prems(1) r(3) by (simp_all add: state_ok_def)
    have "\<exists>s \<in> set db'. ts_info s = T \<and> set records \<subseteq> set (ts_rows s)"
      by (rule records_remain [OF d r(2) s(1,2,4)]) (use Cons.prems(5) in \<open>auto simp: x\<close>)
    then have ih: "if fk_matches db' `` ?rest = {}
        then \<exists>fin. delete_loop del E Restrict T records db' n = Some (Ok (fin, n)) \<and> pruned ?rest db' fin \<and> state_ok (en_host E) fin
        else delete_loop del E Restrict T records db' n = Some (Err (DQuery (ForeignKeyConstraintViolation (ti_name T) (ti_primary_key T))))"
      using Cons.IH [OF r(3), of n] Cons.prems(2,3,5) by (simp add: schema_infos [OF pruned_infos [OF r(2)]])
    have low: "rank (fst k) < rank (fst q)" if "(q, k) \<in> fk_matches db" for q k
      using that Cons.prems(3) by (fastforce simp: fk_matches_def acyclic_references_def)
    have rest: "fk_matches db' `` ?rest = fk_matches db `` ?rest"
    proof -
      have "q \<noteq> ?p \<and> k \<noteq> ?p" if "q \<in> ?rest" "(q, k) \<in> fk_matches db" for q k
        using that low [OF that(2)] Cons.prems(5) by (auto simp: x)
      then show ?thesis unfolding fk_matches_pruned [OF r(2)] by blast
    qed
    have run: "delete_loop del E Restrict T (x # records) db n = delete_loop del E Restrict T records db' n"
      using has True r(1) by (simp add: x bind_run_def)
    show ?thesis
    proof (cases "fk_matches db `` ?rest = {}")
      case none: True
      then obtain fin where fin: "delete_loop del E Restrict T records db' n = Some (Ok (fin, n))" "pruned ?rest db' fin" "state_ok (en_host E) fin"
        using ih rest by auto
      have "pruned (Pair (ti_name T) ` fst ` set (x # records)) db fin" using pruned_trans [OF r(2) fin(2)] by (simp add: x)
      then show ?thesis unfolding all run using fin True none by auto
    next
      case False
      then show ?thesis unfolding all run using ih rest by auto
    qed
  qed
qed

section \<open>Referential integrity\<close>

definition no_dangling :: "'d db_state \<Rightarrow> bool" where
  "no_dangling db \<longleftrightarrow> (\<forall>(t, c, fk) \<in> foreign_keys db. \<forall>a row v. ((t, a), row) \<in> db_rows db \<longrightarrow> row_get row (cd_name c) = Some v \<longrightarrow>
     cd_nullable c \<and> v = Null \<or>
     (\<exists>b prow. ((fk_foreign_table fk, b), prow) \<in> db_rows db \<and> row_get prow (fk_foreign_column fk) = Some v))"

lemma no_dangling_pruned:
  assumes "no_dangling db" and pr: "pruned D db db'" and closed: "fk_matches db `` D \<subseteq> D"
  shows "no_dangling db'"
proof -
  have fks: "foreign_keys db' = foreign_keys db" by (rule foreign_keys_infos [OF pruned_infos [OF pr]])
  have "cd_nullable c \<and> v = Null \<or> (\<exists>b prow. ((fk_foreign_table fk, b), prow) \<in> db_rows db' \<and> row_get prow (fk_foreign_column fk) = Some v)"
    if k: "(t, c, fk) \<in> foreign_keys db" "((t, a), row) \<in> db_rows db'" "row_get row (cd_name c) = Some v" for t c fk a row v
  proof -
    have r: "((t, a), row) \<in> db_rows db" "(t, a) \<notin> D" using k(2) by (simp_all add: pruned_rows [OF pr])
    consider "cd_nullable c \<and> v = Null" | b prow where "((fk_foreign_table fk, b), prow) \<in> db_rows db" "row_get prow (fk_foreign_column fk) = Some v"
      using assms(1) k(1,3) r(1) unfolding no_dangling_def by blast
    then show ?thesis
    proof cases
      case (2 b prow)
      have "((fk_foreign_table fk, b), (t, a)) \<in> fk_matches db" unfolding fk_matches_def using k r 2 by simp blast
      then have "(fk_foreign_table fk, b) \<notin> D" using closed r(2) by blast
      then show ?thesis using 2 by (auto simp: pruned_rows [OF pr])
    qed simp
  qed
  then show ?thesis unfolding no_dangling_def fks by blast
qed

text \<open>
  The condition under which the values a lookup compares say what the references are: no record that a
  foreign key may point to has a null value in the column it points to.
\<close>

definition referenced_not_null :: "'d db_state \<Rightarrow> bool" where
  "referenced_not_null db \<longleftrightarrow> (\<forall>(t, c, fk) \<in> foreign_keys db. \<forall>a row. ((fk_foreign_table fk, a), row) \<in> db_rows db \<longrightarrow>
     row_get row (fk_foreign_column fk) \<noteq> Some Null)"

lemma fk_matches_references:
  assumes "referenced_not_null db"
  shows "fk_matches db = references db"
proof -
  have "v \<noteq> Null" if "(p, prow) \<in> db_rows db" "(t, c, fk) \<in> foreign_keys db" "fk_foreign_table fk = fst p"
    "row_get prow (fk_foreign_column fk) = Some v" for p prow t c fk v
    using assms that by (cases p) (fastforce simp: referenced_not_null_def)
  then show ?thesis unfolding references_def fk_matches_def by blast
qed

lemma cascaded_doomed: "referenced_not_null db \<Longrightarrow> cascaded db S = doomed db S"
  by (simp add: cascaded_def doomed_def fk_matches_references)

text \<open>C6: a cascading deletion returns whenever the references between the tables form no cycle, within a depth bounded
  by the rank of its table, in a database where no referenced column of a referenced table is null. It removes exactly the matching rows and the rows that reference a removed
  row, directly or through other rows, each counted once; every other row stays in its place, the indexes
  of every table still hold exactly its rows, and a database without dangling references keeps none.\<close>

theorem cascade_delete_exact:
  assumes "\<not> en_drift E" and "state_ok (en_host E) db" and "references_ok db" and "acyclic_references rank db"
    and "name \<in> ts_name ` set db" and "rank name < depth"
    and "\<forall>a row. ((name, a), row) \<in> db_rows db \<longrightarrow> (\<exists>b. row_keep (en_host E) f row = Ok b)"
    and "referenced_not_null db" and "D = doomed db (matching_rows (en_host E) db name f)"
  shows "\<exists>db'. delete_records depth E Cascade db name f = Some (Ok (db', card D)) \<and> pruned D db db' \<and>
    state_ok (en_host E) db' \<and> (no_dangling db \<longrightarrow> no_dangling db')"
  using delete_records_cascade [OF assms(1-7)] no_dangling_pruned cascaded_closed
  unfolding removes_def assms(9) cascaded_doomed [OF assms(8), symmetric] by fastforce

lemma delete_records_restrict:
  assumes "\<not> en_drift E" and "state_ok (en_host E) db" and "references_ok db" and "acyclic_references rank db"
    and "s \<in> set db"
    and "\<forall>(a, row) \<in> set (ts_rows s). \<exists>b. row_keep (en_host E) f row = Ok b"
    and "S = matching_rows (en_host E) db (ts_name s) f"
  shows "if fk_matches db `` S = {}
    then \<exists>db'. delete_records (Suc depth) E Restrict db (ts_name s) f = Some (Ok (db', card S)) \<and> pruned S db db' \<and>
      state_ok (en_host E) db' \<and> (no_dangling db \<longrightarrow> no_dangling db')
    else delete_records (Suc depth) E Restrict db (ts_name s) f =
      Some (Err (DQuery (ForeignKeyConstraintViolation (ts_name s) (ti_primary_key (ts_info s)))))"
proof -
  let ?H = "en_host E"
  have d: "distinct (map ts_name db)" and ok: "table_state_ok ?H s" using assms(2,5) by (auto simp: state_ok_def)
  obtain records where rec: "collect_matching_records ?H s f = Ok records" "distinct records"
    "set records = {r \<in> set (ts_rows s). row_matches ?H f r}"
    using collect_matching_records_spec [OF ok assms(6)] by auto
  have S: "Pair (ts_name s) ` fst ` set records = S"
    unfolding assms(7) matching_rows_def rec(3) table_rows_of_state [OF d assms(5)] by force
  have dist: "distinct (map fst records)"
    using rec(2,3) table_state_okD(7) [OF ok] by (auto simp: distinct_map inj_on_def)
  have "length records = card S"
  proof -
    have "card S = card (set (map fst records))" unfolding S [symmetric] set_map by (intro card_image inj_onI) simp
    then show ?thesis using distinct_card [OF dist] by simp
  qed
  moreover have "\<exists>t \<in> set db. ts_info t = ts_info s \<and> set records \<subseteq> set (ts_rows t)" using assms(5) rec(3) by auto
  moreover have "fk_matches db `` S = {} \<Longrightarrow> pruned S db db' \<Longrightarrow> no_dangling db \<Longrightarrow> no_dangling db'" for db'
    using no_dangling_pruned by fast
  moreover have "delete_records (Suc depth) E Restrict db (ts_name s) f =
      delete_loop (\<lambda>db table g. delete_records depth E Cascade db table (Some g)) E Restrict (ts_info s) records db (length records)"
    using rec(1) assms(1) table_of_member [OF d assms(5)] by (simp add: bind_run_def ensure_no_drift_def)
  ultimately show ?thesis
    using delete_loop_restrict [OF assms(2-4), of "ts_info s" records "\<lambda>db table g. delete_records depth E Cascade db table (Some g)" "length records"] dist
    unfolding S by (cases "fk_matches db `` S = {}") (simp_all, fast)
qed


text \<open>The lookups compare null values too. When a matching record has a null value in a column that a foreign key
  points to, a row whose foreign key is null, which references no record, is taken for a row that references
  it: a cascading deletion deletes that row, and a restricted one is refused.\<close>

theorem null_keys_taken_for_references:
  assumes "\<not> en_drift E" and "state_ok (en_host E) db" and "references_ok db" and "acyclic_references rank db"
    and "s \<in> set db" and "rank (ts_name s) < depth"
    and "\<forall>(a, row) \<in> set (ts_rows s). \<exists>b. row_keep (en_host E) f row = Ok b"
    and "(t, c, fk) \<in> foreign_keys db" and "fk_foreign_table fk = ts_name s"
    and "(a, row) \<in> set (ts_rows s)" and "row_keep (en_host E) f row = Ok True" and "row_get row (fk_foreign_column fk) = Some Null"
    and "((t, b), krow) \<in> db_rows db" and "row_get krow (cd_name c) = Some Null"
  shows "(\<exists>db' n. delete_records depth E Cascade db (ts_name s) f = Some (Ok (db', n)) \<and> (t, b) \<notin> fst ` db_rows db') \<and>
    delete_records depth E Restrict db (ts_name s) f = Some (Err (DQuery (ForeignKeyConstraintViolation (ts_name s) (ti_primary_key (ts_info s)))))"
proof
  let ?S = "matching_rows (en_host E) db (ts_name s) f" and ?p = "(ts_name s, a)"
  have d: "distinct (map ts_name db)" using assms(2) by (simp add: state_ok_def)
  have p: "(?p, row) \<in> db_rows db" using assms(5,10) by (auto simp: db_rows_def)
  then have S: "?p \<in> ?S" using assms(11) by (auto simp: matching_rows_def)
  have m: "(?p, (t, b)) \<in> fk_matches db" unfolding fk_matches_def using p assms(8,9,12-14) by simp blast
  have keep: "\<forall>a row. ((ts_name s, a), row) \<in> db_rows db \<longrightarrow> (\<exists>b. row_keep (en_host E) f row = Ok b)"
    using assms(7) table_rows_of_state [OF d assms(5)] by auto
  obtain db' where r: "delete_records depth E Cascade db (ts_name s) f = Some (Ok (db', card (cascaded db ?S)))" "pruned (cascaded db ?S) db db'"
    using delete_records_cascade [OF assms(1-4) _ assms(6) keep] assms(5) by (auto simp: removes_def)
  have "(t, b) \<in> cascaded db ?S" using S m by (auto simp: cascaded_def)
  then show "\<exists>db' n. delete_records depth E Cascade db (ts_name s) f = Some (Ok (db', n)) \<and> (t, b) \<notin> fst ` db_rows db'"
    using r by (auto simp: pruned_rows)
  have "fk_matches db `` ?S \<noteq> {}" using S m by auto
  moreover obtain depth' where "depth = Suc depth'" using assms(6) by (cases depth) auto
  ultimately show "delete_records depth E Restrict db (ts_name s) f =
      Some (Err (DQuery (ForeignKeyConstraintViolation (ts_name s) (ti_primary_key (ts_info s)))))"
    using delete_records_restrict [OF assms(1-5,7) refl, of depth'] by simp
qed

text \<open>C38: a cascading deletion of a row that references itself never returns: the row is looked up again for every
  nested call, because it is removed only after the rows that reference it.\<close>

theorem cascade_self_reference_diverges:
  assumes "\<not> en_drift E" and "state_ok (en_host E) [s]" and "references_ok [s]" and "ts_rows s = [(a, row)]"
    and "foreign_keys [s] = {(ts_name s, c, fk)}" and "fk_foreign_table fk = ts_name s"
    and "row_get row (fk_foreign_column fk) = Some v" and "row_get row (cd_name c) = Some v"
    and "row_keep (en_host E) f row = Ok True"
  shows "delete_records depth E Cascade [s] (ts_name s) f = None"
  using assms(9)
proof (induction depth arbitrary: f)
  case (Suc depth)
  have ok: "table_state_ok (en_host E) s" using assms(2) by (simp add: state_ok_def)
  obtain records where rec: "collect_matching_records (en_host E) s f = Ok records" "distinct records" "set records = {(a, row)}"
  proof -
    have "{r \<in> set (ts_rows s). row_matches (en_host E) f r} = {(a, row)}" using assms(4) Suc.prems by auto
    then show thesis using collect_matching_records_spec [OF ok, of f] Suc.prems assms(4) that by auto
  qed
  have records: "records = [(a, row)]" using rec(2,3) by (cases records; cases "tl records") auto
  obtain rs where rs: "referencing_columns [s] (ts_name s) row = Ok rs" "set rs = {(ts_name s, cd_name c, v)}"
    using referencing_columns_spec [OF assms(2,3), of s a row] assms(4-7) by auto
  obtain rest where rest: "rs = (ts_name s, cd_name c, v) # rest" using rs(2) by (cases rs) auto
  have "distinct (row_names row)" using table_state_okD(1) [OF ok] assms(4) by (simp add: table_ok_def row_wf_def)
  then have "row_keep (en_host E) (Some (FEq (cd_name c) v)) row = Ok True"
    using row_any_get [of row "cd_name c" "\<lambda>x. x = v"] assms(8) by (simp add: row_keep_def)
  then have "delete_records depth E Cascade [s] (ts_name s) (Some (FEq (cd_name c) v)) = None" by (rule Suc.IH)
  then show ?case
    using assms(1) rec(1) rs(1)
    by (simp add: bind_run_def table_of_def ensure_no_drift_def records delete_foreign_keys_cascade_def rest)
qed simp

definition state_of :: "'d :: linorder table_info \<Rightarrow> (record_address \<times> 'd row) list \<Rightarrow> 'd table_state" where
  "state_of T rows = \<lparr>ts_info = T, ts_rows = rows, ts_index = build_store (ti_indexes T) rows\<rparr>"

lemma state_of_ok:
  assumes "table_ok (ti_columns T) (ti_indexes T) rows" "key_column T" "distinct (map (row_pk \<circ> snd) rows)"
    "length rows < usize_max H" "distinct (ti_indexes T)"
  shows "table_state_ok H (state_of T rows)"
  using assms Plan_Executor.built.indexed_table_axioms by (simp add: table_state_ok_def state_of_def)

definition sample_key :: "string \<Rightarrow> int column_def" where
  "sample_key table = (sample_column ''owner'' KUint32)\<lparr>cd_foreign_key := Some \<lparr>fk_local_column = ''owner'', fk_foreign_table = table, fk_foreign_column = ''id''\<rparr>\<rparr>"

definition sample_owned :: "string \<Rightarrow> string \<Rightarrow> int table_info" where
  "sample_owned name table = \<lparr>ti_name = name, ti_primary_key = ''id'', ti_indexes = [[''id''], [''owner'']],
     ti_columns = [sample_column ''id'' KUint32, sample_key table]\<rparr>"

definition sample_owned_row :: "string \<Rightarrow> nat \<Rightarrow> int dbms_value \<Rightarrow> int row" where
  "sample_owned_row table n k = [(sample_column ''id'' KUint32, Uint32 n), (sample_key table, k)]"

definition sample_blog :: "int db_state" where
  "sample_blog = [state_of sample_info sample_table,
     state_of (sample_owned ''posts'' ''users'') [(\<lparr>ra_page = 5, ra_offset = 0\<rparr>, sample_owned_row ''users'' 1 (Uint32 7))]]"

definition sample_engine :: "int engine" where
  "sample_engine = \<lparr>en_host = sample_host, en_hash_iter = (\<lambda>s. []), en_fetch_batch = (\<lambda>r c vs. Ok Map.empty), en_drift = False\<rparr>"

lemma sample_owned_ok: "k = Uint32 i \<Longrightarrow> table_state_ok sample_host (state_of (sample_owned name table) [(a, sample_owned_row table n k)])"
  by (rule state_of_ok) (simp_all add: table_ok_def sample_owned_def sample_owned_row_def row_wf_def row_names_def has_columns_def
      sample_column_def sample_key_def key_column_def sample_host_def)

lemma sample_users_ok: "table_state_ok sample_host (state_of sample_info sample_table)"
  using sample_database_ok
  by (intro state_of_ok) (simp_all add: database_ok_def sample_database_def changes_ok_def ops_in_def visible_rows_def comp_def, simp add: sample_info_def)

lemma foreign_keys_list:
  "foreign_keys db = set (concat (map (\<lambda>s. List.map_filter (\<lambda>c. map_option (\<lambda>fk. (ts_name s, c, fk)) (cd_foreign_key c)) (ti_columns (ts_info s))) db))"
  by (auto simp: foreign_keys_def set_map_filter)

lemma sample_owned_keys: "foreign_keys [state_of (sample_owned name table) rows] =
    {(name, sample_key table, \<lparr>fk_local_column = ''owner'', fk_foreign_table = table, fk_foreign_column = ''id''\<rparr>)}"
  by (simp add: foreign_keys_list map_filter_simps state_of_def sample_owned_def) (simp add: sample_column_def sample_key_def)

lemma sample_blog_ok: "state_ok (en_host sample_engine) sample_blog" "references_ok sample_blog"
  "acyclic_references (\<lambda>t. if t = ''users'' then 1 else 0) sample_blog" "referenced_not_null sample_blog"
proof -
  show "state_ok (en_host sample_engine) sample_blog"
    using sample_owned_ok [OF refl] sample_users_ok by (simp add: state_ok_def sample_blog_def sample_engine_def) (simp add: state_of_def sample_info_def sample_owned_def)
  have fks: "foreign_keys sample_blog = {(''posts'', sample_key ''users'', \<lparr>fk_local_column = ''owner'', fk_foreign_table = ''users'', fk_foreign_column = ''id''\<rparr>)}"
    by (simp add: foreign_keys_list sample_blog_def map_filter_simps state_of_def sample_owned_def sample_info_def)
      (simp add: sample_column_def sample_key_def)
  show "references_ok sample_blog"
    unfolding references_ok_def fks by (simp add: sample_blog_def state_of_def sample_info_def sample_column_def sample_key_def)
  show "acyclic_references (\<lambda>t. if t = ''users'' then 1 else 0) sample_blog" unfolding acyclic_references_def fks by simp
  show "referenced_not_null sample_blog"
    unfolding referenced_not_null_def fks by (auto simp: db_rows_def sample_blog_def state_of_def sample_owned_def sample_table_def sample_info_def) (simp_all add: sample_column_def)
qed

theorem cascade_delete_exact_witness:
  "\<exists>D db'. D = doomed sample_blog (matching_rows sample_host sample_blog ''users'' None) \<and>
     delete_records 2 sample_engine Cascade sample_blog ''users'' None = Some (Ok (db', card D)) \<and> pruned D sample_blog db' \<and>
     state_ok sample_host db' \<and> (no_dangling sample_blog \<longrightarrow> no_dangling db')"
proof -
  have "\<not> en_drift sample_engine" "''users'' \<in> ts_name ` set sample_blog" "en_host sample_engine = sample_host"
    by (simp_all add: sample_engine_def sample_blog_def state_of_def sample_info_def)
  then show ?thesis
    using cascade_delete_exact [OF _ sample_blog_ok(1-3) _ _ _ sample_blog_ok(4), of "''users''" 2 None "doomed sample_blog (matching_rows sample_host sample_blog ''users'' None)"]
    by (auto simp: row_keep_def)
qed


text \<open>A table whose foreign key points to the nullable age of the users; the keys of both rows are null.\<close>

definition sample_age_key :: "int column_def" where
  "sample_age_key = (sample_column ''owner'' KInt32)\<lparr>cd_foreign_key := Some \<lparr>fk_local_column = ''owner'', fk_foreign_table = ''users'', fk_foreign_column = ''age''\<rparr>\<rparr>"

definition sample_ages :: "int db_state" where
  "sample_ages = [state_of sample_info [(\<lparr>ra_page = 3, ra_offset = 0\<rparr>, [(sample_column ''id'' KUint32, Uint32 7), (sample_column ''age'' KInt32, Null)])],
     state_of \<lparr>ti_name = ''fans'', ti_primary_key = ''id'', ti_indexes = [[''id'']], ti_columns = [sample_column ''id'' KUint32, sample_age_key]\<rparr>
       [(\<lparr>ra_page = 5, ra_offset = 0\<rparr>, [(sample_column ''id'' KUint32, Uint32 1), (sample_age_key, Null)])]]"

lemma sample_ages_ok: "state_ok sample_host sample_ages" "references_ok sample_ages"
  "acyclic_references (\<lambda>t. if t = ''users'' then 1 else 0) sample_ages"
  "foreign_keys sample_ages = {(''fans'', sample_age_key, \<lparr>fk_local_column = ''owner'', fk_foreign_table = ''users'', fk_foreign_column = ''age''\<rparr>)}"
proof -
  show fks: "foreign_keys sample_ages = {(''fans'', sample_age_key, \<lparr>fk_local_column = ''owner'', fk_foreign_table = ''users'', fk_foreign_column = ''age''\<rparr>)}"
    by (simp add: foreign_keys_list sample_ages_def map_filter_simps state_of_def sample_info_def) (simp add: sample_column_def sample_age_key_def)
  have "table_state_ok sample_host s" if "s \<in> set sample_ages" for s
    using that unfolding sample_ages_def
    by (auto intro!: state_of_ok) (simp_all add: table_ok_def sample_info_def row_wf_def row_names_def has_columns_def sample_column_def sample_age_key_def key_column_def sample_host_def)
  moreover have "distinct (map ts_name sample_ages)" by (simp add: sample_ages_def) (simp add: state_of_def sample_info_def)
  ultimately show "state_ok sample_host sample_ages" by (simp add: state_ok_def)
  show "references_ok sample_ages"
    unfolding references_ok_def fks by (simp add: sample_ages_def state_of_def sample_info_def sample_column_def sample_age_key_def)
  show "acyclic_references (\<lambda>t. if t = ''users'' then 1 else 0) sample_ages" unfolding acyclic_references_def fks by simp
qed

lemma db_rows_list: "db_rows db = (\<Union>s \<in> set db. (\<lambda>(a, row). ((ts_name s, a), row)) ` set (ts_rows s))"
  by (force simp: db_rows_def)

theorem null_keys_taken_for_references_witness:
  "\<exists>db' n. delete_records 2 sample_engine Cascade sample_ages ''users'' None = Some (Ok (db', n)) \<and>
     (''fans'', \<lparr>ra_page = 5, ra_offset = 0\<rparr>) \<notin> fst ` db_rows db'"
proof -
  let ?row = "[(sample_column ''id'' KUint32, Uint32 7), (sample_column ''age'' KInt32, Null)]" and ?a = "\<lparr>ra_page = 3, ra_offset = 0\<rparr>"
  let ?s = "state_of sample_info [(?a, ?row)]" and ?b = "\<lparr>ra_page = 5, ra_offset = 0\<rparr>"
  have s: "?s \<in> set sample_ages" "ts_name ?s = ''users''" "ts_rows ?s = [(?a, ?row)]" "\<not> en_drift sample_engine" "en_host sample_engine = sample_host"
    by (simp_all add: sample_engine_def sample_ages_def) (simp_all add: state_of_def sample_info_def)
  have k: "((''fans'', ?b), [(sample_column ''id'' KUint32, Uint32 1), (sample_age_key, Null)]) \<in> db_rows sample_ages"
    unfolding db_rows_list by (simp add: sample_ages_def state_of_def)
  have get: "row_get ?row ''age'' = Some Null" "row_get [(sample_column ''id'' KUint32, Uint32 1), (sample_age_key, Null)] (cd_name sample_age_key) = Some Null"
    by (simp_all add: sample_column_def sample_age_key_def)
  show ?thesis
    using null_keys_taken_for_references [of sample_engine sample_ages "\<lambda>t. if t = ''users'' then 1 else 0" ?s 2 None "''fans''" sample_age_key
        "\<lparr>fk_local_column = ''owner'', fk_foreign_table = ''users'', fk_foreign_column = ''age''\<rparr>" ?a ?row ?b
        "[(sample_column ''id'' KUint32, Uint32 1), (sample_age_key, Null)]"]
      sample_ages_ok s k get by (auto simp: row_keep_def)
qed

theorem cascade_self_reference_diverges_witness:
  "delete_records 100 sample_engine Cascade [state_of (sample_owned ''staff'' ''staff'') [(\<lparr>ra_page = 5, ra_offset = 0\<rparr>, sample_owned_row ''staff'' 1 (Uint32 1))]]
     ''staff'' (Some (FEq ''id'' (Uint32 1))) = None"
proof -
  let ?s = "state_of (sample_owned ''staff'' ''staff'') [(\<lparr>ra_page = 5, ra_offset = 0\<rparr>, sample_owned_row ''staff'' 1 (Uint32 1))]"
  have s: "ts_name ?s = ''staff''" "ts_rows ?s = [(\<lparr>ra_page = 5, ra_offset = 0\<rparr>, sample_owned_row ''staff'' 1 (Uint32 1))]"
    by (simp_all add: state_of_def sample_owned_def)
  have ok: "\<not> en_drift sample_engine" "state_ok (en_host sample_engine) [?s]" "references_ok [?s]"
    using sample_owned_ok [OF refl] unfolding references_ok_def sample_owned_keys
    by (simp_all add: state_ok_def sample_engine_def) (simp add: state_of_def sample_owned_def sample_key_def sample_column_def)
  have row: "row_get (sample_owned_row ''staff'' 1 (Uint32 1)) ''id'' = Some (Uint32 1)" "row_get (sample_owned_row ''staff'' 1 (Uint32 1)) (cd_name (sample_key ''staff'')) = Some (Uint32 1)"
    "row_keep (en_host sample_engine) (Some (FEq ''id'' (Uint32 1))) (sample_owned_row ''staff'' 1 (Uint32 1)) = Ok True"
    by (simp_all add: sample_owned_row_def sample_column_def sample_key_def row_keep_def row_any_def)
  show ?thesis
    using cascade_self_reference_diverges [OF ok s(2), where f = "Some (FEq ''id'' (Uint32 1))" and depth = 100, unfolded s(1), OF sample_owned_keys] row by simp
qed

section \<open>A row reached twice\<close>

text \<open>
  In a table that references itself, a filter that matches a row and a row that references it makes the
  cascade remove the second row before its turn comes; its removal is then repeated, and the missing
  index entry turns the whole deletion into an error.
\<close>

lemma remove_missing_record:
  assumes "state_ok H [s]" and "ts_rows s = []" and "ti_indexes (ts_info s) \<noteq> []"
  shows "remove_record [s] (ts_name s) a row = Err (DMemory EntryNotFound)"
proof -
  obtain index rest where i: "ti_indexes (ts_info s) = index # rest" using assms(3) by (cases "ti_indexes (ts_info s)") auto
  have "indexed_table (ts_index s) [] (index # rest)" using assms(1,2) i by (simp add: state_ok_def table_state_ok_def)
  then have "ts_index s index = Some []" by (auto simp: indexed_table_def index_for_def)
  then show ?thesis by (simp add: remove_record_def table_of_def delete_index_def i ledger_delete_def index_of_def)
qed

lemma remove_from_only_table:
  assumes "state_ok H [s]" and "(a, row) \<in> set (ts_rows s)"
  shows "\<exists>t. remove_record [s] (ts_name s) a row = Ok [t] \<and> ts_info t = ts_info s \<and>
    ts_rows t = filter (\<lambda>(x, _). x \<noteq> a) (ts_rows s) \<and> state_ok H [t]"
proof -
  obtain db' where r: "remove_record [s] (ts_name s) a row = Ok db'" "pruned {(ts_name s, a)} [s] db'" "state_ok H db'"
    using remove_record_spec [OF assms(1) _ assms(2)] by auto
  obtain t where "db' = [t]" "ts_info t = ts_info s" "ts_rows t = filter (\<lambda>(x, _). x \<noteq> a) (ts_rows s)"
    using r(2) by (auto simp: pruned_def)
  then show ?thesis using r by auto
qed

lemma staff_references:
  assumes "ts_info s = sample_owned ''staff'' ''staff''"
  shows "referencing_columns [s] ''staff'' (sample_owned_row ''staff'' n k) = Ok [(''staff'', ''owner'', Uint32 n)]"
proof -
  have "referenced_tables [s] ''staff'' = [(''staff'', [''owner''])]"
    by (simp add: referenced_tables_def get_referenced_tables_def assms map_filter_simps sample_owned_def) (simp add: sample_column_def sample_key_def)
  moreover have "referenced_column [s] ''staff'' ''owner'' = Ok ''id''"
    by (simp add: referenced_column_def table_of_def assms sample_owned_def) (simp add: sample_column_def sample_key_def)
  ultimately show ?thesis by (simp add: referencing_columns_def sample_owned_row_def sample_column_def)
qed

lemma staff_delete_owned:
  assumes "state_ok sample_host [s]" and "ts_info s = sample_owned ''staff'' ''staff''"
    and "set (ts_rows s) = (\<lambda>(a, n, k). (a, sample_owned_row ''staff'' n k)) ` R" and "{x \<in> R. snd (snd x) = Uint32 m} = M"
  obtains records where "distinct records" "set records = (\<lambda>(a, n, k). (a, sample_owned_row ''staff'' n k)) ` M"
    "delete_records (Suc d) sample_engine Cascade [s] ''staff'' (Some (FEq ''owner'' (Uint32 m))) =
    delete_loop (\<lambda>db table g. delete_records d sample_engine Cascade db table (Some g)) sample_engine Cascade (ts_info s) records [s] (length records)"
proof -
  have name: "ts_name s = ''staff''" by (simp add: assms(2) sample_owned_def)
  have keep: "row_keep sample_host (Some (FEq ''owner'' (Uint32 m))) (sample_owned_row ''staff'' n k) = Ok (k = Uint32 m)" for n k
    by (simp add: row_keep_def row_any_def sample_owned_row_def sample_column_def sample_key_def)
  have "\<forall>(a, row) \<in> set (ts_rows s). \<exists>b. row_keep sample_host (Some (FEq ''owner'' (Uint32 m))) row = Ok b" by (auto simp: row_keep_def)
  then obtain records where r: "collect_matching_records sample_host s (Some (FEq ''owner'' (Uint32 m))) = Ok records" "distinct records"
    "set records = {r \<in> set (ts_rows s). row_matches sample_host (Some (FEq ''owner'' (Uint32 m))) r}"
    using collect_matching_records_spec [of sample_host s "Some (FEq ''owner'' (Uint32 m))"] assms(1) unfolding state_ok_def by auto
  have "set records = (\<lambda>(a, n, k). (a, sample_owned_row ''staff'' n k)) ` M"
    unfolding r(3) assms(3) assms(4) [symmetric] by (force simp: keep)
  then show thesis using r(1,2)
    by (intro that [of records]) (simp_all add: bind_run_def table_of_def name ensure_no_drift_def sample_engine_def)
qed

theorem cascade_reaches_row_twice:
  assumes "m \<noteq> n" "a \<noteq> b"
  shows "delete_records (Suc (Suc (Suc d))) sample_engine Cascade
    [state_of (sample_owned ''staff'' ''staff'') [(a, sample_owned_row ''staff'' m Null), (b, sample_owned_row ''staff'' n (Uint32 m))]] ''staff'' None =
    Some (Err (DMemory EntryNotFound))"
proof -
  let ?T = "sample_owned ''staff'' ''staff''" and ?m = "sample_owned_row ''staff'' m Null" and ?n = "sample_owned_row ''staff'' n (Uint32 m)"
  let ?s = "state_of ?T [(a, ?m), (b, ?n)]"
  let ?del = "\<lambda>d db table g. delete_records d sample_engine Cascade db table (Some g)"
  have T: "ti_name ?T = ''staff''" "ti_indexes ?T \<noteq> []" "ts_info ?s = ?T" "ts_rows ?s = [(a, ?m), (b, ?n)]" by (simp_all add: sample_owned_def state_of_def)
  have ok: "state_ok sample_host [?s]"
    unfolding state_ok_def using assms
    by (auto intro!: state_of_ok simp: table_ok_def sample_owned_def sample_owned_row_def row_wf_def row_names_def has_columns_def
      sample_column_def sample_key_def key_column_def sample_host_def row_pk_def)
  have refs: "referencing_columns [s] ''staff'' (sample_owned_row ''staff'' i k) = Ok [(''staff'', ''owner'', Uint32 i)]" if "ts_info s = ?T" for s i k
    using that by (rule staff_references)
  obtain s1 where s1: "remove_record [?s] ''staff'' b ?n = Ok [s1]" "ts_info s1 = ?T" "ts_rows s1 = [(a, ?m)]" "state_ok sample_host [s1]"
    using remove_from_only_table [OF ok, of b ?n] assms(2) by (auto simp: T)
  obtain s2 where s2: "remove_record [s1] ''staff'' a ?m = Ok [s2]" "ts_info s2 = ?T" "ts_rows s2 = []" "state_ok sample_host [s2]"
    using remove_from_only_table [OF s1(4), of a ?m] by (auto simp: T s1)
  have rows: "set (ts_rows ?s) = (\<lambda>(a, n, k). (a, sample_owned_row ''staff'' n k)) ` {(a, m, Null), (b, n, Uint32 m)}" by (simp add: T)
  have M: "{x \<in> {(a, m, Null), (b, n, Uint32 m)}. snd (snd x) = Uint32 n} = {}" "{x \<in> {(a, m, Null), (b, n, Uint32 m)}. snd (snd x) = Uint32 m} = {(b, n, Uint32 m)}"
    using assms by auto
  have none: "delete_records (Suc d) sample_engine Cascade [?s] ''staff'' (Some (FEq ''owner'' (Uint32 n))) = Some (Ok ([?s], 0))" for d
    by (rule staff_delete_owned [OF ok T(3) rows M(1), of d]) simp
  have inner: "delete_records (Suc (Suc d)) sample_engine Cascade [?s] ''staff'' (Some (FEq ''owner'' (Uint32 m))) = Some (Ok ([s1], 1))"
  proof (rule staff_delete_owned [OF ok T(3) rows M(2), of "Suc d"])
    fix records
    assume r: "distinct records" "set records = (\<lambda>(a, n, k). (a, sample_owned_row ''staff'' n k)) ` {(b, n, Uint32 m)}"
      "delete_records (Suc (Suc d)) sample_engine Cascade [?s] ''staff'' (Some (FEq ''owner'' (Uint32 m))) =
        delete_loop (?del (Suc d)) sample_engine Cascade (ts_info ?s) records [?s] (length records)"
    have "records = [(b, ?n)]" using r(1,2) by (cases records; cases "tl records") auto
    then show ?thesis unfolding r(3) T
      using none [of d] refs [OF T(3)] s1(1) by (simp add: T(1) bind_run_def delete_foreign_keys_cascade_def del: delete_records.simps)
  qed
  have last: "delete_records (Suc d) sample_engine Cascade [s2] ''staff'' (Some (FEq ''owner'' (Uint32 n))) = Some (Ok ([s2], 0))" for d
    by (rule staff_delete_owned [OF s2(4,2), of "{}" n "{}" d]) (simp_all add: s2)
  have gone: "remove_record [s2] ''staff'' b ?n = Err (DMemory EntryNotFound)"
    using remove_missing_record [OF s2(4,3)] T by (simp add: s2(2))
  have "delete_records (Suc (Suc (Suc d))) sample_engine Cascade [?s] ''staff'' None =
      delete_loop (?del (Suc (Suc d))) sample_engine Cascade ?T [(a, ?m), (b, ?n)] [?s] 2"
    by (simp add: bind_run_def table_of_def T ensure_no_drift_def sample_engine_def collect_matching_records_def del: delete_loop.simps)
      (simp add: T)
  also have "\<dots> = Some (Err (DMemory EntryNotFound))"
    using inner refs [OF T(3)] s2(1) last [of "Suc d"] refs [OF s2(2)] gone
    by (simp add: T(1) bind_run_def delete_foreign_keys_cascade_def del: delete_records.simps)
  finally show ?thesis .
qed

end
