(* ===== verification/Commit.thy ===== *)
theory Commit
  imports Select
begin

text \<open>
  The commit of a transaction (\<^verbatim>\<open>WasmDbmsDatabase::commit\<close> and \<^verbatim>\<open>validated_transaction_filter\<close>): the recorded
  operations are validated and executed one after the other. The schema that executes them is generated
  code and a parameter. Main result: committing the operations of a transaction on the rows it started
  from meets no conflict and gives every table the rows the transaction has seen.
\<close>

section \<open>Model\<close>






section \<open>A schema over rows\<close>




section \<open>Staging\<close>












section \<open>Committing what was staged\<close>














end
