(* ===== verification/Spec2Isabelle.thy ===== *)
theory Spec2Isabelle
  imports Journal Table_Reader Index_Store Mutations Commit
begin

text \<open>
  \<^bold>\<open>Verification of wasm-dbms.\<close>

  wasm-dbms is an embeddable relational database for WebAssembly hosts. A memory provider offers pages of
  64 KiB; the memory manager claims and releases them; every table has a registry of records on such pages,
  with ledgers for its pages, its free space and its indexes; the engine (\<^verbatim>\<open>WasmDbmsDatabase\<close>) plans a
  filter over the indexes, selects, joins, inserts, updates and deletes rows, checks foreign keys, and runs
  every write under a journal; transactions stage their operations in an overlay that reads see.

  \<^bold>\<open>Theories.\<close> Paths are relative to \<^verbatim>\<open>src/crates/wasm-dbms\<close>.

  \<^item> \<open>Prelude\<close>: results of fallible code (a Rust \<^verbatim>\<open>Result\<close> plus the panic), state-passing programs, byte
    strings, alignment, lists.
  \<^item> \<open>Encoding\<close> (\<^verbatim>\<open>wasm-dbms-api/src/memory\<close>): the \<^verbatim>\<open>Encode\<close> trait as a record of its items, errors.
  \<^item> \<open>Memory_Provider\<close>, \<open>Memory_Manager\<close>, \<open>Memory_Access\<close> (\<^verbatim>\<open>wasm-dbms-memory/src/provider.rs\<close>,
    \<^verbatim>\<open>memory_manager.rs\<close>, \<^verbatim>\<open>memory_access.rs\<close>, \<^verbatim>\<open>unclaimed_pages.rs\<close>): page access with bounds and alignment
    checks, claiming and releasing pages. The locales \<open>memory_provider\<close> and \<open>memory_access\<close> state their
    contracts; they are interpreted on the heap provider, the memory manager and the journaled writer.
  \<^item> \<open>Journal\<close> (\<^verbatim>\<open>wasm-dbms/src/transaction/journal.rs\<close>, \<^verbatim>\<open>atomic\<close> in \<^verbatim>\<open>database.rs\<close>): the undo journal.
  \<^item> \<open>Sized_Read\<close>, \<open>Page_Ledger\<close>, \<open>Free_Segments\<close>, \<open>Free_Space\<close>, \<open>Records\<close>, \<open>Table_Layout\<close>, \<open>Table_Registry\<close>,
    \<open>Table_Reader\<close> (\<^verbatim>\<open>wasm-dbms-memory/src/table_registry\<close>): the records of a table on bytes. \<open>Free_Space\<close>
    gives the free segments their meaning as sets of cells, \<open>Table_Layout\<close> the pages theirs as a map from
    addresses to records; insert, update, delete and the sequential scan refine the operations of that map.
  \<^item> \<open>Value_Codecs\<close> (\<^verbatim>\<open>integers.rs\<close>, \<^verbatim>\<open>blob.rs\<close> in \<^verbatim>\<open>wasm-dbms-api/src/dbms/types\<close>): encodings of integers and byte
    strings, which satisfy the laws of the locale \<open>encoding\<close>.
  \<^item> \<open>Index_Node\<close>, \<open>Index_Tree\<close>, \<open>Index_Search\<close>, \<open>Index_Insert\<close>, \<open>Index_Pages\<close>, \<open>Index_Store\<close>
    (\<^verbatim>\<open>wasm-dbms-memory/src/table_registry/index_ledger/index_tree.rs\<close>, \<^verbatim>\<open>node_view.rs\<close>, \<^verbatim>\<open>walker.rs\<close>): the B+ tree of
    an index on bytes. \<open>Index_Node\<close> has the layout of a node, \<open>Index_Tree\<close> the operations, \<open>Index_Search\<close> the
    abstract tree with its linked leaves and what it means that pages hold it; the others prove each
    operation against it in the locale \<open>index_memory\<close>, interpreted on the heap in \<open>Index_Store\<close>.
  \<^item> \<open>Json_Value\<close>, \<open>Values\<close>, \<open>Like\<close>, \<open>Json_Filter\<close>, \<open>Query_Filter\<close> (\<^verbatim>\<open>wasm-dbms-api/src/dbms\<close>): values with
    their order, LIKE patterns, JSON predicates, filters and their evaluation.
  \<^item> \<open>Index_Scan\<close>, \<open>Access_Planner\<close>, \<open>Filter_Analyzer\<close>, \<open>Plan_Executor\<close> (\<^verbatim>\<open>wasm-dbms/src/database\<close>): ranges of an
    index, both planners, and the execution of a plan under its budget. The locale \<open>indexed_table\<close> states
    what the indexes of a table promise.
  \<^item> \<open>Stable_Sort\<close>, \<open>Overlay\<close>, \<open>Transactions\<close>, \<open>Index_Select\<close>, \<open>Queries\<close>, \<open>Select\<close>, \<open>Join\<close>: the sort of the standard
    library, \<^verbatim>\<open>transaction.rs\<close> and \<^verbatim>\<open>transaction/\<close>, the query builder, the select pipeline of \<^verbatim>\<open>database.rs\<close>
    and \<^verbatim>\<open>join.rs\<close>. The locale \<open>stored_table\<close> adds the reading of records to \<open>indexed_table\<close>; \<open>join_schema\<close> is
    what the join engine needs of the generated schema. Both are interpreted on loaded tables.
  \<^item> \<open>Mutations\<close>: deletion with its cascade, the reverse foreign key lookup (\<^verbatim>\<open>referenced_tables.rs\<close>) and the
    upkeep of the indexes in \<^verbatim>\<open>database.rs\<close>. Rows are kept by address and index entries in key order there; the
    bytes below them are those of \<open>Table_Registry\<close> and \<open>Index_Store\<close>.
  \<^item> \<open>Commit\<close> (\<^verbatim>\<open>commit\<close> in \<^verbatim>\<open>database.rs\<close>): the validation and execution of the operations of a transaction. The
    generated schema that executes them is a parameter; the theorem is about the schema that acts on the rows
    of each table.

  \<^bold>\<open>What the theorems show.\<close> Storage: writes read back, page and segment bookkeeping never loses or invents
  a byte, records of one table never touch another, a failed atomic block over the journaled writer restores
  every page as long as its calls stay in their pages and declare the size they encode, reloading a
  registry gives the same registry. Indexes: insertion with splits, deletion, search and range scans of the B+
  tree act on the sorted entries as their documentation says. Queries: filters evaluate as documented,
  planning through indexes changes neither the rows nor the errors of a full scan, a select inside or outside
  a transaction returns what its query means on the visible rows, in the order it asks for, and so does a
  join outside a transaction. Writes: where no referenced column is null, a cascade over acyclic references
  terminates and removes exactly the rows that reference a removed row, and no deletion leaves a dangling
  reference; a commit gives every table the rows the transaction saw. Some theorems state where the code
  does not do what it documents; they are findings.

  \<^bold>\<open>Bounds and fuel.\<close> Machine integers are natural numbers or integers with the wrap-around, saturation or
  check of the source written out. Recursion that the code bounds by data is bounded by the same data:
  the table reader runs with more fuel than there are records and with the number of ledger pages, the
  overlay reader with the number of stored rows and staged operations plus one; theorems show that this
  suffices. The loops of the B+ tree follow page links without a bound in the code; they get a number of
  steps, and the number of pages of the memory is enough. A cascade has no bound in the code: its depth of calls is a parameter, and a theorem shows that
  the rank of the table in the acyclic reference order is enough. The page ledger has fewer than 5460 pages
  and a free segments table fewer than 16383 entries, since their encodings stop fitting a page there;
  record alignments are at least two, as for every generated table; a table has fewer rows than
  \<^verbatim>\<open>usize::MAX\<close>.

  \<^bold>\<open>Parameters.\<close> Code outside the repository is a parameter: the memory provider of the host, the arithmetic
  of \<^verbatim>\<open>rust_decimal\<close> (the type of decimals and two conversions), the iteration order of hash sets. So are the
  parts that the macros generate for a user's tables: the codec of a record, the foreign fetcher.
  Strings are their UTF-8 bytes.

  \<^bold>\<open>Not modelled.\<close> The engine's inserts and updates with their integrity checks (defaults, sanitizers,
  validators, unique and foreign key checks) and the bookkeeping around a commit: only deletion, index upkeep
  and the loop of a commit are. Aggregates. The index ledger's map from columns to tree roots, the raw
  table reader, the autoincrement ledger, schema snapshots, the schema registry and the migration engine.
  The encodings of the value types other than unsigned integers and byte strings. The generated conversion
  of a selected row into a record type. The SQL front end; the procedural macros as programs (the code
  they generate is modelled where the engine calls it); access counters, display of custom types, Candid and
  serde conversions; benchmarks, examples and the WASI providers, which only wrap the host's storage.
\<close>

section \<open>Storage\<close>

text \<open>C2: the closure of an atomic block makes any calls of the journaled writer, each depending on the
  answers of those before it, and then returns any result; every call stays within its page and
  declares at least the size it encodes. When the block succeeds its result and its memory are those of
  the closure; when it ends in an error, every page that existed before has the bytes it had, whatever
  the calls did and wherever they failed; it panics only if the closure itself does, so the rollback of
  such a closure succeeds. The journal is closed again on both exits.\<close>

theorem atomic_all_or_nothing:
  assumes "heap_inv (ctx_mm ctx)" and "ctx_journal ctx = None" and "prog_in_page f"
  shows "case atomic HeapMemoryProvider (with_writer (run_prog HeapMemoryProvider f)) ctx of
      (Ok x, ctx') \<Rightarrow> (\<exists>h j. run_prog HeapMemoryProvider f (ctx_mm ctx, []) = (Ok x, (h, j)) \<and>
        ctx' = ctx\<lparr>ctx_mm := h\<rparr>)
    | (Err e, ctx') \<Rightarrow> (\<exists>s. run_prog HeapMemoryProvider f (ctx_mm ctx, []) = (Err e, s)) \<and>
        ctx_journal ctx' = None \<and> heap_inv (ctx_mm ctx') \<and>
        take (length (mm_pages memory (ctx_mm ctx))) (mm_pages memory (ctx_mm ctx'))
          = mm_pages memory (ctx_mm ctx)
    | (Panic, ctx') \<Rightarrow> (\<exists>s. run_prog HeapMemoryProvider f (ctx_mm ctx, []) = (Panic, s))"
proof -
  let ?f = "run_prog HeapMemoryProvider f"
  obtain x ctx' where run: "atomic HeapMemoryProvider (with_writer ?f) ctx = (x, ctx')"
    by (cases "atomic HeapMemoryProvider (with_writer ?f) ctx")
  show ?thesis
    using heap.atomic_undoable [OF heap.undoable_prog [OF assms(3)] assms(2,1) run] run
    by (cases x) auto
qed

theorem atomic_all_or_nothing_witness:
  "\<exists>ctx'. atomic HeapMemoryProvider (with_writer (run_prog HeapMemoryProvider
       (Call (OpWriteBytes 4 6 [7, 9] 1 8) (\<lambda>_. Call (OpZeroBytes 8 16 0 24) (\<lambda>_. Finish (Err OutOfBounds :: (unit, memory_error) outcome))))))
       \<lparr>ctx_mm = blank_heap 2, ctx_journal = None\<rparr> = (Err OutOfBounds, ctx') \<and>
     take 2 (mm_pages memory (ctx_mm ctx')) = mm_pages memory (blank_heap 2)"
proof -
  let ?p = "Call (OpWriteBytes 4 6 [7, 9] 1 8) (\<lambda>_. Call (OpZeroBytes 8 16 0 24) (\<lambda>_. Finish (Err OutOfBounds :: (unit, memory_error) outcome)))"
  let ?ctx = "\<lparr>ctx_mm = blank_heap 2, ctx_journal = None\<rparr>"
  let ?f = "run_prog HeapMemoryProvider ?p" and ?JW = "JournaledWriter HeapMemoryProvider"
  have al: "align_up 4 2 = 4" "align_up 4 (Suc (Suc 0)) = 4" "align_up 4 6 = 8" "align_up 8 16 = 16" by code_simp+
  have "jw_inv heap_inv (blank_heap 2, [])" by (simp add: jw_inv_def blank_heap_inv)
  then obtain s where w: "write_bytes_at ?JW 4 6 [7, 9] 1 8 (blank_heap 2, []) = (Ok (), s)"
    "jw_inv heap_inv s" "length (jw_pages (mm_pages memory) s) = 2"
    using heap.jw.write_bytes [of "(blank_heap 2, [])" 1 4 8 "[7, 9]" 6] al by (auto simp: jw_pages_def)
  obtain t where z: "zero_bytes_at ?JW 8 16 0 24 s = (Ok (), t)"
    using heap.jw.zero_bytes [of s 0 8 24 16] w(2,3) al by auto
  have f: "?f (blank_heap 2, []) = (Err OutOfBounds, t)" using w(1) z by (simp add: lift_res_def)
  have main: "case atomic HeapMemoryProvider (with_writer ?f) ?ctx of
      (Ok x, ctx') \<Rightarrow> (\<exists>h j. ?f (ctx_mm ?ctx, []) = (Ok x, (h, j)) \<and> ctx' = ?ctx\<lparr>ctx_mm := h\<rparr>)
    | (Err e, ctx') \<Rightarrow> (\<exists>s. ?f (ctx_mm ?ctx, []) = (Err e, s)) \<and> ctx_journal ctx' = None \<and> heap_inv (ctx_mm ctx') \<and>
        take (length (mm_pages memory (ctx_mm ?ctx))) (mm_pages memory (ctx_mm ctx'))
          = mm_pages memory (ctx_mm ?ctx)
    | (Panic, ctx') \<Rightarrow> (\<exists>s. ?f (ctx_mm ?ctx, []) = (Panic, s))"
    by (rule atomic_all_or_nothing) (simp_all add: blank_heap_inv al)
  with f show ?thesis
    by (cases "atomic HeapMemoryProvider (with_writer ?f) ?ctx") (auto split: outcome.splits)
qed

section \<open>Tables\<close>

text \<open>
  The record types a table may have: an encoding that satisfies the laws, whose raw records have an
  alignment of at least two bytes that fits an offset.
\<close>

definition record_type :: "'e codec \<Rightarrow> ('e \<Rightarrow> bool) \<Rightarrow> bool" where
  "record_type E V \<longleftrightarrow> encoding E V \<and> 2 \<le> rr_ALIGNMENT E \<and> rr_ALIGNMENT E \<le> 65535"

text \<open>\<open>table_of E V h U reg recs\<close>: in the heap \<open>h\<close> the table \<open>reg\<close> holds the records \<open>recs\<close>.\<close>

definition table_of ::
  "'e codec \<Rightarrow> ('e \<Rightarrow> bool) \<Rightarrow> heap_memory \<Rightarrow> nat set \<Rightarrow> table_registry \<Rightarrow> (nat \<times> nat \<rightharpoonup> 'e) \<Rightarrow> bool" where
  "table_of E V h U reg recs \<longleftrightarrow> heap_inv h \<and> (\<forall>rec \<in> ran recs. V rec) \<and>
     tr_inv (rr_ALIGNMENT E) (mm_pages memory h) U reg (live_of E recs)"

abbreviation addr_key :: "record_address \<Rightarrow> nat \<times> nat" where
  "addr_key addr \<equiv> (ra_page addr, ra_offset addr)"

lemma live_of_upd: "live_of E (recs(ad \<mapsto> rec)) = (live_of E recs)(ad \<mapsto> raw_of E rec)"
  by (auto simp: live_of_def fun_eq_iff)

lemma live_of_del: "live_of E (recs(ad := None)) = (live_of E recs)(ad := None)"
  by (auto simp: live_of_def fun_eq_iff)

lemma live_of_Some: "recs ad = Some rec \<Longrightarrow> live_of E recs ad = Some (raw_of E rec)"
  by (simp add: live_of_def)

lemma live_of_None: "live_of E recs ad = None \<longleftrightarrow> recs ad = None"
  by (simp add: live_of_def)

lemma ran_upd_ball: "\<forall>rec \<in> ran m. V rec \<Longrightarrow> V x \<Longrightarrow> \<forall>rec \<in> ran (m(k \<mapsto> x)). V rec"
  by (auto simp: ran_def split: if_splits)

lemma ran_del_ball: "\<forall>rec \<in> ran m. V rec \<Longrightarrow> \<forall>rec \<in> ran (m(k := None)). V rec"
  by (auto simp: ran_def split: if_splits)

lemma table_read:
  assumes T: "record_type E V" and t: "table_of E V h U reg recs" and r: "recs (addr_key addr) = Some rec"
  shows "tr_read_at heap_mm E addr h = (Ok rec, h)"
proof -
  have "V rec" using t r by (auto simp: table_of_def ran_def)
  then show ?thesis
    using T t heap.mm.read_spec [of E V rec "rr_ALIGNMENT E" h U reg "live_of E recs" addr] live_of_Some [of recs "addr_key addr" rec E] r
    by (auto simp: record_type_def table_of_def)
qed

text \<open>A table of record addresses on a fresh heap, and its first insertion.\<close>

definition sample_table :: table_registry where
  "sample_table = empty_table 2 3"

definition sample_heap :: heap_memory where
  "sample_heap = blank_heap 4"

lemma record_type_address: "record_type RecordAddress ra_wf"
  using record_address_codec.encoding_axioms
  by (simp add: record_type_def RecordAddress_def rr_ALIGNMENT_def RECORD_POINTER_SIZE_def RAW_RECORD_HEADER_SIZE_def)

lemma empty_table_of:
  assumes "{p, q} \<subseteq> U" "U \<subseteq> {2..<n}" "p \<noteq> q" "n \<le> 1024"
  shows "table_of RecordAddress ra_wf (blank_heap n) U (empty_table p q) Map.empty"
proof -
  have "live_of RecordAddress Map.empty = Map.empty" by (auto simp: live_of_def fun_eq_iff)
  moreover have "tr_inv (rr_ALIGNMENT RecordAddress) (mm_pages memory (blank_heap n)) U (empty_table p q) Map.empty"
  proof (rule empty_table_inv)
    have "p \<in> {2..<n}" using assms(1,2) by blast
    then show "pool_inv (mm_pages memory (blank_heap n)) U" using assms(2) by (intro pool_inv_blank_owned) auto
  qed (use assms in \<open>auto simp: blank_heap_page\<close>)
  ultimately show ?thesis using assms(4) by (simp add: table_of_def blank_heap_inv)
qed

lemma sample_table_of: "table_of RecordAddress ra_wf sample_heap {2, 3} sample_table Map.empty"
  unfolding sample_heap_def sample_table_def by (rule empty_table_of) auto

lemma enc_size_address [simp]: "enc_size RecordAddress x = 6"
  by (simp add: RecordAddress_def RECORD_POINTER_SIZE_def)

lemma first_insert:
  assumes "ra_wf x" and "{2, 3} \<subseteq> U" "U \<subseteq> {2..<n}" "n < 1024"
  obtains reg' h' where "tr_insert heap_mm RecordAddress x (sample_table, blank_heap n) =
      (Ok \<lparr>ra_page = n, ra_offset = 0\<rparr>, (reg', h'))"
    and "tr_pages reg' = {2, 3, n}" and "fl_tables (tr_free_segments reg') = []"
proof -
  let ?E = RecordAddress and ?raw = "new_raw_record RecordAddress x" and ?pl = "tr_page_ledger sample_table"
  have a: "rr_ALIGNMENT ?E = 8"
    by (simp add: RecordAddress_def rr_ALIGNMENT_def RECORD_POINTER_SIZE_def RAW_RECORD_HEADER_SIZE_def)
  have enc: "encoding ?E ra_wf" by (rule record_address_codec.encoding_axioms)
  have n: "4 \<le> n" using assms(2,3) by auto
  have t: "heap_inv (blank_heap n)" "tr_inv 8 (mm_pages memory (blank_heap n)) U sample_table (live_of ?E Map.empty)"
    using empty_table_of [OF assms(2,3)] assms(4) a by (auto simp: table_of_def sample_table_def)
  have fits: "align_up 8 (enc_size ?E x + 2) \<le> 65535" using align_up_less [of 8 8] by simp
  have sz: "align_up 8 (rr_size ?raw) = 8"
    by (simp add: rr_size_def new_raw_record_def RAW_RECORD_HEADER_SIZE_def sat_add16_eq)
  have fnd: "find_reusable_segment heap_mm (RawRecord ?E) ?raw (tr_free_segments sample_table) (blank_heap n) = (Ok None, blank_heap n)"
    by (simp add: find_reusable_segment_def sample_table_def empty_table_def)
  have cl: "claim_page heap_mm (blank_heap n) = (Ok n, blank_heap (n + 1))" using n assms(4) by (intro claim_blank) simp_all
  have get: "get_page_and_offset_for_record heap_mm (RawRecord ?E) ?raw (?pl, blank_heap n) =
      (Ok (n, 0), (?pl\<lparr>pl_pages := [\<lparr>pr_page = n, pr_free = 65536\<rparr>]\<rparr>, blank_heap (n + 1)))"
    using cl sz a by (simp add: get_page_and_offset_for_record_def pl_claim_def heap.mm.page_size
        sample_table_def empty_table_def)
  have room: "length (pl_pages (tr_page_ledger sample_table)) < 5460" by (simp add: sample_table_def empty_table_def)
  obtain pl2 h' where ie: "tr_insert heap_mm ?E x (sample_table, blank_heap n) =
      (Ok \<lparr>ra_page = n, ra_offset = 0\<rparr>, (sample_table\<lparr>tr_page_ledger := pl2\<rparr>, h'))"
    "tr_pages (sample_table\<lparr>tr_page_ledger := pl2\<rparr>) = insert n (tr_pages sample_table)"
    using heap.mm.insert_end [OF enc assms(1) _ a [symmetric] _ fits t room fnd get] by (simp add: a) blast
  have "tr_pages sample_table = {2, 3}"
    by (auto simp: tr_pages_def sample_table_def empty_table_def pl_taken_def fl_pages_def)
  then show thesis using that [OF ie(1)] ie(2) by (auto simp: sample_table_def empty_table_def)
qed

lemma sample_insert:
  assumes "ra_wf x"
  obtains reg' h' where "tr_insert heap_mm RecordAddress x (sample_table, sample_heap) =
      (Ok \<lparr>ra_page = 4, ra_offset = 0\<rparr>, (reg', h'))"
    and "tr_pages reg' = {2, 3, 4}" and "fl_tables (tr_free_segments reg') = []"
  using first_insert [OF assms, of "{2, 3}" 4] unfolding sample_heap_def by auto

text \<open>C1: inserting a record into a table that holds the records \<open>recs\<close> never panics. It either returns an
  address that held no record, after which the table holds the old records and the new one, the new
  record is read at that address, and every old record is still read at its own; or it returns an
  error, and the table holds what it held before. The error means that the record does not fit a page
  or that the memory cannot grow by a page.\<close>

theorem insert_correct:
  assumes "record_type E V" and "table_of E V h U reg recs" and "V rec" and "0 < enc_size E rec"
    and "length (pl_pages (tr_page_ledger reg)) < 5460"
  shows "case tr_insert heap_mm E rec (reg, h) of
      (Ok addr, (reg', h')) \<Rightarrow> recs (addr_key addr) = None \<and>
        table_of E V h' (U \<union> tr_pages reg') reg' (recs(addr_key addr \<mapsto> rec)) \<and>
        tr_read_at heap_mm E addr h' = (Ok rec, h') \<and>
        (\<forall>old r. recs (addr_key old) = Some r \<longrightarrow> tr_read_at heap_mm E old h' = (Ok r, h'))
    | (Err e, (reg', h')) \<Rightarrow> reg' = reg \<and> table_of E V h' U reg recs \<and>
        (65535 < align_up (rr_ALIGNMENT E) (enc_size E rec + 2) \<or> alloc_limit h < heap_size h + 65536)
    | (Panic, s') \<Rightarrow> False"
proof -
  obtain r reg' h' where run: "tr_insert heap_mm E rec (reg, h) = (r, (reg', h'))" by (metis prod.exhaust)
  have T: "encoding E V" "2 \<le> rr_ALIGNMENT E" "rr_ALIGNMENT E \<le> 65535"
    using assms(1) by (auto simp: record_type_def)
  have t: "heap_inv h" "\<forall>rec \<in> ran recs. V rec" "tr_inv (rr_ALIGNMENT E) (mm_pages memory h) U reg (live_of E recs)"
    using assms(2) by (auto simp: table_of_def)
  note sp = heap.mm.insert_spec [OF T(1) assms(3,4) refl T(2,3) t(1,3) assms(5) run]
  show ?thesis
  proof (cases r)
    case (Ok addr)
    have n: "recs (addr_key addr) = None" using sp Ok by (auto simp: live_of_None)
    have t': "table_of E V h' (U \<union> tr_pages reg') reg' (recs(addr_key addr \<mapsto> rec))"
      using sp Ok ran_upd_ball [OF t(2) assms(3)] by (auto simp: table_of_def live_of_upd)
    have "tr_read_at heap_mm E addr h' = (Ok rec, h')" by (rule table_read [OF assms(1) t']) simp
    moreover have "tr_read_at heap_mm E old h' = (Ok r, h')" if "recs (addr_key old) = Some r" for old r
      using that n by (intro table_read [OF assms(1) t']) auto
    ultimately show ?thesis using run Ok n t' by auto
  next
    case (Err e)
    then have "65535 < align_up (rr_ALIGNMENT E) (enc_size E rec + 2) \<or> alloc_limit h < heap_size h + 65536"
      using sp heap_grow_succeeds [OF t(1)] by (auto simp: MemoryManager_def not_less)
    then show ?thesis using run sp t Err by (auto simp: table_of_def)
  next
    case Panic
    then show ?thesis using sp by simp
  qed
qed

theorem insert_correct_witness:
  "\<exists>reg' h'. tr_insert heap_mm RecordAddress \<lparr>ra_page = 9, ra_offset = 64\<rparr> (sample_table, sample_heap) =
      (Ok \<lparr>ra_page = 4, ra_offset = 0\<rparr>, (reg', h')) \<and>
     tr_read_at heap_mm RecordAddress \<lparr>ra_page = 4, ra_offset = 0\<rparr> h' = (Ok \<lparr>ra_page = 9, ra_offset = 64\<rparr>, h')"
proof -
  let ?x = "\<lparr>ra_page = 9, ra_offset = 64\<rparr>"
  have x: "ra_wf ?x" by (simp add: ra_wf_def)
  obtain reg' h' where run: "tr_insert heap_mm RecordAddress ?x (sample_table, sample_heap) =
      (Ok \<lparr>ra_page = 4, ra_offset = 0\<rparr>, (reg', h'))" using sample_insert [OF x] by blast
  have room: "length (pl_pages (tr_page_ledger sample_table)) < 5460" by (simp add: sample_table_def empty_table_def)
  show ?thesis
    using insert_correct [OF record_type_address sample_table_of x _ room] run by simp
qed

text \<open>C3: deleting the record stored at an address removes that record and no other: whatever the outcome,
  the table holds the other records and each is still read at its address; the call does not panic.\<close>

theorem delete_correct:
  assumes "record_type E V" and "table_of E V h U reg recs" and "recs (addr_key addr) = Some rec"
    and "length (fl_tables (tr_free_segments reg)) < 16383"
  shows "case tr_delete heap_mm E rec addr (reg, h) of (r, (reg', h')) \<Rightarrow> r \<noteq> Panic \<and>
      table_of E V h' (U \<union> tr_pages reg') reg' (recs(addr_key addr := None)) \<and>
      (\<forall>old r. addr_key old \<noteq> addr_key addr \<longrightarrow> recs (addr_key old) = Some r \<longrightarrow>
         tr_read_at heap_mm E old h' = (Ok r, h'))"
proof -
  obtain r reg' h' where run: "tr_delete heap_mm E rec addr (reg, h) = (r, (reg', h'))" by (metis prod.exhaust)
  have T: "encoding E V" "2 \<le> rr_ALIGNMENT E" using assms(1) by (auto simp: record_type_def)
  have t: "heap_inv h" "\<forall>rec \<in> ran recs. V rec" "tr_inv (rr_ALIGNMENT E) (mm_pages memory h) U reg (live_of E recs)"
    using assms(2) by (auto simp: table_of_def)
  have v: "V rec" using t(2) assms(3) by (auto simp: ran_def)
  have lv: "live_of E recs (addr_key addr) = Some (raw_of E rec)" using assms(3) by (simp add: live_of_def)
  note sp = heap.mm.delete_spec [OF T(1) v refl T(2) t(1,3) assms(4) lv run]
  have t': "table_of E V h' (U \<union> tr_pages reg') reg' (recs(addr_key addr := None))"
    using sp ran_del_ball [OF t(2)] by (auto simp: table_of_def live_of_del)
  have "tr_read_at heap_mm E old h' = (Ok r, h')"
    if "addr_key old \<noteq> addr_key addr" "recs (addr_key old) = Some r" for old r
    using that by (intro table_read [OF assms(1) t']) auto
  then show ?thesis using run sp t' by auto
qed

text \<open>The sample table after one insertion.\<close>

lemma one_record:
  assumes "ra_wf x" and "{2, 3} \<subseteq> U" "U \<subseteq> {2..<n}" "n < 1024"
  obtains reg' h' where "tr_insert heap_mm RecordAddress x (sample_table, blank_heap n) = (Ok \<lparr>ra_page = n, ra_offset = 0\<rparr>, (reg', h'))"
    and "table_of RecordAddress ra_wf h' (U \<union> tr_pages reg') reg' [(n, 0) \<mapsto> x]" and "tr_pages reg' = {2, 3, n}"
    and "length (pl_pages (tr_page_ledger reg')) < 5460" and "length (fl_tables (tr_free_segments reg')) < 16383"
proof -
  let ?E = RecordAddress
  obtain reg' h' where run: "tr_insert heap_mm ?E x (sample_table, blank_heap n) =
      (Ok \<lparr>ra_page = n, ra_offset = 0\<rparr>, (reg', h'))" "tr_pages reg' = {2, 3, n}"
    "fl_tables (tr_free_segments reg') = []" using first_insert [OF assms] by blast
  have E: "encoding ?E ra_wf" "2 \<le> rr_ALIGNMENT ?E" "rr_ALIGNMENT ?E \<le> 65535"
    using record_type_address by (auto simp: record_type_def)
  have t: "heap_inv (blank_heap n)" "tr_inv (rr_ALIGNMENT ?E) (mm_pages memory (blank_heap n)) U sample_table (live_of ?E Map.empty)"
    using empty_table_of [OF assms(2,3)] assms(4) by (auto simp: table_of_def sample_table_def)
  have room: "length (pl_pages (tr_page_ledger sample_table)) < 5460" by (simp add: sample_table_def empty_table_def)
  note sp = heap.mm.insert_spec [OF E(1) assms(1) _ refl E(2,3) t room run(1)]
  have "table_of ?E ra_wf h' (U \<union> tr_pages reg') reg' [(n, 0) \<mapsto> x]"
    using sp assms(1) by (auto simp: table_of_def live_of_upd)
  moreover have "length (pl_pages (tr_page_ledger reg')) \<le> card {2, 3, n}"
  proof -
    have "distinct (map pr_page (pl_pages (tr_page_ledger reg')))"
      using sp by (auto simp: tr_inv_def pl_inv_def)
    then have "length (pl_pages (tr_page_ledger reg')) = card (pr_page ` set (pl_pages (tr_page_ledger reg')))"
      using distinct_card by force
    also have "\<dots> \<le> card {2, 3, n}"
      using run(2) dom_pl_taken [of "tr_page_ledger reg'"] by (intro card_mono) (auto simp: tr_pages_def)
    finally show ?thesis .
  qed
  moreover have "card {2, 3, n} \<le> 3" by (simp add: card_insert_if)
  ultimately show thesis using run by (intro that) auto
qed

lemma sample_one:
  assumes "ra_wf x"
  obtains reg' h' where "table_of RecordAddress ra_wf h' ({2, 3} \<union> tr_pages reg') reg' [(4, 0) \<mapsto> x]"
    and "length (pl_pages (tr_page_ledger reg')) < 5460" and "length (fl_tables (tr_free_segments reg')) < 16383"
proof -
  have "{2, 3} \<subseteq> {2, 3 :: nat}" "{2, 3} \<subseteq> {2..<4 :: nat}" "4 < (1024 :: nat)" by auto
  from one_record [OF assms this] that show thesis by blast
qed

theorem delete_correct_witness:
  "\<exists>(reg :: table_registry) h reg' h' r U.
     tr_read_at heap_mm RecordAddress \<lparr>ra_page = 4, ra_offset = 0\<rparr> h = (Ok \<lparr>ra_page = 9, ra_offset = 64\<rparr>, h) \<and>
     tr_delete heap_mm RecordAddress \<lparr>ra_page = 9, ra_offset = 64\<rparr> \<lparr>ra_page = 4, ra_offset = 0\<rparr> (reg, h) = (r, (reg', h')) \<and>
     table_of RecordAddress ra_wf h' U reg' Map.empty"
proof -
  let ?x = "\<lparr>ra_page = 9, ra_offset = 64\<rparr>" and ?ad = "\<lparr>ra_page = 4, ra_offset = 0\<rparr>"
  have x: "ra_wf ?x" by (simp add: ra_wf_def)
  obtain reg h where t: "table_of RecordAddress ra_wf h ({2, 3} \<union> tr_pages reg) reg [(4, 0) \<mapsto> ?x]"
    "length (fl_tables (tr_free_segments reg)) < 16383" using sample_one [OF x] by blast
  obtain r reg' h' where run: "tr_delete heap_mm RecordAddress ?x ?ad (reg, h) = (r, (reg', h'))"
    by (metis prod.exhaust)
  have "table_of RecordAddress ra_wf h' (({2, 3} \<union> tr_pages reg) \<union> tr_pages reg') reg' ([(4, 0) \<mapsto> ?x]((4, 0) := None))"
    using delete_correct [OF record_type_address t(1), of ?ad ?x] t(2) run by simp
  moreover have "[(4 :: nat, 0 :: nat) \<mapsto> ?x]((4, 0) := None) = Map.empty" by (auto simp: fun_eq_iff)
  moreover have "tr_read_at heap_mm RecordAddress ?ad h = (Ok ?x, h)"
    by (rule table_read [OF record_type_address t(1)]) simp
  ultimately show ?thesis using run by metis
qed

text \<open>C4: a successful update replaces the record at the old address by the new record at the address it
  returns, which is the old one or one that held no record; every other record keeps its place. On an
  error the table holds its records, with the old one possibly gone: the caller has to roll back.\<close>

theorem update_correct:
  assumes "record_type E V" and "table_of E V h U reg recs" and "recs (addr_key addr) = Some old"
    and "V rec" and "0 < enc_size E rec"
    and "length (pl_pages (tr_page_ledger reg)) < 5460" and "length (fl_tables (tr_free_segments reg)) < 16383"
  shows "case tr_update heap_mm E rec old addr (reg, h) of
      (Ok addr', (reg', h')) \<Rightarrow>
        (addr_key addr' = addr_key addr \<or> recs (addr_key addr') = None) \<and>
        table_of E V h' (U \<union> tr_pages reg') reg' ((recs(addr_key addr := None))(addr_key addr' \<mapsto> rec)) \<and>
        tr_read_at heap_mm E addr' h' = (Ok rec, h')
    | (Err e, (reg', h')) \<Rightarrow>
        table_of E V h' U reg' recs \<or> table_of E V h' (U \<union> tr_pages reg') reg' (recs(addr_key addr := None))
    | (Panic, s') \<Rightarrow> False"
proof -
  obtain r reg' h' where run: "tr_update heap_mm E rec old addr (reg, h) = (r, (reg', h'))" by (metis prod.exhaust)
  have T: "encoding E V" "2 \<le> rr_ALIGNMENT E" "rr_ALIGNMENT E \<le> 65535"
    using assms(1) by (auto simp: record_type_def)
  have t: "heap_inv h" "\<forall>rec \<in> ran recs. V rec" "tr_inv (rr_ALIGNMENT E) (mm_pages memory h) U reg (live_of E recs)"
    using assms(2) by (auto simp: table_of_def)
  have v: "V old" using t(2) assms(3) by (auto simp: ran_def)
  have lv: "live_of E recs (addr_key addr) = Some (raw_of E old)" using assms(3) by (simp add: live_of_def)
  note sp = heap.mm.update_spec [OF T(1) assms(4) v assms(5) refl T(2,3) t(1,3) assms(6,7) lv run]
  have ran: "\<forall>rec \<in> ran (recs(addr_key addr := None)). V rec" using ran_del_ball [OF t(2)] .
  show ?thesis
  proof (cases r)
    case (Ok addr')
    let ?recs = "(recs(addr_key addr := None))(addr_key addr' \<mapsto> rec)"
    have t': "table_of E V h' (U \<union> tr_pages reg') reg' ?recs"
      using sp Ok ran_upd_ball [OF ran assms(4)] by (auto simp: table_of_def live_of_upd live_of_del)
    have "tr_read_at heap_mm E addr' h' = (Ok rec, h')" by (rule table_read [OF assms(1) t']) simp
    moreover have "addr_key addr' = addr_key addr \<or> recs (addr_key addr') = None"
      using sp Ok by (auto simp: live_of_None split: if_splits)
    ultimately show ?thesis using run Ok t' by simp
  next
    case (Err e)
    then show ?thesis using run sp t ran by (auto simp: table_of_def live_of_del)
  next
    case Panic
    then show ?thesis using sp by simp
  qed
qed

theorem update_correct_witness:
  "\<exists>(reg :: table_registry) h reg' h' r.
     tr_read_at heap_mm RecordAddress \<lparr>ra_page = 4, ra_offset = 0\<rparr> h = (Ok \<lparr>ra_page = 9, ra_offset = 64\<rparr>, h) \<and>
     tr_update heap_mm RecordAddress \<lparr>ra_page = 7, ra_offset = 8\<rparr> \<lparr>ra_page = 9, ra_offset = 64\<rparr>
       \<lparr>ra_page = 4, ra_offset = 0\<rparr> (reg, h) = (r, (reg', h')) \<and>
     (case r of Ok addr' \<Rightarrow> tr_read_at heap_mm RecordAddress addr' h' = (Ok \<lparr>ra_page = 7, ra_offset = 8\<rparr>, h')
      | Err e \<Rightarrow> True | Panic \<Rightarrow> False)"
proof -
  let ?x = "\<lparr>ra_page = 9, ra_offset = 64\<rparr>" and ?y = "\<lparr>ra_page = 7, ra_offset = 8\<rparr>"
    and ?ad = "\<lparr>ra_page = 4, ra_offset = 0\<rparr>"
  have x: "ra_wf ?x" "ra_wf ?y" by (simp_all add: ra_wf_def)
  obtain reg h where t: "table_of RecordAddress ra_wf h ({2, 3} \<union> tr_pages reg) reg [(4, 0) \<mapsto> ?x]"
    "length (pl_pages (tr_page_ledger reg)) < 5460" "length (fl_tables (tr_free_segments reg)) < 16383"
    using sample_one [OF x(1)] by blast
  obtain r reg' h' where run: "tr_update heap_mm RecordAddress ?y ?x ?ad (reg, h) = (r, (reg', h'))"
    by (metis prod.exhaust)
  have "case r of Ok addr' \<Rightarrow> tr_read_at heap_mm RecordAddress addr' h' = (Ok ?y, h')
      | Err e \<Rightarrow> True | Panic \<Rightarrow> False"
    using update_correct [OF record_type_address t(1) _ x(2) _ t(2,3), of ?ad ?x] run by (cases r) auto
  moreover have "tr_read_at heap_mm RecordAddress ?ad h = (Ok ?x, h)"
    by (rule table_read [OF record_type_address t(1)]) simp
  ultimately show ?thesis using run by blast
qed

text \<open>C5: scanning a table returns every record it holds exactly once, with its address, and nothing else,
  and changes nothing; as many calls as there are records and one more are enough.\<close>

theorem scan_returns_all_records:
  assumes "record_type E V" and "table_of E V h U reg recs" and "card (dom recs) < fuel"
  shows "\<exists>rd' ads. read_all heap_mm E (tr_page_ledger reg) fuel (reader_new heap_mm (tr_page_ledger reg) h, h) =
      (Ok (map (record_at recs) ads), (rd', h)) \<and> distinct ads \<and> set ads = dom recs"
  using assms heap.mm.table_scan [of E V recs "rr_ALIGNMENT E" h U reg fuel]
  by (auto simp: record_type_def table_of_def)

theorem scan_returns_all_records_witness:
  "\<exists>(reg :: table_registry) h rd'. read_all heap_mm RecordAddress (tr_page_ledger reg) 2 (reader_new heap_mm (tr_page_ledger reg) h, h) =
      (Ok [\<lparr>nr_record = \<lparr>ra_page = 9, ra_offset = 64\<rparr>, nr_page = 4, nr_offset = 0\<rparr>], (rd', h))"
proof -
  let ?x = "\<lparr>ra_page = 9, ra_offset = 64\<rparr>"
  let ?recs = "[(4, 0) \<mapsto> ?x] :: nat \<times> nat \<rightharpoonup> record_address"
  have x: "ra_wf ?x" by (simp add: ra_wf_def)
  obtain reg h where t: "table_of RecordAddress ra_wf h ({2, 3} \<union> tr_pages reg) reg ?recs"
    using sample_one [OF x] by blast
  obtain rd' ads where "read_all heap_mm RecordAddress (tr_page_ledger reg) 2 (reader_new heap_mm (tr_page_ledger reg) h, h) =
      (Ok (map (record_at ?recs) ads), (rd', h))" "distinct ads" "set ads = dom ?recs"
    using scan_returns_all_records [OF record_type_address t, of 2] by auto
  moreover from this have "ads = [(4, 0)]"
    using distinct_card [of ads] by (cases ads; cases "tl ads") auto
  ultimately show ?thesis by (auto simp: record_at_def)
qed

text \<open>C16: a record whose length header, encoding and padding do not fit 65535 bytes is refused with
  \<open>DataTooLarge\<close> by insertion and by update, before anything is read or written. This holds for every
  record whose size saturates at the largest 16-bit value as the sizes of texts and byte strings do, however
  long its encoding is; the raw insertion of bytes refuses them in the same way.\<close>

theorem oversized_record_refused:
  assumes "0 < rr_ALIGNMENT E" and "rr_ALIGNMENT E \<le> 65535" and "enc_size E rec = min 65535 (length (encode E rec))"
    and "65535 < align_up (rr_ALIGNMENT E) (length (encode E rec) + 2)"
    and "0 < a" and "a \<le> 65535" and "length bs < 2 ^ 63" and "65535 < align_up a (length bs + 2)"
  shows "(\<exists>n > 65535. tr_insert heap_mm E rec s = (Err (DataTooLarge 65536 n), s) \<and>
      tr_update heap_mm E rec old addr s = (Err (DataTooLarge 65536 n), s)) \<and>
    insert_raw heap_mm bs a s = (Err (DataTooLarge 65536 (align_up a (length bs + 2))), s)"
proof (intro conjI)
  let ?a = "rr_ALIGNMENT E" and ?n = "enc_size E rec"
  have "?n \<le> 65535" using assms(3) by simp
  moreover have "65535 < align_up ?a (?n + 2)"
  proof (cases "length (encode E rec) \<le> 65535")
    case True
    then show ?thesis using assms(3,4) by simp
  next
    case False
    then show ?thesis using align_up_ge [OF assms(1), of "?n + 2"] assms(3) by simp
  qed
  ultimately have "ensure_record_fits E rec 65536 = Err (DataTooLarge 65536 (align_up ?a (?n + 2)))" "65535 < align_up ?a (?n + 2)"
    using footprint_eq [OF assms(1) _ assms(2), of ?n 65536] by (simp_all add: ensure_record_fits_def)
  then show "\<exists>n > 65535. tr_insert heap_mm E rec s = (Err (DataTooLarge 65536 n), s) \<and> tr_update heap_mm E rec old addr s = (Err (DataTooLarge 65536 n), s)"
    by (intro exI [of _ "align_up ?a (?n + 2)"]) (simp add: tr_insert_def tr_update_def heap.mm.page_size)
  have "align_up a (length bs + 2) \<le> 2 ^ 64 - 1" using align_up_less [OF assms(5), of "length bs + 2"] assms(6,7) by simp
  then have "raw_record_footprint (length bs) a 65536 = Err (DataTooLarge 65536 (align_up a (length bs + 2)))"
    using assms(5,7,8) by (simp add: raw_record_footprint_def Let_def RAW_RECORD_HEADER_SIZE_def u16_max_def align_up_def min_def)
  then show "insert_raw heap_mm bs a s = (Err (DataTooLarge 65536 (align_up a (length bs + 2))), s)"
    by (simp add: insert_raw_def heap.mm.page_size)
qed

theorem oversized_record_refused_witness:
  "\<exists>bs raw. length bs = 70000 \<and> length raw = 65510 \<and>
     (\<exists>n > 65535. tr_insert heap_mm blob_type bs (sample_table, sample_heap) = (Err (DataTooLarge 65536 n), (sample_table, sample_heap))) \<and>
     insert_raw heap_mm raw 32 (sample_table, sample_heap) = (Err (DataTooLarge 65536 65536), (sample_table, sample_heap))"
proof -
  obtain bs raw :: "byte list" where l: "length bs = 70000" "length raw = 65510" using Ex_list_of_length by metis
  have a: "rr_ALIGNMENT blob_type = 32" by (simp add: rr_ALIGNMENT_def blob_type_def DEFAULT_ALIGNMENT_def)
  have len: "length (encode blob_type bs) = 70002" by (simp add: l blob_type_def blob_encode_def)
  have sz: "enc_size blob_type bs = 65535" by (simp add: l blob_type_def saturating_size_overflow)
  have al: "align_up 32 70004 = 70016" "align_up 32 65512 = 65536" by (simp_all add: align_up_def div_ceil_def)
  show ?thesis
    using oversized_record_refused [of blob_type bs 32 raw "(sample_table, sample_heap)" undefined undefined] l
    by (intro exI [of _ bs] exI [of _ raw]) (auto simp: a len sz al)
qed

text \<open>C9: tables do not disturb each other. Inserting into, deleting from or updating one table leaves every record
  of another table whose pages are different where it was, whatever the outcome of the call.\<close>

theorem tables_are_isolated:
  assumes "record_type E V" and "table_of E V h U reg recs" and "table_of F W h U other others"
    and "tr_pages reg \<inter> tr_pages other = {}"
    and "length (pl_pages (tr_page_ledger reg)) < 5460" and "length (fl_tables (tr_free_segments reg)) < 16383"
  shows "(V rec \<longrightarrow> 0 < enc_size E rec \<longrightarrow> (case tr_insert heap_mm E rec (reg, h) of (r, (reg', h')) \<Rightarrow>
       table_of F W h' (U \<union> tr_pages reg') other others)) \<and>
     (recs (addr_key addr) = Some old \<longrightarrow> (case tr_delete heap_mm E old addr (reg, h) of (r, (reg', h')) \<Rightarrow>
       table_of F W h' (U \<union> tr_pages reg') other others)) \<and>
     (recs (addr_key addr) = Some old \<longrightarrow> V rec \<longrightarrow> 0 < enc_size E rec \<longrightarrow>
       (case tr_update heap_mm E rec old addr (reg, h) of (r, (reg', h')) \<Rightarrow>
         table_of F W h' (U \<union> tr_pages reg') other others))"
proof -
  have T: "encoding E V" "2 \<le> rr_ALIGNMENT E" "rr_ALIGNMENT E \<le> 65535"
    using assms(1) by (auto simp: record_type_def)
  have t: "heap_inv h" "\<forall>rec \<in> ran recs. V rec" "tr_inv (rr_ALIGNMENT E) (mm_pages memory h) U reg (live_of E recs)"
    using assms(2) by (auto simp: table_of_def)
  have o: "\<forall>rec \<in> ran others. W rec" "tr_inv (rr_ALIGNMENT F) (mm_pages memory h) U other (live_of F others)"
    using assms(3) by (auto simp: table_of_def)
  have sub: "tr_pages reg \<subseteq> U" "tr_pages other \<subseteq> U" using t(3) o(2) by (auto simp: tr_inv_def)
  have keep: "table_of F W h' (U \<union> tr_pages reg') other others"
    if h': "heap_inv h'" "same_except (- (U - tr_pages reg)) (mm_pages memory h) (mm_pages memory h')"
      and "tr_inv (rr_ALIGNMENT E) (mm_pages memory h') (U \<union> tr_pages reg') reg' live"
    for h' :: heap_memory and reg' :: table_registry and live
  proof -
    have "pool_inv (mm_pages memory h') (U \<union> tr_pages reg')" using that(3) by (simp add: tr_inv_def)
    then have "tr_inv (rr_ALIGNMENT F) (mm_pages memory h') (U \<union> tr_pages reg') other (live_of F others)"
      using sub(2) assms(4) by (intro tr_inv_frame [OF o(2) h'(2)]) auto
    then show ?thesis using h'(1) o(1) by (simp add: table_of_def)
  qed
  have "table_of F W h' (U \<union> tr_pages reg') other others"
    if v: "V rec" "0 < enc_size E rec" and run: "tr_insert heap_mm E rec (reg, h) = (r, (reg', h'))" for r reg' h'
  proof -
    note sp = heap.mm.insert_spec [OF T(1) v refl T(2,3) t(1,3) assms(5) run]
    have "U \<union> tr_pages reg = U" using sub(1) by blast
    then have "\<exists>live. tr_inv (rr_ALIGNMENT E) (mm_pages memory h') (U \<union> tr_pages reg') reg' live"
      using sp by (cases r) auto
    then show ?thesis using keep sp by blast
  qed
  moreover have "table_of F W h' (U \<union> tr_pages reg') other others"
    if ol: "recs (addr_key addr) = Some old" and run: "tr_delete heap_mm E old addr (reg, h) = (r, (reg', h'))" for r reg' h'
  proof -
    have "V old" using t(2) ol by (auto simp: ran_def)
    moreover have "live_of E recs (addr_key addr) = Some (raw_of E old)" using ol by (simp add: live_of_def)
    ultimately show ?thesis
      using heap.mm.delete_spec [OF T(1) _ refl T(2) t(1,3) assms(6) _ run] keep by blast
  qed
  moreover have "table_of F W h' (U \<union> tr_pages reg') other others"
    if ol: "recs (addr_key addr) = Some old" and v: "V rec" "0 < enc_size E rec" and run: "tr_update heap_mm E rec old addr (reg, h) = (r, (reg', h'))"
    for r reg' h'
  proof -
    have "V old" using t(2) ol by (auto simp: ran_def)
    moreover have "live_of E recs (addr_key addr) = Some (raw_of E old)" using ol by (simp add: live_of_def)
    ultimately have sp: "heap_inv h' \<and> same_except (- (U - tr_pages reg)) (mm_pages memory h) (mm_pages memory h') \<and>
        (\<exists>live. tr_inv (rr_ALIGNMENT E) (mm_pages memory h') (U \<union> tr_pages reg') reg' live)"
      using heap.mm.update_spec [OF T(1) v(1) _ v(2) refl T(2,3) t(1,3) assms(5,6) _ run]
      by (cases r) (auto simp: tr_inv_def sup.absorb1)
    then show ?thesis using keep by blast
  qed
  ultimately show ?thesis by (simp add: case_prod_beta) (metis prod.collapse)
qed

theorem tables_are_isolated_witness:
  "\<exists>(reg :: table_registry) h r reg' h' r' reg'' h''.
     tr_read_at heap_mm RecordAddress \<lparr>ra_page = 6, ra_offset = 0\<rparr> h = (Ok \<lparr>ra_page = 9, ra_offset = 64\<rparr>, h) \<and>
     tr_insert heap_mm RecordAddress \<lparr>ra_page = 7, ra_offset = 8\<rparr> (empty_table 4 5, h) = (r, (reg', h')) \<and>
     tr_read_at heap_mm RecordAddress \<lparr>ra_page = 6, ra_offset = 0\<rparr> h' = (Ok \<lparr>ra_page = 9, ra_offset = 64\<rparr>, h') \<and>
     tr_update heap_mm RecordAddress \<lparr>ra_page = 7, ra_offset = 8\<rparr> \<lparr>ra_page = 9, ra_offset = 64\<rparr> \<lparr>ra_page = 6, ra_offset = 0\<rparr> (reg, h) = (r', (reg'', h'')) \<and>
     table_of RecordAddress ra_wf h'' ({2, 3, 4, 5, 6} \<union> tr_pages reg'') (empty_table 4 5) Map.empty"
proof -
  let ?x = "\<lparr>ra_page = 9, ra_offset = 64\<rparr>" and ?y = "\<lparr>ra_page = 7, ra_offset = 8\<rparr>" and ?ad = "\<lparr>ra_page = 6, ra_offset = 0\<rparr>"
  have x: "ra_wf ?x" "ra_wf ?y" by (simp_all add: ra_wf_def)
  have U: "{2, 3} \<subseteq> {2, 3, 4, 5 :: nat}" "{4, 5} \<subseteq> {2, 3, 4, 5 :: nat}" "{2, 3, 4, 5} \<subseteq> {2..<6 :: nat}" by auto
  obtain reg h where run: "tr_insert heap_mm RecordAddress ?x (sample_table, blank_heap 6) = (Ok ?ad, (reg, h))"
    and t: "table_of RecordAddress ra_wf h ({2, 3, 4, 5} \<union> tr_pages reg) reg [(6, 0) \<mapsto> ?x]" "tr_pages reg = {2, 3, 6}"
      "length (pl_pages (tr_page_ledger reg)) < 5460" "length (fl_tables (tr_free_segments reg)) < 16383"
    using one_record [OF x(1) U(1,3)] by auto
  have pages: "tr_pages (empty_table p q) = {p, q}" for p q by (auto simp: tr_pages_def empty_table_def pl_taken_def fl_pages_def)
  have room: "length (pl_pages (tr_page_ledger (empty_table p q))) < 5460" "length (fl_tables (tr_free_segments (empty_table p q))) < 16383" for p q
    by (simp_all add: empty_table_def)
  have e: "table_of RecordAddress ra_wf (blank_heap 6) {2, 3, 4, 5} (empty_table 2 3) Map.empty"
    "table_of RecordAddress ra_wf (blank_heap 6) {2, 3, 4, 5} (empty_table 4 5) Map.empty"
    using empty_table_of [OF U(1,3)] empty_table_of [OF U(2,3)] by simp_all
  have o: "table_of RecordAddress ra_wf h ({2, 3, 4, 5} \<union> tr_pages reg) (empty_table 4 5) Map.empty"
    using tables_are_isolated [OF record_type_address e _ room, of ?x] run x(1) by (simp add: pages sample_table_def)
  obtain r reg' h' where ins: "tr_insert heap_mm RecordAddress ?y (empty_table 4 5, h) = (r, (reg', h'))" by (metis prod.exhaust)
  obtain r' reg'' h'' where upd: "tr_update heap_mm RecordAddress ?y ?x ?ad (reg, h) = (r', (reg'', h''))" by (metis prod.exhaust)
  have "table_of RecordAddress ra_wf h' (({2, 3, 4, 5} \<union> tr_pages reg) \<union> tr_pages reg') reg [(6, 0) \<mapsto> ?x]"
    using tables_are_isolated [OF record_type_address o t(1) _ room, of ?y] ins x(2) by (simp add: pages t(2))
  then have "tr_read_at heap_mm RecordAddress ?ad h' = (Ok ?x, h')" by (rule table_read [OF record_type_address]) simp
  moreover have "table_of RecordAddress ra_wf h'' (({2, 3, 4, 5} \<union> tr_pages reg) \<union> tr_pages reg'') (empty_table 4 5) Map.empty"
    using tables_are_isolated [OF record_type_address t(1) o _ t(3,4), of ?y ?ad ?x] upd x(2) by (simp add: pages t(2))
  moreover have "tr_read_at heap_mm RecordAddress ?ad h = (Ok ?x, h)" by (rule table_read [OF record_type_address t(1)]) simp
  moreover have "({2, 3, 4, 5} \<union> tr_pages reg) \<union> tr_pages reg'' = {2, 3, 4, 5, 6} \<union> tr_pages reg''" by (auto simp: t(2))
  ultimately show ?thesis using ins upd by metis
qed

text \<open>C17: the registry is a cache of its pages: at any time, loading the two ledgers from the table's pages
  gives the registry in memory and changes nothing.\<close>

theorem reload_gives_same_registry:
  assumes "table_of E V h U reg recs"
  shows "tr_load heap_mm (pl_page (tr_page_ledger reg)) (fl_page (tr_free_segments reg)) h = (Ok reg, h)"
  using assms heap.mm.load_spec by (auto simp: table_of_def)

theorem reload_gives_same_registry_witness:
  "tr_load heap_mm 2 3 sample_heap = (Ok sample_table, sample_heap)"
  using reload_gives_same_registry [OF sample_table_of] by (simp add: sample_table_def empty_table_def)

text \<open>C8: freeing and reusing space is exact on the byte cells of the free list. Recording a freed region
  adds its cells and no others, merges included, or fails because no page could be claimed and changes
  nothing; reusing the head of a segment removes exactly the cells used, the remainder stays free.\<close>

theorem free_space_exact:
  assumes "2 \<le> a" and "heap_inv h" and "pool_inv (mm_pages memory h) U"
    and "fl_inv a (mm_pages memory h) fl S" and "fl_pages fl \<subseteq> U" and "length (fl_tables fl) < 16383"
  shows "(seg_ok a \<lparr>fs_page = p, fs_offset = off, fs_size = n\<rparr> \<longrightarrow>
      seg_cells a \<lparr>fs_page = p, fs_offset = off, fs_size = n\<rparr> \<inter> fl_cells a S = {} \<longrightarrow>
      (case insert_free_segment_raw heap_mm p off n (fl, h) of
         (Ok _, (fl', h')) \<Rightarrow> \<exists>S'. fl_inv a (mm_pages memory h') fl' S' \<and>
           fl_cells a S' = fl_cells a S \<union> seg_cells a \<lparr>fs_page = p, fs_offset = off, fs_size = n\<rparr>
       | (Err e, (fl', h')) \<Rightarrow> fl' = fl \<and> fl_inv a (mm_pages memory h') fl S
       | (Panic, _) \<Rightarrow> False)) \<and>
     (k < length S \<longrightarrow> s \<in> set (S ! k) \<longrightarrow> 0 < n \<longrightarrow> a dvd n \<longrightarrow> fs_offset s + n \<le> seg_end a s \<longrightarrow>
      (\<exists>h' S'. commit_reused_space_raw heap_mm n \<lparr>tk_segment = s, tk_table = fl_tables fl ! k\<rparr> (fl, h) = (Ok (), (fl, h')) \<and>
         fl_inv a (mm_pages memory h') fl S' \<and>
         fl_cells a S' = fl_cells a S - region (fs_page s) (fs_offset s) n))"
proof (intro conjI impI)
  assume s: "seg_ok a \<lparr>fs_page = p, fs_offset = off, fs_size = n\<rparr>"
    "seg_cells a \<lparr>fs_page = p, fs_offset = off, fs_size = n\<rparr> \<inter> fl_cells a S = {}"
  obtain r fl' h' where run: "insert_free_segment_raw heap_mm p off n (fl, h) = (r, (fl', h'))" by (metis prod.exhaust)
  show "case insert_free_segment_raw heap_mm p off n (fl, h) of
         (Ok _, (fl', h')) \<Rightarrow> \<exists>S'. fl_inv a (mm_pages memory h') fl' S' \<and>
           fl_cells a S' = fl_cells a S \<union> seg_cells a \<lparr>fs_page = p, fs_offset = off, fs_size = n\<rparr>
       | (Err e, (fl', h')) \<Rightarrow> fl' = fl \<and> fl_inv a (mm_pages memory h') fl S
       | (Panic, _) \<Rightarrow> False"
    using heap.mm.insert_free_segment_spec [OF assms refl s run] run by (cases r) auto
next
  assume k: "k < length S" "s \<in> set (S ! k)" "0 < n" "a dvd n" "fs_offset s + n \<le> seg_end a s"
  show "\<exists>h' S'. commit_reused_space_raw heap_mm n \<lparr>tk_segment = s, tk_table = fl_tables fl ! k\<rparr> (fl, h) = (Ok (), (fl, h')) \<and>
         fl_inv a (mm_pages memory h') fl S' \<and>
         fl_cells a S' = fl_cells a S - region (fs_page s) (fs_offset s) n"
    by (rule heap.mm.commit_reused_spec [OF assms(2,4) k(1) _ _ k(2-5), of "\<lparr>tk_segment = s, tk_table = fl_tables fl ! k\<rparr>"])
       auto
qed

theorem free_space_exact_witness:
  "case insert_free_segment_raw heap_mm 3 64 32 (\<lparr>fl_page = 2, fl_tables = []\<rparr>, blank_heap 4) of
      (Ok _, (fl', h')) \<Rightarrow> \<exists>S'. fl_inv 32 (mm_pages memory h') fl' S' \<and> fl_cells 32 S' = region 3 64 32
    | (Err e, (fl', h')) \<Rightarrow> fl' = \<lparr>fl_page = 2, fl_tables = []\<rparr>
    | (Panic, _) \<Rightarrow> False"
proof -
  let ?fl = "\<lparr>fl_page = 2, fl_tables = []\<rparr>" and ?s = "\<lparr>fs_page = 3, fs_offset = 64, fs_size = 32\<rparr>"
  have "tr_inv 32 (mm_pages memory (blank_heap 4)) {2, 3} (empty_table 3 2) Map.empty"
    by (rule empty_table_inv) (auto simp: pool_inv_blank_owned blank_heap_page)
  then obtain S where S: "fl_inv 32 (mm_pages memory (blank_heap 4)) ?fl S"
    by (auto simp: tr_inv_def empty_table_def)
  then have "S = []" by (simp add: fl_inv_def)
  then have f: "fl_inv 32 (mm_pages memory (blank_heap 4)) ?fl []" using S by simp
  have ok: "seg_ok 32 ?s" by (simp add: seg_ok_def)
  have c: "seg_cells 32 ?s = region 3 64 32" by (simp add: seg_cells_def seg_end_def region_def)
  have "fl_cells 32 [] = {}" by (simp add: fl_cells_def)
  then show ?thesis
    using free_space_exact [OF _ _ _ f, of "{2, 3}" 3 64 32] ok c
    by (auto simp: blank_heap_inv pool_inv_blank_owned fl_pages_def split: prod.splits outcome.splits)
qed

section \<open>Limits of the journal\<close>

text \<open>C18: the size of a page table of 5461 entries wraps around to zero although its encoding still fits its
  page. The journaled writer sizes its backup by it, so such a write succeeds but cannot be undone:
  rolling the journal back leaves the new page table in place.\<close>

theorem page_table_write_not_undone:
  assumes "length t = 5461" and "heap_inv h" and "p < p_pages HeapMemoryProvider h"
  shows "pt_size t = 0 \<and> length (pt_encode t) = 65536 \<and>
     (\<exists>h' j h''. write_at (JournaledWriter HeapMemoryProvider) PageTable p 0 t (h, []) = (Ok (), (h', j)) \<and>
        rollback HeapMemoryProvider j h' = (Ok (), h'') \<and>
        mm_pages memory h'' ! p = pt_encode t)"
proof -
  let ?P = HeapMemoryProvider
  have sz: "pt_size t = 0" using assms(1) by (simp add: pt_size_def wrap_add16_def wrap_mul16_def)
  have len: "length (pt_encode t) = 65536" using assms(1) by simp
  have al: "align_up 32 65536 = 65536" by (rule align_up_id) simp
  obtain h' where w: "mm_write_bytes_at ?P 32 0 (pt_encode t) p 0 h = (Ok (), h')" "heap_inv h'"
    "mm_pages memory h' = (mm_pages memory h)[p := splice_at 0 (padded 32 (pt_encode t)) (mm_pages memory h ! p)]"
    using heap.mm_write_bytes [OF assms(2,3), of 32 0 "pt_encode t" 0] len al by auto
  let ?e = "\<lparr>je_page = p, je_offset = 0, original_bytes = []\<rparr>"
  have rec: "journal_record ?P p 0 0 (h, []) = (Ok (), (h, [?e]))"
    using heap.journal_record_ok [OF assms(2,3), of 0 0 "[]"] by simp
  have run: "write_at (JournaledWriter ?P) PageTable p 0 t (h, []) = (Ok (), (h', [?e]))"
    using rec w(1) sz by (simp add: write_at_def JournaledWriter_def PageTable_def DEFAULT_ALIGNMENT_def
        jw_write_bytes_at_def delegate_def)
  have pl: "length (mm_pages memory h ! p) = 65536" using heap.mm.page_len [OF assms(2)] assms(2,3) by simp
  have page: "mm_pages memory h' ! p = pt_encode t"
    using w(3) assms(2,3) len al pl by (simp add: padded_def splice_at_all)
  have "fits [?e] (p_pages ?P h')"
    using w(2,3) assms(2,3) heap.length_mm_pages [OF assms(2)] heap.length_mm_pages [OF w(2)] by simp
  then obtain h'' where rb: "rollback ?P [?e] h' = (Ok (), h'')" "mm_pages memory h'' = undo [?e] (mm_pages memory h')"
    using heap.rollback_ok [OF w(2)] by blast
  have "mm_pages memory h'' = (mm_pages memory h')[p := mm_pages memory h' ! p]" using rb(2) by simp
  then have "mm_pages memory h'' ! p = pt_encode t" using page by (metis list_update_id)
  then show ?thesis using sz len run rb(1) by blast
qed

theorem page_table_write_not_undone_witness:
  "\<exists>h' j h''. write_at (JournaledWriter HeapMemoryProvider) PageTable 2 0
      (replicate 5461 \<lparr>pr_page = 7, pr_free = 0\<rparr>) (blank_heap 3, []) = (Ok (), (h', j)) \<and>
     rollback HeapMemoryProvider j h' = (Ok (), h'') \<and>
     mm_pages memory h'' ! 2 = pt_encode (replicate 5461 \<lparr>pr_page = 7, pr_free = 0\<rparr>)"
  using page_table_write_not_undone [of "replicate 5461 \<lparr>pr_page = 7, pr_free = 0\<rparr>" "blank_heap 3" 2]
  by (simp add: blank_heap_inv)

text \<open>C19: the backup of a raw write that would cross the end of its page is longer than what is left of the
  page. The write itself is refused without effect, but the rollback that follows is refused too, and
  the atomic block panics instead of returning the error.\<close>

theorem atomic_panics_on_page_crossing:
  assumes "heap_inv h" and "p < p_pages HeapMemoryProvider h" and "off < 65536" and "65536 < off + length bs"
  shows "\<exists>ctx'. atomic HeapMemoryProvider (with_writer (write_at_raw (JournaledWriter HeapMemoryProvider) p off bs))
      \<lparr>ctx_mm = h, ctx_journal = None\<rparr> = (Panic, ctx') \<and> ctx_mm ctx' = h"
proof -
  let ?P = HeapMemoryProvider
  have seg: "mm_write_at_raw ?P p off cs h = (Err (SegmentationFault p off (length cs) 65536), h)"
    if "65536 < off + length cs" for cs
    using that assms(1,2) by (simp add: mm_write_at_raw_def heap.page_size)
  let ?k = "65536 - off"
  let ?orig = "slice off ?k (mm_pages memory h ! p) @ replicate (length bs - ?k) 0"
  have "mm_read_at_raw ?P p off (replicate (length bs) 0) h = (Ok (?k, ?orig), h)"
    using heap.mm_read_raw [OF assms(1,2), of off ?k "replicate (length bs) 0"] assms(3,4) by simp
  then have rec: "journal_record ?P p off (length bs) (h, []) =
      (Ok (), (h, [\<lparr>je_page = p, je_offset = off, original_bytes = ?orig\<rparr>]))"
    by (simp add: journal_record_def)
  have "length (mm_pages memory h ! p) = 65536" using heap.mm.page_len [OF assms(1)] assms(1,2) by simp
  then have lo: "length ?orig = length bs" using assms(3,4) by simp
  have run: "write_at_raw (JournaledWriter ?P) p off bs (h, []) = (Err (SegmentationFault p off (length bs) 65536),
      (h, [\<lparr>je_page = p, je_offset = off, original_bytes = ?orig\<rparr>]))"
    using rec seg [OF assms(4)] by (simp add: JournaledWriter_def jw_write_at_raw_def delegate_def)
  have "rollback ?P [\<lparr>je_page = p, je_offset = off, original_bytes = ?orig\<rparr>] h =
      (Err (SegmentationFault p off (length ?orig) 65536), h)"
    using seg [of ?orig] lo assms(4) by (simp add: rollback_def)
  then show ?thesis using run by (simp add: atomic_def with_writer_def Let_def)
qed

theorem atomic_panics_on_page_crossing_witness:
  "\<exists>ctx'. atomic HeapMemoryProvider (with_writer (write_at_raw (JournaledWriter HeapMemoryProvider) 1 65535 [1, 2]))
      \<lparr>ctx_mm = blank_heap 2, ctx_journal = None\<rparr> = (Panic, ctx') \<and> ctx_mm ctx' = blank_heap 2"
  using atomic_panics_on_page_crossing [of "blank_heap 2" 1 65535 "[1, 2]"] by (simp add: blank_heap_inv)

end
